(* ===== verification/Prelude.thy ===== *)
theory Prelude
  imports Main "HOL-Library.Word"
begin

text \<open>
  The ground the components share: Go's fixed-width integers, the errors and panics the packages
  return, the result type of a Go function, and the generic lemmas on words, address ranges and
  lists that the component proofs use.

  A Go \<open>uint64\<close> or \<open>uintptr\<close> is a \<open>64 word\<close>, so additions wrap as they do in Go. A Go
  \<open>int\<close> or \<open>int64\<close> is an \<open>int\<close> whose arithmetic goes through \<open>i64\<close>, the two's
  complement wrap-around at 64 bits. The platform is one where \<open>int\<close> and \<open>uintptr\<close> have
  64 bits.
\<close>

unbundle bit_operations_syntax

section \<open>Types\<close>

type_synonym byte = "8 word"
type_synonym u32 = "32 word"
type_synonym u64 = "64 word"
type_synonym uintptr = "64 word"

text \<open>The word facts a proof moves to natural numbers with.\<close>

named_theorems word_nat \<open>unsigned arithmetic as arithmetic on natural numbers\<close>

text \<open>The operations of the model that a proof about a whole component unfolds.\<close>

named_theorems go_ops \<open>definitions of small operations\<close>

text \<open>
  The sentinel errors of the packages (\<open>errors.New\<close> at the top of balloc/core.go, arena/core.go,
  pure/arena.go, alloc/core.go, secure/buffer.go and secure/arena.go), \<open>io.EOF\<close>, and the errors
  that come from the operating system or from code outside the repository.
\<close>

datatype go_error =
    Balloc_ErrInvalidSize | Balloc_ErrOutOfMemory | Balloc_ErrNotFound | Balloc_ErrClosed
  | Arena_ErrInvalidSize | Arena_ErrNotFound
  | Pure_ErrInvalidSize | Pure_ErrOutOfMemory
  | Alloc_ErrNoAllocator
  | Secure_ErrInvalidSize | Secure_ErrUnsupportedPlatform | Secure_ErrOutOfMemory
  | Io_EOF
  | Sys_Err nat
  | Ext_Err string

text \<open>The run-time panics and faults the code can run into.\<close>

datatype go_panic =
    IndexOutOfRange | SliceBounds | DivideByZero | NilDereference
  | MakeSliceLen | UnsafeSliceLen | SegFault | PanicValue string

text \<open>
  The result of a Go function \<open>(T, error)\<close>: a value, an error, a panic, or no return at all
  (a loop that does not end, or that follows a pointer with nothing behind it).
\<close>

datatype 'a outcome = Ok 'a | Err go_error | Panic go_panic | Diverge

fun obind :: "'a outcome \<Rightarrow> ('a \<Rightarrow> 'b outcome) \<Rightarrow> 'b outcome" where
  "obind (Ok x) f = f x"
| "obind (Err e) f = Err e"
| "obind (Panic p) f = Panic p"
| "obind Diverge f = Diverge"

lemma obind_eq_Ok [simp]: "obind m f = Ok y \<longleftrightarrow> (\<exists>x. m = Ok x \<and> f x = Ok y)"
  by (cases m) auto

lemma obind_assoc: "obind (obind m f) g = obind m (\<lambda>x. obind (f x) g)"
  by (cases m) auto

text \<open>The longest slice \<open>make\<close> accepts; it panics beyond it and for negative lengths.\<close>

definition maxAlloc :: int where
  "maxAlloc = 2 ^ 48"

text \<open>Indexing a Go slice: out of range is a panic.\<close>

definition index_at :: "'a list \<Rightarrow> int \<Rightarrow> 'a outcome" where
  "index_at xs i = (if 0 \<le> i \<and> i < int (length xs) then Ok (xs ! nat i) else Panic IndexOutOfRange)"

lemma index_at_Ok [simp]: "0 \<le> i \<Longrightarrow> i < int (length xs) \<Longrightarrow> index_at xs i = Ok (xs ! nat i)"
  by (simp add: index_at_def)

text \<open>Two maps are equal when they hold the same entries.\<close>

lemma map_eqI: "(\<And>a d. m a = Some d \<longleftrightarrow> m' a = Some d) \<Longrightarrow> m = m'"
  by (rule ext) (metis not_Some_eq)

section \<open>Signed integers\<close>

text \<open>Go's \<open>int\<close> and \<open>int64\<close> arithmetic wraps around at 64 bits.\<close>

definition i64 :: "int \<Rightarrow> int" where
  "i64 x = signed_take_bit 63 x"

lemma i64_id: "- (2 ^ 63) \<le> x \<Longrightarrow> x < 2 ^ 63 \<Longrightarrow> i64 x = x"
  unfolding i64_def by (rule signed_take_bit_int_eq_self)

lemma i64_range: "- (2 ^ 63) \<le> i64 x \<and> i64 x < 2 ^ 63"
  unfolding i64_def
  using signed_take_bit_int_greater_eq_minus_exp [of 63 x] signed_take_bit_int_less_exp [of 63 x]
  by simp

lemma i64_eq_mod: "i64 x = (x + 2 ^ 63) mod 2 ^ 64 - 2 ^ 63"
  unfolding i64_def
  by (simp add: signed_take_bit_eq_take_bit_shift take_bit_eq_mod)

lemma i64_wrap: "2 ^ 63 \<le> x \<Longrightarrow> x < 2 ^ 64 + 2 ^ 63 \<Longrightarrow> i64 x = x - 2 ^ 64"
proof -
  assume x: "2 ^ 63 \<le> x" "x < 2 ^ 64 + 2 ^ 63"
  have "(x + 2 ^ 63) mod 2 ^ 64 = (x + 2 ^ 63 - 2 ^ 64) mod 2 ^ 64"
    by (simp only: minus_mod_self2)
  also have "\<dots> = x + 2 ^ 63 - 2 ^ 64"
    using x by (intro mod_pos_pos_trivial) auto
  finally show ?thesis
    by (simp add: i64_eq_mod)
qed

section \<open>Unsigned words\<close>

lemmas [word_nat] = word_le_nat_alt word_less_nat_alt

lemma unat_add_exact: "unat (x :: 'a :: len word) + unat y < 2 ^ LENGTH('a) \<Longrightarrow> unat (x + y) = unat x + unat y"
  by (simp add: unat_add_lem)

lemma unat_add_u64: "unat (x :: u64) + unat y < 2 ^ 64 \<Longrightarrow> unat (x + y) = unat x + unat y"
  by (rule unat_add_exact) simp

lemma unat_sub_u64: "unat y \<le> unat (x :: u64) \<Longrightarrow> unat (x - y) = unat x - unat y"
  by (simp add: unat_sub word_le_nat_alt)

lemma unat_lt_u64 [simp]: "unat (x :: u64) < 18446744073709551616"
  using unsigned_less [of x] by simp

lemma word_neq_nat: "(x :: 'a :: len word) \<noteq> y \<longleftrightarrow> unat x \<noteq> unat y"
  by (simp add: word_unat_eq_iff)

lemma unat_drop_bit_Suc_0_less: "(x :: 'a :: len word) \<noteq> 0 \<Longrightarrow> unat (drop_bit (Suc 0) x) < unat x"
proof -
  assume "x \<noteq> 0"
  then have "0 < unat x"
    by (simp add: unat_gt_0)
  moreover have "unat (drop_bit (Suc 0) x) = unat x div 2"
    by (simp only: unat_drop_bit_eq) (simp add: drop_bit_eq_div)
  ultimately show ?thesis
    by simp
qed

text \<open>Conversions between \<open>int\<close> and unsigned words, where nothing is lost.\<close>

lemma unat_word_of_int_u64: "0 \<le> i \<Longrightarrow> i < 2 ^ 64 \<Longrightarrow> unat (word_of_int i :: u64) = nat i"
  by (simp add: unat_eq_nat_uint uint_word_of_int)

lemma sint_eq_unat: "unat (x :: u64) < 2 ^ 63 \<Longrightarrow> sint x = int (unat x)"
proof -
  assume "unat x < 2 ^ 63"
  then have "int (unat x) < int (2 ^ 63)"
    by (simp only: of_nat_less_iff)
  then have "signed_take_bit 63 (uint x) = uint x"
    by (intro signed_take_bit_int_eq_self) (auto intro: order.trans [of _ 0])
  then show ?thesis
    by (simp add: sint_uint)
qed

lemma sint_nonneg_unat: "0 \<le> sint (x :: u64) \<Longrightarrow> unat x = nat (sint x)"
  using unat_word_of_int_u64 [of "sint x"] sint_lt [of x] by simp

lemma unat_mod_less_u64: "0 < unat (m :: u64) \<Longrightarrow> unat (x mod m) < unat m"
  by (simp add: unat_mod)

text \<open>Clearing the low \<open>k\<close> bits rounds down to a multiple of \<open>2 ^ k\<close>.\<close>

lemma and_not_mask_eq_shift: "(x :: 'a :: len word) AND NOT (mask k) = push_bit k (drop_bit k x)"
  by (rule bit_eqI) (auto simp: bit_simps)

lemma unat_and_not_mask:
  "unat ((x :: 'a :: len word) AND NOT (mask k)) = unat x div 2 ^ k * 2 ^ k"
proof -
  have le: "unat x div 2 ^ k * 2 ^ k \<le> unat x"
    by simp
  have "unat (push_bit k (drop_bit k x)) = (unat x div 2 ^ k * 2 ^ k) mod 2 ^ LENGTH('a)"
    by (simp only: unsigned_push_bit_eq unat_drop_bit_eq)
       (simp add: take_bit_eq_mod push_bit_eq_mult drop_bit_eq_div)
  also have "\<dots> = unat x div 2 ^ k * 2 ^ k"
    using le_less_trans [OF le unsigned_less [of x]] by (rule mod_less)
  finally show ?thesis
    by (simp add: and_not_mask_eq_shift)
qed

end
