(* ===== verification/Alloc_Spec.thy ===== *)
theory Alloc_Spec
  imports Prelude
begin

text \<open>
  The contract every allocator of the repository offers its clients, as a locale: a state with an
  invariant, the set of bytes handed out, and an \<open>alloc\<close> whose blocks never meet bytes handed out
  before. The client's theorem, proved once here, is about any sequence of calls: the blocks it
  returns are pairwise disjoint. The component theories interpret the locale on the models of
  balloc, pure, secure and the hybrid allocator. (The arena of the package arena is not one of them:
  there the addresses come from the Go heap, and its own invariant is in Arena.)
\<close>

text \<open>The bytes of a block, as natural numbers.\<close>

definition span :: "uintptr \<Rightarrow> nat \<Rightarrow> nat set" where
  "span a n = {unat a ..< unat a + n}"

text \<open>The blocks that a sequence of requests returns; failed requests return none.\<close>

fun run_allocs :: "('s \<Rightarrow> 'r \<Rightarrow> 's \<times> uintptr outcome) \<Rightarrow> ('r \<Rightarrow> nat) \<Rightarrow> 's \<Rightarrow> 'r list \<Rightarrow> (uintptr \<times> nat) list" where
  "run_allocs al need s [] = []"
| "run_allocs al need s (r # rs) =
     (case al s r of
        (s', Ok a) \<Rightarrow> (a, need r) # run_allocs al need s' rs
      | (s', _) \<Rightarrow> run_allocs al need s' rs)"

text \<open>Every request of the sequence meets the precondition when its turn comes.\<close>

fun run_ready :: "('s \<Rightarrow> 'r \<Rightarrow> 's \<times> uintptr outcome) \<Rightarrow> ('s \<Rightarrow> 'r \<Rightarrow> bool) \<Rightarrow> 's \<Rightarrow> 'r list \<Rightarrow> bool" where
  "run_ready al ready s [] \<longleftrightarrow> True"
| "run_ready al ready s (r # rs) \<longleftrightarrow> ready s r \<and> run_ready al ready (fst (al s r)) rs"

definition disjoint_spans :: "(uintptr \<times> nat) list \<Rightarrow> bool" where
  "disjoint_spans xs \<longleftrightarrow> sorted_wrt (\<lambda>x y. span (fst x) (snd x) \<inter> span (fst y) (snd y) = {}) xs"

locale allocator =
  fixes alloc :: "'s \<Rightarrow> 'r \<Rightarrow> 's \<times> uintptr outcome"
    and need :: "'r \<Rightarrow> nat"
    and invar :: "'s \<Rightarrow> bool"
    and ready :: "'s \<Rightarrow> 'r \<Rightarrow> bool"
    and used :: "'s \<Rightarrow> nat set"
  assumes alloc_invar: "invar s \<Longrightarrow> ready s r \<Longrightarrow> invar (fst (alloc s r))"
    and alloc_fresh: "invar s \<Longrightarrow> ready s r \<Longrightarrow> snd (alloc s r) = Ok a \<Longrightarrow> span a (need r) \<inter> used s = {}"
    and alloc_used: "invar s \<Longrightarrow> ready s r \<Longrightarrow> snd (alloc s r) = Ok a \<Longrightarrow> span a (need r) \<subseteq> used (fst (alloc s r))"
    and alloc_keep: "invar s \<Longrightarrow> ready s r \<Longrightarrow> used s \<subseteq> used (fst (alloc s r))"
begin

lemma run_invar: "invar s \<Longrightarrow> run_ready alloc ready s rs \<Longrightarrow> invar (foldl (\<lambda>s r. fst (alloc s r)) s rs)"
  by (induction rs arbitrary: s) (auto simp: alloc_invar)

lemma run_fresh:
  assumes "invar s" "run_ready alloc ready s rs" "(a, n) \<in> set (run_allocs alloc need s rs)"
  shows "span a n \<inter> used s = {}"
  using assms
proof (induction rs arbitrary: s)
  case Nil
  then show ?case by simp
next
  case (Cons r rs)
  let ?s' = "fst (alloc s r)"
  have rd: "ready s r" "run_ready alloc ready ?s' rs"
    using Cons.prems(2) by auto
  note inv' = alloc_invar [OF Cons.prems(1) rd(1)] and keep = alloc_keep [OF Cons.prems(1) rd(1)]
  obtain s' res where al: "alloc s r = (s', res)"
    by fastforce
  have rest: ?case if "(a, n) \<in> set (run_allocs alloc need s' rs)"
    using Cons.IH [OF inv' rd(2)] that keep al by auto
  show ?case
    using Cons.prems(3) al rest alloc_fresh [OF Cons.prems(1) rd(1), of a]
    by (cases res) auto
qed

lemma run_disjoint:
  assumes "invar s" "run_ready alloc ready s rs"
  shows "disjoint_spans (run_allocs alloc need s rs)"
  using assms
proof (induction rs arbitrary: s)
  case Nil
  then show ?case by (simp add: disjoint_spans_def)
next
  case (Cons r rs)
  have rd: "ready s r" "run_ready alloc ready (fst (alloc s r)) rs"
    using Cons.prems(2) by auto
  note inv' = alloc_invar [OF Cons.prems(1) rd(1)]
  obtain s' res where al: "alloc s r = (s', res)"
    by fastforce
  have rest: "disjoint_spans (run_allocs alloc need s' rs)"
    using Cons.IH [OF inv' rd(2)] al by simp
  show ?case
  proof (cases res)
    case (Ok a)
    have "span a (need r) \<subseteq> used s'"
      using alloc_used [OF Cons.prems(1) rd(1), of a] al Ok by simp
    moreover have "span b m \<inter> used s' = {}" if "(b, m) \<in> set (run_allocs alloc need s' rs)" for b m
      using run_fresh [OF inv' rd(2)] that al by auto
    ultimately have "span a (need r) \<inter> span b m = {}" if "(b, m) \<in> set (run_allocs alloc need s' rs)" for b m
      using that by blast
    with rest al Ok show ?thesis
      by (auto simp: disjoint_spans_def)
  qed (use rest al in auto)
qed

end

text \<open>An allocator that can be rewound: afterwards no byte is handed out.\<close>

locale resettable_allocator = allocator alloc need invar ready used
  for alloc :: "'s \<Rightarrow> 'r \<Rightarrow> 's \<times> uintptr outcome" and need invar ready used +
  fixes reset :: "'s \<Rightarrow> 's"
  assumes reset_invar: "invar s \<Longrightarrow> invar (reset s)"
    and reset_used: "invar s \<Longrightarrow> used (reset s) = {}"
begin

text \<open>What is allocated after a reset is again pairwise disjoint, and nothing is carried over.\<close>

lemma reset_run:
  assumes "invar s" "run_ready alloc ready (reset s) rs"
  shows "used (reset s) = {} \<and> disjoint_spans (run_allocs alloc need (reset s) rs)"
  using assms reset_used reset_invar run_disjoint by blast

end

text \<open>
  An allocator that always answers, with a block or with an error, and whose blocks lie in the
  address space and not at nil: what code that turns addresses into slices needs.
\<close>

locale total_allocator = resettable_allocator alloc need invar ready used reset
  for alloc :: "'s \<Rightarrow> 'r \<Rightarrow> 's \<times> uintptr outcome" and need invar ready used reset +
  assumes alloc_total: "invar s \<Longrightarrow> ready s r \<Longrightarrow> (\<exists>a. snd (alloc s r) = Ok a) \<or> (\<exists>e. snd (alloc s r) = Err e)"
    and used_space: "invar s \<Longrightarrow> used s \<subseteq> {0<..<2 ^ 64 - 1}"
begin

lemma alloc_cases:
  assumes "invar s" "ready s r"
  obtains (ok) s' a where "alloc s r = (s', Ok a)" "invar s'" "span a (need r) \<inter> used s = {}"
      "span a (need r) \<subseteq> used s'" "used s \<subseteq> used s'" "unat a + need r < 2 ^ 64" "0 < need r \<Longrightarrow> a \<noteq> 0"
  | (err) s' e where "alloc s r = (s', Err e)" "invar s'" "used s \<subseteq> used s'"
proof -
  obtain s' res where al: "alloc s r = (s', res)"
    by fastforce
  note I = alloc_invar [OF assms] alloc_keep [OF assms]
  show thesis
  proof (cases "\<exists>a. res = Ok a")
    case True
    then obtain a where a: "res = Ok a" ..
    have U: "span a (need r) \<inter> used s = {}" "span a (need r) \<subseteq> used s'"
      using alloc_fresh [OF assms, of a] alloc_used [OF assms, of a] al a by auto
    have "unat a + need r < 2 ^ 64"
    proof (cases "need r = 0")
      case False
      then have "unat a + need r - 1 \<in> span a (need r)"
        by (simp add: span_def)
      with U(2) used_space [of s'] I(1) al show ?thesis
        by force
    qed simp
    moreover have "a \<noteq> 0" if "0 < need r"
    proof
      assume "a = 0"
      then have "0 \<in> span a (need r)"
        using that by (simp add: span_def)
      with U(2) used_space [of s'] I(1) al show False
        by force
    qed
    ultimately show thesis
      using ok al a U I by auto
  next
    case False
    with alloc_total [OF assms] al obtain e where "res = Err e"
      by auto
    with err al I show thesis by auto
  qed
qed

end

end
