(* ===== verification/Go_Memory.thy ===== *)
theory Go_Memory
  imports Prelude Alloc_Spec
begin

text \<open>
  Memory and byte slices of Go, for the components that hand out and fill memory: a flat memory of
  bytes, a slice as pointer, length and capacity, the slice expressions with their bounds checks,
  \<open>make\<close> (which zeroes) and \<open>copy\<close>. The lemmas say what is read back after a write and what a
  write leaves alone; components state their properties on \<open>slice_bytes\<close>, the bytes a slice shows.
\<close>

section \<open>Memory\<close>

type_synonym mem = "uintptr \<Rightarrow> byte"

primrec write_bytes :: "mem \<Rightarrow> uintptr \<Rightarrow> byte list \<Rightarrow> mem" where
  "write_bytes m p [] = m"
| "write_bytes m p (b # bs) = write_bytes (m(p := b)) (p + 1) bs"

primrec read_bytes :: "mem \<Rightarrow> uintptr \<Rightarrow> nat \<Rightarrow> byte list" where
  "read_bytes m p 0 = []"
| "read_bytes m p (Suc n) = m p # read_bytes m (p + 1) n"

lemma length_read_bytes [simp]: "length (read_bytes m p n) = n"
  by (induction n arbitrary: p) auto

text \<open>A range of bytes that does not pass the end of the address space.\<close>

definition in_space :: "uintptr \<Rightarrow> nat \<Rightarrow> bool" where
  "in_space p n \<longleftrightarrow> unat p + n < 2 ^ 64"

lemma in_space_Suc: "in_space p (Suc n) \<Longrightarrow> unat (p + 1) = unat p + 1 \<and> in_space (p + 1) n"
  by (auto simp: in_space_def unat_add_u64)

lemma span_Suc: "in_space p (Suc n) \<Longrightarrow> span p (Suc n) = insert (unat p) (span (p + 1) n)"
  using in_space_Suc [of p n] by (auto simp: span_def)

lemma write_bytes_other:
  "in_space p (length bs) \<Longrightarrow> unat a \<notin> span p (length bs) \<Longrightarrow> write_bytes m p bs a = m a"
proof (induction bs arbitrary: m p)
  case Nil
  then show ?case by simp
next
  case (Cons b bs)
  then have s: "in_space (p + 1) (length bs)" "unat a \<noteq> unat p" "unat a \<notin> span (p + 1) (length bs)"
    using in_space_Suc [of p "length bs"] span_Suc [of p "length bs"] by auto
  then show ?case
    using Cons.IH [OF s(1,3), of "m(p := b)"] by (metis fun_upd_other write_bytes.simps(2))
qed

lemma read_write_bytes: "in_space p (length bs) \<Longrightarrow> read_bytes (write_bytes m p bs) p (length bs) = bs"
proof (induction bs arbitrary: m p)
  case Nil
  then show ?case by simp
next
  case (Cons b bs)
  then have s: "unat (p + 1) = unat p + 1" "in_space (p + 1) (length bs)"
    using in_space_Suc [of p "length bs"] by auto
  then have "unat p \<notin> span (p + 1) (length bs)"
    by (simp add: span_def)
  with Cons.IH [OF s(2)] write_bytes_other [OF s(2), of p "m(p := b)"] show ?case
    by simp
qed

lemma read_bytes_cong: "(\<And>a. unat a \<in> span p n \<Longrightarrow> m' a = m a) \<Longrightarrow> in_space p n \<Longrightarrow> read_bytes m' p n = read_bytes m p n"
proof (induction n arbitrary: p)
  case 0
  then show ?case by simp
next
  case (Suc n)
  then show ?case
    using in_space_Suc [of p n] span_Suc [of p n] by auto
qed

lemma read_bytes_write_other:
  assumes "in_space p (length bs)" "in_space q n" "span p (length bs) \<inter> span q n = {}"
  shows "read_bytes (write_bytes m p bs) q n = read_bytes m q n"
  using assms by (intro read_bytes_cong) (auto intro!: write_bytes_other)

lemma read_bytes_append: "read_bytes m p (n + k) = read_bytes m p n @ read_bytes m (p + of_nat n) k"
  by (induction n arbitrary: p) (auto simp: add_ac)

lemma in_space_le: "in_space p n \<Longrightarrow> k \<le> n \<Longrightarrow> in_space p k"
  by (simp add: in_space_def)

lemma in_space_add: "in_space p n \<Longrightarrow> k \<le> n \<Longrightarrow> unat (p + of_nat k) = unat p + k \<and> in_space (p + of_nat k) (n - k)"
proof -
  assume a: "in_space p n" "k \<le> n"
  then have "unat (of_nat k :: uintptr) = k"
    by (simp add: in_space_def unat_of_nat)
  with a have "unat (p + of_nat k) = unat p + k"
    by (subst unat_add_u64) (auto simp: in_space_def)
  with a show ?thesis
    by (simp add: in_space_def)
qed

lemma span_mono: "k \<le> n \<Longrightarrow> span p k \<subseteq> span p n"
  by (auto simp: span_def)

lemma span_add: "in_space p n \<Longrightarrow> k \<le> n \<Longrightarrow> span (p + of_nat k) (n - k) \<subseteq> span p n"
  using in_space_add [of p n k] by (auto simp: span_def)

section \<open>Slices\<close>

record slice =
  s_ptr :: uintptr
  s_len :: int
  s_cap :: int

definition slice_ok :: "slice \<Rightarrow> bool" where
  "slice_ok s \<longleftrightarrow> 0 \<le> s_len s \<and> s_len s \<le> s_cap s \<and> in_space (s_ptr s) (nat (s_cap s))"

definition slice_bytes :: "mem \<Rightarrow> slice \<Rightarrow> byte list" where
  "slice_bytes m s = read_bytes m (s_ptr s) (nat (s_len s))"

text \<open>The bytes up to the length, and the bytes up to the capacity.\<close>

definition slice_span :: "slice \<Rightarrow> nat set" where
  "slice_span s = span (s_ptr s) (nat (s_len s))"

definition cap_span :: "slice \<Rightarrow> nat set" where
  "cap_span s = span (s_ptr s) (nat (s_cap s))"

text \<open>A slice with no memory behind it: \<open>nil\<close> or \<open>[]byte{}\<close>. Its pointer is never used.\<close>

definition empty_slice :: slice where
  "empty_slice = \<lparr>s_ptr = 0, s_len = 0, s_cap = 0\<rparr>"

text \<open>\<open>s[lo:]\<close>, \<open>s[:hi]\<close> and \<open>s[lo:hi:max]\<close> with their run-time checks.\<close>

definition slice_from :: "slice \<Rightarrow> int \<Rightarrow> slice outcome" where
  "slice_from s lo =
     (if lo < 0 \<or> s_len s < lo then Panic SliceBounds
      else Ok \<lparr>s_ptr = s_ptr s + word_of_int lo, s_len = s_len s - lo, s_cap = s_cap s - lo\<rparr>)"

definition slice_upto :: "slice \<Rightarrow> int \<Rightarrow> slice outcome" where
  "slice_upto s hi =
     (if hi < 0 \<or> s_cap s < hi then Panic SliceBounds
      else Ok \<lparr>s_ptr = s_ptr s, s_len = hi, s_cap = s_cap s\<rparr>)"

definition slice3 :: "slice \<Rightarrow> int \<Rightarrow> int \<Rightarrow> int \<Rightarrow> slice outcome" where
  "slice3 s lo hi mx =
     (if mx < 0 \<or> s_cap s < mx \<or> hi < 0 \<or> mx < hi \<or> lo < 0 \<or> hi < lo then Panic SliceBounds
      else Ok \<lparr>s_ptr = s_ptr s + word_of_int lo, s_len = hi - lo, s_cap = mx - lo\<rparr>)"

text \<open>\<open>make([]byte, len, cap)\<close> at the address the runtime chose: zeroed memory.\<close>

definition go_make :: "mem \<Rightarrow> uintptr \<Rightarrow> int \<Rightarrow> int \<Rightarrow> (mem \<times> slice) outcome" where
  "go_make m p len cap =
     (if len < 0 \<or> cap < len \<or> maxAlloc < cap then Panic MakeSliceLen
      else Ok (write_bytes m p (replicate (nat cap) 0), \<lparr>s_ptr = p, s_len = len, s_cap = cap\<rparr>))"

text \<open>\<open>copy(dst, src)\<close>: as many bytes as both have, read before any is written.\<close>

definition go_copy :: "mem \<Rightarrow> slice \<Rightarrow> slice \<Rightarrow> mem \<times> int" where
  "go_copy m dst src =
     (let n = min (s_len dst) (s_len src) in
      (write_bytes m (s_ptr dst) (read_bytes m (s_ptr src) (nat n)), n))"

lemma length_slice_bytes [simp]: "length (slice_bytes m s) = nat (s_len s)"
  by (simp add: slice_bytes_def)

lemma slice_ok_empty [simp]: "slice_ok empty_slice"
  by (simp add: slice_ok_def empty_slice_def in_space_def)

lemma slice_bytes_empty [simp]: "slice_bytes m empty_slice = []"
  by (simp add: slice_bytes_def empty_slice_def)

lemma word_of_int_nat: "0 \<le> i \<Longrightarrow> word_of_int i = (of_nat (nat i) :: uintptr)"
  by simp

lemma slice_bytes_upto:
  assumes "0 \<le> k" "k \<le> s_len s" "slice_upto s k = Ok s'"
  shows "slice_bytes m s' = take (nat k) (slice_bytes m s)"
proof -
  have "nat (s_len s) = nat k + nat (s_len s - k)"
    using assms(1,2) by simp
  then show ?thesis
    using assms read_bytes_append [of m "s_ptr s" "nat k" "nat (s_len s - k)"]
    by (auto simp: slice_bytes_def slice_upto_def split: if_splits)
qed

lemma slice_bytes_from:
  assumes "slice_from s k = Ok s'"
  shows "slice_bytes m s' = drop (nat k) (slice_bytes m s)" "slice_ok s \<Longrightarrow> slice_ok s'"
    "slice_ok s \<Longrightarrow> cap_span s' \<subseteq> cap_span s"
proof -
  have k: "0 \<le> k" "k \<le> s_len s"
    using assms by (auto simp: slice_from_def split: if_splits)
  then have "nat (s_len s) = nat k + nat (s_len s - k)"
    by simp
  then show "slice_bytes m s' = drop (nat k) (slice_bytes m s)"
    using assms k read_bytes_append [of m "s_ptr s" "nat k" "nat (s_len s - k)"]
    by (auto simp: slice_bytes_def slice_from_def split: if_splits)
  assume ok: "slice_ok s"
  then have "nat k \<le> nat (s_cap s)" "nat (s_cap s - k) = nat (s_cap s) - nat k" "in_space (s_ptr s) (nat (s_cap s))"
    using k by (auto simp: slice_ok_def)
  note A = in_space_add [OF this(3,1)] span_add [OF this(3,1)] and N = this(2)
  have s': "s' = \<lparr>s_ptr = s_ptr s + of_nat (nat k), s_len = s_len s - k, s_cap = s_cap s - k\<rparr>"
    using assms k by (auto simp: slice_from_def split: if_splits)
  show "slice_ok s'" "cap_span s' \<subseteq> cap_span s"
    using k A ok by (simp_all add: s' N slice_ok_def cap_span_def)
qed

text \<open>What \<open>copy\<close> does to the destination and to any other range.\<close>

lemma go_copy_other:
  assumes "slice_ok dst" "in_space q n" "slice_span dst \<inter> span q n = {}"
  shows "read_bytes (fst (go_copy m dst src)) q n = read_bytes m q n"
proof -
  let ?k = "nat (min (s_len dst) (s_len src))"
  have "?k \<le> nat (s_len dst)" "nat (s_len dst) \<le> nat (s_cap dst)"
    using assms(1) by (auto simp: slice_ok_def)
  then have "in_space (s_ptr dst) ?k" "span (s_ptr dst) ?k \<subseteq> slice_span dst"
    using assms(1) span_mono by (auto simp: slice_ok_def slice_span_def intro: in_space_le)
  with assms(2,3) show ?thesis
    unfolding go_copy_def Let_def fst_conv by (intro read_bytes_write_other) auto
qed

lemma go_copy_bytes:
  assumes "slice_ok dst" "s_len src \<le> s_len dst" "0 \<le> s_len src"
  shows "read_bytes (fst (go_copy m dst src)) (s_ptr dst) (nat (s_len src)) = slice_bytes m src"
    and "snd (go_copy m dst src) = s_len src"
proof -
  have "in_space (s_ptr dst) (nat (s_len src))"
    using assms by (auto simp: slice_ok_def intro: in_space_le)
  with assms read_write_bytes [of "s_ptr dst" "slice_bytes m src" m]
  show "read_bytes (fst (go_copy m dst src)) (s_ptr dst) (nat (s_len src)) = slice_bytes m src"
    by (simp add: go_copy_def Let_def min_def slice_bytes_def)
  show "snd (go_copy m dst src) = s_len src"
    using assms by (simp add: go_copy_def Let_def)
qed

section \<open>The doubling loop of the buffers\<close>

text \<open>\<open>for newCap < needed { newCap <<= 1 }\<close>, in the \<open>grow\<close> of both packages' buffers.\<close>

partial_function (option) grow_loop :: "int \<Rightarrow> int \<Rightarrow> int option" where
  "grow_loop needed newCap = (if newCap < needed then grow_loop needed (i64 (newCap * 2)) else Some newCap)"

lemma grow_loop_ends:
  "0 < n \<Longrightarrow> needed \<le> 2 ^ 62 \<Longrightarrow> \<exists>k. grow_loop needed n = Some k \<and> n \<le> k \<and> needed \<le> k \<and> (k = n \<or> k < 2 * needed)"
proof (induction "nat (needed - n)" arbitrary: n rule: less_induct)
  case less
  show ?case
  proof (cases "n < needed")
    case True
    then have "i64 (n * 2) = n * 2"
      using less.prems by (intro i64_id) auto
    moreover from less.hyps [of "n * 2"] True less.prems obtain k where
      "grow_loop needed (n * 2) = Some k" "n * 2 \<le> k" "needed \<le> k" "k = n * 2 \<or> k < 2 * needed"
      by auto
    ultimately show ?thesis
      using True less.prems by (auto simp: grow_loop.simps [of needed n])
  next
    case False
    then show ?thesis
      by (auto simp: grow_loop.simps)
  qed
qed

text \<open>The capacity \<open>grow\<close> asks for.\<close>

definition grown_cap :: "int \<Rightarrow> int \<Rightarrow> int option" where
  "grown_cap cap needed = grow_loop needed (if cap = 0 then 64 else cap)"

lemma grown_cap_ends:
  assumes "0 \<le> cap" "cap < needed" "needed \<le> 2 ^ 62"
  obtains k where "grown_cap cap needed = Some k" "needed \<le> k" "k < 2 * needed + 64"
proof -
  have "0 < (if cap = 0 then 64 else cap)"
    using assms(1) by simp
  from grow_loop_ends [OF this assms(3)] obtain k where
    k: "grown_cap cap needed = Some k" "needed \<le> k" "k = (if cap = 0 then 64 else cap) \<or> k < 2 * needed"
    by (auto simp: grown_cap_def)
  then show thesis
    using assms by (intro that) (auto split: if_splits)
qed

end
