(* ===== verification/Secure_Mem.thy ===== *)
theory Secure_Mem
  imports Go_Memory
begin

text \<open>
  Zeroizing and cache flushing of the package secure: the assembly loops zero_amd64.s,
  zero_arm64.s, flush_amd64.s and flush_arm64.s, register by register, the portable loop of
  zero_generic.go, and the Go functions that call them. The address of the first element of an
  empty slice is never taken.

  Shown here: every variant of \<open>zeroBytes\<close> clears exactly the bytes of its slice, and ends; the
  flush loops end and touch every cache line of a region that starts on a line.
\<close>

section \<open>The loops\<close>

text \<open>Storing a 64-bit register, and clearing 8 bytes.\<close>

definition store_zero8 :: "mem \<Rightarrow> uintptr \<Rightarrow> mem" where
  "store_zero8 m p = write_bytes m p (replicate 8 0)"

text \<open>The label \<open>bytes\<close>: one byte a turn until the counter is zero.\<close>

function memzero_bytes :: "mem \<Rightarrow> uintptr \<Rightarrow> u64 \<Rightarrow> mem" where
  "memzero_bytes m di cx = (if cx = 0 then m else memzero_bytes (m(di := 0)) (di + 1) (cx - 1))"
  by pat_completeness auto
termination
  by (relation "measure (\<lambda>(m, di, cx). unat cx)") (auto simp: unat_minus_one unat_gt_0)

text \<open>The label \<open>words\<close>: eight bytes a turn while at least eight are left (unsigned comparison).\<close>

function memzero_amd64 :: "mem \<Rightarrow> uintptr \<Rightarrow> u64 \<Rightarrow> mem" where
  "memzero_amd64 m di cx =
     (if cx < 8 then memzero_bytes m di cx else memzero_amd64 (store_zero8 m di) (di + 8) (cx - 8))"
  by pat_completeness auto
termination
  by (relation "measure (\<lambda>(m, di, cx). unat cx)") (auto simp: word_less_nat_alt unat_sub_u64)

text \<open>On arm64 the comparison \<open>BLT\<close> is signed.\<close>

function memzero_arm64 :: "mem \<Rightarrow> uintptr \<Rightarrow> u64 \<Rightarrow> mem" where
  "memzero_arm64 m r0 r1 =
     (if sint r1 < 8 then memzero_bytes m r0 r1 else memzero_arm64 (store_zero8 m r0) (r0 + 8) (r1 - 8))"
  by pat_completeness auto
termination
proof (relation "measure (\<lambda>(m, r0, r1). unat r1)", simp, clarsimp)
  fix r1 :: u64
  assume "\<not> sint r1 < 8"
  then have "8 \<le> unat r1"
    using sint_nonneg_unat [of r1] by simp
  then show "unat (r1 - 8) < unat r1"
    by (simp add: unat_sub_u64)
qed

declare memzero_bytes.simps [simp del] memzero_amd64.simps [simp del] memzero_arm64.simps [simp del]

text \<open>The portable loop: \<open>for i := range b { b[i] = 0 }\<close>.\<close>

fun zero_loop :: "mem \<Rightarrow> uintptr \<Rightarrow> nat \<Rightarrow> nat \<Rightarrow> mem" where
  "zero_loop m p i 0 = m"
| "zero_loop m p i (Suc n) = zero_loop (m(p + of_nat i := 0)) p (Suc i) n"

datatype arch = Amd64 | Arm64 | OtherArch

definition zeroBytes_amd64 :: "mem \<Rightarrow> slice \<Rightarrow> mem" where
  "zeroBytes_amd64 m b = (if s_len b = 0 then m else memzero_amd64 m (s_ptr b) (word_of_int (s_len b)))"

definition zeroBytes_arm64 :: "mem \<Rightarrow> slice \<Rightarrow> mem" where
  "zeroBytes_arm64 m b = (if s_len b = 0 then m else memzero_arm64 m (s_ptr b) (word_of_int (s_len b)))"

definition zeroBytes_generic :: "mem \<Rightarrow> slice \<Rightarrow> mem" where
  "zeroBytes_generic m b = zero_loop m (s_ptr b) 0 (nat (s_len b))"

definition zeroBytes :: "arch \<Rightarrow> mem \<Rightarrow> slice \<Rightarrow> mem" where
  "zeroBytes ar m b =
     (case ar of Amd64 \<Rightarrow> zeroBytes_amd64 m b | Arm64 \<Rightarrow> zeroBytes_arm64 m b | OtherArch \<Rightarrow> zeroBytes_generic m b)"

text \<open>
  The flush loops return the addresses they flush. \<open>CMPQ AX, CX; JAE\<close> and \<open>CMP R0, R1; BLS\<close> both
  leave the loop when the running address has reached the end, unsigned. The step of 64 can pass
  the end of the address space, so the loops need not end for every input.
\<close>

partial_function (option) clflush_loop :: "uintptr \<Rightarrow> uintptr \<Rightarrow> uintptr list \<Rightarrow> uintptr list option" where
  "clflush_loop ax cx out = (if cx \<le> ax then Some out else clflush_loop (ax + 64) cx (out @ [ax]))"

definition clflushRange :: "uintptr \<Rightarrow> u64 \<Rightarrow> uintptr list option" where
  "clflushRange ptr n = clflush_loop ptr (ptr + n) []"

definition dcCivacRange :: "uintptr \<Rightarrow> u64 \<Rightarrow> uintptr list option" where
  "dcCivacRange ptr n = clflush_loop ptr (ptr + n) []"

definition flushBytes_amd64 :: "slice \<Rightarrow> uintptr list option" where
  "flushBytes_amd64 b = (if s_len b = 0 then Some [] else clflushRange (s_ptr b) (word_of_int (s_len b)))"

definition flushBytes_arm64 :: "slice \<Rightarrow> uintptr list option" where
  "flushBytes_arm64 b = (if s_len b = 0 then Some [] else dcCivacRange (s_ptr b) (word_of_int (s_len b)))"

definition flushBytes_generic :: "slice \<Rightarrow> uintptr list option" where
  "flushBytes_generic b = Some []"

definition flushBytes :: "arch \<Rightarrow> slice \<Rightarrow> uintptr list option" where
  "flushBytes ar b =
     (case ar of Amd64 \<Rightarrow> flushBytes_amd64 b | Arm64 \<Rightarrow> flushBytes_arm64 b | OtherArch \<Rightarrow> flushBytes_generic b)"

section \<open>Zeroizing\<close>

lemma memzero_bytes_eq: "memzero_bytes m p n = write_bytes m p (replicate (unat n) 0)"
proof (induction "unat n" arbitrary: m p n)
  case 0
  then have "n = 0"
    by (simp add: unat_eq_0)
  then show ?case
    by (simp add: memzero_bytes.simps)
next
  case (Suc k)
  then have nz: "n \<noteq> 0"
    by auto
  then have k: "unat (n - 1) = k"
    using Suc.hyps(2) by (simp add: unat_minus_one)
  have "memzero_bytes m p n = memzero_bytes (m(p := 0)) (p + 1) (n - 1)"
    using nz by (simp add: memzero_bytes.simps)
  also have "\<dots> = write_bytes (m(p := 0)) (p + 1) (replicate k 0)"
    using Suc.hyps(1) [of "n - 1"] k by simp
  finally show ?case
    using Suc.hyps(2) by (simp flip: Suc.hyps(2))
qed

lemma write_bytes_append: "write_bytes m p (xs @ ys) = write_bytes (write_bytes m p xs) (p + of_nat (length xs)) ys"
  by (induction xs arbitrary: m p) (auto simp: add_ac)

lemma store_zero8_step:
  assumes "8 \<le> unat (n :: u64)"
  shows "write_bytes (store_zero8 m p) (p + 8) (replicate (unat (n - 8)) 0) = write_bytes m p (replicate (unat n) 0)"
proof -
  have "replicate (unat n) (0 :: byte) = replicate 8 0 @ replicate (unat n - 8) 0"
    using assms by (simp flip: replicate_add)
  moreover have "unat (n - 8) = unat n - 8"
    using assms by (simp add: unat_sub_u64)
  ultimately show ?thesis
    by (simp only: store_zero8_def write_bytes_append length_replicate of_nat_numeral)
qed

lemma memzero_amd64_eq: "memzero_amd64 m p n = write_bytes m p (replicate (unat n) 0)"
proof (induction m p n rule: memzero_amd64.induct)
  case (1 m p n)
  show ?case
  proof (cases "n < 8")
    case True
    then show ?thesis
      by (simp add: memzero_amd64.simps [of m p n] memzero_bytes_eq)
  next
    case False
    then have "8 \<le> unat n"
      by (simp add: word_less_nat_alt)
    with False 1 store_zero8_step [of n m p] show ?thesis
      by (simp add: memzero_amd64.simps [of m p n])
  qed
qed

lemma memzero_arm64_eq:
  "unat n < 2 ^ 63 \<Longrightarrow> memzero_arm64 m p n = write_bytes m p (replicate (unat n) 0)"
proof (induction m p n rule: memzero_arm64.induct)
  case (1 m p n)
  show ?case
  proof (cases "sint n < 8")
    case True
    then show ?thesis
      by (simp add: memzero_arm64.simps [of m p n] memzero_bytes_eq)
  next
    case False
    then have "8 \<le> unat n"
      using sint_nonneg_unat [of n] by simp
    moreover from this have "unat (n - 8) < 2 ^ 63"
      using "1.prems" by (simp add: unat_sub_u64)
    ultimately show ?thesis
      using False "1.IH" store_zero8_step [of n m p] by (simp add: memzero_arm64.simps [of m p n])
  qed
qed

lemma zero_loop_eq: "zero_loop m p i n = write_bytes m (p + of_nat i) (replicate n 0)"
  by (induction n arbitrary: m i) (auto simp: add_ac)

lemma zeroBytes_eq:
  assumes "slice_ok b" "s_len b < 2 ^ 63"
  shows "zeroBytes ar m b = write_bytes m (s_ptr b) (replicate (nat (s_len b)) 0)"
proof -
  have "unat (word_of_int (s_len b) :: u64) = nat (s_len b)"
    using assms by (intro unat_word_of_int_u64) (auto simp: slice_ok_def)
  moreover have "nat (s_len b) < 2 ^ 63"
    using assms by (simp add: nat_less_iff slice_ok_def)
  ultimately show ?thesis
    by (cases ar) (simp_all add: zeroBytes_def zeroBytes_amd64_def zeroBytes_arm64_def zeroBytes_generic_def
        memzero_amd64_eq memzero_arm64_eq zero_loop_eq)
qed

lemma zeroBytes_effect:
  assumes "slice_ok b" "s_len b < 2 ^ 63"
  shows "slice_bytes (zeroBytes ar m b) b = replicate (nat (s_len b)) 0 \<and>
    (\<forall>a. unat a \<notin> slice_span b \<longrightarrow> zeroBytes ar m b a = m a)"
proof -
  have sp: "in_space (s_ptr b) (nat (s_len b))"
    using assms(1) by (auto simp: slice_ok_def intro: in_space_le)
  have "slice_bytes (zeroBytes ar m b) b = replicate (nat (s_len b)) 0"
    using read_write_bytes [of "s_ptr b" "replicate (nat (s_len b)) 0" m] sp
    by (simp add: zeroBytes_eq [OF assms] slice_bytes_def)
  moreover have "zeroBytes ar m b a = m a" if "unat a \<notin> slice_span b" for a
    using that sp by (simp add: zeroBytes_eq [OF assms] write_bytes_other slice_span_def)
  ultimately show ?thesis by blast
qed

text \<open>
  C33: zeroizing a slice, by the assembly loop of either architecture or by the portable loop, ends
  and clears every byte of the slice and no other byte of memory.
\<close>

theorem zeroBytes_clears:
  assumes "slice_ok b" "s_len b < 2 ^ 63"
  shows "slice_bytes (zeroBytes ar m b) b = replicate (nat (s_len b)) 0 \<and>
    (\<forall>a. unat a \<notin> slice_span b \<longrightarrow> zeroBytes ar m b a = m a)"
  by (rule zeroBytes_effect [OF assms])

theorem zeroBytes_clears_witness:
  "slice_bytes (zeroBytes Amd64 (\<lambda>_. 7) \<lparr>s_ptr = 0x5000, s_len = 19, s_cap = 4096\<rparr>) \<lparr>s_ptr = 0x5000, s_len = 19, s_cap = 4096\<rparr>
     = replicate 19 0"
  using zeroBytes_clears [of "\<lparr>s_ptr = 0x5000, s_len = 19, s_cap = 4096\<rparr>" Amd64 "\<lambda>_. 7"]
  by (simp add: slice_ok_def in_space_def)

section \<open>Flushing\<close>

lemma clflush_loop_ends:
  assumes "unat p + 64 * k + 64 < 2 ^ 64" "unat e \<le> unat p + 64 * k"
  shows "\<exists>n. clflush_loop p e out = Some (out @ map (\<lambda>i. p + of_nat (64 * i)) [0..<n]) \<and> n \<le> k \<and>
    unat e \<le> unat p + 64 * n \<and> (n = 0 \<or> unat p + 64 * (n - 1) < unat e)"
  using assms
proof (induction k arbitrary: p out)
  case 0
  then show ?case
    by (intro exI [of _ 0]) (auto simp: clflush_loop.simps word_le_nat_alt)
next
  case (Suc k)
  show ?case
  proof (cases "e \<le> p")
    case True
    then show ?thesis
      by (intro exI [of _ 0]) (auto simp: clflush_loop.simps word_le_nat_alt)
  next
    case False
    have u: "unat (p + 64) = unat p + 64"
      using Suc.prems(1) by (subst unat_add_u64) auto
    from Suc.IH [of "p + 64" "out @ [p]"] Suc.prems u obtain n where
      n: "clflush_loop (p + 64) e (out @ [p]) = Some ((out @ [p]) @ map (\<lambda>i. p + 64 + of_nat (64 * i)) [0..<n])"
        "n \<le> k" "unat e \<le> unat p + 64 + 64 * n" "n = 0 \<or> unat p + 64 + 64 * (n - 1) < unat e"
      by auto
    have "[p] @ map (\<lambda>i. p + 64 + of_nat (64 * i)) [0..<n] = map (\<lambda>i. p + of_nat (64 * i)) [0..<Suc n]"
      by (simp add: upt_conv_Cons map_Suc_upt [symmetric] comp_def algebra_simps del: upt_Suc)
    then have "clflush_loop p e out = Some (out @ map (\<lambda>i. p + of_nat (64 * i)) [0..<Suc n])"
      using n(1) False by (subst clflush_loop.simps) simp
    moreover have "unat p < unat e"
      using False by (simp add: word_le_nat_alt)
    then have "unat p + 64 * n < unat e"
      using n(4) by (cases n) auto
    ultimately show ?thesis
      using n(2,3) by (intro exI [of _ "Suc n"]) simp
  qed
qed

lemma flushBytes_lines:
  assumes "slice_ok b" "64 dvd unat (s_ptr b)" "unat (s_ptr b) + nat (s_len b) + 128 < 2 ^ 64" "ar \<noteq> OtherArch"
  shows "\<exists>lines. flushBytes ar b = Some lines \<and>
    (\<forall>x \<in> slice_span b. \<exists>l \<in> set lines. unat l \<le> x \<and> x < unat l + 64) \<and>
    (\<forall>l \<in> set lines. unat l \<in> slice_span b \<and> 64 dvd unat l)"
proof (cases "s_len b = 0")
  case True
  then show ?thesis
    using assms(4) by (cases ar) (auto simp: flushBytes_def flushBytes_amd64_def flushBytes_arm64_def slice_span_def span_def)
next
  case False
  let ?p = "s_ptr b" and ?n = "nat (s_len b)"
  have pos: "0 < s_len b"
    using assms(1) False by (auto simp: slice_ok_def)
  have w: "unat (word_of_int (s_len b) :: u64) = ?n"
    using assms(3) pos by (intro unat_word_of_int_u64) auto
  have e: "unat (?p + word_of_int (s_len b)) = unat ?p + ?n"
    using assms(3) w by (subst unat_add_u64) auto
  define k where "k = ?n div 64 + 1"
  have "64 * (?n div 64) \<le> ?n" "?n \<le> 64 * (?n div 64) + 63"
    by auto
  then have k: "unat ?p + 64 * k + 64 < 2 ^ 64" "unat ?p + ?n \<le> unat ?p + 64 * k"
    using assms(3) by (auto simp: k_def)
  from clflush_loop_ends [OF k(1), of "?p + word_of_int (s_len b)" "[]"] k(2) e obtain n where
    n: "clflush_loop ?p (?p + word_of_int (s_len b)) [] = Some (map (\<lambda>i. ?p + of_nat (64 * i)) [0..<n])"
      "n \<le> k" "?n \<le> 64 * n" "n = 0 \<or> 64 * (n - 1) < ?n"
    by auto
  let ?lines = "map (\<lambda>i. ?p + of_nat (64 * i)) [0..<n]"
  have u: "unat (?p + of_nat (64 * i)) = unat ?p + 64 * i" if "i < n" for i
  proof -
    have "unat (of_nat (64 * i) :: u64) = 64 * i"
      using that n(2) k(1) by (simp add: unat_of_nat del: of_nat_mult)
    then show ?thesis
      using that n(2) k(1) by (subst unat_add_u64) (auto simp del: of_nat_mult)
  qed
  have "flushBytes ar b = Some ?lines"
    using assms(4) False n(1) by (cases ar) (simp_all add: flushBytes_def flushBytes_amd64_def flushBytes_arm64_def
        clflushRange_def dcCivacRange_def)
  moreover have "\<exists>l \<in> set ?lines. unat l \<le> x \<and> x < unat l + 64" if x: "x \<in> slice_span b" for x
  proof -
    define i where "i = (x - unat ?p) div 64"
    have "x - unat ?p < 64 * n" "unat ?p \<le> x"
      using x n(3) by (auto simp: slice_span_def span_def)
    then have "i < n" "unat ?p + 64 * i \<le> x" "x < unat ?p + 64 * i + 64"
      by (auto simp: i_def)
    then show ?thesis
      using u by (intro bexI [of _ "?p + of_nat (64 * i)"]) auto
  qed
  moreover have "unat l \<in> slice_span b \<and> 64 dvd unat l" if "l \<in> set ?lines" for l
  proof -
    from that obtain i where i: "i < n" "l = ?p + of_nat (64 * i)" by auto
    then have "64 * i < ?n"
      using n(4) by auto
    then show ?thesis
      using u [OF i(1)] i(2) assms(2) by (simp add: slice_span_def span_def)
  qed
  ultimately show ?thesis by blast
qed

text \<open>
  C34: the flush of a slice that starts on a cache line, as page-aligned memory does, ends on every
  architecture. On amd64 and arm64 the 64-byte lines it flushes cover every byte of the slice, and
  every line it flushes holds a byte of the slice. On other architectures nothing is flushed, whatever
  the slice.
\<close>

theorem flushBytes_covers:
  assumes "slice_ok b" "64 dvd unat (s_ptr b)" "unat (s_ptr b) + nat (s_len b) + 128 < 2 ^ 64"
  shows "\<exists>lines. flushBytes ar b = Some lines \<and>
    (if ar = OtherArch then lines = []
     else (\<forall>x \<in> slice_span b. \<exists>l \<in> set lines. unat l \<le> x \<and> x < unat l + 64) \<and>
       (\<forall>l \<in> set lines. unat l \<in> slice_span b \<and> 64 dvd unat l)) \<and>
    flushBytes OtherArch c = Some []"
  using flushBytes_lines [OF assms, of ar] by (auto simp: flushBytes_def flushBytes_generic_def)

theorem flushBytes_covers_witness:
  "\<exists>lines. flushBytes Arm64 \<lparr>s_ptr = 0x5000, s_len = 100, s_cap = 4096\<rparr> = Some lines \<and>
     (\<forall>x \<in> slice_span \<lparr>s_ptr = 0x5000, s_len = 100, s_cap = 4096\<rparr>. \<exists>l \<in> set lines. unat l \<le> x \<and> x < unat l + 64)"
proof -
  let ?b = "\<lparr>s_ptr = 0x5000, s_len = 100, s_cap = 4096\<rparr>"
  have "slice_ok ?b" "64 dvd unat (s_ptr ?b)" "unat (s_ptr ?b) + nat (s_len ?b) + 128 < 2 ^ 64"
    by (simp_all add: slice_ok_def in_space_def)
  from flushBytes_covers [OF this, of Arm64 ?b] show ?thesis by simp blast
qed

end
