(* ===== verification/Secure_Sys.thy ===== *)
theory Secure_Sys
  imports Go_Memory
begin

text \<open>
  The operating-system layer of the package secure (sys_linux.go, sys_freebsd.go, sys_darwin.go,
  sys_windows.go, sys_other.go and the harden files). The kernel is a parameter: a function from
  the history of system calls to the answer to the next one, so any of them may fail at any time.
  Every operation returns the history extended by its calls and their answers, and
  \<open>kernel_state\<close> reads off a history what is mapped, locked, kept out of dumps and protected.

  Shown here: an allocation that fails leaves nothing mapped; a lock that fails leaves nothing
  locked and no dump flag changed; the layout of guard pages.
\<close>

section \<open>System calls\<close>

datatype advice = MADV_DONTDUMP | MADV_DODUMP | MADV_UNMERGEABLE | MADV_NOCORE | MADV_CORE

datatype syscall =
    SysMmap int
  | SysMprotectNone uintptr int
  | SysMunmap uintptr int
  | SysMlock uintptr int
  | SysMunlock uintptr int
  | SysMadvise uintptr int advice
  | SysVirtualAlloc u64
  | SysVirtualProtectNone uintptr u64
  | SysVirtualFree uintptr
  | SysVirtualLock uintptr u64
  | SysVirtualUnlock uintptr u64
  | SysWerFind string
  | SysWerRegister uintptr u64
  | SysWerUnregister uintptr u64
  | SysPrctlDumpable0
  | SysSetrlimitCore0
  | SysPtraceDenyAttach
  | SysProcctlTraceDisable

type_synonym os_log = "(syscall \<times> (go_error + uintptr)) list"
type_synonym kernel = "os_log \<Rightarrow> syscall \<Rightarrow> go_error + uintptr"

definition os_call :: "kernel \<Rightarrow> os_log \<Rightarrow> syscall \<Rightarrow> os_log \<times> (go_error + uintptr)" where
  "os_call k log c = (log @ [(c, k log c)], k log c)"

text \<open>A call whose answer is ignored, and one that matters only as an error.\<close>

definition os_do :: "kernel \<Rightarrow> os_log \<Rightarrow> syscall \<Rightarrow> os_log" where
  "os_do k log c = fst (os_call k log c)"

definition os_try :: "kernel \<Rightarrow> os_log \<Rightarrow> syscall \<Rightarrow> os_log \<times> go_error option" where
  "os_try k log c = map_prod id (\<lambda>r. case r of Inl e \<Rightarrow> Some e | Inr _ \<Rightarrow> None) (os_call k log c)"

definition with_ok :: "os_log \<Rightarrow> 'a outcome \<Rightarrow> ('a \<Rightarrow> os_log \<times> 'b outcome) \<Rightarrow> os_log \<times> 'b outcome" where
  "with_ok log r f =
     (case r of Ok x \<Rightarrow> f x | Err e \<Rightarrow> (log, Err e) | Panic q \<Rightarrow> (log, Panic q) | Diverge \<Rightarrow> (log, Diverge))"

text \<open>Go's integer division truncates.\<close>

definition tdiv :: "int \<Rightarrow> int \<Rightarrow> int" where
  "tdiv a b = (if 0 \<le> a then a div b else - (- a div b))"

definition os_slice :: "uintptr \<Rightarrow> int \<Rightarrow> slice" where
  "os_slice p n = \<lparr>s_ptr = p, s_len = n, s_cap = n\<rparr>"

text \<open>\<open>(size + ps - 1) / ps * ps\<close>\<close>

definition round_pages :: "int \<Rightarrow> int \<Rightarrow> int" where
  "round_pages ps sz = i64 (tdiv (i64 (sz + ps - 1)) ps * ps)"

section \<open>Allocation\<close>

definition platformAlloc_linux :: "kernel \<Rightarrow> int \<Rightarrow> os_log \<Rightarrow> int \<Rightarrow> bool \<Rightarrow> os_log \<times> (slice \<times> slice) outcome" where
  "platformAlloc_linux k ps log sz guard =
     (if \<not> guard then
        (case os_call k log (SysMmap sz) of
           (log1, Inl e) \<Rightarrow> (log1, Err e)
         | (log1, Inr p) \<Rightarrow> (log1, Ok (os_slice p sz, os_slice p sz)))
      else
        let inner = round_pages ps sz;
            total = i64 (inner + 2 * ps)
        in case os_call k log (SysMmap total) of
             (log1, Inl e) \<Rightarrow> (log1, Err e)
           | (log1, Inr p) \<Rightarrow>
               let m = os_slice p total in
               with_ok log1 (slice_upto m ps) (\<lambda>lo.
                 case os_try k log1 (SysMprotectNone (s_ptr lo) (s_len lo)) of
                   (log2, Some e) \<Rightarrow> (os_do k log2 (SysMunmap (s_ptr m) (s_len m)), Err e)
                 | (log2, None) \<Rightarrow>
                     with_ok log2 (slice_from m (i64 (ps + inner))) (\<lambda>hi.
                       case os_try k log2 (SysMprotectNone (s_ptr hi) (s_len hi)) of
                         (log3, Some e) \<Rightarrow> (os_do k log3 (SysMunmap (s_ptr m) (s_len m)), Err e)
                       | (log3, None) \<Rightarrow>
                           with_ok log3 (slice3 m ps (i64 (ps + sz)) (i64 (ps + inner))) (\<lambda>d. (log3, Ok (m, d))))))"

text \<open>The text of sys_freebsd.go and sys_darwin.go is the same.\<close>

definition platformAlloc_freebsd :: "kernel \<Rightarrow> int \<Rightarrow> os_log \<Rightarrow> int \<Rightarrow> bool \<Rightarrow> os_log \<times> (slice \<times> slice) outcome" where
  "platformAlloc_freebsd k ps log sz guard = platformAlloc_linux k ps log sz guard"

definition platformAlloc_darwin :: "kernel \<Rightarrow> int \<Rightarrow> os_log \<Rightarrow> int \<Rightarrow> bool \<Rightarrow> os_log \<times> (slice \<times> slice) outcome" where
  "platformAlloc_darwin k ps log sz guard = platformAlloc_linux k ps log sz guard"

definition platformAlloc_windows :: "kernel \<Rightarrow> int \<Rightarrow> os_log \<Rightarrow> int \<Rightarrow> bool \<Rightarrow> os_log \<times> (slice \<times> slice) outcome" where
  "platformAlloc_windows k ps log sz guard =
     (if \<not> guard then
        (case os_call k log (SysVirtualAlloc (word_of_int sz)) of
           (log1, Inl e) \<Rightarrow> (log1, Err e)
         | (log1, Inr p) \<Rightarrow> (log1, Ok (os_slice p sz, os_slice p sz)))
      else
        let inner = round_pages ps sz;
            total = i64 (inner + 2 * ps)
        in case os_call k log (SysVirtualAlloc (word_of_int total)) of
             (log1, Inl e) \<Rightarrow> (log1, Err e)
           | (log1, Inr base) \<Rightarrow>
               (case os_try k log1 (SysVirtualProtectNone base (word_of_int ps)) of
                  (log2, Some e) \<Rightarrow> (os_do k log2 (SysVirtualFree base), Err e)
                | (log2, None) \<Rightarrow>
                    (case os_try k log2 (SysVirtualProtectNone (base + word_of_int (i64 (ps + inner))) (word_of_int ps)) of
                       (log3, Some e) \<Rightarrow> (os_do k log3 (SysVirtualFree base), Err e)
                     | (log3, None) \<Rightarrow>
                         let m = os_slice base total in
                         with_ok log3 (slice3 m ps (i64 (ps + sz)) (i64 (ps + inner))) (\<lambda>d. (log3, Ok (m, d))))))"

definition platformAlloc_other :: "os_log \<Rightarrow> os_log \<times> (slice \<times> slice) outcome" where
  "platformAlloc_other log = (log, Err Secure_ErrUnsupportedPlatform)"

definition platformFree_linux :: "kernel \<Rightarrow> os_log \<Rightarrow> slice \<Rightarrow> os_log \<times> go_error option" where
  "platformFree_linux k log m = os_try k log (SysMunmap (s_ptr m) (s_len m))"

definition platformFree_freebsd :: "kernel \<Rightarrow> os_log \<Rightarrow> slice \<Rightarrow> os_log \<times> go_error option" where
  "platformFree_freebsd k log m = os_try k log (SysMunmap (s_ptr m) (s_len m))"

definition platformFree_darwin :: "kernel \<Rightarrow> os_log \<Rightarrow> slice \<Rightarrow> os_log \<times> go_error option" where
  "platformFree_darwin k log m = os_try k log (SysMunmap (s_ptr m) (s_len m))"

definition platformFree_windows :: "kernel \<Rightarrow> os_log \<Rightarrow> slice \<Rightarrow> os_log \<times> go_error option" where
  "platformFree_windows k log m = (if s_len m = 0 then (log, None) else os_try k log (SysVirtualFree (s_ptr m)))"

definition platformFree_other :: "os_log \<Rightarrow> os_log \<times> go_error option" where
  "platformFree_other log = (log, Some Secure_ErrUnsupportedPlatform)"

section \<open>Locking\<close>

definition lockPages_linux :: "kernel \<Rightarrow> os_log \<Rightarrow> slice \<Rightarrow> os_log \<times> go_error option" where
  "lockPages_linux k log b =
     (case os_try k log (SysMlock (s_ptr b) (s_len b)) of
        (log1, Some e) \<Rightarrow> (log1, Some e)
      | (log1, None) \<Rightarrow>
          (case os_try k log1 (SysMadvise (s_ptr b) (s_len b) MADV_DONTDUMP) of
             (log2, Some e) \<Rightarrow> (os_do k log2 (SysMunlock (s_ptr b) (s_len b)), Some e)
           | (log2, None) \<Rightarrow>
               (case os_try k log2 (SysMadvise (s_ptr b) (s_len b) MADV_UNMERGEABLE) of
                  (log3, Some e) \<Rightarrow>
                    (os_do k (os_do k log3 (SysMadvise (s_ptr b) (s_len b) MADV_DODUMP))
                       (SysMunlock (s_ptr b) (s_len b)), Some e)
                | (log3, None) \<Rightarrow> (log3, None))))"

definition unlockPages_linux :: "kernel \<Rightarrow> os_log \<Rightarrow> slice \<Rightarrow> os_log" where
  "unlockPages_linux k log b =
     os_do k (os_do k log (SysMadvise (s_ptr b) (s_len b) MADV_DODUMP)) (SysMunlock (s_ptr b) (s_len b))"

definition lockPages_freebsd :: "kernel \<Rightarrow> os_log \<Rightarrow> slice \<Rightarrow> os_log \<times> go_error option" where
  "lockPages_freebsd k log b =
     (case os_try k log (SysMlock (s_ptr b) (s_len b)) of
        (log1, Some e) \<Rightarrow> (log1, Some e)
      | (log1, None) \<Rightarrow>
          (case os_try k log1 (SysMadvise (s_ptr b) (s_len b) MADV_NOCORE) of
             (log2, Some e) \<Rightarrow> (os_do k log2 (SysMunlock (s_ptr b) (s_len b)), Some e)
           | (log2, None) \<Rightarrow> (log2, None)))"

definition unlockPages_freebsd :: "kernel \<Rightarrow> os_log \<Rightarrow> slice \<Rightarrow> os_log" where
  "unlockPages_freebsd k log b =
     os_do k (os_do k log (SysMadvise (s_ptr b) (s_len b) MADV_CORE)) (SysMunlock (s_ptr b) (s_len b))"

definition lockPages_darwin :: "kernel \<Rightarrow> os_log \<Rightarrow> slice \<Rightarrow> os_log \<times> go_error option" where
  "lockPages_darwin k log b = os_try k log (SysMlock (s_ptr b) (s_len b))"

definition unlockPages_darwin :: "kernel \<Rightarrow> os_log \<Rightarrow> slice \<Rightarrow> os_log" where
  "unlockPages_darwin k log b = os_do k log (SysMunlock (s_ptr b) (s_len b))"

text \<open>The answer of \<open>WerRegisterExcludedMemoryBlock\<close> is a status, 0 for success.\<close>

definition werExclude :: "kernel \<Rightarrow> os_log \<Rightarrow> uintptr \<Rightarrow> u64 \<Rightarrow> os_log \<times> go_error option" where
  "werExclude k log addr sz =
     (case os_try k log (SysWerFind ''WerRegisterExcludedMemoryBlock'') of
        (log1, Some e) \<Rightarrow> (log1, Some e)
      | (log1, None) \<Rightarrow>
          (case os_call k log1 (SysWerRegister addr sz) of
             (log2, Inl e) \<Rightarrow> (log2, Some e)
           | (log2, Inr hr) \<Rightarrow>
               (log2, if hr \<noteq> 0 then Some (Ext_Err ''secure: WerRegisterExcludedMemoryBlock'') else None)))"

definition werInclude :: "kernel \<Rightarrow> os_log \<Rightarrow> uintptr \<Rightarrow> u64 \<Rightarrow> os_log" where
  "werInclude k log addr sz =
     (case os_try k log (SysWerFind ''WerUnregisterExcludedMemoryBlock'') of
        (log1, Some e) \<Rightarrow> log1
      | (log1, None) \<Rightarrow> os_do k log1 (SysWerUnregister addr sz))"

text \<open>\<open>&b[0]\<close> of an empty slice would panic; \<open>NewBuffer\<close> never makes one.\<close>

definition lockPages_windows :: "kernel \<Rightarrow> os_log \<Rightarrow> slice \<Rightarrow> os_log \<times> go_error option" where
  "lockPages_windows k log b =
     (case os_try k log (SysVirtualLock (s_ptr b) (word_of_int (s_len b))) of
        (log1, Some e) \<Rightarrow> (log1, Some e)
      | (log1, None) \<Rightarrow> (fst (werExclude k log1 (s_ptr b) (word_of_int (s_len b))), None))"

definition unlockPages_windows :: "kernel \<Rightarrow> os_log \<Rightarrow> slice \<Rightarrow> os_log" where
  "unlockPages_windows k log b =
     os_do k (werInclude k log (s_ptr b) (word_of_int (s_len b))) (SysVirtualUnlock (s_ptr b) (word_of_int (s_len b)))"

definition lockPages_other :: "os_log \<Rightarrow> os_log \<times> go_error option" where
  "lockPages_other log = (log, Some Secure_ErrUnsupportedPlatform)"

definition unlockPages_other :: "os_log \<Rightarrow> os_log" where
  "unlockPages_other log = log"

section \<open>Process hardening\<close>

definition HardenProcess_linux :: "kernel \<Rightarrow> os_log \<Rightarrow> os_log \<times> go_error option" where
  "HardenProcess_linux k log =
     (case os_try k log SysPrctlDumpable0 of
        (log1, Some e) \<Rightarrow> (log1, Some e)
      | (log1, None) \<Rightarrow> os_try k log1 SysSetrlimitCore0)"

definition HardenProcess_freebsd :: "kernel \<Rightarrow> os_log \<Rightarrow> os_log \<times> go_error option" where
  "HardenProcess_freebsd k log =
     (case os_try k log SysProcctlTraceDisable of
        (log1, Some e) \<Rightarrow> (log1, Some e)
      | (log1, None) \<Rightarrow> os_try k log1 SysSetrlimitCore0)"

definition HardenProcess_darwin :: "kernel \<Rightarrow> os_log \<Rightarrow> os_log \<times> go_error option" where
  "HardenProcess_darwin k log =
     (case os_try k log SysSetrlimitCore0 of
        (log1, Some e) \<Rightarrow> (log1, Some e)
      | (log1, None) \<Rightarrow> (os_do k log1 SysPtraceDenyAttach, None))"

definition HardenProcess_windows :: "os_log \<Rightarrow> os_log \<times> go_error option" where
  "HardenProcess_windows log = (log, None)"

definition HardenProcess_other :: "os_log \<Rightarrow> os_log \<times> go_error option" where
  "HardenProcess_other log = (log, Some Secure_ErrUnsupportedPlatform)"

section \<open>The build targets\<close>

datatype platform = Linux | FreeBSD | Darwin | Windows | OtherOS

definition platformAlloc :: "platform \<Rightarrow> kernel \<Rightarrow> int \<Rightarrow> os_log \<Rightarrow> int \<Rightarrow> bool \<Rightarrow> os_log \<times> (slice \<times> slice) outcome" where
  "platformAlloc pf k ps log sz guard =
     (case pf of Linux \<Rightarrow> platformAlloc_linux k ps log sz guard | FreeBSD \<Rightarrow> platformAlloc_freebsd k ps log sz guard
      | Darwin \<Rightarrow> platformAlloc_darwin k ps log sz guard | Windows \<Rightarrow> platformAlloc_windows k ps log sz guard
      | OtherOS \<Rightarrow> platformAlloc_other log)"

definition platformFree :: "platform \<Rightarrow> kernel \<Rightarrow> os_log \<Rightarrow> slice \<Rightarrow> os_log \<times> go_error option" where
  "platformFree pf k log m =
     (case pf of Linux \<Rightarrow> platformFree_linux k log m | FreeBSD \<Rightarrow> platformFree_freebsd k log m
      | Darwin \<Rightarrow> platformFree_darwin k log m | Windows \<Rightarrow> platformFree_windows k log m
      | OtherOS \<Rightarrow> platformFree_other log)"

definition lockPages :: "platform \<Rightarrow> kernel \<Rightarrow> os_log \<Rightarrow> slice \<Rightarrow> os_log \<times> go_error option" where
  "lockPages pf k log b =
     (case pf of Linux \<Rightarrow> lockPages_linux k log b | FreeBSD \<Rightarrow> lockPages_freebsd k log b
      | Darwin \<Rightarrow> lockPages_darwin k log b | Windows \<Rightarrow> lockPages_windows k log b
      | OtherOS \<Rightarrow> lockPages_other log)"

definition unlockPages :: "platform \<Rightarrow> kernel \<Rightarrow> os_log \<Rightarrow> slice \<Rightarrow> os_log" where
  "unlockPages pf k log b =
     (case pf of Linux \<Rightarrow> unlockPages_linux k log b | FreeBSD \<Rightarrow> unlockPages_freebsd k log b
      | Darwin \<Rightarrow> unlockPages_darwin k log b | Windows \<Rightarrow> unlockPages_windows k log b
      | OtherOS \<Rightarrow> unlockPages_other log)"

definition HardenProcess :: "platform \<Rightarrow> kernel \<Rightarrow> os_log \<Rightarrow> os_log \<times> go_error option" where
  "HardenProcess pf k log =
     (case pf of Linux \<Rightarrow> HardenProcess_linux k log | FreeBSD \<Rightarrow> HardenProcess_freebsd k log
      | Darwin \<Rightarrow> HardenProcess_darwin k log | Windows \<Rightarrow> HardenProcess_windows log
      | OtherOS \<Rightarrow> HardenProcess_other log)"

section \<open>What a history did\<close>

record kstate =
  k_mapped :: "(uintptr \<times> int) list"
  k_guard :: "(uintptr \<times> int) set"
  k_locked :: "(uintptr \<times> int) set"
  k_nodump :: "(uintptr \<times> int) set"

text \<open>A failed call has no effect.\<close>

fun kcall :: "kstate \<Rightarrow> syscall \<Rightarrow> uintptr \<Rightarrow> kstate" where
  "kcall s (SysMmap n) p = s\<lparr>k_mapped := (p, n) # k_mapped s\<rparr>"
| "kcall s (SysVirtualAlloc n) p = s\<lparr>k_mapped := (p, sint n) # k_mapped s\<rparr>"
| "kcall s (SysMunmap q n) p = s\<lparr>k_mapped := remove1 (q, n) (k_mapped s)\<rparr>"
| "kcall s (SysVirtualFree q) p = s\<lparr>k_mapped := filter (\<lambda>m. fst m \<noteq> q) (k_mapped s)\<rparr>"
| "kcall s (SysMprotectNone q n) p = s\<lparr>k_guard := insert (q, n) (k_guard s)\<rparr>"
| "kcall s (SysVirtualProtectNone q n) p = s\<lparr>k_guard := insert (q, sint n) (k_guard s)\<rparr>"
| "kcall s (SysMlock q n) p = s\<lparr>k_locked := insert (q, n) (k_locked s)\<rparr>"
| "kcall s (SysMunlock q n) p = s\<lparr>k_locked := k_locked s - {(q, n)}\<rparr>"
| "kcall s (SysVirtualLock q n) p = s\<lparr>k_locked := insert (q, sint n) (k_locked s)\<rparr>"
| "kcall s (SysVirtualUnlock q n) p = s\<lparr>k_locked := k_locked s - {(q, sint n)}\<rparr>"
| "kcall s (SysMadvise q n a) p =
     (if a = MADV_DONTDUMP \<or> a = MADV_NOCORE then s\<lparr>k_nodump := insert (q, n) (k_nodump s)\<rparr>
      else if a = MADV_DODUMP \<or> a = MADV_CORE then s\<lparr>k_nodump := k_nodump s - {(q, n)}\<rparr> else s)"
| "kcall s (SysWerRegister q n) p = (if p = 0 then s\<lparr>k_nodump := insert (q, sint n) (k_nodump s)\<rparr> else s)"
| "kcall s (SysWerUnregister q n) p = s\<lparr>k_nodump := k_nodump s - {(q, sint n)}\<rparr>"
| "kcall s c p = s"

definition kstep :: "kstate \<Rightarrow> syscall \<times> (go_error + uintptr) \<Rightarrow> kstate" where
  "kstep s e = (case snd e of Inl _ \<Rightarrow> s | Inr p \<Rightarrow> kcall s (fst e) p)"

definition kernel_state :: "os_log \<Rightarrow> kstate" where
  "kernel_state log = foldl kstep \<lparr>k_mapped = [], k_guard = {}, k_locked = {}, k_nodump = {}\<rparr> log"

lemma kernel_state_snoc: "kernel_state (log @ [e]) = kstep (kernel_state log) e"
  by (simp add: kernel_state_def)

lemma os_call_state:
  "os_call k log c = (log', r) \<Longrightarrow>
   r = k log c \<and> kernel_state log' = (case r of Inl _ \<Rightarrow> kernel_state log | Inr p \<Rightarrow> kcall (kernel_state log) c p)"
  by (auto simp: os_call_def kernel_state_snoc kstep_def split: sum.split)

lemma os_try_state:
  "os_try k log c = (log', r) \<Longrightarrow>
   (case r of Some e \<Rightarrow> k log c = Inl e \<and> kernel_state log' = kernel_state log
    | None \<Rightarrow> \<exists>p. k log c = Inr p \<and> kernel_state log' = kcall (kernel_state log) c p)"
  by (auto simp: os_try_def os_call_def kernel_state_snoc kstep_def split: sum.splits)

lemma os_do_state:
  "kernel_state (os_do k log c) =
     (case k log c of Inl _ \<Rightarrow> kernel_state log | Inr p \<Rightarrow> kcall (kernel_state log) c p)"
  by (simp add: os_do_def os_call_def kernel_state_snoc kstep_def split: sum.split)

text \<open>
  What the code relies on of the calls that undo others: to unmap exactly a region that is mapped, to
  unlock or readmit to dumps memory inside a mapped region, and to unlock on Windows exactly a region
  that is locked, succeeds.
\<close>

definition in_mapping :: "kstate \<Rightarrow> uintptr \<Rightarrow> int \<Rightarrow> bool" where
  "in_mapping s q n \<longleftrightarrow> (\<exists>(p, k) \<in> set (k_mapped s). unat p \<le> unat q \<and> int (unat q) + n \<le> int (unat p) + k)"

fun undoable :: "kstate \<Rightarrow> syscall \<Rightarrow> bool" where
  "undoable s (SysMunmap q n) \<longleftrightarrow> (q, n) \<in> set (k_mapped s)"
| "undoable s (SysVirtualFree q) \<longleftrightarrow> q \<in> fst ` set (k_mapped s)"
| "undoable s (SysMunlock q n) \<longleftrightarrow> in_mapping s q n"
| "undoable s (SysVirtualUnlock q n) \<longleftrightarrow> (q, sint n) \<in> k_locked s"
| "undoable s (SysMadvise q n a) \<longleftrightarrow> (a = MADV_DODUMP \<or> a = MADV_CORE) \<and> in_mapping s q n"
| "undoable s c \<longleftrightarrow> False"

definition undo_ok :: "kernel \<Rightarrow> bool" where
  "undo_ok k \<longleftrightarrow> (\<forall>log c. undoable (kernel_state log) c \<longrightarrow> (\<exists>p. k log c = Inr p))"

lemma undo_do:
  "undo_ok k \<Longrightarrow> undoable (kernel_state log) c \<Longrightarrow> \<exists>p. kernel_state (os_do k log c) = kcall (kernel_state log) c p"
  unfolding undo_ok_def os_do_state by (metis sum.case(2))

lemma in_mapping_same: "k_mapped s' = k_mapped s \<Longrightarrow> in_mapping s' q n = in_mapping s q n"
  by (simp add: in_mapping_def)

definition lock_spec :: "bool \<Rightarrow> os_log \<Rightarrow> slice \<Rightarrow> os_log \<times> go_error option \<Rightarrow> bool" where
  "lock_spec nodump log b res \<longleftrightarrow>
     (case res of
        (log', None) \<Rightarrow> (s_ptr b, s_len b) \<in> k_locked (kernel_state log') \<and>
          (nodump \<longrightarrow> (s_ptr b, s_len b) \<in> k_nodump (kernel_state log')) \<and>
          k_mapped (kernel_state log') = k_mapped (kernel_state log) \<and> k_guard (kernel_state log') = k_guard (kernel_state log)
      | (log', Some e) \<Rightarrow> kernel_state log' = kernel_state log)"

lemma lock_linux:
  assumes u: "undo_ok k" and b: "(s_ptr b, s_len b) \<notin> k_locked (kernel_state log)" "(s_ptr b, s_len b) \<notin> k_nodump (kernel_state log)"
    and mapped: "in_mapping (kernel_state log) (s_ptr b) (s_len b)"
  shows "lock_spec True log b (lockPages_linux k log b)"
proof -
  let ?p = "s_ptr b" and ?n = "s_len b"
  obtain log1 r1 where c1: "os_try k log (SysMlock ?p ?n) = (log1, r1)" by fastforce
  obtain log2 r2 where c2: "os_try k log1 (SysMadvise ?p ?n MADV_DONTDUMP) = (log2, r2)" by fastforce
  obtain log3 r3 where c3: "os_try k log2 (SysMadvise ?p ?n MADV_UNMERGEABLE) = (log3, r3)" by fastforce
  note S = os_try_state [OF c1] os_try_state [OF c2] os_try_state [OF c3]
  have un: "\<exists>q. kernel_state (os_do k l (SysMunlock ?p ?n)) = kcall (kernel_state l) (SysMunlock ?p ?n) q"
    "\<exists>q. kernel_state (os_do k l (SysMadvise ?p ?n MADV_DODUMP)) = kcall (kernel_state l) (SysMadvise ?p ?n MADV_DODUMP) q"
    if "k_mapped (kernel_state l) = k_mapped (kernel_state log)" for l
    using mapped undo_do [OF u, of l] that in_mapping_same [OF that] by (auto simp del: kcall.simps)
  have L: "lockPages_linux k log b =
      (case r1 of Some e \<Rightarrow> (log1, Some e)
       | None \<Rightarrow> (case r2 of Some e \<Rightarrow> (os_do k log2 (SysMunlock ?p ?n), Some e)
           | None \<Rightarrow> (case r3 of
               Some e \<Rightarrow> (os_do k (os_do k log3 (SysMadvise ?p ?n MADV_DODUMP)) (SysMunlock ?p ?n), Some e)
             | None \<Rightarrow> (log3, None))))"
    by (simp add: lockPages_linux_def c1 c2 c3 split: option.split)
  show ?thesis
    unfolding L using S un(1) [of log2] un(1) [of "os_do k log3 (SysMadvise ?p ?n MADV_DODUMP)"] un(2) [of log3] b
    by (auto simp: lock_spec_def split: option.splits)
qed

lemma lock_freebsd:
  assumes u: "undo_ok k" and b: "(s_ptr b, s_len b) \<notin> k_locked (kernel_state log)"
    and mapped: "in_mapping (kernel_state log) (s_ptr b) (s_len b)"
  shows "lock_spec True log b (lockPages_freebsd k log b)"
proof -
  let ?p = "s_ptr b" and ?n = "s_len b"
  obtain log1 r1 where c1: "os_try k log (SysMlock ?p ?n) = (log1, r1)" by fastforce
  obtain log2 r2 where c2: "os_try k log1 (SysMadvise ?p ?n MADV_NOCORE) = (log2, r2)" by fastforce
  note S = os_try_state [OF c1] os_try_state [OF c2]
  have un: "\<exists>q. kernel_state (os_do k l (SysMunlock ?p ?n)) = kcall (kernel_state l) (SysMunlock ?p ?n) q"
    if "k_mapped (kernel_state l) = k_mapped (kernel_state log)" for l
    using mapped undo_do [OF u, of l] that in_mapping_same [OF that] by (auto simp del: kcall.simps)
  have L: "lockPages_freebsd k log b =
      (case r1 of Some e \<Rightarrow> (log1, Some e)
       | None \<Rightarrow> (case r2 of Some e \<Rightarrow> (os_do k log2 (SysMunlock ?p ?n), Some e) | None \<Rightarrow> (log2, None)))"
    by (simp add: lockPages_freebsd_def c1 c2 split: option.split)
  show ?thesis
    unfolding L using S un [of log2] b by (auto simp: lock_spec_def split: option.splits)
qed

lemma lock_darwin: "lock_spec False log b (lockPages_darwin k log b)"
proof -
  obtain log1 r1 where c1: "os_try k log (SysMlock (s_ptr b) (s_len b)) = (log1, r1)" by fastforce
  from os_try_state [OF c1] show ?thesis
    by (auto simp: lock_spec_def lockPages_darwin_def c1 split: option.splits)
qed

lemma wer_state:
  "k_locked (kernel_state (fst (werExclude k log a n))) = k_locked (kernel_state log)"
  "k_mapped (kernel_state (fst (werExclude k log a n))) = k_mapped (kernel_state log)"
  "k_guard (kernel_state (fst (werExclude k log a n))) = k_guard (kernel_state log)"
proof -
  obtain log1 r1 where c1: "os_try k log (SysWerFind ''WerRegisterExcludedMemoryBlock'') = (log1, r1)" by fastforce
  obtain log2 r2 where c2: "os_call k log1 (SysWerRegister a n) = (log2, r2)" by fastforce
  note S = os_try_state [OF c1] os_call_state [OF c2]
  show "k_locked (kernel_state (fst (werExclude k log a n))) = k_locked (kernel_state log)"
    "k_mapped (kernel_state (fst (werExclude k log a n))) = k_mapped (kernel_state log)"
    "k_guard (kernel_state (fst (werExclude k log a n))) = k_guard (kernel_state log)"
    using S by (auto simp: werExclude_def c1 c2 split: option.splits sum.splits)
qed

lemma lock_windows:
  assumes "0 \<le> s_len b" "s_len b < 2 ^ 63"
  shows "lock_spec False log b (lockPages_windows k log b)"
proof -
  have w: "sint (word_of_int (s_len b) :: u64) = s_len b"
    using assms sint_eq_unat [of "word_of_int (s_len b)"] unat_word_of_int_u64 [of "s_len b"] by simp
  obtain log1 r1 where c1: "os_try k log (SysVirtualLock (s_ptr b) (word_of_int (s_len b))) = (log1, r1)" by fastforce
  from os_try_state [OF c1] show ?thesis
    by (auto simp: lock_spec_def lockPages_windows_def c1 wer_state w split: option.splits)
qed

lemma lockPages_spec:
  assumes "undo_ok k" "(s_ptr b, s_len b) \<notin> k_locked (kernel_state log)" "(s_ptr b, s_len b) \<notin> k_nodump (kernel_state log)"
    and "0 \<le> s_len b" "s_len b < 2 ^ 63" "in_mapping (kernel_state log) (s_ptr b) (s_len b)"
  shows "lock_spec (pf = Linux \<or> pf = FreeBSD) log b (lockPages pf k log b)"
proof -
  have "lock_spec False log b (lockPages_other log)"
    by (simp add: lock_spec_def lockPages_other_def)
  then show ?thesis
    using lock_linux [OF assms(1-3,6)] lock_freebsd [OF assms(1,2,6)] lock_darwin lock_windows [OF assms(4,5)]
    by (cases pf) (simp_all add: lockPages_def)
qed

text \<open>
  Locking is all or nothing. When \<open>lockPages\<close> succeeds the region is locked in memory and, on
  Linux and FreeBSD, kept out of core dumps. When it fails at any of its calls, everything it did
  is undone: what is locked, what is kept out of dumps and what is mapped is as before, on every
  platform.
\<close>

lemma lockPages_all_or_nothing:
  assumes "undo_ok k" "(s_ptr b, s_len b) \<notin> k_locked (kernel_state log)" "(s_ptr b, s_len b) \<notin> k_nodump (kernel_state log)"
    and "0 \<le> s_len b" "s_len b < 2 ^ 63" "in_mapping (kernel_state log) (s_ptr b) (s_len b)"
  shows "case lockPages pf k log b of
      (log', None) \<Rightarrow> (s_ptr b, s_len b) \<in> k_locked (kernel_state log') \<and>
        (pf = Linux \<or> pf = FreeBSD \<longrightarrow> (s_ptr b, s_len b) \<in> k_nodump (kernel_state log')) \<and>
        k_mapped (kernel_state log') = k_mapped (kernel_state log)
    | (log', Some e) \<Rightarrow> kernel_state log' = kernel_state log"
  using lockPages_spec [OF assms, of pf] by (auto simp: lock_spec_def split: prod.splits option.splits)

section \<open>Allocation: no leak, and the layout of guard pages\<close>

lemma round_pages_spec:
  assumes "0 < ps" "ps \<le> 2 ^ 32" "0 < sz" "sz \<le> maxAlloc"
  shows "sz \<le> round_pages ps sz" "round_pages ps sz < sz + ps" "ps dvd round_pages ps sz"
    "round_pages ps sz = (sz + ps - 1) div ps * ps"
proof -
  let ?q = "(sz + ps - 1) div ps"
  have e: "?q * ps = sz + ps - 1 - (sz + ps - 1) mod ps"
    by (simp add: minus_mod_eq_div_mult)
  moreover have m: "0 \<le> (sz + ps - 1) mod ps" "(sz + ps - 1) mod ps \<le> ps - 1"
    using assms(1) pos_mod_bound [of ps "sz + ps - 1"] by auto
  ultimately have b: "sz \<le> ?q * ps" "?q * ps < sz + ps"
    by auto
  have "i64 (sz + ps - 1) = sz + ps - 1" "i64 (?q * ps) = ?q * ps"
    using assms b by (auto intro!: i64_id simp: maxAlloc_def)
  then show E: "round_pages ps sz = ?q * ps"
    using assms by (simp add: round_pages_def tdiv_def)
  with b show "sz \<le> round_pages ps sz" "round_pages ps sz < sz + ps" "ps dvd round_pages ps sz"
    by auto
qed

lemma sint_word_of_int: "0 \<le> n \<Longrightarrow> n < 2 ^ 63 \<Longrightarrow> sint (word_of_int n :: u64) = n"
  using sint_eq_unat [of "word_of_int n"] unat_word_of_int_u64 [of n] by simp

text \<open>
  What the code relies on of the calls that map memory: they answer with an address of the lower
  half of the address space that is a multiple of the page size, and the new region holds the start
  of no region that is still mapped, locked or kept out of dumps.
\<close>

fun map_size :: "syscall \<Rightarrow> nat option" where
  "map_size (SysMmap n) = Some (nat n)"
| "map_size (SysVirtualAlloc n) = Some (unat n)"
| "map_size c = None"

definition fresh_region :: "kstate \<Rightarrow> int \<Rightarrow> uintptr \<Rightarrow> nat \<Rightarrow> bool" where
  "fresh_region s ps p n \<longleftrightarrow> unat p + n < 2 ^ 63 \<and> nat ps dvd unat p \<and>
     (\<forall>q \<in> fst ` (set (k_mapped s) \<union> k_locked s \<union> k_nodump s). unat q \<notin> span p n)"

definition maps_ok :: "kernel \<Rightarrow> int \<Rightarrow> bool" where
  "maps_ok k ps \<longleftrightarrow>
     (\<forall>log c n p. map_size c = Some n \<longrightarrow> k log c = Inr p \<longrightarrow> fresh_region (kernel_state log) ps p n)"

lemma maps_ok_call:
  "maps_ok k ps \<Longrightarrow> os_call k log c = (log', Inr p) \<Longrightarrow> map_size c = Some n \<Longrightarrow> fresh_region (kernel_state log) ps p n"
  unfolding maps_ok_def os_call_def by (metis prod.inject)

lemma fresh_region_base: "fresh_region s ps p n \<Longrightarrow> 0 < n \<Longrightarrow> p \<notin> fst ` set (k_mapped s)"
  by (auto simp: fresh_region_def span_def)

text \<open>The layout: \<open>d\<close> is what the caller sees of the mapping \<open>m\<close>.\<close>

definition guarded :: "int \<Rightarrow> int \<Rightarrow> slice \<Rightarrow> slice \<Rightarrow> bool" where
  "guarded ps sz m d \<longleftrightarrow>
     (let inner = round_pages ps sz in
      s_len m = inner + 2 * ps \<and> s_cap m = s_len m \<and> s_ptr d = s_ptr m + word_of_int ps \<and> s_len d = sz \<and> s_cap d = inner)"

definition guards :: "int \<Rightarrow> int \<Rightarrow> slice \<Rightarrow> (uintptr \<times> int) set" where
  "guards ps sz m = {(s_ptr m, ps), (s_ptr m + word_of_int (ps + round_pages ps sz), ps)}"

definition alloc_spec :: "int \<Rightarrow> int \<Rightarrow> bool \<Rightarrow> os_log \<Rightarrow> os_log \<times> (slice \<times> slice) outcome \<Rightarrow> bool" where
  "alloc_spec ps sz guard log res \<longleftrightarrow>
     (case res of
        (log', Ok (m, d)) \<Rightarrow>
          fresh_region (kernel_state log) ps (s_ptr m) (nat (s_len m)) \<and>
          k_mapped (kernel_state log') = (s_ptr m, s_len m) # k_mapped (kernel_state log) \<and>
          k_locked (kernel_state log') = k_locked (kernel_state log) \<and>
          k_nodump (kernel_state log') = k_nodump (kernel_state log) \<and>
          (if guard then guarded ps sz m d \<and> guards ps sz m \<subseteq> k_guard (kernel_state log')
           else d = m \<and> m = os_slice (s_ptr m) sz)
      | (log', Err e) \<Rightarrow>
          k_mapped (kernel_state log') = k_mapped (kernel_state log) \<and>
          k_locked (kernel_state log') = k_locked (kernel_state log) \<and>
          k_nodump (kernel_state log') = k_nodump (kernel_state log)
      | _ \<Rightarrow> False)"

lemma alloc_linux:
  assumes u: "undo_ok k" "maps_ok k ps" and sz: "0 < ps" "ps \<le> 2 ^ 32" "0 < sz" "sz \<le> maxAlloc"
  shows "alloc_spec ps sz guard log (platformAlloc_linux k ps log sz guard)"
proof (cases guard)
  case False
  obtain log1 r where c: "os_call k log (SysMmap sz) = (log1, r)" by fastforce
  have "fresh_region (kernel_state log) ps p (nat sz)" if "r = Inr p" for p
    using maps_ok_call [OF u(2), of log "SysMmap sz" log1 p] c that by simp
  with os_call_state [OF c, THEN conjunct2] False show ?thesis
    by (cases r) (simp_all add: platformAlloc_linux_def c alloc_spec_def os_slice_def)
next
  case True
  define inner where "inner = round_pages ps sz"
  note R = round_pages_spec [OF sz, folded inner_def]
  have t: "i64 (inner + 2 * ps) = inner + 2 * ps" "i64 (ps + inner) = ps + inner" "i64 (ps + sz) = ps + sz"
    using R(1,2) sz by (auto intro!: i64_id simp: maxAlloc_def)
  obtain log1 r1 where c1: "os_call k log (SysMmap (inner + 2 * ps)) = (log1, r1)" by fastforce
  show ?thesis
  proof (cases r1)
    case (Inl e)
    with os_call_state [OF c1, THEN conjunct2] True show ?thesis
      by (simp add: platformAlloc_linux_def c1 alloc_spec_def inner_def [symmetric] t)
  next
    case (Inr p)
    let ?hi = "p + word_of_int (ps + inner)"
    obtain log2 r2 where c2: "os_try k log1 (SysMprotectNone p ps) = (log2, r2)" by fastforce
    obtain log3 r3 where c3: "os_try k log2 (SysMprotectNone ?hi ps) = (log3, r3)" by fastforce
    have L: "platformAlloc_linux k ps log sz guard =
       (case r2 of Some e \<Rightarrow> (os_do k log2 (SysMunmap p (inner + 2 * ps)), Err e)
        | None \<Rightarrow> (case r3 of Some e \<Rightarrow> (os_do k log3 (SysMunmap p (inner + 2 * ps)), Err e)
          | None \<Rightarrow> (log3, Ok (os_slice p (inner + 2 * ps), \<lparr>s_ptr = p + word_of_int ps, s_len = sz, s_cap = inner\<rparr>))))"
      using True sz R(1,2)
      by (simp add: platformAlloc_linux_def inner_def [symmetric] t c1 c2 c3 Inr os_slice_def with_ok_def
          slice_upto_def slice_from_def slice3_def Let_def del: of_int_add split: option.split)
    have un: "\<exists>q. kernel_state (os_do k l (SysMunmap p (inner + 2 * ps))) = kcall (kernel_state l) (SysMunmap p (inner + 2 * ps)) q"
      if "(p, inner + 2 * ps) \<in> set (k_mapped (kernel_state l))" for l
      using that undo_do [OF u(1), of l] by (auto simp del: kcall.simps)
    have "fresh_region (kernel_state log) ps p (nat (inner + 2 * ps))"
      using maps_ok_call [OF u(2)] c1 Inr by simp
    then show ?thesis
      unfolding L alloc_spec_def
      using os_call_state [OF c1, THEN conjunct2] os_try_state [OF c2] os_try_state [OF c3] un [of log2] un [of log3] Inr True
      by (auto simp: guarded_def guards_def inner_def [symmetric] os_slice_def simp del: of_int_add split: option.splits)
  qed
qed

lemma filter_fresh: "p \<notin> fst ` set xs \<Longrightarrow> filter (\<lambda>m. fst m \<noteq> p) xs = xs"
  by (rule filter_True) force

lemma alloc_windows:
  assumes u: "undo_ok k" "maps_ok k ps" and sz: "0 < ps" "ps \<le> 2 ^ 32" "0 < sz" "sz \<le> maxAlloc"
  shows "alloc_spec ps sz guard log (platformAlloc_windows k ps log sz guard)"
proof (cases guard)
  case False
  obtain log1 r where c: "os_call k log (SysVirtualAlloc (word_of_int sz)) = (log1, r)" by fastforce
  have w: "sint (word_of_int sz :: u64) = sz" "unat (word_of_int sz :: u64) = nat sz"
    using sz by (auto intro!: sint_word_of_int unat_word_of_int_u64 simp: maxAlloc_def)
  have "fresh_region (kernel_state log) ps p (nat sz)" if "r = Inr p" for p
    using maps_ok_call [OF u(2), of log "SysVirtualAlloc (word_of_int sz)" log1 p] c that w by simp
  with w(1) os_call_state [OF c, THEN conjunct2] False show ?thesis
    by (cases r) (simp_all add: platformAlloc_windows_def c alloc_spec_def os_slice_def)
next
  case True
  define inner where "inner = round_pages ps sz"
  note R = round_pages_spec [OF sz, folded inner_def]
  have t: "i64 (inner + 2 * ps) = inner + 2 * ps" "i64 (ps + inner) = ps + inner" "i64 (ps + sz) = ps + sz"
    using R(1,2) sz by (auto intro!: i64_id simp: maxAlloc_def)
  have w: "sint (word_of_int (inner + 2 * ps) :: u64) = inner + 2 * ps" "sint (word_of_int ps :: u64) = ps"
    "unat (word_of_int (inner + 2 * ps) :: u64) = nat (inner + 2 * ps)"
    using R(1,2) sz by (auto intro!: sint_word_of_int unat_word_of_int_u64 simp: maxAlloc_def simp del: of_int_add)
  obtain log1 r1 where c1: "os_call k log (SysVirtualAlloc (word_of_int (inner + 2 * ps))) = (log1, r1)" by fastforce
  show ?thesis
  proof (cases r1)
    case (Inl e)
    with os_call_state [OF c1, THEN conjunct2] True show ?thesis
      by (simp add: platformAlloc_windows_def c1 alloc_spec_def inner_def [symmetric] t del: of_int_add)
  next
    case (Inr p)
    let ?hi = "p + word_of_int (ps + inner)"
    have fresh: "fresh_region (kernel_state log) ps p (nat (inner + 2 * ps))"
      using maps_ok_call [OF u(2)] c1 Inr w(3) by (simp del: of_int_add)
    have new: "p \<notin> fst ` set (k_mapped (kernel_state log))"
      using fresh_region_base [OF fresh] R(1) sz by simp
    obtain log2 r2 where c2: "os_try k log1 (SysVirtualProtectNone p (word_of_int ps)) = (log2, r2)" by fastforce
    obtain log3 r3 where c3: "os_try k log2 (SysVirtualProtectNone ?hi (word_of_int ps)) = (log3, r3)" by fastforce
    have L: "platformAlloc_windows k ps log sz guard =
       (case r2 of Some e \<Rightarrow> (os_do k log2 (SysVirtualFree p), Err e)
        | None \<Rightarrow> (case r3 of Some e \<Rightarrow> (os_do k log3 (SysVirtualFree p), Err e)
          | None \<Rightarrow> (log3, Ok (os_slice p (inner + 2 * ps), \<lparr>s_ptr = p + word_of_int ps, s_len = sz, s_cap = inner\<rparr>))))"
      using True sz R(1,2)
      by (simp add: platformAlloc_windows_def inner_def [symmetric] t c1 c2 c3 Inr os_slice_def with_ok_def
          slice3_def Let_def del: of_int_add split: option.split)
    have un: "\<exists>q. kernel_state (os_do k l (SysVirtualFree p)) = kcall (kernel_state l) (SysVirtualFree p) q"
      if "p \<in> fst ` set (k_mapped (kernel_state l))" for l
      using that undo_do [OF u(1), of l] by (auto simp del: kcall.simps)
    show ?thesis
      unfolding L alloc_spec_def
      using os_call_state [OF c1, THEN conjunct2] os_try_state [OF c2] os_try_state [OF c3] un [of log2] un [of log3] Inr True
        filter_fresh [OF new] fresh
      by (auto simp: guarded_def guards_def inner_def [symmetric] os_slice_def w simp del: of_int_add split: option.splits)
  qed
qed

lemma platformAlloc_spec:
  assumes "undo_ok k" "maps_ok k ps" "0 < ps" "ps \<le> 2 ^ 32" "0 < sz" "sz \<le> maxAlloc"
  shows "alloc_spec ps sz guard log (platformAlloc pf k ps log sz guard)"
  using alloc_linux [OF assms] alloc_windows [OF assms]
  by (cases pf) (simp_all add: platformAlloc_def platformAlloc_freebsd_def platformAlloc_darwin_def
      platformAlloc_other_def alloc_spec_def)

text \<open>
  C32: mapping memory is all or nothing, on every platform and whichever system call fails. An error
  leaves no region mapped that was not mapped before. On success exactly one region is added and the
  caller gets a slice of the requested length, never a panic. With guard pages, no-access pages lie
  directly before the slice and directly after its capacity; the capacity is the length rounded up to
  pages, so up to a page less one byte between the end of the slice and the upper guard is not
  guarded.
\<close>

theorem platformAlloc_all_or_nothing:
  assumes "undo_ok k" "maps_ok k ps" "0 < ps" "ps \<le> 2 ^ 32" "0 < sz" "sz \<le> maxAlloc"
  shows "case platformAlloc pf k ps log sz guard of
      (log', Ok (m, d)) \<Rightarrow> k_mapped (kernel_state log') = (s_ptr m, s_len m) # k_mapped (kernel_state log) \<and>
        s_len d = sz \<and>
        (if guard then s_ptr d = s_ptr m + word_of_int ps \<and> s_len m = s_cap d + 2 * ps \<and>
           ps dvd s_cap d \<and> sz \<le> s_cap d \<and> s_cap d < sz + ps \<and>
           (s_ptr m, ps) \<in> k_guard (kernel_state log') \<and>
           (s_ptr d + word_of_int (s_cap d), ps) \<in> k_guard (kernel_state log')
         else d = m)
    | (log', Err e) \<Rightarrow> k_mapped (kernel_state log') = k_mapped (kernel_state log)
    | _ \<Rightarrow> False"
proof -
  note R = round_pages_spec [OF assms(3-6)]
  obtain log' r where P: "platformAlloc pf k ps log sz guard = (log', r)"
    by fastforce
  note S = platformAlloc_spec [OF assms, of guard log pf, unfolded P alloc_spec_def prod.case]
  show ?thesis
  proof (cases r)
    case (Ok md)
    obtain m d where md: "md = (m, d)"
      by fastforce
    show ?thesis
      using S R(1-3) unfolding P prod.case Ok md outcome.case
      by (cases guard) (simp_all add: guarded_def guards_def os_slice_def Let_def add.assoc, metis slice.select_convs(2))
  qed (use S in \<open>simp_all add: P\<close>)
qed

section \<open>Examples\<close>

text \<open>
  A kernel for examples: it maps memory once, as its first call, and refuses
  \<open>MADV_UNMERGEABLE\<close>, as one built without page merging does.
\<close>

definition sample_kernel :: kernel where
  "sample_kernel log c =
     (case map_size c of
        Some n \<Rightarrow> if log = [] \<and> n \<le> 2 ^ 40 then Inr 0x10000 else Inl (Ext_Err ''ENOMEM'')
      | None \<Rightarrow> (case c of SysMadvise _ _ MADV_UNMERGEABLE \<Rightarrow> Inl (Ext_Err ''EINVAL'') | _ \<Rightarrow> Inr 0))"

definition sample_region :: slice where
  "sample_region = \<lparr>s_ptr = 0x8000, s_len = 4096, s_cap = 4096\<rparr>"

lemma sample_kernel_undo: "undo_ok sample_kernel"
  unfolding undo_ok_def
proof (intro allI impI)
  fix log c
  show "undoable (kernel_state log) c \<Longrightarrow> \<exists>p. sample_kernel log c = Inr p"
    by (cases c) (auto simp: sample_kernel_def)
qed

lemma sample_kernel_maps: "maps_ok sample_kernel 4096"
  by (auto simp: maps_ok_def sample_kernel_def fresh_region_def kernel_state_def split: if_splits)

definition sample_region_log :: os_log where
  "sample_region_log = [(SysMmap 4096, Inr 0x8000)]"

lemma lockPages_all_or_nothing_example:
  "(case lockPages Linux sample_kernel sample_region_log sample_region of
     (log', None) \<Rightarrow> False | (log', Some e) \<Rightarrow> length log' = 6 \<and> kernel_state log' = kernel_state sample_region_log)"
proof -
  have "in_mapping (kernel_state sample_region_log) (s_ptr sample_region) (s_len sample_region)"
    by (simp add: in_mapping_def sample_region_log_def sample_region_def kernel_state_def kstep_def)
  from lockPages_all_or_nothing [OF sample_kernel_undo _ _ _ _ this, of Linux] show ?thesis
    by (simp add: sample_region_log_def sample_region_def sample_kernel_def kernel_state_def kstep_def lockPages_def lockPages_linux_def
        os_try_def os_call_def os_do_def)
qed

theorem platformAlloc_all_or_nothing_witness:
  "(case platformAlloc FreeBSD sample_kernel 4096 [] 5000 True of
     (log', Ok (m, d)) \<Rightarrow> k_mapped (kernel_state log') = [(s_ptr m, s_len m)] \<and> s_len d = 5000 \<and>
       s_cap d = 8192 \<and> (s_ptr d + 8192, 4096) \<in> k_guard (kernel_state log')
   | _ \<Rightarrow> False)"
proof -
  have e: "platformAlloc FreeBSD sample_kernel 4096 [] 5000 True =
    ([(SysMmap 16384, Inr 0x10000), (SysMprotectNone 0x10000 4096, Inr 0), (SysMprotectNone 0x13000 4096, Inr 0)],
     Ok (os_slice 0x10000 16384, \<lparr>s_ptr = 0x11000, s_len = 5000, s_cap = 8192\<rparr>))"
    by (simp add: platformAlloc_def platformAlloc_freebsd_def platformAlloc_linux_def sample_kernel_def os_call_def
        os_try_def os_do_def with_ok_def round_pages_def tdiv_def i64_def os_slice_def slice_upto_def slice_from_def slice3_def)
  from platformAlloc_all_or_nothing [OF sample_kernel_undo sample_kernel_maps, where sz = 5000 and pf = FreeBSD and log = "[]" and guard = True] show ?thesis
    unfolding e by (simp add: maxAlloc_def kernel_state_def)
qed

end
