(* ===== verification/Pure_Arena.thy ===== *)
theory Pure_Arena
  imports Go_Memory
begin

text \<open>
  The bump arena of the package pure (pure/arena.go): one slab made by \<open>make\<close>, an offset that
  only \<open>Reset\<close> moves back. Shown here: the contract of Alloc_Spec, \<open>Alloc\<close> on every branch, and
  what a failed or huge request does to the offset, which is never rolled back.
\<close>

section \<open>Data and operations\<close>

record PureArena =
  pa_buf :: slice
  pa_off :: int

definition pure_New :: "mem \<Rightarrow> uintptr \<Rightarrow> int \<Rightarrow> (mem \<times> PureArena) outcome" where
  "pure_New m p capacity0 =
     (let capacity = (if capacity0 < 0 then 0 else capacity0) in
      obind (go_make m p capacity capacity) (\<lambda>(m', buf). Ok (m', \<lparr>pa_buf = buf, pa_off = 0\<rparr>)))"

definition pure_Alloc :: "PureArena \<Rightarrow> int \<Rightarrow> PureArena \<times> slice outcome" where
  "pure_Alloc a sz =
     (if sz < 0 then (a, Err Pure_ErrInvalidSize)
      else if sz = 0 then (a, Ok empty_slice)
      else
        let next = i64 (pa_off a + sz);
            curr = i64 (next - sz);
            a' = a\<lparr>pa_off := next\<rparr>
        in if next > s_len (pa_buf a) then (a', Err Pure_ErrOutOfMemory)
           else (a', slice3 (pa_buf a) curr next next))"

definition pure_Reset :: "PureArena \<Rightarrow> PureArena" where
  "pure_Reset a = a\<lparr>pa_off := 0\<rparr>"

definition pure_Close :: "PureArena \<Rightarrow> PureArena" where
  "pure_Close a = a"

definition pure_Len :: "PureArena \<Rightarrow> int" where
  "pure_Len a = pa_off a"

definition pure_Cap :: "PureArena \<Rightarrow> int" where
  "pure_Cap a = s_len (pa_buf a)"

section \<open>The allocator contract\<close>

definition pure_inv :: "PureArena \<Rightarrow> bool" where
  "pure_inv a \<longleftrightarrow> slice_ok (pa_buf a) \<and> s_cap (pa_buf a) = s_len (pa_buf a) \<and> s_len (pa_buf a) \<le> maxAlloc \<and>
     0 \<le> pa_off a \<and> pa_off a < 2 ^ 63"

definition pure_ready :: "PureArena \<Rightarrow> int \<Rightarrow> bool" where
  "pure_ready a sz \<longleftrightarrow> pa_off a + sz < 2 ^ 63"

text \<open>The bytes below the offset.\<close>

definition pure_used :: "PureArena \<Rightarrow> nat set" where
  "pure_used a = span (s_ptr (pa_buf a)) (nat (min (pa_off a) (s_len (pa_buf a))))"

definition pure_request :: "PureArena \<Rightarrow> int \<Rightarrow> PureArena \<times> uintptr outcome" where
  "pure_request a sz = map_prod id (map_outcome s_ptr) (pure_Alloc a sz)"

text \<open>What \<open>Alloc\<close> does when the offset does not overflow.\<close>

lemma pure_Alloc_eq:
  assumes "pure_inv a" "pure_ready a sz"
  shows "pure_Alloc a sz =
    (if sz < 0 then (a, Err Pure_ErrInvalidSize)
     else if sz = 0 then (a, Ok empty_slice)
     else (a\<lparr>pa_off := pa_off a + sz\<rparr>,
       if pa_off a + sz > s_len (pa_buf a) then Err Pure_ErrOutOfMemory
       else Ok \<lparr>s_ptr = s_ptr (pa_buf a) + word_of_int (pa_off a), s_len = sz, s_cap = sz\<rparr>))"
proof -
  have "i64 (pa_off a + sz) = pa_off a + sz" "i64 (pa_off a) = pa_off a" if "0 < sz"
    using assms that by (auto simp: pure_inv_def pure_ready_def intro!: i64_id)
  with assms show ?thesis
    by (auto simp: pure_Alloc_def slice3_def pure_inv_def Let_def)
qed

lemma pure_chunk:
  assumes "pure_inv a" "0 < sz" "pa_off a + sz \<le> s_len (pa_buf a)"
  defines "q \<equiv> s_ptr (pa_buf a) + word_of_int (pa_off a)"
  shows "unat q = unat (s_ptr (pa_buf a)) + nat (pa_off a)" "in_space q (nat sz)"
    "span q (nat sz) \<inter> pure_used a = {}" "span q (nat sz) \<subseteq> span (s_ptr (pa_buf a)) (nat (s_len (pa_buf a)))"
    "span q (nat sz) \<subseteq> pure_used (a\<lparr>pa_off := pa_off a + sz\<rparr>)"
proof -
  have I: "in_space (s_ptr (pa_buf a)) (nat (s_len (pa_buf a)))" "0 \<le> pa_off a"
    using assms(1) by (auto simp: pure_inv_def slice_ok_def)
  have "nat (pa_off a) \<le> nat (s_len (pa_buf a))"
    using assms(2,3) by simp
  from in_space_add [OF I(1) this] show u: "unat q = unat (s_ptr (pa_buf a)) + nat (pa_off a)"
    using I(2) by (simp add: q_def)
  then show "in_space q (nat sz)" "span q (nat sz) \<inter> pure_used a = {}"
    "span q (nat sz) \<subseteq> span (s_ptr (pa_buf a)) (nat (s_len (pa_buf a)))"
    "span q (nat sz) \<subseteq> pure_used (a\<lparr>pa_off := pa_off a + sz\<rparr>)"
    using I assms(2,3) by (auto simp: in_space_def span_def pure_used_def)
qed

lemma pure_used_mono: "pa_off a \<le> k \<Longrightarrow> pure_used a \<subseteq> pure_used (a\<lparr>pa_off := k\<rparr>)"
  by (auto simp: pure_used_def span_def)

lemma pure_request_cases:
  assumes "pure_inv a" "pure_ready a sz"
  shows "pure_inv (fst (pure_request a sz))" "pure_used a \<subseteq> pure_used (fst (pure_request a sz))"
    "snd (pure_request a sz) = Ok q \<Longrightarrow>
       span q (nat sz) \<inter> pure_used a = {} \<and> span q (nat sz) \<subseteq> pure_used (fst (pure_request a sz))"
proof -
  note E = pure_Alloc_eq [OF assms]
  show "pure_inv (fst (pure_request a sz))"
    using assms by (auto simp: pure_request_def E pure_inv_def pure_ready_def)
  show "pure_used a \<subseteq> pure_used (fst (pure_request a sz))"
    using pure_used_mono [of a "pa_off a + sz"] by (auto simp: pure_request_def E)
  assume q: "snd (pure_request a sz) = Ok q"
  show "span q (nat sz) \<inter> pure_used a = {} \<and> span q (nat sz) \<subseteq> pure_used (fst (pure_request a sz))"
  proof (cases "sz \<le> 0")
    case True
    then show ?thesis by (simp add: span_def)
  next
    case False
    with q have "pa_off a + sz \<le> s_len (pa_buf a)" "q = s_ptr (pa_buf a) + word_of_int (pa_off a)"
      by (auto simp: pure_request_def E split: if_splits)
    with False pure_chunk [OF assms(1), of sz] show ?thesis
      by (simp add: pure_request_def E)
  qed
qed

interpretation pure_if: resettable_allocator pure_request nat pure_inv pure_ready pure_used pure_Reset
proof unfold_locales
  show "pure_inv (pure_Reset a)" if "pure_inv a" for a
    using that by (simp add: pure_inv_def pure_Reset_def)
  show "pure_used (pure_Reset a) = {}" if "pure_inv a" for a
    using that by (auto simp: pure_used_def pure_Reset_def span_def pure_inv_def slice_ok_def)
qed (use pure_request_cases in blast)+

section \<open>Properties\<close>

lemma pure_inv_New:
  assumes "pure_New m p capacity = Ok (m', a)" "in_space p (nat capacity)"
  shows "pure_inv a" "pure_Len a = 0" "pure_Cap a = max 0 capacity"
    "slice_bytes m' (pa_buf a) = replicate (nat capacity) 0"
proof -
  let ?c = "max 0 capacity"
  have *: "?c \<le> maxAlloc" "a = \<lparr>pa_buf = \<lparr>s_ptr = p, s_len = ?c, s_cap = ?c\<rparr>, pa_off = 0\<rparr>"
    "m' = write_bytes m p (replicate (nat ?c) 0)"
    using assms(1) by (auto simp: pure_New_def go_make_def Let_def max_def split: if_splits)
  have sp: "in_space p (nat ?c)"
    using assms(2) by (simp add: in_space_def max_def)
  then show "pure_inv a" "pure_Len a = 0" "pure_Cap a = ?c"
    using * by (auto simp: pure_inv_def slice_ok_def pure_Len_def pure_Cap_def)
  have "nat ?c = nat capacity" by simp
  with read_write_bytes [of p "replicate (nat ?c) 0" m] sp
  show "slice_bytes m' (pa_buf a) = replicate (nat capacity) 0"
    by (simp add: slice_bytes_def *(2,3))
qed

text \<open>
  The slices that any sequence of \<open>Alloc\<close> calls on an arena returns are pairwise disjoint and
  disjoint from what was allocated before, and \<open>Reset\<close> makes the whole slab available again, as
  long as the requested sizes do not add up to \<open>2 ^ 63\<close>.
\<close>

lemma pure_allocs_disjoint:
  assumes "pure_New m p capacity = Ok (m', a0)" "in_space p (nat capacity)"
    and "run_ready pure_request pure_ready a0 before"
    and "a = foldl (\<lambda>a sz. fst (pure_request a sz)) a0 before"
    and "run_ready pure_request pure_ready a rs" "run_ready pure_request pure_ready (pure_Reset a) rs'"
  shows "disjoint_spans (run_allocs pure_request nat a rs) \<and>
    (\<forall>(q, n) \<in> set (run_allocs pure_request nat a rs). span q n \<inter> pure_used a = {}) \<and>
    pure_used (pure_Reset a) = {} \<and> disjoint_spans (run_allocs pure_request nat (pure_Reset a) rs')"
proof -
  have inv: "pure_inv a"
    using pure_if.run_invar [OF pure_inv_New(1) [OF assms(1,2)] assms(3)] assms(4) by simp
  show ?thesis
    using pure_if.run_disjoint [OF inv assms(5)] pure_if.run_fresh [OF inv assms(5)]
      pure_if.reset_run [OF inv assms(6)] by blast
qed

text \<open>An arena of 256 bytes, for examples.\<close>

definition sample_pure :: PureArena where
  "sample_pure = \<lparr>pa_buf = \<lparr>s_ptr = 0xC000, s_len = 256, s_cap = 256\<rparr>, pa_off = 0\<rparr>"

lemma sample_pure_New: "\<exists>m'. pure_New m 0xC000 256 = Ok (m', sample_pure)"
  by (simp add: pure_New_def go_make_def sample_pure_def maxAlloc_def)

lemma sample_pure_inv: "pure_inv sample_pure"
  by (simp add: pure_inv_def sample_pure_def slice_ok_def maxAlloc_def in_space_def)

lemma pure_allocs_disjoint_example:
  "run_allocs pure_request nat sample_pure [100, 300, 7] = [(0xC000, 100)] \<and>
   disjoint_spans (run_allocs pure_request nat sample_pure [100, 300, 7])"
proof
  obtain m' where New: "pure_New (\<lambda>_. 0) 0xC000 256 = Ok (m', sample_pure)"
    using sample_pure_New by blast
  have [simp]: "i64 100 = 100" "i64 400 = 400" "i64 407 = 407" "i64 0 = 0" "i64 300 = 300" "i64 7 = 7"
    by (simp_all add: i64_id)
  show "run_allocs pure_request nat sample_pure [100, 300, 7] = [(0xC000, 100)]"
    by (simp add: pure_request_def pure_Alloc_def sample_pure_def slice3_def Let_def)
  have "run_ready pure_request pure_ready sample_pure [100, 300, 7]"
    by (simp add: pure_request_def pure_Alloc_def sample_pure_def pure_ready_def slice3_def Let_def)
  then show "disjoint_spans (run_allocs pure_request nat sample_pure [100, 300, 7])"
    using pure_allocs_disjoint [OF New, of "[]" sample_pure "[100, 300, 7]" "[]"] by (simp add: in_space_def del: run_allocs.simps)
qed

text \<open>
  \<open>Alloc\<close> on every branch, while the offset stays below \<open>2 ^ 63\<close>: ErrInvalidSize for a negative
  size and an empty slice for 0, with nothing reserved; otherwise ErrOutOfMemory exactly when the
  slab has fewer bytes left, and else a slice whose length and capacity are the size, inside the
  slab and disjoint from everything allocated before. It never panics.
\<close>

lemma pure_Alloc_result:
  assumes "pure_inv a" "pure_ready a sz"
  shows "case snd (pure_Alloc a sz) of
      Ok s \<Rightarrow> 0 \<le> sz \<and> pa_off a + sz \<le> max (pure_Cap a) (pa_off a) \<and> s_len s = sz \<and> s_cap s = sz \<and> slice_ok s \<and>
        cap_span s \<subseteq> cap_span (pa_buf a) \<and> cap_span s \<inter> pure_used a = {}
    | Err e \<Rightarrow> (if sz < 0 then e = Pure_ErrInvalidSize \<and> fst (pure_Alloc a sz) = a
                else e = Pure_ErrOutOfMemory \<and> 0 < sz \<and> pure_Cap a < pure_Len a + sz)
    | _ \<Rightarrow> False"
proof -
  note E = pure_Alloc_eq [OF assms]
  show ?thesis
  proof (cases "0 < sz \<and> pa_off a + sz \<le> s_len (pa_buf a)")
    case True
    have cap: "s_cap (pa_buf a) = s_len (pa_buf a)"
      using assms(1) by (simp add: pure_inv_def)
    from True pure_chunk [OF assms(1), of sz] show ?thesis
      by (auto simp: E pure_Cap_def slice_ok_def cap_span_def cap)
  next
    case False
    then show ?thesis
      by (auto simp: E pure_Cap_def pure_Len_def) (auto simp: empty_slice_def cap_span_def span_def)
  qed
qed

lemma pure_Alloc_result_example:
  "snd (pure_Alloc sample_pure 300) = Err Pure_ErrOutOfMemory \<and>
   (\<exists>s. snd (pure_Alloc sample_pure 100) = Ok s \<and> s_len s = 100 \<and> cap_span s \<subseteq> cap_span (pa_buf sample_pure))"
proof -
  have rd: "pure_ready sample_pure 300" "pure_ready sample_pure 100"
    by (simp_all add: pure_ready_def sample_pure_def)
  have cap: "pure_Cap sample_pure = 256" "pa_off sample_pure = 0" "pure_Len sample_pure = 0"
    by (simp_all add: pure_Cap_def pure_Len_def sample_pure_def)
  have "snd (pure_Alloc sample_pure 300) = Err Pure_ErrOutOfMemory"
    using pure_Alloc_result [OF sample_pure_inv rd(1)] cap by (auto split: outcome.splits)
  moreover have "\<exists>s. snd (pure_Alloc sample_pure 100) = Ok s \<and> s_len s = 100 \<and> cap_span s \<subseteq> cap_span (pa_buf sample_pure)"
    using pure_Alloc_result [OF sample_pure_inv rd(2)] cap by (auto split: outcome.splits)
  ultimately show ?thesis ..
qed

text \<open>
  A request that does not fit is not rolled back. It leaves \<open>Len\<close>, documented as the number
  of bytes currently allocated, above \<open>Cap\<close>, and from then on every request for at least one byte
  fails, until \<open>Reset\<close>, even if it would have fitted before.
\<close>

lemma pure_failed_Alloc_poisons:
  assumes "pure_inv a" "pure_ready a sz" "0 < sz" "pure_Cap a < pure_Len a + sz"
    and "0 < n" "pure_ready (fst (pure_Alloc a sz)) n"
  shows "pure_Len (fst (pure_Alloc a sz)) = pure_Len a + sz \<and> pure_Cap a < pure_Len (fst (pure_Alloc a sz)) \<and>
    snd (pure_Alloc (fst (pure_Alloc a sz)) n) = Err Pure_ErrOutOfMemory"
proof -
  let ?a = "fst (pure_Alloc a sz)"
  have a': "?a = a\<lparr>pa_off := pa_off a + sz\<rparr>"
    using assms(3) by (simp add: pure_Alloc_eq [OF assms(1,2)])
  moreover have "pure_inv ?a"
    using pure_request_cases(1) [OF assms(1,2)] by (simp add: pure_request_def)
  ultimately show ?thesis
    using assms(3-5) pure_Alloc_eq [OF _ assms(6)] by (simp add: pure_Len_def pure_Cap_def)
qed

lemma pure_failed_Alloc_poisons_example:
  "pure_Len (fst (pure_Alloc sample_pure 257)) = 257 \<and>
   snd (pure_Alloc (fst (pure_Alloc sample_pure 257)) 1) = Err Pure_ErrOutOfMemory"
proof -
  have rd: "pure_ready sample_pure 257"
    by (simp add: pure_ready_def sample_pure_def)
  moreover have "pure_ready (fst (pure_Alloc sample_pure 257)) 1"
    using pure_Alloc_eq [OF sample_pure_inv rd] by (simp add: pure_ready_def sample_pure_def)
  ultimately show ?thesis
    using pure_failed_Alloc_poisons [OF sample_pure_inv, of 257 1] by (simp add: pure_Len_def pure_Cap_def sample_pure_def)
qed

text \<open>
  A size that takes the offset past \<open>2 ^ 63\<close> makes it negative, so the check against the slab
  passes and the slice expression panics, where ErrOutOfMemory is meant; the offset stays negative.
\<close>

lemma pure_Alloc_wrap_panics:
  assumes "pure_inv a" "2 ^ 63 \<le> pa_off a + sz" "sz < 2 ^ 63"
  shows "snd (pure_Alloc a sz) = Panic SliceBounds \<and> pure_Len (fst (pure_Alloc a sz)) < 0"
proof -
  have off: "0 \<le> pa_off a" "pa_off a < 2 ^ 63" "0 \<le> s_len (pa_buf a)"
    using assms(1) by (auto simp: pure_inv_def slice_ok_def)
  have "i64 (pa_off a + sz) = pa_off a + sz - 2 ^ 64"
    using off assms(2,3) by (intro i64_wrap) auto
  moreover have "0 < sz"
    using off assms(2) by simp
  ultimately show ?thesis
    using off assms(2,3) by (simp add: pure_Alloc_def pure_Len_def slice3_def Let_def)
qed

lemma pure_Alloc_wrap_panics_example:
  "snd (pure_Alloc (sample_pure\<lparr>pa_off := 1\<rparr>) (2 ^ 63 - 1)) = Panic SliceBounds"
proof -
  have "pure_inv (sample_pure\<lparr>pa_off := 1\<rparr>)"
    using sample_pure_inv by (simp add: pure_inv_def)
  from pure_Alloc_wrap_panics [OF this, of "2 ^ 63 - 1"] show ?thesis by simp
qed

end
