(* ===== verification/Secure_Buffer.thy ===== *)
theory Secure_Buffer
  imports Secure_Mem Secure_Sys Pure_Arena
begin

text \<open>
  The hardened buffer and the arena over it of the package secure (buffer.go, arena.go). The state
  around them is the memory, what the memory chips hold of it (a flushed cache line is written back),
  and the history of system calls. Access to memory that is not mapped is a fault.

  Shown here: a buffer is made with all the protections asked for or not at all, and then nothing is
  left behind; \<open>Destroy\<close> wipes, writes back, unlocks and unmaps, once; the arena obeys the contract
  of Alloc_Spec, being the arena of the package pure on another slab.
\<close>

section \<open>Options (buffer.go)\<close>

record secure_config =
  c_lock :: bool
  c_bestEffort :: bool
  c_zeroize :: bool
  c_flush :: bool
  c_guard :: bool

type_synonym secure_option = "secure_config \<Rightarrow> secure_config"

definition no_config :: secure_config where
  "no_config = \<lparr>c_lock = False, c_bestEffort = False, c_zeroize = False, c_flush = False, c_guard = False\<rparr>"

definition WithLock :: secure_option where
  "WithLock c = c\<lparr>c_lock := True\<rparr>"

definition WithBestEffortLock :: secure_option where
  "WithBestEffortLock c = c\<lparr>c_lock := True, c_bestEffort := True\<rparr>"

definition WithZeroize :: secure_option where
  "WithZeroize c = c\<lparr>c_zeroize := True\<rparr>"

definition WithFlush :: secure_option where
  "WithFlush c = c\<lparr>c_flush := True\<rparr>"

definition WithGuardPages :: secure_option where
  "WithGuardPages c = c\<lparr>c_guard := True\<rparr>"

text \<open>\<open>for _, o := range opts { o(&cfg) }\<close>\<close>

definition apply_options :: "secure_option list \<Rightarrow> secure_config" where
  "apply_options opts = foldl (\<lambda>c f. f c) no_config opts"

section \<open>The buffer (buffer.go)\<close>

record SecureBuffer =
  sb_data :: slice
  sb_mapping :: slice
  sb_cfg :: secure_config
  sb_locked :: bool
  sb_freed :: bool

text \<open>\<open>lockPagesFn\<close> is a package variable, initially \<open>lockPages\<close>.\<close>

definition secure_NewBuffer ::
  "platform \<Rightarrow> kernel \<Rightarrow> int \<Rightarrow> (os_log \<Rightarrow> slice \<Rightarrow> os_log \<times> go_error option) \<Rightarrow> os_log \<Rightarrow> int \<Rightarrow> secure_option list
   \<Rightarrow> os_log \<times> SecureBuffer outcome" where
  "secure_NewBuffer pf k ps lockPagesFn log sz opts =
     (if sz \<le> 0 then (log, Err Secure_ErrInvalidSize)
      else
        let cfg = apply_options opts in
        case platformAlloc pf k ps log sz (c_guard cfg) of
          (log1, Err e) \<Rightarrow> (log1, Err e)
        | (log1, Panic q) \<Rightarrow> (log1, Panic q)
        | (log1, Diverge) \<Rightarrow> (log1, Diverge)
        | (log1, Ok (mapping, data)) \<Rightarrow>
            let b = \<lparr>sb_data = data, sb_mapping = mapping, sb_cfg = cfg, sb_locked = False, sb_freed = False\<rparr> in
            if c_lock cfg then
              (case lockPagesFn log1 data of
                 (log2, Some e) \<Rightarrow>
                   if \<not> c_bestEffort cfg then (fst (platformFree pf k log2 mapping), Err e) else (log2, Ok b)
               | (log2, None) \<Rightarrow> (log2, Ok (b\<lparr>sb_locked := True\<rparr>)))
            else (log1, Ok b))"

definition secure_Bytes :: "SecureBuffer \<Rightarrow> slice" where
  "secure_Bytes b = sb_data b"

definition secure_buffer_Len :: "SecureBuffer \<Rightarrow> int" where
  "secure_buffer_Len b = s_len (sb_data b)"

definition secure_Locked :: "SecureBuffer \<Rightarrow> bool" where
  "secure_Locked b = sb_locked b"

text \<open>
  The state: memory as the processor sees it, what the memory chips hold, the system calls so far,
  and the length of a cache line of the processor. A flush instruction names an address and writes
  the whole line that holds it back to the chips.
\<close>

record sec_world =
  sw_mem :: mem
  sw_dram :: mem
  sw_log :: os_log
  sw_line :: nat

definition is_mapped :: "os_log \<Rightarrow> slice \<Rightarrow> bool" where
  "is_mapped log s \<longleftrightarrow> in_mapping (kernel_state log) (s_ptr s) (s_len s)"

definition sec_zero :: "arch \<Rightarrow> sec_world \<Rightarrow> slice \<Rightarrow> sec_world outcome" where
  "sec_zero ar w s =
     (if s_len s \<noteq> 0 \<and> \<not> is_mapped (sw_log w) s then Panic SegFault else Ok (w\<lparr>sw_mem := zeroBytes ar (sw_mem w) s\<rparr>))"

definition write_back :: "nat \<Rightarrow> mem \<Rightarrow> mem \<Rightarrow> uintptr list \<Rightarrow> mem" where
  "write_back line m dram addrs a = (if \<exists>l \<in> set addrs. unat a div line = unat l div line then m a else dram a)"

definition sec_flush :: "arch \<Rightarrow> sec_world \<Rightarrow> slice \<Rightarrow> sec_world outcome" where
  "sec_flush ar w s =
     (case flushBytes ar s of
        None \<Rightarrow> Diverge
      | Some lines \<Rightarrow>
          if lines \<noteq> [] \<and> \<not> is_mapped (sw_log w) s then Panic SegFault
          else Ok (w\<lparr>sw_dram := write_back (sw_line w) (sw_mem w) (sw_dram w) lines\<rparr>))"

text \<open>\<open>if zeroize { zeroBytes(data) }; if flush { flushBytes(data) }\<close>, in \<open>Destroy\<close> and \<open>Reset\<close>.\<close>

definition sec_wipe :: "arch \<Rightarrow> bool \<Rightarrow> bool \<Rightarrow> sec_world \<Rightarrow> slice \<Rightarrow> sec_world outcome" where
  "sec_wipe ar zeroize flush w s =
     obind (if zeroize then sec_zero ar w s else Ok w) (\<lambda>w1. if flush then sec_flush ar w1 s else Ok w1)"

definition secure_Destroy ::
  "arch \<Rightarrow> platform \<Rightarrow> kernel \<Rightarrow> sec_world \<Rightarrow> SecureBuffer \<Rightarrow> sec_world \<times> SecureBuffer \<times> unit outcome" where
  "secure_Destroy ar pf k w b =
     (if sb_freed b then (w, b, Ok ())
      else
        let b1 = b\<lparr>sb_freed := True\<rparr> in
        case sec_wipe ar (c_zeroize (sb_cfg b)) (c_flush (sb_cfg b)) w (sb_data b) of
          Err e \<Rightarrow> (w, b1, Err e)
        | Panic q \<Rightarrow> (w, b1, Panic q)
        | Diverge \<Rightarrow> (w, b1, Diverge)
        | Ok w1 \<Rightarrow>
            let log2 = (if sb_locked b then unlockPages pf k (sw_log w1) (sb_data b) else sw_log w1);
                (log3, r) = platformFree pf k log2 (sb_mapping b)
            in (w1\<lparr>sw_log := log3\<rparr>, b1, case r of None \<Rightarrow> Ok () | Some e \<Rightarrow> Err e))"

section \<open>The arena (arena.go)\<close>

record SecureArena =
  sa_buffer :: SecureBuffer
  sa_offset :: int
  sa_zeroize :: bool
  sa_flush :: bool

definition secure_NewArena ::
  "platform \<Rightarrow> kernel \<Rightarrow> int \<Rightarrow> (os_log \<Rightarrow> slice \<Rightarrow> os_log \<times> go_error option) \<Rightarrow> os_log \<Rightarrow> int \<Rightarrow> secure_option list
   \<Rightarrow> os_log \<times> SecureArena outcome" where
  "secure_NewArena pf k ps lockPagesFn log capacity opts =
     (case secure_NewBuffer pf k ps lockPagesFn log capacity opts of
        (log1, Ok buf) \<Rightarrow>
          (log1, Ok \<lparr>sa_buffer = buf, sa_offset = 0, sa_zeroize = c_zeroize (sb_cfg buf), sa_flush = c_flush (sb_cfg buf)\<rparr>)
      | (log1, Err e) \<Rightarrow> (log1, Err e)
      | (log1, Panic q) \<Rightarrow> (log1, Panic q)
      | (log1, Diverge) \<Rightarrow> (log1, Diverge))"

definition secure_Alloc :: "SecureArena \<Rightarrow> int \<Rightarrow> SecureArena \<times> slice outcome" where
  "secure_Alloc a sz =
     (if sz < 0 then (a, Err Secure_ErrInvalidSize)
      else if sz = 0 then (a, Ok empty_slice)
      else
        let data = sb_data (sa_buffer a);
            next = i64 (sa_offset a + sz);
            curr = i64 (next - sz);
            a' = a\<lparr>sa_offset := next\<rparr>
        in if next > s_len data then (a', Err Secure_ErrOutOfMemory)
           else (a', slice3 data curr next next))"

definition secure_Reset :: "arch \<Rightarrow> sec_world \<Rightarrow> SecureArena \<Rightarrow> (sec_world \<times> SecureArena) outcome" where
  "secure_Reset ar w a =
     obind (sec_wipe ar (sa_zeroize a) (sa_flush a) w (sb_data (sa_buffer a)))
       (\<lambda>w1. Ok (w1, a\<lparr>sa_offset := 0\<rparr>))"

definition secure_Close ::
  "arch \<Rightarrow> platform \<Rightarrow> kernel \<Rightarrow> sec_world \<Rightarrow> SecureArena \<Rightarrow> sec_world \<times> SecureArena \<times> unit outcome" where
  "secure_Close ar pf k w a =
     (let (w', b, r) = secure_Destroy ar pf k w (sa_buffer a) in (w', a\<lparr>sa_buffer := b\<rparr>, r))"

definition secure_Len :: "SecureArena \<Rightarrow> int" where
  "secure_Len a = sa_offset a"

definition secure_Cap :: "SecureArena \<Rightarrow> int" where
  "secure_Cap a = s_len (sb_data (sa_buffer a))"

section \<open>Releasing and unlocking\<close>

definition region :: "slice \<Rightarrow> uintptr \<times> int" where
  "region s = (s_ptr s, s_len s)"

text \<open>Windows frees by address, the others by region.\<close>

definition free_mapped :: "platform \<Rightarrow> slice \<Rightarrow> (uintptr \<times> int) list \<Rightarrow> (uintptr \<times> int) list" where
  "free_mapped pf m xs = (if pf = Windows then filter (\<lambda>x. fst x \<noteq> s_ptr m) xs else remove1 (region m) xs)"

lemma free_mapped_fresh: "s_ptr m \<notin> fst ` set xs \<Longrightarrow> free_mapped pf m (region m # xs) = xs"
  using filter_fresh [of "s_ptr m" xs] by (simp add: free_mapped_def region_def)

lemma free_mapped_distinct:
  "distinct (map fst xs) \<Longrightarrow> region m \<in> set xs \<Longrightarrow> free_mapped pf m xs = filter (\<lambda>x. fst x \<noteq> s_ptr m) xs"
proof (induction xs)
  case Nil
  then show ?case by simp
next
  case (Cons x xs)
  show ?case
  proof (cases "x = region m")
    case True
    with Cons.prems free_mapped_fresh [of m xs pf] show ?thesis
      by (simp add: region_def filter_fresh)
  next
    case False
    moreover have "fst x \<noteq> s_ptr m"
      using Cons.prems False by (force simp: region_def)
    ultimately show ?thesis
      using Cons by (auto simp: free_mapped_def)
  qed
qed

lemma os_try_undo:
  assumes "undo_ok k" "undoable (kernel_state log) c"
  obtains log' p where "os_try k log c = (log', None)" "kernel_state log' = kcall (kernel_state log) c p"
proof -
  obtain log' r where c: "os_try k log c = (log', r)" by fastforce
  obtain p where "k log c = Inr p"
    using assms unfolding undo_ok_def by blast
  with os_try_state [OF c] have "r = None" "\<exists>p. kernel_state log' = kcall (kernel_state log) c p"
    by (auto split: option.splits)
  with c that show thesis by blast
qed

lemma platformFree_ok:
  assumes "undo_ok k" "pf \<noteq> OtherOS" "s_len m \<noteq> 0" "region m \<in> set (k_mapped (kernel_state log))"
  obtains log' where "platformFree pf k log m = (log', None)"
    "kernel_state log' = (kernel_state log)\<lparr>k_mapped := free_mapped pf m (k_mapped (kernel_state log))\<rparr>"
proof (cases "pf = Windows")
  case True
  obtain log' p where "os_try k log (SysVirtualFree (s_ptr m)) = (log', None)"
    "kernel_state log' = kcall (kernel_state log) (SysVirtualFree (s_ptr m)) p"
    by (rule os_try_undo [OF assms(1), where c = "SysVirtualFree (s_ptr m)" and log = log]) (use assms(4) in \<open>force simp: region_def\<close>)
  with True assms(3) show thesis
    by (intro that [of log']) (simp_all add: platformFree_def platformFree_windows_def free_mapped_def)
next
  case False
  obtain log' p where "os_try k log (SysMunmap (s_ptr m) (s_len m)) = (log', None)"
    "kernel_state log' = kcall (kernel_state log) (SysMunmap (s_ptr m) (s_len m)) p"
    by (rule os_try_undo [OF assms(1), where c = "SysMunmap (s_ptr m) (s_len m)" and log = log]) (use assms(4) in \<open>simp add: region_def\<close>)
  with False assms(2) show thesis
    by (intro that [of log']; cases pf)
       (simp_all add: platformFree_def platformFree_linux_def platformFree_freebsd_def platformFree_darwin_def
         free_mapped_def region_def)
qed

text \<open>Unlocking undoes what locking did, and keeps the mappings.\<close>

lemma wer_include_state:
  "k_locked (kernel_state (werInclude k log a n)) = k_locked (kernel_state log)"
  "k_mapped (kernel_state (werInclude k log a n)) = k_mapped (kernel_state log)"
proof -
  obtain log1 r1 where c1: "os_try k log (SysWerFind ''WerUnregisterExcludedMemoryBlock'') = (log1, r1)" by fastforce
  from os_try_state [OF c1] show
    "k_locked (kernel_state (werInclude k log a n)) = k_locked (kernel_state log)"
    "k_mapped (kernel_state (werInclude k log a n)) = k_mapped (kernel_state log)"
    by (auto simp: werInclude_def c1 os_do_state split: option.splits sum.splits)
qed

lemma madvise_state:
  "k_locked (kcall s (SysMadvise p n a) q) = k_locked s" "k_mapped (kcall s (SysMadvise p n a) q) = k_mapped s"
  by auto

lemma unlock_do:
  assumes "undo_ok k" "in_mapping (kernel_state log) p n" "sint n' = n"
  shows "k_mapped (kernel_state (os_do k log (SysMunlock p n))) = k_mapped (kernel_state log)"
    "(p, n) \<notin> k_locked (kernel_state (os_do k log (SysMunlock p n)))"
    "k_mapped (kernel_state (os_do k log (SysVirtualUnlock p n'))) = k_mapped (kernel_state log)"
    "(p, n) \<notin> k_locked (kernel_state (os_do k log (SysVirtualUnlock p n')))"
proof -
  show "k_mapped (kernel_state (os_do k log (SysMunlock p n))) = k_mapped (kernel_state log)"
    "(p, n) \<notin> k_locked (kernel_state (os_do k log (SysMunlock p n)))"
    using undo_do [OF assms(1), of log "SysMunlock p n"] assms(2) by auto
  show "k_mapped (kernel_state (os_do k log (SysVirtualUnlock p n'))) = k_mapped (kernel_state log)"
    by (simp add: os_do_state split: sum.split)
  show "(p, n) \<notin> k_locked (kernel_state (os_do k log (SysVirtualUnlock p n')))"
  proof (cases "(p, n) \<in> k_locked (kernel_state log)")
    case True
    then show ?thesis
      using undo_do [OF assms(1), of log "SysVirtualUnlock p n'"] assms(3) by auto
  next
    case False
    then show ?thesis
      by (simp add: os_do_state split: sum.split)
  qed
qed

lemma unlockPages_state:
  assumes "undo_ok k" "0 \<le> s_len b" "s_len b < 2 ^ 63" "pf \<noteq> OtherOS" "is_mapped log b"
  shows "k_mapped (kernel_state (unlockPages pf k log b)) = k_mapped (kernel_state log)"
    "region b \<notin> k_locked (kernel_state (unlockPages pf k log b))"
proof -
  have w: "sint (word_of_int (s_len b) :: u64) = s_len b"
    using assms(2,3) by (rule sint_word_of_int)
  have m: "k_mapped (kernel_state (os_do k log (SysMadvise p n a))) = k_mapped (kernel_state log)" for p n a
    by (simp add: os_do_state madvise_state split: sum.split)
  have in_m: "in_mapping (kernel_state l) (s_ptr b) (s_len b)" if "k_mapped (kernel_state l) = k_mapped (kernel_state log)" for l
    using assms(5) in_mapping_same [OF that] by (simp add: is_mapped_def)
  note U = unlock_do [OF assms(1) in_m w]
  show "k_mapped (kernel_state (unlockPages pf k log b)) = k_mapped (kernel_state log)"
    "region b \<notin> k_locked (kernel_state (unlockPages pf k log b))"
    using assms(4) U by (cases pf; simp add: unlockPages_def unlockPages_linux_def unlockPages_freebsd_def unlockPages_darwin_def
        unlockPages_windows_def region_def m wer_include_state)+
qed

section \<open>Making a buffer\<close>

definition placed :: "int \<Rightarrow> int \<Rightarrow> slice \<Rightarrow> slice \<Rightarrow> bool" where
  "placed ps sz m d \<longleftrightarrow> s_len d = sz \<and> sz \<le> s_cap d \<and> 0 < s_len m \<and> nat ps dvd unat (s_ptr d) \<and>
     unat (s_ptr m) \<le> unat (s_ptr d) \<and> unat (s_ptr d) + nat (s_cap d) \<le> unat (s_ptr m) + nat (s_len m) \<and>
     unat (s_ptr m) + nat (s_len m) < 2 ^ 63"

lemma alloc_spec_placed:
  assumes "alloc_spec ps sz guard log (log', Ok (m, d))" "0 < ps" "ps \<le> 2 ^ 32" "0 < sz" "sz \<le> maxAlloc"
  shows "placed ps sz m d"
proof -
  have F: "unat (s_ptr m) + nat (s_len m) < 2 ^ 63" "nat ps dvd unat (s_ptr m)"
    using assms(1) by (auto simp: alloc_spec_def fresh_region_def)
  show ?thesis
  proof (cases guard)
    case False
    then obtain p where "m = os_slice p sz" "d = m"
      using assms(1) by (auto simp: alloc_spec_def)
    with F assms(4) show ?thesis
      by (simp add: placed_def os_slice_def)
  next
    case True
    note R = round_pages_spec [OF assms(2-5)]
    have G: "guarded ps sz m d"
      using assms(1) True by (simp add: alloc_spec_def)
    then have sl: "s_len m = s_cap d + 2 * ps" "s_ptr d = s_ptr m + word_of_int ps" "s_len d = sz" "s_cap d = round_pages ps sz"
      by (auto simp: guarded_def Let_def)
    have "unat (word_of_int ps :: u64) = nat ps"
      using assms(2,3) by (intro unat_word_of_int_u64) auto
    then have "unat (s_ptr d) = unat (s_ptr m) + nat ps"
      using F(1) sl R(1) assms(2,4) unfolding sl(2) by (subst unat_add_u64) auto
    with F sl R(1) assms(2,4) show ?thesis
      by (simp add: placed_def)
  qed
qed

lemma placed_start: "placed ps sz m d \<Longrightarrow> 0 < sz \<Longrightarrow> unat (s_ptr d) \<in> span (s_ptr m) (nat (s_len m))"
  by (auto simp: placed_def span_def)

text \<open>The state after a call of \<open>NewBuffer\<close>.\<close>

definition new_buffer_post :: "platform \<Rightarrow> int \<Rightarrow> os_log \<Rightarrow> int \<Rightarrow> secure_option list \<Rightarrow> os_log \<times> SecureBuffer outcome \<Rightarrow> bool" where
  "new_buffer_post pf ps log sz opts res \<longleftrightarrow>
     (let cfg = apply_options opts in
      case res of
        (log', Ok b) \<Rightarrow>
          0 < sz \<and> pf \<noteq> OtherOS \<and> placed ps sz (sb_mapping b) (sb_data b) \<and> sb_cfg b = cfg \<and> \<not> sb_freed b \<and>
          k_mapped (kernel_state log') = region (sb_mapping b) # k_mapped (kernel_state log) \<and>
          (if c_guard cfg then guarded ps sz (sb_mapping b) (sb_data b) \<and> guards ps sz (sb_mapping b) \<subseteq> k_guard (kernel_state log')
           else sb_data b = sb_mapping b) \<and>
          s_ptr (sb_mapping b) \<notin> fst ` set (k_mapped (kernel_state log)) \<and>
          (sb_locked b \<longleftrightarrow> region (sb_data b) \<in> k_locked (kernel_state log')) \<and>
          (sb_locked b \<longrightarrow> c_lock cfg \<and> (pf = Linux \<or> pf = FreeBSD \<longrightarrow> region (sb_data b) \<in> k_nodump (kernel_state log'))) \<and>
          (c_lock cfg \<and> \<not> c_bestEffort cfg \<longrightarrow> sb_locked b)
      | (log', Err e) \<Rightarrow>
          k_mapped (kernel_state log') = k_mapped (kernel_state log) \<and>
          k_locked (kernel_state log') = k_locked (kernel_state log) \<and>
          k_nodump (kernel_state log') = k_nodump (kernel_state log) \<and>
          (sz \<le> 0 \<longrightarrow> e = Secure_ErrInvalidSize \<and> log' = log)
      | _ \<Rightarrow> False)"

lemma NewBuffer_post:
  assumes "undo_ok k" "maps_ok k ps" "0 < ps" "ps \<le> 2 ^ 32" "sz \<le> maxAlloc"
  shows "new_buffer_post pf ps log sz opts (secure_NewBuffer pf k ps (lockPages pf k) log sz opts)"
proof (cases "0 < sz")
  case False
  then show ?thesis
    by (simp add: new_buffer_post_def secure_NewBuffer_def Let_def)
next
  case True
  define cfg where "cfg = apply_options opts"
  obtain log1 r where A: "platformAlloc pf k ps log sz (c_guard cfg) = (log1, r)" by fastforce
  note S = platformAlloc_spec [OF assms(1-4) True assms(5), of "c_guard cfg" log pf, unfolded A]
  show ?thesis
  proof (cases r)
    case (Ok md)
    obtain m d where md: "md = (m, d)" by fastforce
    note S = S [unfolded Ok md]
    note P = alloc_spec_placed [OF S assms(3,4) True assms(5)]
    have K: "k_mapped (kernel_state log1) = region m # k_mapped (kernel_state log)"
      "k_locked (kernel_state log1) = k_locked (kernel_state log)" "k_nodump (kernel_state log1) = k_nodump (kernel_state log)"
      and F: "fresh_region (kernel_state log) ps (s_ptr m) (nat (s_len m))"
      and G: "if c_guard cfg then guarded ps sz m d \<and> guards ps sz m \<subseteq> k_guard (kernel_state log1) else d = m"
      using S by (auto simp: alloc_spec_def region_def split: if_splits)
    have nb: "s_ptr m \<notin> fst ` set (k_mapped (kernel_state log))"
      using fresh_region_base [OF F] P by (simp add: placed_def)
    have "s_ptr d \<notin> fst ` (k_locked (kernel_state log) \<union> k_nodump (kernel_state log))"
      using F placed_start [OF P True] unfolding fresh_region_def image_Un by blast
    then have nl: "region d \<notin> k_locked (kernel_state log1)" "region d \<notin> k_nodump (kernel_state log1)"
      unfolding K region_def by force+
    have os: "pf \<noteq> OtherOS"
      using A Ok by (auto simp: platformAlloc_def platformAlloc_other_def)
    let ?b = "\<lparr>sb_data = d, sb_mapping = m, sb_cfg = cfg, sb_locked = False, sb_freed = False\<rparr>"
    show ?thesis
    proof (cases "c_lock cfg")
      case False
      then have "secure_NewBuffer pf k ps (lockPages pf k) log sz opts = (log1, Ok ?b)"
        using True A Ok md by (simp add: secure_NewBuffer_def cfg_def Let_def)
      with False True P K G nl os nb show ?thesis
        by (simp add: new_buffer_post_def cfg_def)
    next
      case lk: True
      obtain log2 e where L: "lockPages pf k log1 d = (log2, e)" by fastforce
      have "0 \<le> s_len d" "s_len d < 2 ^ 63" "in_mapping (kernel_state log1) (s_ptr d) (s_len d)"
        using P True assms(5) by (auto simp: placed_def maxAlloc_def in_mapping_def K region_def intro!: bexI [of _ "region m"] simp del: of_nat_unat)
      note LS = lockPages_spec [OF assms(1) nl [unfolded region_def] this, of pf, unfolded L lock_spec_def prod.case]
      obtain log3 where FR: "platformFree pf k log2 m = (log3, None)"
        "kernel_state log3 = (kernel_state log2)\<lparr>k_mapped := free_mapped pf m (k_mapped (kernel_state log2))\<rparr>"
        by (rule platformFree_ok [OF assms(1) os, of m log2]) (use P LS K in \<open>auto simp: placed_def split: option.splits\<close>)
      have N: "secure_NewBuffer pf k ps (lockPages pf k) log sz opts =
          (case e of Some e \<Rightarrow> if \<not> c_bestEffort cfg then (log3, Err e) else (log2, Ok ?b)
           | None \<Rightarrow> (log2, Ok (?b\<lparr>sb_locked := True\<rparr>)))"
        using True A Ok md lk L FR(1) by (simp add: secure_NewBuffer_def cfg_def Let_def split: option.split)
      show ?thesis
        unfolding N using LS lk True P K G nl os nb FR(2) free_mapped_fresh [OF nb, of pf]
        by (cases e) (auto simp: new_buffer_post_def cfg_def region_def Let_def)
    qed
  qed (use S True A in \<open>simp_all add: new_buffer_post_def secure_NewBuffer_def Let_def alloc_spec_def cfg_def\<close>)
qed

text \<open>
  C22: \<open>NewBuffer\<close> gives everything asked for or nothing: a size that is not positive is ErrInvalidSize
  without a system call; a buffer has the requested length, options, guard pages and locking, and one
  region more is mapped; after a failure nothing is left mapped or locked.
  With \<open>WithGuardPages\<close> there is a page without access directly before the data and one directly after
  their capacity, less than a page behind the data, and without it there is nothing around them;
  \<open>Locked\<close> tells whether the data are locked in memory, which they always are with \<open>WithLock\<close>, and then
  they are kept out of core dumps on Linux and FreeBSD. When it fails, whichever system call fails,
  nothing is kept out of dumps either. It never panics.
\<close>

theorem secure_NewBuffer_all_or_nothing:
  assumes "undo_ok k" "maps_ok k ps" "0 < ps" "ps \<le> 2 ^ 32" "sz \<le> maxAlloc"
  shows "case secure_NewBuffer pf k ps (lockPages pf k) log sz opts of
      (log', Ok b) \<Rightarrow> 0 < sz \<and> secure_buffer_Len b = sz \<and> sb_cfg b = apply_options opts \<and>
        k_mapped (kernel_state log') = region (sb_mapping b) # k_mapped (kernel_state log) \<and>
        (if c_guard (apply_options opts)
         then s_ptr (secure_Bytes b) = s_ptr (sb_mapping b) + word_of_int ps \<and>
           s_len (sb_mapping b) = s_cap (secure_Bytes b) + 2 * ps \<and> sz \<le> s_cap (secure_Bytes b) \<and> s_cap (secure_Bytes b) < sz + ps \<and>
           (s_ptr (sb_mapping b), ps) \<in> k_guard (kernel_state log') \<and>
           (s_ptr (secure_Bytes b) + word_of_int (s_cap (secure_Bytes b)), ps) \<in> k_guard (kernel_state log')
         else secure_Bytes b = sb_mapping b) \<and>
        (secure_Locked b \<longleftrightarrow> region (secure_Bytes b) \<in> k_locked (kernel_state log')) \<and>
        (c_lock (apply_options opts) \<and> \<not> c_bestEffort (apply_options opts) \<longrightarrow> secure_Locked b) \<and>
        (secure_Locked b \<and> (pf = Linux \<or> pf = FreeBSD) \<longrightarrow> region (secure_Bytes b) \<in> k_nodump (kernel_state log'))
    | (log', Err e) \<Rightarrow>
        k_mapped (kernel_state log') = k_mapped (kernel_state log) \<and>
        k_locked (kernel_state log') = k_locked (kernel_state log) \<and>
        k_nodump (kernel_state log') = k_nodump (kernel_state log) \<and>
        (sz \<le> 0 \<longrightarrow> e = Secure_ErrInvalidSize \<and> log' = log)
    | _ \<Rightarrow> False"
proof -
  obtain log' r where N: "secure_NewBuffer pf k ps (lockPages pf k) log sz opts = (log', r)" by fastforce
  note P = NewBuffer_post [OF assms, of pf log opts, unfolded N]
  show ?thesis
  proof (cases r)
    case (Ok b)
    then have "0 < sz"
      using P by (simp add: new_buffer_post_def Let_def)
    note R = round_pages_spec [OF assms(3,4) this assms(5)]
    show ?thesis
      using P R(1,2) Ok
      by (auto simp: N new_buffer_post_def Let_def secure_buffer_Len_def secure_Locked_def secure_Bytes_def placed_def
          guarded_def guards_def add.assoc split: if_splits)
  qed (use P in \<open>auto simp: N new_buffer_post_def Let_def\<close>)
qed

section \<open>Wiping\<close>

text \<open>A region that \<open>Destroy\<close> and \<open>Reset\<close> can wipe.\<close>

definition wipeable :: "sec_world \<Rightarrow> slice \<Rightarrow> bool" where
  "wipeable w d \<longleftrightarrow> slice_ok d \<and> 64 dvd unat (s_ptr d) \<and> unat (s_ptr d) + nat (s_len d) < 2 ^ 63 \<and> is_mapped (sw_log w) d"

definition wiped :: "arch \<Rightarrow> bool \<Rightarrow> bool \<Rightarrow> sec_world \<Rightarrow> slice \<Rightarrow> sec_world \<Rightarrow> bool" where
  "wiped ar zeroize flush w d w' \<longleftrightarrow> sw_log w' = sw_log w \<and>
     (zeroize \<longrightarrow> slice_bytes (sw_mem w') d = replicate (nat (s_len d)) 0) \<and>
     (\<forall>a. \<not> zeroize \<or> unat a \<notin> slice_span d \<longrightarrow> sw_mem w' a = sw_mem w a) \<and>
     (flush \<and> ar \<noteq> OtherArch \<and> 64 dvd sw_line w \<longrightarrow> (\<forall>a. unat a \<in> slice_span d \<longrightarrow> sw_dram w' a = sw_mem w' a))"

lemma zero_step:
  assumes "wipeable w d"
  shows "\<exists>w1. (if z then sec_zero ar w d else Ok w) = Ok w1 \<and> sw_log w1 = sw_log w \<and> sw_line w1 = sw_line w \<and>
    (z \<longrightarrow> slice_bytes (sw_mem w1) d = replicate (nat (s_len d)) 0) \<and>
    (\<forall>a. \<not> z \<or> unat a \<notin> slice_span d \<longrightarrow> sw_mem w1 a = sw_mem w a)"
proof (cases z)
  case True
  have "slice_ok d" "s_len d < 2 ^ 63"
    using assms by (auto simp: wipeable_def slice_ok_def)
  note Z = zeroBytes_effect [OF this, of ar "sw_mem w"]
  show ?thesis
    using True assms Z by (simp add: sec_zero_def wipeable_def)
qed simp

lemma flush_step:
  assumes "wipeable w d"
  shows "\<exists>w1. (if f then sec_flush ar w d else Ok w) = Ok w1 \<and> sw_log w1 = sw_log w \<and> sw_mem w1 = sw_mem w \<and>
    (f \<and> ar \<noteq> OtherArch \<and> 64 dvd sw_line w \<longrightarrow> (\<forall>a. unat a \<in> slice_span d \<longrightarrow> sw_dram w1 a = sw_mem w1 a))"
proof (cases "f \<and> ar \<noteq> OtherArch")
  case False
  then show ?thesis
    by (cases ar) (auto simp: sec_flush_def flushBytes_def flushBytes_generic_def)
next
  case True
  have w: "slice_ok d" "64 dvd unat (s_ptr d)" "unat (s_ptr d) + nat (s_len d) + 128 < 2 ^ 64"
    using assms by (auto simp: wipeable_def)
  obtain lines where L: "flushBytes ar d = Some lines"
    "\<forall>x \<in> slice_span d. \<exists>l \<in> set lines. unat l \<le> x \<and> x < unat l + 64"
    "\<forall>l \<in> set lines. unat l \<in> slice_span d \<and> 64 dvd unat l"
    using flushBytes_lines [OF w] True by blast
  have "write_back (sw_line w) (sw_mem w) (sw_dram w) lines a = sw_mem w a" if part: "64 dvd sw_line w" "unat a \<in> slice_span d" for a
  proof -
    from L(2,3) part(2) obtain l where l: "l \<in> set lines" "unat l \<le> unat a" "unat a < unat l + 64" "64 dvd unat l"
      by blast
    then have "unat a div 64 = unat l div 64"
      by (auto elim!: dvdE)
    moreover obtain r where "sw_line w = 64 * r"
      using part(1) by (auto elim: dvdE)
    ultimately have "unat a div sw_line w = unat l div sw_line w"
      by (simp add: div_mult2_eq)
    with l(1) show ?thesis
      by (auto simp: write_back_def)
  qed
  with True assms show ?thesis
    by (simp add: sec_flush_def L(1) wipeable_def)
qed

lemma sec_wipe_ok:
  assumes "wipeable w d"
  obtains w' where "sec_wipe ar z f w d = Ok w'" "wiped ar z f w d w'"
proof -
  from zero_step [OF assms, of z ar] obtain w1 where
    1: "(if z then sec_zero ar w d else Ok w) = Ok w1" "sw_log w1 = sw_log w" "sw_line w1 = sw_line w"
      "z \<longrightarrow> slice_bytes (sw_mem w1) d = replicate (nat (s_len d)) 0"
      "\<forall>a. \<not> z \<or> unat a \<notin> slice_span d \<longrightarrow> sw_mem w1 a = sw_mem w a"
    by blast
  then have "wipeable w1 d"
    using assms by (simp add: wipeable_def)
  from flush_step [OF this, of f ar] obtain w2 where
    2: "(if f then sec_flush ar w1 d else Ok w1) = Ok w2" "sw_log w2 = sw_log w1" "sw_mem w2 = sw_mem w1"
      "f \<and> ar \<noteq> OtherArch \<and> 64 dvd sw_line w1 \<longrightarrow> (\<forall>a. unat a \<in> slice_span d \<longrightarrow> sw_dram w2 a = sw_mem w2 a)"
    by blast
  show thesis
  proof (rule that)
    show "sec_wipe ar z f w d = Ok w2"
      by (simp only: sec_wipe_def 1(1) 2(1) obind.simps)
    show "wiped ar z f w d w2"
      unfolding wiped_def using 1(2-5) 2(2-4) by simp
  qed
qed

section \<open>Destroying a buffer\<close>

lemma new_buffer_wipeable:
  assumes "new_buffer_post pf ps log sz opts (log1, Ok b)" "64 dvd ps" "0 < ps"
    and "region (sb_mapping b) \<in> set (k_mapped (kernel_state (sw_log w)))"
  shows "wipeable w (sb_data b)" "s_len (sb_mapping b) \<noteq> 0" "pf \<noteq> OtherOS" "s_len (sb_data b) < 2 ^ 63" "0 \<le> s_len (sb_data b)"
proof -
  have P: "placed ps sz (sb_mapping b) (sb_data b)" "0 < sz" and os: "pf \<noteq> OtherOS"
    using assms(1) by (auto simp: new_buffer_post_def Let_def)
  have "64 dvd nat ps"
    using assms(2,3) nat_dvd_iff [of 64 "nat ps"] by (auto simp: dvd_def nat_mult_distrib intro!: exI)
  then have "64 dvd unat (s_ptr (sb_data b))"
    using P(1) dvd_trans by (auto simp: placed_def)
  moreover have "slice_ok (sb_data b)"
    using P by (auto simp: placed_def slice_ok_def in_space_def)
  moreover have "is_mapped (sw_log w) (sb_data b)"
    unfolding is_mapped_def in_mapping_def using P assms(4) by (intro bexI [of _ "region (sb_mapping b)"]) (auto simp: placed_def region_def simp del: of_nat_unat)
  ultimately show "wipeable w (sb_data b)"
    using P by (auto simp: wipeable_def placed_def)
  show "s_len (sb_mapping b) \<noteq> 0" "s_len (sb_data b) < 2 ^ 63" "0 \<le> s_len (sb_data b)"
    using P by (auto simp: placed_def)
  show "pf \<noteq> OtherOS" by (rule os)
qed

lemma secure_Destroy_effect:
  assumes "undo_ok k" "\<not> sb_freed b" "wipeable w (sb_data b)" "s_len (sb_mapping b) \<noteq> 0" "pf \<noteq> OtherOS"
    and "s_len (sb_data b) < 2 ^ 63" "0 \<le> s_len (sb_data b)" "region (sb_mapping b) \<in> set (k_mapped (kernel_state (sw_log w)))"
  obtains w1 w' where "secure_Destroy ar pf k w b = (w', b\<lparr>sb_freed := True\<rparr>, Ok ())"
    "wiped ar (c_zeroize (sb_cfg b)) (c_flush (sb_cfg b)) w (sb_data b) w1" "sw_mem w' = sw_mem w1" "sw_dram w' = sw_dram w1"
    "k_mapped (kernel_state (sw_log w')) = free_mapped pf (sb_mapping b) (k_mapped (kernel_state (sw_log w)))"
    "sb_locked b \<longrightarrow> region (sb_data b) \<notin> k_locked (kernel_state (sw_log w'))"
proof -
  let ?d = "sb_data b"
  obtain w1 where W: "sec_wipe ar (c_zeroize (sb_cfg b)) (c_flush (sb_cfg b)) w ?d = Ok w1"
    "wiped ar (c_zeroize (sb_cfg b)) (c_flush (sb_cfg b)) w ?d w1"
    by (rule sec_wipe_ok [OF assms(3)])
  define log2 where "log2 = (if sb_locked b then unlockPages pf k (sw_log w1) ?d else sw_log w1)"
  have "is_mapped (sw_log w1) ?d"
    using assms(3) W(2) by (simp add: wipeable_def wiped_def)
  note U = unlockPages_state [OF assms(1,7,6,5) this]
  have L: "k_mapped (kernel_state log2) = k_mapped (kernel_state (sw_log w))"
    "sb_locked b \<longrightarrow> region ?d \<notin> k_locked (kernel_state log2)"
    using U W(2) by (auto simp: log2_def wiped_def)
  obtain log3 where F: "platformFree pf k log2 (sb_mapping b) = (log3, None)"
    "kernel_state log3 = (kernel_state log2)\<lparr>k_mapped := free_mapped pf (sb_mapping b) (k_mapped (kernel_state log2))\<rparr>"
    by (rule platformFree_ok [OF assms(1,5,4), of log2]) (use L(1) assms(8) in simp)
  have "secure_Destroy ar pf k w b = (w1\<lparr>sw_log := log3\<rparr>, b\<lparr>sb_freed := True\<rparr>, Ok ())"
    using assms(2) W(1) F(1) by (simp add: secure_Destroy_def log2_def [symmetric])
  then show thesis
    by (rule that) (use W(2) L F(2) in auto)
qed

text \<open>
  C21: \<open>Destroy\<close> sanitizes before it releases. On a buffer made by \<open>NewBuffer\<close> that is still mapped,
  whatever was written to memory since, it succeeds without a fault; with \<open>WithZeroize\<close> every byte of
  the buffer is zero when its pages go back to the system, and no byte outside the buffer is touched;
  with \<open>WithFlush\<close> on amd64 and arm64, if a cache line of the processor is 64 bytes or a multiple of
  that, the memory chips hold what memory shows, so no old copy is left; the pages are unlocked, and
  exactly the buffer's mapping is unmapped. A second \<open>Destroy\<close> does nothing.
\<close>

theorem secure_Destroy_sanitizes:
  assumes "undo_ok k" "maps_ok k ps" "0 < ps" "ps \<le> 2 ^ 32" "64 dvd ps" "sz \<le> maxAlloc"
    and "secure_NewBuffer pf k ps (lockPages pf k) log sz opts = (log1, Ok b)"
    and "region (sb_mapping b) \<in> set (k_mapped (kernel_state (sw_log w)))" "distinct (map fst (k_mapped (kernel_state (sw_log w))))"
    and "secure_Destroy ar pf k w b = (w', b', r)"
  shows "r = Ok () \<and>
    (c_zeroize (apply_options opts) \<longrightarrow> slice_bytes (sw_mem w') (secure_Bytes b) = replicate (nat sz) 0) \<and>
    (\<forall>a. unat a \<notin> slice_span (secure_Bytes b) \<longrightarrow> sw_mem w' a = sw_mem w a) \<and>
    (c_flush (apply_options opts) \<and> ar \<noteq> OtherArch \<and> 64 dvd sw_line w \<longrightarrow>
       (\<forall>a. unat a \<in> slice_span (secure_Bytes b) \<longrightarrow> sw_dram w' a = sw_mem w' a)) \<and>
    (secure_Locked b \<longrightarrow> region (secure_Bytes b) \<notin> k_locked (kernel_state (sw_log w'))) \<and>
    k_mapped (kernel_state (sw_log w')) =
      filter (\<lambda>x. fst x \<noteq> s_ptr (sb_mapping b)) (k_mapped (kernel_state (sw_log w))) \<and>
    secure_Destroy ar pf k w' b' = (w', b', Ok ())"
proof -
  note N = NewBuffer_post [OF assms(1-4,6), of pf log opts, unfolded assms(7)]
  have b: "\<not> sb_freed b" "sb_cfg b = apply_options opts" "s_len (sb_data b) = sz"
    using N by (auto simp: new_buffer_post_def Let_def placed_def)
  obtain w1 w2 where D: "secure_Destroy ar pf k w b = (w2, b\<lparr>sb_freed := True\<rparr>, Ok ())"
    "wiped ar (c_zeroize (sb_cfg b)) (c_flush (sb_cfg b)) w (sb_data b) w1" "sw_mem w2 = sw_mem w1" "sw_dram w2 = sw_dram w1"
    "k_mapped (kernel_state (sw_log w2)) = free_mapped pf (sb_mapping b) (k_mapped (kernel_state (sw_log w)))"
    "sb_locked b \<longrightarrow> region (sb_data b) \<notin> k_locked (kernel_state (sw_log w2))"
    by (rule secure_Destroy_effect [OF assms(1) b(1) new_buffer_wipeable [OF N assms(5,3,8)] assms(8)])
  have E: "w' = w2" "b' = b\<lparr>sb_freed := True\<rparr>" "r = Ok ()"
    using assms(10) D(1) by auto
  show ?thesis
    unfolding E D(5) free_mapped_distinct [OF assms(9,8)]
    using D(2-4,6) b by (auto simp: wiped_def secure_Bytes_def secure_Locked_def secure_Destroy_def)
qed

section \<open>The arena\<close>

text \<open>
  An arena over a hardened buffer is the arena of the package pure on the same bytes, up to the names
  of the errors.
\<close>

definition sec_abs :: "SecureArena \<Rightarrow> PureArena" where
  "sec_abs a = (let d = sb_data (sa_buffer a) in
     \<lparr>pa_buf = \<lparr>s_ptr = s_ptr d, s_len = s_len d, s_cap = s_len d\<rparr>, pa_off = sa_offset a\<rparr>)"

fun sec_err :: "'a outcome \<Rightarrow> 'a outcome" where
  "sec_err (Err Secure_ErrInvalidSize) = Err Pure_ErrInvalidSize"
| "sec_err (Err Secure_ErrOutOfMemory) = Err Pure_ErrOutOfMemory"
| "sec_err r = r"

lemma secure_Alloc_mirror:
  assumes "s_len (sb_data (sa_buffer a)) \<le> s_cap (sb_data (sa_buffer a))"
  shows "pure_Alloc (sec_abs a) sz = map_prod sec_abs sec_err (secure_Alloc a sz)"
    "sa_buffer (fst (secure_Alloc a sz)) = sa_buffer a"
proof -
  let ?d = "sb_data (sa_buffer a)"
  have "slice3 \<lparr>s_ptr = s_ptr ?d, s_len = s_len ?d, s_cap = s_len ?d\<rparr> lo hi hi = sec_err (slice3 ?d lo hi hi)"
    if "hi \<le> s_len ?d" for lo hi
    using that assms by (auto simp: slice3_def)
  then show "pure_Alloc (sec_abs a) sz = map_prod sec_abs sec_err (secure_Alloc a sz)"
    by (simp add: pure_Alloc_def secure_Alloc_def sec_abs_def Let_def)
  show "sa_buffer (fst (secure_Alloc a sz)) = sa_buffer a"
    by (simp add: secure_Alloc_def Let_def)
qed

text \<open>The state of a client of the arena: the world and the arena.\<close>

type_synonym sec_state = "sec_world \<times> SecureArena"

definition secure_request :: "sec_state \<Rightarrow> int \<Rightarrow> sec_state \<times> uintptr outcome" where
  "secure_request s sz = (case secure_Alloc (snd s) sz of (a', r) \<Rightarrow> ((fst s, a'), map_outcome s_ptr r))"

definition secure_rewind :: "arch \<Rightarrow> sec_state \<Rightarrow> sec_state" where
  "secure_rewind ar s = (case secure_Reset ar (fst s) (snd s) of Ok s' \<Rightarrow> s' | _ \<Rightarrow> s)"

definition sec_inv :: "sec_state \<Rightarrow> bool" where
  "sec_inv s \<longleftrightarrow> pure_inv (sec_abs (snd s)) \<and> wipeable (fst s) (sb_data (sa_buffer (snd s)))"

definition sec_ready :: "sec_state \<Rightarrow> int \<Rightarrow> bool" where
  "sec_ready s sz \<longleftrightarrow> pure_ready (sec_abs (snd s)) sz"

definition sec_used :: "sec_state \<Rightarrow> nat set" where
  "sec_used s = pure_used (sec_abs (snd s))"

lemma secure_request_abs:
  assumes "sec_inv s"
  shows "sec_abs (snd (fst (secure_request s sz))) = fst (pure_request (sec_abs (snd s)) sz)"
    "snd (secure_request s sz) = Ok q \<Longrightarrow> snd (pure_request (sec_abs (snd s)) sz) = Ok q"
    "fst (fst (secure_request s sz)) = fst s" "sa_buffer (snd (fst (secure_request s sz))) = sa_buffer (snd s)"
proof -
  obtain a' r where A: "secure_Alloc (snd s) sz = (a', r)" by fastforce
  have "s_len (sb_data (sa_buffer (snd s))) \<le> s_cap (sb_data (sa_buffer (snd s)))"
    using assms by (auto simp: sec_inv_def wipeable_def slice_ok_def)
  note M = secure_Alloc_mirror [OF this, of sz, unfolded A]
  show "sec_abs (snd (fst (secure_request s sz))) = fst (pure_request (sec_abs (snd s)) sz)"
    "snd (secure_request s sz) = Ok q \<Longrightarrow> snd (pure_request (sec_abs (snd s)) sz) = Ok q"
    "fst (fst (secure_request s sz)) = fst s" "sa_buffer (snd (fst (secure_request s sz))) = sa_buffer (snd s)"
    using M by (cases r; simp add: secure_request_def pure_request_def A)+
qed

lemma secure_Reset_effect:
  assumes "sec_inv s"
  obtains w' where "secure_Reset ar (fst s) (snd s) = Ok (w', (snd s)\<lparr>sa_offset := 0\<rparr>)"
    "wiped ar (sa_zeroize (snd s)) (sa_flush (snd s)) (fst s) (sb_data (sa_buffer (snd s))) w'"
proof -
  obtain w' where "sec_wipe ar (sa_zeroize (snd s)) (sa_flush (snd s)) (fst s) (sb_data (sa_buffer (snd s))) = Ok w'"
    "wiped ar (sa_zeroize (snd s)) (sa_flush (snd s)) (fst s) (sb_data (sa_buffer (snd s))) w'"
    by (rule sec_wipe_ok) (use assms in \<open>auto simp: sec_inv_def\<close>)
  then show thesis
    by (intro that) (auto simp: secure_Reset_def)
qed

lemma secure_rewind_abs:
  assumes "sec_inv s"
  shows "sec_abs (snd (secure_rewind ar s)) = pure_Reset (sec_abs (snd s))" "sec_inv (secure_rewind ar s)"
proof -
  obtain w' where R: "secure_Reset ar (fst s) (snd s) = Ok (w', (snd s)\<lparr>sa_offset := 0\<rparr>)"
    "wiped ar (sa_zeroize (snd s)) (sa_flush (snd s)) (fst s) (sb_data (sa_buffer (snd s))) w'"
    by (rule secure_Reset_effect [OF assms])
  show e: "sec_abs (snd (secure_rewind ar s)) = pure_Reset (sec_abs (snd s))"
    by (simp add: secure_rewind_def R(1) sec_abs_def pure_Reset_def Let_def)
  have "pure_inv (pure_Reset (sec_abs (snd s)))"
    using assms pure_if.reset_invar by (auto simp: sec_inv_def)
  then show "sec_inv (secure_rewind ar s)"
    using assms R(2) unfolding sec_inv_def e by (simp add: secure_rewind_def R(1) wipeable_def wiped_def)
qed

interpretation secure_if: resettable_allocator secure_request nat sec_inv sec_ready sec_used "secure_rewind ar" for ar
proof unfold_locales
  fix s sz q
  assume s: "sec_inv s" "sec_ready s sz"
  then have p: "pure_inv (sec_abs (snd s))" "pure_ready (sec_abs (snd s)) sz"
    by (auto simp: sec_inv_def sec_ready_def)
  note A = secure_request_abs [OF s(1), of sz]
  show "sec_inv (fst (secure_request s sz))"
    using pure_request_cases(1) [OF p] s(1) by (simp add: sec_inv_def A)
  show "sec_used s \<subseteq> sec_used (fst (secure_request s sz))"
    using pure_request_cases(2) [OF p] by (simp add: sec_used_def A)
  show "span q (nat sz) \<inter> sec_used s = {}" "span q (nat sz) \<subseteq> sec_used (fst (secure_request s sz))"
    if "snd (secure_request s sz) = Ok q"
    using pure_request_cases(3) [OF p A(2) [OF that]] by (simp_all add: sec_used_def A(1))
next
  fix s
  assume "sec_inv s"
  then show "sec_inv (secure_rewind ar s)" "sec_used (secure_rewind ar s) = {}"
    using secure_rewind_abs [of s ar] pure_if.reset_used by (auto simp: sec_inv_def sec_used_def)
qed

text \<open>
  The arena of the package secure mirrors that of the package pure. Read as a pure arena over the
  same bytes, \<open>Alloc\<close> does the same on every input and in every branch, overflow and panic included,
  up to the names of the errors; \<open>Len\<close>, \<open>Cap\<close> and, when it returns, \<open>Reset\<close> agree too.
\<close>

lemma secure_arena_mirrors_pure:
  assumes "s_len (sb_data (sa_buffer a)) \<le> s_cap (sb_data (sa_buffer a))"
  shows "pure_Alloc (sec_abs a) sz = map_prod sec_abs sec_err (secure_Alloc a sz) \<and>
    pure_Len (sec_abs a) = secure_Len a \<and> pure_Cap (sec_abs a) = secure_Cap a \<and>
    (secure_Reset ar w a = Ok (w', a') \<longrightarrow> sec_abs a' = pure_Reset (sec_abs a))"
  using secure_Alloc_mirror(1) [OF assms]
  by (auto simp: pure_Len_def pure_Cap_def secure_Len_def secure_Cap_def secure_Reset_def sec_abs_def pure_Reset_def Let_def)

lemma new_arena_inv:
  assumes "undo_ok k" "maps_ok k ps" "0 < ps" "ps \<le> 2 ^ 32" "64 dvd ps" "capacity \<le> maxAlloc"
    and "secure_NewArena pf k ps (lockPages pf k) log capacity opts = (log1, Ok a)" "sw_log w = log1"
  shows "sec_inv (w, a)" "secure_Cap a = capacity" "secure_Len a = 0" "sa_zeroize a = c_zeroize (apply_options opts)"
proof -
  obtain b where B: "secure_NewBuffer pf k ps (lockPages pf k) log capacity opts = (log1, Ok b)"
    "a = \<lparr>sa_buffer = b, sa_offset = 0, sa_zeroize = c_zeroize (sb_cfg b), sa_flush = c_flush (sb_cfg b)\<rparr>"
    using assms(7) by (auto simp: secure_NewArena_def split: prod.splits outcome.splits)
  note N = NewBuffer_post [OF assms(1-4,6), of pf log opts, unfolded B(1)]
  then have m: "region (sb_mapping b) \<in> set (k_mapped (kernel_state (sw_log w)))" and P: "placed ps capacity (sb_mapping b) (sb_data b)" "0 < capacity"
    and c: "sb_cfg b = apply_options opts"
    using assms(8) by (auto simp: new_buffer_post_def Let_def)
  note W = new_buffer_wipeable [OF N assms(5,3) m]
  have "pure_inv (sec_abs a)"
    using W(1) P assms(6) by (auto simp: pure_inv_def sec_abs_def B(2) Let_def wipeable_def slice_ok_def placed_def in_space_def)
  then show "sec_inv (w, a)" "secure_Cap a = capacity" "secure_Len a = 0" "sa_zeroize a = c_zeroize (apply_options opts)"
    using W(1) P c by (auto simp: sec_inv_def B(2) secure_Cap_def secure_Len_def placed_def)
qed

lemma secure_run_buffer:
  assumes "sec_inv s" "run_ready secure_request sec_ready s rs"
  shows "sa_buffer (snd (foldl (\<lambda>s r. fst (secure_request s r)) s rs)) = sa_buffer (snd s)"
    "sa_zeroize (snd (foldl (\<lambda>s r. fst (secure_request s r)) s rs)) = sa_zeroize (snd s)"
proof -
  have z: "sa_zeroize (snd (fst (secure_request s r))) = sa_zeroize (snd s)" for s r
    by (simp add: secure_request_def secure_Alloc_def Let_def split: prod.split)
  show "sa_buffer (snd (foldl (\<lambda>s r. fst (secure_request s r)) s rs)) = sa_buffer (snd s)"
    "sa_zeroize (snd (foldl (\<lambda>s r. fst (secure_request s r)) s rs)) = sa_zeroize (snd s)"
    using assms by (induction rs arbitrary: s) (auto simp: secure_request_abs secure_if.alloc_invar z)
qed

text \<open>
  The slices an arena of the package secure hands out are pairwise disjoint and disjoint from what
  was handed out before, in any sequence of calls after \<open>NewArena\<close>; \<open>Reset\<close> returns, with
  \<open>WithZeroize\<close> the whole slab is then zero, and what is handed out afterwards is again disjoint.
\<close>

lemma secure_allocs_disjoint:
  assumes "undo_ok k" "maps_ok k ps" "0 < ps" "ps \<le> 2 ^ 32" "64 dvd ps" "capacity \<le> maxAlloc"
    and "secure_NewArena pf k ps (lockPages pf k) log capacity opts = (log1, Ok a0)" "sw_log w = log1"
    and "run_ready secure_request sec_ready (w, a0) before"
    and "s = foldl (\<lambda>s r. fst (secure_request s r)) (w, a0) before"
    and "run_ready secure_request sec_ready s rs"
    and "\<And>s'. secure_Reset ar (fst s) (snd s) = Ok s' \<Longrightarrow> run_ready secure_request sec_ready s' rs'"
  shows "disjoint_spans (run_allocs secure_request nat s rs) \<and>
    (\<forall>(q, n) \<in> set (run_allocs secure_request nat s rs). span q n \<inter> sec_used s = {}) \<and>
    (\<exists>w' a'. secure_Reset ar (fst s) (snd s) = Ok (w', a') \<and>
       (c_zeroize (apply_options opts) \<longrightarrow> slice_bytes (sw_mem w') (sb_data (sa_buffer a0)) = replicate (nat capacity) 0) \<and>
       disjoint_spans (run_allocs secure_request nat (w', a') rs'))"
proof -
  note N = new_arena_inv [OF assms(1-8)]
  have inv: "sec_inv s" and buf: "sa_buffer (snd s) = sa_buffer a0" "sa_zeroize (snd s) = sa_zeroize a0"
    using secure_if.run_invar [OF N(1) assms(9)] secure_run_buffer [OF N(1) assms(9)] by (simp_all add: assms(10))
  obtain w' where R: "secure_Reset ar (fst s) (snd s) = Ok (w', (snd s)\<lparr>sa_offset := 0\<rparr>)"
    "wiped ar (sa_zeroize (snd s)) (sa_flush (snd s)) (fst s) (sb_data (sa_buffer (snd s))) w'"
    by (rule secure_Reset_effect [OF inv])
  then have rw: "secure_rewind ar s = (w', (snd s)\<lparr>sa_offset := 0\<rparr>)"
    by (simp add: secure_rewind_def)
  have "c_zeroize (apply_options opts) \<longrightarrow> slice_bytes (sw_mem w') (sb_data (sa_buffer a0)) = replicate (nat capacity) 0"
    using R(2) N(2,4) by (simp add: wiped_def buf secure_Cap_def)
  with secure_if.run_disjoint [OF inv assms(11)] secure_if.run_fresh [OF inv assms(11)]
    secure_if.reset_run [OF inv, of ar rs'] assms(12) [OF R(1)] R(1) show ?thesis
    unfolding rw by blast
qed

section \<open>Examples\<close>

text \<open>A buffer of 5000 bytes on macOS, locked, wiped and flushed, between guard pages.\<close>

definition sample_options :: "secure_option list" where
  "sample_options = [WithLock, WithZeroize, WithFlush, WithGuardPages]"

definition sample_secure_log :: os_log where
  "sample_secure_log = [(SysMmap 16384, Inr 0x10000), (SysMprotectNone 0x10000 4096, Inr 0),
     (SysMprotectNone 0x13000 4096, Inr 0), (SysMlock 0x11000 5000, Inr 0)]"

definition sample_secure :: SecureBuffer where
  "sample_secure = \<lparr>sb_data = \<lparr>s_ptr = 0x11000, s_len = 5000, s_cap = 8192\<rparr>, sb_mapping = os_slice 0x10000 16384,
     sb_cfg = \<lparr>c_lock = True, c_bestEffort = False, c_zeroize = True, c_flush = True, c_guard = True\<rparr>,
     sb_locked = True, sb_freed = False\<rparr>"

lemma sample_options_apply:
  "apply_options sample_options = \<lparr>c_lock = True, c_bestEffort = False, c_zeroize = True, c_flush = True, c_guard = True\<rparr>"
  by (simp add: apply_options_def sample_options_def no_config_def WithLock_def WithZeroize_def WithFlush_def WithGuardPages_def)

lemma sample_secure_New:
  "secure_NewBuffer Darwin sample_kernel 4096 (lockPages Darwin sample_kernel) [] 5000 sample_options = (sample_secure_log, Ok sample_secure)"
  by (simp add: secure_NewBuffer_def sample_options_apply sample_secure_log_def sample_secure_def
      platformAlloc_def platformAlloc_darwin_def platformAlloc_linux_def lockPages_def lockPages_darwin_def sample_kernel_def
      os_call_def os_try_def os_do_def with_ok_def round_pages_def tdiv_def i64_def os_slice_def slice_upto_def
      slice_from_def slice3_def)

lemma sample_secure_mapped: "k_mapped (kernel_state sample_secure_log) = [region (sb_mapping sample_secure)]"
  by (simp add: sample_secure_log_def sample_secure_def kernel_state_def kstep_def region_def os_slice_def)

theorem secure_NewBuffer_all_or_nothing_witness:
  "case secure_NewBuffer Darwin sample_kernel 4096 (lockPages Darwin sample_kernel) [] 5000 sample_options of
     (log', Ok b) \<Rightarrow> secure_buffer_Len b = 5000 \<and> secure_Locked b \<and> region (secure_Bytes b) \<in> k_locked (kernel_state log') \<and>
       (s_ptr (secure_Bytes b) + word_of_int (s_cap (secure_Bytes b)), 4096) \<in> k_guard (kernel_state log')
   | _ \<Rightarrow> False"
  using secure_NewBuffer_all_or_nothing [OF sample_kernel_undo sample_kernel_maps, where sz = 5000 and pf = Darwin and log = "[]" and opts = sample_options]
  unfolding sample_secure_New sample_options_apply by (auto simp: maxAlloc_def)

theorem secure_Destroy_sanitizes_witness:
  "case secure_Destroy Amd64 Darwin sample_kernel \<lparr>sw_mem = (\<lambda>_. 7), sw_dram = (\<lambda>_. 7), sw_log = sample_secure_log, sw_line = 128\<rparr> sample_secure of
     (w', b', r) \<Rightarrow> r = Ok () \<and> slice_bytes (sw_mem w') (secure_Bytes sample_secure) = replicate 5000 0 \<and>
       k_mapped (kernel_state (sw_log w')) = []"
proof -
  let ?w = "\<lparr>sw_mem = (\<lambda>_. 7), sw_dram = (\<lambda>_. 7), sw_log = sample_secure_log, sw_line = 128\<rparr> :: sec_world"
  obtain w' b' r where D: "secure_Destroy Amd64 Darwin sample_kernel ?w sample_secure = (w', b', r)"
    by (metis prod_cases3)
  from secure_Destroy_sanitizes [OF sample_kernel_undo sample_kernel_maps _ _ _ _ sample_secure_New _ _ D] show ?thesis
    unfolding D by (simp add: maxAlloc_def sample_secure_mapped sample_options_apply region_def)
qed

lemma sample_secure_arena_New:
  "secure_NewArena Darwin sample_kernel 4096 (lockPages Darwin sample_kernel) [] 5000 sample_options =
     (sample_secure_log, Ok \<lparr>sa_buffer = sample_secure, sa_offset = 0, sa_zeroize = True, sa_flush = True\<rparr>)"
  unfolding secure_NewArena_def sample_secure_New by (simp add: sample_secure_def)

lemma secure_arena_mirrors_pure_example:
  "snd (pure_Alloc (sec_abs \<lparr>sa_buffer = sample_secure, sa_offset = 4990, sa_zeroize = True, sa_flush = True\<rparr>) 20) =
   sec_err (snd (secure_Alloc \<lparr>sa_buffer = sample_secure, sa_offset = 4990, sa_zeroize = True, sa_flush = True\<rparr> 20))"
  using secure_arena_mirrors_pure [of "\<lparr>sa_buffer = sample_secure, sa_offset = 4990, sa_zeroize = True, sa_flush = True\<rparr>" 20]
  by (simp add: sample_secure_def)

lemma secure_allocs_disjoint_example:
  "let s = (\<lparr>sw_mem = (\<lambda>_. 7), sw_dram = (\<lambda>_. 7), sw_log = sample_secure_log, sw_line = 128\<rparr>,
            \<lparr>sa_buffer = sample_secure, sa_offset = 0, sa_zeroize = True, sa_flush = True\<rparr>)
   in disjoint_spans (run_allocs secure_request nat s [100, 6000, 7]) \<and>
      (\<exists>w' a'. secure_Reset Arm64 (fst s) (snd s) = Ok (w', a') \<and> slice_bytes (sw_mem w') (secure_Bytes sample_secure) = replicate 5000 0)"
proof -
  let ?w = "\<lparr>sw_mem = (\<lambda>_. 7), sw_dram = (\<lambda>_. 7), sw_log = sample_secure_log, sw_line = 128\<rparr> :: sec_world"
    and ?a = "\<lparr>sa_buffer = sample_secure, sa_offset = 0, sa_zeroize = True, sa_flush = True\<rparr>"
  have rd: "run_ready secure_request sec_ready (?w, ?a) [100, 6000, 7]"
    by (simp add: sec_ready_def pure_ready_def sec_abs_def secure_request_def secure_Alloc_def sample_secure_def i64_def slice3_def)
  have "disjoint_spans (run_allocs secure_request nat (?w, ?a) [100, 6000, 7]) \<and>
    (\<exists>w' a'. secure_Reset Arm64 ?w ?a = Ok (w', a') \<and>
       slice_bytes (sw_mem w') (sb_data sample_secure) = replicate 5000 0)"
    using secure_allocs_disjoint [OF sample_kernel_undo sample_kernel_maps _ _ _ _ sample_secure_arena_New _ _ _ rd,
        where before = "[]" and rs' = "[]" and ar = Arm64 and w = ?w]
    unfolding sample_options_apply by (simp add: maxAlloc_def del: run_allocs.simps(2)) blast
  then show ?thesis
    by (simp only: Let_def fst_conv snd_conv secure_Bytes_def)
qed

end
