(* ===== verification/Topology.thy ===== *)
theory Topology
  imports Prelude
begin

text \<open>
  The bucket topology of the packages balloc and arena: the scale derived from the number of
  processors (bootstrap.go of both packages), the table \<open>buildPandiagonal\<close> and the
  multiplication \<open>gfMultiply\<close> that spread a thread and a chunk over the buckets (topology.go of
  both packages). The two packages hold their own copies of this code, with a table of 32-bit
  entries in balloc and of 64-bit entries in arena; both copies are modelled.

  Shown here: the scale is the least power of two that is at least 8 and at least the number of
  processors, and its loop ends; a bucket is always in range and its table accesses never panic;
  \<open>gfMultiply\<close> multiplies polynomials over the field of two elements modulo a polynomial of the degree
  of the scale; each row of the table is a permutation of \<open>1..scale\<close>; the two packages compute the
  same bucket.
\<close>

section \<open>Scale and polynomial (bootstrap.go)\<close>

text \<open>\<open>for n < cores { n <<= 1 }\<close>\<close>

partial_function (option) scale_loop :: "int \<Rightarrow> int \<Rightarrow> int option" where
  "scale_loop cores n = (if n < cores then scale_loop cores (i64 (n * 2)) else Some n)"

definition minScale :: int where
  "minScale = 8"

definition discoverScale :: "int \<Rightarrow> int option" where
  "discoverScale cores = (if cores < minScale then Some minScale else scale_loop cores 1)"

definition polynomialForScale :: "int \<Rightarrow> u64" where
  "polynomialForScale scale =
     (if scale \<le> 8 then 0x11B else if scale \<le> 16 then 0x1002D else 0x40000007)"

definition minArenaScale :: int where
  "minArenaScale = 8"

definition discoverArenaScale :: "int \<Rightarrow> int option" where
  "discoverArenaScale cores =
     (if cores < minArenaScale then Some minArenaScale else scale_loop cores 1)"

definition arena_polynomialForScale :: "int \<Rightarrow> u64" where
  "arena_polynomialForScale scale =
     (if scale \<le> 8 then 0x11B else if scale \<le> 16 then 0x1002D else 0x40000007)"

section \<open>The table and the multiplication (topology.go)\<close>

text \<open>\<open>make([][]T, scale)\<close> panics for a negative length.\<close>

definition buildPandiagonal :: "int \<Rightarrow> u32 list list outcome" where
  "buildPandiagonal scale =
     (if scale < 0 then Panic MakeSliceLen
      else Ok (map (\<lambda>row. map (\<lambda>col. word_of_int ((int row + int col) mod scale + 1))
                             [0..<nat scale]) [0..<nat scale]))"

definition arena_buildPandiagonal :: "int \<Rightarrow> u64 list list outcome" where
  "arena_buildPandiagonal scale =
     (if scale < 0 then Panic MakeSliceLen
      else Ok (map (\<lambda>row. map (\<lambda>col. word_of_int ((int row + int col) mod scale + 1))
                             [0..<nat scale]) [0..<nat scale]))"

text \<open>\<open>bits.Len\<close>: the number of bits needed to write a word.\<close>

function bits_Len :: "u64 \<Rightarrow> nat" where
  "bits_Len x = (if x = 0 then 0 else Suc (bits_Len (drop_bit 1 x)))"
  by pat_completeness auto
termination
  by (relation "measure unat") (simp_all add: unat_drop_bit_Suc_0_less)

declare bits_Len.simps [simp del]

text \<open>One doubling of the first factor: shift, reduce when the bit of the scale is set, cut.\<close>

definition gf_double :: "u64 \<Rightarrow> int \<Rightarrow> u64 \<Rightarrow> u64" where
  "gf_double poly scale a =
     (let a1 = push_bit 1 a;
          a2 = (if a1 AND word_of_int scale \<noteq> 0 then a1 XOR poly else a1)
      in a2 AND (push_bit (bits_Len (word_of_int (scale - 1))) 1 - 1))"

function gf_loop :: "u64 \<Rightarrow> int \<Rightarrow> u64 \<Rightarrow> u64 \<Rightarrow> u64 \<Rightarrow> u64" where
  "gf_loop poly scale a b out =
     (if b = 0 then out
      else gf_loop poly scale (gf_double poly scale a) (drop_bit 1 b)
             (if b AND 1 = 1 then out XOR a else out))"
  by pat_completeness auto
termination
  by (relation "measure (\<lambda>(poly, scale, a, b, out). unat b)")
     (simp_all add: unat_drop_bit_Suc_0_less)

declare gf_loop.simps [simp del]

definition gfMultiply :: "u64 \<Rightarrow> u64 \<Rightarrow> u64 \<Rightarrow> int \<Rightarrow> u64" where
  "gfMultiply a b poly scale = gf_loop poly scale a b 0 AND word_of_int (scale - 1)"

definition arena_gfMultiply :: "u64 \<Rightarrow> u64 \<Rightarrow> u64 \<Rightarrow> int \<Rightarrow> u64" where
  "arena_gfMultiply a b poly scale = gf_loop poly scale a b 0 AND word_of_int (scale - 1)"

text \<open>
  \<open>bucketFor\<close>: the division panics on scale 0, and the table accesses panic out of range.
  \<open>int(x)\<close> of an unsigned word reads it as two's complement.
\<close>

definition bucketFor :: "u64 \<Rightarrow> u32 list list \<Rightarrow> int \<Rightarrow> u64 \<Rightarrow> u64 \<Rightarrow> int outcome" where
  "bucketFor GFPoly matrix scale threadID chunkID =
     (if (word_of_int scale :: u64) = 0 then Panic DivideByZero
      else let row = sint (threadID mod word_of_int scale);
               col = sint (chunkID mod word_of_int scale)
           in obind (index_at matrix row) (\<lambda>r.
              obind (index_at r col) (\<lambda>m.
              let factorMagic = ucast m;
                  factorOrtho = threadID XOR chunkID
              in Ok (sint (gfMultiply factorMagic factorOrtho GFPoly scale mod word_of_int scale)))))"

record topology =
  t_scale :: int
  t_poly :: u64
  t_matrix :: "u64 list list"

definition newTopology :: "int \<Rightarrow> u64 \<Rightarrow> topology outcome" where
  "newTopology scale poly =
     obind (arena_buildPandiagonal scale)
       (\<lambda>m. Ok \<lparr>t_scale = scale, t_poly = poly, t_matrix = m\<rparr>)"

definition topology_bucket :: "topology \<Rightarrow> u64 \<Rightarrow> u64 \<Rightarrow> int outcome" where
  "topology_bucket t threadID chunkID =
     (if (word_of_int (t_scale t) :: u64) = 0 then Panic DivideByZero
      else let row = sint (threadID mod word_of_int (t_scale t));
               col = sint (chunkID mod word_of_int (t_scale t))
           in obind (index_at (t_matrix t) row) (\<lambda>r.
              obind (index_at r col) (\<lambda>factorMagic.
              let factorOrtho = threadID XOR chunkID
              in Ok (sint (arena_gfMultiply factorMagic factorOrtho (t_poly t) (t_scale t)
                           mod word_of_int (t_scale t))))))"

section \<open>The scale is the least power of two\<close>

lemma scale_loop_pow2:
  assumes "cores \<le> 2 ^ 62" "k \<le> 62"
  shows "\<exists>m\<ge>k. m \<le> 62 \<and> scale_loop cores (2 ^ k) = Some (2 ^ m) \<and> cores \<le> 2 ^ m
               \<and> (m = k \<or> 2 ^ m < 2 * cores)"
  using assms
proof (induction "62 - k" arbitrary: k)
  case 0
  then have "k = 62" by simp
  with 0 show ?case by (auto simp: scale_loop.simps)
next
  case (Suc d)
  show ?case
  proof (cases "2 ^ k < cores")
    case True
    with Suc.prems have k: "Suc k \<le> 62" using Suc.hyps(2) by simp
    have "(2::int) ^ Suc k \<le> 2 ^ 62"
      using k by (intro power_increasing) auto
    then have "i64 (2 ^ k * 2) = 2 ^ Suc k"
      by (subst i64_id) (auto simp: mult.commute intro: order.strict_trans1 order.trans [of _ 0])
    then have step: "scale_loop cores (2 ^ k) = scale_loop cores (2 ^ Suc k)"
      using True by (simp add: scale_loop.simps)
    have "d = 62 - Suc k"
      using Suc.hyps(2) by simp
    from Suc.hyps(1) [OF this Suc.prems(1) k] obtain m where
      m: "m \<ge> Suc k" "m \<le> 62" "scale_loop cores (2 ^ Suc k) = Some (2 ^ m)" "cores \<le> 2 ^ m"
        "m = Suc k \<or> 2 ^ m < 2 * cores"
      by blast
    moreover have "2 ^ m < 2 * cores"
      using m(5) True by auto
    ultimately show ?thesis
      using step by (metis Suc_leD)
  next
    case False
    with Suc.prems show ?thesis
      by (intro exI [of _ k]) (simp add: scale_loop.simps)
  qed
qed

lemma discoverScale_least:
  assumes "cores \<le> 2 ^ 62"
  shows "\<exists>m. 3 \<le> m \<and> m \<le> 62 \<and> discoverScale cores = Some (2 ^ m) \<and> cores \<le> 2 ^ m
             \<and> (2 ^ m = minScale \<or> 2 ^ m < 2 * cores)"
proof (cases "cores < minScale")
  case True
  then show ?thesis
    by (intro exI [of _ 3]) (simp add: discoverScale_def minScale_def)
next
  case False
  from scale_loop_pow2 [OF assms, of 0] obtain m where
    m: "m \<le> 62" "scale_loop cores 1 = Some (2 ^ m)" "cores \<le> 2 ^ m" "m = 0 \<or> 2 ^ m < 2 * cores"
    by auto
  with False have "(2::int) ^ 3 \<le> 2 ^ m"
    by (simp add: minScale_def)
  then have "3 \<le> m"
    by (simp only: power_increasing_iff)
  with m False show ?thesis
    by (auto simp: discoverScale_def)
qed

section \<open>What \<open>gfMultiply\<close> computes\<close>

text \<open>
  The reference: polynomials over the field of two elements, written as numbers whose bits are the
  coefficients. A sum is \<open>XOR\<close>, multiplication by \<open>x\<close> is doubling, a product is the sum over the bits
  of one factor of the other one shifted.
\<close>

fun poly_mult :: "nat \<Rightarrow> nat \<Rightarrow> nat" where
  "poly_mult q p = (if q = 0 then 0 else (if odd q then p else 0) XOR 2 * poly_mult (q div 2) p)"

declare poly_mult.simps [simp del]

lemma poly_mult_0 [simp]: "poly_mult 0 p = 0"
  by (simp add: poly_mult.simps)

lemma poly_mult_1 [simp]: "poly_mult (Suc 0) p = p"
  by (simp add: poly_mult.simps)

lemma poly_mult_step: "poly_mult q p = (if odd q then p else 0) XOR 2 * poly_mult (q div 2) p"
  by (cases "q = 0") (simp_all add: poly_mult.simps [of q])

lemma poly_mult_double: "poly_mult (2 * q) p = 2 * poly_mult q p"
  by (simp add: poly_mult_step [of "2 * q"])

lemma double_xor: "2 * ((x :: nat) XOR y) = 2 * x XOR 2 * y"
  using push_bit_xor [of 1 x y] by (simp add: push_bit_eq_mult mult.commute)

lemma half_xor: "((x :: nat) XOR y) div 2 = x div 2 XOR y div 2"
  using drop_bit_xor [of 1 x y] by (simp add: drop_bit_eq_div)

lemma odd_xor: "odd ((x :: nat) XOR y) \<longleftrightarrow> odd x \<noteq> odd y"
  using bit_xor_iff [of x y 0] by (simp add: bit_0)

lemma xor_cancel: "a XOR (a XOR b) = (b :: nat)"
  by (simp flip: xor.assoc)

lemma poly_mult_xor: "poly_mult (q XOR r) p = poly_mult q p XOR poly_mult r p"
proof (induction "q + r" arbitrary: q r rule: less_induct)
  case less
  show ?case
  proof (cases "q = 0 \<and> r = 0")
    case False
    then have "q div 2 + r div 2 < q + r"
      by (cases "q = 0"; cases "r = 0") (simp_all add: add_less_mono add_less_le_mono)
    from less [OF this] show ?thesis
      unfolding poly_mult_step [of "q XOR r"] poly_mult_step [of q] poly_mult_step [of r] half_xor odd_xor
      by (simp add: double_xor ac_simps xor_cancel)
  qed simp
qed

lemma poly_mult_xor_right: "poly_mult q (x XOR y) = poly_mult q x XOR poly_mult q y"
proof (induction q rule: less_induct)
  case (less q)
  show ?case
  proof (cases "q = 0")
    case False
    then show ?thesis
      unfolding poly_mult_step [of q] using less [of "q div 2"] by (simp add: double_xor ac_simps)
  qed simp
qed

lemma poly_mult_double_right: "poly_mult q (2 * x) = 2 * poly_mult q x"
proof (induction q rule: less_induct)
  case (less q)
  show ?case
  proof (cases "q = 0")
    case False
    then show ?thesis
      unfolding poly_mult_step [of q] using less [of "q div 2"] by (simp add: double_xor)
  qed simp
qed

lemma poly_mult_zero_right [simp]: "poly_mult q 0 = 0"
  using poly_mult_xor_right [of q 0 0] by simp

lemma poly_mult_assoc: "poly_mult q (poly_mult r p) = poly_mult (poly_mult q r) p"
proof (induction q rule: less_induct)
  case (less q)
  show ?case
  proof (cases "q = 0")
    case False
    then show ?thesis
      unfolding poly_mult_step [of q] using less [of "q div 2"] by (simp add: poly_mult_xor poly_mult_double)
  qed simp
qed

text \<open>Equal up to a multiple of \<open>p\<close>.\<close>

definition poly_cong :: "nat \<Rightarrow> nat \<Rightarrow> nat \<Rightarrow> bool" where
  "poly_cong p x y \<longleftrightarrow> (\<exists>q. x XOR y = poly_mult q p)"

lemma poly_cong_refl [simp]: "poly_cong p x x"
  unfolding poly_cong_def by (rule exI [of _ 0]) simp

lemma xor_swap: "((a :: nat) XOR b) XOR (c XOR d) = (a XOR c) XOR (b XOR d)"
  by (simp add: ac_simps)

lemma poly_cong_xor:
  assumes "poly_cong p x y" "poly_cong p u v"
  shows "poly_cong p (x XOR u) (y XOR v)"
proof -
  obtain q r where "x XOR y = poly_mult q p" "u XOR v = poly_mult r p"
    using assms by (auto simp: poly_cong_def)
  then have "(x XOR u) XOR (y XOR v) = poly_mult (q XOR r) p"
    by (simp only: poly_mult_xor xor_swap [of x u y v])
  then show ?thesis
    unfolding poly_cong_def by blast
qed

lemma poly_cong_trans:
  assumes "poly_cong p x y" "poly_cong p y z"
  shows "poly_cong p x z"
proof -
  have "poly_cong p (x XOR y) (y XOR z)"
    by (rule poly_cong_xor [OF assms])
  then obtain q where "(x XOR y) XOR (y XOR z) = poly_mult q p"
    by (auto simp: poly_cong_def)
  then have "x XOR z = poly_mult q p"
    by (simp only: xor.assoc xor_cancel)
  then show ?thesis
    unfolding poly_cong_def by blast
qed

lemma poly_cong_mult: "poly_cong p x y \<Longrightarrow> poly_cong p (poly_mult q x) (poly_mult q y)"
  unfolding poly_cong_def by (metis poly_mult_assoc poly_mult_xor_right)

text \<open>A multiple of a polynomial of degree \<open>m\<close> is zero or has at least that degree.\<close>

lemma poly_mult_large:
  assumes "2 ^ m \<le> p" "p < 2 ^ Suc m" "q \<noteq> 0"
  shows "2 ^ m \<le> poly_mult q p"
  using assms(3)
proof (induction q rule: less_induct)
  case (less q)
  show ?case
  proof (cases "q div 2 = 0")
    case True
    then have "q = Suc 0"
      using less.prems by auto
    then show ?thesis
      using assms(1) by simp
  next
    case False
    then have "2 ^ Suc m \<le> 2 * poly_mult (q div 2) p"
      using less.IH [of "q div 2"] less.prems by simp
    then have "0 < drop_bit (Suc m) (2 * poly_mult (q div 2) p)"
      by (simp add: drop_bit_eq_div div_greater_zero_iff del: power_Suc)
    moreover have "drop_bit (Suc m) (if odd q then p else 0) = 0"
      using assms(2) by (simp add: drop_bit_eq_div del: power_Suc)
    ultimately have "0 < drop_bit (Suc m) (poly_mult q p)"
      unfolding poly_mult_step [of q] drop_bit_xor by simp
    then have "2 ^ Suc m \<le> poly_mult q p"
      by (simp add: drop_bit_eq_div div_greater_zero_iff del: power_Suc)
    then show ?thesis
      by simp
  qed
qed

lemma poly_cong_unique:
  assumes "2 ^ m \<le> p" "p < 2 ^ Suc m" "poly_cong p x y" "x < 2 ^ m" "y < 2 ^ m"
  shows "x = y"
proof -
  obtain q where q: "x XOR y = poly_mult q p"
    using assms(3) by (auto simp: poly_cong_def)
  have "take_bit m (x XOR y) = x XOR y"
    using assms(4,5) by (simp add: take_bit_xor take_bit_nat_eq_self)
  then have "x XOR y < 2 ^ m"
    by (metis take_bit_nat_less_exp)
  then have "x XOR y = 0"
    using poly_mult_large [OF assms(1,2)] q by (metis leD poly_mult_0)
  then show ?thesis
    by (metis xor.assoc xor.left_neutral xor.right_neutral xor_self_eq)
qed

text \<open>The polynomial that the code reduces by at the scale \<open>2 ^ m\<close>: the bit of the scale and the bits below it.\<close>

definition reduction_poly :: "nat \<Rightarrow> u64 \<Rightarrow> nat" where
  "reduction_poly m poly = 2 ^ m + take_bit m (unat poly)"

lemma reduction_poly_bounds: "2 ^ m \<le> reduction_poly m poly" "reduction_poly m poly < 2 ^ Suc m"
  using take_bit_nat_less_exp [of m "unat poly"] by (simp_all add: reduction_poly_def)

lemma high_bit_xor:
  assumes "(y :: nat) < 2 ^ m"
  shows "2 ^ m + y = 2 ^ m XOR y"
proof -
  have "(2 ^ m :: nat) AND y = 0"
  proof (rule bit_eqI)
    fix n
    show "bit ((2 ^ m :: nat) AND y) n \<longleftrightarrow> bit (0 :: nat) n"
      using assms bit_take_bit_iff [of m y n] take_bit_nat_eq_self [OF assms] by (auto simp: bit_and_iff bit_exp_iff)
  qed
  then show ?thesis
    by (rule disjunctive_add_eq_xor)
qed

lemma bits_Len_mask: "m \<le> 64 \<Longrightarrow> bits_Len (mask m) = m"
proof (induction m)
  case 0
  then show ?case
    by (simp add: bits_Len.simps)
next
  case (Suc m)
  have "drop_bit 1 (mask (Suc m) :: u64) = mask m"
    using Suc.prems by (intro bit_eqI) (auto simp: bit_drop_bit_eq bit_mask_iff)
  moreover have "(mask (Suc m) :: u64) \<noteq> 0"
    by simp
  ultimately show ?case
    using Suc by (simp add: bits_Len.simps [of "mask (Suc m)"])
qed

text \<open>One doubling is a multiplication by \<open>x\<close>, reduced; it sees only the bits below the scale.\<close>

lemma gf_double_cong:
  assumes "m \<le> 62"
  shows "unat (gf_double poly (2 ^ m) w) < 2 ^ m"
    "poly_cong (reduction_poly m poly) (unat (gf_double poly (2 ^ m) w)) (2 * take_bit m (unat w))"
proof -
  let ?x = "2 * take_bit m (unat w)" and ?a1 = "push_bit 1 w"
  let ?a2 = "if bit ?x m then ?a1 XOR poly else ?a1"
  have mask: "word_of_int (2 ^ m - 1) = (mask m :: u64)" "push_bit m 1 - 1 = (mask m :: u64)" "word_of_int (2 ^ m) = (push_bit m 1 :: u64)"
    by (simp_all add: mask_eq_exp_minus_1 push_bit_of_1)
  have xbit: "bit ?x n \<longleftrightarrow> bit ?a1 n \<and> n \<le> m" if "n \<le> 63" for n
  proof -
    have "bit ?a1 n \<longleftrightarrow> 1 \<le> n \<and> bit w (n - 1)"
      using that unfolding bit_push_bit_iff by auto
    moreover have "bit ?x n \<longleftrightarrow> 1 \<le> n \<and> n - 1 < m \<and> bit w (n - 1)"
      unfolding bit_double_iff bit_take_bit_iff bit_unsigned_iff using assms by (auto simp: bit_imp_le_length)
    ultimately show ?thesis
      by auto
  qed
  have len: "bits_Len (word_of_int (2 ^ m - 1)) = m"
    unfolding mask using assms by (simp only: bits_Len_mask)
  have "?a1 AND word_of_int (2 ^ m) \<noteq> 0 \<longleftrightarrow> bit ?x m"
    unfolding mask using assms xbit [of m] by (simp add: bit_iff_and_push_bit_not_eq_0)
  then have D: "gf_double poly (2 ^ m) w = take_bit m ?a2"
    unfolding gf_double_def Let_def len mask(2) take_bit_eq_mask by presburger
  have u: "unat (gf_double poly (2 ^ m) w) = take_bit m (unat ?a2)"
    by (simp add: D unsigned_take_bit_eq)
  then show "unat (gf_double poly (2 ^ m) w) < 2 ^ m"
    by simp
  have low: "take_bit m (unat ?a1) = take_bit m ?x"
  proof (rule bit_eqI)
    fix n
    show "bit (take_bit m (unat ?a1)) n \<longleftrightarrow> bit (take_bit m ?x) n"
      using assms xbit [of n] by (auto simp: bit_take_bit_iff bit_unsigned_iff)
  qed
  have small: "?x < 2 ^ Suc m"
    using take_bit_nat_less_exp [of m "unat w"] by simp
  show "poly_cong (reduction_poly m poly) (unat (gf_double poly (2 ^ m) w)) ?x"
  proof (cases "bit ?x m")
    case True
    have "2 ^ m \<le> ?x"
      using True small bit_iff_odd [of ?x m] by (metis div_less even_zero leI)
    then have x: "?x = 2 ^ m XOR take_bit m ?x"
    proof -
      define y where "y = ?x - 2 ^ m"
      have y: "?x = 2 ^ m + y" "y < 2 ^ m"
        using \<open>2 ^ m \<le> ?x\<close> take_bit_nat_less_exp [of m "unat w"] unfolding y_def by linarith+
      have "take_bit m ?x = y"
        unfolding y(1) using y(2) by (simp add: take_bit_eq_mod)
      then show ?thesis
        using high_bit_xor [OF y(2)] y(1) by metis
    qed
    have "unat (gf_double poly (2 ^ m) w) = take_bit m ?x XOR take_bit m (unat poly)"
      using True by (simp only: u if_True take_bit_xor unsigned_xor_eq low)
    moreover have "reduction_poly m poly = 2 ^ m XOR take_bit m (unat poly)"
      using high_bit_xor [of "take_bit m (unat poly)" m] by (simp add: reduction_poly_def)
    ultimately have "unat (gf_double poly (2 ^ m) w) XOR ?x = reduction_poly m poly"
      by (subst x) (simp add: ac_simps xor_cancel)
    then show ?thesis
      unfolding poly_cong_def by (intro exI [of _ "Suc 0"]) simp
  next
    case False
    have "take_bit m ?x = ?x"
    proof (rule bit_eqI)
      fix n
      show "bit (take_bit m ?x) n \<longleftrightarrow> bit ?x n"
        using False small xbit [of n] bit_take_bit_iff [of "Suc m" ?x n] take_bit_nat_eq_self [OF small] by (auto simp: bit_take_bit_iff less_Suc_eq)
    qed
    then have "unat (gf_double poly (2 ^ m) w) = ?x"
      using False by (simp only: u if_False low)
    then show ?thesis
      by simp
  qed
qed

lemma bit_zero_odd: "b AND 1 = (1 :: u64) \<longleftrightarrow> odd (unat b)"
proof -
  have "b AND 1 = 1 \<longleftrightarrow> bit b 0"
    by (simp add: and_one_eq odd_iff_mod_2_eq_one bit_0)
  moreover have "bit (unat b) 0 \<longleftrightarrow> bit b 0"
    unfolding bit_unsigned_iff by simp
  ultimately show ?thesis
    by (simp add: bit_0)
qed

lemma gf_loop_cong:
  assumes "m \<le> 62"
  shows "poly_cong (reduction_poly m poly) (take_bit m (unat (gf_loop poly (2 ^ m) a b out)))
    (take_bit m (unat out) XOR poly_mult (unat b) (take_bit m (unat a)))"
proof (induction "unat b" arbitrary: a b out rule: less_induct)
  case less
  let ?P = "reduction_poly m poly" and ?d = "gf_double poly (2 ^ m) a" and ?b = "drop_bit (Suc 0) b"
  let ?out = "if b AND 1 = 1 then out XOR a else out" and ?a = "take_bit m (unat a)"
  show ?case
  proof (cases "b = 0")
    case True
    then show ?thesis
      by (simp add: gf_loop.simps)
  next
    case False
    have b: "unat ?b = unat b div 2"
      by (simp only: unat_drop_bit_eq) (simp add: drop_bit_eq_div)
    have "unat ?b < unat b"
      using False by (simp add: b unat_gt_0)
    note IH = less [OF this, of ?d ?out]
    have step: "gf_loop poly (2 ^ m) a b out = gf_loop poly (2 ^ m) ?d ?b ?out"
      using False by (subst gf_loop.simps) simp
    note D = gf_double_cong [OF assms, of poly a]
    have "poly_cong ?P (poly_mult (unat b div 2) (unat ?d)) (2 * poly_mult (unat b div 2) ?a)"
      using poly_cong_mult [OF D(2)] by (simp add: poly_mult_double_right)
    then have "poly_cong ?P (take_bit m (unat ?out) XOR poly_mult (unat b div 2) (unat ?d))
        (take_bit m (unat ?out) XOR 2 * poly_mult (unat b div 2) ?a)"
      by (intro poly_cong_xor poly_cong_refl)
    moreover have "take_bit m (unat ?out) XOR 2 * poly_mult (unat b div 2) ?a = take_bit m (unat out) XOR poly_mult (unat b) ?a"
      unfolding poly_mult_step [of "unat b"] bit_zero_odd by (simp add: unsigned_xor_eq take_bit_xor ac_simps)
    moreover have "take_bit m (unat ?d) = unat ?d"
      using D(1) by (rule take_bit_nat_eq_self)
    ultimately show ?thesis
      using poly_cong_trans [OF IH] unfolding step b by simp
  qed
qed

lemma gfMultiply_cong:
  assumes "m \<le> 62"
  shows "unat (gfMultiply a b poly (2 ^ m)) < 2 ^ m"
    "poly_cong (reduction_poly m poly) (unat (gfMultiply a b poly (2 ^ m))) (poly_mult (unat b) (take_bit m (unat a)))"
proof -
  have "word_of_int (2 ^ m - 1) = (mask m :: u64)"
    by (simp add: mask_eq_exp_minus_1)
  then have g: "unat (gfMultiply a b poly (2 ^ m)) = take_bit m (unat (gf_loop poly (2 ^ m) a b 0))"
    by (simp add: gfMultiply_def unsigned_take_bit_eq flip: take_bit_eq_mask)
  then show "unat (gfMultiply a b poly (2 ^ m)) < 2 ^ m"
    by simp
  show "poly_cong (reduction_poly m poly) (unat (gfMultiply a b poly (2 ^ m))) (poly_mult (unat b) (take_bit m (unat a)))"
    using gf_loop_cong [OF assms, of poly a b 0] by (simp add: g)
qed

section \<open>Buckets are in range\<close>

lemma sint_mod_range:
  assumes "0 < scale" "scale < 2 ^ 63"
  shows "0 \<le> sint (x mod (word_of_int scale :: u64)) \<and> sint (x mod (word_of_int scale :: u64)) < scale"
proof -
  have w: "unat (word_of_int scale :: u64) = nat scale"
    using assms by (intro unat_word_of_int_u64) auto
  have less: "unat (x mod (word_of_int scale :: u64)) < nat scale"
    using assms unat_mod_less_u64 [of "word_of_int scale" x] by (simp add: w)
  then have "sint (x mod (word_of_int scale :: u64)) = int (unat (x mod (word_of_int scale :: u64)))"
    using assms by (intro sint_eq_unat) simp
  moreover have "int (unat (x mod (word_of_int scale :: u64))) < scale"
    using less by (simp only: zless_nat_eq_int_zless)
  ultimately show ?thesis
    by (simp only: of_nat_0_le_iff)
qed

lemma scale_word_nonzero:
  assumes "0 < scale" "scale < 2 ^ 63"
  shows "(word_of_int scale :: u64) \<noteq> 0"
proof
  assume "(word_of_int scale :: u64) = 0"
  then have "nat scale = 0"
    using unat_word_of_int_u64 [of scale] assms by simp
  with assms show False by simp
qed

lemma buildPandiagonal_shape:
  assumes "buildPandiagonal scale = Ok m"
  shows "length m = nat scale \<and> (\<forall>r \<in> set m. length r = nat scale)"
  using assms by (auto simp: buildPandiagonal_def split: if_splits)

lemma arena_buildPandiagonal_shape:
  assumes "arena_buildPandiagonal scale = Ok m"
  shows "length m = nat scale \<and> (\<forall>r \<in> set m. length r = nat scale)"
  using assms by (auto simp: arena_buildPandiagonal_def split: if_splits)

lemma bucketFor_total:
  assumes "0 < scale" "scale < 2 ^ 63" "length m = nat scale" "\<forall>r \<in> set m. length r = nat scale"
  shows "\<exists>k. bucketFor poly m scale threadID chunkID = Ok k \<and> 0 \<le> k \<and> k < scale"
proof -
  let ?row = "sint (threadID mod (word_of_int scale :: u64))"
  let ?col = "sint (chunkID mod (word_of_int scale :: u64))"
  have row: "0 \<le> ?row" "?row < int (length m)"
    using sint_mod_range [OF assms(1,2)] assms(1,3) by auto
  then have "m ! nat ?row \<in> set m"
    by (intro nth_mem) auto
  then have col: "0 \<le> ?col" "?col < int (length (m ! nat ?row))"
    using sint_mod_range [OF assms(1,2)] assms(1,4) by auto
  show ?thesis
    using row col sint_mod_range [OF assms(1,2)] scale_word_nonzero [OF assms(1,2)]
    by (simp add: bucketFor_def Let_def)
qed

lemma topology_bucket_total:
  assumes "0 < scale" "scale < 2 ^ 63" "newTopology scale poly = Ok t"
  shows "\<exists>k. topology_bucket t threadID chunkID = Ok k \<and> 0 \<le> k \<and> k < scale"
proof -
  let ?row = "sint (threadID mod (word_of_int scale :: u64))"
  let ?col = "sint (chunkID mod (word_of_int scale :: u64))"
  from assms(3) obtain m where m: "arena_buildPandiagonal scale = Ok m"
    and t: "t = \<lparr>t_scale = scale, t_poly = poly, t_matrix = m\<rparr>"
    by (auto simp: newTopology_def)
  note shape = arena_buildPandiagonal_shape [OF m]
  have row: "0 \<le> ?row" "?row < int (length m)"
    using sint_mod_range [OF assms(1,2)] assms(1) shape by auto
  then have "m ! nat ?row \<in> set m"
    by (intro nth_mem) auto
  then have col: "0 \<le> ?col" "?col < int (length (m ! nat ?row))"
    using sint_mod_range [OF assms(1,2)] assms(1) shape by auto
  show ?thesis
    using row col sint_mod_range [OF assms(1,2)] scale_word_nonzero [OF assms(1,2)]
    by (simp add: topology_bucket_def Let_def t)
qed

section \<open>The two packages agree\<close>

text \<open>An entry of the table is at most the scale, so 32 bits hold it for scales up to \<open>2 ^ 31\<close>.\<close>

lemma table_entry_small:
  assumes "0 < scale" "scale \<le> 2 ^ 31"
  shows "take_bit 32 (x mod scale + 1) = x mod (scale :: int) + 1"
proof (rule take_bit_int_eq_self)
  show "0 \<le> x mod scale + 1"
    using pos_mod_sign [OF assms(1), of x] by linarith
  show "x mod scale + 1 < 2 ^ 32"
    using pos_mod_bound [OF assms(1), of x] assms(2) by simp
qed

lemma table_entry_ucast:
  assumes "0 < scale" "scale \<le> 2 ^ 31"
  shows "ucast (word_of_int (x mod scale + 1) :: u32) = (word_of_int (x mod scale + 1) :: u64)"
proof -
  have "take_bit 32 (x mod scale + 1) = x mod scale + 1"
    using assms by (intro table_entry_small) auto
  then have "uint (word_of_int (x mod scale + 1) :: u32) = x mod scale + 1"
    by (simp only: uint_word_of_int_eq) simp
  then show ?thesis
    by (metis ucast_eq)
qed

lemma bucket_arena_eq_balloc:
  assumes "0 < scale" "scale \<le> 2 ^ 31"
    and m: "buildPandiagonal scale = Ok m" and t: "newTopology scale poly = Ok t"
  shows "topology_bucket t threadID chunkID = bucketFor poly m scale threadID chunkID"
proof -
  let ?row = "sint (threadID mod (word_of_int scale :: u64))"
  let ?col = "sint (chunkID mod (word_of_int scale :: u64))"
  have scale: "scale < 2 ^ 63"
    using assms by simp
  note range = sint_mod_range [OF assms(1) scale]
  have "nat ?row < nat scale" "nat ?col < nat scale"
    using range [of threadID] range [of chunkID] assms(1) by auto
  then show ?thesis
    using m t assms(1) range [of threadID] range [of chunkID]
    by (auto simp: topology_bucket_def bucketFor_def newTopology_def buildPandiagonal_def
        arena_buildPandiagonal_def gfMultiply_def arena_gfMultiply_def Let_def
        table_entry_ucast [OF assms(1,2)] simp del: of_int_add)
qed

section \<open>Each row is a permutation of the bucket weights\<close>

lemma buildPandiagonal_row:
  assumes "buildPandiagonal scale = Ok m" "row < nat scale"
  shows "m ! row = map (\<lambda>col. word_of_int ((int row + int col) mod scale + 1)) [0..<nat scale]"
  using assms by (auto simp: buildPandiagonal_def split: if_splits)

lemma row_weights_inj:
  assumes "0 < scale" "scale < 2 ^ 31"
  shows "inj_on (\<lambda>col. word_of_int ((int row + int col) mod scale + 1) :: u32) {0..<nat scale}"
proof (rule inj_onI)
  fix c d
  assume cd: "c \<in> {0..<nat scale}" "d \<in> {0..<nat scale}"
    and eq: "(word_of_int ((int row + int c) mod scale + 1) :: u32) = word_of_int ((int row + int d) mod scale + 1)"
  have small: "take_bit 32 (x mod scale + 1) = x mod scale + 1" for x
    using assms by (intro table_entry_small) auto
  have "(int row + int c) mod scale = (int row + int d) mod scale"
    using arg_cong [OF eq, of uint] by (simp add: uint_word_of_int_eq small del: of_int_add)
  then have "int c mod scale = int d mod scale"
    by (metis add_diff_cancel_left' mod_diff_left_eq)
  with cd assms show "c = d"
    by simp
qed

section \<open>Properties\<close>

text \<open>
  \<open>discoverScale\<close> returns, for every number of processors up to \<open>2 ^ 62\<close>, the least power of
  two that is at least 8 and at least the number of processors: its loop ends.
\<close>

lemma discoverScale_power:
  assumes "cores \<le> 2 ^ 62"
  shows "\<exists>k. discoverScale cores = Some (2 ^ k) \<and> 8 \<le> (2 :: int) ^ k \<and> cores \<le> 2 ^ k \<and>
    (\<forall>j. 8 \<le> (2 :: int) ^ j \<longrightarrow> cores \<le> 2 ^ j \<longrightarrow> k \<le> j)"
proof -
  from discoverScale_least [OF assms] obtain m where
    m: "3 \<le> m" "discoverScale cores = Some (2 ^ m)" "cores \<le> 2 ^ m" "2 ^ m = minScale \<or> 2 ^ m < 2 * cores"
    by blast
  have "(2 :: int) ^ 3 \<le> 2 ^ m"
    using m(1) by (intro power_increasing) auto
  moreover have "m \<le> j" if "8 \<le> (2 :: int) ^ j" "cores \<le> 2 ^ j" for j
  proof (rule ccontr)
    assume "\<not> m \<le> j"
    then have "(2 :: int) ^ Suc j \<le> 2 ^ m"
      by (intro power_increasing) auto
    with m(4) that show False
      by (auto simp: minScale_def)
  qed
  ultimately show ?thesis
    using m by auto
qed

lemma discoverScale_power_example:
  "\<exists>k. discoverScale 12 = Some (2 ^ k) \<and> 12 \<le> (2 :: int) ^ k \<and> k \<le> 4"
  using discoverScale_power [of 12] by auto



text \<open>
  C36: at a scale \<open>2 ^ m\<close> the loop of \<open>gfMultiply\<close> multiplies polynomials over the field of two elements
  modulo the polynomial that has the bit of the scale and the bits of \<open>poly\<close> below it: the result has
  degree less than \<open>m\<close>, it differs from the product of the second factor and the bits of the first
  factor below the scale by a multiple of that polynomial, and it is the only number that does. Both
  packages compute the same.
\<close>

theorem gfMultiply_product:
  assumes "m \<le> 62"
  shows "arena_gfMultiply a b poly (2 ^ m) = gfMultiply a b poly (2 ^ m) \<and> unat (gfMultiply a b poly (2 ^ m)) < 2 ^ m \<and>
    (\<exists>q. poly_mult (unat b) (take_bit m (unat a)) = poly_mult q (reduction_poly m poly) XOR unat (gfMultiply a b poly (2 ^ m))) \<and>
    (\<forall>q r. r < 2 ^ m \<and> poly_mult (unat b) (take_bit m (unat a)) = poly_mult q (reduction_poly m poly) XOR r \<longrightarrow>
       r = unat (gfMultiply a b poly (2 ^ m)))"
proof -
  let ?P = "reduction_poly m poly" and ?x = "poly_mult (unat b) (take_bit m (unat a))" and ?g = "unat (gfMultiply a b poly (2 ^ m))"
  note small = gfMultiply_cong(1) [OF assms, of a b poly] and cong = gfMultiply_cong(2) [OF assms, of poly a b]
  obtain q where "?g XOR ?x = poly_mult q ?P"
    using cong by (auto simp: poly_cong_def)
  then have ex: "?x = poly_mult q ?P XOR ?g"
    by (metis xor.commute xor_cancel)
  moreover have "r = ?g" if "r < 2 ^ m" "?x = poly_mult q ?P XOR r" for q r
  proof -
    have "poly_cong ?P ?x r"
      unfolding poly_cong_def that(2) by (metis xor.commute xor_cancel)
    from poly_cong_unique [OF reduction_poly_bounds poly_cong_trans [OF cong this] small that(1)] show ?thesis
      by simp
  qed
  moreover have "arena_gfMultiply a b poly (2 ^ m) = gfMultiply a b poly (2 ^ m)"
    by (simp add: arena_gfMultiply_def gfMultiply_def)
  ultimately show ?thesis
    using small by blast
qed

theorem gfMultiply_product_witness:
  "gfMultiply 5 6 0x11B 8 = 3 \<and> (\<exists>q. poly_mult 6 5 = poly_mult q 11 XOR 3)"
proof -
  have v: "gfMultiply 5 6 0x11B 8 = 3"
    by (simp add: gfMultiply_def gf_loop.simps gf_double_def bits_Len.simps)
  show ?thesis
    using gfMultiply_product [of 3 5 6 "0x11B"] by (simp add: v reduction_poly_def take_bit_eq_mod)
qed

text \<open>
  The weight that equals the scale acts as zero, so a thread and a chunk that meet it get bucket 0;
  and from scale 16 on the polynomial is a multiple of \<open>x + 1\<close>, so that the product of two numbers
  other than 0 can be 0.
\<close>

lemma gfMultiply_scale:
  assumes "m \<le> 62"
  shows "gfMultiply (push_bit m 1) b poly (2 ^ m) = 0"
proof -
  have "take_bit m (unat (push_bit m 1 :: u64)) = 0"
    by (rule bit_eqI) (auto simp: bit_take_bit_iff bit_unsigned_iff bit_exp_iff)
  then have "poly_cong (reduction_poly m poly) (unat (gfMultiply (push_bit m 1) b poly (2 ^ m))) 0"
    using gfMultiply_cong(2) [OF assms, of poly "push_bit m 1" b] by simp
  from poly_cong_unique [OF reduction_poly_bounds this gfMultiply_cong(1) [OF assms]] show ?thesis
    by (simp add: unat_eq_0 [symmetric] del: unat_eq_0)
qed

lemma reduction_poly_reducible: "reduction_poly 4 (polynomialForScale 16) = poly_mult 3 11" "reduction_poly 5 (polynomialForScale 32) = poly_mult 3 29"
  by (simp_all add: reduction_poly_def polynomialForScale_def poly_mult.simps take_bit_eq_mod)

text \<open>
  The table is a Latin square: in each row and in each column every weight from 1 to the scale
  occurs exactly once, so a thread spreads its chunks evenly over the weights.
\<close>

lemma buildPandiagonal_latin:
  assumes "0 < scale" "scale < 2 ^ 31" "buildPandiagonal scale = Ok m" "i < nat scale"
  shows "distinct (m ! i) \<and> set (m ! i) = word_of_int ` {1..scale} \<and>
    distinct (map (\<lambda>r. r ! i) m) \<and> map (\<lambda>r. r ! i) m = m ! i"
proof -
  let ?w = "\<lambda>c. word_of_int ((int i + int c) mod scale + 1) :: u32"
  have row: "m ! i = map ?w [0..<nat scale]"
    using assms(3,4) by (rule buildPandiagonal_row)
  have "map (\<lambda>r. r ! i) m = map ?w [0..<nat scale]"
    using assms by (auto simp: buildPandiagonal_def add.commute split: if_splits)
  moreover have d: "distinct (map ?w [0..<nat scale])"
    using row_weights_inj [OF assms(1,2), of i] by (simp add: distinct_map)
  moreover have "set (map ?w [0..<nat scale]) = word_of_int ` {1..scale}"
  proof (rule card_subset_eq)
    show "set (map ?w [0..<nat scale]) \<subseteq> word_of_int ` {1..scale}"
    proof
      fix x
      assume "x \<in> set (map ?w [0..<nat scale])"
      then obtain c where x: "x = ?w c" by auto
      have "(int i + int c) mod scale + 1 \<in> {1..scale}"
        using pos_mod_bound [OF assms(1), of "int i + int c"] pos_mod_sign [OF assms(1), of "int i + int c"]
        by simp
      then show "x \<in> word_of_int ` {1..scale}"
        unfolding x by (rule imageI)
    qed
    have "card (word_of_int ` {1..scale} :: u32 set) \<le> nat scale"
      using card_image_le [of "{1..scale}" "word_of_int :: int \<Rightarrow> u32"] by simp
    moreover have "card (set (map ?w [0..<nat scale])) = nat scale"
      using distinct_card [OF d] by simp
    ultimately show "card (set (map ?w [0..<nat scale])) = card (word_of_int ` {1..scale} :: u32 set)"
      using card_mono [OF _ \<open>set (map ?w [0..<nat scale]) \<subseteq> word_of_int ` {1..scale}\<close>] by simp
  qed simp
  ultimately show ?thesis
    using row by simp
qed

lemma buildPandiagonal_latin_example:
  "\<exists>m. buildPandiagonal 8 = Ok m \<and> distinct (m ! 3) \<and> set (m ! 3) = word_of_int ` {1..8}"
proof -
  obtain m where m: "buildPandiagonal 8 = Ok m"
    by (auto simp: buildPandiagonal_def)
  from buildPandiagonal_latin [OF _ _ this, of 3] m show ?thesis by simp
qed

end
