(* ===== verification/Mem_Tree.thy ===== *)
theory Mem_Tree
  imports Prelude "HOL-Library.Tree"
begin

text \<open>
  The pointer-linked search tree that balloc/tree.go and arena/tree.go keep over their blocks.
  A node lives at a raw address of a store; a link is an address, 0 for \<open>nil\<close>. The walks
  \<open>findNode\<close>, \<open>insertBelow\<close> (balloc) and \<open>arena_insertNode\<close> (arena) follow the links as
  the loops of the source do: \<open>None\<close> stands for a walk that does not end or that follows a pointer
  with no node behind it. They are the loops as one goroutine runs them alone, where the
  compare-and-swap that follows a load of the same word succeeds.

  \<open>mem_tree h p t\<close> says that the nodes reachable from \<open>p\<close> form the binary tree \<open>t\<close> of
  addresses and are in strict order of their keys. Under it every walk ends, and \<open>tmap\<close> reads
  the tree as a map from a block's address to its size and its owners. \<open>toward h t a q\<close> says that
  the search for \<open>a\<close> passes the node \<open>q\<close>, and \<open>link_grow\<close> that a node may be hung where a search
  ends; the interleaved tree of Conc_Tree uses both. The locale \<open>tree_insert\<close>
  proves the insertion once for both packages, from the equation of the loop and from what its
  hit branch may change.
\<close>

section \<open>Nodes and walks\<close>

record BallocNode =
  Addr :: uintptr
  Size :: uintptr
  OwnerMask :: u64
  Left :: uintptr
  Right :: uintptr

type_synonym memNode = BallocNode

type_synonym node_store = "uintptr \<rightharpoonup> BallocNode"

partial_function (option) findNode :: "node_store \<Rightarrow> uintptr \<Rightarrow> uintptr \<Rightarrow> uintptr option" where
  "findNode h current addr =
     (if current = 0 then Some 0
      else case h current of
        None \<Rightarrow> None
      | Some c \<Rightarrow>
          if addr = Addr c then Some current
          else if addr < Addr c then findNode h (Left c) addr
          else findNode h (Right c) addr)"

partial_function (option) insertBelow
  :: "node_store \<Rightarrow> uintptr \<Rightarrow> uintptr \<Rightarrow> (node_store \<times> uintptr) option" where
  "insertBelow h current node =
     (case h current of
        None \<Rightarrow> None
      | Some c \<Rightarrow>
         (case h node of
            None \<Rightarrow> None
          | Some n \<Rightarrow>
              if Addr n = Addr c then
                Some (h(current \<mapsto> c\<lparr>Size := Size n, OwnerMask := OwnerMask c OR OwnerMask n\<rparr>), current)
              else if Addr n > Addr c then
                (if Right c = 0 then Some (h(current \<mapsto> c\<lparr>Right := node\<rparr>), node)
                 else insertBelow h (Right c) node)
              else
                (if Left c = 0 then Some (h(current \<mapsto> c\<lparr>Left := node\<rparr>), node)
                 else insertBelow h (Left c) node)))"

text \<open>\<open>insertNode(root, node)\<close> also returns the new value of the root word.\<close>

definition insertNode :: "node_store \<Rightarrow> uintptr \<Rightarrow> uintptr \<Rightarrow> (node_store \<times> uintptr \<times> uintptr) option" where
  "insertNode h root node =
     (if root = 0 then Some (h, node, node)
      else case insertBelow h root node of
        None \<Rightarrow> None
      | Some (h', p) \<Rightarrow> Some (h', root, p))"

text \<open>The walk of the package arena leaves the size of a node it finds alone.\<close>

partial_function (option) arena_insertNode
  :: "node_store \<Rightarrow> uintptr \<Rightarrow> uintptr \<Rightarrow> (node_store \<times> uintptr) option" where
  "arena_insertNode h cur newNode =
     (case h cur of
        None \<Rightarrow> None
      | Some c \<Rightarrow>
         (case h newNode of
            None \<Rightarrow> None
          | Some n \<Rightarrow>
              if Addr n = Addr c then
                Some (h(cur \<mapsto> c\<lparr>OwnerMask := OwnerMask c OR OwnerMask n\<rparr>), cur)
              else if Addr n > Addr c then
                (if Right c = 0 then Some (h(cur \<mapsto> c\<lparr>Right := newNode\<rparr>), newNode)
                 else arena_insertNode h (Right c) newNode)
              else
                (if Left c = 0 then Some (h(cur \<mapsto> c\<lparr>Left := newNode\<rparr>), newNode)
                 else arena_insertNode h (Left c) newNode)))"

section \<open>The tree in the store\<close>

fun tree_at :: "node_store \<Rightarrow> uintptr \<Rightarrow> uintptr tree \<Rightarrow> bool" where
  "tree_at h p Leaf \<longleftrightarrow> p = 0"
| "tree_at h p (Node l q r) \<longleftrightarrow>
     p = q \<and> p \<noteq> 0 \<and>
     (case h q of None \<Rightarrow> False | Some n \<Rightarrow> tree_at h (Left n) l \<and> tree_at h (Right n) r)"

definition key :: "node_store \<Rightarrow> uintptr \<Rightarrow> uintptr" where
  "key h q = (case h q of None \<Rightarrow> 0 | Some n \<Rightarrow> Addr n)"

definition mem_tree :: "node_store \<Rightarrow> uintptr \<Rightarrow> uintptr tree \<Rightarrow> bool" where
  "mem_tree h p t \<longleftrightarrow> tree_at h p t \<and> sorted_wrt (<) (map (key h) (inorder t))"

lemma mem_tree_Leaf [simp]: "mem_tree h p Leaf \<longleftrightarrow> p = 0"
  by (simp add: mem_tree_def)

lemma mem_tree_Node:
  "mem_tree h p (Node l q r) \<longleftrightarrow>
     p = q \<and> p \<noteq> 0 \<and>
     (\<exists>n. h q = Some n \<and> mem_tree h (Left n) l \<and> mem_tree h (Right n) r) \<and>
     (\<forall>x \<in> set_tree l. key h x < key h q) \<and> (\<forall>x \<in> set_tree r. key h q < key h x)"
  by (cases "h q")
     (auto simp: mem_tree_def sorted_wrt_append dest: less_trans)

lemma mem_tree_nil [simp]: "mem_tree h 0 t \<longleftrightarrow> t = Leaf"
  by (cases t) (auto simp: mem_tree_Node)

lemma mem_tree_non_nil:
  assumes "mem_tree h p t" "p \<noteq> 0"
  obtains l r n where "t = Node l p r" "h p = Some n"
    "mem_tree h (Left n) l" "mem_tree h (Right n) r"
    "\<forall>x \<in> set_tree l. key h x < Addr n" "\<forall>x \<in> set_tree r. Addr n < key h x"
  using assms by (cases t) (auto simp: mem_tree_Node key_def)

lemma mem_tree_dom: "mem_tree h p t \<Longrightarrow> q \<in> set_tree t \<Longrightarrow> \<exists>n. h q = Some n"
  by (induction t arbitrary: p) (auto simp: mem_tree_Node)

lemma mem_tree_ptr_nonzero: "mem_tree h p t \<Longrightarrow> q \<in> set_tree t \<Longrightarrow> q \<noteq> 0"
  by (induction t arbitrary: p) (auto simp: mem_tree_Node)

lemma mem_tree_key_inj:
  "mem_tree h p t \<Longrightarrow> q \<in> set_tree t \<Longrightarrow> q' \<in> set_tree t \<Longrightarrow> key h q = key h q' \<Longrightarrow> q = q'"
proof -
  assume t: "mem_tree h p t" and q: "q \<in> set_tree t" "q' \<in> set_tree t" "key h q = key h q'"
  from t have "distinct (map (key h) (inorder t))"
    by (simp add: mem_tree_def strict_sorted_iff)
  then have "inj_on (key h) (set_tree t)"
    by (simp add: distinct_map)
  with q show "q = q'"
    by (auto dest: inj_onD)
qed

text \<open>The tree depends on the links and the keys of its own nodes only.\<close>

lemma mem_tree_cong:
  assumes "mem_tree h p t"
    and "\<And>q n. q \<in> set_tree t \<Longrightarrow> h q = Some n \<Longrightarrow>
           \<exists>n'. h' q = Some n' \<and> Addr n' = Addr n \<and> Left n' = Left n \<and> Right n' = Right n"
  shows "mem_tree h' p t"
  using assms
proof (induction t arbitrary: p)
  case Leaf
  then show ?case by simp
next
  case (Node l q r)
  have keys: "key h' x = key h x" if "x \<in> set_tree (Node l q r)" for x
    using mem_tree_dom [OF Node.prems(1) that] Node.prems(2) [OF that] by (auto simp: key_def)
  from Node.prems(1) obtain n where n: "p = q" "p \<noteq> 0" "h q = Some n"
    "mem_tree h (Left n) l" "mem_tree h (Right n) r"
    "\<forall>x \<in> set_tree l. key h x < key h q" "\<forall>x \<in> set_tree r. key h q < key h x"
    by (auto simp: mem_tree_Node)
  from Node.prems(2) [of q n] n(3) obtain n' where
    n': "h' q = Some n'" "Left n' = Left n" "Right n' = Right n"
    by auto
  have "mem_tree h' (Left n) l" "mem_tree h' (Right n) r"
    using Node.IH n(4,5) Node.prems(2) by simp_all
  with n n' keys show ?case
    by (auto simp: mem_tree_Node)
qed

lemma mem_tree_frame:
  assumes "mem_tree h p t" "\<And>q. q \<in> set_tree t \<Longrightarrow> h' q = h q"
  shows "mem_tree h' p t"
  using assms(1) by (rule mem_tree_cong) (auto simp: assms(2))

section \<open>The tree as a map\<close>

text \<open>What \<open>findNode\<close> sees at an address: the size and the owners of the block there.\<close>

definition tmap :: "node_store \<Rightarrow> uintptr \<Rightarrow> uintptr \<rightharpoonup> (uintptr \<times> u64)" where
  "tmap h p a =
     (case findNode h p a of
        None \<Rightarrow> None
      | Some q \<Rightarrow> if q = 0 then None else map_option (\<lambda>n. (Size n, OwnerMask n)) (h q))"

lemma findNode_hit:
  "mem_tree h p t \<Longrightarrow> q \<in> set_tree t \<Longrightarrow> findNode h p (key h q) = Some q"
proof (induction t arbitrary: p)
  case Leaf
  then show ?case by simp
next
  case (Node l x r)
  then obtain n where n: "p = x" "x \<noteq> 0" "h x = Some n" "key h x = Addr n"
    "mem_tree h (Left n) l" "mem_tree h (Right n) r"
    "\<forall>y \<in> set_tree l. key h y < Addr n" "\<forall>y \<in> set_tree r. Addr n < key h y"
    by (auto simp: mem_tree_Node key_def)
  from Node.prems(2) consider "q = x" | "q \<in> set_tree l" | "q \<in> set_tree r"
    by auto
  then show ?case
  proof cases
    case 1
    with n show ?thesis by (simp add: findNode.simps)
  next
    case 2
    with n have "key h q < Addr n" by blast
    with n 2 Node.IH(1) show ?thesis by (auto simp: findNode.simps [of h x])
  next
    case 3
    with n have "Addr n < key h q" by blast
    with n 3 Node.IH(2) show ?thesis by (auto simp: findNode.simps [of h x])
  qed
qed

lemma findNode_miss:
  "mem_tree h p t \<Longrightarrow> a \<notin> key h ` set_tree t \<Longrightarrow> findNode h p a = Some 0"
proof (induction t arbitrary: p)
  case Leaf
  then show ?case by (simp add: findNode.simps)
next
  case (Node l x r)
  then obtain n where n: "p = x" "x \<noteq> 0" "h x = Some n" "key h x = Addr n"
    "mem_tree h (Left n) l" "mem_tree h (Right n) r"
    by (auto simp: mem_tree_Node key_def)
  with Node show ?case
    by (auto simp: findNode.simps [of h x])
qed

lemma findNode_total:
  assumes "mem_tree h p t"
  obtains "findNode h p a = Some 0" "a \<notin> key h ` set_tree t"
  | q n where "findNode h p a = Some q" "q \<in> set_tree t" "q \<noteq> 0" "h q = Some n" "Addr n = a"
proof (cases "a \<in> key h ` set_tree t")
  case True
  then obtain q where q: "q \<in> set_tree t" "a = key h q" by auto
  from mem_tree_dom [OF assms q(1)] obtain n where "h q = Some n" by auto
  moreover from this q have "Addr n = a" by (simp add: key_def)
  ultimately show ?thesis
    using that(2) findNode_hit [OF assms q(1)] q mem_tree_ptr_nonzero [OF assms q(1)] by simp
next
  case False
  then show ?thesis
    using that(1) findNode_miss [OF assms] by simp
qed

lemma tmap_Some_iff:
  assumes "mem_tree h p t"
  shows "tmap h p a = Some d \<longleftrightarrow>
    (\<exists>q \<in> set_tree t. \<exists>n. h q = Some n \<and> Addr n = a \<and> d = (Size n, OwnerMask n))"
proof (cases rule: findNode_total [OF assms, of a])
  case 1
  have nokey: "Addr n \<noteq> a" if "q \<in> set_tree t" "h q = Some n" for q n
    using 1(2) imageI [OF that(1), of "key h"] that(2) by (auto simp: key_def)
  then have "\<not> (\<exists>q \<in> set_tree t. \<exists>n. h q = Some n \<and> Addr n = a \<and> d = (Size n, OwnerMask n))"
    by blast
  moreover have "tmap h p a = None"
    using 1 by (simp add: tmap_def)
  ultimately show ?thesis by simp
next
  case (2 q n)
  have same: "q' = q" if "q' \<in> set_tree t" "h q' = Some n'" "Addr n' = a" for q' n'
    using mem_tree_key_inj [OF assms that(1) 2(2)] that 2 by (simp add: key_def)
  have eq: "tmap h p a = Some (Size n, OwnerMask n)"
    using 2 by (simp add: tmap_def)
  show ?thesis
  proof
    assume "tmap h p a = Some d"
    with eq 2 show "\<exists>q \<in> set_tree t. \<exists>n. h q = Some n \<and> Addr n = a \<and> d = (Size n, OwnerMask n)"
      by auto
  next
    assume "\<exists>q \<in> set_tree t. \<exists>n. h q = Some n \<and> Addr n = a \<and> d = (Size n, OwnerMask n)"
    then obtain q' n' where "q' \<in> set_tree t" "h q' = Some n'" "Addr n' = a" "d = (Size n', OwnerMask n')"
      by blast
    with same 2(4) eq show "tmap h p a = Some d"
      by simp
  qed
qed

lemma tmap_None_iff:
  assumes "mem_tree h p t"
  shows "tmap h p a = None \<longleftrightarrow> a \<notin> key h ` set_tree t"
proof (cases rule: findNode_total [OF assms, of a])
  case 1
  then show ?thesis by (auto simp: tmap_def)
next
  case (2 q n)
  then have "a \<in> key h ` set_tree t" by (force simp: key_def)
  with 2 show ?thesis by (auto simp: tmap_def)
qed

lemma tmap_nil [simp]: "tmap h 0 = Map.empty"
  by (auto simp: tmap_def findNode.simps)

lemma tmap_update_data:
  assumes t: "mem_tree h p t" and q: "q \<in> set_tree t" "h q = Some n"
    and n': "Addr n' = Addr n" "Left n' = Left n" "Right n' = Right n"
  shows "mem_tree (h(q \<mapsto> n')) p t"
    and "tmap (h(q \<mapsto> n')) p = (tmap h p)(Addr n \<mapsto> (Size n', OwnerMask n'))"
proof -
  show t': "mem_tree (h(q \<mapsto> n')) p t"
    using t by (rule mem_tree_cong) (use q n' in auto)
  show "tmap (h(q \<mapsto> n')) p = (tmap h p)(Addr n \<mapsto> (Size n', OwnerMask n'))"
  proof (rule ext)
    fix a
    show "tmap (h(q \<mapsto> n')) p a = ((tmap h p)(Addr n \<mapsto> (Size n', OwnerMask n'))) a"
    proof (cases "a = Addr n")
      case True
      have "tmap (h(q \<mapsto> n')) p (Addr n) = Some (Size n', OwnerMask n')"
        unfolding tmap_Some_iff [OF t'] using q n' by (intro bexI [of _ q]) auto
      with True show ?thesis by simp
    next
      case False
      have "tmap (h(q \<mapsto> n')) p a = Some d \<longleftrightarrow> tmap h p a = Some d" for d
        unfolding tmap_Some_iff [OF t'] tmap_Some_iff [OF t]
        by (rule bex_cong) (use False q n' in auto)
      then have "tmap (h(q \<mapsto> n')) p a = tmap h p a"
        by (metis not_Some_eq)
      with False show ?thesis by simp
    qed
  qed
qed

lemma tmap_frame:
  assumes t: "mem_tree h p t" and same: "\<And>q. q \<in> set_tree t \<Longrightarrow> h' q = h q"
  shows "tmap h' p = tmap h p"
proof (rule map_eqI)
  fix a d
  have t': "mem_tree h' p t"
    using t same by (rule mem_tree_frame)
  show "tmap h' p a = Some d \<longleftrightarrow> tmap h p a = Some d"
    unfolding tmap_Some_iff [OF t'] tmap_Some_iff [OF t]
    by (rule bex_cong) (auto simp: same)
qed

text \<open>A new node linked into the tree adds one entry to the map and changes no other.\<close>

lemma tmap_extend:
  assumes t: "mem_tree h p t" and t': "mem_tree h' p' t'" and set: "set_tree t' = insert node (set_tree t)"
    and same: "\<And>q c. q \<in> set_tree t \<Longrightarrow> h q = Some c \<Longrightarrow>
      \<exists>c'. h' q = Some c' \<and> Addr c' = Addr c \<and> Size c' = Size c \<and> OwnerMask c' = OwnerMask c"
    and new: "h' node = Some n" "Addr n \<notin> key h ` set_tree t"
  shows "tmap h' p' = (tmap h p)(Addr n \<mapsto> (Size n, OwnerMask n))"
proof (rule ext)
  fix a
  show "tmap h' p' a = ((tmap h p)(Addr n \<mapsto> (Size n, OwnerMask n))) a"
  proof (cases "a = Addr n")
    case True
    have "tmap h' p' (Addr n) = Some (Size n, OwnerMask n)"
      unfolding tmap_Some_iff [OF t'] using new(1) set by (intro bexI [of _ node]) auto
    with True show ?thesis by simp
  next
    case False
    have dir1: "tmap h' p' a = Some d" if d: "tmap h p a = Some d" for d
    proof -
      from d obtain q c where "q \<in> set_tree t" "h q = Some c" "Addr c = a" "d = (Size c, OwnerMask c)"
        unfolding tmap_Some_iff [OF t] by blast
      with same [of q c] show ?thesis
        unfolding tmap_Some_iff [OF t'] set by (intro bexI [of _ q]) auto
    qed
    have dir2: "tmap h' p' a = None" if "tmap h p a = None"
    proof (rule ccontr)
      assume "tmap h' p' a \<noteq> None"
      then obtain d where "tmap h' p' a = Some d" by auto
      then obtain q c where q: "q \<in> set_tree t'" "h' q = Some c" "Addr c = a"
        unfolding tmap_Some_iff [OF t'] by blast
      with False new(1) set have "q \<in> set_tree t" by auto
      with mem_tree_dom [OF t this] same q that show False
        unfolding tmap_None_iff [OF t] by (force simp: key_def)
    qed
    from dir1 dir2 False show ?thesis
      by (cases "tmap h p a") auto
  qed
qed

lemma mem_tree_single:
  assumes "node \<noteq> 0" "h node = Some n" "Left n = 0" "Right n = 0"
  shows "mem_tree h node (Node Leaf node Leaf)"
  using assms by (simp add: mem_tree_Node)

section \<open>Search paths\<close>

text \<open>The link that a search for the address follows.\<close>

definition link_of :: "BallocNode \<Rightarrow> uintptr \<Rightarrow> uintptr" where
  "link_of c a = (if a > Addr c then Right c else Left c)"

definition set_link :: "BallocNode \<Rightarrow> uintptr \<Rightarrow> uintptr \<Rightarrow> BallocNode" where
  "set_link c a p = (if a > Addr c then c\<lparr>Right := p\<rparr> else c\<lparr>Left := p\<rparr>)"

text \<open>The node \<open>q\<close> lies on the way from the root to the address \<open>a\<close>.\<close>

fun toward :: "node_store \<Rightarrow> uintptr tree \<Rightarrow> uintptr \<Rightarrow> uintptr \<Rightarrow> bool" where
  "toward h Leaf a q \<longleftrightarrow> False"
| "toward h (Node l x r) a q \<longleftrightarrow> q = x \<or> a < key h x \<and> toward h l a q \<or> key h x < a \<and> toward h r a q"

lemma toward_mem: "toward h t a q \<Longrightarrow> q \<in> set_tree t"
  by (induction t) auto

lemma toward_root: "mem_tree h p t \<Longrightarrow> p \<noteq> 0 \<Longrightarrow> toward h t a p"
  by (erule (1) mem_tree_non_nil) simp

lemma toward_key: "mem_tree h p t \<Longrightarrow> toward h t a q \<Longrightarrow> q \<in> dom h \<and> q \<noteq> 0"
  using toward_mem mem_tree_dom mem_tree_ptr_nonzero by fast

lemma toward_step:
  assumes "mem_tree h p t" "toward h t a q" "h q = Some c" "a \<noteq> Addr c" "link_of c a \<noteq> 0"
  shows "toward h t a (link_of c a)"
  using assms(1,2)
proof (induction t arbitrary: p)
  case (Node l x r)
  then obtain m where m: "h x = Some m" "mem_tree h (Left m) l" "mem_tree h (Right m) r"
    by (auto simp: mem_tree_Node)
  show ?case
  proof (cases "q = x")
    case True
    then have "m = c" "key h x = Addr c"
      using m(1) assms(3) by (simp_all add: key_def)
    then show ?thesis
      using assms(4,5) m(2,3) toward_root by (auto simp: link_of_def split: if_splits)
  next
    case False
    then show ?thesis
      using Node m by auto
  qed
qed simp

lemma toward_find:
  assumes "mem_tree h p t" "toward h t a q"
  shows "findNode h p a = findNode h q a"
  using assms
proof (induction t arbitrary: p)
  case (Node l x r)
  then obtain m where m: "p = x" "x \<noteq> 0" "h x = Some m" "mem_tree h (Left m) l" "mem_tree h (Right m) r" "key h x = Addr m"
    by (auto simp: mem_tree_Node key_def)
  consider "q = x" | "a < Addr m" "toward h l a q" | "Addr m < a" "toward h r a q"
    using Node.prems(2) m by auto
  then show ?case
  proof cases
    case 2
    then have "findNode h x a = findNode h (Left m) a"
      using m(2,3) by (auto simp: findNode.simps [of h x])
    then show ?thesis
      unfolding m(1) using Node.IH(1) [OF m(4) 2(2)] by (rule trans)
  next
    case 3
    then have "findNode h x a = findNode h (Right m) a"
      using m(2,3) by (auto simp: findNode.simps [of h x])
    then show ?thesis
      unfolding m(1) using Node.IH(2) [OF m(5) 3(2)] by (rule trans)
  qed (use m in simp)
qed simp

text \<open>The tree with a new leaf where the search for the address ends.\<close>

fun grow_tree :: "node_store \<Rightarrow> uintptr tree \<Rightarrow> uintptr \<Rightarrow> uintptr \<Rightarrow> uintptr tree" where
  "grow_tree h Leaf a node = Node Leaf node Leaf"
| "grow_tree h (Node l x r) a node =
     (if a < key h x then Node (grow_tree h l a node) x r
      else if key h x < a then Node l x (grow_tree h r a node) else Node l x r)"

lemma toward_grow: "toward h t b q \<Longrightarrow> toward h (grow_tree h t a node) b q"
  by (induction t) auto

lemma set_grow: "a \<notin> key h ` set_tree t \<Longrightarrow> set_tree (grow_tree h t a node) = insert node (set_tree t)"
  by (induction t) (auto simp: not_less_iff_gr_or_eq)

lemma toward_cong: "(\<And>x. x \<in> set_tree t \<Longrightarrow> key h' x = key h x) \<Longrightarrow> toward h' t a q = toward h t a q"
  by (induction t) auto

lemma end_of_path:
  assumes "mem_tree h p t" "toward h t a q" "h q = Some c" "a \<noteq> Addr c" "link_of c a = 0"
  shows "a \<notin> key h ` set_tree t"
proof -
  have "q \<noteq> 0"
    using toward_key [OF assms(1,2)] by simp
  have "findNode h q a = Some 0"
    using assms(3-5) \<open>q \<noteq> 0\<close>
    by (cases "a < Addr c") (auto simp: findNode.simps [of h q] findNode.simps [of h 0] link_of_def split: if_splits)
  then have "findNode h p a = Some 0"
    using toward_find [OF assms(1,2)] by simp
  then show ?thesis
    using findNode_hit [OF assms(1)] mem_tree_ptr_nonzero [OF assms(1)] by (metis imageE option.inject)
qed

lemma link_grow:
  assumes "mem_tree h p t" "toward h t (Addr n) q" and c: "h q = Some c" "Addr n \<noteq> Addr c" "link_of c (Addr n) = 0"
    and new: "node \<noteq> 0" "node \<notin> set_tree t" "h node = Some n" "Left n = 0" "Right n = 0"
  shows "mem_tree (h(q \<mapsto> set_link c (Addr n) node)) p (grow_tree h t (Addr n) node)"
  using assms(1,2) new(2)
proof (induction t arbitrary: p)
  case (Node l x r)
  define h' where "h' = h(q \<mapsto> set_link c (Addr n) node)"
  have h': "h' q = Some (set_link c (Addr n) node)" "\<And>y. y \<noteq> q \<Longrightarrow> h' y = h y"
    by (simp_all add: h'_def)
  from Node.prems(1) obtain m where m: "p = x" "x \<noteq> 0" "h x = Some m" "mem_tree h (Left m) l" "mem_tree h (Right m) r"
      "\<forall>y \<in> set_tree l. key h y < key h x" "\<forall>y \<in> set_tree r. key h x < key h y" "key h x = Addr m"
    by (auto simp: mem_tree_Node key_def)
  have keys: "key h' y = key h y" for y
    using c(1) by (simp add: h'_def key_def set_link_def)
  have node: "key h node = Addr n" "node \<noteq> q"
    using new(3) Node.prems(2,3) toward_mem [OF Node.prems(2)] by (auto simp: key_def)
  have frame: "mem_tree h' y s" if "mem_tree h y s" "q \<notin> set_tree s" for y s
    using that(1) by (rule mem_tree_frame) (use that(2) h'(2) in metis)
  have apart: "set_tree l \<inter> set_tree r = {}" "x \<notin> set_tree l" "x \<notin> set_tree r"
    using m(6,7) by fastforce+
  have ends: "Addr n \<notin> key h ` set_tree (Node l x r)"
    by (rule end_of_path [OF Node.prems(1,2) c])
  consider "q = x" | "q \<noteq> x" "Addr n < Addr m" "toward h l (Addr n) q" | "q \<noteq> x" "Addr m < Addr n" "toward h r (Addr n) q"
    using Node.prems(2) m by auto
  then have "mem_tree h' p (grow_tree h (Node l x r) (Addr n) node)"
  proof cases
    case 1
    have single: "mem_tree h' node (Node Leaf node Leaf)"
      by (rule mem_tree_single [where n = n]) (use new node h' in auto)
    have "m = c"
      using 1 m(3) c(1) by simp
    then have "mem_tree h' (Left m) l" "mem_tree h' (Right m) r"
      using frame m(4,5) apart 1 by simp_all
    then show ?thesis
      using 1 m c single keys node h' \<open>m = c\<close> by (auto simp: mem_tree_Node [of _ x] link_of_def set_link_def)
  next
    case 2
    have IH: "mem_tree h' (Left m) (grow_tree h l (Addr n) node)"
      using Node.IH(1) [OF m(4) 2(3)] Node.prems(3) by (simp add: h'_def del: fun_upd_apply)
    have "mem_tree h' (Right m) r"
      using m(5) by (rule frame) (use toward_mem [OF 2(3)] apart in blast)
    moreover have "set_tree (grow_tree h l (Addr n) node) = insert node (set_tree l)"
      by (rule set_grow) (use ends in auto)
    ultimately show ?thesis
      using 2 m IH keys node(1) h' by (auto simp: mem_tree_Node [of _ x])
  next
    case 3
    have IH: "mem_tree h' (Right m) (grow_tree h r (Addr n) node)"
      using Node.IH(2) [OF m(5) 3(3)] Node.prems(3) by (simp add: h'_def del: fun_upd_apply)
    have "mem_tree h' (Left m) l"
      using m(4) by (rule frame) (use toward_mem [OF 3(3)] apart in blast)
    moreover have "set_tree (grow_tree h r (Addr n) node) = insert node (set_tree r)"
      by (rule set_grow) (use ends in auto)
    ultimately show ?thesis
      using 3 m IH keys node(1) h' by (auto simp: mem_tree_Node [of _ x])
  qed
  then show ?case
    by (simp only: h'_def)
qed simp

text \<open>A search that misses ends at a node whose link is nil.\<close>

lemma search_end:
  assumes "mem_tree h p t" "p \<noteq> 0" "a \<notin> key h ` set_tree t"
  shows "\<exists>q c. toward h t a q \<and> h q = Some c \<and> a \<noteq> Addr c \<and> link_of c a = 0"
  using assms
proof (induction t arbitrary: p)
  case (Node l x r)
  then obtain m where m: "h x = Some m" "mem_tree h (Left m) l" "mem_tree h (Right m) r" "key h x = Addr m"
    by (auto simp: mem_tree_Node key_def)
  have ne: "a \<noteq> Addr m"
    using Node.prems(3) m(4) by auto
  consider "link_of m a = 0" | "a < Addr m" "Left m \<noteq> 0" | "Addr m < a" "Right m \<noteq> 0"
    using ne unfolding link_of_def by (metis neqE)
  then show ?case
  proof cases
    case 1
    with m(1) ne show ?thesis by auto
  next
    case 2
    then show ?thesis
      using Node.IH(1) [OF m(2)] Node.prems(3) m(4) by auto
  next
    case 3
    then show ?thesis
      using Node.IH(2) [OF m(3)] Node.prems(3) m(4) by auto
  qed
qed simp

section \<open>Insertion, once for both packages\<close>

text \<open>
  What the two insertion loops share: the equation of one turn, over a branch \<open>hit\<close> for an
  address that is already in the tree, which keeps the node's address and links.
\<close>

locale tree_insert =
  fixes ins :: "node_store \<Rightarrow> uintptr \<Rightarrow> uintptr \<Rightarrow> (node_store \<times> uintptr) option"
    and hit :: "BallocNode \<Rightarrow> BallocNode \<Rightarrow> BallocNode"
    and upd :: "uintptr \<times> u64 \<Rightarrow> BallocNode \<Rightarrow> uintptr \<times> u64"
  assumes ins_eq: "h p = Some c \<Longrightarrow> h node = Some n \<Longrightarrow>
      ins h p node =
        (if Addr n = Addr c then Some (h(p \<mapsto> hit c n), p)
         else if Addr n > Addr c then
           (if Right c = 0 then Some (h(p \<mapsto> c\<lparr>Right := node\<rparr>), node) else ins h (Right c) node)
         else
           (if Left c = 0 then Some (h(p \<mapsto> c\<lparr>Left := node\<rparr>), node) else ins h (Left c) node))"
    and hit_Addr: "Addr (hit c n) = Addr c"
    and hit_Left: "Left (hit c n) = Left c"
    and hit_Right: "Right (hit c n) = Right c"
    and hit_data: "(Size (hit c n), OwnerMask (hit c n)) = upd (Size c, OwnerMask c) n"
begin

lemma ins_hit:
  assumes "mem_tree h p t" "q \<in> set_tree t" "h q = Some c" "h node = Some n" "Addr n = Addr c"
  shows "ins h p node = Some (h(q \<mapsto> hit c n), q)"
  using assms(1,2)
proof (induction t arbitrary: p)
  case Leaf
  then show ?case by simp
next
  case (Node l x r)
  then obtain m where m: "p = x" "x \<noteq> 0" "h x = Some m"
    "mem_tree h (Left m) l" "mem_tree h (Right m) r"
    "\<forall>y \<in> set_tree l. key h y < Addr m" "\<forall>y \<in> set_tree r. Addr m < key h y"
    by (auto simp: mem_tree_Node key_def)
  have key: "key h q = Addr n"
    using assms(3,5) by (simp add: key_def)
  from Node.prems(2) consider "q = x" | "q \<in> set_tree l" | "q \<in> set_tree r"
    by auto
  then show ?case
  proof cases
    case 1
    with m(1) ins_eq [OF assms(3,4)] assms(5) show ?thesis by (simp add: fun_upd_def)
  next
    case 2
    with m key have "Addr n < Addr m" by auto
    moreover have "Left m \<noteq> 0"
      using 2 m(4) by auto
    ultimately show ?thesis
      using 2 m(1) Node.IH(1) [OF m(4)] by (auto simp: ins_eq [OF m(3) assms(4)])
  next
    case 3
    with m key have "Addr m < Addr n" by auto
    moreover have "Right m \<noteq> 0"
      using 3 m(5) by auto
    ultimately show ?thesis
      using 3 m(1) Node.IH(2) [OF m(5)] by (auto simp: ins_eq [OF m(3) assms(4)])
  qed
qed

lemma ins_toward:
  assumes "mem_tree h p t" "toward h t (Addr n) q" "h node = Some n"
  shows "ins h p node = ins h q node"
  using assms(1,2)
proof (induction t arbitrary: p)
  case (Node l x r)
  then obtain m where m: "p = x" "h x = Some m" "mem_tree h (Left m) l" "mem_tree h (Right m) r" "key h x = Addr m"
    by (auto simp: mem_tree_Node key_def)
  note step = ins_eq [OF m(2) assms(3)]
  consider "q = x" | "Addr n < Addr m" "toward h l (Addr n) q" | "Addr m < Addr n" "toward h r (Addr n) q"
    using Node.prems(2) m by auto
  then show ?case
  proof cases
    case 2
    then have "ins h x node = ins h (Left m) node"
      unfolding step using m(3) by auto
    then show ?thesis
      unfolding m(1) using Node.IH(1) [OF m(3) 2(2)] by (rule trans)
  next
    case 3
    then have "ins h x node = ins h (Right m) node"
      unfolding step using m(4) by auto
    then show ?thesis
      unfolding m(1) using Node.IH(2) [OF m(4) 3(2)] by (rule trans)
  qed (use m in simp)
qed simp

lemma ins_link:
  assumes "h q = Some c" "h node = Some n" "Addr n \<noteq> Addr c" "link_of c (Addr n) = 0"
  shows "ins h q node = Some (h(q \<mapsto> set_link c (Addr n) node), node)"
  using ins_eq [OF assms(1,2)] assms(3,4) by (simp add: link_of_def set_link_def split: if_splits)

lemma ins_miss:
  assumes t: "mem_tree h p t" "p \<noteq> 0" "node \<notin> set_tree t" "Addr n \<notin> key h ` set_tree t"
    and new: "node \<noteq> 0" "h node = Some n" "Left n = 0" "Right n = 0"
  shows "\<exists>q c c' t'. ins h p node = Some (h(q \<mapsto> c'), node) \<and> q \<in> set_tree t \<and> h q = Some c \<and>
      Addr c' = Addr c \<and> Size c' = Size c \<and> OwnerMask c' = OwnerMask c \<and>
      mem_tree (h(q \<mapsto> c')) p t' \<and> set_tree t' = insert node (set_tree t)"
proof -
  obtain q c where q: "toward h t (Addr n) q" and c: "h q = Some c" "Addr n \<noteq> Addr c" "link_of c (Addr n) = 0"
    using search_end [OF t(1,2,4)] by blast
  have "ins h p node = Some (h(q \<mapsto> set_link c (Addr n) node), node)"
    using ins_toward [OF t(1) q new(2)] ins_link [OF c(1) new(2) c(2,3)] by (rule trans)
  moreover have "mem_tree (h(q \<mapsto> set_link c (Addr n) node)) p (grow_tree h t (Addr n) node)"
    by (rule link_grow [OF t(1) q c new(1) t(3) new(2-4)])
  moreover have "Addr (set_link c (Addr n) node) = Addr c" "Size (set_link c (Addr n) node) = Size c"
      "OwnerMask (set_link c (Addr n) node) = OwnerMask c"
    by (simp_all add: set_link_def)
  ultimately show ?thesis
    using toward_mem [OF q] c(1) set_grow [OF t(4), of node] by blast
qed

text \<open>
  Insertion at a root word: it returns, the result is again a search tree, and in the map the
  address of the node gets the new node's data, or the data \<open>upd\<close> makes of the old ones.
\<close>

lemma ins_root:
  assumes t: "mem_tree h p t" and fresh: "node \<notin> set_tree t"
    and new: "node \<noteq> 0" "h node = Some n" "Left n = 0" "Right n = 0"
  shows "\<exists>h' p' q t'.
      (if p = 0 then Some (h, node, node)
       else case ins h p node of None \<Rightarrow> None | Some (h', q) \<Rightarrow> Some (h', p, q)) = Some (h', p', q) \<and>
      mem_tree h' p' t' \<and> set_tree t' \<subseteq> insert node (set_tree t) \<and>
      tmap h' p' = (tmap h p)(Addr n \<mapsto>
        (case tmap h p (Addr n) of None \<Rightarrow> (Size n, OwnerMask n) | Some d \<Rightarrow> upd d n))"
proof (cases "p = 0")
  case True
  with t have "t = Leaf" by simp
  have single: "mem_tree h node (Node Leaf node Leaf)"
    using new by (rule mem_tree_single)
  have "tmap h node = (tmap h p)(Addr n \<mapsto> (Size n, OwnerMask n))"
    using t single by (rule tmap_extend) (use new \<open>t = Leaf\<close> in auto)
  with True single show ?thesis
    by (intro exI [of _ h] exI [of _ node] exI [of _ "Node Leaf node Leaf"]) auto
next
  case p: False
  show ?thesis
  proof (cases rule: findNode_total [OF t, of "Addr n"])
    case 1
    from ins_miss [OF t p fresh 1(2) new] obtain q c c' t' where
      I: "ins h p node = Some (h(q \<mapsto> c'), node)" "q \<in> set_tree t" "h q = Some c"
        "Addr c' = Addr c" "Size c' = Size c" "OwnerMask c' = OwnerMask c"
        "mem_tree (h(q \<mapsto> c')) p t'" "set_tree t' = insert node (set_tree t)"
      by blast
    have "tmap (h(q \<mapsto> c')) p = (tmap h p)(Addr n \<mapsto> (Size n, OwnerMask n))"
      using t I(7,8) by (rule tmap_extend) (use I new(2) fresh 1(2) in auto)
    moreover have "tmap h p (Addr n) = None"
      using 1(2) by (simp add: tmap_None_iff [OF t])
    ultimately have "tmap (h(q \<mapsto> c')) p = (tmap h p)(Addr n \<mapsto>
        (case tmap h p (Addr n) of None \<Rightarrow> (Size n, OwnerMask n) | Some d \<Rightarrow> upd d n))"
      by simp
    with I(1,7,8) p show ?thesis
      by (auto intro!: exI [of _ t'])
  next
    case (2 q c)
    have I: "ins h p node = Some (h(q \<mapsto> hit c n), q)"
      using t 2 new(2) by (intro ins_hit) auto
    note U = tmap_update_data [OF t 2(2,4) hit_Addr hit_Left hit_Right]
    have "tmap h p (Addr n) = Some (Size c, OwnerMask c)"
      using 2 by (simp add: tmap_def)
    then have "tmap (h(q \<mapsto> hit c n)) p = (tmap h p)(Addr n \<mapsto>
        (case tmap h p (Addr n) of None \<Rightarrow> (Size n, OwnerMask n) | Some d \<Rightarrow> upd d n))"
      using U(2) [of n] 2(5) hit_data [of c n] by simp
    with I U(1) [of n] p show ?thesis
      by (auto intro!: exI [of _ t])
  qed
qed

end

interpretation balloc_tree: tree_insert insertBelow
  "\<lambda>c n. c\<lparr>Size := Size n, OwnerMask := OwnerMask c OR OwnerMask n\<rparr>"
  "\<lambda>d n. (Size n, snd d OR OwnerMask n)"
  by unfold_locales (simp_all add: insertBelow.simps)

interpretation arena_tree: tree_insert arena_insertNode
  "\<lambda>c n. c\<lparr>OwnerMask := OwnerMask c OR OwnerMask n\<rparr>"
  "\<lambda>d n. (fst d, snd d OR OwnerMask n)"
  by unfold_locales (simp_all add: arena_insertNode.simps)

lemma insertNode_tmap:
  assumes "mem_tree h p t" "node \<notin> set_tree t" "node \<noteq> 0" "h node = Some n" "Left n = 0" "Right n = 0"
  shows "\<exists>h' p' q t'. insertNode h p node = Some (h', p', q) \<and> mem_tree h' p' t' \<and>
      set_tree t' \<subseteq> insert node (set_tree t) \<and>
      tmap h' p' = (tmap h p)(Addr n \<mapsto>
        (Size n, case tmap h p (Addr n) of None \<Rightarrow> OwnerMask n | Some d \<Rightarrow> snd d OR OwnerMask n))"
proof -
  have "(case tmap h p (Addr n) of None \<Rightarrow> (Size n, OwnerMask n) | Some d \<Rightarrow> (Size n, snd d OR OwnerMask n))
      = (Size n, case tmap h p (Addr n) of None \<Rightarrow> OwnerMask n | Some d \<Rightarrow> snd d OR OwnerMask n)"
    by (simp split: option.split)
  with balloc_tree.ins_root [OF assms] show ?thesis
    by (simp only: insertNode_def)
qed

end
