(* ===== verification/Balloc.thy ===== *)
theory Balloc
  imports Topology Mem_Tree
begin

text \<open>
  The block allocator of the package balloc (core.go, tree.go, mmap_unix.go, mmap_windows.go): one
  anonymous mapping, cut into a node area for the metadata and a payload area for the blocks; a
  bump pointer for each of the two; the search tree of blocks; a free list of reclaimed blocks.

  The metadata live in the mapping at raw addresses: \<open>nodes\<close> and \<open>slots\<close> are the typed views
  of the node area, keyed by those addresses. The package variables \<open>ArenaScale\<close> and
  \<open>GFPoly\<close> and the system calls are arguments. The operations are those of one goroutine at a
  time; the compare-and-swap loops then succeed on their first turn.
\<close>

section \<open>System calls (mmap_unix.go, mmap_windows.go)\<close>

datatype mmap_flag = PROT_READ | PROT_WRITE | MAP_ANON | MAP_PRIVATE
datatype win_flag = MEM_COMMIT | MEM_RESERVE | MEM_RELEASE | PAGE_READWRITE

text \<open>
  A byte slice over the mapping: the address of its first byte and its length. The arguments of
  \<open>syscall.Mmap\<close> are the descriptor, the offset, the length, the protection and the flags.
\<close>

definition mmapAnon_unix ::
  "(int \<Rightarrow> int \<Rightarrow> int \<Rightarrow> mmap_flag set \<Rightarrow> mmap_flag set \<Rightarrow> go_error + uintptr \<times> uintptr)
   \<Rightarrow> int \<Rightarrow> go_error + uintptr \<times> uintptr" where
  "mmapAnon_unix syscall_Mmap len =
     syscall_Mmap (- 1) 0 len {PROT_READ, PROT_WRITE} {MAP_ANON, MAP_PRIVATE}"

definition munmapAnon_unix ::
  "(uintptr \<times> uintptr \<Rightarrow> go_error option) \<Rightarrow> uintptr \<times> uintptr \<Rightarrow> go_error option" where
  "munmapAnon_unix syscall_Munmap mem = syscall_Munmap mem"

definition mmapAnon_windows ::
  "(uintptr \<Rightarrow> uintptr \<Rightarrow> win_flag set \<Rightarrow> win_flag set \<Rightarrow> go_error + uintptr)
   \<Rightarrow> int \<Rightarrow> go_error + uintptr \<times> uintptr" where
  "mmapAnon_windows VirtualAlloc len =
     (case VirtualAlloc 0 (word_of_int len) {MEM_COMMIT, MEM_RESERVE} {PAGE_READWRITE} of
        Inl e \<Rightarrow> Inl e
      | Inr addr \<Rightarrow> Inr (addr, word_of_int len))"

definition munmapAnon_windows ::
  "(uintptr \<Rightarrow> uintptr \<Rightarrow> win_flag set \<Rightarrow> go_error option) \<Rightarrow> uintptr \<times> uintptr \<Rightarrow> go_error option" where
  "munmapAnon_windows VirtualFree mem =
     (if snd mem = 0 then None else VirtualFree (fst mem) 0 {MEM_RELEASE})"

section \<open>Data (core.go, tree.go)\<close>

definition defaultNodeCapacity :: uintptr where
  "defaultNodeCapacity = 4096"

definition defaultMmapLength :: uintptr where
  "defaultMmapLength = 67108864"

text \<open>\<open>unsafe.Sizeof\<close> of the two metadata structs: five and three 64-bit fields.\<close>

definition sizeof_BallocNode :: uintptr where
  "sizeof_BallocNode = 40"

definition sizeof_freeSlot :: uintptr where
  "sizeof_freeSlot = 24"

record freeSlot =
  slot_addr :: uintptr
  slot_size :: uintptr
  slot_next :: uintptr

type_synonym slot_store = "uintptr \<rightharpoonup> freeSlot"

record BlockAllocator =
  MmapBase :: uintptr
  MmapLength :: uintptr
  MemTree :: uintptr
  Pandiagonal :: "u32 list list"
  Scale :: int
  mapping :: "(uintptr \<times> uintptr) option"
  payloadBase :: uintptr
  payloadEnd :: uintptr
  bump :: uintptr
  nodeBase :: uintptr
  nodeEnd :: uintptr
  nodeBump :: uintptr
  freeList :: uintptr
  activeBlocks :: u64
  closed :: u32
  cleanup :: bool
  nodes :: node_store
  slots :: slot_store

definition normalizeMask :: "u64 \<Rightarrow> u64" where
  "normalizeMask m = (if m = 0 then 1 else m)"

definition alignUp :: "uintptr \<Rightarrow> uintptr \<Rightarrow> uintptr" where
  "alignUp v alignment = (v + alignment - 1) AND NOT (alignment - 1)"

section \<open>Construction\<close>

definition balloc_New ::
  "int \<Rightarrow> (int \<Rightarrow> go_error + uintptr \<times> uintptr) \<Rightarrow> uintptr \<Rightarrow> BlockAllocator outcome" where
  "balloc_New ArenaScale mmapAnon len0 =
     (let len = (if len0 = 0 then defaultMmapLength else len0) in
      if len < defaultNodeCapacity * sizeof_BallocNode + 4096 then Err Balloc_ErrInvalidSize
      else case mmapAnon (sint len) of
        Inl e \<Rightarrow> Err e
      | Inr (base, n) \<Rightarrow>
          if n = 0 then Panic IndexOutOfRange
          else
            let nodeBytes = alignUp (defaultNodeCapacity * sizeof_BallocNode) 64;
                pBase = alignUp (base + nodeBytes) 64
            in obind (buildPandiagonal ArenaScale) (\<lambda>m.
               Ok \<lparr>MmapBase = base, MmapLength = n, MemTree = 0, Pandiagonal = m, Scale = ArenaScale,
                   mapping = Some (base, n), payloadBase = pBase, payloadEnd = base + n, bump = pBase,
                   nodeBase = base, nodeEnd = base + nodeBytes, nodeBump = base, freeList = 0,
                   activeBlocks = 0, closed = 0, cleanup = True,
                   nodes = Map.empty, slots = Map.empty\<rparr>))"

section \<open>Metadata and free list\<close>

text \<open>\<open>atomic.AddUintptr\<close> returns the new value; the raw address is the old one.\<close>

definition newNode :: "BlockAllocator \<Rightarrow> uintptr \<Rightarrow> uintptr \<Rightarrow> u64 \<Rightarrow> BlockAllocator \<times> uintptr outcome" where
  "newNode b addr sz ownerMask =
     (let nb = nodeBump b + sizeof_BallocNode;
          raw = nb - sizeof_BallocNode;
          b' = b\<lparr>nodeBump := nb\<rparr>
      in if raw + sizeof_BallocNode > nodeEnd b then (b', Err Balloc_ErrOutOfMemory)
         else (b'\<lparr>nodes := (nodes b)(raw \<mapsto>
                 \<lparr>Addr = addr, Size = sz, OwnerMask = normalizeMask ownerMask, Left = 0, Right = 0\<rparr>)\<rparr>,
               Ok raw))"

definition newFreeSlot :: "BlockAllocator \<Rightarrow> uintptr \<Rightarrow> uintptr \<Rightarrow> BlockAllocator \<times> uintptr outcome" where
  "newFreeSlot b addr sz =
     (let nb = nodeBump b + sizeof_freeSlot;
          raw = nb - sizeof_freeSlot;
          b' = b\<lparr>nodeBump := nb\<rparr>
      in if raw + sizeof_freeSlot > nodeEnd b then (b', Err Balloc_ErrOutOfMemory)
         else (b'\<lparr>slots := (slots b)(raw \<mapsto> \<lparr>slot_addr = addr, slot_size = sz, slot_next = 0\<rparr>)\<rparr>,
               Ok raw))"

definition clearOwner :: "BallocNode \<Rightarrow> u64 \<Rightarrow> BallocNode" where
  "clearOwner node layerMask = node\<lparr>OwnerMask := OwnerMask node AND NOT layerMask\<rparr>"

text \<open>The free list is a stack of slots linked through \<open>slot_next\<close>; the root word comes back.\<close>

definition pushFree :: "slot_store \<Rightarrow> uintptr \<Rightarrow> uintptr \<Rightarrow> (slot_store \<times> uintptr) option" where
  "pushFree sl root slot =
     (case sl slot of
        None \<Rightarrow> None
      | Some s \<Rightarrow> Some (sl(slot \<mapsto> s\<lparr>slot_next := root\<rparr>), slot))"

text \<open>Only the head is looked at: when it is too small it is pushed back and the pop fails.\<close>

definition popFree ::
  "slot_store \<Rightarrow> uintptr \<Rightarrow> uintptr \<Rightarrow> (slot_store \<times> uintptr \<times> (uintptr \<times> uintptr) option) option" where
  "popFree sl root sz =
     (if root = 0 then Some (sl, root, None)
      else case sl root of
        None \<Rightarrow> None
      | Some head \<Rightarrow>
          let next = slot_next head in
          if slot_size head \<ge> sz then Some (sl, next, Some (slot_addr head, slot_size head))
          else case pushFree sl next root of
            None \<Rightarrow> None
          | Some (sl', root') \<Rightarrow> Some (sl', root', None))"

section \<open>Operations\<close>

definition balloc_Bucket :: "u64 \<Rightarrow> BlockAllocator \<Rightarrow> u64 \<Rightarrow> u64 \<Rightarrow> int outcome" where
  "balloc_Bucket GFPoly b threadID chunkID = bucketFor GFPoly (Pandiagonal b) (Scale b) threadID chunkID"

text \<open>
  The tail both branches of \<open>Alloc\<close> share: make a node for the block, insert it into the
  tree, count it, return its address and bucket.
\<close>

definition alloc_node ::
  "BlockAllocator \<Rightarrow> uintptr \<Rightarrow> uintptr \<Rightarrow> u64 \<Rightarrow> int \<Rightarrow> BlockAllocator \<times> (uintptr \<times> int) outcome" where
  "alloc_node b addr sz ownerMask bucket =
     (case newNode b addr sz ownerMask of
        (b', Ok node) \<Rightarrow>
          (case insertNode (nodes b') (MemTree b') node of
             None \<Rightarrow> (b', Diverge)
           | Some (h, root, _) \<Rightarrow>
               (b'\<lparr>nodes := h, MemTree := root, activeBlocks := activeBlocks b' + 1\<rparr>, Ok (addr, bucket)))
      | (b', Err e) \<Rightarrow> (b', Err e)
      | (b', Panic p) \<Rightarrow> (b', Panic p)
      | (b', Diverge) \<Rightarrow> (b', Diverge))"

definition balloc_Alloc ::
  "u64 \<Rightarrow> BlockAllocator \<Rightarrow> uintptr \<Rightarrow> u64 \<Rightarrow> u64 \<Rightarrow> u64 \<Rightarrow> BlockAllocator \<times> (uintptr \<times> int) outcome" where
  "balloc_Alloc GFPoly b sz0 ownerMask threadID chunkID =
     (if sz0 = 0 then (b, Err Balloc_ErrInvalidSize)
      else if closed b \<noteq> 0 then (b, Err Balloc_ErrClosed)
      else
        let sz = alignUp sz0 8 in
        case balloc_Bucket GFPoly b threadID chunkID of
          Err e \<Rightarrow> (b, Err e)
        | Panic p \<Rightarrow> (b, Panic p)
        | Diverge \<Rightarrow> (b, Diverge)
        | Ok bucket \<Rightarrow>
           (case popFree (slots b) (freeList b) sz of
              None \<Rightarrow> (b, Diverge)
            | Some (sl, fl, Some (addr, slotSize)) \<Rightarrow>
                alloc_node (b\<lparr>slots := sl, freeList := fl\<rparr>) addr slotSize ownerMask bucket
            | Some (sl, fl, None) \<Rightarrow>
                let nb = bump b + sz;
                    addr = nb - sz;
                    b' = b\<lparr>slots := sl, freeList := fl, bump := nb\<rparr>
                in if addr + sz > payloadEnd b then (b', Err Balloc_ErrOutOfMemory)
                   else alloc_node b' addr sz ownerMask bucket))"

text \<open>
  \<open>Share\<close> and \<open>FreeVarying\<close> do not look at \<open>closed\<close>: after \<open>Close\<close> a walk from a
  root that is not \<open>nil\<close> reads unmapped memory.
\<close>

definition balloc_Share :: "BlockAllocator \<Rightarrow> uintptr \<Rightarrow> u64 \<Rightarrow> BlockAllocator \<times> unit outcome" where
  "balloc_Share b addr ownerMask =
     (if mapping b = None \<and> MemTree b \<noteq> 0 then (b, Panic SegFault)
      else case findNode (nodes b) (MemTree b) addr of
        None \<Rightarrow> (b, Diverge)
      | Some p \<Rightarrow>
          if p = 0 then (b, Err Balloc_ErrNotFound)
          else case nodes b p of
            None \<Rightarrow> (b, Diverge)
          | Some node \<Rightarrow>
              (b\<lparr>nodes := (nodes b)(p \<mapsto> node\<lparr>OwnerMask := OwnerMask node OR normalizeMask ownerMask\<rparr>)\<rparr>,
               Ok ()))"

definition balloc_FreeVarying :: "BlockAllocator \<Rightarrow> uintptr \<Rightarrow> u64 \<Rightarrow> BlockAllocator \<times> bool outcome" where
  "balloc_FreeVarying b addr layerMask =
     (if mapping b = None \<and> MemTree b \<noteq> 0 then (b, Panic SegFault)
      else case findNode (nodes b) (MemTree b) addr of
        None \<Rightarrow> (b, Diverge)
      | Some p \<Rightarrow>
          if p = 0 then (b, Err Balloc_ErrNotFound)
          else case nodes b p of
            None \<Rightarrow> (b, Diverge)
          | Some node0 \<Rightarrow>
              let node = clearOwner node0 layerMask;
                  b1 = b\<lparr>nodes := (nodes b)(p \<mapsto> node)\<rparr>
              in if OwnerMask node \<noteq> 0 then (b1, Ok False)
                 else case newFreeSlot b1 (Addr node) (Size node) of
                   (b2, Ok slot) \<Rightarrow>
                     (case pushFree (slots b2) (freeList b2) slot of
                        None \<Rightarrow> (b2, Diverge)
                      | Some (sl, root) \<Rightarrow>
                          (b2\<lparr>slots := sl, freeList := root, activeBlocks := activeBlocks b2 + NOT 0\<rparr>, Ok True))
                 | (b2, Err e) \<Rightarrow> (b2, Err e)
                 | (b2, Panic q) \<Rightarrow> (b2, Panic q)
                 | (b2, Diverge) \<Rightarrow> (b2, Diverge))"

definition balloc_Reset :: "BlockAllocator \<Rightarrow> BlockAllocator \<times> unit outcome" where
  "balloc_Reset b =
     (if closed b \<noteq> 0 then (b, Err Balloc_ErrClosed)
      else (b\<lparr>MemTree := 0, freeList := 0, bump := payloadBase b, nodeBump := nodeBase b,
              activeBlocks := 0\<rparr>, Ok ()))"

text \<open>\<open>Close\<close> returns the mappings it passes to \<open>munmapAnon\<close>, whose result it ignores.\<close>

definition balloc_Close :: "BlockAllocator \<Rightarrow> BlockAllocator \<times> (uintptr \<times> uintptr) list" where
  "balloc_Close b =
     (if closed b \<noteq> 0 then (b, [])
      else let b' = b\<lparr>closed := 1, cleanup := False\<rparr> in
        case mapping b' of
          None \<Rightarrow> (b', [])
        | Some mem \<Rightarrow> (b'\<lparr>mapping := None\<rparr>, [mem]))"

text \<open>
  \<open>munmapCleanup\<close> is what the garbage collector runs on an allocator that is no longer
  reachable and whose cleanup was not stopped.
\<close>

definition munmapCleanup :: "BlockAllocator \<Rightarrow> (uintptr \<times> uintptr) list" where
  "munmapCleanup b = (if cleanup b then [(MmapBase b, MmapLength b)] else [])"

end
