(* ===== verification/Balloc_Spec.thy ===== *)
theory Balloc_Spec
  imports Balloc
begin

text \<open>
  What the block allocator promises, as an abstract machine, and the proof that the operations of
  the theory Balloc implement it.

  An abstract state \<open>heap_spec\<close> holds a map from block addresses to sizes and owners, the free
  list as a list, and three counters; its operations \<open>spec_Alloc\<close>, \<open>spec_Share\<close>,
  \<open>spec_Free\<close> and \<open>spec_Reset\<close> know no pointers, no tree and no wrap-around. The relation
  \<open>balloc_rel\<close> ties a concrete allocator to an abstract state: the node area holds a search
  tree and a linked list whose contents are the map and the list, its cells do not overlap, and
  the machine words are the counters. Each operation of the code keeps the relation and returns
  what the abstract operation returns, as long as the bump pointers do not pass the end of the
  address space (\<open>no_wrap\<close>).
\<close>

section \<open>The abstract machine\<close>

record heap_spec =
  sp_blocks :: "uintptr \<rightharpoonup> uintptr \<times> u64"
  sp_free :: "(uintptr \<times> uintptr) list"
  sp_bump :: nat
  sp_meta :: nat
  sp_active :: u64
  sp_base :: nat
  sp_limit :: nat

text \<open>Room for \<open>defaultNodeCapacity\<close> nodes of 40 bytes.\<close>

definition meta_limit :: nat where
  "meta_limit = 163840"

definition round8 :: "nat \<Rightarrow> nat" where
  "round8 n = (n + 7) div 8 * 8"

definition owners_at :: "(uintptr \<rightharpoonup> uintptr \<times> u64) \<Rightarrow> uintptr \<Rightarrow> u64" where
  "owners_at m a = (case m a of None \<Rightarrow> 0 | Some d \<Rightarrow> snd d)"

definition spec_node :: "heap_spec \<Rightarrow> uintptr \<Rightarrow> uintptr \<Rightarrow> u64 \<Rightarrow> heap_spec \<times> uintptr outcome" where
  "spec_node A addr sz m =
     (if sp_meta A + 40 > meta_limit
      then (A\<lparr>sp_meta := sp_meta A + 40\<rparr>, Err Balloc_ErrOutOfMemory)
      else (A\<lparr>sp_meta := sp_meta A + 40,
              sp_blocks := (sp_blocks A)(addr \<mapsto> (sz, owners_at (sp_blocks A) addr OR normalizeMask m)),
              sp_active := sp_active A + 1\<rparr>, Ok addr))"

definition spec_bump :: "heap_spec \<Rightarrow> nat \<Rightarrow> u64 \<Rightarrow> heap_spec \<times> uintptr outcome" where
  "spec_bump A n m =
     (let A' = A\<lparr>sp_bump := sp_bump A + n\<rparr> in
      if sp_bump A + n > sp_limit A then (A', Err Balloc_ErrOutOfMemory)
      else spec_node A' (of_nat (sp_bump A)) (of_nat n) m)"

definition spec_Alloc :: "heap_spec \<Rightarrow> uintptr \<Rightarrow> u64 \<Rightarrow> heap_spec \<times> uintptr outcome" where
  "spec_Alloc A sz m =
     (let n = round8 (unat sz) in
      case sp_free A of
        [] \<Rightarrow> spec_bump A n m
      | (a, s) # fs \<Rightarrow>
          if n \<le> unat s then spec_node (A\<lparr>sp_free := fs\<rparr>) a s m else spec_bump A n m)"

definition spec_Share :: "heap_spec \<Rightarrow> uintptr \<Rightarrow> u64 \<Rightarrow> heap_spec \<times> unit outcome" where
  "spec_Share A addr m =
     (case sp_blocks A addr of
        None \<Rightarrow> (A, Err Balloc_ErrNotFound)
      | Some (s, o0) \<Rightarrow> (A\<lparr>sp_blocks := (sp_blocks A)(addr \<mapsto> (s, o0 OR normalizeMask m))\<rparr>, Ok ()))"

definition spec_Free :: "heap_spec \<Rightarrow> uintptr \<Rightarrow> u64 \<Rightarrow> heap_spec \<times> bool outcome" where
  "spec_Free A addr m =
     (case sp_blocks A addr of
        None \<Rightarrow> (A, Err Balloc_ErrNotFound)
      | Some (s, o0) \<Rightarrow>
          let A1 = A\<lparr>sp_blocks := (sp_blocks A)(addr \<mapsto> (s, o0 AND NOT m))\<rparr> in
          if o0 AND NOT m \<noteq> 0 then (A1, Ok False)
          else if sp_meta A + 24 > meta_limit
               then (A1\<lparr>sp_meta := sp_meta A + 24\<rparr>, Err Balloc_ErrOutOfMemory)
               else (A1\<lparr>sp_meta := sp_meta A + 24, sp_free := (addr, s) # sp_free A,
                        sp_active := sp_active A - 1\<rparr>, Ok True))"

definition spec_Reset :: "heap_spec \<Rightarrow> heap_spec" where
  "spec_Reset A = A\<lparr>sp_blocks := Map.empty, sp_free := [], sp_bump := sp_base A, sp_meta := 0, sp_active := 0\<rparr>"

section \<open>Alignment\<close>

lemma alignUp_pow2:
  assumes "unat v + (2 ^ k - 1) < 2 ^ 64" "k < 64"
  shows "unat (alignUp v (2 ^ k)) = (unat v + (2 ^ k - 1)) div 2 ^ k * 2 ^ k"
proof -
  have m: "(2 ^ k - 1 :: u64) = mask k"
    by (simp add: mask_eq_exp_minus_1)
  have um: "unat (mask k :: u64) = 2 ^ k - 1"
  proof -
    have "uint (mask k :: u64) = 2 ^ k - 1"
      using assms(2) by (simp only: uint_mask_eq) (simp add: mask_eq_exp_minus_1 min_def)
    then have "int (unat (mask k :: u64)) = int (2 ^ k - 1)"
      by (simp add: of_nat_diff)
    then show ?thesis
      by (simp only: of_nat_eq_iff)
  qed
  have "alignUp v (2 ^ k) = (v + mask k) AND NOT (mask k)"
    by (simp add: alignUp_def m [symmetric] add_diff_eq)
  moreover have "unat (v + mask k) = unat v + (2 ^ k - 1)"
    using assms(1) by (subst unat_add_u64) (simp_all add: um)
  ultimately show ?thesis
    by (simp add: unat_and_not_mask)
qed

lemma alignUp8: "unat v + 7 < 2 ^ 64 \<Longrightarrow> unat (alignUp v 8) = round8 (unat v)"
  using alignUp_pow2 [of v 3] by (simp add: round8_def)

lemma alignUp64: "unat v + 63 < 2 ^ 64 \<Longrightarrow> unat (alignUp v 64) = (unat v + 63) div 64 * 64"
  using alignUp_pow2 [of v 6] by simp

lemma round8_bounds: "n \<le> round8 n \<and> round8 n \<le> n + 7 \<and> 8 dvd round8 n"
  by (auto simp: round8_def)

section \<open>The relation\<close>

text \<open>Two ranges of bytes do not meet.\<close>

definition apart :: "uintptr \<Rightarrow> nat \<Rightarrow> uintptr \<Rightarrow> nat \<Rightarrow> bool" where
  "apart a n b m \<longleftrightarrow> unat a + n \<le> unat b \<or> unat b + m \<le> unat a"

text \<open>The slots reachable from the root word of the free list.\<close>

fun list_at :: "slot_store \<Rightarrow> uintptr \<Rightarrow> uintptr list \<Rightarrow> bool" where
  "list_at sl p [] \<longleftrightarrow> p = 0"
| "list_at sl p (q # qs) \<longleftrightarrow>
     p = q \<and> q \<noteq> 0 \<and> (case sl q of None \<Rightarrow> False | Some s \<Rightarrow> list_at sl (slot_next s) qs)"

definition slot_entry :: "slot_store \<Rightarrow> uintptr \<Rightarrow> uintptr \<times> uintptr" where
  "slot_entry sl q = (case sl q of None \<Rightarrow> (0, 0) | Some s \<Rightarrow> (slot_addr s, slot_size s))"

text \<open>The metadata cells in use: nodes of the tree and slots of the free list.\<close>

definition cells :: "uintptr tree \<Rightarrow> uintptr list \<Rightarrow> (uintptr \<times> nat) set" where
  "cells t xs = (\<lambda>q. (q, 40)) ` set_tree t \<union> (\<lambda>q. (q, 24)) ` set xs"

definition cells_ok :: "nat \<Rightarrow> nat \<Rightarrow> (uintptr \<times> nat) set \<Rightarrow> bool" where
  "cells_ok lo hi C \<longleftrightarrow>
     (\<forall>c \<in> C. lo \<le> unat (fst c) \<and> unat (fst c) + snd c \<le> hi) \<and>
     (\<forall>c \<in> C. \<forall>d \<in> C. c \<noteq> d \<longrightarrow> apart (fst c) (snd c) (fst d) (snd d))"

definition layout :: "BlockAllocator \<Rightarrow> bool" where
  "layout b \<longleftrightarrow>
     nodeBase b = MmapBase b \<and> MmapBase b \<noteq> 0 \<and>
     unat (nodeEnd b) = unat (nodeBase b) + meta_limit \<and>
     unat (nodeEnd b) \<le> unat (payloadBase b) \<and>
     unat (payloadBase b) \<le> unat (payloadEnd b) \<and>
     unat (payloadEnd b) = unat (MmapBase b) + unat (MmapLength b) \<and>
     8 dvd unat (payloadBase b) \<and>
     0 < Scale b \<and> Scale b < 2 ^ 63 \<and>
     length (Pandiagonal b) = nat (Scale b) \<and> (\<forall>r \<in> set (Pandiagonal b). length r = nat (Scale b)) \<and>
     mapping b = (if closed b = 0 then Some (MmapBase b, MmapLength b) else None)"

lemma layout_simps [simp]:
  "layout (b\<lparr>nodeBump := x1\<rparr>) = layout b"
  "layout (b\<lparr>nodes := x2\<rparr>) = layout b"
  "layout (b\<lparr>slots := x3\<rparr>) = layout b"
  "layout (b\<lparr>MemTree := x4\<rparr>) = layout b"
  "layout (b\<lparr>freeList := x5\<rparr>) = layout b"
  "layout (b\<lparr>bump := x6\<rparr>) = layout b"
  "layout (b\<lparr>activeBlocks := x7\<rparr>) = layout b"
  by (simp_all add: layout_def)

definition counters :: "BlockAllocator \<Rightarrow> heap_spec \<Rightarrow> bool" where
  "counters b A \<longleftrightarrow>
     unat (bump b) = sp_bump A \<and> unat (nodeBump b) = unat (nodeBase b) + sp_meta A \<and>
     activeBlocks b = sp_active A \<and> unat (payloadBase b) = sp_base A \<and> unat (payloadEnd b) = sp_limit A"

definition balloc_rel :: "BlockAllocator \<Rightarrow> heap_spec \<Rightarrow> uintptr tree \<Rightarrow> uintptr list \<Rightarrow> bool" where
  "balloc_rel b A t xs \<longleftrightarrow>
     layout b \<and> counters b A \<and>
     mem_tree (nodes b) (MemTree b) t \<and> tmap (nodes b) (MemTree b) = sp_blocks A \<and>
     list_at (slots b) (freeList b) xs \<and> map (slot_entry (slots b)) xs = sp_free A \<and>
     cells_ok (unat (nodeBase b)) (unat (nodeBase b) + min (sp_meta A) meta_limit) (cells t xs)"

definition balloc_refines :: "BlockAllocator \<Rightarrow> heap_spec \<Rightarrow> bool" where
  "balloc_refines b A \<longleftrightarrow> (\<exists>t xs. balloc_rel b A t xs)"

text \<open>No bump pointer passes the end of the address space in the next call.\<close>

definition no_wrap :: "BlockAllocator \<Rightarrow> uintptr \<Rightarrow> bool" where
  "no_wrap b sz \<longleftrightarrow> unat (bump b) + unat sz + 7 < 2 ^ 64 \<and> unat (nodeBump b) + 40 < 2 ^ 64"

section \<open>Lemmas on cells and slots\<close>

lemma cells_ok_mono:
  assumes "cells_ok lo hi C" "D \<subseteq> C" "hi \<le> hi'"
  shows "cells_ok lo hi' D"
proof -
  have "\<forall>c \<in> D. lo \<le> unat (fst c) \<and> unat (fst c) + snd c \<le> hi'"
    using assms unfolding cells_ok_def by (meson order.trans subsetD)
  moreover have "\<forall>c \<in> D. \<forall>d \<in> D. c \<noteq> d \<longrightarrow> apart (fst c) (snd c) (fst d) (snd d)"
    using assms(1,2) unfolding cells_ok_def by (meson subsetD)
  ultimately show ?thesis
    unfolding cells_ok_def by simp
qed

lemma cells_ok_insert:
  assumes "cells_ok lo hi C" "hi \<le> unat p" "lo \<le> unat p" "unat p + n \<le> hi'"
  shows "cells_ok lo hi' (insert (p, n) C)"
proof -
  have range: "\<forall>c \<in> C. lo \<le> unat (fst c) \<and> unat (fst c) + snd c \<le> hi"
    and C: "\<forall>c \<in> C. \<forall>d \<in> C. c \<noteq> d \<longrightarrow> apart (fst c) (snd c) (fst d) (snd d)"
    using assms(1) unfolding cells_ok_def by blast+
  have "\<forall>c \<in> C. apart (fst c) (snd c) p n \<and> apart p n (fst c) (snd c)"
    using range assms(2) by (auto simp: apart_def)
  moreover have "\<forall>c \<in> C. unat (fst c) + snd c \<le> hi'"
    using range assms(2,4) by auto
  ultimately show ?thesis
    using range C assms(3,4) unfolding cells_ok_def by simp
qed

lemma cells_ok_fresh: "cells_ok lo hi C \<Longrightarrow> hi \<le> unat p \<Longrightarrow> 0 < n \<Longrightarrow> (p, n) \<notin> C"
  unfolding cells_ok_def by fastforce

lemma list_at_frame: "list_at sl p xs \<Longrightarrow> (\<And>q. q \<in> set xs \<Longrightarrow> sl' q = sl q) \<Longrightarrow> list_at sl' p xs"
  by (induction xs arbitrary: p) (auto split: option.splits)

lemma list_at_nil [simp]: "list_at sl 0 xs \<longleftrightarrow> xs = []"
  by (cases xs) auto

lemma list_at_cons:
  assumes "list_at sl p xs" "p \<noteq> 0"
  obtains s ys where "xs = p # ys" "sl p = Some s" "list_at sl (slot_next s) ys"
  using assms by (cases xs) (auto split: option.splits)

section \<open>The operations implement the abstract machine\<close>

text \<open>Results of the code and of the abstract machine agree up to the bucket.\<close>

definition alloc_sim :: "BlockAllocator \<times> (uintptr \<times> int) outcome \<Rightarrow> heap_spec \<times> uintptr outcome \<Rightarrow> int \<Rightarrow> bool" where
  "alloc_sim c s bucket \<longleftrightarrow>
     balloc_refines (fst c) (fst s) \<and> snd c = map_outcome (\<lambda>a. (a, bucket)) (snd s)"

lemma node_room:
  assumes "layout b" "counters b A" "unat (nodeBump b) + k < 2 ^ 64" "unat w = k"
  shows "nodeEnd b < nodeBump b + w \<longleftrightarrow> meta_limit < sp_meta A + k"
    and "unat (nodeBump b + w) = unat (nodeBase b) + (sp_meta A + k)"
proof -
  show u: "unat (nodeBump b + w) = unat (nodeBase b) + (sp_meta A + k)"
    using assms by (subst unat_add_u64) (auto simp: counters_def)
  then show "nodeEnd b < nodeBump b + w \<longleftrightarrow> meta_limit < sp_meta A + k"
    using assms(1) by (simp add: word_less_nat_alt layout_def)
qed

lemma rel_nodeBump:
  assumes "balloc_rel b A t xs" "unat (nodeBump b) + unat w < 2 ^ 64"
  shows "balloc_rel (b\<lparr>nodeBump := nodeBump b + w\<rparr>) (A\<lparr>sp_meta := sp_meta A + unat w\<rparr>) t xs"
proof -
  have "cells_ok (unat (nodeBase b)) (unat (nodeBase b) + min (sp_meta A + unat w) meta_limit) (cells t xs)"
    by (rule cells_ok_mono [of _ "unat (nodeBase b) + min (sp_meta A) meta_limit" "cells t xs"])
       (use assms(1) in \<open>auto simp: balloc_rel_def\<close>)
  moreover have "unat (nodeBump b + w) = unat (nodeBase b) + (sp_meta A + unat w)"
    using assms by (intro node_room) (auto simp: balloc_rel_def)
  ultimately show ?thesis
    using assms(1) by (simp add: balloc_rel_def counters_def)
qed

lemma alloc_node_sim:
  assumes rel: "balloc_rel b A t xs" and nw: "unat (nodeBump b) + 40 < 2 ^ 64"
  shows "alloc_sim (alloc_node b addr sz m bucket) (spec_node A addr sz m) bucket"
proof (cases "sp_meta A + 40 > meta_limit")
  case True
  have "nodeEnd b < nodeBump b + 40"
    using node_room(1) [of b A 40 40] rel nw True by (simp add: balloc_rel_def)
  moreover have "balloc_rel (b\<lparr>nodeBump := nodeBump b + 40\<rparr>) (A\<lparr>sp_meta := sp_meta A + 40\<rparr>) t xs"
    using rel_nodeBump [OF rel, of 40] nw by simp
  ultimately show ?thesis
    using True
    by (auto simp: alloc_node_def newNode_def sizeof_BallocNode_def spec_node_def alloc_sim_def
        balloc_refines_def Let_def)
next
  case False
  let ?raw = "nodeBump b"
  define n where "n = \<lparr>Addr = addr, Size = sz, OwnerMask = normalizeMask m, Left = 0, Right = 0\<rparr>"
  have n: "Addr n = addr" "Size n = sz" "OwnerMask n = normalizeMask m" "Left n = 0" "Right n = 0"
    by (simp_all add: n_def)
  let ?h = "(nodes b)(?raw \<mapsto> n)"
  have L: "layout b" and C: "counters b A" and T: "mem_tree (nodes b) (MemTree b) t"
    and M: "tmap (nodes b) (MemTree b) = sp_blocks A"
    and F: "list_at (slots b) (freeList b) xs" "map (slot_entry (slots b)) xs = sp_free A"
    and K: "cells_ok (unat (nodeBase b)) (unat (nodeBase b) + min (sp_meta A) meta_limit) (cells t xs)"
    using rel by (auto simp: balloc_rel_def)
  have room: "\<not> nodeEnd b < ?raw + 40"
    using node_room(1) [OF L C, of 40 40] nw False by simp
  have raw: "unat ?raw = unat (nodeBase b) + sp_meta A" "unat (nodeBase b) \<noteq> 0"
    using L C by (auto simp: counters_def layout_def unat_eq_0)
  have "(?raw, 40) \<notin> cells t xs"
    using K by (rule cells_ok_fresh) (use raw False in auto)
  then have fresh: "?raw \<notin> set_tree t"
    by (auto simp: cells_def)
  have T': "mem_tree ?h (MemTree b) t"
    using T by (rule mem_tree_frame) (use fresh in auto)
  have M': "tmap ?h (MemTree b) = sp_blocks A"
    using tmap_frame [OF T, of ?h] fresh M by force
  have nz: "?raw \<noteq> 0"
    using raw by (auto simp: unat_eq_0 [symmetric])
  have hn: "?h ?raw = Some n"
    by simp
  obtain h' p' q t' where
    I: "insertNode ?h (MemTree b) ?raw = Some (h', p', q)" "mem_tree h' p' t'"
      "set_tree t' \<subseteq> insert ?raw (set_tree t)"
      "tmap h' p' = (sp_blocks A)(addr \<mapsto>
        (sz, case sp_blocks A addr of None \<Rightarrow> normalizeMask m | Some d \<Rightarrow> snd d OR normalizeMask m))"
    using insertNode_tmap [OF T' fresh nz hn n(4,5)] unfolding M' n(1-3) by blast
  have "cells_ok (unat (nodeBase b)) (unat (nodeBase b) + min (sp_meta A + 40) meta_limit)
      (insert (?raw, 40) (cells t xs))"
    using K by (rule cells_ok_insert) (use raw False in auto)
  then have K': "cells_ok (unat (nodeBase b)) (unat (nodeBase b) + min (sp_meta A + 40) meta_limit) (cells t' xs)"
    by (rule cells_ok_mono) (use I(3) in \<open>auto simp: cells_def\<close>)
  have owners: "(case sp_blocks A addr of None \<Rightarrow> normalizeMask m | Some d \<Rightarrow> snd d OR normalizeMask m)
      = owners_at (sp_blocks A) addr OR normalizeMask m"
    by (simp add: owners_at_def split: option.split)
  have "balloc_rel (b\<lparr>nodeBump := ?raw + 40, nodes := h', MemTree := p', activeBlocks := activeBlocks b + 1\<rparr>)
      (fst (spec_node A addr sz m)) t' xs"
    using L C F I(2,4) K' False node_room(2) [OF L C, of 40 40] nw
    by (simp add: balloc_rel_def counters_def spec_node_def owners)
  then show ?thesis
    using room I(1) False
    by (auto simp: alloc_node_def newNode_def sizeof_BallocNode_def alloc_sim_def balloc_refines_def
        spec_node_def n_def Let_def)
qed

lemma popFree_rel:
  assumes rel: "balloc_rel b A t xs"
  shows "case sp_free A of
      [] \<Rightarrow> popFree (slots b) (freeList b) sz = Some (slots b, freeList b, None)
    | (a, s) # fs \<Rightarrow>
        if sz \<le> s then
          \<exists>next ys. popFree (slots b) (freeList b) sz = Some (slots b, next, Some (a, s)) \<and>
                   balloc_rel (b\<lparr>freeList := next\<rparr>) (A\<lparr>sp_free := fs\<rparr>) t ys
        else popFree (slots b) (freeList b) sz = Some (slots b, freeList b, None)"
proof (cases "freeList b = 0")
  case True
  then have "xs = []" "sp_free A = []"
    using rel by (auto simp: balloc_rel_def)
  with True show ?thesis
    by (simp add: popFree_def)
next
  case False
  have F: "list_at (slots b) (freeList b) xs" "map (slot_entry (slots b)) xs = sp_free A"
    and K: "cells_ok (unat (nodeBase b)) (unat (nodeBase b) + min (sp_meta A) meta_limit) (cells t xs)"
    using rel by (auto simp: balloc_rel_def)
  from list_at_cons [OF F(1) False] obtain s ys where
    xs: "xs = freeList b # ys" "slots b (freeList b) = Some s" "list_at (slots b) (slot_next s) ys"
    by blast
  have head: "sp_free A = (slot_addr s, slot_size s) # map (slot_entry (slots b)) ys"
    using F(2) xs by (simp add: slot_entry_def)
  have same: "(slots b)(freeList b \<mapsto> s\<lparr>slot_next := slot_next s\<rparr>) = slots b"
    using xs(2) by (simp add: fun_upd_idem)
  have "cells_ok (unat (nodeBase b)) (unat (nodeBase b) + min (sp_meta A) meta_limit) (cells t ys)"
    using K by (rule cells_ok_mono) (use xs(1) in \<open>auto simp: cells_def\<close>)
  then have "balloc_rel (b\<lparr>freeList := slot_next s\<rparr>) (A\<lparr>sp_free := map (slot_entry (slots b)) ys\<rparr>) t ys"
    using rel xs(3) by (simp add: balloc_rel_def counters_def)
  with False xs(2) head same show ?thesis
    by (auto simp: popFree_def pushFree_def Let_def)
qed

lemma spec_bump_sim:
  assumes rel: "balloc_rel b A t xs" and n: "unat n = k"
    and nw: "unat (bump b) + k < 2 ^ 64" "unat (nodeBump b) + 40 < 2 ^ 64"
  shows "alloc_sim
      (if payloadEnd b < bump b + n then (b\<lparr>bump := bump b + n\<rparr>, Err Balloc_ErrOutOfMemory)
       else alloc_node (b\<lparr>bump := bump b + n\<rparr>) (bump b) n m bucket)
      (spec_bump A k m) bucket"
proof -
  let ?b = "b\<lparr>bump := bump b + n\<rparr>" and ?A = "A\<lparr>sp_bump := sp_bump A + k\<rparr>"
  have C: "unat (bump b) = sp_bump A" "unat (payloadEnd b) = sp_limit A"
    using rel by (auto simp: balloc_rel_def counters_def)
  have u: "unat (bump b + n) = sp_bump A + k"
    using nw(1) n C by (subst unat_add_u64) auto
  have rel': "balloc_rel ?b ?A t xs"
    using rel u by (simp add: balloc_rel_def counters_def)
  have cond: "payloadEnd b < bump b + n \<longleftrightarrow> sp_limit A < sp_bump A + k"
    using u C by (simp add: word_less_nat_alt)
  have addr: "of_nat (sp_bump A) = bump b" "of_nat k = n"
    by (simp_all flip: C(1) n)
  show ?thesis
  proof (cases "sp_limit A < sp_bump A + k")
    case True
    with cond rel' show ?thesis
      by (auto simp: spec_bump_def Let_def alloc_sim_def balloc_refines_def)
  next
    case False
    with cond addr alloc_node_sim [OF rel', of "bump b" n m bucket] nw(2) show ?thesis
      by (simp add: spec_bump_def Let_def)
  qed
qed

lemma same_lists:
  "b\<lparr>slots := slots b, freeList := freeList b, bump := x\<rparr> = b\<lparr>bump := x\<rparr>"
  "b\<lparr>slots := slots b, freeList := y\<rparr> = b\<lparr>freeList := y\<rparr>"
  by simp_all

lemma Alloc_bucket:
  assumes "layout b"
  shows "\<exists>k. balloc_Bucket poly b tid cid = Ok k \<and> 0 \<le> k \<and> k < Scale b"
  using assms bucketFor_total by (simp add: balloc_Bucket_def layout_def)

lemma balloc_Alloc_sim:
  assumes ref: "balloc_refines b A" and nw: "no_wrap b sz" and sz: "sz \<noteq> 0" and op: "closed b = 0"
  shows "\<exists>bucket. balloc_Bucket poly b tid cid = Ok bucket \<and> 0 \<le> bucket \<and> bucket < Scale b \<and>
           alloc_sim (balloc_Alloc poly b sz m tid cid) (spec_Alloc A sz m) bucket"
proof -
  from ref obtain t xs where rel: "balloc_rel b A t xs"
    by (auto simp: balloc_refines_def)
  then have "layout b" by (simp add: balloc_rel_def)
  from Alloc_bucket [OF this] obtain bucket where
    bucket: "balloc_Bucket poly b tid cid = Ok bucket" "0 \<le> bucket" "bucket < Scale b"
    by blast
  define n where "n = alignUp sz 8"
  have n: "unat n = round8 (unat sz)"
    using nw unfolding n_def by (intro alignUp8) (auto simp: no_wrap_def)
  have room: "unat (bump b) + round8 (unat sz) < 2 ^ 64" "unat (nodeBump b) + 40 < 2 ^ 64"
    using nw round8_bounds [of "unat sz"] by (auto simp: no_wrap_def)
  have le: "round8 (unat sz) \<le> unat s \<longleftrightarrow> n \<le> s" for s :: uintptr
    using n by (simp add: word_le_nat_alt)
  note bump = spec_bump_sim [OF rel n room, of m bucket]
  have "alloc_sim (balloc_Alloc poly b sz m tid cid) (spec_Alloc A sz m) bucket"
  proof (cases "sp_free A")
    case Nil
    with popFree_rel [OF rel, of n] have "popFree (slots b) (freeList b) n = Some (slots b, freeList b, None)"
      by simp
    with bump bucket(1) sz op Nil show ?thesis
      by (simp add: balloc_Alloc_def spec_Alloc_def Let_def same_lists flip: n_def split del: if_split cong: if_cong)
  next
    case (Cons h fs)
    obtain a s where h: "h = (a, s)" by (cases h)
    show ?thesis
    proof (cases "n \<le> s")
      case True
      with popFree_rel [OF rel, of n] Cons h obtain nx ys where
        P: "popFree (slots b) (freeList b) n = Some (slots b, nx, Some (a, s))"
          "balloc_rel (b\<lparr>freeList := nx\<rparr>) (A\<lparr>sp_free := fs\<rparr>) t ys"
        by auto
      have "alloc_sim (alloc_node (b\<lparr>freeList := nx\<rparr>) a s m bucket) (spec_node (A\<lparr>sp_free := fs\<rparr>) a s m) bucket"
        using P(2) by (rule alloc_node_sim) (use room in simp)
      with P(1) bucket(1) sz op Cons h True le show ?thesis
        by (simp add: balloc_Alloc_def spec_Alloc_def Let_def same_lists flip: n_def)
    next
      case False
      with popFree_rel [OF rel, of n] Cons h have
        "popFree (slots b) (freeList b) n = Some (slots b, freeList b, None)"
        by simp
      with bump bucket(1) sz op Cons h False le show ?thesis
        by (simp add: balloc_Alloc_def spec_Alloc_def Let_def same_lists flip: n_def split del: if_split cong: if_cong)
    qed
  qed
  with bucket show ?thesis by blast
qed

lemma find_rel:
  assumes "balloc_rel b A t xs"
  obtains "findNode (nodes b) (MemTree b) addr = Some 0" "sp_blocks A addr = None"
  | q n where "findNode (nodes b) (MemTree b) addr = Some q" "q \<noteq> 0" "q \<in> set_tree t"
      "nodes b q = Some n" "Addr n = addr" "sp_blocks A addr = Some (Size n, OwnerMask n)"
proof -
  have T: "mem_tree (nodes b) (MemTree b) t" and M: "tmap (nodes b) (MemTree b) = sp_blocks A"
    using assms by (auto simp: balloc_rel_def)
  show ?thesis
  proof (cases rule: findNode_total [OF T, of addr])
    case 1
    then have "tmap (nodes b) (MemTree b) addr = None"
      by (simp add: tmap_def)
    with 1 M that(1) show ?thesis by simp
  next
    case (2 q n)
    then have "tmap (nodes b) (MemTree b) addr = Some (Size n, OwnerMask n)"
      by (simp add: tmap_def)
    with 2 M that(2) show ?thesis by simp
  qed
qed

lemma rel_owners:
  assumes rel: "balloc_rel b A t xs" and q: "q \<in> set_tree t" "nodes b q = Some n"
  shows "balloc_rel (b\<lparr>nodes := (nodes b)(q \<mapsto> n\<lparr>OwnerMask := m\<rparr>)\<rparr>)
           (A\<lparr>sp_blocks := (sp_blocks A)(Addr n \<mapsto> (Size n, m))\<rparr>) t xs"
proof -
  have T: "mem_tree (nodes b) (MemTree b) t"
    using rel by (simp add: balloc_rel_def)
  note U = tmap_update_data [OF T q, of "n\<lparr>OwnerMask := m\<rparr>"]
  show ?thesis
    using rel U by (simp add: balloc_rel_def counters_def)
qed

lemma open_mapped: "balloc_rel b A t xs \<Longrightarrow> closed b = 0 \<Longrightarrow> mapping b \<noteq> None"
  by (simp add: balloc_rel_def layout_def)

lemma balloc_Share_sim:
  assumes ref: "balloc_refines b A" and op: "closed b = 0"
  shows "balloc_refines (fst (balloc_Share b addr m)) (fst (spec_Share A addr m)) \<and>
         snd (balloc_Share b addr m) = snd (spec_Share A addr m)"
proof -
  from ref obtain t xs where rel: "balloc_rel b A t xs"
    by (auto simp: balloc_refines_def)
  note mapped = open_mapped [OF rel op]
  show ?thesis
  proof (cases rule: find_rel [OF rel, of addr])
    case 1
    with mapped rel show ?thesis
      by (auto simp: balloc_Share_def spec_Share_def balloc_refines_def)
  next
    case (2 q n)
    with mapped rel_owners [OF rel 2(3,4), of "OwnerMask n OR normalizeMask m"] show ?thesis
      by (auto simp: balloc_Share_def spec_Share_def balloc_refines_def)
  qed
qed

lemma rel_free_slot:
  assumes rel: "balloc_rel b A t xs" and nw: "unat (nodeBump b) + 24 < 2 ^ 64"
    and room: "\<not> meta_limit < sp_meta A + 24"
  shows "balloc_rel
      (b\<lparr>nodeBump := nodeBump b + 24,
         slots := (slots b)(nodeBump b \<mapsto> \<lparr>slot_addr = a, slot_size = s, slot_next = freeList b\<rparr>),
         freeList := nodeBump b, activeBlocks := activeBlocks b + NOT 0\<rparr>)
      (A\<lparr>sp_meta := sp_meta A + 24, sp_free := (a, s) # sp_free A, sp_active := sp_active A - 1\<rparr>)
      t (nodeBump b # xs)"
proof -
  let ?raw = "nodeBump b"
  have L: "layout b" and C: "counters b A"
    and F: "list_at (slots b) (freeList b) xs" "map (slot_entry (slots b)) xs = sp_free A"
    and K: "cells_ok (unat (nodeBase b)) (unat (nodeBase b) + min (sp_meta A) meta_limit) (cells t xs)"
    using rel by (auto simp: balloc_rel_def)
  have raw: "unat ?raw = unat (nodeBase b) + sp_meta A" "unat (nodeBase b) \<noteq> 0"
    using L C by (auto simp: counters_def layout_def unat_eq_0)
  then have nz: "?raw \<noteq> 0"
    by (auto simp: unat_eq_0 [symmetric])
  have "(?raw, 24) \<notin> cells t xs"
    using K by (rule cells_ok_fresh) (use raw room in auto)
  then have fresh: "?raw \<notin> set xs"
    by (auto simp: cells_def)
  let ?sl = "(slots b)(?raw \<mapsto> \<lparr>slot_addr = a, slot_size = s, slot_next = freeList b\<rparr>)"
  have "list_at ?sl (freeList b) xs"
    using F(1) by (rule list_at_frame) (use fresh in auto)
  then have F1: "list_at ?sl ?raw (?raw # xs)"
    using nz by simp
  have "map (slot_entry ?sl) xs = map (slot_entry (slots b)) xs"
    using fresh by (intro map_cong) (auto simp: slot_entry_def)
  then have F2: "map (slot_entry ?sl) (?raw # xs) = (a, s) # sp_free A"
    using F(2) by (simp add: slot_entry_def)
  have "cells_ok (unat (nodeBase b)) (unat (nodeBase b) + min (sp_meta A + 24) meta_limit)
      (insert (?raw, 24) (cells t xs))"
    using K by (rule cells_ok_insert) (use raw room in auto)
  moreover have "cells t (?raw # xs) = insert (?raw, 24) (cells t xs)"
    by (auto simp: cells_def)
  ultimately show ?thesis
    using rel F1 F2 node_room(2) [OF L C, of 24 24] nw
    by (simp add: balloc_rel_def counters_def del: list_at.simps)
qed

lemma balloc_Free_sim:
  assumes ref: "balloc_refines b A" and op: "closed b = 0" and nw: "unat (nodeBump b) + 24 < 2 ^ 64"
  shows "balloc_refines (fst (balloc_FreeVarying b addr m)) (fst (spec_Free A addr m)) \<and>
         snd (balloc_FreeVarying b addr m) = snd (spec_Free A addr m)"
proof -
  from ref obtain t xs where rel: "balloc_rel b A t xs"
    by (auto simp: balloc_refines_def)
  note mapped = open_mapped [OF rel op]
  show ?thesis
  proof (cases rule: find_rel [OF rel, of addr])
    case 1
    with mapped rel show ?thesis
      by (auto simp: balloc_FreeVarying_def spec_Free_def balloc_refines_def)
  next
    case (2 q n)
    let ?m = "OwnerMask n AND NOT m"
    let ?b = "b\<lparr>nodes := (nodes b)(q \<mapsto> n\<lparr>OwnerMask := ?m\<rparr>)\<rparr>"
    let ?A = "A\<lparr>sp_blocks := (sp_blocks A)(Addr n \<mapsto> (Size n, ?m))\<rparr>"
    have rel1: "balloc_rel ?b ?A t xs"
      using rel 2(3,4) by (rule rel_owners)
    then have L: "layout b" "counters b ?A"
      by (auto simp: balloc_rel_def counters_def)
    have room: "nodeEnd b < nodeBump b + 24 \<longleftrightarrow> meta_limit < sp_meta A + 24"
      using node_room(1) [OF L, of 24 24] nw by simp
    have full: "balloc_rel (?b\<lparr>nodeBump := nodeBump b + 24\<rparr>) (?A\<lparr>sp_meta := sp_meta A + 24\<rparr>) t xs"
      using rel_nodeBump [OF rel1, of 24] nw by simp
    consider "?m \<noteq> 0" | "?m = 0" "meta_limit < sp_meta A + 24" | "?m = 0" "\<not> meta_limit < sp_meta A + 24"
      by blast
    then show ?thesis
    proof cases
      case 1
      with 2 mapped rel1 show ?thesis
        by (auto simp: balloc_FreeVarying_def spec_Free_def balloc_refines_def clearOwner_def Let_def)
    next
      case 3
      with 2 mapped rel_free_slot [OF rel1, of addr "Size n"] room nw show ?thesis
        by (auto simp: balloc_FreeVarying_def spec_Free_def balloc_refines_def clearOwner_def Let_def
            newFreeSlot_def sizeof_freeSlot_def pushFree_def)
    next
      case F: 2
      with 2 mapped full room show ?thesis
        by (auto simp: balloc_FreeVarying_def spec_Free_def balloc_refines_def clearOwner_def Let_def
            newFreeSlot_def sizeof_freeSlot_def)
    qed
  qed
qed

lemma balloc_Reset_sim:
  assumes ref: "balloc_refines b A" and op: "closed b = 0"
  shows "balloc_refines (fst (balloc_Reset b)) (spec_Reset A) \<and> snd (balloc_Reset b) = Ok ()"
proof -
  from ref obtain t xs where rel: "balloc_rel b A t xs"
    by (auto simp: balloc_refines_def)
  have "balloc_rel (fst (balloc_Reset b)) (spec_Reset A) Leaf []"
    using rel op by (simp add: balloc_Reset_def spec_Reset_def balloc_rel_def counters_def cells_def cells_ok_def)
  then show ?thesis
    using op by (auto simp: balloc_refines_def balloc_Reset_def)
qed

end
