(* ===== verification/Balloc_Inv.thy ===== *)
theory Balloc_Inv
  imports Balloc_Spec
begin

text \<open>
  The invariant of the block allocator. It is stated on the abstract machine (\<open>spec_inv\<close>): blocks
  lie in the payload area below the bump pointer, are aligned and do not overlap; the free list
  holds each address once, with the size of its block, and only blocks without owners; the counter
  of active blocks is never below the number of blocks with owners. Every operation keeps it when
  \<open>Share\<close> and \<open>FreeVarying\<close> are called on blocks that have owners; through the simulation
  lemmas of Balloc_Spec it becomes an invariant of the code (\<open>balloc_inv\<close>).
\<close>

section \<open>The invariant of the abstract machine\<close>

definition live :: "heap_spec \<Rightarrow> uintptr set" where
  "live A = {a. owners_at (sp_blocks A) a \<noteq> 0}"

text \<open>Blocks between a base, a bump pointer and a limit: in range, aligned, pairwise apart.\<close>

definition geometry :: "nat \<Rightarrow> nat \<Rightarrow> nat \<Rightarrow> (uintptr \<rightharpoonup> uintptr \<times> u64) \<Rightarrow> bool" where
  "geometry base brk limit B \<longleftrightarrow>
     finite (dom B) \<and>
     (\<forall>a s w. B a = Some (s, w) \<longrightarrow>
        base \<le> unat a \<and> 0 < unat s \<and> unat a + unat s \<le> brk \<and>
        unat a + unat s \<le> limit \<and> 8 dvd unat a \<and> 8 dvd unat s) \<and>
     (\<forall>a s w a' s' w'. B a = Some (s, w) \<longrightarrow> B a' = Some (s', w') \<longrightarrow> a \<noteq> a' \<longrightarrow>
        apart a (unat s) a' (unat s'))"

definition blocks_ok :: "heap_spec \<Rightarrow> bool" where
  "blocks_ok A \<longleftrightarrow> geometry (sp_base A) (sp_bump A) (sp_limit A) (sp_blocks A)"

definition free_ok :: "heap_spec \<Rightarrow> bool" where
  "free_ok A \<longleftrightarrow>
     distinct (map fst (sp_free A)) \<and>
     (\<forall>a s. (a, s) \<in> set (sp_free A) \<longrightarrow> sp_blocks A a = Some (s, 0))"

definition active_ok :: "heap_spec \<Rightarrow> bool" where
  "active_ok A \<longleftrightarrow>
     card (live A) \<le> unat (sp_active A) \<and> unat (sp_active A) * 40 \<le> min (sp_meta A) meta_limit"

definition spec_inv :: "heap_spec \<Rightarrow> bool" where
  "spec_inv A \<longleftrightarrow>
     sp_base A \<le> sp_bump A \<and> 8 dvd sp_bump A \<and> 8 dvd sp_base A \<and> sp_limit A < 2 ^ 64 \<and>
     blocks_ok A \<and> free_ok A \<and> active_ok A"

lemma normalizeMask_nonzero [simp]: "normalizeMask m \<noteq> 0"
  by (simp add: normalizeMask_def)

lemma live_iff: "a \<in> live A \<longleftrightarrow> (\<exists>s w. sp_blocks A a = Some (s, w) \<and> w \<noteq> 0)"
  by (auto simp: live_def owners_at_def split: option.splits)

lemma finite_live: "blocks_ok A \<Longrightarrow> finite (live A)"
  by (rule finite_subset [of _ "dom (sp_blocks A)"]) (auto simp: blocks_ok_def geometry_def live_iff)

lemma live_upd:
  "live (A\<lparr>sp_blocks := (sp_blocks A)(a \<mapsto> (s, w))\<rparr>) = (if w = 0 then live A - {a} else insert a (live A))"
  by (auto simp: live_def owners_at_def)

lemma live_simps [simp]:
  "live (A\<lparr>sp_free := x1\<rparr>) = live A"
  "live (A\<lparr>sp_bump := x2\<rparr>) = live A"
  "live (A\<lparr>sp_meta := x3\<rparr>) = live A"
  "live (A\<lparr>sp_active := x4\<rparr>) = live A"
  by (simp_all add: live_def)

lemma blocks_ok_simps [simp]:
  "blocks_ok (A\<lparr>sp_free := x1\<rparr>) = blocks_ok A"
  "blocks_ok (A\<lparr>sp_meta := x3\<rparr>) = blocks_ok A"
  "blocks_ok (A\<lparr>sp_active := x4\<rparr>) = blocks_ok A"
  by (simp_all add: blocks_ok_def)

lemma free_ok_simps [simp]:
  "free_ok (A\<lparr>sp_bump := x2\<rparr>) = free_ok A"
  "free_ok (A\<lparr>sp_meta := x3\<rparr>) = free_ok A"
  "free_ok (A\<lparr>sp_active := x4\<rparr>) = free_ok A"
  by (simp_all add: free_ok_def)

lemma geometryD:
  assumes "geometry base brk limit B" "B a = Some (s, w)"
  shows "base \<le> unat a" "0 < unat s" "unat a + unat s \<le> brk" "unat a + unat s \<le> limit"
    "8 dvd unat a" "8 dvd unat s"
  using assms unfolding geometry_def by blast+

lemma geometry_apart:
  assumes "geometry base brk limit B" "B a = Some (s, w)" "B a' = Some (s', w')" "a \<noteq> a'"
  shows "apart a (unat s) a' (unat s')"
  using assms unfolding geometry_def by blast

lemma geometry_top: "geometry base brk limit B \<Longrightarrow> brk \<le> brk' \<Longrightarrow> geometry base brk' limit B"
  unfolding geometry_def by (meson order.trans)

text \<open>Changing the owners of a block keeps the geometry.\<close>

lemma geometry_owners:
  assumes "geometry base brk limit B" "B a = Some (s, w)"
  shows "geometry base brk limit (B(a \<mapsto> (s, w')))"
proof -
  let ?B = "B(a \<mapsto> (s, w'))"
  have old: "\<exists>w. B x = Some (u, w)" if "?B x = Some (u, v)" for x u v
    using that assms(2) by (auto split: if_splits)
  have geo: "base \<le> unat x \<and> 0 < unat u \<and> unat x + unat u \<le> brk \<and>
        unat x + unat u \<le> limit \<and> 8 dvd unat x \<and> 8 dvd unat u" if "?B x = Some (u, v)" for x u v
    using old [OF that] assms(1) unfolding geometry_def by blast
  have ap: "apart x (unat u) x' (unat u')" if "?B x = Some (u, v)" "?B x' = Some (u', v')" "x \<noteq> x'"
    for x u v x' u' v'
    using old [OF that(1)] old [OF that(2)] that(3) assms(1) unfolding geometry_def by blast
  have fin: "finite (dom ?B)"
    using assms(1) by (simp add: geometry_def)
  show ?thesis
    unfolding geometry_def using fin geo ap by blast
qed

text \<open>A block cut off at the bump pointer meets no other block.\<close>

lemma geometry_new:
  assumes ok: "geometry base brk limit B" and base: "base \<le> brk" and al: "8 dvd brk" "8 dvd k"
    and k: "0 < k" "brk + k \<le> limit" and u: "unat a = brk" "unat s = k"
  shows "B a = None" and "geometry base (brk + k) limit (B(a \<mapsto> (s, w)))"
proof -
  note geo = geometryD [OF ok]
  show "B a = None"
  proof (rule ccontr)
    assume "B a \<noteq> None"
    then obtain y v where "B a = Some (y, v)" by auto
    from geo(2,3) [OF this] u show False by simp
  qed
  let ?B = "B(a \<mapsto> (s, w))"
  have cases: "x = a \<and> y = s \<or> B x = Some (y, v) \<and> x \<noteq> a" if "?B x = Some (y, v)" for x y v
    using that by (auto split: if_splits)
  have g: "base \<le> unat x \<and> 0 < unat y \<and> unat x + unat y \<le> brk + k \<and>
      unat x + unat y \<le> limit \<and> 8 dvd unat x \<and> 8 dvd unat y" if "?B x = Some (y, v)" for x y v
    using cases [OF that]
  proof
    assume "x = a \<and> y = s"
    with u base al k show ?thesis by simp
  next
    assume "B x = Some (y, v) \<and> x \<noteq> a"
    with geo [of x y v] show ?thesis by auto
  qed
  have side: "apart x (unat y) a (unat s) \<and> apart a (unat s) x (unat y)" if "B x = Some (y, v)" for x y v
    using geo(3) [OF that] u by (auto simp: apart_def)
  have p: "apart x (unat y) x' (unat y')" if "?B x = Some (y, v)" "?B x' = Some (y', v')" "x \<noteq> x'"
    for x y v x' y' v'
    using cases [OF that(1)] cases [OF that(2)]
  proof (elim disjE)
    assume "B x = Some (y, v) \<and> x \<noteq> a" "B x' = Some (y', v') \<and> x' \<noteq> a"
    with ok that(3) show ?thesis
      by (blast intro: geometry_apart)
  qed (use side that(3) in blast)+
  have fin: "finite (dom ?B)"
    using ok by (simp add: geometry_def)
  show "geometry base (brk + k) limit ?B"
    unfolding geometry_def using fin g p by blast
qed

section \<open>Allocation keeps the invariant\<close>

lemma active_ok_meta: "active_ok A \<Longrightarrow> sp_meta A \<le> n \<Longrightarrow> active_ok (A\<lparr>sp_meta := n\<rparr>)"
  by (auto simp: active_ok_def)

lemma active_ok_simps [simp]:
  "active_ok (A\<lparr>sp_free := x1\<rparr>) = active_ok A"
  "active_ok (A\<lparr>sp_bump := x2\<rparr>) = active_ok A"
  by (simp_all add: active_ok_def)

text \<open>Counting one more block: the room in the node area bounds the counter, so it cannot wrap.\<close>

lemma active_ok_node:
  assumes "active_ok A" "\<not> meta_limit < sp_meta A + 40" "finite (live A)" "w \<noteq> 0"
  shows "active_ok (A\<lparr>sp_meta := sp_meta A + 40, sp_blocks := (sp_blocks A)(a \<mapsto> (s, w)),
                     sp_active := sp_active A + 1\<rparr>)"
proof -
  have "unat (sp_active A) * 40 \<le> meta_limit"
    using assms(1) by (simp add: active_ok_def)
  then have "unat (sp_active A + 1) = unat (sp_active A) + 1"
    by (subst unat_add_u64) (auto simp: meta_limit_def)
  moreover have "card (insert a (live A)) \<le> card (live A) + 1"
    using assms(3) by (simp add: card_insert_if)
  moreover have "live (A\<lparr>sp_meta := sp_meta A + 40, sp_blocks := (sp_blocks A)(a \<mapsto> (s, w)),
                     sp_active := sp_active A + 1\<rparr>) = insert a (live A)"
    using assms(4) by (auto simp: live_def owners_at_def)
  ultimately show ?thesis
    using assms(1,2) by (simp add: active_ok_def)
qed

lemma free_ok_tl:
  assumes "free_ok A" "sp_free A = (a, s) # fs"
  shows "free_ok (A\<lparr>sp_free := fs, sp_blocks := (sp_blocks A)(a \<mapsto> d)\<rparr>)" "free_ok (A\<lparr>sp_free := fs\<rparr>)"
  using assms by (force simp: free_ok_def)+

lemma free_ok_upd:
  assumes "free_ok A" "sp_blocks A a = None \<or> owners_at (sp_blocks A) a \<noteq> 0"
  shows "free_ok (A\<lparr>sp_blocks := (sp_blocks A)(a \<mapsto> d)\<rparr>)"
proof -
  have "a \<noteq> x" if "(x, y) \<in> set (sp_free A)" for x y
    using assms that by (auto simp: free_ok_def owners_at_def)
  then show ?thesis
    using assms(1) by (auto simp: free_ok_def)
qed

text \<open>
  What a successful allocation gives: a block at least as large as asked for, owned by exactly the
  requested owners, that meets no block with owners; every other block is untouched.
\<close>

definition alloc_post :: "heap_spec \<Rightarrow> heap_spec \<Rightarrow> uintptr \<Rightarrow> uintptr \<Rightarrow> u64 \<Rightarrow> bool" where
  "alloc_post A A' a sz m \<longleftrightarrow>
     (\<exists>s. sp_blocks A' a = Some (s, normalizeMask m) \<and> unat sz \<le> unat s) \<and>
     a \<notin> live A \<and> live A' = insert a (live A) \<and> sp_base A' = sp_base A \<and> sp_limit A' = sp_limit A \<and>
     (\<forall>x. x \<noteq> a \<longrightarrow> sp_blocks A' x = sp_blocks A x)"

lemma spec_reuse_inv:
  assumes inv: "spec_inv A" and F: "sp_free A = (a, s) # fs" and sz: "unat sz \<le> unat s"
    and eq: "spec_node (A\<lparr>sp_free := fs\<rparr>) a s m = (A', r)"
  shows "spec_inv A'" and "r = Ok a' \<Longrightarrow> a' = a \<and> alloc_post A A' a sz m"
proof -
  have B: "sp_blocks A a = Some (s, 0)"
    using inv F by (auto simp: spec_inv_def free_ok_def)
  have G: "blocks_ok A" "free_ok A" "active_ok A"
    using inv by (auto simp: spec_inv_def)
  have o: "owners_at (sp_blocks A) a = 0"
    using B by (simp add: owners_at_def)
  have "spec_inv A' \<and> (r = Ok a' \<longrightarrow> a' = a \<and> alloc_post A A' a sz m)"
  proof (cases "meta_limit < sp_meta A + 40")
    case True
    with eq have "A' = A\<lparr>sp_free := fs, sp_meta := sp_meta A + 40\<rparr>" "r = Err Balloc_ErrOutOfMemory"
      by (auto simp: spec_node_def)
    with inv G free_ok_tl(2) [OF G(2) F] show ?thesis
      by (simp add: spec_inv_def active_ok_meta)
  next
    case False
    let ?A' = "A\<lparr>sp_free := fs, sp_meta := sp_meta A + 40,
        sp_blocks := (sp_blocks A)(a \<mapsto> (s, normalizeMask m)), sp_active := sp_active A + 1\<rparr>"
    have A': "A' = ?A'" "r = Ok a"
      using eq False o by (auto simp: spec_node_def)
    have "geometry (sp_base A) (sp_bump A) (sp_limit A) ((sp_blocks A)(a \<mapsto> (s, normalizeMask m)))"
      using G(1) B by (auto simp: blocks_ok_def intro: geometry_owners)
    moreover have "active_ok ?A'"
      using active_ok_node [of "A\<lparr>sp_free := fs\<rparr>" "normalizeMask m" a s] G False finite_live [OF G(1)]
      by simp
    moreover have "free_ok ?A'"
      using free_ok_tl(1) [OF G(2) F, of "(s, normalizeMask m)"] by (simp add: free_ok_def)
    ultimately have "spec_inv A'"
      using inv by (simp add: A' spec_inv_def blocks_ok_def)
    moreover have "alloc_post A A' a sz m"
      using sz o by (auto simp: A' alloc_post_def live_def owners_at_def)
    ultimately show ?thesis
      using A'(2) by auto
  qed
  then show "spec_inv A'" and "r = Ok a' \<Longrightarrow> a' = a \<and> alloc_post A A' a sz m"
    by blast+
qed

lemma spec_bump_inv:
  assumes inv: "spec_inv A" and k: "0 < k" "8 dvd k" "unat sz \<le> k" and eq: "spec_bump A k m = (A', r)"
  shows "spec_inv A'" and "r = Ok a' \<Longrightarrow> alloc_post A A' a' sz m"
proof -
  have G: "blocks_ok A" "free_ok A" "active_ok A"
    using inv by (auto simp: spec_inv_def)
  have geo: "geometry (sp_base A) (sp_bump A + k) (sp_limit A) (sp_blocks A)"
    using G(1) by (auto simp: blocks_ok_def intro: geometry_top)
  have "spec_inv A' \<and> (r = Ok a' \<longrightarrow> alloc_post A A' a' sz m)"
  proof (cases "sp_limit A < sp_bump A + k \<or> meta_limit < sp_meta A + 40")
    case True
    then have "\<exists>n \<ge> sp_meta A. A' = A\<lparr>sp_bump := sp_bump A + k, sp_meta := n\<rparr> \<and> r = Err Balloc_ErrOutOfMemory"
      using eq by (auto simp: spec_bump_def spec_node_def Let_def split: if_splits
          intro: exI [of _ "sp_meta A"] exI [of _ "sp_meta A + 40"])
    with inv G geo k show ?thesis
      by (auto simp: spec_inv_def blocks_ok_def active_ok_meta)
  next
    case False
    define a where "a = (of_nat (sp_bump A) :: uintptr)"
    define s where "s = (of_nat k :: uintptr)"
    have lim: "sp_bump A + k \<le> sp_limit A" "sp_limit A < 2 ^ 64"
      using False inv by (auto simp: spec_inv_def)
    have u: "unat a = sp_bump A" "unat s = k"
      using lim k by (simp_all add: a_def s_def unat_of_nat)
    have base: "sp_base A \<le> sp_bump A" "8 dvd sp_bump A"
      using inv by (auto simp: spec_inv_def)
    note new = geometry_new [OF G(1) [unfolded blocks_ok_def] base k(2,1) lim(1) u]
    have o: "owners_at (sp_blocks A) a = 0"
      using new(1) by (simp add: owners_at_def)
    let ?A' = "A\<lparr>sp_bump := sp_bump A + k, sp_meta := sp_meta A + 40,
        sp_blocks := (sp_blocks A)(a \<mapsto> (s, normalizeMask m)), sp_active := sp_active A + 1\<rparr>"
    have A': "A' = ?A'" "r = Ok a"
      using eq False o by (auto simp: spec_bump_def spec_node_def Let_def a_def s_def)
    have "active_ok ?A'"
      using active_ok_node [of "A\<lparr>sp_bump := sp_bump A + k\<rparr>" "normalizeMask m" a s] G False finite_live [OF G(1)]
      by simp
    moreover have "free_ok ?A'"
      using free_ok_upd [OF G(2), of a "(s, normalizeMask m)"] new(1) by (simp add: free_ok_def)
    ultimately have "spec_inv A'"
      using inv new(2) k(2) by (simp add: A' spec_inv_def blocks_ok_def)
    moreover have "alloc_post A A' a sz m"
      using k(3) u o by (auto simp: A' alloc_post_def live_def owners_at_def)
    ultimately show ?thesis
      using A'(2) by auto
  qed
  then show "spec_inv A'" and "r = Ok a' \<Longrightarrow> alloc_post A A' a' sz m"
    by blast+
qed

lemma spec_Alloc_inv:
  assumes inv: "spec_inv A" and sz: "0 < unat sz" and eq: "spec_Alloc A sz m = (A', r)"
  shows "spec_inv A'" and "r = Ok a \<Longrightarrow> alloc_post A A' a sz m"
proof -
  have k: "0 < round8 (unat sz)" "8 dvd round8 (unat sz)" "unat sz \<le> round8 (unat sz)"
    using round8_bounds [of "unat sz"] sz by auto
  note bump = spec_bump_inv [OF inv k, of m A' r]
  have "spec_inv A' \<and> (r = Ok a \<longrightarrow> alloc_post A A' a sz m)"
  proof (cases "\<exists>a0 s fs. sp_free A = (a0, s) # fs \<and> round8 (unat sz) \<le> unat s")
    case True
    then obtain a0 s fs where F: "sp_free A = (a0, s) # fs" "round8 (unat sz) \<le> unat s" by blast
    with eq have "spec_node (A\<lparr>sp_free := fs\<rparr>) a0 s m = (A', r)"
      by (simp add: spec_Alloc_def)
    moreover have "unat sz \<le> unat s"
      using k(3) F(2) by simp
    ultimately show ?thesis
      using spec_reuse_inv [OF inv F(1)] by blast
  next
    case False
    with eq have "spec_bump A (round8 (unat sz)) m = (A', r)"
      by (auto simp: spec_Alloc_def Let_def split: list.splits if_splits)
    with bump show ?thesis by blast
  qed
  then show "spec_inv A'" and "r = Ok a \<Longrightarrow> alloc_post A A' a sz m"
    by blast+
qed

section \<open>Sharing, freeing and resetting keep the invariant\<close>

lemma card_live_minus: "blocks_ok A \<Longrightarrow> a \<in> live A \<Longrightarrow> card (live A - {a}) = card (live A) - 1"
  by (simp add: finite_live)

lemma spec_Share_inv:
  assumes inv: "spec_inv A" and lv: "a \<in> live A"
  shows "spec_inv (fst (spec_Share A a m))"
    and "live (fst (spec_Share A a m)) = live A" and "snd (spec_Share A a m) = Ok ()"
proof -
  from lv obtain s w where B: "sp_blocks A a = Some (s, w)" "w \<noteq> 0"
    by (auto simp: live_iff)
  let ?A' = "A\<lparr>sp_blocks := (sp_blocks A)(a \<mapsto> (s, w OR normalizeMask m))\<rparr>"
  have S: "spec_Share A a m = (?A', Ok ())"
    using B by (simp add: spec_Share_def)
  have "w OR normalizeMask m \<noteq> 0"
    by (simp add: or_eq_0_iff)
  then have L: "live ?A' = live A"
    using lv by (auto simp: live_upd)
  have G: "blocks_ok A" "free_ok A" "active_ok A"
    using inv by (auto simp: spec_inv_def)
  have "geometry (sp_base A) (sp_bump A) (sp_limit A) ((sp_blocks A)(a \<mapsto> (s, w OR normalizeMask m)))"
    using G(1) B(1) by (auto simp: blocks_ok_def intro: geometry_owners)
  moreover have "free_ok ?A'"
    using G(2) by (rule free_ok_upd) (use B in \<open>simp add: owners_at_def\<close>)
  moreover have "active_ok ?A'"
    using G(3) L by (simp add: active_ok_def)
  ultimately show "spec_inv (fst (spec_Share A a m))"
    using inv by (simp add: S spec_inv_def blocks_ok_def)
  show "live (fst (spec_Share A a m)) = live A" "snd (spec_Share A a m) = Ok ()"
    using L by (simp_all add: S)
qed

lemma spec_Free_inv:
  assumes inv: "spec_inv A" and lv: "a \<in> live A"
  shows "spec_inv (fst (spec_Free A a m))"
proof -
  from lv obtain s w where B: "sp_blocks A a = Some (s, w)" "w \<noteq> 0"
    by (auto simp: live_iff)
  let ?w = "w AND NOT m"
  let ?A1 = "A\<lparr>sp_blocks := (sp_blocks A)(a \<mapsto> (s, ?w))\<rparr>"
  have G: "blocks_ok A" "free_ok A" "active_ok A"
    using inv by (auto simp: spec_inv_def)
  have geo: "geometry (sp_base A) (sp_bump A) (sp_limit A) ((sp_blocks A)(a \<mapsto> (s, ?w)))"
    using G(1) B(1) by (auto simp: blocks_ok_def intro: geometry_owners)
  have fr: "free_ok ?A1"
    using G(2) by (rule free_ok_upd) (use B in \<open>simp add: owners_at_def\<close>)
  have cardL: "card (live ?A1) \<le> card (live A)"
    using lv finite_live [OF G(1)] by (auto simp: live_upd insert_absorb card_Diff_subset)
  then have ac: "active_ok ?A1"
    using G(3) by (simp add: active_ok_def)
  consider "?w \<noteq> 0" | "?w = 0" "meta_limit < sp_meta A + 24" | "?w = 0" "\<not> meta_limit < sp_meta A + 24"
    by blast
  then show ?thesis
  proof cases
    case 1
    with B geo fr ac inv show ?thesis
      by (simp add: spec_Free_def spec_inv_def blocks_ok_def)
  next
    case 2
    with B geo fr active_ok_meta [OF ac, of "sp_meta A + 24"] inv show ?thesis
      by (simp add: spec_Free_def spec_inv_def blocks_ok_def)
  next
    case 3
    let ?A2 = "?A1\<lparr>sp_meta := sp_meta A + 24, sp_free := (a, s) # sp_free A, sp_active := sp_active A - 1\<rparr>"
    have "a \<notin> fst ` set (sp_free A)"
      using G(2) B by (auto simp: free_ok_def)
    then have "free_ok ?A2"
      using fr 3(1) by (auto simp: free_ok_def)
    moreover have "active_ok ?A2"
    proof -
      have "0 < card (live A)"
        using lv finite_live [OF G(1)] by (auto simp: card_gt_0_iff)
      with G(3) have "unat (1 :: u64) \<le> unat (sp_active A)"
        by (simp add: active_ok_def)
      then have "unat (sp_active A - 1) = unat (sp_active A) - 1"
        by (subst unat_sub_u64) auto
      moreover have "live ?A2 = live A - {a}"
        using 3(1) by (auto simp: live_def owners_at_def)
      moreover have "card (live A) - 1 \<le> unat (sp_active A) - 1"
        "(unat (sp_active A) - 1) * 40 \<le> min (sp_meta A + 24) meta_limit"
        using G(3) by (auto simp: active_ok_def)
      ultimately show ?thesis
        using card_live_minus [OF G(1) lv] by (simp only: active_ok_def) simp
    qed
    ultimately show ?thesis
      using B 3 geo inv by (simp add: spec_Free_def spec_inv_def blocks_ok_def)
  qed
qed

lemma spec_Reset_inv: "spec_inv A \<Longrightarrow> spec_inv (spec_Reset A)"
  by (simp add: spec_Reset_def spec_inv_def blocks_ok_def geometry_def free_ok_def active_ok_def
      live_def owners_at_def)

section \<open>The invariant of the code\<close>

definition balloc_blocks :: "BlockAllocator \<Rightarrow> uintptr \<rightharpoonup> uintptr \<times> u64" where
  "balloc_blocks b = tmap (nodes b) (MemTree b)"

text \<open>The block at an address has an owner.\<close>

definition owned :: "BlockAllocator \<Rightarrow> uintptr \<Rightarrow> bool" where
  "owned b a \<longleftrightarrow> owners_at (balloc_blocks b) a \<noteq> 0"

definition balloc_inv :: "BlockAllocator \<Rightarrow> bool" where
  "balloc_inv b \<longleftrightarrow> (\<exists>A. balloc_refines b A \<and> spec_inv A)"

lemma refines_blocks: "balloc_refines b A \<Longrightarrow> balloc_blocks b = sp_blocks A"
  by (auto simp: balloc_refines_def balloc_rel_def balloc_blocks_def)

lemma refines_owned: "balloc_refines b A \<Longrightarrow> owned b a \<longleftrightarrow> a \<in> live A"
  by (simp add: refines_blocks owned_def live_def)

lemma refines_fields:
  assumes "balloc_refines b A"
  shows "layout b" "unat (bump b) = sp_bump A" "unat (nodeBump b) = unat (nodeBase b) + sp_meta A"
    "activeBlocks b = sp_active A" "unat (payloadBase b) = sp_base A" "unat (payloadEnd b) = sp_limit A"
  using assms by (auto simp: balloc_refines_def balloc_rel_def counters_def)

text \<open>Where the blocks are, from the invariant.\<close>

lemma balloc_inv_block:
  assumes "balloc_inv b" "balloc_blocks b a = Some (s, w)"
  shows "unat (payloadBase b) \<le> unat a" "0 < unat s" "unat a + unat s \<le> unat (payloadEnd b)"
    "8 dvd unat a" "8 dvd unat s"
proof -
  from assms(1) obtain A where A: "balloc_refines b A" "spec_inv A"
    by (auto simp: balloc_inv_def)
  have "geometry (sp_base A) (sp_bump A) (sp_limit A) (sp_blocks A)"
    using A(2) by (simp add: spec_inv_def blocks_ok_def)
  from geometryD [OF this, of a s w] assms(2) refines_blocks [OF A(1)] refines_fields [OF A(1)]
  show "unat (payloadBase b) \<le> unat a" "0 < unat s" "unat a + unat s \<le> unat (payloadEnd b)"
    "8 dvd unat a" "8 dvd unat s"
    by auto
qed

lemma balloc_inv_apart:
  assumes "balloc_inv b" "balloc_blocks b a = Some (s, w)" "balloc_blocks b a' = Some (s', w')" "a \<noteq> a'"
  shows "apart a (unat s) a' (unat s')"
proof -
  from assms(1) obtain A where A: "balloc_refines b A" "spec_inv A"
    by (auto simp: balloc_inv_def)
  have "geometry (sp_base A) (sp_bump A) (sp_limit A) (sp_blocks A)"
    using A(2) by (simp add: spec_inv_def blocks_ok_def)
  with geometry_apart [OF this] assms(2-4) refines_blocks [OF A(1)] show ?thesis
    by auto
qed

lemma balloc_inv_Alloc:
  assumes inv: "balloc_inv b" and nw: "no_wrap b sz"
    and eq: "balloc_Alloc poly b sz m tid cid = (b', r)"
  shows "balloc_inv b'"
    and "r = Ok (a, k) \<Longrightarrow>
      (\<exists>s. balloc_blocks b' a = Some (s, normalizeMask m) \<and> unat sz \<le> unat s) \<and> \<not> owned b a \<and>
      (\<forall>x. x \<noteq> a \<longrightarrow> balloc_blocks b' x = balloc_blocks b x) \<and> 0 \<le> k \<and> k < Scale b \<and>
      payloadBase b' = payloadBase b \<and> payloadEnd b' = payloadEnd b"
proof -
  from inv obtain A where A: "balloc_refines b A" "spec_inv A"
    by (auto simp: balloc_inv_def)
  have "balloc_inv b' \<and> (r = Ok (a, k) \<longrightarrow>
      (\<exists>s. balloc_blocks b' a = Some (s, normalizeMask m) \<and> unat sz \<le> unat s) \<and> \<not> owned b a \<and>
      (\<forall>x. x \<noteq> a \<longrightarrow> balloc_blocks b' x = balloc_blocks b x) \<and> 0 \<le> k \<and> k < Scale b \<and>
      payloadBase b' = payloadBase b \<and> payloadEnd b' = payloadEnd b)"
  proof (cases "sz = 0 \<or> closed b \<noteq> 0")
    case True
    then have "b' = b" "\<forall>x. r \<noteq> Ok x"
      using eq by (auto simp: balloc_Alloc_def split: if_splits)
    with inv show ?thesis by simp
  next
    case False
    then have sz: "sz \<noteq> 0" "0 < unat sz" and op: "closed b = 0"
      by (auto simp: unat_gt_0)
    obtain A' r' where S: "spec_Alloc A sz m = (A', r')"
      by fastforce
    from balloc_Alloc_sim [OF A(1) nw sz(1) op, of poly tid cid m] obtain bucket where
      bucket: "0 \<le> bucket" "bucket < Scale b" and
      sim: "balloc_refines b' A'" "r = map_outcome (\<lambda>a. (a, bucket)) r'"
      unfolding eq S alloc_sim_def by auto
    note post = spec_Alloc_inv [OF A(2) sz(2) S]
    have "balloc_inv b'"
      using sim(1) post(1) by (auto simp: balloc_inv_def)
    moreover have "alloc_post A A' a sz m \<and> k = bucket" if "r = Ok (a, k)"
    proof -
      from that sim(2) have "r' = Ok a" "k = bucket"
        by (cases r'; simp)+
      with post(2) show ?thesis by blast
    qed
    moreover have "payloadBase b' = payloadBase b \<and> payloadEnd b' = payloadEnd b" if "alloc_post A A' a sz m"
      using that refines_fields(5,6) [OF A(1)] refines_fields(5,6) [OF sim(1)]
      by (simp add: alloc_post_def word_unat_eq_iff)
    ultimately show ?thesis
      using bucket refines_blocks [OF A(1)] refines_blocks [OF sim(1)] refines_owned [OF A(1)]
      unfolding alloc_post_def by metis
  qed
  then show "balloc_inv b'" and "r = Ok (a, k) \<Longrightarrow>
      (\<exists>s. balloc_blocks b' a = Some (s, normalizeMask m) \<and> unat sz \<le> unat s) \<and> \<not> owned b a \<and>
      (\<forall>x. x \<noteq> a \<longrightarrow> balloc_blocks b' x = balloc_blocks b x) \<and> 0 \<le> k \<and> k < Scale b \<and>
      payloadBase b' = payloadBase b \<and> payloadEnd b' = payloadEnd b"
    by blast+
qed

lemma balloc_inv_Share:
  assumes inv: "balloc_inv b" and op: "closed b = 0" and own: "owned b a"
  shows "balloc_inv (fst (balloc_Share b a m))" "snd (balloc_Share b a m) = Ok ()"
proof -
  from inv obtain A where A: "balloc_refines b A" "spec_inv A"
    by (auto simp: balloc_inv_def)
  have lv: "a \<in> live A"
    using own refines_owned [OF A(1)] by simp
  note sim = balloc_Share_sim [OF A(1) op, of a m] and spec = spec_Share_inv [OF A(2) lv, of m]
  from sim spec show "balloc_inv (fst (balloc_Share b a m))" "snd (balloc_Share b a m) = Ok ()"
    by (auto simp: balloc_inv_def)
qed

lemma balloc_inv_Free:
  assumes inv: "balloc_inv b" and op: "closed b = 0" and own: "owned b a"
    and nw: "unat (nodeBump b) + 24 < 2 ^ 64"
  shows "balloc_inv (fst (balloc_FreeVarying b a m))"
proof -
  from inv obtain A where A: "balloc_refines b A" "spec_inv A"
    by (auto simp: balloc_inv_def)
  have lv: "a \<in> live A"
    using own refines_owned [OF A(1)] by simp
  from balloc_Free_sim [OF A(1) op nw, of a m] spec_Free_inv [OF A(2) lv, of m] show ?thesis
    by (auto simp: balloc_inv_def)
qed

lemma balloc_inv_Reset: "balloc_inv b \<Longrightarrow> balloc_inv (fst (balloc_Reset b))"
proof (cases "closed b = 0")
  case True
  assume "balloc_inv b"
  then obtain A where "balloc_refines b A" "spec_inv A"
    by (auto simp: balloc_inv_def)
  with balloc_Reset_sim [OF this(1) True] spec_Reset_inv show ?thesis
    by (auto simp: balloc_inv_def)
qed (simp add: balloc_Reset_def)

lemma balloc_inv_Close: "balloc_inv b \<Longrightarrow> balloc_inv (fst (balloc_Close b))"
proof -
  assume "balloc_inv b"
  then obtain A t xs where A: "balloc_rel b A t xs" "spec_inv A"
    by (auto simp: balloc_inv_def balloc_refines_def)
  have "balloc_rel (fst (balloc_Close b)) A t xs"
    using A(1) by (auto simp: balloc_Close_def balloc_rel_def layout_def counters_def Let_def split: option.splits)
  with A(2) show ?thesis
    by (auto simp: balloc_inv_def balloc_refines_def)
qed

text \<open>What the code relies on of an anonymous mapping: it is non-empty, not at address 0, aligned to
  a page, as long as asked for, and inside the address space.\<close>

definition mmap_ok :: "(int \<Rightarrow> go_error + uintptr \<times> uintptr) \<Rightarrow> bool" where
  "mmap_ok mm \<longleftrightarrow>
     (\<forall>n base l. mm n = Inr (base, l) \<longrightarrow>
        0 < n \<and> int (unat l) = n \<and> base \<noteq> 0 \<and> 4096 dvd unat base \<and> unat base + unat l < 2 ^ 64)"

lemma nodeBytes_eq: "alignUp (defaultNodeCapacity * sizeof_BallocNode) 64 = 163840"
  by (simp add: alignUp_def defaultNodeCapacity_def sizeof_BallocNode_def)

lemma alignUp64_aligned:
  assumes "64 dvd unat v" "unat v + 63 < 2 ^ 64"
  shows "alignUp v 64 = v"
proof -
  have "(unat v + 63) div 64 * 64 = unat v"
    using assms(1) by (auto elim!: dvdE)
  with alignUp64 [OF assms(2)] show ?thesis
    by (simp add: word_unat_eq_iff)
qed

lemma balloc_New_layout:
  assumes mm: "mmap_ok mm" and sc: "0 < scale" "scale < 2 ^ 63" and New: "balloc_New scale mm len = Ok b"
  shows "layout b" "payloadBase b = MmapBase b + 163840" "bump b = payloadBase b" "nodeBump b = nodeBase b"
    "MemTree b = 0" "freeList b = 0" "activeBlocks b = 0" "closed b = 0"
    "unat (payloadBase b) + 4096 \<le> unat (payloadEnd b)"
proof -
  define l where "l = (if len = 0 then defaultMmapLength else len)"
  have big: "\<not> l < defaultNodeCapacity * sizeof_BallocNode + 4096"
    using New by (auto simp: balloc_New_def Let_def l_def split: if_splits)
  from New big obtain base n where M: "mm (sint l) = Inr (base, n)" "n \<noteq> 0"
    by (auto simp: balloc_New_def Let_def l_def [symmetric] split: sum.splits if_splits)
  from mm M(1) have ok: "0 < sint l" "int (unat n) = sint l" "base \<noteq> 0" "4096 dvd unat base" "unat base + unat n < 2 ^ 64"
    unfolding mmap_ok_def by blast+
  have "word_of_int (int (unat n)) = (word_of_int (sint l) :: uintptr)"
    by (simp only: ok(2))
  then have "n = l"
    by simp
  then have n: "167936 \<le> unat n"
    using big by (simp add: word_less_nat_alt defaultNodeCapacity_def sizeof_BallocNode_def)
  have u: "unat (base + 163840) = unat base + 163840"
    using ok(5) n by (subst unat_add_u64) auto
  have u2: "unat (base + n) = unat base + unat n"
    using ok(5) by (subst unat_add_u64) auto
  have d: "8 dvd unat base" "64 dvd unat base"
    using ok(4) by (auto intro: dvd_trans [of _ 4096])
  then have al: "alignUp (base + 163840) 64 = base + 163840"
    using ok(5) n by (intro alignUp64_aligned) (auto simp: u)
  obtain mat where mat: "buildPandiagonal scale = Ok mat"
    using sc by (auto simp: buildPandiagonal_def)
  have b: "b = \<lparr>MmapBase = base, MmapLength = n, MemTree = 0, Pandiagonal = mat, Scale = scale,
      mapping = Some (base, n), payloadBase = base + 163840, payloadEnd = base + n, bump = base + 163840,
      nodeBase = base, nodeEnd = base + 163840, nodeBump = base, freeList = 0,
      activeBlocks = 0, closed = 0, cleanup = True, nodes = Map.empty, slots = Map.empty\<rparr>"
    using New big M mat by (simp add: balloc_New_def Let_def l_def [symmetric] nodeBytes_eq al)
  show "layout b"
    using ok n u u2 d sc buildPandiagonal_shape [OF mat] by (simp add: layout_def b meta_limit_def)
  show "payloadBase b = MmapBase b + 163840" "bump b = payloadBase b" "nodeBump b = nodeBase b"
    "MemTree b = 0" "freeList b = 0" "activeBlocks b = 0" "closed b = 0"
    "unat (payloadBase b) + 4096 \<le> unat (payloadEnd b)"
    using n u u2 by (simp_all add: b)
qed

lemma balloc_inv_New:
  assumes "mmap_ok mm" "0 < scale" "scale < 2 ^ 63" "balloc_New scale mm len = Ok b"
  shows "balloc_inv b"
proof -
  note New = balloc_New_layout [OF assms]
  define A where "A = \<lparr>sp_blocks = Map.empty, sp_free = [], sp_bump = unat (payloadBase b), sp_meta = 0,
    sp_active = 0, sp_base = unat (payloadBase b), sp_limit = unat (payloadEnd b)\<rparr>"
  have "balloc_rel b A Leaf []"
    using New by (simp add: balloc_rel_def counters_def cells_ok_def cells_def A_def)
  moreover have "8 dvd unat (payloadBase b)"
    using New(1) by (simp add: layout_def)
  then have "spec_inv A"
    by (simp add: spec_inv_def blocks_ok_def geometry_def free_ok_def active_ok_def live_def
        owners_at_def A_def)
  ultimately show ?thesis
    by (auto simp: balloc_inv_def balloc_refines_def)
qed

section \<open>Reachable states\<close>

text \<open>
  One step of a client: any call, except that \<open>Share\<close> and \<open>FreeVarying\<close> are made on a block
  that has an owner, on an allocator that is open, and no bump pointer passes the end of the
  address space. Calls on other addresses are the subject of separate properties.
\<close>

inductive balloc_step :: "u64 \<Rightarrow> BlockAllocator \<Rightarrow> BlockAllocator \<Rightarrow> bool" for poly where
  step_Alloc: "no_wrap b sz \<Longrightarrow> balloc_step poly b (fst (balloc_Alloc poly b sz m tid cid))"
| step_Share: "closed b = 0 \<Longrightarrow> owned b a \<Longrightarrow> balloc_step poly b (fst (balloc_Share b a m))"
| step_Free: "closed b = 0 \<Longrightarrow> owned b a \<Longrightarrow> unat (nodeBump b) + 24 < 2 ^ 64 \<Longrightarrow>
    balloc_step poly b (fst (balloc_FreeVarying b a m))"
| step_Reset: "balloc_step poly b (fst (balloc_Reset b))"
| step_Close: "balloc_step poly b (fst (balloc_Close b))"

inductive balloc_reachable ::
  "int \<Rightarrow> (int \<Rightarrow> go_error + uintptr \<times> uintptr) \<Rightarrow> u64 \<Rightarrow> BlockAllocator \<Rightarrow> bool"
  for scale mm poly where
  reach_New: "balloc_New scale mm len = Ok b \<Longrightarrow> balloc_reachable scale mm poly b"
| reach_step: "balloc_reachable scale mm poly b \<Longrightarrow> balloc_step poly b b' \<Longrightarrow>
    balloc_reachable scale mm poly b'"

lemma balloc_step_inv: "balloc_step poly b b' \<Longrightarrow> balloc_inv b \<Longrightarrow> balloc_inv b'"
proof (induction rule: balloc_step.induct)
  case (step_Alloc b sz m tid cid)
  then show ?case
    using balloc_inv_Alloc(1) by (metis prod.collapse)
next
  case (step_Share b a m)
  then show ?case using balloc_inv_Share(1) by blast
next
  case (step_Free b a m)
  then show ?case using balloc_inv_Free by blast
next
  case (step_Reset b)
  then show ?case by (rule balloc_inv_Reset)
next
  case (step_Close b)
  then show ?case by (rule balloc_inv_Close)
qed

lemma balloc_reachable_inv:
  assumes "mmap_ok mm" "0 < scale" "scale < 2 ^ 63"
  shows "balloc_reachable scale mm poly b \<Longrightarrow> balloc_inv b"
  by (induction rule: balloc_reachable.induct)
     (use assms balloc_inv_New balloc_step_inv in blast)+

end
