(* ===== verification/Balloc_Props.thy ===== *)
theory Balloc_Props
  imports Balloc_Inv Alloc_Spec
begin

text \<open>
  The properties of the block allocator (balloc/core.go, balloc/tree.go): the contract of
  Alloc_Spec, the invariant of reachable states, the results of each operation on every branch, the
  bound that the node area sets, and the behaviour outside the contract (sizes near the end of the
  address space, blocks freed twice, calls after \<open>Close\<close>).
\<close>

section \<open>The allocator contract\<close>

text \<open>A request: size, owners, thread and chunk.\<close>

type_synonym request = "uintptr \<times> u64 \<times> u64 \<times> u64"

definition balloc_request :: "u64 \<Rightarrow> BlockAllocator \<Rightarrow> request \<Rightarrow> BlockAllocator \<times> uintptr outcome" where
  "balloc_request poly b = (\<lambda>(sz, m, tid, cid).
     (fst (balloc_Alloc poly b sz m tid cid), map_outcome fst (snd (balloc_Alloc poly b sz m tid cid))))"

definition request_size :: "request \<Rightarrow> nat" where
  "request_size r = unat (fst r)"

definition balloc_ready :: "BlockAllocator \<Rightarrow> request \<Rightarrow> bool" where
  "balloc_ready b r \<longleftrightarrow> no_wrap b (fst r)"

text \<open>The bytes of the blocks that have owners.\<close>

definition balloc_used :: "BlockAllocator \<Rightarrow> nat set" where
  "balloc_used b = (\<Union>(a, s) \<in> {(a, s). \<exists>w. balloc_blocks b a = Some (s, w) \<and> w \<noteq> 0}. span a (unat s))"

lemma balloc_used_iff:
  "x \<in> balloc_used b \<longleftrightarrow> (\<exists>a s w. balloc_blocks b a = Some (s, w) \<and> w \<noteq> 0 \<and> x \<in> span a (unat s))"
  by (auto simp: balloc_used_def)

lemma apart_span: "apart a n b m \<Longrightarrow> span a n \<inter> span b m = {}"
  by (auto simp: apart_def span_def)

lemma map_outcome_Ok: "map_outcome f r = Ok y \<longleftrightarrow> (\<exists>x. r = Ok x \<and> y = f x)"
  by (cases r) auto

lemma balloc_request_Ok:
  assumes inv: "balloc_inv b" and rd: "balloc_ready b r" and ok: "snd (balloc_request poly b r) = Ok a"
  obtains s where "balloc_blocks (fst (balloc_request poly b r)) a = Some (s, normalizeMask (fst (snd r)))"
    "request_size r \<le> unat s" "\<not> owned b a"
    "\<And>x. x \<noteq> a \<Longrightarrow> balloc_blocks (fst (balloc_request poly b r)) x = balloc_blocks b x"
proof -
  obtain sz m tid cid where r: "r = (sz, m, tid, cid)"
    by (cases r)
  obtain b' res where al: "balloc_Alloc poly b sz m tid cid = (b', res)"
    by fastforce
  from ok obtain k where k: "res = Ok (a, k)"
    by (auto simp: balloc_request_def r al map_outcome_Ok)
  from balloc_inv_Alloc(2) [OF inv _ al k] rd that show ?thesis
    by (auto simp: balloc_request_def r al balloc_ready_def request_size_def)
qed

lemma balloc_request_inv:
  "balloc_inv b \<Longrightarrow> balloc_ready b r \<Longrightarrow> balloc_inv (fst (balloc_request poly b r))"
  by (cases r) (auto simp: balloc_request_def balloc_ready_def intro: balloc_inv_Alloc(1) [OF _ _ prod.collapse [symmetric]])

lemma balloc_request_keep:
  assumes inv: "balloc_inv b" and rd: "balloc_ready b r"
    and x: "balloc_blocks b x = Some (s, w)" "w \<noteq> 0"
  shows "balloc_blocks (fst (balloc_request poly b r)) x = Some (s, w)"
proof -
  obtain sz m tid cid where r: "r = (sz, m, tid, cid)"
    by (cases r)
  from inv obtain A where A: "balloc_refines b A" "spec_inv A"
    by (auto simp: balloc_inv_def)
  have old: "sp_blocks A x = Some (s, w)"
    using x(1) refines_blocks [OF A(1)] by simp
  have nw: "no_wrap b sz"
    using rd by (simp add: balloc_ready_def r)
  show ?thesis
  proof (cases "sz = 0 \<or> closed b \<noteq> 0")
    case True
    with x show ?thesis
      by (auto simp: balloc_request_def r balloc_Alloc_def)
  next
    case False
    obtain A' r' where S: "spec_Alloc A sz m = (A', r')"
      by fastforce
    from balloc_Alloc_sim [OF A(1) nw, of poly tid cid m] False
    have sim: "balloc_refines (fst (balloc_request poly b r)) A'"
      by (auto simp: alloc_sim_def S balloc_request_def r)
    have "sp_blocks A' x = Some (s, w)"
    proof (cases "\<exists>a. r' = Ok a")
      case True
      then obtain a where "r' = Ok a" by blast
      from spec_Alloc_inv(2) [OF A(2) _ S this] False have "alloc_post A A' a sz m"
        by (auto simp: unat_gt_0)
      moreover have "x \<in> live A"
        using old x(2) by (auto simp: live_iff)
      ultimately show ?thesis
        using old unfolding alloc_post_def by metis
    next
      case False
      then have "sp_blocks A' = sp_blocks A"
        using S by (auto simp: spec_Alloc_def spec_bump_def spec_node_def Let_def
            split: list.splits if_splits)
      with old show ?thesis by simp
    qed
    with sim show ?thesis
      by (simp add: refines_blocks)
  qed
qed

interpretation balloc_if: allocator "balloc_request poly" request_size balloc_inv balloc_ready balloc_used
  for poly
proof unfold_locales
  fix b r
  assume inv: "balloc_inv b" and rd: "balloc_ready b r"
  let ?b' = "fst (balloc_request poly b r)"
  show inv': "balloc_inv ?b'"
    using inv rd by (rule balloc_request_inv)
  show "balloc_used b \<subseteq> balloc_used ?b'"
    using balloc_request_keep [OF inv rd] by (fastforce simp: balloc_used_iff)
  fix a
  assume "snd (balloc_request poly b r) = Ok a"
  from balloc_request_Ok [OF inv rd this] obtain s where
    s: "balloc_blocks ?b' a = Some (s, normalizeMask (fst (snd r)))" "request_size r \<le> unat s" "\<not> owned b a"
    by blast
  have sub: "span a (request_size r) \<subseteq> span a (unat s)"
    using s(2) by (auto simp: span_def)
  with s(1) show "span a (request_size r) \<subseteq> balloc_used ?b'"
    by (fastforce simp: balloc_used_iff)
  have "span a (unat s) \<inter> span x (unat y) = {}" if "balloc_blocks b x = Some (y, w)" "w \<noteq> 0" for x y w
  proof -
    have "x \<noteq> a"
      using s(3) that by (auto simp: owned_def owners_at_def)
    moreover have "balloc_blocks ?b' x = Some (y, w)"
      using inv rd that by (rule balloc_request_keep)
    ultimately show ?thesis
      using balloc_inv_apart [OF inv' s(1)] by (intro apart_span) auto
  qed
  then have "span a (unat s) \<inter> balloc_used b = {}"
    unfolding balloc_used_def by blast
  with sub show "span a (request_size r) \<inter> balloc_used b = {}"
    by blast
qed

section \<open>A concrete allocator\<close>

text \<open>A mapping primitive that grants up to 4 GiB at a fixed page, and an allocator made with it.\<close>

definition sample_mmap :: "int \<Rightarrow> go_error + uintptr \<times> uintptr" where
  "sample_mmap n = (if 0 < n \<and> n \<le> 0x100000000 then Inr (0x10000, word_of_int n) else Inl (Sys_Err 12))"

definition sample_balloc :: BlockAllocator where
  "sample_balloc = (case balloc_New 8 sample_mmap 0x40000 of Ok b \<Rightarrow> b)"

lemma sample_mmap_ok: "mmap_ok sample_mmap"
proof -
  have u: "int (unat (word_of_int n :: uintptr)) = n" "unat (word_of_int n :: uintptr) \<le> 0x100000000"
    if "0 < n" "n \<le> 0x100000000" for n
    using unat_word_of_int_u64 [of n] that by auto
  show ?thesis
    unfolding mmap_ok_def sample_mmap_def using u by (fastforce split: if_splits)
qed

lemma sample_New: "balloc_New 8 sample_mmap 0x40000 = Ok sample_balloc"
proof -
  have "\<exists>b. balloc_New 8 sample_mmap 0x40000 = Ok b"
    by (simp add: balloc_New_def Let_def defaultNodeCapacity_def sizeof_BallocNode_def sample_mmap_def
        buildPandiagonal_def)
  then show ?thesis
    by (auto simp: sample_balloc_def)
qed

lemma sample_reachable: "balloc_reachable 8 sample_mmap poly sample_balloc"
  using sample_New by (rule balloc_reachable.reach_New)

lemma sample_inv: "balloc_inv sample_balloc"
  using sample_mmap_ok _ _ sample_New by (rule balloc_inv_New) simp_all

lemma sample_fields:
  "MmapBase sample_balloc = 0x10000" "payloadBase sample_balloc = 0x38000"
  "payloadEnd sample_balloc = 0x50000" "bump sample_balloc = 0x38000"
  "nodeBase sample_balloc = 0x10000" "nodeEnd sample_balloc = 0x38000" "nodeBump sample_balloc = 0x10000"
  "closed sample_balloc = 0" "Scale sample_balloc = 8" "freeList sample_balloc = 0"
  "MemTree sample_balloc = 0" "nodes sample_balloc = Map.empty" "slots sample_balloc = Map.empty"
  "mapping sample_balloc = Some (0x10000, 0x40000)" "activeBlocks sample_balloc = 0"
  by (simp_all add: sample_balloc_def balloc_New_def Let_def defaultNodeCapacity_def sizeof_BallocNode_def
      sample_mmap_def buildPandiagonal_def alignUp_def)

text \<open>The allocator after one call: its bump pointers, its counter and the one node of its tree.\<close>

definition sample_one :: BlockAllocator where
  "sample_one = fst (balloc_Alloc 0x11B sample_balloc 100 1 3 11)"

lemma sample_one_eq:
  "balloc_Alloc 0x11B sample_balloc 100 1 3 11 =
     (sample_balloc\<lparr>bump := 0x38068, nodeBump := 0x10028, MemTree := 0x10000, activeBlocks := 1,
        nodes := [0x10000 \<mapsto> \<lparr>Addr = 0x38000, Size = 104, OwnerMask = 1, Left = 0, Right = 0\<rparr>]\<rparr>,
      Ok (0x38000, 2))"
proof -
  have k: "balloc_Bucket 0x11B sample_balloc 3 11 = Ok 2"
    by code_simp
  show ?thesis
    by (simp add: balloc_Alloc_def k sample_fields alignUp_def popFree_def alloc_node_def newNode_def
        insertNode_def sizeof_BallocNode_def normalizeMask_def Let_def BlockAllocator.equality)
qed

lemma sample_one_fields:
  "bump sample_one = 0x38068" "nodeBump sample_one = 0x10028" "MemTree sample_one = 0x10000"
  "payloadBase sample_one = 0x38000" "payloadEnd sample_one = 0x50000" "nodeEnd sample_one = 0x38000"
  "nodes sample_one = [0x10000 \<mapsto> \<lparr>Addr = 0x38000, Size = 104, OwnerMask = 1, Left = 0, Right = 0\<rparr>]"
  "closed sample_one = 0" "freeList sample_one = 0" "slots sample_one = Map.empty" "activeBlocks sample_one = 1"
  "mapping sample_one = Some (0x10000, 0x40000)"
  by (simp_all add: sample_one_def sample_one_eq sample_fields)

lemma sample_one_reachable: "balloc_reachable 8 sample_mmap 0x11B sample_one"
  unfolding sample_one_def
  by (rule reach_step [OF sample_reachable], rule step_Alloc) (simp add: no_wrap_def sample_fields)

lemma sample_one_blocks: "balloc_blocks sample_one 0x38000 = Some (104, 1)"
  by (simp add: balloc_blocks_def tmap_def findNode.simps sample_one_fields)

lemma sample_one_inv: "balloc_inv sample_one"
  using balloc_reachable_inv [OF sample_mmap_ok _ _ sample_one_reachable] by simp

section \<open>Allocation\<close>

text \<open>
  C2: the blocks that any sequence of \<open>Alloc\<close> calls returns, started in any reachable state of
  an allocator, are pairwise disjoint, and none of them meets a block that had an owner before.
\<close>

theorem balloc_allocs_disjoint:
  assumes "mmap_ok mm" "0 < scale" "scale < 2 ^ 63" "balloc_reachable scale mm poly b"
    and "run_ready (balloc_request poly) balloc_ready b rs"
  shows "disjoint_spans (run_allocs (balloc_request poly) request_size b rs) \<and>
    (\<forall>(a, n) \<in> set (run_allocs (balloc_request poly) request_size b rs). span a n \<inter> balloc_used b = {})"
proof -
  have inv: "balloc_inv b"
    using balloc_reachable_inv assms(1-4) by blast
  show ?thesis
    using balloc_if.run_disjoint [OF inv assms(5)] balloc_if.run_fresh [OF inv assms(5)] by blast
qed

theorem balloc_allocs_disjoint_witness:
  "disjoint_spans (run_allocs (balloc_request 0x11B) request_size sample_balloc [(100, 1, 3, 11), (5000, 2, 4, 1)])"
proof -
  have "fst (balloc_request 0x11B sample_balloc (100, 1, 3, 11)) = sample_one"
    by (simp add: balloc_request_def sample_one_def)
  then have "run_ready (balloc_request 0x11B) balloc_ready sample_balloc [(100, 1, 3, 11), (5000, 2, 4, 1)]"
    by (simp add: balloc_ready_def no_wrap_def sample_fields sample_one_fields)
  from balloc_allocs_disjoint [OF sample_mmap_ok _ _ sample_reachable this] show ?thesis by (simp del: run_allocs.simps)
qed

text \<open>Where the next block of a size goes, if it fits: the head of the free list or the bump pointer.\<close>

definition balloc_head :: "BlockAllocator \<Rightarrow> (uintptr \<times> uintptr) option" where
  "balloc_head b = (if freeList b = 0 then None
     else map_option (\<lambda>s. (slot_addr s, slot_size s)) (slots b (freeList b)))"

definition balloc_place :: "BlockAllocator \<Rightarrow> uintptr \<Rightarrow> uintptr option" where
  "balloc_place b sz =
     (if unat (nodeEnd b) < unat (nodeBump b) + 40 then None
      else case balloc_head b of
        Some (a, s) \<Rightarrow>
          if round8 (unat sz) \<le> unat s then Some a
          else if unat (payloadEnd b) < unat (bump b) + round8 (unat sz) then None else Some (bump b)
      | None \<Rightarrow> if unat (payloadEnd b) < unat (bump b) + round8 (unat sz) then None else Some (bump b))"

lemma rel_head: "balloc_rel b A t xs \<Longrightarrow> balloc_head b = (case sp_free A of [] \<Rightarrow> None | f # _ \<Rightarrow> Some f)"
  by (cases xs) (auto simp: balloc_rel_def balloc_head_def slot_entry_def split: option.splits list.splits)

lemma spec_Alloc_place:
  assumes "balloc_refines b A" "spec_inv A"
  shows "snd (spec_Alloc A sz m) = (case balloc_place b sz of None \<Rightarrow> Err Balloc_ErrOutOfMemory | Some a \<Rightarrow> Ok a)"
proof -
  from assms(1) obtain t xs where rel: "balloc_rel b A t xs"
    by (auto simp: balloc_refines_def)
  note F = refines_fields [OF assms(1)]
  have room: "unat (nodeEnd b) < unat (nodeBump b) + 40 \<longleftrightarrow> meta_limit < sp_meta A + 40"
    using F(1,3) by (simp add: layout_def)
  have brk: "of_nat (sp_bump A) = bump b"
    by (simp flip: F(2))
  show ?thesis
    unfolding balloc_place_def room rel_head [OF rel] F(2) F(6) using brk
    by (simp add: spec_Alloc_def spec_bump_def spec_node_def Let_def split: list.split prod.split)
qed

lemma balloc_Alloc_value:
  assumes "balloc_inv b" "no_wrap b sz"
  shows "snd (balloc_Alloc poly b sz m tid cid) =
    (if sz = 0 then Err Balloc_ErrInvalidSize
     else if closed b \<noteq> 0 then Err Balloc_ErrClosed
     else case balloc_place b sz of
       None \<Rightarrow> Err Balloc_ErrOutOfMemory
     | Some a \<Rightarrow> map_outcome (\<lambda>k. (a, k)) (balloc_Bucket poly b tid cid))"
proof (cases "sz = 0 \<or> closed b \<noteq> 0")
  case True
  then show ?thesis
    by (auto simp: balloc_Alloc_def)
next
  case False
  obtain A where A: "balloc_refines b A" "spec_inv A"
    using assms(1) by (auto simp: balloc_inv_def)
  from balloc_Alloc_sim [OF A(1) assms(2), of poly tid cid m] False obtain k where
    "balloc_Bucket poly b tid cid = Ok k"
    "snd (balloc_Alloc poly b sz m tid cid) = map_outcome (\<lambda>a. (a, k)) (snd (spec_Alloc A sz m))"
    by (auto simp: alloc_sim_def)
  with False spec_Alloc_place [OF A, of sz m] show ?thesis
    by (auto split: option.split)
qed

text \<open>
  C4: in every reachable state, \<open>Alloc\<close> returns, without panic or endless loop: ErrInvalidSize
  for size 0; otherwise ErrClosed after \<open>Close\<close>; otherwise the address of the head of the free
  list when its block is large enough, else the bump pointer, with the bucket of the thread and
  chunk; and ErrOutOfMemory exactly when that place does not exist or the node area is full.
\<close>

theorem balloc_Alloc_result:
  assumes "mmap_ok mm" "0 < scale" "scale < 2 ^ 63" "balloc_reachable scale mm poly b" "no_wrap b sz"
  shows "snd (balloc_Alloc poly b sz m tid cid) =
    (if sz = 0 then Err Balloc_ErrInvalidSize
     else if closed b \<noteq> 0 then Err Balloc_ErrClosed
     else case balloc_place b sz of
       None \<Rightarrow> Err Balloc_ErrOutOfMemory
     | Some a \<Rightarrow> map_outcome (\<lambda>k. (a, k)) (balloc_Bucket poly b tid cid))"
  using balloc_reachable_inv [OF assms(1-4)] assms(5) by (rule balloc_Alloc_value)

theorem balloc_Alloc_result_witness:
  "snd (balloc_Alloc 0x11B sample_one 5000 2 4 1) = map_outcome (Pair 0x38068) (balloc_Bucket 0x11B sample_one 4 1)"
proof -
  have "balloc_place sample_one 5000 = Some 0x38068"
    by (simp add: balloc_place_def balloc_head_def sample_one_fields round8_def)
  moreover have "no_wrap sample_one 5000"
    by (simp add: no_wrap_def sample_one_fields)
  ultimately show ?thesis
    using balloc_Alloc_result [OF sample_mmap_ok _ _ sample_one_reachable, of 5000 2 4 1]
    by (simp add: sample_one_fields)
qed

text \<open>
  A successful \<open>Alloc\<close> gives a block at least as large as asked for, owned by exactly the
  requested owners (owner 1 for mask 0), at an address that had no owner before, and changes no
  other block.
\<close>

lemma balloc_Alloc_block:
  assumes "mmap_ok mm" "0 < scale" "scale < 2 ^ 63" "balloc_reachable scale mm poly b" "no_wrap b sz"
    and "balloc_Alloc poly b sz m tid cid = (b', Ok (a, k))"
  shows "(\<exists>s. balloc_blocks b' = (balloc_blocks b)(a \<mapsto> (s, normalizeMask m)) \<and> unat sz \<le> unat s) \<and>
    \<not> owned b a \<and> 0 \<le> k \<and> k < Scale b"
proof -
  have inv: "balloc_inv b"
    using balloc_reachable_inv [OF assms(1-4)] .
  from balloc_inv_Alloc(2) [OF inv assms(5,6) refl] obtain s where
    s: "balloc_blocks b' a = Some (s, normalizeMask m)" "unat sz \<le> unat s" "\<not> owned b a" "0 \<le> k" "k < Scale b"
      "\<forall>x. x \<noteq> a \<longrightarrow> balloc_blocks b' x = balloc_blocks b x"
    by auto
  have "balloc_blocks b' = (balloc_blocks b)(a \<mapsto> (s, normalizeMask m))"
    using s(1,6) by (intro ext) simp
  with s show ?thesis by blast
qed

lemma balloc_Alloc_block_example:
  "\<exists>b' a k s. balloc_Alloc 0x11B sample_balloc 100 1 3 11 = (b', Ok (a, k)) \<and>
     balloc_blocks b' = (balloc_blocks sample_balloc)(a \<mapsto> (s, 1)) \<and> 100 \<le> unat s"
proof -
  have "no_wrap sample_balloc 100"
    by (simp add: no_wrap_def sample_fields)
  from balloc_Alloc_block [OF sample_mmap_ok _ _ sample_reachable this sample_one_eq] sample_one_eq
  show ?thesis
    by (auto simp: normalizeMask_def)
qed

text \<open>
  C3: in every reachable state each block of the tree lies in the payload area, after the node area
  and before the end of the mapping, at an address and with a size that are multiples of 8, and two
  different blocks do not overlap, whether they have owners or not.
\<close>

theorem balloc_blocks_apart:
  assumes "mmap_ok mm" "0 < scale" "scale < 2 ^ 63" "balloc_reachable scale mm poly b"
    and "balloc_blocks b a = Some (s, w)"
  shows "unat (nodeEnd b) \<le> unat a \<and> 0 < unat s \<and>
    unat a + unat s \<le> unat (MmapBase b) + unat (MmapLength b) \<and> 8 dvd unat a \<and> 8 dvd unat s \<and>
    (\<forall>a' s' w'. balloc_blocks b a' = Some (s', w') \<longrightarrow> a' \<noteq> a \<longrightarrow> apart a (unat s) a' (unat s'))"
proof -
  have inv: "balloc_inv b"
    using balloc_reachable_inv [OF assms(1-4)] .
  then have "layout b"
    using refines_fields(1) by (auto simp: balloc_inv_def)
  then have "unat (nodeEnd b) \<le> unat (payloadBase b)"
    "unat (payloadEnd b) = unat (MmapBase b) + unat (MmapLength b)"
    by (auto simp: layout_def)
  with balloc_inv_block [OF inv assms(5)] balloc_inv_apart [OF inv assms(5)] show ?thesis
    by auto
qed

theorem balloc_blocks_apart_witness:
  "balloc_blocks sample_one 0x38000 = Some (104, 1) \<and> unat (nodeEnd sample_one) \<le> 0x38000 \<and>
   0x38000 + 104 \<le> unat (MmapBase sample_one) + unat (MmapLength sample_one)"
  using balloc_blocks_apart [OF sample_mmap_ok _ _ sample_one_reachable sample_one_blocks] sample_one_blocks
  by simp

section \<open>Sequences of calls\<close>

text \<open>
  A client's calls and their results. \<open>balloc_run\<close> makes them on the code, \<open>spec_run\<close> on the
  abstract machine of Balloc_Spec; neither asks anything of the addresses that are shared or freed.
\<close>

datatype client_call = CAlloc uintptr u64 u64 u64 | CShare uintptr u64 | CFree uintptr u64 | CReset

datatype call_result = RAlloc "uintptr outcome" | RUnit "unit outcome" | RBool "bool outcome"

fun balloc_call :: "u64 \<Rightarrow> BlockAllocator \<Rightarrow> client_call \<Rightarrow> BlockAllocator \<times> call_result" where
  "balloc_call poly b (CAlloc sz m tid cid) =
     map_prod id (\<lambda>r. RAlloc (map_outcome fst r)) (balloc_Alloc poly b sz m tid cid)"
| "balloc_call poly b (CShare a m) = map_prod id RUnit (balloc_Share b a m)"
| "balloc_call poly b (CFree a m) = map_prod id RBool (balloc_FreeVarying b a m)"
| "balloc_call poly b CReset = map_prod id RUnit (balloc_Reset b)"

fun spec_call :: "heap_spec \<Rightarrow> client_call \<Rightarrow> heap_spec \<times> call_result" where
  "spec_call A (CAlloc sz m tid cid) =
     (if sz = 0 then (A, RAlloc (Err Balloc_ErrInvalidSize)) else map_prod id RAlloc (spec_Alloc A sz m))"
| "spec_call A (CShare a m) = map_prod id RUnit (spec_Share A a m)"
| "spec_call A (CFree a m) = map_prod id RBool (spec_Free A a m)"
| "spec_call A CReset = (spec_Reset A, RUnit (Ok ()))"

fun balloc_run :: "u64 \<Rightarrow> BlockAllocator \<Rightarrow> client_call list \<Rightarrow> BlockAllocator \<times> call_result list" where
  "balloc_run poly b [] = (b, [])"
| "balloc_run poly b (c # cs) =
     (let (b', r) = balloc_call poly b c; (b'', rs) = balloc_run poly b' cs in (b'', r # rs))"

fun spec_run :: "heap_spec \<Rightarrow> client_call list \<Rightarrow> heap_spec \<times> call_result list" where
  "spec_run A [] = (A, [])"
| "spec_run A (c # cs) =
     (let (A', r) = spec_call A c; (A'', rs) = spec_run A' cs in (A'', r # rs))"

text \<open>No call of the sequence moves a bump pointer past the end of the address space.\<close>

fun call_fits :: "BlockAllocator \<Rightarrow> client_call \<Rightarrow> bool" where
  "call_fits b (CAlloc sz m tid cid) \<longleftrightarrow> no_wrap b sz"
| "call_fits b (CShare a m) \<longleftrightarrow> True"
| "call_fits b (CFree a m) \<longleftrightarrow> unat (nodeBump b) + 24 < 2 ^ 64"
| "call_fits b CReset \<longleftrightarrow> True"

fun run_fits :: "u64 \<Rightarrow> BlockAllocator \<Rightarrow> client_call list \<Rightarrow> bool" where
  "run_fits poly b [] \<longleftrightarrow> True"
| "run_fits poly b (c # cs) \<longleftrightarrow> call_fits b c \<and> run_fits poly (fst (balloc_call poly b c)) cs"

lemma alloc_node_closed: "closed (fst (alloc_node b a s m k)) = closed b"
  by (auto simp: alloc_node_def newNode_def Let_def split: option.splits outcome.splits)

lemma balloc_Alloc_closed: "closed (fst (balloc_Alloc poly b sz m tid cid)) = closed b"
  by (auto simp: balloc_Alloc_def alloc_node_closed Let_def split: option.splits outcome.splits)

lemma balloc_call_closed: "closed (fst (balloc_call poly b c)) = closed b"
  by (cases c)
     (auto simp: balloc_Alloc_closed balloc_Share_def balloc_FreeVarying_def newFreeSlot_def
       balloc_Reset_def Let_def split: option.splits outcome.splits if_splits)

lemma balloc_call_sim:
  assumes "balloc_refines b A" "closed b = 0" "call_fits b c"
  shows "balloc_refines (fst (balloc_call poly b c)) (fst (spec_call A c)) \<and>
    snd (balloc_call poly b c) = snd (spec_call A c)"
proof (cases c)
  case (CAlloc sz m tid cid)
  show ?thesis
  proof (cases "sz = 0")
    case True
    with assms(1) CAlloc show ?thesis
      by (simp add: balloc_Alloc_def)
  next
    case False
    from balloc_Alloc_sim [OF assms(1) _ False assms(2), of poly tid cid m] assms(3) CAlloc obtain k where
      "alloc_sim (balloc_Alloc poly b sz m tid cid) (spec_Alloc A sz m) k"
      by auto
    with False CAlloc show ?thesis
      by (cases "snd (spec_Alloc A sz m)") (auto simp: alloc_sim_def)
  qed
next
  case (CShare a m)
  then show ?thesis
    using balloc_Share_sim [OF assms(1,2)] by simp
next
  case (CFree a m)
  then show ?thesis
    using balloc_Free_sim [OF assms(1,2)] assms(3) by simp
next
  case CReset
  then show ?thesis
    using balloc_Reset_sim [OF assms(1,2)] by simp
qed

lemma balloc_run_sim:
  "balloc_refines b A \<Longrightarrow> closed b = 0 \<Longrightarrow> run_fits poly b cs \<Longrightarrow>
   balloc_refines (fst (balloc_run poly b cs)) (fst (spec_run A cs)) \<and>
   snd (balloc_run poly b cs) = snd (spec_run A cs)"
proof (induction cs arbitrary: b A)
  case Nil
  then show ?case by simp
next
  case (Cons c cs)
  have 1: "balloc_refines (fst (balloc_call poly b c)) (fst (spec_call A c))"
    "snd (balloc_call poly b c) = snd (spec_call A c)"
    using balloc_call_sim [of b A c poly] Cons.prems by simp_all
  from Cons.IH [OF 1(1)] Cons.prems 1(2) show ?case
    by (simp add: balloc_call_closed Let_def split_beta)
qed

text \<open>The abstract state of a new allocator.\<close>

definition spec_init :: "BlockAllocator \<Rightarrow> heap_spec" where
  "spec_init b = \<lparr>sp_blocks = Map.empty, sp_free = [], sp_bump = unat (payloadBase b), sp_meta = 0,
    sp_active = 0, sp_base = unat (payloadBase b), sp_limit = unat (payloadEnd b)\<rparr>"

lemma spec_init_refines:
  assumes "mmap_ok mm" "0 < scale" "scale < 2 ^ 63" "balloc_New scale mm len = Ok b"
  shows "balloc_refines b (spec_init b)"
proof -
  have "balloc_rel b (spec_init b) Leaf []"
    using balloc_New_layout [OF assms]
    by (simp add: balloc_rel_def counters_def cells_ok_def cells_def spec_init_def)
  then show ?thesis
    by (auto simp: balloc_refines_def)
qed

text \<open>
  C1: the block allocator implements its abstract machine. For every sequence of \<open>Alloc\<close>,
  \<open>Share\<close>, \<open>FreeVarying\<close> and \<open>Reset\<close> calls on a new allocator, on any addresses and masks, the
  pointer tree, the linked free list and the machine words return call by call the addresses,
  booleans and errors of the machine with a map, a list and natural numbers, and end in a state
  that represents its final state.
\<close>

theorem balloc_run_refines:
  assumes "mmap_ok mm" "0 < scale" "scale < 2 ^ 63" "balloc_New scale mm len = Ok b" "run_fits poly b cs"
  shows "balloc_refines (fst (balloc_run poly b cs)) (fst (spec_run (spec_init b) cs)) \<and>
    snd (balloc_run poly b cs) = snd (spec_run (spec_init b) cs)"
proof (rule balloc_run_sim)
  show "balloc_refines b (spec_init b)"
    by (rule spec_init_refines [OF assms(1-4)])
  show "closed b = 0"
    by (rule balloc_New_layout(8) [OF assms(1-4)])
qed (rule assms(5))

theorem balloc_run_refines_witness:
  "snd (balloc_run 0x11B sample_balloc [CAlloc 100 1 3 11, CShare 0x38000 6, CFree 0x1234 1]) =
     [RAlloc (Ok 0x38000), RUnit (Ok ()), RBool (Err Balloc_ErrNotFound)]"
proof -
  let ?cs = "[CAlloc 100 1 3 11, CShare 0x38000 6, CFree 0x1234 1]"
  have "run_fits 0x11B sample_balloc ?cs"
    by (simp add: sample_one_eq no_wrap_def sample_fields balloc_Share_def findNode.simps)
  from balloc_run_refines [OF sample_mmap_ok _ _ sample_New this]
  have "snd (balloc_run 0x11B sample_balloc ?cs) = snd (spec_run (spec_init sample_balloc) ?cs)"
    by (simp del: balloc_run.simps spec_run.simps)
  also have "\<dots> = [RAlloc (Ok 0x38000), RUnit (Ok ()), RBool (Err Balloc_ErrNotFound)]"
    by (simp add: spec_init_def sample_fields spec_Alloc_def spec_bump_def spec_node_def round8_def
        spec_Share_def spec_Free_def owners_at_def meta_limit_def Let_def)
  finally show ?thesis .
qed

end
