(* ===== verification/Go_Context.thy ===== *)
theory Go_Context
  imports Go_Memory
begin

text \<open>
  The pieces of Go's standard library around the HTTP and JSON layers: \<open>context.Context\<close> as the
  chain of values it is, and \<open>sync.Pool\<close> as a list of items from which \<open>Get\<close> takes any one it
  likes, or none. The locale \<open>recycling_pool\<close> is what the middleware of both packages needs of a pool
  of allocators: everything in it is clean, and stays so from request to request.
\<close>

text \<open>The key types of the packages pure and alloc are different types, so different keys.\<close>

datatype ctx_key = PureKey | AllocKey | OtherKey string

datatype ctx_val = ArenaRef uintptr | AllocatorRef uintptr | OtherVal string

type_synonym ctx = "(ctx_key \<times> ctx_val) list"

definition ctx_WithValue :: "ctx \<Rightarrow> ctx_key \<Rightarrow> ctx_val \<Rightarrow> ctx" where
  "ctx_WithValue c k v = (k, v) # c"

definition ctx_Value :: "ctx \<Rightarrow> ctx_key \<Rightarrow> ctx_val option" where
  "ctx_Value c k = map_of c k"

lemma ctx_Value_With [simp]: "ctx_Value (ctx_WithValue c k v) k' = (if k = k' then Some v else ctx_Value c k')"
  by (simp add: ctx_Value_def ctx_WithValue_def)

text \<open>
  \<open>sync.Pool.Get\<close>: the choice says which item is taken; no choice, or one out of range, stands
  for an empty pool or one whose items were dropped, and then \<open>New\<close> is called.
\<close>

definition pool_take :: "nat option \<Rightarrow> 'a list \<Rightarrow> ('a \<times> 'a list) option" where
  "pool_take c xs =
     (case c of
        None \<Rightarrow> None
      | Some i \<Rightarrow> if i < length xs then Some (xs ! i, take i xs @ drop (Suc i) xs) else None)"

lemma pool_take_Some:
  assumes "pool_take c xs = Some (x, ys)"
  shows "x \<in> set xs" "set xs = insert x (set ys)" "distinct xs \<Longrightarrow> distinct ys \<and> x \<notin> set ys"
proof -
  from assms obtain i where i: "i < length xs" "x = xs ! i" "ys = take i xs @ drop (Suc i) xs"
    by (auto simp: pool_take_def split: option.splits if_splits)
  then have xs: "xs = take i xs @ x # drop (Suc i) xs"
    by (simp add: id_take_nth_drop)
  show "x \<in> set xs"
    using i by simp
  show "set xs = insert x (set ys)"
    by (subst xs) (auto simp: i(3))
  show "distinct ys \<and> x \<notin> set ys" if "distinct xs"
  proof -
    have "distinct (take i xs @ x # drop (Suc i) xs)"
      using that xs by simp
    then show ?thesis
      by (auto simp: i(3))
  qed
qed

text \<open>
  A pool of objects that are held by reference. All idle ones are clean, and none is there twice.
\<close>

definition held :: "('x \<Rightarrow> bool) \<Rightarrow> (uintptr \<rightharpoonup> 'x) \<Rightarrow> uintptr \<Rightarrow> bool" where
  "held clean objs a \<longleftrightarrow> (\<exists>x. objs a = Some x \<and> clean x)"

definition idle_clean :: "('x \<Rightarrow> bool) \<Rightarrow> uintptr list \<Rightarrow> (uintptr \<rightharpoonup> 'x) \<Rightarrow> bool" where
  "idle_clean clean idle objs \<longleftrightarrow> distinct idle \<and> (\<forall>a \<in> set idle. held clean objs a)"

text \<open>
  \<open>got w w' a\<close>: a get leads from \<open>w\<close> to \<open>w'\<close> and hands out \<open>a\<close>, an idle object or a new one that is
  clean. \<open>put w a w'\<close>: the object \<open>a\<close>, in any good state, is cleaned and given back.
\<close>

locale recycling_pool =
  fixes idle :: "'w \<Rightarrow> uintptr list"
    and objs :: "'w \<Rightarrow> uintptr \<rightharpoonup> 'x"
    and clean good :: "'x \<Rightarrow> bool"
    and got :: "'w \<Rightarrow> 'w \<Rightarrow> uintptr \<Rightarrow> bool"
    and put :: "'w \<Rightarrow> uintptr \<Rightarrow> 'w \<Rightarrow> bool"
  assumes got_one: "got w w' a \<Longrightarrow>
      (\<exists>c. pool_take c (idle w) = Some (a, idle w') \<and> objs w' = objs w) \<or>
      (objs w a = None \<and> idle w' = idle w \<and> (\<exists>x. clean x \<and> objs w' = (objs w)(a \<mapsto> x)))"
    and put_back: "put w a w' \<Longrightarrow> objs w a = Some x \<Longrightarrow> good x \<Longrightarrow>
      \<exists>x'. clean x' \<and> idle w' = a # idle w \<and> objs w' = (objs w)(a \<mapsto> x')"
begin

lemma got_clean:
  assumes "idle_clean clean (idle w) (objs w)" "got w w' a"
  shows "idle_clean clean (idle w') (objs w') \<and> held clean (objs w') a \<and> a \<notin> set (idle w')"
  using got_one [OF assms(2)]
proof
  assume "\<exists>c. pool_take c (idle w) = Some (a, idle w') \<and> objs w' = objs w"
  then obtain c where "pool_take c (idle w) = Some (a, idle w')" "objs w' = objs w" by blast
  with pool_take_Some [OF this(1)] assms(1) show ?thesis
    by (auto simp: idle_clean_def)
next
  assume "objs w a = None \<and> idle w' = idle w \<and> (\<exists>x. clean x \<and> objs w' = (objs w)(a \<mapsto> x))"
  then obtain x where x: "objs w a = None" "idle w' = idle w" "clean x" "objs w' = (objs w)(a \<mapsto> x)" by blast
  then have "a \<notin> set (idle w)"
    using assms(1) by (auto simp: idle_clean_def held_def)
  with x assms(1) show ?thesis
    by (auto simp: idle_clean_def held_def)
qed

text \<open>Between get and put the holder of an object left the pool alone and kept its object good.\<close>

lemma put_clean:
  assumes "idle_clean clean (idle w1) (objs w1)" "a \<notin> set (idle w1)"
    and "idle w2 = idle w1" "\<forall>b \<in> set (idle w1). objs w2 b = objs w1 b" "objs w2 a = Some x" "good x" "put w2 a w3"
  shows "idle_clean clean (idle w3) (objs w3) \<and> a \<in> set (idle w3)"
proof -
  obtain x' where x': "clean x'" "idle w3 = a # idle w1" "objs w3 = (objs w2)(a \<mapsto> x')"
    using put_back [OF assms(7,5,6)] assms(3) by auto
  then show ?thesis
    using assms(1,2,4) by (auto simp: idle_clean_def held_def)
qed

end

end
