(* ===== verification/Hybrid.thy ===== *)
theory Hybrid
  imports Balloc_Props Go_Context "HOL-Library.Multiset"
begin

text \<open>
  The hybrid allocator (alloc/hybrid.go): requests of up to 4 KiB are cut from 64 KiB slabs of the
  Go heap, kept in eight shards chosen by the thread; larger ones go to the block allocator.

  A shard holds the slabs in use and its pool of idle slabs. Each failed attempt on a slab moves
  the slab's offset, as in the code, where \<open>Add\<close> comes before the check. The address of a new
  slab, and which pooled slab \<open>sync.Pool.Get\<close> returns, are arguments. The operations are those of one
  goroutine at a time.
\<close>

section \<open>Data and operations\<close>

definition smallThreshold :: uintptr where
  "smallThreshold = 4096"

definition smallSlabSize :: int where
  "smallSlabSize = 65536"

definition smallShards :: nat where
  "smallShards = 8"

record smallArena =
  sa_ptr :: uintptr
  sa_off :: int

record shard =
  sh_small :: "smallArena list"
  sh_pool :: "smallArena list"

record hybrid =
  hy_large :: BlockAllocator
  hy_shards :: "shard list"

text \<open>\<open>make([]byte, smallSlabSize)\<close> at the address \<open>p\<close>.\<close>

definition newSmallArena :: "uintptr \<Rightarrow> smallArena" where
  "newSmallArena p = \<lparr>sa_ptr = p, sa_off = 0\<rparr>"

definition smallArena_alloc :: "smallArena \<Rightarrow> uintptr \<Rightarrow> smallArena \<times> uintptr outcome" where
  "smallArena_alloc s sz =
     (if sz = 0 then (s, Ok 0)
      else
        let next = i64 (sa_off s + sint sz);
            curr = i64 (next - sint sz);
            s' = s\<lparr>sa_off := next\<rparr>
        in if next > smallSlabSize then (s', Err Balloc_ErrOutOfMemory)
           else if curr < 0 \<or> smallSlabSize \<le> curr then (s', Panic IndexOutOfRange)
           else (s', Ok (sa_ptr s + word_of_int curr)))"

definition smallArena_reset :: "smallArena \<Rightarrow> smallArena" where
  "smallArena_reset s = s\<lparr>sa_off := 0\<rparr>"

definition NewHybrid :: "int \<Rightarrow> (int \<Rightarrow> go_error + uintptr \<times> uintptr) \<Rightarrow> uintptr \<Rightarrow> hybrid outcome" where
  "NewHybrid ArenaScale mmapAnon largeSize =
     obind (balloc_New ArenaScale mmapAnon largeSize) (\<lambda>large.
       Ok \<lparr>hy_large = large, hy_shards = replicate smallShards \<lparr>sh_small = [], sh_pool = []\<rparr>\<rparr>)"

text \<open>\<open>for _, a := range s.small\<close>: the first slab that does not fail answers.\<close>

fun try_small :: "uintptr \<Rightarrow> smallArena list \<Rightarrow> smallArena list \<times> uintptr outcome option" where
  "try_small sz [] = ([], None)"
| "try_small sz (a # as) =
     (case smallArena_alloc a sz of
        (a', Err e) \<Rightarrow> (let (as', r) = try_small sz as in (a' # as', r))
      | (a', r) \<Rightarrow> (a' # as, Some r))"

definition set_small :: "hybrid \<Rightarrow> nat \<Rightarrow> smallArena list \<Rightarrow> smallArena list \<Rightarrow> hybrid" where
  "set_small h i small pool = h\<lparr>hy_shards := (hy_shards h)[i := \<lparr>sh_small = small, sh_pool = pool\<rparr>]\<rparr>"

definition allocSmall :: "hybrid \<Rightarrow> nat option \<Rightarrow> uintptr \<Rightarrow> uintptr \<Rightarrow> u64 \<Rightarrow> hybrid \<times> uintptr outcome" where
  "allocSmall h choice p sz threadID =
     (let i = unat (threadID mod 8);
          s = hy_shards h ! i;
          (small1, r1) = try_small sz (sh_small s)
      in case r1 of
           Some r \<Rightarrow> (set_small h i small1 (sh_pool s), r)
         | None \<Rightarrow>
             let (small2, r2) = try_small sz small1
             in case r2 of
                  Some r \<Rightarrow> (set_small h i small2 (sh_pool s), r)
                | None \<Rightarrow>
                    let (a, pool) = (case pool_take choice (sh_pool s) of
                                       Some (a, rest) \<Rightarrow> (a, rest)
                                     | None \<Rightarrow> (newSmallArena p, sh_pool s));
                        (a', r) = smallArena_alloc (smallArena_reset a) sz
                    in (set_small h i (small2 @ [a']) pool, r))"

definition hybrid_large :: "u64 \<Rightarrow> hybrid \<Rightarrow> uintptr \<Rightarrow> u64 \<Rightarrow> u64 \<Rightarrow> u64 \<Rightarrow> hybrid \<times> (uintptr \<times> int) outcome" where
  "hybrid_large GFPoly h sz ownerMask threadID chunkID =
     map_prod (\<lambda>b. h\<lparr>hy_large := b\<rparr>) id (balloc_Alloc GFPoly (hy_large h) sz ownerMask threadID chunkID)"

definition hybrid_Alloc ::
  "u64 \<Rightarrow> hybrid \<Rightarrow> nat option \<Rightarrow> uintptr \<Rightarrow> uintptr \<Rightarrow> u64 \<Rightarrow> u64 \<Rightarrow> u64 \<Rightarrow> hybrid \<times> (uintptr \<times> int) outcome" where
  "hybrid_Alloc GFPoly h choice p sz ownerMask threadID chunkID =
     (if sz \<le> smallThreshold then
        (case allocSmall h choice p sz threadID of
           (h', Ok addr) \<Rightarrow> (h', Ok (addr, 0))
         | (h', Err e) \<Rightarrow> hybrid_large GFPoly h' sz ownerMask threadID chunkID
         | (h', Panic q) \<Rightarrow> (h', Panic q)
         | (h', Diverge) \<Rightarrow> (h', Diverge))
      else hybrid_large GFPoly h sz ownerMask threadID chunkID)"

definition hybrid_Share :: "hybrid \<Rightarrow> uintptr \<Rightarrow> u64 \<Rightarrow> hybrid \<times> unit outcome" where
  "hybrid_Share h addr ownerMask = map_prod (\<lambda>b. h\<lparr>hy_large := b\<rparr>) id (balloc_Share (hy_large h) addr ownerMask)"

definition hybrid_FreeVarying :: "hybrid \<Rightarrow> uintptr \<Rightarrow> u64 \<Rightarrow> hybrid \<times> bool outcome" where
  "hybrid_FreeVarying h addr layerMask =
     map_prod (\<lambda>b. h\<lparr>hy_large := b\<rparr>) id (balloc_FreeVarying (hy_large h) addr layerMask)"

text \<open>\<open>pool.Put\<close> of each slab in turn; the last one is on top.\<close>

definition reset_shard :: "shard \<Rightarrow> shard" where
  "reset_shard s = \<lparr>sh_small = [], sh_pool = rev (map smallArena_reset (sh_small s)) @ sh_pool s\<rparr>"

definition hybrid_Reset :: "hybrid \<Rightarrow> hybrid \<times> unit outcome" where
  "hybrid_Reset h =
     (let h1 = h\<lparr>hy_shards := map reset_shard (hy_shards h)\<rparr>
      in map_prod (\<lambda>b. h1\<lparr>hy_large := b\<rparr>) id (balloc_Reset (hy_large h1)))"

definition close_shard :: "shard \<Rightarrow> shard" where
  "close_shard s = \<lparr>sh_small = [], sh_pool = rev (sh_small s) @ sh_pool s\<rparr>"

definition hybrid_Close :: "hybrid \<Rightarrow> hybrid \<times> (uintptr \<times> uintptr) list" where
  "hybrid_Close h =
     (let (b, unmapped) = balloc_Close (hy_large h)
      in (h\<lparr>hy_large := b, hy_shards := map close_shard (hy_shards h)\<rparr>, unmapped))"

section \<open>One slab\<close>

definition slab_ready :: "smallArena \<Rightarrow> bool" where
  "slab_ready a \<longleftrightarrow> 0 \<le> sa_off a \<and> sa_off a + 8192 < 2 ^ 63"

definition slab_used :: "smallArena \<Rightarrow> nat set" where
  "slab_used a = span (sa_ptr a) (nat (min (sa_off a) smallSlabSize))"

definition slab_span :: "uintptr \<Rightarrow> nat set" where
  "slab_span p = span p (nat smallSlabSize)"

lemma small_size: "sz \<le> smallThreshold \<Longrightarrow> sint sz = int (unat sz) \<and> unat sz \<le> 4096"
proof -
  assume "sz \<le> smallThreshold"
  then have "unat sz \<le> 4096"
    by (simp add: word_le_nat_alt smallThreshold_def)
  then show ?thesis
    by (simp add: sint_eq_unat)
qed

lemma smallArena_alloc_eq:
  assumes "0 \<le> sa_off a" "sa_off a + 4096 < 2 ^ 63" "sz \<le> smallThreshold" "sz \<noteq> 0"
  shows "smallArena_alloc a sz = (a\<lparr>sa_off := sa_off a + int (unat sz)\<rparr>,
    if sa_off a + int (unat sz) > smallSlabSize then Err Balloc_ErrOutOfMemory
    else Ok (sa_ptr a + word_of_int (sa_off a)))"
proof -
  note S = small_size [OF assms(3)]
  have "i64 (sa_off a + int (unat sz)) = sa_off a + int (unat sz)" "i64 (sa_off a) = sa_off a"
    using assms(1,2) S by (auto intro!: i64_id simp del: of_nat_unat)
  moreover have "0 < unat sz"
    using assms(4) by (simp add: unat_gt_0)
  ultimately show ?thesis
    using assms(1,4) S by (auto simp: smallArena_alloc_def Let_def simp del: of_nat_unat)
qed

text \<open>What an attempt on a list of slabs does: offsets grow, and the slab that answers had room.\<close>

definition slab_le :: "nat \<Rightarrow> smallArena \<Rightarrow> smallArena \<Rightarrow> bool" where
  "slab_le n a a' \<longleftrightarrow> sa_ptr a' = sa_ptr a \<and> sa_off a \<le> sa_off a' \<and> sa_off a' \<le> sa_off a + int n"

definition served :: "nat \<Rightarrow> smallArena list \<Rightarrow> smallArena list \<Rightarrow> uintptr \<Rightarrow> bool" where
  "served n as as' addr \<longleftrightarrow> (\<exists>i < length as. addr = sa_ptr (as ! i) + word_of_int (sa_off (as ! i)) \<and>
     sa_off (as ! i) + int n \<le> smallSlabSize \<and> sa_off (as' ! i) = sa_off (as ! i) + int n)"

lemma slab_le_refl: "list_all2 (slab_le n) as as"
  by (simp add: list_all2_refl slab_le_def)

lemma slab_le_step: "slab_le n a (a\<lparr>sa_off := sa_off a + int n\<rparr>)"
  by (simp add: slab_le_def)

lemma try_small_spec:
  assumes "\<forall>a \<in> set as. 0 \<le> sa_off a \<and> sa_off a + 4096 < 2 ^ 63" "sz \<le> smallThreshold" "sz \<noteq> 0"
  shows "list_all2 (slab_le (unat sz)) as (fst (try_small sz as)) \<and>
    (case snd (try_small sz as) of None \<Rightarrow> True
     | Some (Ok addr) \<Rightarrow> served (unat sz) as (fst (try_small sz as)) addr | _ \<Rightarrow> False)"
  using assms(1)
proof (induction as)
  case Nil
  then show ?case by simp
next
  case (Cons a as)
  have a: "0 \<le> sa_off a" "sa_off a + 4096 < 2 ^ 63"
    using Cons.prems by auto
  note E = smallArena_alloc_eq [OF a assms(2,3)]
  let ?a = "a\<lparr>sa_off := sa_off a + int (unat sz)\<rparr>"
  show ?case
  proof (cases "sa_off a + int (unat sz) > smallSlabSize")
    case True
    obtain as' r where T: "try_small sz as = (as', r)"
      by fastforce
    then have t: "try_small sz (a # as) = (?a # as', r)"
      using True by (simp add: E)
    have IH: "list_all2 (slab_le (unat sz)) as as'"
      "case r of None \<Rightarrow> True | Some (Ok addr) \<Rightarrow> served (unat sz) as as' addr | _ \<Rightarrow> False"
      using Cons.IH Cons.prems unfolding T fst_conv snd_conv by simp_all
    have "served (unat sz) (a # as) (?a # as') addr" if "served (unat sz) as as' addr" for addr
      using that unfolding served_def by (metis Suc_less_eq length_Cons nth_Cons_Suc)
    with IH slab_le_step [of "unat sz" a] show ?thesis
      unfolding t by (auto split: option.splits outcome.splits simp del: of_nat_unat)
  next
    case False
    then have "try_small sz (a # as) = (?a # as, Some (Ok (sa_ptr a + word_of_int (sa_off a))))"
      by (simp add: E)
    moreover have "served (unat sz) (a # as) (?a # as) (sa_ptr a + word_of_int (sa_off a))"
      using False unfolding served_def by (intro exI [of _ 0]) simp
    ultimately show ?thesis
      using slab_le_refl slab_le_step [of "unat sz" a] by (simp del: of_nat_unat)
  qed
qed

section \<open>Invariant\<close>

definition shard_ptrs :: "shard \<Rightarrow> uintptr list" where
  "shard_ptrs s = map sa_ptr (sh_small s @ sh_pool s)"

definition all_ptrs :: "shard list \<Rightarrow> uintptr list" where
  "all_ptrs ss = concat (map shard_ptrs ss)"

text \<open>Slabs do not overlap each other nor the mapping of the block allocator.\<close>

definition slabs_ok :: "nat set \<Rightarrow> uintptr list \<Rightarrow> bool" where
  "slabs_ok region ps \<longleftrightarrow> distinct ps \<and>
     (\<forall>p \<in> set ps. p \<noteq> 0 \<and> in_space p (nat smallSlabSize) \<and> slab_span p \<inter> region = {}) \<and>
     (\<forall>p \<in> set ps. \<forall>q \<in> set ps. p \<noteq> q \<longrightarrow> slab_span p \<inter> slab_span q = {})"

definition large_region :: "hybrid \<Rightarrow> nat set" where
  "large_region h = span (MmapBase (hy_large h)) (unat (MmapLength (hy_large h)))"

definition hybrid_inv :: "hybrid \<Rightarrow> bool" where
  "hybrid_inv h \<longleftrightarrow> balloc_inv (hy_large h) \<and> length (hy_shards h) = smallShards \<and>
     slabs_ok (large_region h) (all_ptrs (hy_shards h)) \<and>
     (\<forall>s \<in> set (hy_shards h). \<forall>a \<in> set (sh_small s). 0 \<le> sa_off a)"

text \<open>What the code relies on of the address of a new slab: it is new memory, and not nil.\<close>

definition new_slab_ok :: "hybrid \<Rightarrow> uintptr \<Rightarrow> bool" where
  "new_slab_ok h p \<longleftrightarrow> p \<noteq> 0 \<and> in_space p (nat smallSlabSize) \<and> slab_span p \<inter> large_region h = {} \<and>
     (\<forall>q \<in> set (all_ptrs (hy_shards h)). slab_span p \<inter> slab_span q = {})"

definition offsets_small :: "hybrid \<Rightarrow> bool" where
  "offsets_small h \<longleftrightarrow> (\<forall>s \<in> set (hy_shards h). \<forall>a \<in> set (sh_small s). sa_off a + 8192 < 2 ^ 63)"

definition hybrid_used :: "hybrid \<Rightarrow> nat set" where
  "hybrid_used h = (\<Union>s \<in> set (hy_shards h). \<Union>a \<in> set (sh_small s). slab_used a) \<union> balloc_used (hy_large h)"

lemma slabs_ok_mset: "mset ps = mset qs \<Longrightarrow> slabs_ok region ps \<longleftrightarrow> slabs_ok region qs"
proof -
  assume m: "mset ps = mset qs"
  then have "set ps = set qs" "distinct ps = distinct qs"
    by (auto dest: mset_eq_setD mset_eq_imp_distinct_iff)
  then show ?thesis
    by (simp add: slabs_ok_def)
qed

lemma slab_nonempty: "unat p \<in> slab_span p"
  by (simp add: slab_span_def span_def smallSlabSize_def)

lemma new_slab_fresh: "new_slab_ok h p \<Longrightarrow> p \<notin> set (all_ptrs (hy_shards h))"
  using slab_nonempty [of p] by (auto simp: new_slab_ok_def)

lemma slabs_ok_new:
  assumes "slabs_ok (large_region h) (all_ptrs (hy_shards h))" "new_slab_ok h p"
  shows "slabs_ok (large_region h) (p # all_ptrs (hy_shards h))"
proof -
  have "\<forall>q \<in> set (all_ptrs (hy_shards h)). slab_span p \<inter> slab_span q = {} \<and> slab_span q \<inter> slab_span p = {}"
    using assms(2) unfolding new_slab_ok_def by blast
  with assms new_slab_fresh [OF assms(2)] show ?thesis
    unfolding slabs_ok_def new_slab_ok_def by simp
qed

lemma list_all2_slab:
  assumes "list_all2 (slab_le n) as as'"
  shows "map sa_ptr as' = map sa_ptr as"
    and "\<And>a. a \<in> set as \<Longrightarrow> \<exists>a' \<in> set as'. sa_ptr a' = sa_ptr a \<and> sa_off a \<le> sa_off a'"
    and "\<And>a'. a' \<in> set as' \<Longrightarrow> \<exists>a \<in> set as. sa_ptr a' = sa_ptr a \<and> sa_off a \<le> sa_off a' \<and> sa_off a' \<le> sa_off a + int n"
proof -
  have len: "length as' = length as"
    using assms by (simp add: list_all2_lengthD)
  have el: "slab_le n (as ! i) (as' ! i)" if "i < length as" for i
    using assms that by (rule list_all2_nthD)
  show "map sa_ptr as' = map sa_ptr as"
    using len el by (intro nth_equalityI) (auto simp: slab_le_def)
  show "\<exists>a' \<in> set as'. sa_ptr a' = sa_ptr a \<and> sa_off a \<le> sa_off a'" if "a \<in> set as" for a
    using that len el by (force simp: in_set_conv_nth slab_le_def)
  show "\<exists>a \<in> set as. sa_ptr a' = sa_ptr a \<and> sa_off a \<le> sa_off a' \<and> sa_off a' \<le> sa_off a + int n" if "a' \<in> set as'" for a'
    using that len el by (force simp: in_set_conv_nth slab_le_def)
qed

text \<open>
  The outcome of a small request on one shard: the answer \<open>q + k\<close> starts at or above the old
  offset of its slab \<open>q\<close>, the slab's new offset covers it, and no other slab lost bytes.
\<close>

definition small_served :: "nat \<Rightarrow> uintptr \<Rightarrow> shard \<Rightarrow> shard \<Rightarrow> uintptr \<Rightarrow> int \<Rightarrow> bool" where
  "small_served n p s s' q k \<longleftrightarrow>
     0 \<le> k \<and> k + int n \<le> smallSlabSize \<and>
     (\<exists>a' \<in> set (sh_small s'). sa_ptr a' = q \<and> sa_off a' = k + int n) \<and>
     (\<forall>a \<in> set (sh_small s). sa_ptr a = q \<longrightarrow> sa_off a \<le> k) \<and>
     (\<forall>a \<in> set (sh_small s). \<exists>a' \<in> set (sh_small s'). sa_ptr a' = sa_ptr a \<and> sa_off a \<le> sa_off a') \<and>
     (\<forall>a' \<in> set (sh_small s'). 0 \<le> sa_off a') \<and>
     (q \<in> set (shard_ptrs s) \<and> mset (shard_ptrs s') = mset (shard_ptrs s) \<or>
      q = p \<and> mset (shard_ptrs s') = add_mset p (mset (shard_ptrs s)))"

lemma served_small:
  assumes d: "distinct (shard_ptrs s)" and le: "list_all2 (slab_le n) (sh_small s) as1" "list_all2 (slab_le n) as1 as2"
    and sv: "served n as1 as2 addr" and pos: "\<forall>a \<in> set (sh_small s). 0 \<le> sa_off a"
  shows "\<exists>q k. addr = q + word_of_int k \<and> small_served n p s (s\<lparr>sh_small := as2\<rparr>) q k"
proof -
  from sv obtain i where i: "i < length as1" "addr = sa_ptr (as1 ! i) + word_of_int (sa_off (as1 ! i))"
    "sa_off (as1 ! i) + int n \<le> smallSlabSize" "sa_off (as2 ! i) = sa_off (as1 ! i) + int n"
    unfolding served_def by blast
  note L1 = list_all2_slab [OF le(1)] and L2 = list_all2_slab [OF le(2)]
  have len: "length as1 = length (sh_small s)" "length as2 = length as1"
    using le by (simp_all add: list_all2_lengthD)
  let ?q = "sa_ptr (as1 ! i)" and ?k = "sa_off (as1 ! i)"
  have old: "slab_le n (sh_small s ! i) (as1 ! i)"
    using le(1) i(1) len by (simp add: list_all2_nthD)
  have ptr2: "sa_ptr (as2 ! i) = ?q"
    using le(2) i(1) by (auto simp: slab_le_def dest: list_all2_nthD)
  have "0 \<le> sa_off (sh_small s ! i)"
    using pos i(1) len by simp
  then have k: "0 \<le> ?k"
    using old by (simp add: slab_le_def)
  have same: "sa_off a \<le> ?k" if a: "a \<in> set (sh_small s)" "sa_ptr a = ?q" for a
  proof -
    from a(1) obtain j where j: "j < length (sh_small s)" "sh_small s ! j = a"
      by (auto simp: in_set_conv_nth)
    have "distinct (map sa_ptr (sh_small s))"
      using d by (simp add: shard_ptrs_def)
    moreover have "map sa_ptr (sh_small s) ! j = map sa_ptr (sh_small s) ! i"
      using j a(2) i(1) len old by (simp add: slab_le_def)
    ultimately have "j = i"
      using j(1) i(1) len by (simp add: distinct_conv_nth) metis
    then show ?thesis
      using old j by (simp add: slab_le_def)
  qed
  have "small_served n p s (s\<lparr>sh_small := as2\<rparr>) ?q ?k"
    unfolding small_served_def
  proof (intro conjI)
    show "\<exists>a' \<in> set (sh_small (s\<lparr>sh_small := as2\<rparr>)). sa_ptr a' = ?q \<and> sa_off a' = ?k + int n"
      using i(1,4) len ptr2 by (intro bexI [of _ "as2 ! i"]) auto
    show "\<forall>a \<in> set (sh_small s). \<exists>a' \<in> set (sh_small (s\<lparr>sh_small := as2\<rparr>)). sa_ptr a' = sa_ptr a \<and> sa_off a \<le> sa_off a'"
      using L1(2) L2(2) by (simp, metis order.trans)
    show "\<forall>a' \<in> set (sh_small (s\<lparr>sh_small := as2\<rparr>)). 0 \<le> sa_off a'"
      using L1(3) L2(3) pos by (simp, metis order.trans)
    have "mset (shard_ptrs (s\<lparr>sh_small := as2\<rparr>)) = mset (shard_ptrs s)"
      using L1(1) L2(1) by (simp add: shard_ptrs_def)
    moreover have "?q \<in> set (shard_ptrs s)"
      using i(1) len old by (auto simp: shard_ptrs_def slab_le_def intro!: image_eqI [of _ sa_ptr "sh_small s ! i"])
    ultimately show "?q \<in> set (shard_ptrs s) \<and> mset (shard_ptrs (s\<lparr>sh_small := as2\<rparr>)) = mset (shard_ptrs s) \<or>
        ?q = p \<and> mset (shard_ptrs (s\<lparr>sh_small := as2\<rparr>)) = add_mset p (mset (shard_ptrs s))"
      by blast
  qed (use k i same in auto)
  with i(2) show ?thesis by blast
qed

text \<open>The slab taken from the pool, or the new one.\<close>

lemma slab_le_trans:
  "list_all2 (slab_le n) as bs \<Longrightarrow> list_all2 (slab_le m) bs cs \<Longrightarrow> list_all2 (slab_le (n + m)) as cs"
  by (rule list_all2_trans [of "slab_le n" "slab_le m"]) (auto simp: slab_le_def)

lemma fresh_small:
  assumes d: "distinct (shard_ptrs s)" and le: "list_all2 (slab_le k) (sh_small s) as"
    and pos: "\<forall>a \<in> set (sh_small s). 0 \<le> sa_off a" and n: "n \<le> 4096" and p: "p \<notin> set (shard_ptrs s)"
    and t: "(case pool_take c (sh_pool s) of Some (a, rest) \<Rightarrow> (a, rest) | None \<Rightarrow> (newSmallArena p, sh_pool s)) = (a, pool)"
  shows "small_served n p s \<lparr>sh_small = as @ [a\<lparr>sa_off := int n\<rparr>], sh_pool = pool\<rparr> (sa_ptr a) 0"
proof -
  note L = list_all2_slab [OF le]
  have a: "sa_ptr a \<notin> sa_ptr ` set (sh_small s)"
    and m: "sa_ptr a \<in> set (shard_ptrs s) \<and> mset (map sa_ptr (sh_pool s)) = add_mset (sa_ptr a) (mset (map sa_ptr pool)) \<or>
       sa_ptr a = p \<and> pool = sh_pool s"
  proof -
    have "sa_ptr a \<notin> sa_ptr ` set (sh_small s) \<and>
      (sa_ptr a \<in> set (shard_ptrs s) \<and> mset (map sa_ptr (sh_pool s)) = add_mset (sa_ptr a) (mset (map sa_ptr pool)) \<or>
       sa_ptr a = p \<and> pool = sh_pool s)"
    proof (cases "pool_take c (sh_pool s)")
      case None
      with t p show ?thesis
        by (auto simp: newSmallArena_def shard_ptrs_def)
    next
      case (Some ar)
      then obtain i where i: "i < length (sh_pool s)" "a = sh_pool s ! i" "pool = take i (sh_pool s) @ drop (Suc i) (sh_pool s)"
        using t by (auto simp: pool_take_def split: option.splits if_splits)
      then have split: "sh_pool s = take i (sh_pool s) @ a # drop (Suc i) (sh_pool s)"
        by (simp add: id_take_nth_drop)
      have "mset (sh_pool s) = add_mset a (mset pool)"
        by (subst split) (simp add: i(3))
      then have "mset (map sa_ptr (sh_pool s)) = add_mset (sa_ptr a) (mset (map sa_ptr pool))"
        by simp
      moreover have "a \<in> set (sh_pool s)"
        using i(1,2) by simp
      ultimately show ?thesis
        using d by (auto simp: shard_ptrs_def)
    qed
    then show "sa_ptr a \<notin> sa_ptr ` set (sh_small s)"
      and "sa_ptr a \<in> set (shard_ptrs s) \<and> mset (map sa_ptr (sh_pool s)) = add_mset (sa_ptr a) (mset (map sa_ptr pool)) \<or>
       sa_ptr a = p \<and> pool = sh_pool s"
      by blast+
  qed
  let ?s = "\<lparr>sh_small = as @ [a\<lparr>sa_off := int n\<rparr>], sh_pool = pool\<rparr>"
  have small: "mset (map sa_ptr as) = mset (map sa_ptr (sh_small s))"
    using L(1) by simp
  show ?thesis
    unfolding small_served_def
  proof (intro conjI)
    show "\<forall>x \<in> set (sh_small s). sa_ptr x = sa_ptr a \<longrightarrow> sa_off x \<le> 0"
      using a by (auto simp: image_iff)
    show "\<forall>x \<in> set (sh_small s). \<exists>a' \<in> set (sh_small ?s). sa_ptr a' = sa_ptr x \<and> sa_off x \<le> sa_off a'"
      using L(2) by fastforce
    show "\<forall>a' \<in> set (sh_small ?s). 0 \<le> sa_off a'"
      using L(3) pos by (auto intro: order.trans)
    show "sa_ptr a \<in> set (shard_ptrs s) \<and> mset (shard_ptrs ?s) = mset (shard_ptrs s) \<or>
        sa_ptr a = p \<and> mset (shard_ptrs ?s) = add_mset p (mset (shard_ptrs s))"
      using m small by (auto simp: shard_ptrs_def simp del: mset_map)
  qed (use n in \<open>auto simp: smallSlabSize_def\<close>)
qed

lemma try_small_shard:
  assumes "\<forall>a \<in> set as. 0 \<le> sa_off a \<and> sa_off a + 4096 < 2 ^ 63" "sz \<le> smallThreshold" "sz \<noteq> 0"
    and "try_small sz as = (as', r)"
  shows "list_all2 (slab_le (unat sz)) as as'" "r = None \<or> (\<exists>addr. r = Some (Ok addr) \<and> served (unat sz) as as' addr)"
proof -
  note T = try_small_spec [OF assms(1-3), unfolded assms(4) fst_conv snd_conv]
  then show "list_all2 (slab_le (unat sz)) as as'" by blast
  show "r = None \<or> (\<exists>addr. r = Some (Ok addr) \<and> served (unat sz) as as' addr)"
    using T by (auto split: option.splits outcome.splits)
qed

lemma allocSmall_spec:
  assumes d: "distinct (shard_ptrs s)" and pos: "\<forall>a \<in> set (sh_small s). 0 \<le> sa_off a \<and> sa_off a + 8192 < 2 ^ 63"
    and sz: "sz \<le> smallThreshold" "sz \<noteq> 0" and p: "p \<notin> set (shard_ptrs s)"
    and s: "hy_shards h = us @ s # vs" "length us = unat (tid mod 8)"
  shows "\<exists>s' q k. allocSmall h c p sz tid = (h\<lparr>hy_shards := us @ s' # vs\<rparr>, Ok (q + word_of_int k)) \<and>
    small_served (unat sz) p s s' q k"
proof -
  have n: "0 < unat sz" "unat sz \<le> 4096" "sint sz = int (unat sz)"
    using small_size [OF sz(1)] sz(2) by (auto simp: unat_gt_0)
  have sel: "hy_shards h ! unat (tid mod 8) = s"
    using s by (simp add: nth_append flip: s(2))
  have set_sm: "set_small h (unat (tid mod 8)) x y = h\<lparr>hy_shards := us @ \<lparr>sh_small = x, sh_pool = y\<rparr> # vs\<rparr>" for x y
    using s(1) by (simp add: set_small_def list_update_append flip: s(2))
  have sh: "s\<lparr>sh_small := x\<rparr> = \<lparr>sh_small = x, sh_pool = sh_pool s\<rparr>" for x
    by (cases s) simp
  have p0: "\<forall>a \<in> set (sh_small s). 0 \<le> sa_off a"
    using pos by blast
  obtain as1 r1 where T1: "try_small sz (sh_small s) = (as1, r1)" by fastforce
  have "\<forall>a \<in> set (sh_small s). 0 \<le> sa_off a \<and> sa_off a + 4096 < 2 ^ 63"
    using pos by auto
  note R1 = try_small_shard [OF this sz T1]
  show ?thesis
  proof (cases r1)
    case (Some r)
    with R1(2) obtain addr where r: "r = Ok addr" "served (unat sz) (sh_small s) as1 addr" by auto
    from served_small [OF d slab_le_refl R1(1) r(2) p0, of p] obtain q k where
      "addr = q + word_of_int k" "small_served (unat sz) p s (s\<lparr>sh_small := as1\<rparr>) q k" by blast
    with T1 Some r show ?thesis
      by (auto simp: allocSmall_def sel set_sm sh)
  next
    case None
    obtain as2 r2 where T2: "try_small sz as1 = (as2, r2)" by fastforce
    have "\<forall>a \<in> set as1. 0 \<le> sa_off a \<and> sa_off a + 4096 < 2 ^ 63"
    proof
      fix a
      assume "a \<in> set as1"
      from list_all2_slab(3) [OF R1(1) this] obtain x where
        x: "x \<in> set (sh_small s)" "sa_off x \<le> sa_off a" "sa_off a \<le> sa_off x + int (unat sz)" by blast
      with pos have "0 \<le> sa_off x" "sa_off x + 8192 < 2 ^ 63" by auto
      moreover have "int (unat sz) \<le> 4096"
        using n(2) by linarith
      ultimately show "0 \<le> sa_off a \<and> sa_off a + 4096 < 2 ^ 63"
        using x(2,3) by linarith
    qed
    note R2 = try_small_shard [OF this sz T2]
    show ?thesis
    proof (cases r2)
      case (Some r)
      with R2(2) obtain addr where r: "r = Ok addr" "served (unat sz) as1 as2 addr" by auto
      from served_small [OF d R1(1) R2(1) r(2) p0, of p] obtain q k where
        "addr = q + word_of_int k" "small_served (unat sz) p s (s\<lparr>sh_small := as2\<rparr>) q k" by blast
      with T1 T2 None Some r show ?thesis
        by (auto simp: allocSmall_def sel set_sm sh)
    next
      case none: None
      obtain a pool where t: "(case pool_take c (sh_pool s) of Some (a, rest) \<Rightarrow> (a, rest)
          | None \<Rightarrow> (newSmallArena p, sh_pool s)) = (a, pool)"
        by fastforce
      have "smallArena_alloc (smallArena_reset a) sz = (a\<lparr>sa_off := int (unat sz)\<rparr>, Ok (sa_ptr a + word_of_int 0))"
        using smallArena_alloc_eq [of "smallArena_reset a" sz] sz n(2)
        by (simp add: smallArena_reset_def smallSlabSize_def del: of_nat_unat)
      with T1 T2 None none t have "allocSmall h c p sz tid =
          (h\<lparr>hy_shards := us @ \<lparr>sh_small = as2 @ [a\<lparr>sa_off := int (unat sz)\<rparr>], sh_pool = pool\<rparr> # vs\<rparr>,
           Ok (sa_ptr a + word_of_int 0))"
        unfolding allocSmall_def Let_def sel by (simp add: set_sm del: of_nat_unat)
      with fresh_small [OF d slab_le_trans [OF R1(1) R2(1)] p0 n(2) p t] show ?thesis by blast
    qed
  qed
qed

section \<open>The allocator contract\<close>

text \<open>A request, with the choice of the pool and the address of a new slab.\<close>

type_synonym hybrid_request = "uintptr \<times> u64 \<times> u64 \<times> u64 \<times> nat option \<times> uintptr"

definition hybrid_request :: "u64 \<Rightarrow> hybrid \<Rightarrow> hybrid_request \<Rightarrow> hybrid \<times> uintptr outcome" where
  "hybrid_request poly h = (\<lambda>(sz, m, tid, cid, c, p). map_prod id (map_outcome fst) (hybrid_Alloc poly h c p sz m tid cid))"

definition hybrid_need :: "hybrid_request \<Rightarrow> nat" where
  "hybrid_need r = unat (fst r)"

definition hybrid_ready :: "hybrid \<Rightarrow> hybrid_request \<Rightarrow> bool" where
  "hybrid_ready h = (\<lambda>(sz, m, tid, cid, c, p).
     if sz \<le> smallThreshold then offsets_small h \<and> new_slab_ok h p else no_wrap (hy_large h) sz)"

lemma shard_split:
  assumes "length ss = smallShards"
  obtains us s vs where "ss = us @ s # vs" "length us = unat (tid mod (8 :: u64))"
proof -
  let ?i = "unat (tid mod 8)"
  have "?i < length ss"
    using assms unat_mod_less_u64 [of 8 tid] by (simp add: smallShards_def)
  then have "ss = take ?i ss @ ss ! ?i # drop (Suc ?i) ss" "length (take ?i ss) = ?i"
    by (auto simp: id_take_nth_drop)
  then show thesis
    by (rule that)
qed

lemma all_ptrs_split: "all_ptrs (us @ s # vs) = all_ptrs us @ shard_ptrs s @ all_ptrs vs"
  by (simp add: all_ptrs_def)

lemma small_ptr_in: "s \<in> set ss \<Longrightarrow> a \<in> set (sh_small s) \<Longrightarrow> sa_ptr a \<in> set (all_ptrs ss)"
  by (auto simp: all_ptrs_def shard_ptrs_def)

text \<open>The bytes a slab hands out next meet nothing that the slabs have handed out.\<close>

lemma small_chunk:
  assumes "in_space q (nat smallSlabSize)" "0 \<le> k" "k + int n \<le> smallSlabSize"
  shows "span (q + word_of_int k) n = {unat q + nat k ..< unat q + nat k + n}"
    "span (q + word_of_int k) n \<subseteq> slab_span q"
proof -
  have "nat k \<le> nat smallSlabSize"
    using assms(3) by simp
  from in_space_add [OF assms(1) this] have "unat (q + word_of_int k) = unat q + nat k"
    using assms(2) by simp
  then show "span (q + word_of_int k) n = {unat q + nat k ..< unat q + nat k + n}"
    by (simp add: span_def)
  then show "span (q + word_of_int k) n \<subseteq> slab_span q"
    using assms(2,3) by (auto simp: slab_span_def span_def)
qed

lemma slab_used_sub: "slab_used a \<subseteq> slab_span (sa_ptr a)"
  by (auto simp: slab_used_def slab_span_def span_def)

lemma balloc_used_region:
  assumes "balloc_inv (hy_large h)"
  shows "balloc_used (hy_large h) \<subseteq> large_region h"
proof
  fix x
  assume "x \<in> balloc_used (hy_large h)"
  then obtain a s w where b: "balloc_blocks (hy_large h) a = Some (s, w)" "x \<in> span a (unat s)"
    by (auto simp: balloc_used_iff)
  have "layout (hy_large h)"
    using assms refines_fields(1) by (auto simp: balloc_inv_def)
  then have "unat (payloadEnd (hy_large h)) = unat (MmapBase (hy_large h)) + unat (MmapLength (hy_large h))"
    "unat (MmapBase (hy_large h)) \<le> unat (payloadBase (hy_large h))"
    by (auto simp: layout_def)
  with balloc_inv_block [OF assms b(1)] b(2) show "x \<in> large_region h"
    by (auto simp: large_region_def span_def)
qed

lemma hybrid_small_step:
  assumes inv: "hybrid_inv h" and rd: "offsets_small h" "new_slab_ok h p" and sz: "sz \<le> smallThreshold" "sz \<noteq> 0"
  obtains us s s' vs q k where "hy_shards h = us @ s # vs"
    "allocSmall h c p sz tid = (h\<lparr>hy_shards := us @ s' # vs\<rparr>, Ok (q + word_of_int k))"
    "small_served (unat sz) p s s' q k"
proof -
  have len: "length (hy_shards h) = smallShards"
    using inv by (simp add: hybrid_inv_def)
  from shard_split [OF this, of tid] obtain us s vs where
    s: "hy_shards h = us @ s # vs" "length us = unat (tid mod 8)" .
  have "distinct (shard_ptrs s)"
    using inv by (auto simp: hybrid_inv_def slabs_ok_def s(1) all_ptrs_split)
  moreover have "\<forall>a \<in> set (sh_small s). 0 \<le> sa_off a \<and> sa_off a + 8192 < 2 ^ 63"
    using inv rd(1) by (auto simp: hybrid_inv_def offsets_small_def s(1))
  moreover have "p \<notin> set (shard_ptrs s)"
    using new_slab_fresh [OF rd(2)] by (auto simp: s(1) all_ptrs_split)
  ultimately show thesis
    using allocSmall_spec [OF _ _ sz _ s] that s(1) by blast
qed

lemma small_step_slabs:
  assumes inv: "hybrid_inv h" and p: "new_slab_ok h p" and s: "hy_shards h = us @ s # vs"
    and sv: "small_served n p s s' q k"
  shows "slabs_ok (large_region h) (all_ptrs (us @ s' # vs))"
    and "q \<in> set (all_ptrs (us @ s' # vs))"
proof -
  have ok: "slabs_ok (large_region h) (all_ptrs (hy_shards h))"
    using inv by (simp add: hybrid_inv_def)
  have m: "mset (shard_ptrs s') = mset (shard_ptrs s) \<or> mset (shard_ptrs s') = add_mset p (mset (shard_ptrs s))"
    using sv by (auto simp: small_served_def)
  then have "mset (all_ptrs (us @ s' # vs)) = mset (all_ptrs (hy_shards h)) \<or>
      mset (all_ptrs (us @ s' # vs)) = mset (p # all_ptrs (hy_shards h))"
    by (auto simp: s all_ptrs_split)
  then show "slabs_ok (large_region h) (all_ptrs (us @ s' # vs))"
    using ok slabs_ok_new [OF ok p] slabs_ok_mset by metis
  have "q \<in> sa_ptr ` set (sh_small s')"
    using sv by (auto simp: small_served_def)
  then show "q \<in> set (all_ptrs (us @ s' # vs))"
    by (auto simp: all_ptrs_split shard_ptrs_def)
qed

lemma small_step_contract:
  assumes inv: "hybrid_inv h" and p: "new_slab_ok h p" and s: "hy_shards h = us @ s # vs"
    and sv: "small_served n p s s' q k"
  defines "h' \<equiv> h\<lparr>hy_shards := us @ s' # vs\<rparr>"
  shows "hybrid_inv h'" "hybrid_used h \<subseteq> hybrid_used h'"
    "span (q + word_of_int k) n \<subseteq> hybrid_used h'" "span (q + word_of_int k) n \<inter> hybrid_used h = {}"
proof -
  note slabs = small_step_slabs [OF inv p s sv]
  have reg: "large_region h' = large_region h"
    by (simp add: h'_def large_region_def)
  have K: "0 \<le> k" "k + int n \<le> smallSlabSize"
    "\<exists>a' \<in> set (sh_small s'). sa_ptr a' = q \<and> sa_off a' = k + int n"
    "\<And>a. a \<in> set (sh_small s) \<Longrightarrow> sa_ptr a = q \<Longrightarrow> sa_off a \<le> k"
    "\<And>a. a \<in> set (sh_small s) \<Longrightarrow> \<exists>a' \<in> set (sh_small s'). sa_ptr a' = sa_ptr a \<and> sa_off a \<le> sa_off a'"
    "\<And>a'. a' \<in> set (sh_small s') \<Longrightarrow> 0 \<le> sa_off a'"
    using sv by (auto simp: small_served_def)
  have sp: "in_space q (nat smallSlabSize)" "slab_span q \<inter> large_region h = {}"
    using slabs by (auto simp: slabs_ok_def)
  note C = small_chunk [OF sp(1) K(1,2)]
  show "hybrid_inv h'"
    using inv slabs(1) K(6) by (auto simp: hybrid_inv_def h'_def s reg [unfolded h'_def])
  show "hybrid_used h \<subseteq> hybrid_used h'"
  proof -
    have "slab_used a \<subseteq> (\<Union>a \<in> set (sh_small s'). slab_used a)" if "a \<in> set (sh_small s)" for a
    proof -
      from K(5) [OF that] obtain a' where "a' \<in> set (sh_small s')" "sa_ptr a' = sa_ptr a" "sa_off a \<le> sa_off a'" by blast
      moreover from this have "slab_used a \<subseteq> slab_used a'"
        by (auto simp: slab_used_def span_def)
      ultimately show ?thesis by blast
    qed
    then show ?thesis
      unfolding hybrid_used_def h'_def s by auto
  qed
  from K(3) obtain a' where a': "a' \<in> set (sh_small s')" "sa_ptr a' = q" "sa_off a' = k + int n" by blast
  have "span (q + word_of_int k) n \<subseteq> slab_used a'"
    using C(1) K(1,2) a'(2,3) by (auto simp: slab_used_def span_def)
  then show "span (q + word_of_int k) n \<subseteq> hybrid_used h'"
    using a'(1) by (auto simp: hybrid_used_def h'_def)
  have "span (q + word_of_int k) n \<inter> slab_used a = {}" if t: "t \<in> set (hy_shards h)" "a \<in> set (sh_small t)" for t a
  proof (cases "sa_ptr a = q")
    case True
    have "q \<in> set (shard_ptrs s')"
      using a' by (auto simp: shard_ptrs_def)
    moreover have "distinct (all_ptrs us @ shard_ptrs s' @ all_ptrs vs)"
      using slabs(1) by (simp add: slabs_ok_def all_ptrs_split)
    ultimately have "q \<notin> set (all_ptrs us)" "q \<notin> set (all_ptrs vs)"
      by auto
    then have "a \<in> set (sh_small s)"
      using t s True small_ptr_in by fastforce
    then have "sa_off a \<le> k"
      using K(4) True by blast
    then show ?thesis
      using C(1) True K(1) by (auto simp: slab_used_def span_def)
  next
    case False
    have "set (all_ptrs (hy_shards h)) \<subseteq> set (all_ptrs (us @ s' # vs))"
    proof -
      have "set (shard_ptrs s) \<subseteq> set (shard_ptrs s')"
        using sv unfolding small_served_def by (metis mset_eq_setD set_mset_add_mset_insert set_mset_mset subset_insertI subset_refl)
      then show ?thesis
        by (auto simp: s all_ptrs_split)
    qed
    then have "sa_ptr a \<in> set (all_ptrs (us @ s' # vs))"
      using small_ptr_in [OF t] by blast
    then have "slab_span q \<inter> slab_span (sa_ptr a) = {}"
      using slabs False by (auto simp: slabs_ok_def)
    then show ?thesis
      using C(2) slab_used_sub [of a] by blast
  qed
  moreover have "span (q + word_of_int k) n \<inter> balloc_used (hy_large h) = {}"
    using C(2) sp(2) balloc_used_region [of h] inv by (auto simp: hybrid_inv_def)
  ultimately show "span (q + word_of_int k) n \<inter> hybrid_used h = {}"
    unfolding hybrid_used_def by blast
qed

text \<open>A request for nothing: no address is used up, at most an idle slab is brought in.\<close>

lemma allocSmall_zero:
  assumes inv: "hybrid_inv h" and p: "new_slab_ok h p"
  obtains "allocSmall h c p 0 tid = (h, Ok 0)"
  | us s s' vs q where "hy_shards h = us @ s # vs" "small_served 0 p s s' q 0"
      "allocSmall h c p 0 tid = (h\<lparr>hy_shards := us @ s' # vs\<rparr>, Ok 0)"
proof -
  have len: "length (hy_shards h) = smallShards"
    using inv by (simp add: hybrid_inv_def)
  from shard_split [OF this, of tid] obtain us s vs where
    s: "hy_shards h = us @ s # vs" "length us = unat (tid mod 8)" .
  have sel: "hy_shards h ! unat (tid mod 8) = s"
    using s by (simp add: nth_append flip: s(2))
  have set_sm: "set_small h (unat (tid mod 8)) x y = h\<lparr>hy_shards := us @ \<lparr>sh_small = x, sh_pool = y\<rparr> # vs\<rparr>" for x y
    using s(1) by (simp add: set_small_def list_update_append flip: s(2))
  have d: "distinct (shard_ptrs s)" and p0: "\<forall>a \<in> set (sh_small s). 0 \<le> sa_off a"
    using inv by (auto simp: hybrid_inv_def slabs_ok_def s(1) all_ptrs_split)
  have pf: "p \<notin> set (shard_ptrs s)"
    using new_slab_fresh [OF p] by (auto simp: s(1) all_ptrs_split)
  show thesis
  proof (cases "sh_small s")
    case Nil
    obtain a pool where t: "(case pool_take c (sh_pool s) of Some (a, rest) \<Rightarrow> (a, rest)
        | None \<Rightarrow> (newSmallArena p, sh_pool s)) = (a, pool)"
      by fastforce
    have "allocSmall h c p 0 tid = (h\<lparr>hy_shards := us @ \<lparr>sh_small = [] @ [a\<lparr>sa_off := int 0\<rparr>], sh_pool = pool\<rparr> # vs\<rparr>, Ok 0)"
      unfolding allocSmall_def Let_def sel using Nil t
      by (simp add: set_sm smallArena_alloc_def smallArena_reset_def)
    moreover have "small_served 0 p s \<lparr>sh_small = [] @ [a\<lparr>sa_off := int 0\<rparr>], sh_pool = pool\<rparr> (sa_ptr a) 0"
      by (rule fresh_small [OF d _ p0 _ pf t, of 0]) (simp_all add: Nil)
    ultimately show thesis
      using that(2) s(1) by blast
  next
    case (Cons a as)
    have "us @ \<lparr>sh_small = a # as, sh_pool = sh_pool s\<rparr> # vs = hy_shards h"
      using s(1) Cons by (cases s) simp
    then have "allocSmall h c p 0 tid = (h, Ok 0)"
      unfolding allocSmall_def Let_def sel using Cons
      by (simp add: set_sm smallArena_alloc_def)
    then show thesis
      by (rule that(1))
  qed
qed

lemma alloc_node_mmap:
  "MmapBase (fst (alloc_node b a s m k)) = MmapBase b \<and> MmapLength (fst (alloc_node b a s m k)) = MmapLength b"
  by (auto simp: alloc_node_def newNode_def Let_def split: option.splits outcome.splits)

lemma balloc_Alloc_mmap:
  "MmapBase (fst (balloc_Alloc poly b sz m tid cid)) = MmapBase b \<and>
   MmapLength (fst (balloc_Alloc poly b sz m tid cid)) = MmapLength b"
  by (auto simp: balloc_Alloc_def alloc_node_mmap Let_def split: option.splits outcome.splits)

lemma large_step_contract:
  assumes inv: "hybrid_inv h" and nw: "no_wrap (hy_large h) sz"
    and eq: "hybrid_large poly h sz m tid cid = (h', r)"
  shows "hybrid_inv h'" "hybrid_used h \<subseteq> hybrid_used h'"
    "r = Ok (a, k) \<Longrightarrow> span a (unat sz) \<subseteq> hybrid_used h' \<and> span a (unat sz) \<inter> hybrid_used h = {}"
proof -
  let ?b = "hy_large h" and ?r = "(sz, m, tid, cid)"
  let ?b' = "fst (balloc_request poly ?b ?r)"
  have b: "balloc_inv ?b" "balloc_ready ?b ?r"
    using inv nw by (auto simp: hybrid_inv_def balloc_ready_def)
  have h': "h' = h\<lparr>hy_large := ?b'\<rparr>" and r: "r = snd (balloc_Alloc poly ?b sz m tid cid)"
    using eq by (auto simp: hybrid_large_def balloc_request_def map_prod_def split: prod.splits)
  have reg: "large_region h' = large_region h"
    using balloc_Alloc_mmap by (simp add: h' large_region_def balloc_request_def)
  show inv': "hybrid_inv h'"
    using inv balloc_if.alloc_invar [OF b] reg by (simp add: hybrid_inv_def h')
  show "hybrid_used h \<subseteq> hybrid_used h'"
    using balloc_if.alloc_keep [OF b] by (auto simp: hybrid_used_def h')
  assume ok: "r = Ok (a, k)"
  then have req: "snd (balloc_request poly ?b ?r) = Ok a"
    using r by (simp add: balloc_request_def)
  note U = balloc_if.alloc_used [OF b req] and F = balloc_if.alloc_fresh [OF b req]
  have "span a (unat sz) \<subseteq> large_region h"
    using U balloc_used_region [of h'] inv' reg by (auto simp: hybrid_inv_def h' request_size_def)
  moreover have "slab_used x \<inter> large_region h = {}" if "s \<in> set (hy_shards h)" "x \<in> set (sh_small s)" for s x
    using small_ptr_in [OF that] inv slab_used_sub [of x] by (auto simp: hybrid_inv_def slabs_ok_def)
  ultimately show "span a (unat sz) \<subseteq> hybrid_used h' \<and> span a (unat sz) \<inter> hybrid_used h = {}"
    using U F by (fastforce simp: hybrid_used_def h' request_size_def)
qed

lemma hybrid_request_contract:
  assumes inv: "hybrid_inv h" and rd: "hybrid_ready h r"
  shows "hybrid_inv (fst (hybrid_request poly h r))" "hybrid_used h \<subseteq> hybrid_used (fst (hybrid_request poly h r))"
    "snd (hybrid_request poly h r) = Ok a \<Longrightarrow>
       span a (hybrid_need r) \<subseteq> hybrid_used (fst (hybrid_request poly h r)) \<and> span a (hybrid_need r) \<inter> hybrid_used h = {}"
proof -
  obtain sz m tid cid c p where r: "r = (sz, m, tid, cid, c, p)"
    by (cases r)
  let ?R = "hybrid_inv (fst (hybrid_request poly h r)) \<and> hybrid_used h \<subseteq> hybrid_used (fst (hybrid_request poly h r)) \<and>
    (snd (hybrid_request poly h r) = Ok a \<longrightarrow>
       span a (hybrid_need r) \<subseteq> hybrid_used (fst (hybrid_request poly h r)) \<and> span a (hybrid_need r) \<inter> hybrid_used h = {})"
  have ?R
  proof (cases "sz \<le> smallThreshold")
    case small: True
    then have g: "offsets_small h" "new_slab_ok h p"
      using rd by (auto simp: hybrid_ready_def r)
    show ?thesis
    proof (cases "sz = 0")
      case True
      show ?thesis
      proof (rule allocSmall_zero [OF inv g(2), of c tid])
        assume "allocSmall h c p 0 tid = (h, Ok 0)"
        then show ?thesis
          using inv small True by (simp add: hybrid_request_def hybrid_Alloc_def r hybrid_need_def span_def)
      next
        fix us s s' vs q
        assume A: "hy_shards h = us @ s # vs" "small_served 0 p s s' q 0"
          "allocSmall h c p 0 tid = (h\<lparr>hy_shards := us @ s' # vs\<rparr>, Ok 0)"
        show ?thesis
          using small_step_contract(1,2) [OF inv g(2) A(1,2)] A(3) small True
          by (simp add: hybrid_request_def hybrid_Alloc_def r hybrid_need_def span_def)
      qed
    next
      case False
      show ?thesis
      proof (rule hybrid_small_step [OF inv g small False, of c tid])
        fix us s s' vs q k
        assume A: "hy_shards h = us @ s # vs"
          "allocSmall h c p sz tid = (h\<lparr>hy_shards := us @ s' # vs\<rparr>, Ok (q + word_of_int k))"
          "small_served (unat sz) p s s' q k"
        show ?thesis
          using small_step_contract [OF inv g(2) A(1,3)] A(2) small
          by (simp add: hybrid_request_def hybrid_Alloc_def r hybrid_need_def) blast
      qed
    qed
  next
    case False
    obtain h' res where L: "hybrid_large poly h sz m tid cid = (h', res)" by fastforce
    have "no_wrap (hy_large h) sz"
      using rd False by (simp add: hybrid_ready_def r)
    note C = large_step_contract [OF inv this L]
    have "hybrid_request poly h r = (h', map_outcome fst res)"
      using False L by (simp add: hybrid_request_def hybrid_Alloc_def r)
    then show ?thesis
      using C by (auto simp: hybrid_need_def r map_outcome_Ok)
  qed
  then show "hybrid_inv (fst (hybrid_request poly h r))" "hybrid_used h \<subseteq> hybrid_used (fst (hybrid_request poly h r))"
    "snd (hybrid_request poly h r) = Ok a \<Longrightarrow>
       span a (hybrid_need r) \<subseteq> hybrid_used (fst (hybrid_request poly h r)) \<and> span a (hybrid_need r) \<inter> hybrid_used h = {}"
    by blast+
qed

interpretation hybrid_if: allocator "hybrid_request poly" hybrid_need hybrid_inv hybrid_ready hybrid_used
  for poly
  by unfold_locales (use hybrid_request_contract in blast)+

end
