(* ===== verification/Balloc_Life.thy ===== *)
theory Balloc_Life
  imports Balloc_Props
begin

text \<open>
  The life of a block and of the allocator: owners and reclamation, reuse from the free list, the
  budget of the node area, \<open>New\<close>, \<open>Reset\<close> and \<open>Close\<close>; then what the code does outside the
  contract: a block freed twice, a size near the end of the address space, calls after \<open>Close\<close>.
\<close>

section \<open>Owners and reclamation\<close>

lemma reachable_refines:
  assumes "mmap_ok mm" "0 < scale" "scale < 2 ^ 63" "balloc_reachable scale mm poly b"
  obtains A where "balloc_refines b A" "spec_inv A" "balloc_blocks b = sp_blocks A"
  using balloc_reachable_inv [OF assms] refines_blocks by (auto simp: balloc_inv_def)

lemma refines_room:
  assumes "balloc_refines b A"
  shows "unat (nodeEnd b) < unat (nodeBump b) + n \<longleftrightarrow> meta_limit < sp_meta A + n"
  using refines_fields(1,3) [OF assms] by (simp add: layout_def)

text \<open>
  C5: \<open>Share\<close> adds owners to a block and \<open>FreeVarying\<close> removes exactly the given ones. While an
  owner is left the block stays and the result is false; when the last owner goes the block is
  reclaimed and the result is true, unless the node area has no room for the free slot: then the
  result is ErrOutOfMemory. An address that is no block is ErrNotFound. No other block changes.
\<close>

theorem balloc_owner_protocol:
  assumes "mmap_ok mm" "0 < scale" "scale < 2 ^ 63" "balloc_reachable scale mm poly b" "closed b = 0"
    and "unat (nodeBump b) + 24 < 2 ^ 64"
  shows "case balloc_blocks b a of
      None \<Rightarrow> balloc_Share b a m = (b, Err Balloc_ErrNotFound) \<and>
              balloc_FreeVarying b a m = (b, Err Balloc_ErrNotFound)
    | Some (s, w) \<Rightarrow>
        balloc_blocks (fst (balloc_Share b a m)) = (balloc_blocks b)(a \<mapsto> (s, w OR normalizeMask m)) \<and>
        snd (balloc_Share b a m) = Ok () \<and>
        balloc_blocks (fst (balloc_FreeVarying b a m)) = (balloc_blocks b)(a \<mapsto> (s, w AND NOT m)) \<and>
        snd (balloc_FreeVarying b a m) =
          (if w AND NOT m \<noteq> 0 then Ok False
           else if unat (nodeEnd b) < unat (nodeBump b) + 24 then Err Balloc_ErrOutOfMemory
           else Ok True)"
proof -
  from reachable_refines [OF assms(1-4)] obtain A where
    A: "balloc_refines b A" "balloc_blocks b = sp_blocks A" .
  note S = balloc_Share_sim [OF A(1) assms(5), of a m] and F = balloc_Free_sim [OF A(1) assms(5,6), of a m]
  show ?thesis
  proof (cases "sp_blocks A a")
    case None
    from A(1) obtain t xs where rel: "balloc_rel b A t xs"
      by (auto simp: balloc_refines_def)
    show ?thesis
      by (cases rule: find_rel [OF rel, of a])
         (use None A(2) open_mapped [OF rel assms(5)] in \<open>auto simp: balloc_Share_def balloc_FreeVarying_def\<close>)
  next
    case (Some d)
    obtain s w where d: "d = (s, w)" by (cases d)
    have "sp_blocks (fst (spec_Share A a m)) = (sp_blocks A)(a \<mapsto> (s, w OR normalizeMask m))"
      "sp_blocks (fst (spec_Free A a m)) = (sp_blocks A)(a \<mapsto> (s, w AND NOT m))"
      using Some d by (auto simp: spec_Share_def spec_Free_def Let_def)
    with Some d S F A(2) refines_room [OF A(1)] refines_blocks [OF conjunct1 [OF S]]
      refines_blocks [OF conjunct1 [OF F]] show ?thesis
      by (auto simp: spec_Share_def spec_Free_def Let_def)
  qed
qed

theorem balloc_owner_protocol_witness:
  "snd (balloc_Share sample_one 0x38000 6) = Ok () \<and>
   snd (balloc_FreeVarying sample_one 0x38000 4) = Ok False \<and>
   snd (balloc_FreeVarying sample_one 0x38000 3) = Ok True \<and>
   snd (balloc_FreeVarying sample_one 0x38008 1) = Err Balloc_ErrNotFound"
proof -
  have miss: "balloc_blocks sample_one 0x38008 = None"
    by (simp add: balloc_blocks_def tmap_def findNode.simps sample_one_fields)
  show ?thesis
    using balloc_owner_protocol [OF sample_mmap_ok _ _ sample_one_reachable, of "0x38000" 6]
      balloc_owner_protocol [OF sample_mmap_ok _ _ sample_one_reachable, of "0x38000" 4]
      balloc_owner_protocol [OF sample_mmap_ok _ _ sample_one_reachable, of "0x38000" 3]
      balloc_owner_protocol [OF sample_mmap_ok _ _ sample_one_reachable, of "0x38008" 1]
    by (simp add: sample_one_blocks miss sample_one_fields)
qed

text \<open>
  C6: a reclaimed block is the next one handed out. After \<open>FreeVarying\<close> has removed the last owner
  of a block, an \<open>Alloc\<close> of any size up to the size of that block returns its address, as long as
  the node area has room for one more free slot and one more node.
\<close>

theorem balloc_free_reuse:
  assumes "mmap_ok mm" "0 < scale" "scale < 2 ^ 63" "balloc_reachable scale mm poly b" "closed b = 0"
    and "balloc_blocks b a = Some (s, w)" "w \<noteq> 0" "w AND NOT m = 0"
    and "unat (nodeBump b) + 64 \<le> unat (nodeEnd b)" "0 < unat sz" "round8 (unat sz) \<le> unat s"
    and "no_wrap (fst (balloc_FreeVarying b a m)) sz"
  shows "snd (balloc_FreeVarying b a m) = Ok True \<and>
    (\<exists>k. snd (balloc_Alloc poly (fst (balloc_FreeVarying b a m)) sz m' tid cid) = Ok (a, k))"
proof -
  from reachable_refines [OF assms(1-4)] obtain A where
    A: "balloc_refines b A" "spec_inv A" "balloc_blocks b = sp_blocks A" .
  let ?b = "fst (balloc_FreeVarying b a m)"
  have meta: "sp_meta A + 64 \<le> meta_limit"
    using refines_room [OF A(1), of 64] assms(9) by simp
  have nw: "unat (nodeBump b) + 24 < 2 ^ 64"
    using le_less_trans [OF assms(9) unat_lt_u64] by simp
  have F: "sp_blocks A a = Some (s, w)"
    using A(3) assms(6) by simp
  then have free: "spec_Free A a m =
      (A\<lparr>sp_blocks := (sp_blocks A)(a \<mapsto> (s, 0)), sp_meta := sp_meta A + 24, sp_free := (a, s) # sp_free A,
         sp_active := sp_active A - 1\<rparr>, Ok True)"
    using assms(8) meta by (simp add: spec_Free_def Let_def)
  note S = balloc_Free_sim [OF A(1) assms(5) nw, of a m]
  have op: "closed ?b = 0"
    using balloc_call_closed [of poly b "CFree a m"] assms(5) by simp
  have "sz \<noteq> 0"
    using assms(10) by auto
  from balloc_Alloc_sim [OF conjunct1 [OF S] assms(12) this op, of poly tid cid m'] obtain k where
    "snd (balloc_Alloc poly ?b sz m' tid cid) =
       map_outcome (\<lambda>a. (a, k)) (snd (spec_Alloc (fst (spec_Free A a m)) sz m'))"
    by (auto simp: alloc_sim_def)
  moreover have "snd (spec_Alloc (fst (spec_Free A a m)) sz m') = Ok a"
    using assms(11) meta by (simp add: free spec_Alloc_def spec_node_def Let_def)
  ultimately show ?thesis
    using S by (simp add: free)
qed

lemma sample_freed:
  "bump (fst (balloc_FreeVarying sample_one 0x38000 1)) = 0x38068"
  "nodeBump (fst (balloc_FreeVarying sample_one 0x38000 1)) = 0x10040"
  by (simp_all add: balloc_FreeVarying_def findNode.simps sample_one_fields clearOwner_def newFreeSlot_def
      sizeof_freeSlot_def pushFree_def Let_def)

theorem balloc_free_reuse_witness:
  "snd (balloc_FreeVarying sample_one 0x38000 1) = Ok True \<and>
   (\<exists>k. snd (balloc_Alloc 0x11B (fst (balloc_FreeVarying sample_one 0x38000 1)) 64 2 5 7) = Ok (0x38000, k))"
proof -
  have "no_wrap (fst (balloc_FreeVarying sample_one 0x38000 1)) 64"
    by (simp add: no_wrap_def sample_freed)
  then show ?thesis
    using balloc_free_reuse [OF sample_mmap_ok _ _ sample_one_reachable, of "0x38000" 104 1 1 64 2 5 7]
    by (simp add: sample_one_blocks sample_one_fields round8_def)
qed

section \<open>The budget of the node area\<close>

text \<open>What a result says was taken from the node area: a node per block, a slot per reclamation.\<close>

fun result_cost :: "call_result \<Rightarrow> nat" where
  "result_cost (RAlloc (Ok a)) = 40"
| "result_cost (RBool (Ok True)) = 24"
| "result_cost r = 0"

fun total_cost :: "call_result list \<Rightarrow> nat" where
  "total_cost [] = 0"
| "total_cost (r # rs) = result_cost r + total_cost rs"

lemma spec_call_cost:
  assumes "spec_call A c = (A', r)" "c \<noteq> CReset"
  shows "sp_meta A \<le> sp_meta A'" "0 < result_cost r \<Longrightarrow> sp_meta A' = sp_meta A + result_cost r \<and> sp_meta A' \<le> meta_limit"
proof -
  have "sp_meta A \<le> sp_meta A' \<and>
      (0 < result_cost r \<longrightarrow> sp_meta A' = sp_meta A + result_cost r \<and> sp_meta A' \<le> meta_limit)"
    using assms
    by (cases c)
       (auto simp: spec_Alloc_def spec_bump_def spec_node_def spec_Share_def spec_Free_def Let_def
         split: if_splits list.splits option.splits)
  then show "sp_meta A \<le> sp_meta A'"
    "0 < result_cost r \<Longrightarrow> sp_meta A' = sp_meta A + result_cost r \<and> sp_meta A' \<le> meta_limit"
    by blast+
qed

lemma spec_run_cost:
  "CReset \<notin> set cs \<Longrightarrow>
   total_cost (snd (spec_run A cs)) = 0 \<or>
   sp_meta A + total_cost (snd (spec_run A cs)) \<le> meta_limit"
proof (induction cs arbitrary: A)
  case Nil
  then show ?case by simp
next
  case (Cons c cs)
  obtain A' r where c: "spec_call A c = (A', r)"
    by fastforce
  have nr: "c \<noteq> CReset" "CReset \<notin> set cs"
    using Cons.prems by auto
  have run: "snd (spec_run A (c # cs)) = r # snd (spec_run A' cs)"
    by (simp add: c Let_def split_beta)
  show ?case
    using Cons.IH [OF nr(2), of A'] spec_call_cost [OF c nr(1)] unfolding run
    by (cases "result_cost r") auto
qed

text \<open>
  C37: metadata is never recycled before \<open>Reset\<close>. In any sequence of calls on a new allocator
  without \<open>Reset\<close>, every successful \<open>Alloc\<close> takes 40 bytes and every reclamation 24 bytes of the
  node area of 163840 bytes: no more than 4096 blocks can be handed out, and no more than 2560
  can be handed out and reclaimed, however much payload is free.
\<close>

theorem balloc_node_budget:
  assumes "mmap_ok mm" "0 < scale" "scale < 2 ^ 63" "balloc_New scale mm len = Ok b" "run_fits poly b cs"
    and "CReset \<notin> set cs"
  shows "total_cost (snd (balloc_run poly b cs)) \<le> 163840"
proof -
  have "snd (balloc_run poly b cs) = snd (spec_run (spec_init b) cs)"
    using balloc_run_sim [OF spec_init_refines [OF assms(1-4)] balloc_New_layout(8) [OF assms(1-4)] assms(5)]
    by blast
  then show ?thesis
    using spec_run_cost [OF assms(6), of "spec_init b"] by (auto simp: spec_init_def meta_limit_def)
qed

theorem balloc_node_budget_witness:
  "total_cost (snd (balloc_run 0x11B sample_balloc [CAlloc 100 1 3 11, CFree 0x38000 1])) \<le> 163840"
proof (rule balloc_node_budget [OF sample_mmap_ok _ _ sample_New])
  show "run_fits 0x11B sample_balloc [CAlloc 100 1 3 11, CFree 0x38000 1]"
    by (simp add: sample_one_eq no_wrap_def sample_fields)
qed simp_all

text \<open>
  In every reachable state the number of blocks that have owners is at most \<open>activeBlocks\<close>,
  and \<open>activeBlocks\<close> is at most 4096: the counter does not wrap around below zero as long as only
  blocks with owners are freed.
\<close>

lemma balloc_active_bound:
  assumes "mmap_ok mm" "0 < scale" "scale < 2 ^ 63" "balloc_reachable scale mm poly b"
  shows "finite {a. owned b a} \<and> card {a. owned b a} \<le> unat (activeBlocks b) \<and> unat (activeBlocks b) \<le> 4096"
proof -
  from reachable_refines [OF assms] obtain A where
    A: "balloc_refines b A" "spec_inv A" "balloc_blocks b = sp_blocks A" .
  have "{a. owned b a} = live A"
    using refines_owned [OF A(1)] by auto
  moreover have "finite (live A)"
    using A(2) by (simp add: spec_inv_def finite_live)
  ultimately show ?thesis
    using A(2) refines_fields(4) [OF A(1)] by (auto simp: spec_inv_def active_ok_def meta_limit_def)
qed

lemma balloc_active_bound_example:
  "unat (activeBlocks sample_one) = 1 \<and> card {a. owned sample_one a} \<le> 1"
  using balloc_active_bound [OF sample_mmap_ok _ _ sample_one_reachable] by (simp add: sample_one_fields)

section \<open>Making, rewinding and closing an allocator\<close>

lemma balloc_New_spec:
  assumes "mmap_ok mm" "0 < scale" "scale < 2 ^ 63"
  shows "case balloc_New scale mm len of
      Ok b \<Rightarrow> (len = 0 \<or> 167936 \<le> unat len) \<and> closed b = 0 \<and> activeBlocks b = 0 \<and>
        balloc_blocks b = Map.empty \<and> nodeBase b = MmapBase b \<and> bump b = payloadBase b \<and>
        unat (payloadBase b) = unat (MmapBase b) + 163840 \<and>
        unat (payloadEnd b) = unat (MmapBase b) + (if len = 0 then 67108864 else unat len) \<and>
        unat (payloadBase b) + 4096 \<le> unat (payloadEnd b)
    | Err e \<Rightarrow> (if len \<noteq> 0 \<and> unat len < 167936 then e = Balloc_ErrInvalidSize
               else mm (if len = 0 then 67108864 else sint len) = Inl e)
    | _ \<Rightarrow> False"
proof -
  define l where "l = (if len = 0 then defaultMmapLength else len)"
  have lim: "l < defaultNodeCapacity * sizeof_BallocNode + 4096 \<longleftrightarrow> len \<noteq> 0 \<and> unat len < 167936"
    by (simp add: l_def defaultMmapLength_def defaultNodeCapacity_def sizeof_BallocNode_def word_less_nat_alt)
  have sl: "sint l = (if len = 0 then 67108864 else sint len)"
    by (simp add: l_def defaultMmapLength_def)
  obtain mat where mat: "buildPandiagonal scale = Ok mat"
    using assms by (auto simp: buildPandiagonal_def)
  note New = balloc_New_def [of scale mm len, folded l_def, unfolded Let_def l_def [symmetric] lim mat obind.simps sl]
  show ?thesis
  proof (cases "len \<noteq> 0 \<and> unat len < 167936")
    case True
    then show ?thesis
      by (simp add: New)
  next
    case False
    show ?thesis
    proof (cases "mm (sint l)")
      case (Inl e)
      with False show ?thesis
        by (auto simp: New sl)
    next
      case (Inr m)
      obtain base n where m: "m = (base, n)" by (cases m)
      have ok: "0 < sint l" "int (unat n) = sint l" "unat base + unat n < 2 ^ 64"
        using assms(1) Inr m unfolding mmap_ok_def by blast+
      then have "n \<noteq> 0"
        by auto
      with False Inr m obtain b where b: "balloc_New scale mm len = Ok b" "MmapBase b = base" "MmapLength b = n"
        by (auto simp: New sl)
      have "word_of_int (int (unat n)) = (word_of_int (sint l) :: uintptr)"
        by (simp only: ok(2))
      then have "n = l"
        by simp
      moreover have "unat l = (if len = 0 then 67108864 else unat len)"
        by (simp add: l_def defaultMmapLength_def)
      moreover note N = balloc_New_layout [OF assms b(1)]
      moreover have "unat (payloadBase b) = unat (MmapBase b) + 163840"
        using N(1,2,9) ok(3) b(2,3) unfolding N(2) by (subst unat_add_u64) (auto simp: layout_def meta_limit_def)
      ultimately show ?thesis
        using b False by (auto simp: layout_def balloc_blocks_def)
    qed
  qed
qed

lemma balloc_New_answers:
  assumes "mmap_ok mm" "0 < scale" "scale < 2 ^ 63"
  shows "(\<exists>b. balloc_New scale mm len = Ok b) \<or> (\<exists>e. balloc_New scale mm len = Err e)"
  using balloc_New_spec [OF assms, of len] by (cases "balloc_New scale mm len") auto

text \<open>
  \<open>New\<close> returns ErrInvalidSize exactly for lengths from 1 up to the node area and one page
  (167935 bytes), the error of the mapping call when that fails, and otherwise an allocator that
  is open and empty, whose node area starts the mapping and whose payload area of at least 4096
  bytes fills the rest; length 0 stands for 64 MiB. It never panics.
\<close>

lemma balloc_New_result:
  assumes "mmap_ok mm" "0 < scale" "scale < 2 ^ 63"
  shows "case balloc_New scale mm len of
      Ok b \<Rightarrow> (len = 0 \<or> 167936 \<le> unat len) \<and> closed b = 0 \<and> activeBlocks b = 0 \<and>
        balloc_blocks b = Map.empty \<and> nodeBase b = MmapBase b \<and> bump b = payloadBase b \<and>
        unat (payloadBase b) = unat (MmapBase b) + 163840 \<and>
        unat (payloadEnd b) = unat (MmapBase b) + (if len = 0 then 67108864 else unat len) \<and>
        unat (payloadBase b) + 4096 \<le> unat (payloadEnd b)
    | Err e \<Rightarrow> (if len \<noteq> 0 \<and> unat len < 167936 then e = Balloc_ErrInvalidSize
               else mm (if len = 0 then 67108864 else sint len) = Inl e)
    | _ \<Rightarrow> False"
  by (rule balloc_New_spec [OF assms])

lemma balloc_New_result_example:
  "balloc_New 8 sample_mmap 4096 = Err Balloc_ErrInvalidSize \<and> payloadBase sample_balloc = 0x38000"
proof
  show "balloc_New 8 sample_mmap 4096 = Err Balloc_ErrInvalidSize"
    using balloc_New_result [OF sample_mmap_ok, of 8 4096] by (auto split: outcome.splits)
  show "payloadBase sample_balloc = 0x38000"
    using balloc_New_result [OF sample_mmap_ok, of 8 "0x40000"] sample_New
    by (simp add: sample_fields)
qed

text \<open>Rewinding is the second contract of Alloc_Spec, on allocators that are open.\<close>

interpretation balloc_rewind: resettable_allocator "balloc_request poly" request_size
  "\<lambda>b. balloc_inv b \<and> closed b = 0" balloc_ready balloc_used "\<lambda>b. fst (balloc_Reset b)"
  for poly
proof unfold_locales
  show "balloc_inv (fst (balloc_request poly b r)) \<and> closed (fst (balloc_request poly b r)) = 0"
    if "balloc_inv b \<and> closed b = 0" "balloc_ready b r" for b r
    using that balloc_request_inv by (auto simp: balloc_request_def balloc_Alloc_closed split: prod.split)
  show "balloc_inv (fst (balloc_Reset b)) \<and> closed (fst (balloc_Reset b)) = 0"
    if "balloc_inv b \<and> closed b = 0" for b
    using that balloc_inv_Reset [of b] by (auto simp: balloc_Reset_def)
  show "balloc_used (fst (balloc_Reset b)) = {}" if "balloc_inv b \<and> closed b = 0" for b
    using that by (auto simp: balloc_used_def balloc_blocks_def balloc_Reset_def)
qed (use balloc_if.alloc_fresh balloc_if.alloc_used balloc_if.alloc_keep in blast)+

text \<open>
  \<open>Reset\<close> makes an open allocator empty: no block is left, the counter is 0, all of the
  payload and of the node area is available again, and the next block that fits the payload area
  starts at its beginning; blocks handed out after the reset are pairwise disjoint.
\<close>

lemma balloc_Reset_empty:
  assumes "mmap_ok mm" "0 < scale" "scale < 2 ^ 63" "balloc_reachable scale mm poly b" "closed b = 0"
    and "no_wrap (fst (balloc_Reset b)) sz" "0 < unat sz"
    and "unat (payloadBase b) + round8 (unat sz) \<le> unat (payloadEnd b)"
    and "run_ready (balloc_request poly) balloc_ready (fst (balloc_Reset b)) rs"
  shows "snd (balloc_Reset b) = Ok () \<and> balloc_blocks (fst (balloc_Reset b)) = Map.empty \<and>
    activeBlocks (fst (balloc_Reset b)) = 0 \<and>
    (\<exists>k. snd (balloc_Alloc poly (fst (balloc_Reset b)) sz m tid cid) = Ok (payloadBase b, k)) \<and>
    disjoint_spans (run_allocs (balloc_request poly) request_size (fst (balloc_Reset b)) rs)"
proof -
  let ?b = "fst (balloc_Reset b)"
  from reachable_refines [OF assms(1-4)] obtain A where A: "balloc_refines b A" "spec_inv A" .
  note R = balloc_Reset_sim [OF A(1) assms(5)]
  have op: "closed ?b = 0"
    using assms(5) by (simp add: balloc_Reset_def)
  have inv: "balloc_inv b \<and> closed b = 0"
    using balloc_reachable_inv [OF assms(1-4)] assms(5) by blast
  have "layout b"
    using refines_fields(1) [OF A(1)] .
  then have "balloc_place ?b sz = Some (payloadBase b)"
    using assms(5,8) by (auto simp: balloc_place_def balloc_head_def balloc_Reset_def layout_def meta_limit_def)
  then have sp: "snd (spec_Alloc (spec_Reset A) sz m) = Ok (payloadBase b)"
    using spec_Alloc_place [OF conjunct1 [OF R] spec_Reset_inv [OF A(2)], of sz m] by simp
  have "sz \<noteq> 0"
    using assms(7) by auto
  from balloc_Alloc_sim [OF conjunct1 [OF R] assms(6) this op, of poly tid cid m] obtain k where
    "snd (balloc_Alloc poly ?b sz m tid cid) = map_outcome (\<lambda>a. (a, k)) (snd (spec_Alloc (spec_Reset A) sz m))"
    by (auto simp: alloc_sim_def)
  with sp have "\<exists>k. snd (balloc_Alloc poly ?b sz m tid cid) = Ok (payloadBase b, k)"
    by simp
  moreover have "balloc_blocks ?b = Map.empty" "activeBlocks ?b = 0"
    using assms(5) by (simp_all add: balloc_Reset_def balloc_blocks_def)
  ultimately show ?thesis
    using R balloc_rewind.reset_run [OF inv assms(9)] by blast
qed

lemma balloc_Reset_empty_example:
  "\<exists>k. snd (balloc_Alloc 0x11B (fst (balloc_Reset sample_one)) 200 1 0 0) = Ok (0x38000, k)"
proof -
  have "nodeBase sample_one = 0x10000"
    by (simp add: sample_one_def sample_one_eq sample_fields)
  then have "no_wrap (fst (balloc_Reset sample_one)) 200"
    by (simp add: no_wrap_def balloc_Reset_def sample_one_fields)
  then show ?thesis
    using balloc_Reset_empty [OF sample_mmap_ok _ _ sample_one_reachable, of 200 "[]" 1 0 0]
    by (simp add: sample_one_fields round8_def)
qed

text \<open>
  \<open>Close\<close> of an open allocator unmaps its mapping exactly once: a second \<open>Close\<close> changes and
  unmaps nothing, and neither does the cleanup that the garbage collector would run. Afterwards
  \<open>Alloc\<close> and \<open>Reset\<close> return ErrClosed.
\<close>

lemma balloc_Close_once:
  assumes "mmap_ok mm" "0 < scale" "scale < 2 ^ 63" "balloc_reachable scale mm poly b" "closed b = 0"
  shows "let b' = fst (balloc_Close b) in
    snd (balloc_Close b) = [(MmapBase b, MmapLength b)] \<and> balloc_Close b' = (b', []) \<and> munmapCleanup b' = [] \<and>
    (sz \<noteq> 0 \<longrightarrow> balloc_Alloc poly b' sz m tid cid = (b', Err Balloc_ErrClosed)) \<and>
    balloc_Reset b' = (b', Err Balloc_ErrClosed)"
proof -
  from reachable_refines [OF assms(1-4)] obtain A where "balloc_refines b A" .
  then have "mapping b = Some (MmapBase b, MmapLength b)"
    using refines_fields(1) assms(5) by (auto simp: layout_def)
  with assms(5) show ?thesis
    by (simp add: balloc_Close_def munmapCleanup_def balloc_Alloc_def balloc_Reset_def Let_def)
qed

lemma balloc_Close_once_example:
  "snd (balloc_Close sample_one) = [(MmapBase sample_one, MmapLength sample_one)] \<and>
   snd (balloc_Reset (fst (balloc_Close sample_one))) = Err Balloc_ErrClosed"
  using balloc_Close_once [OF sample_mmap_ok _ _ sample_one_reachable]
  by (simp add: sample_one_fields Let_def)

section \<open>Outside the contract\<close>

text \<open>
  C38: a block can be freed twice. \<open>FreeVarying\<close> on a block whose last owner is gone returns true
  again and puts the block on the free list a second time, so that the next two \<open>Alloc\<close> calls both
  return its address: two owners then hold the same memory.
\<close>

theorem balloc_double_free:
  assumes "mmap_ok mm" "0 < scale" "scale < 2 ^ 63" "balloc_reachable scale mm poly b" "closed b = 0"
    and "balloc_blocks b a = Some (s, w)" "w AND NOT m = 0"
    and "run_fits poly b [CFree a m, CFree a m, CAlloc s m1 t1 c1, CAlloc s m2 t2 c2]"
    and "unat (nodeBump b) + 128 \<le> unat (nodeEnd b)"
  shows "snd (balloc_run poly b [CFree a m, CFree a m, CAlloc s m1 t1 c1, CAlloc s m2 t2 c2]) =
    [RBool (Ok True), RBool (Ok True), RAlloc (Ok a), RAlloc (Ok a)]"
proof -
  from reachable_refines [OF assms(1-4)] obtain A where
    A: "balloc_refines b A" "spec_inv A" "balloc_blocks b = sp_blocks A" .
  have B: "sp_blocks A a = Some (s, w)"
    using A(3) assms(6) by simp
  have meta: "sp_meta A + 128 \<le> meta_limit"
    using refines_room [OF A(1), of 128] assms(9) by simp
  have s: "s \<noteq> 0" "round8 (unat s) = unat s"
    using balloc_inv_block(2,5) [OF balloc_reachable_inv [OF assms(1-4)] assms(6)]
    by (auto simp: round8_def elim!: dvdE)
  have "snd (spec_run A [CFree a m, CFree a m, CAlloc s m1 t1 c1, CAlloc s m2 t2 c2]) =
      [RBool (Ok True), RBool (Ok True), RAlloc (Ok a), RAlloc (Ok a)]"
    using B meta s assms(7)
    by (simp add: spec_Free_def spec_Alloc_def spec_node_def Let_def)
  with balloc_run_sim [OF A(1) assms(5,8)] show ?thesis
    by simp
qed

lemma sample_double_fits:
  "run_fits 0x11B sample_one [CFree 0x38000 1, CFree 0x38000 1, CAlloc 104 1 0 0, CAlloc 104 2 0 0]"
proof -
  have k: "balloc_Bucket 0x11B sample_one 0 0 = Ok 0"
    by code_simp
  then have "balloc_Bucket 0x11B (sample_one\<lparr>nodes := x, nodeBump := y, slots := u, freeList := v, activeBlocks := z\<rparr>) 0 0 = Ok 0" for x y u v z
    by (simp add: balloc_Bucket_def)
  then show ?thesis
    by (simp add: no_wrap_def balloc_FreeVarying_def findNode.simps sample_one_fields clearOwner_def newFreeSlot_def
        sizeof_freeSlot_def pushFree_def Let_def balloc_Alloc_def alignUp_def popFree_def alloc_node_def newNode_def
        insertNode_def insertBelow.simps sizeof_BallocNode_def)
qed

theorem balloc_double_free_witness:
  "snd (balloc_run 0x11B sample_one [CFree 0x38000 1, CFree 0x38000 1, CAlloc 104 1 0 0, CAlloc 104 2 0 0]) =
     [RBool (Ok True), RBool (Ok True), RAlloc (Ok 0x38000), RAlloc (Ok 0x38000)]"
  using balloc_double_free [OF sample_mmap_ok _ _ sample_one_reachable _ sample_one_blocks _ sample_double_fits]
  by (simp add: sample_one_fields)

text \<open>
  C39: sizes are not checked against the end of the address space. For the size \<open>2 ^ 64 - 8\<close> the
  sum of bump pointer and size wraps around, so an allocator with an empty free list reports
  success at the bump pointer and moves that pointer back by 8 bytes, into the last block handed
  out before.
\<close>

theorem balloc_size_wrap:
  assumes "mmap_ok mm" "0 < scale" "scale < 2 ^ 63" "balloc_reachable scale mm poly b" "closed b = 0"
    and "freeList b = 0" "unat (nodeBump b) + 40 \<le> unat (nodeEnd b)"
    and "unat (bump b) \<le> unat (payloadEnd b)"
  shows "(\<exists>k. snd (balloc_Alloc poly b (- 8) m tid cid) = Ok (bump b, k)) \<and>
    bump (fst (balloc_Alloc poly b (- 8) m tid cid)) = bump b - 8"
proof -
  from reachable_refines [OF assms(1-4)] obtain A where A: "balloc_refines b A" "spec_inv A" .
  then obtain t xs where rel: "balloc_rel b A t xs"
    by (auto simp: balloc_refines_def)
  have L: "layout b"
    using rel by (simp add: balloc_rel_def)
  from Alloc_bucket [OF L] obtain k where k: "balloc_Bucket poly b tid cid = Ok k" by blast
  let ?b = "b\<lparr>bump := bump b - 8\<rparr>" and ?A = "A\<lparr>sp_bump := unat (bump b - 8)\<rparr>"
  have "balloc_rel ?b ?A t xs"
    using rel by (simp add: balloc_rel_def counters_def)
  moreover have "unat (nodeBump ?b) + 40 < 2 ^ 64"
    using le_less_trans [OF assms(7) unat_lt_u64] by simp
  ultimately have sim: "alloc_sim (alloc_node ?b (bump b) (- 8) m k) (spec_node ?A (bump b) (- 8) m) k"
    by (rule alloc_node_sim)
  have meta: "sp_meta A + 40 \<le> meta_limit"
    using refines_room [OF A(1), of 40] assms(7) by simp
  have "8 \<le> unat (bump b)"
    using L rel A(2) by (auto simp: balloc_rel_def layout_def counters_def spec_inv_def meta_limit_def)
  then have "\<not> payloadEnd b < bump b - 8"
    using assms(8) by (simp add: word_less_nat_alt unat_sub_u64)
  then have eq: "balloc_Alloc poly b (- 8) m tid cid = alloc_node ?b (bump b) (- 8) m k"
    using assms(5,6) k by (cases b) (simp add: balloc_Alloc_def popFree_def alignUp_def Let_def)
  have "snd (alloc_node ?b (bump b) (- 8) m k) = Ok (bump b, k)"
    using sim meta by (auto simp: alloc_sim_def spec_node_def)
  moreover have "bump (fst (alloc_node ?b (bump b) (- 8) m k)) = bump b - 8"
    using sim meta refines_fields(2) [of "fst (alloc_node ?b (bump b) (- 8) m k)"]
    by (auto simp: alloc_sim_def spec_node_def word_unat_eq_iff)
  ultimately show ?thesis
    by (simp add: eq)
qed

theorem balloc_size_wrap_witness:
  "balloc_blocks sample_one 0x38000 = Some (104, 1) \<and>
   bump (fst (balloc_Alloc 0x11B sample_one (- 8) 1 0 0)) = 0x38060"
  using balloc_size_wrap [OF sample_mmap_ok _ _ sample_one_reachable, of 1 0 0] sample_one_blocks
  by (simp add: sample_one_fields)

end
