(* ===== verification/Hybrid_Props.thy ===== *)
theory Hybrid_Props
  imports Hybrid Balloc_Life
begin

text \<open>
  The properties of the hybrid allocator: disjoint blocks across the slabs and the block allocator,
  small requests that never fail, the routing of large ones, and \<open>Reset\<close>.
\<close>

section \<open>Reset and construction\<close>

lemma hybrid_inv_New:
  assumes "mmap_ok mm" "0 < scale" "scale < 2 ^ 63" "NewHybrid scale mm len = Ok h"
  shows "hybrid_inv h" "closed (hy_large h) = 0" "hybrid_used h = {}" "offsets_small h"
proof -
  from assms(4) obtain b where b: "balloc_New scale mm len = Ok b"
    "h = \<lparr>hy_large = b, hy_shards = replicate smallShards \<lparr>sh_small = [], sh_pool = []\<rparr>\<rparr>"
    by (auto simp: NewHybrid_def)
  note N = balloc_New_layout [OF assms(1-3) b(1)]
  have "all_ptrs (hy_shards h) = []"
    by (simp add: b(2) all_ptrs_def shard_ptrs_def)
  then show "hybrid_inv h" "closed (hy_large h) = 0" "offsets_small h"
    using balloc_inv_New [OF assms(1-3) b(1)] N(8) by (auto simp: hybrid_inv_def slabs_ok_def offsets_small_def b(2))
  have "balloc_used b = {}"
    using N(5) by (auto simp: balloc_used_def balloc_blocks_def)
  then show "hybrid_used h = {}"
    by (simp add: hybrid_used_def b(2))
qed

lemma shard_ptrs_reset: "mset (shard_ptrs (reset_shard s)) = mset (shard_ptrs s)"
  by (simp add: shard_ptrs_def reset_shard_def smallArena_reset_def image_mset.compositionality comp_def)

lemma all_ptrs_reset: "mset (all_ptrs (map reset_shard ss)) = mset (all_ptrs ss)"
  by (induction ss) (simp_all add: all_ptrs_def shard_ptrs_reset)

lemma balloc_Reset_mmap:
  "MmapBase (fst (balloc_Reset b)) = MmapBase b \<and> MmapLength (fst (balloc_Reset b)) = MmapLength b"
  by (simp add: balloc_Reset_def)

lemma hybrid_Reset_inv:
  assumes "hybrid_inv h" "closed (hy_large h) = 0"
  shows "hybrid_inv (fst (hybrid_Reset h))" "closed (hy_large (fst (hybrid_Reset h))) = 0"
    "hybrid_used (fst (hybrid_Reset h)) = {}"
proof -
  let ?h = "fst (hybrid_Reset h)"
  have h: "hy_large ?h = fst (balloc_Reset (hy_large h))" "hy_shards ?h = map reset_shard (hy_shards h)"
    by (simp_all add: hybrid_Reset_def Let_def split_beta map_prod_def)
  have reg: "large_region ?h = large_region h"
    using balloc_Reset_mmap by (simp add: large_region_def h)
  show "hybrid_inv ?h"
    using assms(1) balloc_inv_Reset reg slabs_ok_mset [OF all_ptrs_reset]
    by (auto simp: hybrid_inv_def h reset_shard_def)
  show "closed (hy_large ?h) = 0"
    using assms(2) by (simp add: h balloc_Reset_def)
  have "balloc_used (hy_large ?h) = {}"
    using balloc_rewind.reset_used assms by (simp add: h hybrid_inv_def)
  then show "hybrid_used ?h = {}"
    by (auto simp: hybrid_used_def h reset_shard_def)
qed

lemma allocSmall_large: "hy_large (fst (allocSmall h c p sz tid)) = hy_large h"
  by (simp add: allocSmall_def set_small_def Let_def split_beta split: option.split)

lemma hybrid_request_closed: "closed (hy_large (fst (hybrid_request poly h r))) = closed (hy_large h)"
proof -
  obtain sz m tid cid c p where r: "r = (sz, m, tid, cid, c, p)"
    by (cases r)
  have L: "closed (hy_large (fst (hybrid_large poly h' sz m tid cid))) = closed (hy_large h')" for h'
    by (simp add: hybrid_large_def balloc_Alloc_closed split_beta map_prod_def)
  obtain h' x where S: "allocSmall h c p sz tid = (h', x)" by fastforce
  have "hy_large h' = hy_large h"
    using allocSmall_large [of h c p sz tid] S by simp
  then show ?thesis
    using L by (cases x) (simp_all add: hybrid_request_def hybrid_Alloc_def r S)
qed

interpretation hybrid_rewind: resettable_allocator "hybrid_request poly" hybrid_need
  "\<lambda>h. hybrid_inv h \<and> closed (hy_large h) = 0" hybrid_ready hybrid_used "\<lambda>h. fst (hybrid_Reset h)"
  for poly
proof unfold_locales
  show "hybrid_inv (fst (hybrid_request poly h r)) \<and> closed (hy_large (fst (hybrid_request poly h r))) = 0"
    if "hybrid_inv h \<and> closed (hy_large h) = 0" "hybrid_ready h r" for h r
    using that hybrid_if.alloc_invar by (simp add: hybrid_request_closed)
  show "hybrid_inv (fst (hybrid_Reset h)) \<and> closed (hy_large (fst (hybrid_Reset h))) = 0"
    "hybrid_used (fst (hybrid_Reset h)) = {}" if "hybrid_inv h \<and> closed (hy_large h) = 0" for h
    using that hybrid_Reset_inv [of h] by simp_all
  show "span a (hybrid_need r) \<inter> hybrid_used h = {}"
    "span a (hybrid_need r) \<subseteq> hybrid_used (fst (hybrid_request poly h r))"
    if "hybrid_inv h \<and> closed (hy_large h) = 0" "hybrid_ready h r" "snd (hybrid_request poly h r) = Ok a" for h r a
    using that by (simp_all add: hybrid_if.alloc_fresh hybrid_if.alloc_used)
  show "hybrid_used h \<subseteq> hybrid_used (fst (hybrid_request poly h r))"
    if "hybrid_inv h \<and> closed (hy_large h) = 0" "hybrid_ready h r" for h r
    using that by (intro hybrid_if.alloc_keep) simp_all
qed

section \<open>Properties\<close>

text \<open>The states of a hybrid allocator that allocations and resets lead to.\<close>

inductive hybrid_reachable :: "int \<Rightarrow> (int \<Rightarrow> go_error + uintptr \<times> uintptr) \<Rightarrow> u64 \<Rightarrow> hybrid \<Rightarrow> bool"
  for scale mm poly where
  hybrid_reach_New: "NewHybrid scale mm len = Ok h \<Longrightarrow> hybrid_reachable scale mm poly h"
| hybrid_reach_Alloc: "hybrid_reachable scale mm poly h \<Longrightarrow> hybrid_ready h r \<Longrightarrow>
    hybrid_reachable scale mm poly (fst (hybrid_request poly h r))"
| hybrid_reach_Reset: "hybrid_reachable scale mm poly h \<Longrightarrow> hybrid_reachable scale mm poly (fst (hybrid_Reset h))"

lemma hybrid_reachable_inv:
  assumes "mmap_ok mm" "0 < scale" "scale < 2 ^ 63" "hybrid_reachable scale mm poly h"
  shows "hybrid_inv h \<and> closed (hy_large h) = 0"
  using assms(4)
proof induction
  case (hybrid_reach_New len h)
  then show ?case using hybrid_inv_New [OF assms(1-3)] by blast
next
  case (hybrid_reach_Alloc h r)
  then show ?case using hybrid_rewind.alloc_invar by blast
next
  case (hybrid_reach_Reset h)
  then show ?case using hybrid_rewind.reset_invar by blast
qed

text \<open>
  C16: blocks handed out by a hybrid allocator never overlap, whichever mix of sizes, threads and
  chunks is asked for: neither two blocks of one slab, nor blocks of different slabs or shards, nor
  a slab block and a block of the mapping. After \<open>Reset\<close> everything is available again and the
  same holds.
\<close>

theorem hybrid_allocs_disjoint:
  assumes "mmap_ok mm" "0 < scale" "scale < 2 ^ 63" "hybrid_reachable scale mm poly h"
    and "run_ready (hybrid_request poly) hybrid_ready h rs"
    and "run_ready (hybrid_request poly) hybrid_ready (fst (hybrid_Reset h)) rs'"
  shows "disjoint_spans (run_allocs (hybrid_request poly) hybrid_need h rs) \<and>
    (\<forall>(a, n) \<in> set (run_allocs (hybrid_request poly) hybrid_need h rs). span a n \<inter> hybrid_used h = {}) \<and>
    hybrid_used (fst (hybrid_Reset h)) = {} \<and>
    disjoint_spans (run_allocs (hybrid_request poly) hybrid_need (fst (hybrid_Reset h)) rs')"
proof -
  note inv = hybrid_reachable_inv [OF assms(1-4)]
  show ?thesis
    using hybrid_rewind.run_disjoint [OF inv assms(5)] hybrid_rewind.run_fresh [OF inv assms(5)]
      hybrid_rewind.reset_run [OF inv assms(6)] by blast
qed

text \<open>A new hybrid allocator, for examples.\<close>

definition sample_hybrid :: hybrid where
  "sample_hybrid = \<lparr>hy_large = sample_balloc, hy_shards = replicate 8 \<lparr>sh_small = [], sh_pool = []\<rparr>\<rparr>"

lemma sample_hybrid_New: "NewHybrid 8 sample_mmap 0x40000 = Ok sample_hybrid"
  by (simp add: NewHybrid_def sample_New sample_hybrid_def smallShards_def)

lemma sample_hybrid_reachable: "hybrid_reachable 8 sample_mmap poly sample_hybrid"
  using sample_hybrid_New by (rule hybrid_reach_New)

lemma sample_new_slab: "new_slab_ok sample_hybrid 0xC00000"
proof -
  have "MmapLength sample_balloc = 0x40000"
    by (simp add: sample_balloc_def balloc_New_def Let_def defaultNodeCapacity_def sizeof_BallocNode_def
      sample_mmap_def buildPandiagonal_def)
  then show ?thesis
    by (auto simp: new_slab_ok_def sample_hybrid_def in_space_def slab_span_def span_def smallSlabSize_def
        large_region_def sample_fields all_ptrs_def shard_ptrs_def)
qed

lemma sample_offsets: "offsets_small sample_hybrid"
  by (simp add: offsets_small_def sample_hybrid_def)

theorem hybrid_allocs_disjoint_witness:
  "disjoint_spans (run_allocs (hybrid_request 0x11B) hybrid_need sample_hybrid [(100, 1, 3, 0, None, 0xC00000)])"
proof -
  have "run_ready (hybrid_request 0x11B) hybrid_ready sample_hybrid [(100, 1, 3, 0, None, 0xC00000)]"
    using sample_new_slab sample_offsets by (simp add: hybrid_ready_def smallThreshold_def)
  from hybrid_allocs_disjoint [OF sample_mmap_ok _ _ sample_hybrid_reachable this, of "[]"] show ?thesis
    by (simp del: run_allocs.simps)
qed

lemma hybrid_Alloc_cases:
  assumes "hybrid_inv h" "hybrid_ready h (sz, m, tid, cid, c, p)"
  shows "if sz \<le> 4096
    then (\<exists>h' a. hybrid_Alloc poly h c p sz m tid cid = (h', Ok (a, 0)) \<and> hy_large h' = hy_large h \<and> (sz = 0 \<longrightarrow> a = 0))
    else snd (hybrid_Alloc poly h c p sz m tid cid) = snd (balloc_Alloc poly (hy_large h) sz m tid cid) \<and>
         hy_shards (fst (hybrid_Alloc poly h c p sz m tid cid)) = hy_shards h"
proof (cases "sz \<le> smallThreshold")
  case small: True
  then have g: "offsets_small h" "new_slab_ok h p"
    using assms(2) by (auto simp: hybrid_ready_def)
  have "\<exists>h' a. allocSmall h c p sz tid = (h', Ok a) \<and> (sz = 0 \<longrightarrow> a = 0)"
  proof (cases "sz = 0")
    case True
    then show ?thesis
      by (cases rule: allocSmall_zero [OF assms(1) g(2), of c tid]) auto
  next
    case False
    then show ?thesis
      by (cases rule: hybrid_small_step [OF assms(1) g small False, of c tid]) auto
  qed
  with small allocSmall_large [of h c p sz tid] show ?thesis
    by (auto simp: hybrid_Alloc_def smallThreshold_def)
next
  case False
  then show ?thesis
    by (simp add: hybrid_Alloc_def hybrid_large_def smallThreshold_def split_beta map_prod_def)
qed

text \<open>
  A request of at most 4 KiB never fails and never reaches the block allocator: it is served
  from a slab of the thread's shard, with bucket 0, even when the block allocator is exhausted or
  closed. For size 0 the address is 0 and the error nil, where the other allocators return
  ErrInvalidSize. A larger request is the block allocator's, with its result.
\<close>

lemma hybrid_Alloc_routes:
  assumes "hybrid_inv h" "hybrid_ready h (sz, m, tid, cid, c, p)"
  shows "if sz \<le> 4096
    then (\<exists>h' a. hybrid_Alloc poly h c p sz m tid cid = (h', Ok (a, 0)) \<and> hy_large h' = hy_large h \<and> (sz = 0 \<longrightarrow> a = 0))
    else snd (hybrid_Alloc poly h c p sz m tid cid) = snd (balloc_Alloc poly (hy_large h) sz m tid cid) \<and>
         hy_shards (fst (hybrid_Alloc poly h c p sz m tid cid)) = hy_shards h"
  using assms by (rule hybrid_Alloc_cases)

lemma hybrid_Alloc_routes_example:
  "\<exists>h' a. hybrid_Alloc 0x11B sample_hybrid None 0xC00000 4096 1 3 0 = (h', Ok (a, 0))"
proof -
  have "hybrid_inv sample_hybrid"
    using hybrid_reachable_inv [OF sample_mmap_ok _ _ sample_hybrid_reachable] by simp
  moreover have "hybrid_ready sample_hybrid (4096, 1, 3, 0, None, 0xC00000)"
    using sample_new_slab sample_offsets by (simp add: hybrid_ready_def smallThreshold_def)
  ultimately show ?thesis
    using hybrid_Alloc_routes [of sample_hybrid 4096 1 3 0 None "0xC00000" "0x11B"] by auto
qed

text \<open>
  Small blocks cannot be shared or freed: on any address inside a slab, \<open>Share\<close> and
  \<open>FreeVarying\<close> return ErrNotFound and change nothing, because slabs lie outside the mapping.
\<close>

lemma hybrid_small_not_shared:
  assumes "mmap_ok mm" "0 < scale" "scale < 2 ^ 63" "hybrid_reachable scale mm poly h"
    and "s \<in> set (hy_shards h)" "x \<in> set (sh_small s)" "unat a \<in> slab_span (sa_ptr x)"
  shows "hybrid_Share h a m = (h, Err Balloc_ErrNotFound) \<and> hybrid_FreeVarying h a m = (h, Err Balloc_ErrNotFound)"
proof -
  note inv = hybrid_reachable_inv [OF assms(1-4)]
  let ?b = "hy_large h"
  from inv obtain A where A: "balloc_refines ?b A"
    by (auto simp: hybrid_inv_def balloc_inv_def)
  then obtain t xs where rel: "balloc_rel ?b A t xs"
    by (auto simp: balloc_refines_def)
  have "slab_span (sa_ptr x) \<inter> large_region h = {}"
    using inv small_ptr_in [OF assms(5,6)] by (auto simp: hybrid_inv_def slabs_ok_def)
  then have out: "unat a \<notin> large_region h"
    using assms(7) by blast
  have none: "sp_blocks A a = None"
  proof (rule ccontr)
    assume "sp_blocks A a \<noteq> None"
    then obtain sz w where "balloc_blocks ?b a = Some (sz, w)"
      using refines_blocks [OF A] by auto
    with balloc_inv_block [of ?b a sz w] inv refines_fields(1) [OF A] out show False
      by (auto simp: hybrid_inv_def layout_def large_region_def span_def)
  qed
  show ?thesis
    by (cases rule: find_rel [OF rel, of a])
       (use none inv open_mapped [OF rel] in
         \<open>auto simp: hybrid_Share_def hybrid_FreeVarying_def balloc_Share_def balloc_FreeVarying_def\<close>)
qed

definition sample_shard :: shard where
  "sample_shard = \<lparr>sh_small = [\<lparr>sa_ptr = 0xC00000, sa_off = 100\<rparr>], sh_pool = []\<rparr>"

lemma sample_hybrid_one:
  "fst (hybrid_request 0x11B sample_hybrid (100, 1, 3, 0, None, 0xC00000)) =
     sample_hybrid\<lparr>hy_shards := (replicate 8 \<lparr>sh_small = [], sh_pool = []\<rparr>)[3 := sample_shard]\<rparr>"
proof -
  have "unat (3 mod 8 :: u64) = 3"
    by simp
  then show ?thesis
    by (simp add: hybrid_request_def hybrid_Alloc_def smallThreshold_def allocSmall_def sample_hybrid_def
        pool_take_def newSmallArena_def smallArena_reset_def smallArena_alloc_def smallSlabSize_def set_small_def
        sample_shard_def i64_id Let_def)
qed

lemma hybrid_small_not_shared_example:
  "snd (hybrid_FreeVarying (fst (hybrid_request 0x11B sample_hybrid (100, 1, 3, 0, None, 0xC00000))) 0xC00000 1) =
     Err Balloc_ErrNotFound"
proof -
  have "hybrid_ready sample_hybrid (100, 1, 3, 0, None, 0xC00000)"
    using sample_new_slab sample_offsets by (simp add: hybrid_ready_def smallThreshold_def)
  from hybrid_reach_Alloc [OF sample_hybrid_reachable this]
  have R: "hybrid_reachable 8 sample_mmap 0x11B (fst (hybrid_request 0x11B sample_hybrid (100, 1, 3, 0, None, 0xC00000)))" .
  have "sample_shard \<in> set (hy_shards (fst (hybrid_request 0x11B sample_hybrid (100, 1, 3, 0, None, 0xC00000))))"
    unfolding sample_hybrid_one by (simp add: set_update_memI)
  moreover have "\<lparr>sa_ptr = 0xC00000, sa_off = 100\<rparr> \<in> set (sh_small sample_shard)"
    by (simp add: sample_shard_def)
  ultimately show ?thesis
    using hybrid_small_not_shared [OF sample_mmap_ok _ _ R] slab_nonempty [of "0xC00000"] by simp
qed

end
