(* ===== verification/Arena.thy ===== *)
theory Arena
  imports Topology Mem_Tree
begin

text \<open>
  The pinned arena of the package arena (core.go, tree.go): blocks are byte slices of the Go heap,
  pinned so that the garbage collector keeps and does not move them; a search tree holds the
  owners of each address; a map under a mutex holds the pinned slices.

  The addresses that the Go runtime gives to a new slice and to a new tree node are arguments of
  the operations. What the code relies on of them is \<open>gc_ok\<close>: a new slice is not at an address
  that is pinned, a new node is not a node of the tree. \<open>pinned\<close> is the set of addresses that hold a
  pin. The size limit of \<open>make\<close> is that of a 64-bit platform.

  The owners are changed outside the mutex, so \<open>FreeVarying\<close> is modelled as two steps, the
  clearing of the owners and the rest under the mutex; the other operations are one step each.
\<close>

section \<open>Data\<close>

record arenaBlock =
  data_ptr :: uintptr
  data_len :: int

record Arena =
  a_scale :: int
  a_topo :: topology
  t_root :: uintptr
  t_nodes :: node_store
  a_blocks :: "uintptr \<rightharpoonup> arenaBlock"
  a_closed :: bool
  a_pinned :: "uintptr set"
  a_finalizer :: bool

definition go_make_bytes :: "int \<Rightarrow> uintptr \<Rightarrow> arenaBlock outcome" where
  "go_make_bytes n p =
     (if n < 0 \<or> maxAlloc < n then Panic MakeSliceLen else Ok \<lparr>data_ptr = p, data_len = n\<rparr>)"

section \<open>The tree (tree.go)\<close>

definition memTree_insert :: "node_store \<Rightarrow> uintptr \<Rightarrow> uintptr \<Rightarrow> uintptr \<Rightarrow> uintptr \<Rightarrow> u64
    \<Rightarrow> (node_store \<times> uintptr \<times> uintptr) option" where
  "memTree_insert h root newNode addr sz ownerMask0 =
     (let ownerMask = (if ownerMask0 = 0 then 1 else ownerMask0);
          h1 = h(newNode \<mapsto> \<lparr>Addr = addr, Size = sz, OwnerMask = ownerMask, Left = 0, Right = 0\<rparr>)
      in if root = 0 then Some (h1, newNode, newNode)
         else case arena_insertNode h1 root newNode of
           None \<Rightarrow> None
         | Some (h2, existing) \<Rightarrow> Some (h2, root, existing))"

text \<open>The loop of \<open>find\<close> is that of \<open>findNode\<close> of the package balloc.\<close>

definition memTree_find :: "node_store \<Rightarrow> uintptr \<Rightarrow> uintptr \<Rightarrow> uintptr option" where
  "memTree_find h root addr = findNode h root addr"

definition memTree_freeVarying ::
  "node_store \<Rightarrow> uintptr \<Rightarrow> uintptr \<Rightarrow> u64 \<Rightarrow> (node_store \<times> u64 \<times> bool) option" where
  "memTree_freeVarying h root addr layerMask =
     (case memTree_find h root addr of
        None \<Rightarrow> None
      | Some p \<Rightarrow>
          if p = 0 then Some (h, 0, False)
          else case h p of
            None \<Rightarrow> None
          | Some node \<Rightarrow>
              let next = OwnerMask node AND NOT layerMask
              in Some (h(p \<mapsto> node\<lparr>OwnerMask := next\<rparr>), next, True))"

section \<open>Operations (core.go)\<close>

definition arena_New :: "int \<Rightarrow> u64 \<Rightarrow> Arena outcome" where
  "arena_New ArenaScale GFPoly =
     obind (newTopology ArenaScale GFPoly) (\<lambda>topo.
       Ok \<lparr>a_scale = ArenaScale, a_topo = topo, t_root = 0, t_nodes = Map.empty,
           a_blocks = Map.empty, a_closed = False, a_pinned = {}, a_finalizer = True\<rparr>)"

definition arena_Bucket :: "Arena \<Rightarrow> u64 \<Rightarrow> u64 \<Rightarrow> int outcome" where
  "arena_Bucket a threadID chunkID = topology_bucket (a_topo a) threadID chunkID"

text \<open>\<open>p\<close> and \<open>newNode\<close> are the addresses of the new slice and of the new tree node.\<close>

definition arena_Alloc ::
  "Arena \<Rightarrow> uintptr \<Rightarrow> uintptr \<Rightarrow> uintptr \<Rightarrow> u64 \<Rightarrow> u64 \<Rightarrow> u64 \<Rightarrow> Arena \<times> (uintptr \<times> int) outcome" where
  "arena_Alloc a p newNode sz ownerMask threadID chunkID =
     (if sz = 0 then (a, Err Arena_ErrInvalidSize)
      else case go_make_bytes (sint sz) p of
        Err e \<Rightarrow> (a, Err e) | Panic q \<Rightarrow> (a, Panic q) | Diverge \<Rightarrow> (a, Diverge)
      | Ok buf \<Rightarrow>
          let addr = data_ptr buf;
              a1 = a\<lparr>a_pinned := insert addr (a_pinned a)\<rparr>
          in case topology_bucket (a_topo a) threadID chunkID of
            Err e \<Rightarrow> (a1, Err e) | Panic q \<Rightarrow> (a1, Panic q) | Diverge \<Rightarrow> (a1, Diverge)
          | Ok bucket \<Rightarrow>
              if a_closed a then (a1\<lparr>a_pinned := a_pinned a1 - {addr}\<rparr>, Err Arena_ErrNotFound)
              else
                let a2 = a1\<lparr>a_blocks := (a_blocks a)(addr \<mapsto> buf)\<rparr>
                in case memTree_insert (t_nodes a) (t_root a) newNode addr sz ownerMask of
                     None \<Rightarrow> (a2, Diverge)
                   | Some (h, root, _) \<Rightarrow> (a2\<lparr>t_nodes := h, t_root := root\<rparr>, Ok (addr, bucket)))"

definition arena_Share :: "Arena \<Rightarrow> uintptr \<Rightarrow> uintptr \<Rightarrow> u64 \<Rightarrow> Arena \<times> unit outcome" where
  "arena_Share a newNode addr ownerMask =
     (case a_blocks a addr of
        None \<Rightarrow> (a, Err Arena_ErrNotFound)
      | Some block \<Rightarrow>
          case memTree_insert (t_nodes a) (t_root a) newNode addr (word_of_int (data_len block)) ownerMask of
            None \<Rightarrow> (a, Diverge)
          | Some (h, root, _) \<Rightarrow> (a\<lparr>t_nodes := h, t_root := root\<rparr>, Ok ()))"

text \<open>The two steps of \<open>FreeVarying\<close>: outside the mutex, and under it.\<close>

definition arena_free_clear :: "Arena \<Rightarrow> uintptr \<Rightarrow> u64 \<Rightarrow> Arena \<times> (u64 \<times> bool) outcome" where
  "arena_free_clear a addr layerMask =
     (case memTree_freeVarying (t_nodes a) (t_root a) addr layerMask of
        None \<Rightarrow> (a, Diverge)
      | Some (h, remaining, found) \<Rightarrow> (a\<lparr>t_nodes := h\<rparr>, Ok (remaining, found)))"

definition arena_free_finish :: "Arena \<Rightarrow> uintptr \<Rightarrow> Arena \<times> bool outcome" where
  "arena_free_finish a addr =
     (case a_blocks a addr of
        None \<Rightarrow> (a, Ok True)
      | Some block \<Rightarrow>
          (a\<lparr>a_pinned := a_pinned a - {data_ptr block}, a_blocks := (a_blocks a)(addr := None)\<rparr>, Ok True))"

definition arena_FreeVarying :: "Arena \<Rightarrow> uintptr \<Rightarrow> u64 \<Rightarrow> Arena \<times> bool outcome" where
  "arena_FreeVarying a addr layerMask =
     (case arena_free_clear a addr layerMask of
        (a1, Ok (remaining, found)) \<Rightarrow>
          if \<not> found then (a1, Err Arena_ErrNotFound)
          else if remaining \<noteq> 0 then (a1, Ok False)
          else arena_free_finish a1 addr
      | (a1, Err e) \<Rightarrow> (a1, Err e) | (a1, Panic q) \<Rightarrow> (a1, Panic q) | (a1, Diverge) \<Rightarrow> (a1, Diverge))"

definition arena_Close :: "Arena \<Rightarrow> Arena" where
  "arena_Close a =
     (if a_closed a then a
      else a\<lparr>a_pinned := a_pinned a - data_ptr ` ran (a_blocks a), a_blocks := Map.empty, a_closed := True,
             a_finalizer := False\<rparr>)"

section \<open>Invariant\<close>

text \<open>The owners the tree holds for an address; 0 when it holds none.\<close>

definition arena_owners :: "Arena \<Rightarrow> uintptr \<Rightarrow> u64" where
  "arena_owners a addr = (case tmap (t_nodes a) (t_root a) addr of None \<Rightarrow> 0 | Some d \<Rightarrow> snd d)"

text \<open>A node is part of the tree.\<close>

definition in_tree :: "node_store \<Rightarrow> uintptr \<Rightarrow> uintptr \<Rightarrow> bool" where
  "in_tree h p q = (case h q of None \<Rightarrow> False | Some n \<Rightarrow> findNode h p (Addr n) = Some q)"

text \<open>What the code relies on of the runtime's choice of the two addresses.\<close>

definition gc_ok :: "Arena \<Rightarrow> uintptr \<Rightarrow> uintptr \<Rightarrow> bool" where
  "gc_ok a p newNode \<longleftrightarrow> p \<notin> a_pinned a \<and> newNode \<noteq> 0 \<and> \<not> in_tree (t_nodes a) (t_root a) newNode"

definition arena_inv :: "Arena \<Rightarrow> bool" where
  "arena_inv a \<longleftrightarrow>
     (\<exists>t. mem_tree (t_nodes a) (t_root a) t) \<and>
     0 < a_scale a \<and> a_scale a < 2 ^ 63 \<and> newTopology (a_scale a) (t_poly (a_topo a)) = Ok (a_topo a) \<and>
     a_pinned a = dom (a_blocks a) \<and>
     (\<forall>p k. a_blocks a p = Some k \<longrightarrow> data_ptr k = p \<and> 0 < data_len k) \<and>
     (if a_closed a then a_blocks a = Map.empty
      else \<forall>p. p \<in> dom (a_blocks a) \<longleftrightarrow> arena_owners a p \<noteq> 0)"

lemma in_treeI: "mem_tree h p t \<Longrightarrow> q \<in> set_tree t \<Longrightarrow> in_tree h p q"
  using findNode_hit [of h p t q] mem_tree_dom [of h p t q] by (auto simp: in_tree_def key_def)

lemma memTree_insert_tmap:
  assumes t: "mem_tree h p t" and new: "node \<noteq> 0" "\<not> in_tree h p node"
  shows "\<exists>h' p' q t'. memTree_insert h p node addr sz m = Some (h', p', q) \<and> mem_tree h' p' t' \<and>
    tmap h' p' = (tmap h p)(addr \<mapsto>
      (case tmap h p addr of None \<Rightarrow> (sz, if m = 0 then 1 else m)
       | Some d \<Rightarrow> (fst d, snd d OR (if m = 0 then 1 else m))))"
proof -
  define n where "n = \<lparr>Addr = addr, Size = sz, OwnerMask = (if m = 0 then 1 else m), Left = 0, Right = 0\<rparr>"
  let ?h = "h(node \<mapsto> n)"
  have fresh: "node \<notin> set_tree t"
    using in_treeI [OF t] new(2) by blast
  have t': "mem_tree ?h p t"
    using t by (rule mem_tree_frame) (use fresh in auto)
  have same: "tmap ?h p = tmap h p"
    using tmap_frame [OF t, of ?h] fresh by force
  have n: "?h node = Some n" "Left n = 0" "Right n = 0" "Addr n = addr" "Size n = sz"
    "OwnerMask n = (if m = 0 then 1 else m)"
    by (simp_all add: n_def)
  have eq: "memTree_insert h p node addr sz m =
      (if p = 0 then Some (?h, node, node)
       else case arena_insertNode ?h p node of None \<Rightarrow> None | Some (h', q) \<Rightarrow> Some (h', p, q))"
    by (simp add: memTree_insert_def n_def Let_def)
  show ?thesis
    using arena_tree.ins_root [OF t' fresh new(1) n(1-3)] unfolding same n(4-6) eq by blast
qed

lemma owners_upd:
  "tmap (t_nodes a') (t_root a') = (tmap (t_nodes a) (t_root a))(addr \<mapsto> d) \<Longrightarrow>
   arena_owners a' = (arena_owners a)(addr := snd d)"
  by (auto simp: arena_owners_def)

text \<open>The owners after an insertion, and that the rest of the arena is as before.\<close>

lemma arena_insert_owners:
  assumes "mem_tree (t_nodes a) (t_root a) t" "node \<noteq> 0" "\<not> in_tree (t_nodes a) (t_root a) node"
  shows "\<exists>h p q t'. memTree_insert (t_nodes a) (t_root a) node addr sz m = Some (h, p, q) \<and> mem_tree h p t' \<and>
    (\<forall>a'. t_nodes a' = h \<longrightarrow> t_root a' = p \<longrightarrow>
       arena_owners a' = (arena_owners a)(addr := arena_owners a addr OR (if m = 0 then 1 else m)))"
proof -
  from memTree_insert_tmap [OF assms, of addr sz m] obtain h p q t' where
    I: "memTree_insert (t_nodes a) (t_root a) node addr sz m = Some (h, p, q)" "mem_tree h p t'"
      "tmap h p = (tmap (t_nodes a) (t_root a))(addr \<mapsto>
        (case tmap (t_nodes a) (t_root a) addr of None \<Rightarrow> (sz, if m = 0 then 1 else m)
         | Some d \<Rightarrow> (fst d, snd d OR (if m = 0 then 1 else m))))"
    by blast
  then have "arena_owners a' = (arena_owners a)(addr := arena_owners a addr OR (if m = 0 then 1 else m))"
    if "t_nodes a' = h" "t_root a' = p" for a'
    using owners_upd [of a' a addr] that by (auto simp: arena_owners_def split: option.splits)
  with I show ?thesis by blast
qed

section \<open>Every operation keeps the invariant\<close>

lemma or_mask_nonzero: "(x :: u64) OR (if m = 0 then 1 else m) \<noteq> 0"
  by (simp add: or_eq_0_iff)

lemma arena_inv_bucket:
  "arena_inv a \<Longrightarrow> \<exists>k. arena_Bucket a tid cid = Ok k \<and> 0 \<le> k \<and> k < a_scale a"
  unfolding arena_inv_def arena_Bucket_def by (blast intro: topology_bucket_total)

lemma arena_invI:
  assumes "arena_inv a" "\<exists>t. mem_tree (t_nodes a') (t_root a') t" "a_scale a' = a_scale a" "a_topo a' = a_topo a"
    and "a_pinned a' = dom (a_blocks a')"
    and "\<And>p k. a_blocks a' p = Some k \<Longrightarrow> data_ptr k = p \<and> 0 < data_len k"
    and "a_closed a' \<Longrightarrow> a_blocks a' = Map.empty"
    and "\<And>p. \<not> a_closed a' \<Longrightarrow> p \<in> dom (a_blocks a') \<longleftrightarrow> arena_owners a' p \<noteq> 0"
  shows "arena_inv a'"
  using assms unfolding arena_inv_def by simp

lemma arena_invD:
  assumes "arena_inv a"
  shows "a_pinned a = dom (a_blocks a)" "a_blocks a p = Some k \<Longrightarrow> data_ptr k = p \<and> 0 < data_len k"
    "a_closed a \<Longrightarrow> a_blocks a = Map.empty"
    "\<not> a_closed a \<Longrightarrow> p \<in> dom (a_blocks a) \<longleftrightarrow> arena_owners a p \<noteq> 0"
  using assms unfolding arena_inv_def by (auto split: if_splits)

lemma positive_size: "sz \<noteq> 0 \<Longrightarrow> 0 \<le> sint (sz :: u64) \<Longrightarrow> 0 < sint sz"
  by (simp add: order_less_le signed_eq_0_iff)

lemma arena_Alloc_open:
  assumes "arena_inv a" "gc_ok a p node" "sz \<noteq> 0" "0 \<le> sint sz" "sint sz \<le> maxAlloc" "\<not> a_closed a"
  obtains k a' where "arena_Alloc a p node sz m tid cid = (a', Ok (p, k))" "arena_Bucket a tid cid = Ok k"
    "\<exists>t. mem_tree (t_nodes a') (t_root a') t"
    "arena_owners a' = (arena_owners a)(p := if m = 0 then 1 else m)"
    "a_blocks a' = (a_blocks a)(p \<mapsto> \<lparr>data_ptr = p, data_len = sint sz\<rparr>)"
    "a_pinned a' = insert p (a_pinned a)" "a_closed a' = a_closed a" "a_scale a' = a_scale a" "a_topo a' = a_topo a"
proof -
  from arena_inv_bucket [OF assms(1)] obtain k where k: "topology_bucket (a_topo a) tid cid = Ok k"
    by (auto simp: arena_Bucket_def)
  have own: "arena_owners a p = 0"
    using assms(1,2,6) by (auto simp: arena_inv_def gc_ok_def)
  from assms(1) obtain t where "mem_tree (t_nodes a) (t_root a) t"
    by (auto simp: arena_inv_def)
  moreover have "node \<noteq> 0" "\<not> in_tree (t_nodes a) (t_root a) node"
    using assms(2) by (auto simp: gc_ok_def)
  ultimately obtain h r q t' where I: "memTree_insert (t_nodes a) (t_root a) node p sz m = Some (h, r, q)"
    "mem_tree h r t'"
    "\<And>a'. t_nodes a' = h \<Longrightarrow> t_root a' = r \<Longrightarrow> arena_owners a' = (arena_owners a)(p := if m = 0 then 1 else m)"
    using arena_insert_owners [of a t node p sz m] own by auto
  let ?a' = "a\<lparr>a_pinned := insert p (a_pinned a), a_blocks := (a_blocks a)(p \<mapsto> \<lparr>data_ptr = p, data_len = sint sz\<rparr>),
      t_nodes := h, t_root := r\<rparr>"
  have "arena_Alloc a p node sz m tid cid = (?a', Ok (p, k))"
    using assms(3-6) k I(1) by (simp add: arena_Alloc_def go_make_bytes_def Let_def)
  then show thesis
    by (rule that) (use k I in \<open>auto simp: arena_Bucket_def\<close>)
qed

lemma arena_inv_Alloc:
  assumes inv: "arena_inv a" and gc: "gc_ok a p node"
  shows "arena_inv (fst (arena_Alloc a p node sz m tid cid))"
proof (cases "sz = 0 \<or> sint sz < 0 \<or> maxAlloc < sint sz")
  case True
  then show ?thesis
    using inv by (auto simp: arena_Alloc_def go_make_bytes_def)
next
  case False
  then have sz: "sz \<noteq> 0" "0 \<le> sint sz" "sint sz \<le> maxAlloc"
    by auto
  from arena_inv_bucket [OF inv] obtain k where k: "topology_bucket (a_topo a) tid cid = Ok k"
    by (auto simp: arena_Bucket_def)
  show ?thesis
  proof (cases "a_closed a")
    case True
    have "insert p (a_pinned a) - {p} = a_pinned a"
      using gc by (auto simp: gc_ok_def)
    with True sz k have "fst (arena_Alloc a p node sz m tid cid) = a"
      by (simp add: arena_Alloc_def go_make_bytes_def Let_def)
    with inv show ?thesis by simp
  next
    case op: False
    show ?thesis
    proof (rule arena_Alloc_open [OF inv gc sz op, of m tid cid])
      fix k a'
      assume a': "arena_Alloc a p node sz m tid cid = (a', Ok (p, k))" "\<exists>t. mem_tree (t_nodes a') (t_root a') t"
        "arena_owners a' = (arena_owners a)(p := if m = 0 then 1 else m)"
        "a_blocks a' = (a_blocks a)(p \<mapsto> \<lparr>data_ptr = p, data_len = sint sz\<rparr>)"
        "a_pinned a' = insert p (a_pinned a)" "a_closed a' = a_closed a" "a_scale a' = a_scale a" "a_topo a' = a_topo a"
      have "arena_inv a'"
        using inv a'(2,7,8)
      proof (rule arena_invI)
        show "p' \<in> dom (a_blocks a') \<longleftrightarrow> arena_owners a' p' \<noteq> 0" for p'
          using a'(3,4) arena_invD(4) [OF inv op, of p'] by auto
      qed (use a' op arena_invD [OF inv] positive_size [OF sz(1,2)] in \<open>auto split: if_splits\<close>)
      then show ?thesis
        unfolding a'(1) by simp
    qed
  qed
qed

lemma arena_Share_open:
  assumes "arena_inv a" "node \<noteq> 0" "\<not> in_tree (t_nodes a) (t_root a) node" "a_blocks a addr = Some block"
  obtains a' where "arena_Share a node addr m = (a', Ok ())"
    "\<exists>t. mem_tree (t_nodes a') (t_root a') t"
    "arena_owners a' = (arena_owners a)(addr := arena_owners a addr OR (if m = 0 then 1 else m))"
    "a_blocks a' = a_blocks a" "a_pinned a' = a_pinned a" "a_closed a' = a_closed a"
    "a_scale a' = a_scale a" "a_topo a' = a_topo a"
proof -
  from assms(1) obtain t where t: "mem_tree (t_nodes a) (t_root a) t"
    by (auto simp: arena_inv_def)
  from arena_insert_owners [OF this assms(2,3), of addr "word_of_int (data_len block)" m] obtain h r q t' where
    I: "memTree_insert (t_nodes a) (t_root a) node addr (word_of_int (data_len block)) m = Some (h, r, q)" "mem_tree h r t'"
      "\<And>a'. t_nodes a' = h \<Longrightarrow> t_root a' = r \<Longrightarrow>
         arena_owners a' = (arena_owners a)(addr := arena_owners a addr OR (if m = 0 then 1 else m))"
    by blast
  have "arena_Share a node addr m = (a\<lparr>t_nodes := h, t_root := r\<rparr>, Ok ())"
    using assms(4) I(1) by (simp add: arena_Share_def)
  then show thesis
    by (rule that) (use I in auto)
qed

lemma arena_inv_Share:
  assumes inv: "arena_inv a" and new: "node \<noteq> 0" "\<not> in_tree (t_nodes a) (t_root a) node"
  shows "arena_inv (fst (arena_Share a node addr m))"
proof (cases "a_blocks a addr")
  case None
  with inv show ?thesis by (simp add: arena_Share_def)
next
  case (Some block)
  show ?thesis
  proof (rule arena_Share_open [OF inv new Some, of m])
    fix a'
    assume a': "arena_Share a node addr m = (a', Ok ())" "\<exists>t. mem_tree (t_nodes a') (t_root a') t"
      "arena_owners a' = (arena_owners a)(addr := arena_owners a addr OR (if m = 0 then 1 else m))"
      "a_blocks a' = a_blocks a" "a_pinned a' = a_pinned a" "a_closed a' = a_closed a"
      "a_scale a' = a_scale a" "a_topo a' = a_topo a"
    have op: "\<not> a_closed a"
      using arena_invD(3) [OF inv] Some by auto
    have "arena_inv a'"
      using inv a'(2,7,8)
    proof (rule arena_invI)
      show "p' \<in> dom (a_blocks a') \<longleftrightarrow> arena_owners a' p' \<noteq> 0" for p'
      proof (cases "p' = addr")
        case True
        with a'(3,4) Some or_mask_nonzero show ?thesis by (simp add: domI)
      next
        case False
        with a'(3,4) arena_invD(4) [OF inv op, of p'] show ?thesis by simp
      qed
    qed (use a' op arena_invD [OF inv] in auto)
    then show ?thesis
      unfolding a'(1) by simp
  qed
qed

lemma arena_clear_owners:
  assumes "arena_inv a"
  obtains a' where "arena_free_clear a addr m = (a', Ok (arena_owners a addr AND NOT m, tmap (t_nodes a) (t_root a) addr \<noteq> None))"
    "\<exists>t. mem_tree (t_nodes a') (t_root a') t"
    "arena_owners a' = (arena_owners a)(addr := arena_owners a addr AND NOT m)"
    "a_blocks a' = a_blocks a" "a_pinned a' = a_pinned a" "a_closed a' = a_closed a"
    "a_scale a' = a_scale a" "a_topo a' = a_topo a"
proof -
  from assms obtain t where t: "mem_tree (t_nodes a) (t_root a) t"
    by (auto simp: arena_inv_def)
  show thesis
  proof (cases rule: findNode_total [OF t, of addr])
    case 1
    then have "tmap (t_nodes a) (t_root a) addr = None"
      by (simp add: tmap_def)
    with 1 t that [of a] show thesis
      by (auto simp: arena_free_clear_def memTree_freeVarying_def memTree_find_def arena_owners_def fun_upd_idem)
  next
    case (2 q n)
    let ?n = "n\<lparr>OwnerMask := OwnerMask n AND NOT m\<rparr>"
    let ?a = "a\<lparr>t_nodes := (t_nodes a)(q \<mapsto> ?n)\<rparr>"
    have tm: "tmap (t_nodes a) (t_root a) addr = Some (Size n, OwnerMask n)"
      using 2 by (simp add: tmap_def)
    note U = tmap_update_data [OF t 2(2,4), of ?n]
    have "arena_owners ?a = (arena_owners a)(addr := OwnerMask n AND NOT m)"
      using owners_upd [of ?a a addr "(Size n, OwnerMask n AND NOT m)"] U(2) 2(5) by simp
    moreover have "arena_owners a addr = OwnerMask n"
      using tm by (simp add: arena_owners_def)
    moreover have "arena_free_clear a addr m = (?a, Ok (OwnerMask n AND NOT m, True))"
      using 2 by (simp add: arena_free_clear_def memTree_freeVarying_def memTree_find_def Let_def)
    ultimately show thesis
      using that [of ?a] U(1) tm by auto
  qed
qed

lemma arena_inv_Free:
  assumes inv: "arena_inv a"
  shows "arena_inv (fst (arena_FreeVarying a addr m))"
proof (rule arena_clear_owners [OF inv, of addr m])
  fix a'
  let ?w = "arena_owners a addr AND NOT m" and ?f = "tmap (t_nodes a) (t_root a) addr \<noteq> None"
  assume a': "arena_free_clear a addr m = (a', Ok (?w, ?f))" "\<exists>t. mem_tree (t_nodes a') (t_root a') t"
    "arena_owners a' = (arena_owners a)(addr := ?w)"
    "a_blocks a' = a_blocks a" "a_pinned a' = a_pinned a" "a_closed a' = a_closed a"
    "a_scale a' = a_scale a" "a_topo a' = a_topo a"
  have miss: "arena_owners a addr = 0" if "\<not> ?f"
    using that by (cases "tmap (t_nodes a) (t_root a) addr") (auto simp: arena_owners_def)
  have keep: "arena_inv a'" if w: "?w \<noteq> 0 \<or> \<not> ?f"
    using inv a'(2,7,8)
  proof (rule arena_invI)
    show "p \<in> dom (a_blocks a') \<longleftrightarrow> arena_owners a' p \<noteq> 0" if "\<not> a_closed a'" for p
      using a'(3,4,6) that arena_invD(4) [OF inv, of p] w miss by auto
  qed (use a' arena_invD [OF inv] in auto)
  have gone: "arena_inv (fst (arena_free_finish a' addr))" if w: "?w = 0"
  proof (cases "a_blocks a addr")
    case None
    have "arena_inv a'"
      using inv a'(2,7,8)
    proof (rule arena_invI)
      show "p \<in> dom (a_blocks a') \<longleftrightarrow> arena_owners a' p \<noteq> 0" if "\<not> a_closed a'" for p
        using a'(3,4,6) that arena_invD(4) [OF inv, of p] w None by auto
    qed (use a' arena_invD [OF inv] in auto)
    with None a'(4) show ?thesis
      by (simp add: arena_free_finish_def)
  next
    case (Some block)
    let ?a = "a'\<lparr>a_pinned := a_pinned a' - {addr}, a_blocks := (a_blocks a')(addr := None)\<rparr>"
    have "arena_inv ?a"
      using inv
    proof (rule arena_invI)
      show "p \<in> dom (a_blocks ?a) \<longleftrightarrow> arena_owners ?a p \<noteq> 0" if "\<not> a_closed ?a" for p
      proof -
        have "arena_owners ?a = arena_owners a'"
          by (simp add: arena_owners_def fun_eq_iff)
        then show ?thesis
          using a'(3,4,6) that arena_invD(4) [OF inv, of p] w by auto
      qed
      show "a_pinned ?a = dom (a_blocks ?a)"
        using a'(4,5) arena_invD(1) [OF inv] by auto
    qed (use a' arena_invD [OF inv] in \<open>auto split: if_splits\<close>)
    with Some a'(4) arena_invD(2) [OF inv Some] show ?thesis
      by (simp add: arena_free_finish_def)
  qed
  show ?thesis
    using keep gone by (simp add: arena_FreeVarying_def a'(1))
qed

lemma arena_inv_Close: "arena_inv a \<Longrightarrow> arena_inv (arena_Close a)"
proof -
  assume inv: "arena_inv a"
  have "data_ptr ` ran (a_blocks a) = dom (a_blocks a)"
    using arena_invD(2) [OF inv] by (force simp: ran_def dom_def image_def)
  with inv show ?thesis
    by (auto simp: arena_Close_def arena_inv_def)
qed

lemma arena_inv_New:
  assumes "0 < scale" "scale < 2 ^ 63" "arena_New scale poly = Ok a"
  shows "arena_inv a"
proof -
  from assms(3) obtain topo where "newTopology scale poly = Ok topo"
    "a = \<lparr>a_scale = scale, a_topo = topo, t_root = 0, t_nodes = Map.empty,
           a_blocks = Map.empty, a_closed = False, a_pinned = {}, a_finalizer = True\<rparr>"
    by (auto simp: arena_New_def)
  moreover from this have "t_poly topo = poly"
    by (auto simp: newTopology_def)
  ultimately show ?thesis
    using assms(1,2) by (auto simp: arena_inv_def arena_owners_def)
qed

section \<open>Reachable arenas\<close>

inductive arena_step :: "Arena \<Rightarrow> Arena \<Rightarrow> bool" where
  arena_step_Alloc: "gc_ok a p node \<Longrightarrow> arena_step a (fst (arena_Alloc a p node sz m tid cid))"
| arena_step_Share: "node \<noteq> 0 \<Longrightarrow> \<not> in_tree (t_nodes a) (t_root a) node \<Longrightarrow>
    arena_step a (fst (arena_Share a node addr m))"
| arena_step_Free: "arena_step a (fst (arena_FreeVarying a addr m))"
| arena_step_Close: "arena_step a (arena_Close a)"

inductive arena_reachable :: "int \<Rightarrow> u64 \<Rightarrow> Arena \<Rightarrow> bool" for scale poly where
  arena_reach_New: "arena_New scale poly = Ok a \<Longrightarrow> arena_reachable scale poly a"
| arena_reach_step: "arena_reachable scale poly a \<Longrightarrow> arena_step a a' \<Longrightarrow> arena_reachable scale poly a'"

inductive_cases arena_stepE: "arena_step a a'"

lemma arena_step_inv: "arena_step a a' \<Longrightarrow> arena_inv a \<Longrightarrow> arena_inv a'"
  by (elim arena_stepE) (auto intro: arena_inv_Alloc arena_inv_Share arena_inv_Free arena_inv_Close)

lemma arena_reachable_inv:
  assumes "0 < scale" "scale < 2 ^ 63"
  shows "arena_reachable scale poly a \<Longrightarrow> arena_inv a"
  by (induction rule: arena_reachable.induct) (use assms arena_inv_New arena_step_inv in blast)+

text \<open>An arena with one block, for examples.\<close>

definition sample_arena :: Arena where
  "sample_arena = \<lparr>a_scale = 8, a_topo = \<lparr>t_scale = 8, t_poly = 0x11B, t_matrix =
      map (\<lambda>row. map (\<lambda>col. word_of_int ((int row + int col) mod 8 + 1)) [0..<8]) [0..<8]\<rparr>,
    t_root = 0, t_nodes = Map.empty, a_blocks = Map.empty, a_closed = False, a_pinned = {}, a_finalizer = True\<rparr>"

lemma sample_arena_New: "arena_New 8 0x11B = Ok sample_arena"
  by (simp add: arena_New_def newTopology_def arena_buildPandiagonal_def sample_arena_def)

lemma sample_arena_reachable: "arena_reachable 8 0x11B sample_arena"
  using sample_arena_New by (rule arena_reach_New)

definition sample_arena_one :: Arena where
  "sample_arena_one = sample_arena\<lparr>a_pinned := {0xC000}, a_blocks := [0xC000 \<mapsto> \<lparr>data_ptr = 0xC000, data_len = 128\<rparr>],
     t_root := 0xD000, t_nodes := [0xD000 \<mapsto> \<lparr>Addr = 0xC000, Size = 128, OwnerMask = 1, Left = 0, Right = 0\<rparr>]\<rparr>"

lemma sample_arena_one_Alloc: "\<exists>k. arena_Alloc sample_arena 0xC000 0xD000 128 1 3 9 = (sample_arena_one, Ok (0xC000, k))"
proof -
  obtain k where "topology_bucket (a_topo sample_arena) 3 9 = Ok k"
    using arena_inv_bucket [OF arena_reachable_inv [OF _ _ sample_arena_reachable], of 3 9]
    by (auto simp: arena_Bucket_def)
  then show ?thesis
    by (auto simp: arena_Alloc_def go_make_bytes_def maxAlloc_def memTree_insert_def sample_arena_one_def
        sample_arena_def Let_def)
qed

lemma sample_arena_one_reachable: "arena_reachable 8 0x11B sample_arena_one"
proof -
  have "gc_ok sample_arena 0xC000 0xD000"
    by (simp add: gc_ok_def sample_arena_def in_tree_def)
  from arena_reach_step [OF sample_arena_reachable arena_step_Alloc [OF this, of 128 1 3 9]] show ?thesis
    using sample_arena_one_Alloc by auto
qed

section \<open>Properties\<close>

text \<open>
  C23: in every arena reachable by any calls with any arguments, exactly the blocks in the map are
  pinned, each at its own address; while the arena is open these are exactly the addresses with an
  owner, so memory stays pinned as long as an owner holds it and is released as soon as the last
  one goes; and a closed arena pins nothing.
\<close>

theorem arena_pins_owned:
  assumes "0 < scale" "scale < 2 ^ 63" "arena_reachable scale poly a"
  shows "a_pinned a = dom (a_blocks a) \<and>
    (\<not> a_closed a \<longrightarrow> a_pinned a = {p. arena_owners a p \<noteq> 0}) \<and> (a_closed a \<longrightarrow> a_pinned a = {})"
proof -
  note D = arena_invD [OF arena_reachable_inv [OF assms]]
  have "a_pinned a = {p. arena_owners a p \<noteq> 0}" if "\<not> a_closed a"
    unfolding D(1) using D(4) [OF that] by blast
  then show ?thesis
    using D(1,3) by simp
qed

theorem arena_pins_owned_witness:
  "a_pinned sample_arena_one = {0xC000} \<and> {p. arena_owners sample_arena_one p \<noteq> 0} = {0xC000}"
  using arena_pins_owned [OF _ _ sample_arena_one_reachable] by (auto simp: sample_arena_one_def sample_arena_def)

text \<open>
  \<open>Alloc\<close> on every branch: ErrInvalidSize for size 0, a panic of \<open>make\<close> for a size beyond the
  limit of slices, ErrNotFound on a closed arena, and otherwise the address of the new slice and
  the bucket of the thread and chunk; then the address is pinned, its owners are the requested
  ones, and no owner of another address changes.
\<close>

lemma arena_Alloc_result:
  assumes "0 < scale" "scale < 2 ^ 63" "arena_reachable scale poly a" "gc_ok a p node"
  shows "(let (a', r) = arena_Alloc a p node sz m tid cid in
    if sz = 0 then r = Err Arena_ErrInvalidSize \<and> a' = a
    else if sint sz < 0 \<or> maxAlloc < sint sz then r = Panic MakeSliceLen \<and> a' = a
    else if a_closed a then r = Err Arena_ErrNotFound \<and> a' = a
    else (\<exists>k. r = Ok (p, k) \<and> arena_Bucket a tid cid = Ok k) \<and> p \<in> a_pinned a' \<and>
         arena_owners a' = (arena_owners a)(p := if m = 0 then 1 else m))"
proof -
  have inv: "arena_inv a"
    using assms(1-3) by (rule arena_reachable_inv)
  consider "sz = 0 \<or> sint sz < 0 \<or> maxAlloc < sint sz"
    | "sz \<noteq> 0" "0 \<le> sint sz" "sint sz \<le> maxAlloc" "a_closed a"
    | "sz \<noteq> 0" "0 \<le> sint sz" "sint sz \<le> maxAlloc" "\<not> a_closed a"
    by linarith
  then show ?thesis
  proof cases
    case 1
    then show ?thesis
      by (auto simp: arena_Alloc_def go_make_bytes_def Let_def)
  next
    case 2
    have "a\<lparr>a_pinned := insert p (a_pinned a) - {p}\<rparr> = a"
      using assms(4) by (simp add: gc_ok_def)
    with 2 arena_inv_bucket [OF inv, of tid cid] show ?thesis
      by (auto simp: arena_Alloc_def go_make_bytes_def arena_Bucket_def Let_def)
  next
    case 3
    show ?thesis
      by (rule arena_Alloc_open [OF inv assms(4) 3, of m tid cid]) (use 3 in simp)
  qed
qed

lemma arena_Alloc_result_example:
  "\<exists>k. snd (arena_Alloc sample_arena_one 0xC100 0xD100 64 2 0 0) = Ok (0xC100, k)"
proof -
  have "gc_ok sample_arena_one 0xC100 0xD100"
    by (simp add: gc_ok_def sample_arena_one_def in_tree_def)
  moreover have "\<not> a_closed sample_arena_one"
    by (simp add: sample_arena_one_def sample_arena_def)
  ultimately show ?thesis
    using arena_Alloc_result [OF _ _ sample_arena_one_reachable, of "0xC100" "0xD100" 64 2 0 0]
    by (auto simp: maxAlloc_def)
qed

text \<open>
  C24: \<open>FreeVarying\<close> removes exactly the given owners. It returns ErrNotFound for an address never
  allocated, false while an owner is left, and true when none is left; then the block is no longer
  pinned. Addresses other than the given one keep their owners.
\<close>

theorem arena_FreeVarying_result:
  assumes "0 < scale" "scale < 2 ^ 63" "arena_reachable scale poly a"
  shows "let (a', r) = arena_FreeVarying a addr m; w = arena_owners a addr AND NOT m in
    arena_owners a' = (arena_owners a)(addr := w) \<and>
    r = (if tmap (t_nodes a) (t_root a) addr = None then Err Arena_ErrNotFound else Ok (w = 0)) \<and>
    (w = 0 \<longrightarrow> addr \<notin> a_pinned a')"
proof -
  have inv: "arena_inv a"
    using assms by (rule arena_reachable_inv)
  have inv': "arena_inv (fst (arena_FreeVarying a addr m))"
    using inv by (rule arena_inv_Free)
  show ?thesis
  proof (rule arena_clear_owners [OF inv, of addr m])
    fix a1
    let ?w = "arena_owners a addr AND NOT m" and ?f = "tmap (t_nodes a) (t_root a) addr \<noteq> None"
    assume a1: "arena_free_clear a addr m = (a1, Ok (?w, ?f))"
      "arena_owners a1 = (arena_owners a)(addr := ?w)" "a_blocks a1 = a_blocks a" "a_closed a1 = a_closed a"
    have fin: "arena_owners (fst (arena_free_finish a1 addr)) = arena_owners a1 \<and>
        snd (arena_free_finish a1 addr) = Ok True"
      by (auto simp: arena_free_finish_def arena_owners_def split: option.split)
    have main: "arena_owners (fst (arena_FreeVarying a addr m)) = (arena_owners a)(addr := ?w) \<and>
        snd (arena_FreeVarying a addr m) = (if \<not> ?f then Err Arena_ErrNotFound else Ok (?w = 0))"
      using fin by (simp add: arena_FreeVarying_def a1(1,2))
    moreover have "addr \<notin> a_pinned (fst (arena_FreeVarying a addr m))" if "?w = 0"
      using arena_invD(1) [OF inv'] arena_invD(3) [OF inv'] arena_invD(4) [OF inv', of addr] main that
      by (cases "a_closed (fst (arena_FreeVarying a addr m))") auto
    ultimately show ?thesis
      by (auto simp: Let_def split_beta)
  qed
qed

theorem arena_FreeVarying_result_witness:
  "snd (arena_FreeVarying sample_arena_one 0xC000 2) = Ok False \<and> snd (arena_FreeVarying sample_arena_one 0xC000 3) = Ok True"
proof -
  have o: "tmap (t_nodes sample_arena_one) (t_root sample_arena_one) 0xC000 = Some (128, 1)"
    by (simp add: sample_arena_one_def tmap_def findNode.simps)
  then have "arena_owners sample_arena_one 0xC000 = 1"
    by (simp add: arena_owners_def)
  with o show ?thesis
    using arena_FreeVarying_result [OF _ _ sample_arena_one_reachable, of "0xC000" 2]
      arena_FreeVarying_result [OF _ _ sample_arena_one_reachable, of "0xC000" 3]
    by (auto simp: Let_def split_beta)
qed

text \<open>
  C40: \<open>Share\<close> between the two steps of a \<open>FreeVarying\<close> loses the block. When another goroutine
  shares a block after its last owner has been cleared and before the mutex is taken, \<open>Share\<close>
  succeeds, and then the block is unpinned and dropped although it has an owner again.
\<close>

theorem arena_Share_race:
  assumes "0 < scale" "scale < 2 ^ 63" "arena_reachable scale poly a" "addr \<in> a_pinned a"
    and "arena_owners a addr AND NOT m = 0"
    and "node \<noteq> 0" "\<not> in_tree (t_nodes (fst (arena_free_clear a addr m))) (t_root a) node"
  shows "\<exists>a1 a2 a3. arena_free_clear a addr m = (a1, Ok (0, True)) \<and> arena_Share a1 node addr w = (a2, Ok ()) \<and>
    arena_free_finish a2 addr = (a3, Ok True) \<and> addr \<notin> a_pinned a3 \<and> arena_owners a3 addr \<noteq> 0"
proof -
  have inv: "arena_inv a"
    using assms(1-3) by (rule arena_reachable_inv)
  then have op: "\<not> a_closed a" and "addr \<in> dom (a_blocks a)"
    using arena_invD(1,3) [OF inv] assms(4) by auto
  then obtain block where B: "a_blocks a addr = Some block"
    by auto
  have own: "arena_owners a addr \<noteq> 0"
    using arena_invD(4) [OF inv op, of addr] B by auto
  then have f: "tmap (t_nodes a) (t_root a) addr \<noteq> None"
    by (cases "tmap (t_nodes a) (t_root a) addr") (auto simp: arena_owners_def)
  have root: "t_root (fst (arena_free_clear a addr m)) = t_root a"
    by (auto simp: arena_free_clear_def split: option.split)
  show ?thesis
  proof (rule arena_clear_owners [OF inv, of addr m])
    fix a1
    assume a1: "arena_free_clear a addr m = (a1, Ok (arena_owners a addr AND NOT m, tmap (t_nodes a) (t_root a) addr \<noteq> None))"
      "\<exists>t. mem_tree (t_nodes a1) (t_root a1) t" "a_blocks a1 = a_blocks a"
      "a_pinned a1 = a_pinned a"
    from a1(2) obtain t where "mem_tree (t_nodes a1) (t_root a1) t" by blast
    moreover have "\<not> in_tree (t_nodes a1) (t_root a1) node"
      using assms(7) root a1(1) by simp
    ultimately obtain h r q where I:
      "memTree_insert (t_nodes a1) (t_root a1) node addr (word_of_int (data_len block)) w = Some (h, r, q)"
      "\<And>a'. t_nodes a' = h \<Longrightarrow> t_root a' = r \<Longrightarrow>
         arena_owners a' = (arena_owners a1)(addr := arena_owners a1 addr OR (if w = 0 then 1 else w))"
      using arena_insert_owners [OF _ assms(6)] by blast
    let ?a2 = "a1\<lparr>t_nodes := h, t_root := r\<rparr>"
    have "arena_Share a1 node addr w = (?a2, Ok ())"
      using I(1) a1(3) B by (simp add: arena_Share_def)
    moreover have "arena_owners (?a2\<lparr>a_pinned := x, a_blocks := y\<rparr>) addr \<noteq> 0" for x y
      using I(2) or_mask_nonzero by simp
    moreover have "data_ptr block = addr"
      using arena_invD(2) [OF inv B] by simp
    ultimately show ?thesis
      using a1 assms(5) f B by (simp add: arena_free_finish_def)
  qed
qed

theorem arena_Share_race_witness:
  "\<exists>a1 a2 a3. arena_free_clear sample_arena_one 0xC000 1 = (a1, Ok (0, True)) \<and> arena_Share a1 0xD100 0xC000 2 = (a2, Ok ()) \<and>
    arena_free_finish a2 0xC000 = (a3, Ok True) \<and> 0xC000 \<notin> a_pinned a3 \<and> arena_owners a3 0xC000 \<noteq> 0"
proof (rule arena_Share_race [OF _ _ sample_arena_one_reachable])
  have "tmap (t_nodes sample_arena_one) (t_root sample_arena_one) 0xC000 = Some (128, 1)"
    by (simp add: sample_arena_one_def tmap_def findNode.simps)
  then show "arena_owners sample_arena_one 0xC000 AND NOT 1 = 0"
    by (simp add: arena_owners_def)
  show "\<not> in_tree (t_nodes (fst (arena_free_clear sample_arena_one 0xC000 1))) (t_root sample_arena_one) 0xD100"
    by (simp add: arena_free_clear_def memTree_freeVarying_def memTree_find_def findNode.simps sample_arena_one_def in_tree_def Let_def)
qed (simp_all add: sample_arena_one_def)

end
