(* ===== verification/Alloc_Core.thy ===== *)
theory Alloc_Core
  imports Hybrid_Props Balloc_Life Arena
begin

text \<open>
  The package alloc above the two backends (alloc/core.go): the interface \<open>Allocator\<close> with its three
  implementations, the wrappers, the factories, the injection into a context and the pool.

  An interface value is a pointer, so a world holds the allocators by reference, together with the
  memory and the idle allocators of a pool. What the Go runtime chooses during a call (the address
  of a new slice or slab, of a new tree node, the item \<open>sync.Pool.Get\<close> returns) is a record of
  answers passed to the call.

  Shown here: whatever implementation is behind the interface, \<open>Alloc\<close> and \<open>Reset\<close> obey the
  contract of Alloc_Spec.
\<close>

section \<open>The interface and its implementations\<close>

record go_rt =
  rt_ptr :: uintptr
  rt_node :: uintptr
  rt_choice :: "nat option"

type_synonym ballocWrapper = BlockAllocator
type_synonym arenaWrapper = Arena

datatype Allocator = BallocWrapper ballocWrapper | ArenaWrapper arenaWrapper | HybridAllocator hybrid

definition ballocWrapper_Reset :: "ballocWrapper \<Rightarrow> ballocWrapper \<times> unit outcome" where
  "ballocWrapper_Reset b = balloc_Reset b"

text \<open>The old arena is closed, which unpins its blocks, and dropped.\<close>

definition arenaWrapper_Reset :: "int \<Rightarrow> u64 \<Rightarrow> arenaWrapper \<Rightarrow> arenaWrapper \<times> unit outcome" where
  "arenaWrapper_Reset scale poly a =
     (case arena_New scale poly of
        Ok a' \<Rightarrow> (a', Ok ())
      | Err e \<Rightarrow> (arena_Close a, Err e) | Panic q \<Rightarrow> (arena_Close a, Panic q) | Diverge \<Rightarrow> (arena_Close a, Diverge))"

text \<open>Method calls through the interface.\<close>

definition Allocator_Alloc ::
  "u64 \<Rightarrow> go_rt \<Rightarrow> Allocator \<Rightarrow> uintptr \<Rightarrow> u64 \<Rightarrow> u64 \<Rightarrow> u64 \<Rightarrow> Allocator \<times> (uintptr \<times> int) outcome" where
  "Allocator_Alloc poly rt a sz ownerMask threadID chunkID =
     (case a of
        BallocWrapper b \<Rightarrow> map_prod BallocWrapper id (balloc_Alloc poly b sz ownerMask threadID chunkID)
      | ArenaWrapper x \<Rightarrow>
          map_prod ArenaWrapper id (arena_Alloc x (rt_ptr rt) (rt_node rt) sz ownerMask threadID chunkID)
      | HybridAllocator h \<Rightarrow>
          map_prod HybridAllocator id (hybrid_Alloc poly h (rt_choice rt) (rt_ptr rt) sz ownerMask threadID chunkID))"

definition Allocator_Reset :: "int \<Rightarrow> u64 \<Rightarrow> Allocator \<Rightarrow> Allocator \<times> unit outcome" where
  "Allocator_Reset scale poly a =
     (case a of
        BallocWrapper b \<Rightarrow> map_prod BallocWrapper id (ballocWrapper_Reset b)
      | ArenaWrapper x \<Rightarrow> map_prod ArenaWrapper id (arenaWrapper_Reset scale poly x)
      | HybridAllocator h \<Rightarrow> map_prod HybridAllocator id (hybrid_Reset h))"

definition Allocator_Close :: "Allocator \<Rightarrow> Allocator \<times> (uintptr \<times> uintptr) list" where
  "Allocator_Close a =
     (case a of
        BallocWrapper b \<Rightarrow> map_prod BallocWrapper id (balloc_Close b)
      | ArenaWrapper x \<Rightarrow> (ArenaWrapper (arena_Close x), [])
      | HybridAllocator h \<Rightarrow> map_prod HybridAllocator id (hybrid_Close h))"

section \<open>Constructors and factories\<close>

definition NewBalloc :: "int \<Rightarrow> (int \<Rightarrow> go_error + uintptr \<times> uintptr) \<Rightarrow> uintptr \<Rightarrow> Allocator outcome" where
  "NewBalloc scale mmapAnon sz = map_outcome BallocWrapper (balloc_New scale mmapAnon sz)"

definition alloc_NewArena :: "int \<Rightarrow> u64 \<Rightarrow> Allocator outcome" where
  "alloc_NewArena scale poly = map_outcome ArenaWrapper (arena_New scale poly)"

text \<open>A factory is called later, with the mapping call of that moment.\<close>

type_synonym factory = "(int \<Rightarrow> go_error + uintptr \<times> uintptr) \<Rightarrow> Allocator outcome"

definition BallocFactory :: "int \<Rightarrow> uintptr \<Rightarrow> factory" where
  "BallocFactory scale sz = (\<lambda>mmapAnon. NewBalloc scale mmapAnon sz)"

definition ArenaFactory :: "int \<Rightarrow> u64 \<Rightarrow> factory" where
  "ArenaFactory scale poly = (\<lambda>_. alloc_NewArena scale poly)"

definition HybridFactory :: "int \<Rightarrow> uintptr \<Rightarrow> factory" where
  "HybridFactory scale largeSize = (\<lambda>mmapAnon. map_outcome HybridAllocator (NewHybrid scale mmapAnon largeSize))"

section \<open>Context\<close>

definition WithAllocator :: "ctx \<Rightarrow> uintptr \<Rightarrow> ctx" where
  "WithAllocator c a = ctx_WithValue c AllocKey (AllocatorRef a)"

definition alloc_FromContext :: "ctx \<Rightarrow> uintptr option" where
  "alloc_FromContext c = (case ctx_Value c AllocKey of Some (AllocatorRef a) \<Rightarrow> Some a | _ \<Rightarrow> None)"

definition MustFromContext :: "ctx \<Rightarrow> uintptr outcome" where
  "MustFromContext c =
     (case alloc_FromContext c of
        None \<Rightarrow> Panic (PanicValue ''alloc: no allocator found in context'')
      | Some a \<Rightarrow> Ok a)"

lemma alloc_FromContext_With [simp]: "alloc_FromContext (WithAllocator c a) = Some a"
  by (simp add: alloc_FromContext_def WithAllocator_def)

section \<open>World and pool\<close>

record alloc_world =
  aw_mem :: mem
  aw_objs :: "uintptr \<rightharpoonup> Allocator"
  aw_pool :: "uintptr list"

text \<open>
  A call of \<open>Alloc\<close> through a reference. New memory of the Go heap is zeroed: the slice that the
  pinned arena makes, and a new slab of the hybrid allocator.
\<close>

definition slab_made :: "hybrid \<Rightarrow> hybrid \<Rightarrow> uintptr \<Rightarrow> bool" where
  "slab_made h h' p \<longleftrightarrow> p \<in> set (all_ptrs (hy_shards h')) \<and> p \<notin> set (all_ptrs (hy_shards h))"

definition made_memory :: "go_rt \<Rightarrow> Allocator \<Rightarrow> Allocator \<Rightarrow> uintptr \<Rightarrow> mem \<Rightarrow> mem" where
  "made_memory rt a a' sz m =
     (case (a, a') of
        (ArenaWrapper x, _) \<Rightarrow>
          if 0 < sint sz \<and> sint sz \<le> maxAlloc then write_bytes m (rt_ptr rt) (replicate (unat sz) 0) else m
      | (HybridAllocator h, HybridAllocator h') \<Rightarrow>
          if slab_made h h' (rt_ptr rt) then write_bytes m (rt_ptr rt) (replicate (nat smallSlabSize) 0) else m
      | _ \<Rightarrow> m)"

definition world_Alloc ::
  "u64 \<Rightarrow> go_rt \<Rightarrow> alloc_world \<Rightarrow> uintptr \<Rightarrow> uintptr \<Rightarrow> u64 \<Rightarrow> u64 \<Rightarrow> u64 \<Rightarrow> alloc_world \<times> (uintptr \<times> int) outcome" where
  "world_Alloc poly rt w ref sz ownerMask threadID chunkID =
     (case aw_objs w ref of
        None \<Rightarrow> (w, Panic NilDereference)
      | Some a \<Rightarrow>
          let (a', r) = Allocator_Alloc poly rt a sz ownerMask threadID chunkID
          in (w\<lparr>aw_objs := (aw_objs w)(ref \<mapsto> a'), aw_mem := made_memory rt a a' sz (aw_mem w)\<rparr>, r))"

definition alloc_NewPool :: "mem \<Rightarrow> (uintptr \<rightharpoonup> Allocator) \<Rightarrow> alloc_world" where
  "alloc_NewPool m objs = \<lparr>aw_mem = m, aw_objs = objs, aw_pool = []\<rparr>"

text \<open>
  \<open>Get\<close>: when the pool has nothing to give, its \<open>New\<close> calls the factory and returns the allocator or
  the error, which \<open>Get\<close> tells apart. \<open>self\<close> is the address of a new allocator.
\<close>

definition alloc_Pool_Get ::
  "factory \<Rightarrow> alloc_world \<Rightarrow> nat option \<Rightarrow> (int \<Rightarrow> go_error + uintptr \<times> uintptr) \<Rightarrow> uintptr
   \<Rightarrow> alloc_world \<times> uintptr outcome" where
  "alloc_Pool_Get factory w c mmapAnon self =
     (case pool_take c (aw_pool w) of
        Some (a, rest) \<Rightarrow> (w\<lparr>aw_pool := rest\<rparr>, Ok a)
      | None \<Rightarrow>
          (case factory mmapAnon of
             Ok a \<Rightarrow> (w\<lparr>aw_objs := (aw_objs w)(self \<mapsto> a)\<rparr>, Ok self)
           | Err e \<Rightarrow> (w, Err e) | Panic q \<Rightarrow> (w, Panic q) | Diverge \<Rightarrow> (w, Diverge)))"

text \<open>\<open>Put\<close> drops the error of \<open>Reset\<close>.\<close>

definition alloc_Pool_Put :: "int \<Rightarrow> u64 \<Rightarrow> alloc_world \<Rightarrow> uintptr \<Rightarrow> alloc_world \<times> unit outcome" where
  "alloc_Pool_Put scale poly w ref =
     (case aw_objs w ref of
        None \<Rightarrow> (w, Panic NilDereference)
      | Some a \<Rightarrow>
          (case Allocator_Reset scale poly a of
             (a', Panic q) \<Rightarrow> (w\<lparr>aw_objs := (aw_objs w)(ref \<mapsto> a')\<rparr>, Panic q)
           | (a', Diverge) \<Rightarrow> (w\<lparr>aw_objs := (aw_objs w)(ref \<mapsto> a')\<rparr>, Diverge)
           | (a', _) \<Rightarrow> (w\<lparr>aw_objs := (aw_objs w)(ref \<mapsto> a'), aw_pool := ref # aw_pool w\<rparr>, Ok ())))"

section \<open>The contract of the interface\<close>

type_synonym alloc_request = "uintptr \<times> u64 \<times> u64 \<times> u64 \<times> go_rt"

definition alloc_request :: "u64 \<Rightarrow> Allocator \<Rightarrow> alloc_request \<Rightarrow> Allocator \<times> uintptr outcome" where
  "alloc_request poly a = (\<lambda>(sz, m, tid, cid, rt). map_prod id (map_outcome fst) (Allocator_Alloc poly rt a sz m tid cid))"

definition alloc_need :: "alloc_request \<Rightarrow> nat" where
  "alloc_need r = unat (fst r)"

definition arena_used :: "Arena \<Rightarrow> nat set" where
  "arena_used x = (\<Union>(p, k) \<in> {(p, k). a_blocks x p = Some k}. span p (nat (data_len k)))"

definition arena_placed :: "Arena \<Rightarrow> bool" where
  "arena_placed x \<longleftrightarrow> (\<forall>p k. a_blocks x p = Some k \<longrightarrow> p \<noteq> 0 \<and> in_space p (nat (data_len k)))"

definition alloc_used :: "Allocator \<Rightarrow> nat set" where
  "alloc_used a = (case a of BallocWrapper b \<Rightarrow> balloc_used b | ArenaWrapper x \<Rightarrow> arena_used x | HybridAllocator h \<Rightarrow> hybrid_used h)"

text \<open>An open allocator in a state its operations lead to.\<close>

definition alloc_inv :: "int \<Rightarrow> Allocator \<Rightarrow> bool" where
  "alloc_inv scale a \<longleftrightarrow> 0 < scale \<and> scale < 2 ^ 63 \<and>
     (case a of
        BallocWrapper b \<Rightarrow> balloc_inv b \<and> closed b = 0
      | ArenaWrapper x \<Rightarrow> arena_inv x \<and> arena_placed x
      | HybridAllocator h \<Rightarrow> hybrid_inv h \<and> closed (hy_large h) = 0)"

text \<open>What the implementations rely on of the runtime, and that no pointer passes the end of memory.\<close>

definition alloc_ready :: "Allocator \<Rightarrow> alloc_request \<Rightarrow> bool" where
  "alloc_ready a = (\<lambda>(sz, m, tid, cid, rt).
     case a of
       BallocWrapper b \<Rightarrow> no_wrap b sz
     | ArenaWrapper x \<Rightarrow> 0 \<le> sint sz \<and> sint sz \<le> maxAlloc \<and> gc_ok x (rt_ptr rt) (rt_node rt) \<and> rt_ptr rt \<noteq> 0 \<and>
         in_space (rt_ptr rt) (unat sz) \<and> span (rt_ptr rt) (unat sz) \<inter> arena_used x = {}
     | HybridAllocator h \<Rightarrow> hybrid_ready h (sz, m, tid, cid, rt_choice rt, rt_ptr rt))"

lemma arena_used_iff: "x \<in> arena_used a \<longleftrightarrow> (\<exists>p k. a_blocks a p = Some k \<and> x \<in> span p (nat (data_len k)))"
  by (auto simp: arena_used_def)

lemma arena_request_contract:
  assumes "arena_inv x" "arena_placed x" "alloc_ready (ArenaWrapper x) (sz, m, tid, cid, rt)"
    and "arena_Alloc x (rt_ptr rt) (rt_node rt) sz m tid cid = (x', r)"
  shows "arena_inv x' \<and> arena_placed x' \<and> arena_used x \<subseteq> arena_used x' \<and>
    (case r of Ok (a, k) \<Rightarrow> span a (unat sz) \<inter> arena_used x = {} \<and> span a (unat sz) \<subseteq> arena_used x'
     | Err e \<Rightarrow> True | _ \<Rightarrow> False)"
proof -
  let ?p = "rt_ptr rt"
  have R: "0 \<le> sint sz" "sint sz \<le> maxAlloc" "gc_ok x ?p (rt_node rt)" "in_space ?p (unat sz)"
    "span ?p (unat sz) \<inter> arena_used x = {}" "?p \<noteq> 0"
    using assms(3) by (auto simp: alloc_ready_def)
  have inv': "arena_inv x'"
    using arena_inv_Alloc [OF assms(1) R(3), of sz m tid cid] assms(4) by simp
  consider "sz = 0" | "sz \<noteq> 0" "a_closed x" | "sz \<noteq> 0" "\<not> a_closed x" by blast
  then show ?thesis
  proof cases
    case 1
    then show ?thesis
      using assms by (auto simp: arena_Alloc_def)
  next
    case 2
    from arena_inv_bucket [OF assms(1)] obtain k where "topology_bucket (a_topo x) tid cid = Ok k"
      by (auto simp: arena_Bucket_def)
    moreover have "insert ?p (a_pinned x) - {?p} = a_pinned x"
      using R(3) by (auto simp: gc_ok_def)
    ultimately have "arena_Alloc x ?p (rt_node rt) sz m tid cid = (x, Err Arena_ErrNotFound)"
      using 2 R(1,2) by (simp add: arena_Alloc_def go_make_bytes_def Let_def)
    then have "x' = x" "r = Err Arena_ErrNotFound"
      using assms(4) by auto
    then show ?thesis
      using assms(1,2) by simp
  next
    case 3
    show ?thesis
    proof (rule arena_Alloc_open [OF assms(1) R(3) 3(1) R(1,2) 3(2), of m tid cid])
      fix k a'
      assume A: "arena_Alloc x ?p (rt_node rt) sz m tid cid = (a', Ok (?p, k))"
        "a_blocks a' = (a_blocks x)(?p \<mapsto> \<lparr>data_ptr = ?p, data_len = sint sz\<rparr>)"
      have e: "x' = a'" "r = Ok (?p, k)"
        using A(1) assms(4) by auto
      have n: "nat (sint sz) = unat sz"
        using R(1) sint_nonneg_unat by simp
      have p: "a_blocks x ?p = None"
        using R(3) arena_invD(1) [OF assms(1)] by (auto simp: gc_ok_def)
      have "arena_placed x'"
        using assms(2) R(4,6) by (simp add: arena_placed_def e A(2) n)
      moreover have "arena_used x \<subseteq> arena_used x'"
      proof
        fix y
        assume "y \<in> arena_used x"
        then obtain q b where q: "a_blocks x q = Some b" "y \<in> span q (nat (data_len b))"
          by (auto simp: arena_used_iff)
        then have "q \<noteq> ?p"
          using p by auto
        with q show "y \<in> arena_used x'"
          unfolding arena_used_iff e A(2) by (metis fun_upd_other)
      qed
      moreover have "span ?p (unat sz) \<subseteq> arena_used x'"
        by (auto simp: arena_used_iff e A(2) n)
      ultimately show ?thesis
        using inv' R(5) e(2) by simp
    qed
  qed
qed

lemma balloc_used_space:
  assumes "balloc_inv b"
  shows "balloc_used b \<subseteq> {0<..<2 ^ 64 - 1}"
proof -
  have "layout b"
    using assms refines_fields(1) by (auto simp: balloc_inv_def)
  then have "unat (MmapBase b) + unat (MmapLength b) < 2 ^ 64" "0 < unat (MmapBase b)"
    using unat_lt_u64 [of "payloadEnd b"] by (simp_all add: layout_def unat_gt_0 del: unat_lt_u64)
  moreover have "balloc_used b \<subseteq> span (MmapBase b) (unat (MmapLength b))"
    using balloc_used_region [of "\<lparr>hy_large = b, hy_shards = []\<rparr>"] assms by (simp add: large_region_def)
  ultimately show ?thesis
    by (auto simp: span_def)
qed

lemma span_space: "p \<noteq> 0 \<Longrightarrow> in_space p n \<Longrightarrow> span p n \<subseteq> {0<..<2 ^ 64 - 1}"
  using unat_gt_0 [of p] by (auto simp: span_def in_space_def simp del: unat_gt_0)

lemma hybrid_used_space: "hybrid_inv h \<Longrightarrow> hybrid_used h \<subseteq> {0<..<2 ^ 64 - 1}"
proof
  fix x
  assume inv: "hybrid_inv h" and x: "x \<in> hybrid_used h"
  have "x \<in> {0<..<2 ^ 64 - 1}" if "s \<in> set (hy_shards h)" "a \<in> set (sh_small s)" "x \<in> slab_used a" for s a
  proof -
    have "sa_ptr a \<noteq> 0" "in_space (sa_ptr a) (nat smallSlabSize)"
      using inv small_ptr_in [OF that(1,2)] by (auto simp: hybrid_inv_def slabs_ok_def)
    from span_space [OF this] that(3) slab_used_sub [of a] show ?thesis
      by (auto simp: slab_span_def)
  qed
  with x inv balloc_used_space [of "hy_large h"] show "x \<in> {0<..<2 ^ 64 - 1}"
    by (auto simp: hybrid_used_def hybrid_inv_def)
qed

lemma arena_used_space: "arena_placed x \<Longrightarrow> arena_used x \<subseteq> {0<..<2 ^ 64 - 1}"
  using span_space by (fastforce simp: arena_used_iff arena_placed_def)

lemma alloc_used_space: "alloc_inv scale a \<Longrightarrow> alloc_used a \<subseteq> {0<..<2 ^ 64 - 1}"
  using balloc_used_space hybrid_used_space arena_used_space
  by (cases a) (simp_all add: alloc_inv_def alloc_used_def)

lemma alloc_request_simps:
  "alloc_request poly (BallocWrapper b) (sz, m, tid, cid, rt) = map_prod BallocWrapper id (balloc_request poly b (sz, m, tid, cid))"
  "alloc_request poly (HybridAllocator h) (sz, m, tid, cid, rt) =
     map_prod HybridAllocator id (hybrid_request poly h (sz, m, tid, cid, rt_choice rt, rt_ptr rt))"
  "alloc_request poly (ArenaWrapper x) (sz, m, tid, cid, rt) =
     map_prod ArenaWrapper (map_outcome fst) (arena_Alloc x (rt_ptr rt) (rt_node rt) sz m tid cid)"
  by (simp_all add: alloc_request_def Allocator_Alloc_def balloc_request_def hybrid_request_def map_prod_def split_beta)

text \<open>Every answer of \<open>Alloc\<close> through the interface.\<close>

lemma balloc_request_total:
  assumes "balloc_inv b" "closed b = 0" "balloc_ready b r"
  shows "(\<exists>a. snd (balloc_request poly b r) = Ok a) \<or> (\<exists>e. snd (balloc_request poly b r) = Err e)"
proof -
  obtain sz m tid cid where r: "r = (sz, m, tid, cid)"
    by (cases r)
  have nw: "no_wrap b sz"
    using assms(3) by (simp add: balloc_ready_def r)
  obtain A where A: "balloc_refines b A"
    using assms(1) by (auto simp: balloc_inv_def)
  have "\<exists>k. balloc_Bucket poly b tid cid = Ok k" if "sz \<noteq> 0"
    using balloc_Alloc_sim [OF A nw that assms(2), of poly tid cid m] by blast
  then show ?thesis
    using balloc_Alloc_value [OF assms(1) nw, of poly m tid cid] assms(2)
    by (auto simp: balloc_request_def r split: option.splits)
qed

lemma hybrid_request_total:
  assumes "hybrid_inv h" "closed (hy_large h) = 0" "hybrid_ready h r"
  shows "(\<exists>a. snd (hybrid_request poly h r) = Ok a) \<or> (\<exists>e. snd (hybrid_request poly h r) = Err e)"
proof -
  obtain sz m tid cid c p where r: "r = (sz, m, tid, cid, c, p)"
    by (cases r)
  note C = hybrid_Alloc_cases [OF assms(1) assms(3) [unfolded r], of poly]
  show ?thesis
  proof (cases "sz \<le> 4096")
    case True
    with C show ?thesis
      by (auto simp: hybrid_request_def r)
  next
    case False
    have "balloc_inv (hy_large h)" "balloc_ready (hy_large h) (sz, m, tid, cid)"
      using assms(1,3) False by (auto simp: hybrid_inv_def hybrid_ready_def balloc_ready_def r smallThreshold_def)
    from balloc_request_total [OF this(1) assms(2) this(2), of poly] C False show ?thesis
      by (auto simp: hybrid_request_def balloc_request_def r map_outcome_Ok)
  qed
qed

lemma arena_New_open:
  assumes "0 < scale" "scale < 2 ^ 63"
  obtains x where "arena_New scale poly = Ok x" "arena_inv x" "a_blocks x = Map.empty" "a_closed x = False"
proof -
  obtain t where "newTopology scale poly = Ok t"
    using assms by (simp add: newTopology_def arena_buildPandiagonal_def)
  then obtain x where x: "arena_New scale poly = Ok x" "a_blocks x = Map.empty" "a_closed x = False"
    by (auto simp: arena_New_def)
  with that arena_inv_New [OF assms] show thesis by blast
qed

lemma Allocator_Reset_ok:
  assumes "alloc_inv scale a"
  shows "alloc_inv scale (fst (Allocator_Reset scale poly a))" "alloc_used (fst (Allocator_Reset scale poly a)) = {}"
    "snd (Allocator_Reset scale poly a) = Ok ()"
proof -
  have *: "alloc_inv scale (fst (Allocator_Reset scale poly a)) \<and> alloc_used (fst (Allocator_Reset scale poly a)) = {} \<and>
    snd (Allocator_Reset scale poly a) = Ok ()"
  proof (cases a)
    case (BallocWrapper b)
    then have b: "balloc_inv b \<and> closed b = 0"
      using assms by (simp add: alloc_inv_def)
    have "snd (balloc_Reset b) = Ok ()"
      using b by (simp add: balloc_Reset_def)
    with balloc_rewind.reset_invar [OF b] balloc_rewind.reset_used [OF b] assms show ?thesis
      by (simp add: BallocWrapper Allocator_Reset_def ballocWrapper_Reset_def alloc_inv_def alloc_used_def)
  next
    case (ArenaWrapper x)
    have sc: "0 < scale" "scale < 2 ^ 63"
      using assms by (auto simp: alloc_inv_def)
    show ?thesis
    proof (rule arena_New_open [OF sc, of poly])
      fix y
      assume "arena_New scale poly = Ok y" "arena_inv y" "a_blocks y = Map.empty" "a_closed y = False"
      then show ?thesis
        using sc by (simp add: ArenaWrapper Allocator_Reset_def arenaWrapper_Reset_def alloc_inv_def alloc_used_def
            arena_used_def arena_placed_def)
    qed
  next
    case (HybridAllocator h)
    then have h: "hybrid_inv h \<and> closed (hy_large h) = 0"
      using assms by (simp add: alloc_inv_def)
    have "snd (hybrid_Reset h) = Ok ()"
      using h by (simp add: hybrid_Reset_def balloc_Reset_def)
    with hybrid_rewind.reset_invar [OF h] hybrid_rewind.reset_used [OF h] assms show ?thesis
      by (simp add: HybridAllocator Allocator_Reset_def alloc_inv_def alloc_used_def)
  qed
  then show "alloc_inv scale (fst (Allocator_Reset scale poly a))" "alloc_used (fst (Allocator_Reset scale poly a)) = {}"
    "snd (Allocator_Reset scale poly a) = Ok ()" by blast+
qed

lemma alloc_request_contract:
  assumes inv: "alloc_inv scale a" and rd: "alloc_ready a r"
  shows "alloc_inv scale (fst (alloc_request poly a r)) \<and> alloc_used a \<subseteq> alloc_used (fst (alloc_request poly a r)) \<and>
    (case snd (alloc_request poly a r) of
       Ok q \<Rightarrow> span q (alloc_need r) \<inter> alloc_used a = {} \<and> span q (alloc_need r) \<subseteq> alloc_used (fst (alloc_request poly a r))
     | Err e \<Rightarrow> True | _ \<Rightarrow> False)"
proof -
  obtain sz m tid cid rt where r: "r = (sz, m, tid, cid, rt)"
    by (cases r)
  show ?thesis
  proof (cases a)
    case (BallocWrapper b)
    let ?r = "(sz, m, tid, cid)"
    have b: "balloc_inv b \<and> closed b = 0" "balloc_inv b" "closed b = 0" "balloc_ready b ?r"
      using inv rd by (auto simp: BallocWrapper alloc_inv_def alloc_ready_def balloc_ready_def r)
    show ?thesis
      using balloc_rewind.alloc_invar [OF b(1,4)] balloc_if.alloc_keep [OF b(2,4)] balloc_request_total [OF b(2,3,4), of poly]
        balloc_if.alloc_fresh [OF b(2,4)] balloc_if.alloc_used [OF b(2,4)] inv
      by (auto simp: BallocWrapper r alloc_request_simps alloc_inv_def alloc_used_def alloc_need_def request_size_def)
  next
    case (ArenaWrapper x)
    obtain x' res where A: "arena_Alloc x (rt_ptr rt) (rt_node rt) sz m tid cid = (x', res)" by fastforce
    have "arena_inv x" "arena_placed x" "alloc_ready (ArenaWrapper x) (sz, m, tid, cid, rt)"
      using inv rd by (auto simp: ArenaWrapper alloc_inv_def r)
    from arena_request_contract [OF this A] inv show ?thesis
      by (cases res) (auto simp: ArenaWrapper r alloc_request_simps A alloc_inv_def alloc_used_def alloc_need_def)
  next
    case (HybridAllocator h)
    let ?r = "(sz, m, tid, cid, rt_choice rt, rt_ptr rt)"
    have h: "hybrid_inv h \<and> closed (hy_large h) = 0" "hybrid_inv h" "closed (hy_large h) = 0" "hybrid_ready h ?r"
      using inv rd by (auto simp: HybridAllocator alloc_inv_def alloc_ready_def r)
    show ?thesis
      using hybrid_rewind.alloc_invar [OF h(1,4)] hybrid_if.alloc_keep [OF h(2,4)] hybrid_request_total [OF h(2,3,4), of poly]
        hybrid_if.alloc_fresh [OF h(2,4)] hybrid_if.alloc_used [OF h(2,4)] inv
      by (auto simp: HybridAllocator r alloc_request_simps alloc_inv_def alloc_used_def alloc_need_def hybrid_need_def)
  qed
qed

interpretation iface: total_allocator "alloc_request poly" alloc_need "alloc_inv scale" alloc_ready alloc_used
  "\<lambda>a. fst (Allocator_Reset scale poly a)"
  for poly scale
proof unfold_locales
  fix a r q
  assume ir: "alloc_inv scale a" "alloc_ready a r"
  note C = alloc_request_contract [OF ir, of poly]
  show "alloc_inv scale (fst (alloc_request poly a r))" "alloc_used a \<subseteq> alloc_used (fst (alloc_request poly a r))"
    using C by auto
  show "span q (alloc_need r) \<inter> alloc_used a = {}" "span q (alloc_need r) \<subseteq> alloc_used (fst (alloc_request poly a r))"
    if "snd (alloc_request poly a r) = Ok q"
    using C that by auto
  show "(\<exists>q. snd (alloc_request poly a r) = Ok q) \<or> (\<exists>e. snd (alloc_request poly a r) = Err e)"
    using C by (cases "snd (alloc_request poly a r)") auto
qed (use Allocator_Reset_ok alloc_used_space in auto)

text \<open>Factories make empty allocators.\<close>

definition is_factory :: "int \<Rightarrow> u64 \<Rightarrow> factory \<Rightarrow> bool" where
  "is_factory scale poly f \<longleftrightarrow> f = ArenaFactory scale poly \<or> (\<exists>n. f = BallocFactory scale n \<or> f = HybridFactory scale n)"

lemma factory_inv:
  assumes "is_factory scale poly f" "mmap_ok mm" "0 < scale" "scale < 2 ^ 63" "f mm = Ok a"
  shows "alloc_inv scale a" "alloc_used a = {}"
proof -
  have B: "balloc_inv b \<and> closed b = 0 \<and> balloc_used b = {}" if "balloc_New scale mm n = Ok b" for n b
  proof -
    have "closed b = 0" "balloc_blocks b = Map.empty"
      using that by (auto simp: balloc_New_def Let_def balloc_blocks_def split: if_splits sum.splits)
    with balloc_inv_New [OF assms(2-4) that] show ?thesis
      by (simp add: balloc_used_def)
  qed
  have *: "alloc_inv scale a \<and> alloc_used a = {}"
  proof -
    consider x where "a = ArenaWrapper x" "arena_New scale poly = Ok x"
      | n b where "a = BallocWrapper b" "balloc_New scale mm n = Ok b"
      | n h where "a = HybridAllocator h" "NewHybrid scale mm n = Ok h"
      using assms(1,5) by (auto simp: is_factory_def ArenaFactory_def alloc_NewArena_def BallocFactory_def NewBalloc_def
          HybridFactory_def map_outcome_Ok)
    then show ?thesis
    proof cases
      case 1
      then have "a_blocks x = Map.empty"
        by (auto simp: arena_New_def)
      then show ?thesis
        using 1 arena_inv_New [OF assms(3,4) 1(2)] assms(3,4)
        by (simp add: alloc_inv_def alloc_used_def arena_used_def arena_placed_def)
    next
      case 2
      with B [OF 2(2)] assms(3,4) show ?thesis
        by (simp add: alloc_inv_def alloc_used_def)
    next
      case 3
      then obtain b where "balloc_New scale mm n = Ok b"
        "h = \<lparr>hy_large = b, hy_shards = replicate smallShards \<lparr>sh_small = [], sh_pool = []\<rparr>\<rparr>"
        by (auto simp: NewHybrid_def)
      with B [OF this(1)] hybrid_inv_New [OF assms(2-4) 3(2)] assms(3,4) 3(1) show ?thesis
        by (simp add: alloc_inv_def alloc_used_def hybrid_used_def)
    qed
  qed
  then show "alloc_inv scale a" "alloc_used a = {}" by blast+
qed

text \<open>
  C15: through the interface \<open>Allocator\<close>, whichever of the three implementations a factory made, the
  blocks that any sequence of \<open>Alloc\<close> calls returns are pairwise disjoint and disjoint from those
  handed out before; \<open>Reset\<close> succeeds and leaves nothing handed out, and after it the same holds.
\<close>

theorem alloc_allocs_disjoint:
  assumes "is_factory scale poly f" "mmap_ok mm" "0 < scale" "scale < 2 ^ 63" "f mm = Ok a0"
    and "run_ready (alloc_request poly) alloc_ready a0 before"
    and "a = foldl (\<lambda>a r. fst (alloc_request poly a r)) a0 before"
    and "run_ready (alloc_request poly) alloc_ready a rs"
    and "Allocator_Reset scale poly a = (a', r)" "run_ready (alloc_request poly) alloc_ready a' rs'"
  shows "disjoint_spans (run_allocs (alloc_request poly) alloc_need a rs) \<and>
    (\<forall>(q, n) \<in> set (run_allocs (alloc_request poly) alloc_need a rs). span q n \<inter> alloc_used a = {}) \<and>
    r = Ok () \<and> alloc_used a' = {} \<and> disjoint_spans (run_allocs (alloc_request poly) alloc_need a' rs')"
proof -
  have inv: "alloc_inv scale a"
    using iface.run_invar [OF factory_inv(1) [OF assms(1-5)] assms(6)] assms(7) by simp
  have a': "a' = fst (Allocator_Reset scale poly a)" and r: "r = Ok ()"
    using Allocator_Reset_ok(3) [OF inv, of poly] assms(9) by auto
  show ?thesis
    using iface.run_disjoint [OF inv assms(8)] iface.run_fresh [OF inv assms(8)] r
      iface.reset_run [OF inv assms(10) [unfolded a']] unfolding a' by blast
qed

theorem alloc_allocs_disjoint_witness:
  "disjoint_spans (run_allocs (alloc_request 0x11B) alloc_need (ArenaWrapper sample_arena)
     [(128, 1, 3, 9, \<lparr>rt_ptr = 0xC000, rt_node = 0xD000, rt_choice = None\<rparr>)])"
proof -
  let ?r = "(128, 1, 3, 9, \<lparr>rt_ptr = 0xC000, rt_node = 0xD000, rt_choice = None\<rparr>) :: alloc_request"
  have f: "is_factory 8 0x11B (ArenaFactory 8 0x11B)" "ArenaFactory 8 0x11B sample_mmap = Ok (ArenaWrapper sample_arena)"
    by (simp_all add: is_factory_def ArenaFactory_def alloc_NewArena_def sample_arena_New)
  have "alloc_ready (ArenaWrapper sample_arena) ?r"
    by (simp add: alloc_ready_def maxAlloc_def gc_ok_def sample_arena_def in_tree_def in_space_def arena_used_def)
  then have rd: "run_ready (alloc_request 0x11B) alloc_ready (ArenaWrapper sample_arena) [?r]"
    by simp
  show ?thesis
    using alloc_allocs_disjoint [OF f(1) sample_mmap_ok _ _ f(2), of "[]", OF _ _ _ _ rd prod.collapse [symmetric], of "[]"]
    by (simp del: run_allocs.simps)
qed

section \<open>Memory\<close>

text \<open>What a call makes and zeroes is not memory handed out before.\<close>

lemma made_memory_frame:
  assumes "alloc_inv scale a" "alloc_ready a (sz, m, tid, cid, rt)" "Allocator_Alloc poly rt a sz m tid cid = (a', r)"
    and "unat x \<in> alloc_used a"
  shows "made_memory rt a a' sz mem x = mem x"
proof (cases a)
  case (BallocWrapper b)
  then show ?thesis
    by (simp add: made_memory_def)
next
  case (ArenaWrapper y)
  have "unat x \<notin> span (rt_ptr rt) (unat sz)" "in_space (rt_ptr rt) (unat sz)"
    using assms(2,4) by (auto simp: ArenaWrapper alloc_ready_def alloc_used_def)
  then show ?thesis
    by (simp add: made_memory_def ArenaWrapper write_bytes_other)
next
  case (HybridAllocator h)
  obtain h' where a': "a' = HybridAllocator h'" "h' = fst (hybrid_Alloc poly h (rt_choice rt) (rt_ptr rt) sz m tid cid)"
    using assms(3) by (cases "hybrid_Alloc poly h (rt_choice rt) (rt_ptr rt) sz m tid cid") (auto simp: HybridAllocator Allocator_Alloc_def)
  have h: "hybrid_inv h" "hybrid_ready h (sz, m, tid, cid, rt_choice rt, rt_ptr rt)"
    using assms(1,2) by (auto simp: HybridAllocator alloc_inv_def alloc_ready_def)
  show ?thesis
  proof (cases "sz \<le> 4096")
    case True
    then have n: "new_slab_ok h (rt_ptr rt)"
      using h(2) by (simp add: hybrid_ready_def smallThreshold_def)
    have "unat x \<notin> slab_span (rt_ptr rt)"
    proof
      assume x: "unat x \<in> slab_span (rt_ptr rt)"
      have "hybrid_used h \<inter> slab_span (rt_ptr rt) = {}"
      proof -
        have "slab_used b \<inter> slab_span (rt_ptr rt) = {}" if "s \<in> set (hy_shards h)" "b \<in> set (sh_small s)" for s b
          using n small_ptr_in [OF that] slab_used_sub [of b] by (auto simp: new_slab_ok_def)
        moreover have "balloc_used (hy_large h) \<inter> slab_span (rt_ptr rt) = {}"
          using n balloc_used_region [of h] h(1) by (auto simp: new_slab_ok_def hybrid_inv_def)
        ultimately show ?thesis
          by (auto simp: hybrid_used_def)
      qed
      with x assms(4) show False
        by (auto simp: HybridAllocator alloc_used_def)
    qed
    with n show ?thesis
      by (simp add: made_memory_def HybridAllocator a'(1) write_bytes_other slab_span_def new_slab_ok_def)
  next
    case False
    then have "hy_shards h' = hy_shards h"
      using hybrid_Alloc_cases [OF h, of poly] a'(2) by simp
    then show ?thesis
      by (simp add: made_memory_def HybridAllocator a'(1) slab_made_def)
  qed
qed

text \<open>A call through a reference in a world.\<close>

lemma world_Alloc_cases:
  assumes "aw_objs w ref = Some a" "alloc_inv scale a" "alloc_ready a (sz, m, tid, cid, rt)"
  obtains (ok) a' q k mem where
      "world_Alloc poly rt w ref sz m tid cid = (w\<lparr>aw_objs := (aw_objs w)(ref \<mapsto> a'), aw_mem := mem\<rparr>, Ok (q, k))"
      "alloc_inv scale a'" "span q (unat sz) \<inter> alloc_used a = {}" "span q (unat sz) \<subseteq> alloc_used a'"
      "alloc_used a \<subseteq> alloc_used a'" "unat q + unat sz < 2 ^ 64" "0 < unat sz \<Longrightarrow> q \<noteq> 0" "\<And>x. unat x \<in> alloc_used a \<Longrightarrow> mem x = aw_mem w x"
  | (err) a' e mem where
      "world_Alloc poly rt w ref sz m tid cid = (w\<lparr>aw_objs := (aw_objs w)(ref \<mapsto> a'), aw_mem := mem\<rparr>, Err e)"
      "alloc_inv scale a'" "alloc_used a \<subseteq> alloc_used a'" "\<And>x. unat x \<in> alloc_used a \<Longrightarrow> mem x = aw_mem w x"
proof -
  obtain a' r where A: "Allocator_Alloc poly rt a sz m tid cid = (a', r)"
    by fastforce
  let ?mem = "made_memory rt a a' sz (aw_mem w)"
  have W: "world_Alloc poly rt w ref sz m tid cid = (w\<lparr>aw_objs := (aw_objs w)(ref \<mapsto> a'), aw_mem := ?mem\<rparr>, r)"
    by (simp add: world_Alloc_def assms(1) A)
  note F = made_memory_frame [OF assms(2,3) A]
  have Q: "alloc_request poly a (sz, m, tid, cid, rt) = (a', map_outcome fst r)"
    by (simp add: alloc_request_def A)
  show thesis
  proof (cases rule: iface.alloc_cases [OF assms(2,3), of poly, unfolded Q alloc_need_def fst_conv])
    case (1 s' q)
    then obtain k where "r = Ok (q, k)"
      by (cases r) auto
    with 1 ok W F show thesis by auto
  next
    case (2 s' e)
    then have "r = Err e"
      by (cases r) auto
    with 2 err W F show thesis by auto
  qed
qed

end
