(* ===== verification/Pure_Buffer.thy ===== *)
theory Pure_Buffer
  imports Pure_Arena
begin

text \<open>
  The growable buffer of the package pure (pure/buffer.go) over the arena of Pure_Arena. The arena
  a buffer is bound to and the memory are passed along explicitly. Shown here: a write appends,
  also when the buffer has to move to a larger chunk; a failed write changes nothing that can be
  read; reads return the written bytes in order and then EOF; the doubling loop ends.
\<close>

section \<open>Data and operations\<close>

record PureBuffer =
  pb_data :: slice
  pb_rOff :: int

type_synonym pure_state = "mem \<times> PureArena \<times> PureBuffer"

definition pure_NewBuffer :: PureBuffer where
  "pure_NewBuffer = \<lparr>pb_data = empty_slice, pb_rOff = 0\<rparr>"

definition pure_grow :: "pure_state \<Rightarrow> int \<Rightarrow> pure_state \<times> unit outcome" where
  "pure_grow st needed = (case st of (m, a, b) \<Rightarrow>
     (case grown_cap (s_cap (pb_data b)) needed of
        None \<Rightarrow> (st, Diverge)
      | Some newCap \<Rightarrow>
          (case pure_Alloc a newCap of
             (a', Err e) \<Rightarrow> ((m, a', b), Err e)
           | (a', Panic p) \<Rightarrow> ((m, a', b), Panic p)
           | (a', Diverge) \<Rightarrow> ((m, a', b), Diverge)
           | (a', Ok chunk) \<Rightarrow>
               let m' = fst (go_copy m chunk (pb_data b)) in
               (case slice_upto chunk (s_len (pb_data b)) of
                  Ok d \<Rightarrow> ((m', a', b\<lparr>pb_data := d\<rparr>), Ok ())
                | Err e \<Rightarrow> ((m', a', b), Err e)
                | Panic p \<Rightarrow> ((m', a', b), Panic p)
                | Diverge \<Rightarrow> ((m', a', b), Diverge)))))"

definition pure_append :: "pure_state \<Rightarrow> int \<Rightarrow> slice \<Rightarrow> pure_state \<times> int outcome" where
  "pure_append st needed p = (case st of (m, a, b) \<Rightarrow>
     (case slice_upto (pb_data b) needed of
        Ok d \<Rightarrow>
          (case slice_from d (needed - s_len p) of
             Ok rest \<Rightarrow> ((fst (go_copy m rest p), a, b\<lparr>pb_data := d\<rparr>), Ok (s_len p))
           | Err e \<Rightarrow> ((m, a, b\<lparr>pb_data := d\<rparr>), Err e)
           | Panic q \<Rightarrow> ((m, a, b\<lparr>pb_data := d\<rparr>), Panic q)
           | Diverge \<Rightarrow> ((m, a, b\<lparr>pb_data := d\<rparr>), Diverge))
      | Err e \<Rightarrow> (st, Err e)
      | Panic q \<Rightarrow> (st, Panic q)
      | Diverge \<Rightarrow> (st, Diverge)))"

definition pure_Write :: "pure_state \<Rightarrow> slice \<Rightarrow> pure_state \<times> int outcome" where
  "pure_Write st p =
     (if s_len p = 0 then (st, Ok 0)
      else
        let b = snd (snd st);
            needed = i64 (s_len (pb_data b) + s_len p)
        in if needed > s_cap (pb_data b) then
             (case pure_grow st needed of
                (st', Ok _) \<Rightarrow> pure_append st' needed p
              | (st', Err e) \<Rightarrow> (st', Err e)
              | (st', Panic q) \<Rightarrow> (st', Panic q)
              | (st', Diverge) \<Rightarrow> (st', Diverge))
           else pure_append st needed p)"

definition pure_Read :: "mem \<Rightarrow> PureBuffer \<Rightarrow> slice \<Rightarrow> (mem \<times> PureBuffer) \<times> int outcome" where
  "pure_Read m b p =
     (if pb_rOff b \<ge> s_len (pb_data b) then ((m, b), Err Io_EOF)
      else case slice_from (pb_data b) (pb_rOff b) of
        Ok src \<Rightarrow>
          let (m', n) = go_copy m p src in ((m', b\<lparr>pb_rOff := pb_rOff b + n\<rparr>), Ok n)
      | Err e \<Rightarrow> ((m, b), Err e)
      | Panic q \<Rightarrow> ((m, b), Panic q)
      | Diverge \<Rightarrow> ((m, b), Diverge))"

definition pure_Bytes :: "PureBuffer \<Rightarrow> slice" where
  "pure_Bytes b = pb_data b"

definition pure_buffer_Len :: "PureBuffer \<Rightarrow> int" where
  "pure_buffer_Len b = s_len (pb_data b)"

definition pure_buffer_Cap :: "PureBuffer \<Rightarrow> int" where
  "pure_buffer_Cap b = s_cap (pb_data b)"

definition pure_buffer_Reset :: "PureBuffer \<Rightarrow> PureBuffer" where
  "pure_buffer_Reset b = \<lparr>pb_data = (pb_data b)\<lparr>s_len := 0\<rparr>, pb_rOff = 0\<rparr>"

section \<open>Invariant\<close>

text \<open>
  The memory of the buffer is a part of what its arena has handed out. The bytes behind a written
  slice must not be the free end of the buffer nor the part of the slab not handed out yet.
\<close>

definition pure_buffer_inv :: "PureArena \<Rightarrow> PureBuffer \<Rightarrow> bool" where
  "pure_buffer_inv a b \<longleftrightarrow>
     pure_inv a \<and> slice_ok (pb_data b) \<and> cap_span (pb_data b) \<subseteq> pure_used a \<and>
     0 \<le> pb_rOff b \<and> pb_rOff b \<le> s_len (pb_data b) \<and> s_cap (pb_data b) \<le> maxAlloc"

definition free_tail :: "slice \<Rightarrow> nat set" where
  "free_tail s = cap_span s - slice_span s"

definition source_ok :: "PureArena \<Rightarrow> PureBuffer \<Rightarrow> slice \<Rightarrow> bool" where
  "source_ok a b p \<longleftrightarrow> slice_ok p \<and> s_len p \<le> maxAlloc \<and> slice_span p \<inter> free_tail (pb_data b) = {} \<and>
     slice_span p \<inter> (cap_span (pa_buf a) - pure_used a) = {}"

text \<open>Appending in place.\<close>

lemma append_in_place:
  assumes s: "slice_ok s" and p: "slice_ok p" "0 < s_len p" and room: "s_len s + s_len p \<le> s_cap s"
    and apart: "slice_span p \<inter> free_tail s = {}"
    and rest: "rest = \<lparr>s_ptr = s_ptr s + word_of_int (s_len s), s_len = s_len p, s_cap = s_cap s - s_len s\<rparr>"
    and d: "d = s\<lparr>s_len := s_len s + s_len p\<rparr>"
  shows "slice_bytes (fst (go_copy m rest p)) d = slice_bytes m s @ slice_bytes m p" "slice_ok d"
    "\<And>q n. in_space q n \<Longrightarrow> span q n \<inter> free_tail s = {} \<Longrightarrow>
       read_bytes (fst (go_copy m rest p)) q n = read_bytes m q n"
proof -
  have len: "0 \<le> s_len s" "s_len s \<le> s_cap s" "in_space (s_ptr s) (nat (s_cap s))"
    using s by (auto simp: slice_ok_def)
  then have k: "nat (s_len s) \<le> nat (s_cap s)" by simp
  note A = in_space_add [OF len(3) k]
  have ptr: "s_ptr rest = s_ptr s + of_nat (nat (s_len s))" "unat (s_ptr rest) = unat (s_ptr s) + nat (s_len s)"
    using len(1) A by (simp_all add: rest)
  have tl_ok: "slice_ok rest"
    using A room p(2) len by (simp add: rest slice_ok_def in_space_def)
  have tl_free: "slice_span rest \<subseteq> free_tail s"
    using ptr(2) room len by (auto simp: slice_span_def free_tail_def cap_span_def span_def rest)
  have sp: "in_space (s_ptr s) (nat (s_len s))"
    using len(3) k by (rule in_space_le)
  have "slice_span rest \<inter> span (s_ptr s) (nat (s_len s)) = {}"
    using ptr(2) by (auto simp: slice_span_def span_def)
  from go_copy_other [OF tl_ok sp this]
  have old: "read_bytes (fst (go_copy m rest p)) (s_ptr s) (nat (s_len s)) = slice_bytes m s"
    by (simp add: slice_bytes_def)
  have new: "read_bytes (fst (go_copy m rest p)) (s_ptr rest) (nat (s_len p)) = slice_bytes m p"
    using go_copy_bytes(1) [OF tl_ok, of p m] p(2) by (simp add: rest)
  have "nat (s_len s + s_len p) = nat (s_len s) + nat (s_len p)"
    using len(1) p(2) by simp
  then show "slice_bytes (fst (go_copy m rest p)) d = slice_bytes m s @ slice_bytes m p"
    using old new ptr(1) by (simp add: slice_bytes_def d read_bytes_append)
  show "slice_ok d"
    using s room p(2) by (simp add: d slice_ok_def)
  show "read_bytes (fst (go_copy m rest p)) q n = read_bytes m q n"
    if "in_space q n" "span q n \<inter> free_tail s = {}" for q n
    using tl_ok that(1) by (rule go_copy_other) (use tl_free that(2) in blast)
qed

lemma pure_append_ok:
  assumes s: "slice_ok (pb_data b)" and p: "slice_ok p" "0 < s_len p"
    and room: "s_len (pb_data b) + s_len p \<le> s_cap (pb_data b)"
    and apart: "slice_span p \<inter> free_tail (pb_data b) = {}"
  obtains m' where "pure_append (m, a, b) (s_len (pb_data b) + s_len p) p =
      ((m', a, b\<lparr>pb_data := (pb_data b)\<lparr>s_len := s_len (pb_data b) + s_len p\<rparr>\<rparr>), Ok (s_len p))"
    "slice_bytes m' ((pb_data b)\<lparr>s_len := s_len (pb_data b) + s_len p\<rparr>) =
       slice_bytes m (pb_data b) @ slice_bytes m p"
    "slice_ok ((pb_data b)\<lparr>s_len := s_len (pb_data b) + s_len p\<rparr>)"
proof -
  let ?s = "pb_data b"
  let ?d = "?s\<lparr>s_len := s_len ?s + s_len p\<rparr>"
  let ?rest = "\<lparr>s_ptr = s_ptr ?s + word_of_int (s_len ?s), s_len = s_len p, s_cap = s_cap ?s - s_len ?s\<rparr>"
  have len: "0 \<le> s_len ?s"
    using s by (simp add: slice_ok_def)
  have "slice_upto ?s (s_len ?s + s_len p) = Ok ?d"
    using len p(2) room by (simp add: slice_upto_def)
  moreover have "slice_from ?d (s_len ?s + s_len p - s_len p) = Ok ?rest"
    using len p(2) by (simp add: slice_from_def)
  ultimately have "pure_append (m, a, b) (s_len ?s + s_len p) p =
      ((fst (go_copy m ?rest p), a, b\<lparr>pb_data := ?d\<rparr>), Ok (s_len p))"
    by (simp add: pure_append_def)
  then show thesis
    by (rule that) (use append_in_place [OF s p room apart refl refl] in blast)+
qed

text \<open>Moving to a larger chunk keeps the contents, and the source of a pending write.\<close>

lemma pure_grow_ok:
  assumes inv: "pure_buffer_inv a b" and src: "source_ok a b p" "0 < s_len p"
    and grow: "s_cap (pb_data b) < s_len (pb_data b) + s_len p"
    and rd: "pure_ready a (2 * (s_len (pb_data b) + s_len p) + 64)"
  defines "needed \<equiv> s_len (pb_data b) + s_len p"
  obtains a' where "pure_grow (m, a, b) needed = ((m, a', b), Err Pure_ErrOutOfMemory)" "pure_inv a'"
  | m' a' d where "pure_grow (m, a, b) needed = ((m', a', b\<lparr>pb_data := d\<rparr>), Ok ())"
      "slice_ok d" "s_len d = s_len (pb_data b)" "needed \<le> s_cap d" "s_cap d \<le> maxAlloc"
      "cap_span d \<subseteq> pure_used a'" "pure_inv a'" "slice_span p \<inter> free_tail d = {}"
      "slice_bytes m' d = slice_bytes m (pb_data b)" "slice_bytes m' p = slice_bytes m p"
proof -
  let ?s = "pb_data b"
  have len: "0 \<le> s_len ?s" "s_len ?s \<le> s_cap ?s" "s_cap ?s \<le> maxAlloc" "slice_ok ?s"
    and ainv: "pure_inv a" and sub: "cap_span ?s \<subseteq> pure_used a"
    using inv by (auto simp: pure_buffer_inv_def slice_ok_def)
  have p: "slice_ok p" "s_len p \<le> maxAlloc"
    using src(1) by (auto simp: source_ok_def)
  have "needed \<le> 2 ^ 62" "s_cap ?s < needed" "0 \<le> s_cap ?s"
    using len p grow by (auto simp: needed_def maxAlloc_def)
  from grown_cap_ends [OF this(3,2,1)] obtain k where
    k: "grown_cap (s_cap ?s) needed = Some k" "needed \<le> k" "k < 2 * needed + 64" by blast
  have pos: "0 < k"
    using k(2) len(1) src(2) by (simp add: needed_def)
  have rdk: "pure_ready a k"
    using rd k(3) by (simp add: pure_ready_def needed_def)
  let ?a = "a\<lparr>pa_off := pa_off a + k\<rparr>"
  let ?c = "\<lparr>s_ptr = s_ptr (pa_buf a) + word_of_int (pa_off a), s_len = k, s_cap = k\<rparr>"
  have al: "pure_Alloc a k = (?a, if pa_off a + k > s_len (pa_buf a) then Err Pure_ErrOutOfMemory else Ok ?c)"
    using pos by (simp add: pure_Alloc_eq [OF ainv rdk])
  have inv': "pure_inv ?a"
    using pure_request_cases(1) [OF ainv rdk] by (simp add: pure_request_def al)
  show thesis
  proof (cases "pa_off a + k > s_len (pa_buf a)")
    case True
    then have "pure_grow (m, a, b) needed = ((m, ?a, b), Err Pure_ErrOutOfMemory)"
      by (simp add: pure_grow_def k(1) al)
    then show thesis
      using inv' by (rule that(1))
  next
    case False
    then have fit: "pa_off a + k \<le> s_len (pa_buf a)" by simp
    note C = pure_chunk [OF ainv pos fit]
    have c_ok: "slice_ok ?c"
      using C(2) pos by (simp add: slice_ok_def)
    have buf: "s_cap (pa_buf a) = s_len (pa_buf a)" "s_len (pa_buf a) \<le> maxAlloc" "0 \<le> pa_off a"
      using ainv by (auto simp: pure_inv_def)
    let ?m = "fst (go_copy m ?c ?s)" and ?d = "?c\<lparr>s_len := s_len ?s\<rparr>"
    have up: "slice_upto ?c (s_len ?s) = Ok ?d"
      using len k(2) src(2) by (simp add: slice_upto_def needed_def)
    have "pure_grow (m, a, b) needed = ((?m, ?a, b\<lparr>pb_data := ?d\<rparr>), Ok ())"
      using False up by (simp add: pure_grow_def k(1) al Let_def)
    then show thesis
    proof (rule that(2))
      have new: "cap_span ?c \<subseteq> cap_span (pa_buf a) - pure_used a"
        using C(3,4) buf(1) by (auto simp: cap_span_def)
      then have pc: "slice_span p \<inter> cap_span ?c = {}"
        using src(1) by (auto simp: source_ok_def)
      then show "slice_span p \<inter> free_tail ?d = {}"
        by (auto simp: free_tail_def cap_span_def)
      have kk: "s_len ?s \<le> k"
        using k(2) src(2) by (simp add: needed_def)
      then show "slice_bytes ?m ?d = slice_bytes m ?s"
        using go_copy_bytes(1) [OF c_ok, of ?s m] len(1) by (simp add: slice_bytes_def)
      have "in_space (s_ptr p) (nat (s_len p))"
        using p(1) by (auto simp: slice_ok_def intro: in_space_le)
      then show "slice_bytes ?m p = slice_bytes m p"
        unfolding slice_bytes_def
        by (rule go_copy_other [OF c_ok]) (use pc in \<open>auto simp: slice_span_def cap_span_def\<close>)
      show "slice_ok ?d" "s_len ?d = s_len ?s" "needed \<le> s_cap ?d" "s_cap ?d \<le> maxAlloc"
        using C(2) kk len(1) k(2) fit buf by (auto simp: slice_ok_def)
      show "cap_span ?d \<subseteq> pure_used ?a"
        using C(5) by (simp add: cap_span_def)
      show "pure_inv ?a" by (rule inv')
    qed
  qed
qed

section \<open>Writing\<close>

lemma pure_Write_appends_aux:
  assumes "pure_buffer_inv a b" "source_ok a b p"
    and "pure_ready a (2 * (s_len (pb_data b) + s_len p) + 64)"
  shows "case pure_Write (m, a, b) p of ((m', a', b'), r) \<Rightarrow>
    (case r of
       Ok n \<Rightarrow> n = s_len p \<and> slice_bytes m' (pure_Bytes b') = slice_bytes m (pure_Bytes b) @ slice_bytes m p \<and>
         pure_buffer_inv a' b' \<and> pb_rOff b' = pb_rOff b
     | Err e \<Rightarrow> e = Pure_ErrOutOfMemory \<and> b' = b \<and> m' = m \<and> s_cap (pb_data b) < s_len (pb_data b) + s_len p
     | _ \<Rightarrow> False)"
proof (cases "s_len p = 0")
  case True
  then show ?thesis
    using assms(1) by (simp add: pure_Write_def slice_bytes_def)
next
  case False
  let ?s = "pb_data b"
  have inv: "slice_ok ?s" "0 \<le> s_len ?s" "s_len ?s \<le> maxAlloc" "cap_span ?s \<subseteq> pure_used a" "pure_inv a"
    "0 \<le> pb_rOff b" "pb_rOff b \<le> s_len ?s" "s_cap ?s \<le> maxAlloc"
    using assms(1) by (auto simp: pure_buffer_inv_def slice_ok_def)
  have p: "slice_ok p" "0 < s_len p" "s_len p \<le> maxAlloc" "slice_span p \<inter> free_tail ?s = {}"
    using assms(2) False by (auto simp: source_ok_def slice_ok_def)
  have i: "i64 (s_len ?s + s_len p) = s_len ?s + s_len p"
    using inv p by (intro i64_id) (auto simp: maxAlloc_def)
  show ?thesis
  proof (cases "s_len ?s + s_len p \<le> s_cap ?s")
    case True
    from pure_append_ok [OF inv(1) p(1,2) True p(4), of m a] obtain m' where
      A: "pure_append (m, a, b) (s_len ?s + s_len p) p =
        ((m', a, b\<lparr>pb_data := ?s\<lparr>s_len := s_len ?s + s_len p\<rparr>\<rparr>), Ok (s_len p))"
      "slice_bytes m' (?s\<lparr>s_len := s_len ?s + s_len p\<rparr>) = slice_bytes m ?s @ slice_bytes m p"
      "slice_ok (?s\<lparr>s_len := s_len ?s + s_len p\<rparr>)" .
    have "pure_Write (m, a, b) p = pure_append (m, a, b) (s_len ?s + s_len p) p"
      using False True by (simp add: pure_Write_def i)
    then show ?thesis
      using A inv p(2) by (auto simp: pure_Bytes_def pure_buffer_inv_def cap_span_def)
  next
    case grow: False
    then have more: "s_cap ?s < s_len ?s + s_len p" by simp
    show ?thesis
    proof (rule pure_grow_ok [OF assms(1,2) p(2) more assms(3), of m])
      fix a'
      assume "pure_grow (m, a, b) (s_len ?s + s_len p) = ((m, a', b), Err Pure_ErrOutOfMemory)"
      then show ?thesis
        using False more by (simp add: pure_Write_def i)
    next
      fix m1 a' d
      assume G: "pure_grow (m, a, b) (s_len ?s + s_len p) = ((m1, a', b\<lparr>pb_data := d\<rparr>), Ok ())"
        "slice_ok d" "s_len d = s_len ?s" "s_len ?s + s_len p \<le> s_cap d" "s_cap d \<le> maxAlloc"
        "cap_span d \<subseteq> pure_used a'" "pure_inv a'" "slice_span p \<inter> free_tail d = {}"
        "slice_bytes m1 d = slice_bytes m ?s" "slice_bytes m1 p = slice_bytes m p"
      from pure_append_ok [of "b\<lparr>pb_data := d\<rparr>" p m1 a'] G p obtain m' where
        A: "pure_append (m1, a', b\<lparr>pb_data := d\<rparr>) (s_len ?s + s_len p) p =
          ((m', a', b\<lparr>pb_data := d\<lparr>s_len := s_len ?s + s_len p\<rparr>\<rparr>), Ok (s_len p))"
        "slice_bytes m' (d\<lparr>s_len := s_len ?s + s_len p\<rparr>) = slice_bytes m ?s @ slice_bytes m p"
        "slice_ok (d\<lparr>s_len := s_len ?s + s_len p\<rparr>)"
        by auto
      have "pure_Write (m, a, b) p = pure_append (m1, a', b\<lparr>pb_data := d\<rparr>) (s_len ?s + s_len p) p"
        using False more G(1) by (simp add: pure_Write_def i)
      then show ?thesis
        using A G inv p(2) by (auto simp: pure_Bytes_def pure_buffer_inv_def cap_span_def)
    qed
  qed
qed

text \<open>
  C25: \<open>Write\<close> appends: it returns the length of its argument and the buffer then shows its old
  bytes followed by those of the argument, whether they fit or the buffer moves to a larger chunk
  of its arena; the only error is ErrOutOfMemory of the arena, and then the buffer and the memory
  are as before. It never panics and its doubling loop ends.
\<close>

theorem pure_Write_appends:
  assumes "pure_buffer_inv a b" "source_ok a b p"
    and "pure_ready a (2 * (s_len (pb_data b) + s_len p) + 64)"
  shows "case pure_Write (m, a, b) p of ((m', a', b'), r) \<Rightarrow>
    (case r of
       Ok n \<Rightarrow> n = s_len p \<and> slice_bytes m' (pure_Bytes b') = slice_bytes m (pure_Bytes b) @ slice_bytes m p \<and>
         pure_buffer_inv a' b' \<and> pb_rOff b' = pb_rOff b
     | Err e \<Rightarrow> e = Pure_ErrOutOfMemory \<and> b' = b \<and> m' = m \<and> s_cap (pb_data b) < s_len (pb_data b) + s_len p
     | _ \<Rightarrow> False)"
  using assms by (rule pure_Write_appends_aux)

text \<open>A source of three bytes outside the sample arena.\<close>

definition sample_source :: slice where
  "sample_source = \<lparr>s_ptr = 0x8000, s_len = 3, s_cap = 3\<rparr>"

definition sample_mem :: mem where
  "sample_mem = write_bytes (\<lambda>_. 0) 0x8000 [104, 105, 10]"

lemma sample_buffer_inv: "pure_buffer_inv sample_pure pure_NewBuffer"
  using sample_pure_inv
  by (simp add: pure_buffer_inv_def pure_NewBuffer_def cap_span_def empty_slice_def slice_ok_def in_space_def
      span_def maxAlloc_def)

lemma sample_source_ok: "source_ok sample_pure pure_NewBuffer sample_source"
  by (auto simp: source_ok_def sample_source_def slice_ok_def in_space_def maxAlloc_def slice_span_def free_tail_def
      cap_span_def pure_NewBuffer_def empty_slice_def sample_pure_def span_def)

theorem pure_Write_appends_witness:
  "case pure_Write (sample_mem, sample_pure, pure_NewBuffer) sample_source of ((m', a', b'), r) \<Rightarrow>
     r = Ok 3 \<and> slice_bytes m' (pure_Bytes b') = [104, 105, 10]"
proof -
  have "snd (pure_Write (sample_mem, sample_pure, pure_NewBuffer) sample_source) = Ok 3"
    by (simp add: pure_Write_def sample_source_def pure_NewBuffer_def empty_slice_def pure_grow_def grown_cap_def
        grow_loop.simps pure_Alloc_def sample_pure_def slice3_def slice_upto_def slice_from_def pure_append_def
        i64_id Let_def)
  moreover have "pure_ready sample_pure (2 * (s_len (pb_data pure_NewBuffer) + s_len sample_source) + 64)"
    by (simp add: pure_ready_def sample_pure_def pure_NewBuffer_def empty_slice_def sample_source_def)
  moreover have "slice_bytes sample_mem sample_source = [104, 105, 10]"
    by (simp add: slice_bytes_def sample_mem_def sample_source_def numeral_3_eq_3)
  moreover have "slice_bytes m (pure_Bytes pure_NewBuffer) = []" for m
    by (simp add: pure_Bytes_def pure_NewBuffer_def)
  ultimately show ?thesis
    using pure_Write_appends [OF sample_buffer_inv sample_source_ok, of sample_mem]
    by (auto split: prod.splits)
qed

section \<open>Reading\<close>

lemma pure_Read_ok:
  assumes "slice_ok (pb_data b)" "0 \<le> pb_rOff b" "pb_rOff b < s_len (pb_data b)" "slice_ok dst"
    and "slice_span dst \<inter> slice_span (pb_data b) = {}"
  defines "n \<equiv> min (s_len dst) (s_len (pb_data b) - pb_rOff b)"
  obtains m' where "pure_Read m b dst = ((m', b\<lparr>pb_rOff := pb_rOff b + n\<rparr>), Ok n)"
    "read_bytes m' (s_ptr dst) (nat n) = take (nat n) (drop (nat (pb_rOff b)) (slice_bytes m (pb_data b)))"
    "slice_bytes m' (pb_data b) = slice_bytes m (pb_data b)"
proof -
  let ?s = "pb_data b"
  let ?src = "\<lparr>s_ptr = s_ptr ?s + word_of_int (pb_rOff b), s_len = s_len ?s - pb_rOff b, s_cap = s_cap ?s - pb_rOff b\<rparr>"
  have from_ok: "slice_from ?s (pb_rOff b) = Ok ?src"
    using assms(2,3) by (simp add: slice_from_def)
  let ?m = "fst (go_copy m dst ?src)"
  have n: "0 \<le> n" "n \<le> s_len dst" "n \<le> s_len ?src" "min (s_len dst) (s_len ?src) = n"
    using assms(3,4) by (auto simp: n_def slice_ok_def)
  have "pure_Read m b dst = ((?m, b\<lparr>pb_rOff := pb_rOff b + n\<rparr>), Ok n)"
    using assms(3) n(4) by (simp add: pure_Read_def from_ok go_copy_def Let_def)
  moreover have "read_bytes ?m (s_ptr dst) (nat n) =
      take (nat n) (drop (nat (pb_rOff b)) (slice_bytes m ?s))"
  proof -
    have sp: "in_space (s_ptr dst) (nat n)"
      using assms(4) n(1,2) by (auto simp: slice_ok_def intro: in_space_le)
    have "?m = write_bytes m (s_ptr dst) (read_bytes m (s_ptr ?src) (nat n))"
      using n(4) by (simp add: go_copy_def Let_def)
    then have "read_bytes ?m (s_ptr dst) (nat n) = read_bytes m (s_ptr ?src) (nat n)"
      using read_write_bytes [of "s_ptr dst" "read_bytes m (s_ptr ?src) (nat n)" m] sp by simp
    also have "\<dots> = take (nat n) (slice_bytes m ?src)"
    proof -
      have "nat (s_len ?src) = nat n + nat (s_len ?src - n)"
        using n(1,3) by simp
      then show ?thesis
        using read_bytes_append [of m "s_ptr ?src" "nat n" "nat (s_len ?src - n)"] by (simp add: slice_bytes_def)
    qed
    also have "slice_bytes m ?src = drop (nat (pb_rOff b)) (slice_bytes m ?s)"
      by (rule slice_bytes_from(1) [OF from_ok])
    finally show ?thesis .
  qed
  moreover have "slice_bytes ?m ?s = slice_bytes m ?s"
    unfolding slice_bytes_def
    by (rule go_copy_other [OF assms(4)])
       (use assms(1,5) in \<open>auto simp: slice_ok_def slice_span_def intro: in_space_le\<close>)
  ultimately show thesis
    by (rule that)
qed

text \<open>A reader's loop: read into the same slice until EOF, collecting what arrives.\<close>

fun pure_drain :: "nat \<Rightarrow> mem \<Rightarrow> PureBuffer \<Rightarrow> slice \<Rightarrow> byte list outcome" where
  "pure_drain 0 m b dst = Diverge"
| "pure_drain (Suc k) m b dst =
     (case pure_Read m b dst of
        ((m', b'), Ok n) \<Rightarrow> map_outcome (append (read_bytes m' (s_ptr dst) (nat n))) (pure_drain k m' b' dst)
      | (_, Err e) \<Rightarrow> if e = Io_EOF then Ok [] else Err e
      | (_, Panic q) \<Rightarrow> Panic q
      | (_, Diverge) \<Rightarrow> Diverge)"

text \<open>
  C26: reading a buffer to the end returns, in order and without loss, the bytes after its read
  offset: with a destination of at least one byte that does not overlap the buffer, one call of
  \<open>Read\<close> per byte left and one more are enough to collect them all and reach EOF.
\<close>

theorem pure_Read_drains:
  assumes "slice_ok (pb_data b)" "0 \<le> pb_rOff b" "pb_rOff b \<le> s_len (pb_data b)" "slice_ok dst" "0 < s_len dst"
    and "slice_span dst \<inter> slice_span (pb_data b) = {}" "nat (s_len (pb_data b) - pb_rOff b) < k"
  shows "pure_drain k m b dst = Ok (drop (nat (pb_rOff b)) (slice_bytes m (pure_Bytes b)))"
  using assms
proof (induction k arbitrary: m b)
  case 0
  then show ?case by simp
next
  case (Suc k)
  show ?case
  proof (cases "pb_rOff b = s_len (pb_data b)")
    case True
    then show ?thesis
      by (simp add: pure_Read_def pure_Bytes_def)
  next
    case False
    with Suc.prems have less: "pb_rOff b < s_len (pb_data b)" by simp
    let ?n = "min (s_len dst) (s_len (pb_data b) - pb_rOff b)"
    let ?b = "b\<lparr>pb_rOff := pb_rOff b + ?n\<rparr>" and ?xs = "slice_bytes m (pb_data b)"
    from pure_Read_ok [OF Suc.prems(1,2) less Suc.prems(4,6), of m] obtain m' where
      R: "pure_Read m b dst = ((m', ?b), Ok ?n)"
        "read_bytes m' (s_ptr dst) (nat ?n) = take (nat ?n) (drop (nat (pb_rOff b)) ?xs)"
        "slice_bytes m' (pb_data b) = ?xs" .
    have n: "0 < ?n" "pb_rOff b + ?n \<le> s_len (pb_data b)"
      using less Suc.prems(5) by auto
    have "pure_drain k m' ?b dst = Ok (drop (nat (pb_rOff b + ?n)) ?xs)"
      using Suc.IH [of ?b m'] Suc.prems n R(3) by (simp add: pure_Bytes_def)
    moreover have "nat (pb_rOff b + ?n) = nat (pb_rOff b) + nat ?n"
      using Suc.prems(2) n(1) by (intro nat_add_distrib) auto
    ultimately show ?thesis
      using R(1,2) append_take_drop_id [of "nat ?n" "drop (nat (pb_rOff b)) ?xs"]
      by (simp add: pure_Bytes_def add.commute del: append_take_drop_id)
  qed
qed

theorem pure_Read_drains_witness:
  "pure_drain 4 sample_mem \<lparr>pb_data = sample_source, pb_rOff = 0\<rparr> \<lparr>s_ptr = 0x9000, s_len = 2, s_cap = 2\<rparr> =
     Ok [104, 105, 10]"
proof -
  let ?b = "\<lparr>pb_data = sample_source, pb_rOff = 0\<rparr>" and ?d = "\<lparr>s_ptr = 0x9000, s_len = 2, s_cap = 2\<rparr>"
  have "pure_drain 4 sample_mem ?b ?d = Ok (drop (nat (pb_rOff ?b)) (slice_bytes sample_mem (pure_Bytes ?b)))"
    by (rule pure_Read_drains)
       (auto simp: sample_source_def slice_ok_def in_space_def slice_span_def span_def)
  also have "\<dots> = Ok [104, 105, 10]"
    by (simp add: pure_Bytes_def slice_bytes_def sample_mem_def sample_source_def numeral_3_eq_3)
  finally show ?thesis .
qed

end
