(* ===== verification/Alloc_Buffer.thy ===== *)
theory Alloc_Buffer
  imports Alloc_Core Pure_Buffer
begin

text \<open>
  Typed allocation and the growable buffer of the package alloc (alloc/generic.go, alloc/buffer.go),
  over the interface of Alloc_Core. A slice of a type \<open>T\<close> is a slice whose length counts elements,
  with the element size beside it.

  Shown here: what \<open>MakeSlice\<close> and \<open>MakeBytes\<close> return with any allocator behind the context and
  without one; \<open>MakeString\<close> copies; a buffer keeps what fits, and loses its contents when it grows.
\<close>

section \<open>Typed allocation (generic.go)\<close>

text \<open>
  \<open>unsafe.Slice\<close> panics for a negative length, when the bytes would pass the end of the address
  space, and for nil with a length that is not zero.
\<close>

definition unsafe_Slice :: "uintptr \<Rightarrow> uintptr \<Rightarrow> int \<Rightarrow> slice outcome" where
  "unsafe_Slice ptr esz n =
     (if n < 0 \<or> 2 ^ 64 \<le> unat esz * nat n \<or> unat (- ptr) < unat esz * nat n then Panic UnsafeSliceLen
      else Ok \<lparr>s_ptr = ptr, s_len = n, s_cap = n\<rparr>)"

text \<open>\<open>make([]T, len, cap)\<close> on the Go heap.\<close>

definition make_T :: "alloc_world \<Rightarrow> uintptr \<Rightarrow> uintptr \<Rightarrow> int \<Rightarrow> int \<Rightarrow> alloc_world \<times> slice outcome" where
  "make_T w p esz len cap =
     (if len < 0 \<or> cap < len \<or> maxAlloc < int (unat esz) * cap then (w, Panic MakeSliceLen)
      else (w\<lparr>aw_mem := write_bytes (aw_mem w) p (replicate (unat esz * nat cap) 0)\<rparr>,
            Ok \<lparr>s_ptr = p, s_len = len, s_cap = cap\<rparr>))"

definition MakeSlice :: "u64 \<Rightarrow> go_rt \<Rightarrow> uintptr \<Rightarrow> alloc_world \<Rightarrow> ctx \<Rightarrow> int \<Rightarrow> int \<Rightarrow> alloc_world \<times> slice outcome" where
  "MakeSlice poly rt esz w c len cap =
     (if len < 0 \<or> cap < 0 \<or> len > cap then (w, Panic (PanicValue ''alloc: invalid slice bounds''))
      else if cap = 0 then (w, Ok empty_slice)
      else if esz = 0 then make_T w (rt_ptr rt) esz len cap
      else case alloc_FromContext c of
        None \<Rightarrow> make_T w (rt_ptr rt) esz len cap
      | Some a \<Rightarrow>
          (case world_Alloc poly rt w a (esz * word_of_int cap) 1 0 0 of
             (w', Ok (addr, _)) \<Rightarrow> (w', obind (unsafe_Slice addr esz cap) (\<lambda>s. slice_upto s len))
           | (w', Err e) \<Rightarrow> (w', Err e) | (w', Panic q) \<Rightarrow> (w', Panic q) | (w', Diverge) \<Rightarrow> (w', Diverge)))"

text \<open>\<open>New\<close> returns the address of the one element.\<close>

definition alloc_New :: "u64 \<Rightarrow> go_rt \<Rightarrow> uintptr \<Rightarrow> alloc_world \<Rightarrow> ctx \<Rightarrow> alloc_world \<times> uintptr outcome" where
  "alloc_New poly rt esz w c =
     (if esz = 0 then (w, Ok (rt_ptr rt))
      else case MakeSlice poly rt esz w c 1 1 of
        (w', Ok s) \<Rightarrow> (w', if 0 < s_len s then Ok (s_ptr s) else Panic IndexOutOfRange)
      | (w', Err e) \<Rightarrow> (w', Err e) | (w', Panic q) \<Rightarrow> (w', Panic q) | (w', Diverge) \<Rightarrow> (w', Diverge))"

definition MakeBytes :: "u64 \<Rightarrow> go_rt \<Rightarrow> alloc_world \<Rightarrow> ctx \<Rightarrow> int \<Rightarrow> int \<Rightarrow> alloc_world \<times> slice outcome" where
  "MakeBytes poly rt w c len cap =
     (if len < 0 \<or> cap < 0 \<or> len > cap then (w, Panic (PanicValue ''alloc: invalid slice bounds''))
      else if cap = 0 then (w, Ok empty_slice)
      else case alloc_FromContext c of
        None \<Rightarrow> make_T w (rt_ptr rt) 1 len cap
      | Some a \<Rightarrow>
          (case world_Alloc poly rt w a (word_of_int cap) 1 0 0 of
             (w', Ok (addr, _)) \<Rightarrow> (w', obind (unsafe_Slice addr 1 cap) (\<lambda>s. slice_upto s len))
           | (w', Err e) \<Rightarrow> (w', Err e) | (w', Panic q) \<Rightarrow> (w', Panic q) | (w', Diverge) \<Rightarrow> (w', Diverge)))"

text \<open>A string is the slice of its bytes; \<open>&buf[0]\<close> is the only index taken.\<close>

definition MakeString :: "u64 \<Rightarrow> go_rt \<Rightarrow> alloc_world \<Rightarrow> ctx \<Rightarrow> slice \<Rightarrow> alloc_world \<times> slice outcome" where
  "MakeString poly rt w c b =
     (if s_len b = 0 then (w, Ok empty_slice)
      else case MakeBytes poly rt w c (s_len b) (s_len b) of
        (w', Ok buf) \<Rightarrow>
          (w'\<lparr>aw_mem := fst (go_copy (aw_mem w') buf b)\<rparr>,
           if 0 < s_len buf then Ok \<lparr>s_ptr = s_ptr buf, s_len = s_len buf, s_cap = s_len buf\<rparr> else Panic IndexOutOfRange)
      | (w', Err e) \<Rightarrow> (w', Err e) | (w', Panic q) \<Rightarrow> (w', Panic q) | (w', Diverge) \<Rightarrow> (w', Diverge))"

section \<open>The buffer (buffer.go)\<close>

record AllocBuffer =
  ab_ctx :: ctx
  ab_buf :: slice
  ab_rOff :: int

type_synonym alloc_state = "alloc_world \<times> AllocBuffer"

definition alloc_NewBuffer :: "ctx \<Rightarrow> AllocBuffer" where
  "alloc_NewBuffer c = \<lparr>ab_ctx = c, ab_buf = empty_slice, ab_rOff = 0\<rparr>"

text \<open>The new slice has length 0, so the \<open>copy\<close> into it copies nothing.\<close>

definition alloc_grow :: "u64 \<Rightarrow> go_rt \<Rightarrow> alloc_state \<Rightarrow> int \<Rightarrow> alloc_state \<times> unit outcome" where
  "alloc_grow poly rt st needed = (case st of (w, b) \<Rightarrow>
     (case grown_cap (s_cap (ab_buf b)) needed of
        None \<Rightarrow> (st, Diverge)
      | Some newCap \<Rightarrow>
          (case MakeBytes poly rt w (ab_ctx b) 0 newCap of
             (w', Ok newBuf) \<Rightarrow>
               ((w'\<lparr>aw_mem := fst (go_copy (aw_mem w') newBuf (ab_buf b))\<rparr>, b\<lparr>ab_buf := newBuf\<rparr>), Ok ())
           | (w', Err e) \<Rightarrow> ((w', b), Err e)
           | (w', Panic q) \<Rightarrow> ((w', b), Panic q)
           | (w', Diverge) \<Rightarrow> ((w', b), Diverge))))"

definition alloc_append :: "alloc_state \<Rightarrow> int \<Rightarrow> slice \<Rightarrow> alloc_state \<times> int outcome" where
  "alloc_append st needed p = (case st of (w, b) \<Rightarrow>
     (case slice_upto (ab_buf b) needed of
        Ok d \<Rightarrow>
          (case slice_from d (needed - s_len p) of
             Ok rest \<Rightarrow> ((w\<lparr>aw_mem := fst (go_copy (aw_mem w) rest p)\<rparr>, b\<lparr>ab_buf := d\<rparr>), Ok (s_len p))
           | Err e \<Rightarrow> ((w, b\<lparr>ab_buf := d\<rparr>), Err e)
           | Panic q \<Rightarrow> ((w, b\<lparr>ab_buf := d\<rparr>), Panic q)
           | Diverge \<Rightarrow> ((w, b\<lparr>ab_buf := d\<rparr>), Diverge))
      | Err e \<Rightarrow> (st, Err e)
      | Panic q \<Rightarrow> (st, Panic q)
      | Diverge \<Rightarrow> (st, Diverge)))"

definition alloc_Write :: "u64 \<Rightarrow> go_rt \<Rightarrow> alloc_state \<Rightarrow> slice \<Rightarrow> alloc_state \<times> int outcome" where
  "alloc_Write poly rt st p =
     (if s_len p = 0 then (st, Ok 0)
      else
        let b = snd st;
            needed = i64 (s_len (ab_buf b) + s_len p)
        in if needed > s_cap (ab_buf b) then
             (case alloc_grow poly rt st needed of
                (st', Ok _) \<Rightarrow> alloc_append st' needed p
              | (st', Err e) \<Rightarrow> (st', Err e)
              | (st', Panic q) \<Rightarrow> (st', Panic q)
              | (st', Diverge) \<Rightarrow> (st', Diverge))
           else alloc_append st needed p)"

definition alloc_Read :: "mem \<Rightarrow> AllocBuffer \<Rightarrow> slice \<Rightarrow> (mem \<times> AllocBuffer) \<times> int outcome" where
  "alloc_Read m b p =
     (if ab_rOff b \<ge> s_len (ab_buf b) then ((m, b), Err Io_EOF)
      else case slice_from (ab_buf b) (ab_rOff b) of
        Ok src \<Rightarrow>
          let (m', n) = go_copy m p src in ((m', b\<lparr>ab_rOff := ab_rOff b + n\<rparr>), Ok n)
      | Err e \<Rightarrow> ((m, b), Err e)
      | Panic q \<Rightarrow> ((m, b), Panic q)
      | Diverge \<Rightarrow> ((m, b), Diverge))"

definition alloc_Bytes :: "AllocBuffer \<Rightarrow> slice" where
  "alloc_Bytes b = ab_buf b"

definition alloc_String :: "AllocBuffer \<Rightarrow> slice" where
  "alloc_String b =
     (if s_len (ab_buf b) = 0 then empty_slice
      else \<lparr>s_ptr = s_ptr (ab_buf b), s_len = s_len (ab_buf b), s_cap = s_len (ab_buf b)\<rparr>)"

definition alloc_buffer_Len :: "AllocBuffer \<Rightarrow> int" where
  "alloc_buffer_Len b = s_len (ab_buf b)"

definition alloc_buffer_Cap :: "AllocBuffer \<Rightarrow> int" where
  "alloc_buffer_Cap b = s_cap (ab_buf b)"

definition alloc_buffer_Reset :: "AllocBuffer \<Rightarrow> AllocBuffer" where
  "alloc_buffer_Reset b = b\<lparr>ab_buf := (ab_buf b)\<lparr>s_len := 0\<rparr>, ab_rOff := 0\<rparr>"

text \<open>
  \<open>ReadAll\<close>: \<open>io.Copy\<close> has the reader fill its copy buffer, at \<open>cp\<close>, and calls \<open>Write\<close> with what was
  read, until the reader ends or fails. The reader is the list of what it delivers, each with the
  runtime's answers for the \<open>Write\<close>.
\<close>

definition byte_slice :: "uintptr \<Rightarrow> byte list \<Rightarrow> slice" where
  "byte_slice p bs = \<lparr>s_ptr = p, s_len = int (length bs), s_cap = int (length bs)\<rparr>"

fun io_Copy :: "u64 \<Rightarrow> uintptr \<Rightarrow> alloc_state \<Rightarrow> (go_rt \<times> byte list) list \<Rightarrow> go_error option \<Rightarrow> alloc_state \<times> unit outcome" where
  "io_Copy poly cp st [] e = (st, case e of None \<Rightarrow> Ok () | Some x \<Rightarrow> Err x)"
| "io_Copy poly cp (w, b) ((rt, bs) # ps) e =
     (case alloc_Write poly rt (w\<lparr>aw_mem := write_bytes (aw_mem w) cp bs\<rparr>, b) (byte_slice cp bs) of
        (st', Ok _) \<Rightarrow> io_Copy poly cp st' ps e
      | (st', Err x) \<Rightarrow> (st', Err x) | (st', Panic q) \<Rightarrow> (st', Panic q) | (st', Diverge) \<Rightarrow> (st', Diverge))"

definition ReadAll ::
  "u64 \<Rightarrow> uintptr \<Rightarrow> alloc_world \<Rightarrow> ctx \<Rightarrow> (go_rt \<times> byte list) list \<Rightarrow> go_error option \<Rightarrow> alloc_world \<times> slice outcome" where
  "ReadAll poly cp w c chunks e =
     (case io_Copy poly cp (w, alloc_NewBuffer c) chunks e of
        ((w', b), Ok _) \<Rightarrow> (w', Ok (alloc_Bytes b))
      | ((w', b), Err x) \<Rightarrow> (w', Err x) | ((w', b), Panic q) \<Rightarrow> (w', Panic q) | ((w', b), Diverge) \<Rightarrow> (w', Diverge))"

section \<open>What typed allocation returns\<close>

lemma unat_uminus_u64: "(q :: u64) \<noteq> 0 \<Longrightarrow> unat (- q) = 2 ^ 64 - unat q"
  using unat_sub_if' [of 0 q] by (simp add: unat_gt_0)

lemma unsafe_Slice_ok:
  assumes "0 \<le> n" "unat q + unat esz * nat n \<le> 2 ^ 64" "q \<noteq> 0"
  shows "unsafe_Slice q esz n = Ok \<lparr>s_ptr = q, s_len = n, s_cap = n\<rparr>"
proof -
  have "0 < unat q"
    using assms(3) by (simp add: unat_gt_0)
  then show ?thesis
    using assms unat_uminus_u64 [OF assms(3)] by (simp add: unsafe_Slice_def)
qed

text \<open>The block a call asks for and the slice over it.\<close>

definition slice_block :: "int \<Rightarrow> nat \<Rightarrow> alloc_world \<Rightarrow> uintptr \<Rightarrow> Allocator \<Rightarrow> alloc_world \<Rightarrow> uintptr \<Rightarrow> bool" where
  "slice_block scale n w ref a w' q \<longleftrightarrow>
     q \<noteq> 0 \<and> unat q + n \<le> 2 ^ 64 \<and> (\<exists>a'. aw_objs w' ref = Some a' \<and> alloc_inv scale a' \<and> span q n \<subseteq> alloc_used a' \<and> alloc_used a \<subseteq> alloc_used a') \<and>
     span q n \<inter> alloc_used a = {} \<and> (\<forall>x. unat x \<in> alloc_used a \<longrightarrow> aw_mem w' x = aw_mem w x)"

definition slice_spec :: "int \<Rightarrow> nat \<Rightarrow> int \<Rightarrow> int \<Rightarrow> alloc_world \<Rightarrow> uintptr \<Rightarrow> Allocator \<Rightarrow> alloc_world \<times> slice outcome \<Rightarrow> bool" where
  "slice_spec scale n len cap w ref a res \<longleftrightarrow>
     (case res of
        (w', Ok s) \<Rightarrow> s_len s = len \<and> s_cap s = cap \<and> slice_block scale n w ref a w' (s_ptr s)
      | (w', Err e) \<Rightarrow> (\<exists>a'. aw_objs w' ref = Some a' \<and> alloc_inv scale a' \<and> alloc_used a \<subseteq> alloc_used a') \<and>
          (\<forall>x. unat x \<in> alloc_used a \<longrightarrow> aw_mem w' x = aw_mem w x)
      | _ \<Rightarrow> False)"

lemma alloc_slice_spec:
  assumes "aw_objs w ref = Some a" "alloc_inv scale a" "alloc_ready a (sz, 1, 0, 0, rt)"
    and "0 \<le> len" "len \<le> cap" "0 < unat sz" "unat sz = unat esz * nat cap"
  shows "slice_spec scale (unat sz) len cap w ref a
    (case world_Alloc poly rt w ref sz 1 0 0 of
       (w', Ok (addr, _)) \<Rightarrow> (w', obind (unsafe_Slice addr esz cap) (\<lambda>s. slice_upto s len))
     | (w', Err e) \<Rightarrow> (w', Err e) | (w', Panic q) \<Rightarrow> (w', Panic q) | (w', Diverge) \<Rightarrow> (w', Diverge))"
proof (cases rule: world_Alloc_cases [OF assms(1-3), of poly])
  case (1 a' q k mem)
  have "q \<noteq> 0"
    using 1(7) assms(6) by blast
  moreover from this have "unsafe_Slice q esz cap = Ok \<lparr>s_ptr = q, s_len = cap, s_cap = cap\<rparr>"
    using 1(6) assms(4,5,7) by (intro unsafe_Slice_ok) auto
  ultimately show ?thesis
    using 1 assms(4,5) by (simp add: slice_spec_def slice_block_def slice_upto_def)
next
  case (2 a' e mem)
  then show ?thesis
    by (simp add: slice_spec_def)
qed

lemma MakeSlice_spec:
  assumes "alloc_FromContext c = Some ref" "aw_objs w ref = Some a" "alloc_inv scale a"
    and "alloc_ready a (esz * word_of_int cap, 1, 0, 0, rt)"
    and "0 < unat esz" "0 \<le> len" "len \<le> cap" "0 < cap" "int (unat esz) * cap < 2 ^ 64"
  shows "slice_spec scale (unat esz * nat cap) len cap w ref a (MakeSlice poly rt esz w c len cap)"
proof -
  have "cap \<le> int (unat esz) * cap"
    using assms(5,8) by (simp add: mult_le_cancel_right1 del: of_nat_unat)
  then have "unat (word_of_int cap :: u64) = nat cap"
    using assms(8,9) by (intro unat_word_of_int_u64) linarith+
  moreover have m: "unat esz * nat cap < 2 ^ 64"
  proof -
    have "int (unat esz * nat cap) < int (2 ^ 64)"
      using assms(8,9) by (simp del: of_nat_unat)
    then show ?thesis
      by (simp only: of_nat_less_iff)
  qed
  ultimately have sz: "unat (esz * word_of_int cap) = unat esz * nat cap"
    by (simp add: unat_word_ariths)
  moreover have "0 < unat esz * nat cap"
    using assms(5,8) by simp
  ultimately have "slice_spec scale (unat (esz * word_of_int cap)) len cap w ref a
    (case world_Alloc poly rt w ref (esz * word_of_int cap) 1 0 0 of
       (w', Ok (addr, _)) \<Rightarrow> (w', obind (unsafe_Slice addr esz cap) (\<lambda>s. slice_upto s len))
     | (w', Err e) \<Rightarrow> (w', Err e) | (w', Panic q) \<Rightarrow> (w', Panic q) | (w', Diverge) \<Rightarrow> (w', Diverge))"
    using assms by (intro alloc_slice_spec) auto
  moreover have "esz \<noteq> 0"
    using assms(5) by auto
  ultimately show ?thesis
    using assms sz by (simp add: MakeSlice_def)
qed

lemma MakeBytes_spec:
  assumes "alloc_FromContext c = Some ref" "aw_objs w ref = Some a" "alloc_inv scale a"
    and "alloc_ready a (word_of_int cap, 1, 0, 0, rt)" "0 \<le> len" "len \<le> cap" "0 < cap" "cap < 2 ^ 64"
  shows "slice_spec scale (nat cap) len cap w ref a (MakeBytes poly rt w c len cap)"
proof -
  have sz: "unat (word_of_int cap :: u64) = nat cap"
    using assms(7,8) by (intro unat_word_of_int_u64) auto
  have "slice_spec scale (unat (word_of_int cap :: u64)) len cap w ref a
    (case world_Alloc poly rt w ref (word_of_int cap) 1 0 0 of
       (w', Ok (addr, _)) \<Rightarrow> (w', obind (unsafe_Slice addr 1 cap) (\<lambda>s. slice_upto s len))
     | (w', Err e) \<Rightarrow> (w', Err e) | (w', Panic q) \<Rightarrow> (w', Panic q) | (w', Diverge) \<Rightarrow> (w', Diverge))"
    using assms sz by (intro alloc_slice_spec) auto
  then show ?thesis
    using assms by (simp add: MakeBytes_def sz)
qed

text \<open>
  With an allocator in the context, whichever implementation, \<open>MakeSlice\<close> for a size that fits
  the address space returns a slice of the asked length and capacity over a block that no earlier
  block overlaps, keeps the contents of all memory handed out before, and leaves the allocator in a
  good state; or it returns the allocator's error. It never panics.
\<close>

lemma alloc_MakeSlice_block:
  assumes "alloc_FromContext c = Some ref" "aw_objs w ref = Some a" "alloc_inv scale a"
    and "alloc_ready a (esz * word_of_int cap, 1, 0, 0, rt)"
    and "0 < unat esz" "0 \<le> len" "len \<le> cap" "0 < cap" "int (unat esz) * cap < 2 ^ 64"
  shows "case MakeSlice poly rt esz w c len cap of
      (w', Ok s) \<Rightarrow> s_len s = len \<and> s_cap s = cap \<and> s_ptr s \<noteq> 0 \<and>
        span (s_ptr s) (unat esz * nat cap) \<inter> alloc_used a = {} \<and>
        (\<exists>a'. aw_objs w' ref = Some a' \<and> alloc_inv scale a' \<and> span (s_ptr s) (unat esz * nat cap) \<subseteq> alloc_used a') \<and>
        (\<forall>x. unat x \<in> alloc_used a \<longrightarrow> aw_mem w' x = aw_mem w x)
    | (w', Err e) \<Rightarrow> (\<exists>a'. aw_objs w' ref = Some a' \<and> alloc_inv scale a')
    | _ \<Rightarrow> False"
  using MakeSlice_spec [OF assms, of poly]
  by (auto simp: slice_spec_def slice_block_def split: prod.splits outcome.splits)

text \<open>\<open>MakeString\<close> copies its argument to the new block.\<close>

lemma go_copy_full:
  assumes "slice_ok dst" "s_len dst = s_len src"
  shows "slice_bytes (fst (go_copy m dst src)) dst = slice_bytes m src"
  using go_copy_bytes(1) [OF assms(1), of src m] assms by (simp add: slice_bytes_def slice_ok_def)

section \<open>Writing to a buffer\<close>

text \<open>Into the free end.\<close>

lemma alloc_append_ok:
  assumes "slice_ok (ab_buf b\<lparr>s_len := l\<rparr>)" "slice_ok p" "0 < s_len p" "l + s_len p \<le> s_cap (ab_buf b)"
    and "slice_span p \<inter> free_tail (ab_buf b\<lparr>s_len := l\<rparr>) = {}"
  obtains m' where "alloc_append (w, b) (l + s_len p) p =
      ((w\<lparr>aw_mem := m'\<rparr>, b\<lparr>ab_buf := ab_buf b\<lparr>s_len := l + s_len p\<rparr>\<rparr>), Ok (s_len p))"
    "slice_bytes m' (ab_buf b\<lparr>s_len := l + s_len p\<rparr>) = slice_bytes (aw_mem w) (ab_buf b\<lparr>s_len := l\<rparr>) @ slice_bytes (aw_mem w) p"
    "slice_ok (ab_buf b\<lparr>s_len := l + s_len p\<rparr>)"
    "\<And>x. unat x \<notin> free_tail (ab_buf b\<lparr>s_len := l\<rparr>) \<Longrightarrow> m' x = aw_mem w x"
proof -
  let ?s = "ab_buf b\<lparr>s_len := l\<rparr>"
  let ?d = "ab_buf b\<lparr>s_len := l + s_len p\<rparr>"
  let ?rest = "\<lparr>s_ptr = s_ptr (ab_buf b) + word_of_int l, s_len = s_len p, s_cap = s_cap (ab_buf b) - l\<rparr>"
  let ?m = "fst (go_copy (aw_mem w) ?rest p)"
  have len: "0 \<le> l" "l \<le> s_cap (ab_buf b)" "in_space (s_ptr (ab_buf b)) (nat (s_cap (ab_buf b)))"
    using assms(1) by (auto simp: slice_ok_def)
  have "slice_upto (ab_buf b) (l + s_len p) = Ok ?d" "slice_from ?d (l + s_len p - s_len p) = Ok ?rest"
    using len assms(3,4) by (simp_all add: slice_upto_def slice_from_def)
  then have A: "alloc_append (w, b) (l + s_len p) p = ((w\<lparr>aw_mem := ?m\<rparr>, b\<lparr>ab_buf := ?d\<rparr>), Ok (s_len p))"
    by (simp add: alloc_append_def)
  have room: "s_len ?s + s_len p \<le> s_cap ?s"
    using assms(4) by simp
  note P = append_in_place [where rest = ?rest and d = ?d and s = ?s and p = p, OF assms(1-3) room assms(5)]
  have c: "nat l \<le> nat (s_cap (ab_buf b))" "nat (s_cap (ab_buf b)) - nat l = nat (s_cap (ab_buf b) - l)"
    using len by auto
  have u: "unat (s_ptr ?rest) = unat (s_ptr (ab_buf b)) + nat l" "in_space (s_ptr ?rest) (nat (s_len p))"
    using in_space_add [OF len(3) c(1)] len(1) c(2) assms(3,4) by (auto elim: in_space_le)
  then have "span (s_ptr ?rest) (nat (s_len p)) \<subseteq> free_tail ?s"
    using len(1) assms(4) by (auto simp: free_tail_def cap_span_def slice_span_def span_def)
  then have frame: "?m x = aw_mem w x" if "unat x \<notin> free_tail ?s" for x
    using write_bytes_other [of "s_ptr ?rest" "read_bytes (aw_mem w) (s_ptr p) (nat (s_len p))" x "aw_mem w"] u(2) that
    by (auto simp: go_copy_def Let_def)
  show thesis
    by (rule that [OF A]) (use P frame in auto)
qed

lemma alloc_Write_fits:
  assumes "slice_ok (ab_buf b)" "slice_ok p" "0 < s_len p" "s_len (ab_buf b) + s_len p \<le> s_cap (ab_buf b)"
    and "s_cap (ab_buf b) < 2 ^ 63" "slice_span p \<inter> free_tail (ab_buf b) = {}"
  obtains m' where "alloc_Write poly rt (w, b) p =
      ((w\<lparr>aw_mem := m'\<rparr>, b\<lparr>ab_buf := ab_buf b\<lparr>s_len := s_len (ab_buf b) + s_len p\<rparr>\<rparr>), Ok (s_len p))"
    "slice_bytes m' (ab_buf b\<lparr>s_len := s_len (ab_buf b) + s_len p\<rparr>) =
       slice_bytes (aw_mem w) (ab_buf b) @ slice_bytes (aw_mem w) p"
    "\<And>x. unat x \<notin> free_tail (ab_buf b) \<Longrightarrow> m' x = aw_mem w x"
proof -
  have l: "0 \<le> s_len (ab_buf b)"
    using assms(1) by (simp add: slice_ok_def)
  have i: "i64 (s_len (ab_buf b) + s_len p) = s_len (ab_buf b) + s_len p"
    using l assms(3-5) by (intro i64_id) auto
  obtain m' where M: "alloc_append (w, b) (s_len (ab_buf b) + s_len p) p =
      ((w\<lparr>aw_mem := m'\<rparr>, b\<lparr>ab_buf := ab_buf b\<lparr>s_len := s_len (ab_buf b) + s_len p\<rparr>\<rparr>), Ok (s_len p))"
    "slice_bytes m' (ab_buf b\<lparr>s_len := s_len (ab_buf b) + s_len p\<rparr>) =
       slice_bytes (aw_mem w) (ab_buf b) @ slice_bytes (aw_mem w) p"
    "\<And>x. unat x \<notin> free_tail (ab_buf b) \<Longrightarrow> m' x = aw_mem w x"
    by (rule alloc_append_ok [where b = b and l = "s_len (ab_buf b)" and p = p and w = w]) (use assms in auto)
  show thesis
    by (rule that [OF _ M(2,3)]) (use M(1) i assms(3,4) in \<open>simp add: alloc_Write_def\<close>)
qed

text \<open>To a new slice: what was in the buffer is not copied.\<close>

lemma alloc_Write_grows:
  assumes "slice_ok (ab_buf b)" "slice_ok p" "0 < s_len p" "s_cap (ab_buf b) < s_len (ab_buf b) + s_len p"
    and "s_len (ab_buf b) + s_len p < 2 ^ 63" "grown_cap (s_cap (ab_buf b)) (s_len (ab_buf b) + s_len p) = Some k"
    and "s_len (ab_buf b) + s_len p \<le> k"
    and "MakeBytes poly rt w (ab_ctx b) 0 k = (w1, Ok nb)" "s_len nb = 0" "s_cap nb = k" "in_space (s_ptr nb) (nat k)"
    and "slice_span p \<inter> span (s_ptr nb) (nat k) = {}" "slice_bytes (aw_mem w1) p = slice_bytes (aw_mem w) p"
  obtains m' where "alloc_Write poly rt (w, b) p =
      ((w1\<lparr>aw_mem := m'\<rparr>, b\<lparr>ab_buf := nb\<lparr>s_len := s_len (ab_buf b) + s_len p\<rparr>\<rparr>), Ok (s_len p))"
    "slice_bytes m' (nb\<lparr>s_len := s_len (ab_buf b) + s_len p\<rparr>) =
       read_bytes (aw_mem w1) (s_ptr nb) (nat (s_len (ab_buf b))) @ slice_bytes (aw_mem w) p"
    "slice_ok (nb\<lparr>s_len := s_len (ab_buf b) + s_len p\<rparr>)"
    "\<And>x. unat x \<notin> span (s_ptr nb) (nat k) \<Longrightarrow> m' x = aw_mem w1 x"
proof -
  let ?l = "s_len (ab_buf b)" and ?b = "b\<lparr>ab_buf := nb\<rparr>"
  have l: "0 \<le> ?l"
    using assms(1) by (simp add: slice_ok_def)
  have i: "i64 (?l + s_len p) = ?l + s_len p"
    using l assms(3,5) by (intro i64_id) auto
  have cp: "fst (go_copy (aw_mem w1) nb (ab_buf b)) = aw_mem w1"
    using l assms(9) by (simp add: go_copy_def Let_def)
  have "alloc_grow poly rt (w, b) (?l + s_len p) = ((w1, ?b), Ok ())"
    by (simp add: alloc_grow_def assms(6,8) cp)
  then have W: "alloc_Write poly rt (w, b) p = alloc_append (w1, ?b) (?l + s_len p) p"
    using assms(3,4) i by (simp add: alloc_Write_def)
  have ok: "slice_ok (nb\<lparr>s_len := ?l\<rparr>)"
    using l assms(3,7,10,11) by (simp add: slice_ok_def)
  have ft: "free_tail (nb\<lparr>s_len := ?l\<rparr>) \<subseteq> span (s_ptr nb) (nat k)"
    by (auto simp: free_tail_def cap_span_def assms(10))
  obtain m' where M: "alloc_append (w1, ?b) (?l + s_len p) p =
      ((w1\<lparr>aw_mem := m'\<rparr>, ?b\<lparr>ab_buf := ab_buf ?b\<lparr>s_len := ?l + s_len p\<rparr>\<rparr>), Ok (s_len p))"
    "slice_bytes m' (ab_buf ?b\<lparr>s_len := ?l + s_len p\<rparr>) = slice_bytes (aw_mem w1) (ab_buf ?b\<lparr>s_len := ?l\<rparr>) @ slice_bytes (aw_mem w1) p"
    "slice_ok (ab_buf ?b\<lparr>s_len := ?l + s_len p\<rparr>)"
    "\<And>x. unat x \<notin> free_tail (ab_buf ?b\<lparr>s_len := ?l\<rparr>) \<Longrightarrow> m' x = aw_mem w1 x"
    by (rule alloc_append_ok [where b = ?b and l = ?l and p = p and w = w1]) (use assms(2,3,7,10,12) ok ft in auto)
  show thesis
  proof (rule that)
    show "alloc_Write poly rt (w, b) p = ((w1\<lparr>aw_mem := m'\<rparr>, b\<lparr>ab_buf := nb\<lparr>s_len := ?l + s_len p\<rparr>\<rparr>), Ok (s_len p))"
      using W M(1) by simp
    show "slice_bytes m' (nb\<lparr>s_len := ?l + s_len p\<rparr>) = read_bytes (aw_mem w1) (s_ptr nb) (nat ?l) @ slice_bytes (aw_mem w) p"
      using M(2) assms(13) by (simp add: slice_bytes_def)
  qed (use M(3,4) ft in auto)
qed

text \<open>On the Go heap, with memory that the runtime gives the buffer when it grows.\<close>

definition new_bytes_ok :: "uintptr \<Rightarrow> int \<Rightarrow> slice \<Rightarrow> bool" where
  "new_bytes_ok q n p \<longleftrightarrow> in_space q (nat (2 * n + 64)) \<and> slice_span p \<inter> span q (nat (2 * n + 64)) = {}"

lemma new_bytes_le:
  assumes "new_bytes_ok q n p" "k \<le> nat (2 * n + 64)"
  shows "in_space q k" "slice_span p \<inter> span q k = {}"
  using assms span_mono [OF assms(2), of q] by (auto simp: new_bytes_ok_def elim: in_space_le)

lemma slice_bytes_cong:
  assumes "slice_ok p" "\<And>a. unat a \<in> slice_span p \<Longrightarrow> m' a = m a"
  shows "slice_bytes m' p = slice_bytes m p"
proof -
  have "in_space (s_ptr p) (nat (s_len p))"
    using assms(1) by (auto simp: slice_ok_def intro: in_space_le)
  with assms(2) show ?thesis
    by (auto simp: slice_bytes_def slice_span_def intro: read_bytes_cong)
qed

lemma alloc_Write_heap_aux:
  assumes "alloc_FromContext (ab_ctx b) = None" "slice_ok (ab_buf b)" "slice_ok p" "0 < s_len p"
    and "slice_span p \<inter> free_tail (ab_buf b) = {}" "s_cap (ab_buf b) \<le> 2 ^ 46" "s_len (ab_buf b) + s_len p \<le> 2 ^ 46"
    and "new_bytes_ok (rt_ptr rt) (s_len (ab_buf b) + s_len p) p"
  obtains w' b' where "alloc_Write poly rt (w, b) p = ((w', b'), Ok (s_len p))"
    "slice_bytes (aw_mem w') (ab_buf b') =
       (if s_len (ab_buf b) + s_len p \<le> s_cap (ab_buf b) then slice_bytes (aw_mem w) (ab_buf b)
        else replicate (nat (s_len (ab_buf b))) 0) @ slice_bytes (aw_mem w) p"
    "ab_ctx b' = ab_ctx b"
    "s_len (ab_buf b) + s_len p > s_cap (ab_buf b) \<Longrightarrow> slice_ok (ab_buf b') \<and> s_len (ab_buf b') = s_len (ab_buf b) + s_len p \<and>
       s_ptr (ab_buf b') = rt_ptr rt \<and> grown_cap (s_cap (ab_buf b)) (s_len (ab_buf b) + s_len p) = Some (s_cap (ab_buf b'))"
proof (cases "s_len (ab_buf b) + s_len p \<le> s_cap (ab_buf b)")
  case True
  obtain m' where "alloc_Write poly rt (w, b) p =
      ((w\<lparr>aw_mem := m'\<rparr>, b\<lparr>ab_buf := ab_buf b\<lparr>s_len := s_len (ab_buf b) + s_len p\<rparr>\<rparr>), Ok (s_len p))"
    "slice_bytes m' (ab_buf b\<lparr>s_len := s_len (ab_buf b) + s_len p\<rparr>) =
       slice_bytes (aw_mem w) (ab_buf b) @ slice_bytes (aw_mem w) p"
    by (rule alloc_Write_fits [OF assms(2-4) True _ assms(5)]) (use assms(6) in auto)
  with that [of "w\<lparr>aw_mem := m'\<rparr>" "b\<lparr>ab_buf := ab_buf b\<lparr>s_len := s_len (ab_buf b) + s_len p\<rparr>\<rparr>"] True show thesis
    by simp
next
  case False
  let ?l = "s_len (ab_buf b)" and ?n = "s_len (ab_buf b) + s_len p" and ?q = "rt_ptr rt"
  have l: "0 \<le> ?l" "0 \<le> s_cap (ab_buf b)"
    using assms(2) by (auto simp: slice_ok_def)
  obtain k where k: "grown_cap (s_cap (ab_buf b)) ?n = Some k" "?n \<le> k" "k < 2 * ?n + 64"
    by (rule grown_cap_ends [OF l(2), of ?n]) (use False assms(7) in auto)
  define w1 where "w1 = w\<lparr>aw_mem := write_bytes (aw_mem w) ?q (replicate (nat k) 0)\<rparr>"
  let ?nb = "\<lparr>s_ptr = ?q, s_len = 0, s_cap = k\<rparr>"
  have kpos: "0 < k" "k \<le> maxAlloc"
    using k l assms(4,7) by (auto simp: maxAlloc_def)
  have mk: "MakeBytes poly rt w (ab_ctx b) 0 k = (w1, Ok ?nb)"
    using kpos by (simp add: MakeBytes_def assms(1) make_T_def w1_def)
  have sp: "in_space ?q (nat k)" "slice_span p \<inter> span ?q (nat k) = {}"
    using new_bytes_le [OF assms(8), of "nat k"] k(3) by simp_all
  have same: "slice_bytes (aw_mem w1) p = slice_bytes (aw_mem w) p"
    by (rule slice_bytes_cong [OF assms(3)]) (use sp in \<open>auto simp: w1_def intro!: write_bytes_other\<close>)
  obtain m' where M: "alloc_Write poly rt (w, b) p = ((w1\<lparr>aw_mem := m'\<rparr>, b\<lparr>ab_buf := ?nb\<lparr>s_len := ?n\<rparr>\<rparr>), Ok (s_len p))"
    "slice_bytes m' (?nb\<lparr>s_len := ?n\<rparr>) = read_bytes (aw_mem w1) ?q (nat ?l) @ slice_bytes (aw_mem w) p"
    "slice_ok (?nb\<lparr>s_len := ?n\<rparr>)"
    by (rule alloc_Write_grows [OF assms(2-4) _ _ k(1,2) mk]) (use False assms(7) sp same in auto)
  have kl: "nat k = nat ?l + nat (k - ?l)"
    using k(2) l(1) assms(4) by simp
  have "read_bytes (aw_mem w1) ?q (nat k) = replicate (nat k) 0"
    using read_write_bytes [of ?q "replicate (nat k) 0" "aw_mem w"] sp(1) by (simp add: w1_def)
  then have "read_bytes (aw_mem w1) ?q (nat ?l) = replicate (nat ?l) 0"
    unfolding kl read_bytes_append replicate_add by (simp add: append_eq_append_conv)
  with M that [of "w1\<lparr>aw_mem := m'\<rparr>" "b\<lparr>ab_buf := ?nb\<lparr>s_len := ?n\<rparr>\<rparr>"] False k(1) show thesis
    by simp
qed

text \<open>
  C31: \<open>Write\<close> on a buffer without an allocator returns the length of its argument and appends it when
  it fits the capacity. When the buffer has to grow, the bytes written earlier are lost: the buffer
  then shows as many zeros, followed by the new bytes. (\<open>grow\<close> copies into a slice of length 0.)
\<close>

theorem alloc_Write_loses:
  assumes "alloc_FromContext (ab_ctx b) = None" "slice_ok (ab_buf b)" "slice_ok p" "0 < s_len p"
    and "slice_span p \<inter> free_tail (ab_buf b) = {}" "s_cap (ab_buf b) \<le> 2 ^ 46" "s_len (ab_buf b) + s_len p \<le> 2 ^ 46"
    and "new_bytes_ok (rt_ptr rt) (s_len (ab_buf b) + s_len p) p"
  shows "case alloc_Write poly rt (w, b) p of
      ((w', b'), Ok n) \<Rightarrow> n = s_len p \<and> slice_bytes (aw_mem w') (alloc_Bytes b') =
        (if s_len (ab_buf b) + s_len p \<le> s_cap (ab_buf b) then slice_bytes (aw_mem w) (alloc_Bytes b)
         else replicate (nat (s_len (ab_buf b))) 0) @ slice_bytes (aw_mem w) p
    | _ \<Rightarrow> False"
  by (rule alloc_Write_heap_aux [OF assms, of poly w]) (simp add: alloc_Bytes_def)

lemma read_byte_slice: "in_space cp (length bs) \<Longrightarrow> slice_bytes (write_bytes m cp bs) (byte_slice cp bs) = bs"
  by (simp add: slice_bytes_def byte_slice_def read_write_bytes)

lemma grown_cap_64: "0 < n \<Longrightarrow> n \<le> 64 \<Longrightarrow> grown_cap 0 n = Some 64"
  by (simp add: grown_cap_def grow_loop.simps)

text \<open>
  \<open>ReadAll\<close> loses the beginning of what it reads. When a reader delivers at most 64 bytes first
  and then enough to pass 64 bytes, \<open>ReadAll\<close> without an allocator returns no error and a slice of
  the right length, whose first part is zeros instead of what was read.
\<close>

lemma alloc_ReadAll_loses:
  assumes "alloc_FromContext c = None" "bs1 \<noteq> []" "length bs1 \<le> 64" "64 < length bs1 + length bs2"
    and "length bs1 + length bs2 \<le> 2 ^ 46" "in_space cp (length bs1)" "in_space cp (length bs2)"
    and "new_bytes_ok (rt_ptr rt1) 64 (byte_slice cp bs1)" "span (rt_ptr rt1) 64 \<inter> span cp (length bs2) = {}"
    and "new_bytes_ok (rt_ptr rt2) (int (length bs1 + length bs2)) (byte_slice cp bs2)"
  shows "case ReadAll poly cp w c [(rt1, bs1), (rt2, bs2)] None of
      (w', Ok s) \<Rightarrow> slice_bytes (aw_mem w') s = replicate (length bs1) 0 @ bs2
    | _ \<Rightarrow> False"
proof -
  let ?w = "w\<lparr>aw_mem := write_bytes (aw_mem w) cp bs1\<rparr>" and ?b = "alloc_NewBuffer c"
  have ctx: "alloc_FromContext (ab_ctx ?b) = None" and e: "ab_buf ?b = empty_slice"
    using assms(1) by (simp_all add: alloc_NewBuffer_def)
  have ok: "slice_ok (byte_slice cp bs1)" "slice_ok (byte_slice cp bs2)" "0 < s_len (byte_slice cp bs1)"
    using assms(2,6,7) by (simp_all add: slice_ok_def byte_slice_def)
  have emp: "s_len (ab_buf ?b) = 0" "s_cap (ab_buf ?b) = 0" "free_tail (ab_buf ?b) = {}"
    by (simp_all add: e empty_slice_def free_tail_def cap_span_def span_def)
  have n1: "new_bytes_ok (rt_ptr rt1) (s_len (ab_buf ?b) + s_len (byte_slice cp bs1)) (byte_slice cp bs1)"
    using new_bytes_le [OF assms(8), of "nat (2 * int (length bs1) + 64)"] assms(3)
    by (simp add: new_bytes_ok_def emp byte_slice_def)
  obtain w1 b1 where W1: "alloc_Write poly rt1 (?w, ?b) (byte_slice cp bs1) = ((w1, b1), Ok (s_len (byte_slice cp bs1)))"
    "ab_ctx b1 = ab_ctx ?b"
    "s_len (ab_buf ?b) + s_len (byte_slice cp bs1) > s_cap (ab_buf ?b) \<Longrightarrow> slice_ok (ab_buf b1) \<and>
       s_len (ab_buf b1) = s_len (ab_buf ?b) + s_len (byte_slice cp bs1) \<and> s_ptr (ab_buf b1) = rt_ptr rt1 \<and>
       grown_cap (s_cap (ab_buf ?b)) (s_len (ab_buf ?b) + s_len (byte_slice cp bs1)) = Some (s_cap (ab_buf b1))"
    by (rule alloc_Write_heap_aux [OF ctx _ ok(1,3) _ _ _ n1, of poly ?w]) (use e emp assms(3) in \<open>auto simp: byte_slice_def\<close>)
  have len1: "s_len (byte_slice cp bs1) = int (length bs1)" "s_len (byte_slice cp bs2) = int (length bs2)" "0 < length bs1" "0 < length bs2"
    using assms(2-4) by (auto simp: byte_slice_def)
  have b1: "slice_ok (ab_buf b1)" "s_len (ab_buf b1) = int (length bs1)" "s_cap (ab_buf b1) = 64" "s_ptr (ab_buf b1) = rt_ptr rt1"
    using W1(3) len1 assms(3) grown_cap_64 [of "int (length bs1)"] by (auto simp: emp)
  have "free_tail (ab_buf b1) \<subseteq> span (rt_ptr rt1) 64"
    using b1 by (auto simp: free_tail_def cap_span_def)
  then have ap: "slice_span (byte_slice cp bs2) \<inter> free_tail (ab_buf b1) = {}"
    using assms(9) by (auto simp: slice_span_def byte_slice_def)
  have n2: "new_bytes_ok (rt_ptr rt2) (s_len (ab_buf b1) + s_len (byte_slice cp bs2)) (byte_slice cp bs2)"
    using assms(10) len1 b1(2) by simp
  let ?w1 = "w1\<lparr>aw_mem := write_bytes (aw_mem w1) cp bs2\<rparr>"
  obtain w2 b2 where W2: "alloc_Write poly rt2 (?w1, b1) (byte_slice cp bs2) = ((w2, b2), Ok (s_len (byte_slice cp bs2)))"
    "slice_bytes (aw_mem w2) (ab_buf b2) =
       (if s_len (ab_buf b1) + s_len (byte_slice cp bs2) \<le> s_cap (ab_buf b1) then slice_bytes (aw_mem ?w1) (ab_buf b1)
        else replicate (nat (s_len (ab_buf b1))) 0) @ slice_bytes (aw_mem ?w1) (byte_slice cp bs2)"
    by (rule alloc_Write_heap_aux [OF _ b1(1) ok(2) _ ap _ _ n2, of poly ?w1]) (use ctx W1(2) len1 b1 assms(5) in auto)
  have "slice_bytes (aw_mem w2) (ab_buf b2) = replicate (length bs1) 0 @ bs2"
    using W2(2) b1 len1 assms(4) read_byte_slice [OF assms(7), of "aw_mem w1"] by simp
  then show ?thesis
    by (simp add: ReadAll_def W1(1) W2(1) alloc_Bytes_def)
qed

section \<open>Stale memory\<close>

lemma balloc_Alloc_fixed:
  "Pandiagonal (fst (balloc_Alloc poly b sz m tid cid)) = Pandiagonal b \<and> Scale (fst (balloc_Alloc poly b sz m tid cid)) = Scale b \<and>
   payloadBase (fst (balloc_Alloc poly b sz m tid cid)) = payloadBase b \<and> payloadEnd (fst (balloc_Alloc poly b sz m tid cid)) = payloadEnd b \<and>
   nodeBase (fst (balloc_Alloc poly b sz m tid cid)) = nodeBase b \<and> nodeEnd (fst (balloc_Alloc poly b sz m tid cid)) = nodeEnd b"
  by (auto simp: balloc_Alloc_def alloc_node_def newNode_def Let_def split: option.splits outcome.splits)

text \<open>An allocator that was just reset places a block where a new one does.\<close>

definition rewound :: "BlockAllocator \<Rightarrow> bool" where
  "rewound b \<longleftrightarrow> freeList b = 0 \<and> bump b = payloadBase b \<and> nodeBump b = nodeBase b \<and> closed b = 0"

lemma balloc_New_rewound: "balloc_New scale mm n = Ok b \<Longrightarrow> rewound b"
  by (auto simp: balloc_New_def rewound_def Let_def split: if_splits sum.splits)

lemma reset_Alloc_same:
  assumes "balloc_inv b" "rewound b" "no_wrap b sz" "sz \<noteq> 0"
    and b1_def: "b1 = fst (balloc_Alloc poly b sz m tid cid)"
  shows "snd (balloc_Alloc poly (fst (balloc_Reset b1)) sz m tid cid) = snd (balloc_Alloc poly b sz m tid cid)"
    "balloc_inv (fst (balloc_Reset b1))" "closed b1 = 0" "no_wrap (fst (balloc_Reset b1)) sz"
proof -
  have inv1: "balloc_inv b1"
    using balloc_inv_Alloc(1) [OF assms(1,3) prod.collapse [symmetric]] by (simp add: b1_def)
  show c1: "closed b1 = 0"
    using assms(2) by (simp add: b1_def balloc_Alloc_closed rewound_def)
  note F = balloc_Alloc_fixed [of poly b sz m tid cid, folded b1_def]
  have R: "fst (balloc_Reset b1) = b1\<lparr>MemTree := 0, freeList := 0, bump := payloadBase b1, nodeBump := nodeBase b1, activeBlocks := 0\<rparr>"
    using c1 by (simp add: balloc_Reset_def)
  show inv2: "balloc_inv (fst (balloc_Reset b1))"
    using inv1 by (rule balloc_inv_Reset)
  show nw: "no_wrap (fst (balloc_Reset b1)) sz"
    using assms(2,3) F by (simp add: R no_wrap_def rewound_def)
  have P: "balloc_place (fst (balloc_Reset b1)) sz = balloc_place b sz"
    using assms(2) F by (simp add: R balloc_place_def balloc_head_def rewound_def)
  have B: "balloc_Bucket poly (fst (balloc_Reset b1)) tid cid = balloc_Bucket poly b tid cid"
    using F by (simp add: R balloc_Bucket_def)
  have "closed (fst (balloc_Reset b1)) = closed b"
    using assms(2) c1 by (simp add: R rewound_def)
  then show "snd (balloc_Alloc poly (fst (balloc_Reset b1)) sz m tid cid) = snd (balloc_Alloc poly b sz m tid cid)"
    unfolding balloc_Alloc_value [OF assms(1,3)] balloc_Alloc_value [OF inv2 nw] P B by simp
qed

lemma alloc_New_address:
  assumes "alloc_FromContext c = Some ref" "esz \<noteq> 0"
  shows "alloc_New poly rt esz w c = (w1, Ok p) \<longleftrightarrow>
    (\<exists>k. world_Alloc poly rt w ref esz 1 0 0 = (w1, Ok (p, k))) \<and> unsafe_Slice p esz 1 = Ok \<lparr>s_ptr = p, s_len = 1, s_cap = 1\<rparr>"
proof -
  obtain w' r where W: "world_Alloc poly rt w ref esz 1 0 0 = (w', r)" by fastforce
  show ?thesis
  proof (cases r)
    case (Ok qk)
    obtain q k where q: "qk = (q, k)" by fastforce
    show ?thesis
      using assms by (auto simp: alloc_New_def MakeSlice_def W Ok q unsafe_Slice_def slice_upto_def)
  qed (use assms in \<open>simp_all add: alloc_New_def MakeSlice_def W\<close>)
qed

lemma balloc_world_Alloc:
  assumes "aw_objs w ref = Some (BallocWrapper b)"
  shows "world_Alloc poly rt w ref sz m tid cid =
    (w\<lparr>aw_objs := (aw_objs w)(ref \<mapsto> BallocWrapper (fst (balloc_Alloc poly b sz m tid cid)))\<rparr>, snd (balloc_Alloc poly b sz m tid cid))"
  by (simp add: world_Alloc_def assms Allocator_Alloc_def made_memory_def map_prod_def split_beta)

lemma balloc_block_space:
  assumes "balloc_inv b" "no_wrap b sz" "snd (balloc_Alloc poly b sz m tid cid) = Ok (p, k)"
  shows "in_space p (unat sz)"
proof -
  obtain b' where A: "balloc_Alloc poly b sz m tid cid = (b', Ok (p, k))"
    using assms(3) by (metis prod.collapse)
  obtain s where s: "balloc_blocks b' p = Some (s, normalizeMask m)" "unat sz \<le> unat s"
    using balloc_inv_Alloc(2) [OF assms(1,2) A] by blast
  have inv': "balloc_inv b'"
    using balloc_inv_Alloc(1) [OF assms(1,2) A] .
  have "unat p + unat s \<le> unat (payloadEnd b')"
    using balloc_inv_block [OF inv' s(1)] by simp
  with s(2) unat_lt_u64 [of "payloadEnd b'"] show ?thesis
    by (simp add: in_space_def del: unat_lt_u64)
qed

text \<open>
  \<open>New\<close> does not return a zero value. When a block allocator made by \<open>NewBalloc\<close> has served \<open>New\<close>,
  the value was filled in, and the pool has taken the allocator back, the next \<open>New\<close> of that size
  returns the same address with the bytes of the previous user still there.
\<close>

lemma alloc_New_stale:
  assumes "mmap_ok mm" "0 < scale" "scale < 2 ^ 63" "NewBalloc scale mm n = Ok (BallocWrapper b)"
    and "alloc_FromContext c = Some ref" "aw_objs w ref = Some (BallocWrapper b)" "0 < unat esz" "no_wrap b esz"
    and "alloc_New poly rt esz w c = (w1, Ok p)" "length bs = unat esz"
    and "alloc_Pool_Put scale poly (w1\<lparr>aw_mem := write_bytes (aw_mem w1) p bs\<rparr>) ref = (w2, Ok ())"
  shows "\<exists>w3. alloc_New poly rt' esz w2 c = (w3, Ok p) \<and> read_bytes (aw_mem w3) p (unat esz) = bs"
proof -
  have New: "balloc_New scale mm n = Ok b"
    using assms(4) by (cases "balloc_New scale mm n") (auto simp: NewBalloc_def)
  have inv: "balloc_inv b"
    using balloc_inv_New [OF assms(1-3) New] .
  have z: "esz \<noteq> 0"
    using assms(7) by auto
  let ?A = "balloc_Alloc poly b esz 1 0 0"
  note S = reset_Alloc_same [OF inv balloc_New_rewound [OF New] assms(8) z refl, of poly 1 0 0]
  from assms(9) obtain k where k: "snd ?A = Ok (p, k)" "w1 = w\<lparr>aw_objs := (aw_objs w)(ref \<mapsto> BallocWrapper (fst ?A))\<rparr>"
    and u: "unsafe_Slice p esz 1 = Ok \<lparr>s_ptr = p, s_len = 1, s_cap = 1\<rparr>"
    unfolding alloc_New_address [OF assms(5) z] by (auto simp: balloc_world_Alloc [OF assms(6)])
  let ?b2 = "fst (balloc_Reset (fst ?A))"
  have "snd (balloc_Reset (fst ?A)) = Ok ()"
    using S(3) by (simp add: balloc_Reset_def)
  then have w2: "w2 = w1\<lparr>aw_mem := write_bytes (aw_mem w1) p bs, aw_objs := (aw_objs w1)(ref \<mapsto> BallocWrapper ?b2), aw_pool := ref # aw_pool w1\<rparr>"
    using assms(11) by (simp add: alloc_Pool_Put_def k(2) Allocator_Reset_def ballocWrapper_Reset_def map_prod_def split_beta)
  have o2: "aw_objs w2 ref = Some (BallocWrapper ?b2)"
    by (simp add: w2)
  let ?w3 = "w2\<lparr>aw_objs := (aw_objs w2)(ref \<mapsto> BallocWrapper (fst (balloc_Alloc poly ?b2 esz 1 0 0)))\<rparr>"
  have "alloc_New poly rt' esz w2 c = (?w3, Ok p)"
    unfolding alloc_New_address [OF assms(5) z] using S(1) k(1) u by (simp add: balloc_world_Alloc [OF o2])
  moreover have "read_bytes (aw_mem ?w3) p (unat esz) = bs"
    using read_write_bytes [of p bs "aw_mem w1"] balloc_block_space [OF inv assms(8) k(1)] assms(10) by (simp add: w2)
  ultimately show ?thesis by blast
qed

section \<open>Examples\<close>

definition sample_rt :: go_rt where
  "sample_rt = \<lparr>rt_ptr = 0xC000, rt_node = 0xD000, rt_choice = None\<rparr>"

definition sample_world :: alloc_world where
  "sample_world = \<lparr>aw_mem = (\<lambda>_. 7), aw_objs = [0xA000 \<mapsto> ArenaWrapper sample_arena, 0xB000 \<mapsto> BallocWrapper sample_balloc], aw_pool = []\<rparr>"

lemma sample_arena_iface: "alloc_inv 8 (ArenaWrapper sample_arena)"
  using factory_inv(1) [of 8 "0x11B" "ArenaFactory 8 0x11B" sample_mmap "ArenaWrapper sample_arena"] sample_mmap_ok
  by (simp add: is_factory_def ArenaFactory_def alloc_NewArena_def sample_arena_New)

lemma sample_arena_ready: "unat sz \<le> 4096 \<Longrightarrow> alloc_ready (ArenaWrapper sample_arena) (sz, m, tid, cid, sample_rt)"
  using sint_eq_unat [of sz]
  by (simp add: alloc_ready_def maxAlloc_def gc_ok_def sample_arena_def in_tree_def in_space_def arena_used_def sample_rt_def
      del: of_nat_unat)

lemma sample_bucket: obtains k where "balloc_Bucket 0x11B sample_balloc 0 0 = Ok k"
proof -
  obtain A where A: "balloc_refines sample_balloc A"
    using sample_inv by (auto simp: balloc_inv_def)
  have "no_wrap sample_balloc 8"
    by (simp add: no_wrap_def sample_fields)
  from balloc_Alloc_sim [OF A this, of "0x11B" 0 0 1] that show thesis
    by (auto simp: sample_fields)
qed

lemma sample_first_block:
  assumes "0 < unat sz" "unat sz \<le> 4096"
  obtains k where "snd (balloc_Alloc 0x11B sample_balloc sz 1 0 0) = Ok (0x38000, k)"
proof -
  obtain k where k: "balloc_Bucket 0x11B sample_balloc 0 0 = Ok k"
    by (rule sample_bucket)
  have nw: "no_wrap sample_balloc sz"
    using assms(2) by (simp add: no_wrap_def sample_fields)
  have "balloc_place sample_balloc sz = Some 0x38000"
    using assms(2) round8_bounds [of "unat sz"] by (simp add: balloc_place_def balloc_head_def sample_fields)
  moreover have "sz \<noteq> 0"
    using assms(1) by auto
  ultimately show thesis
    using balloc_Alloc_value [OF sample_inv nw, of "0x11B" 1 0 0] k that by (simp add: sample_fields)
qed

lemma alloc_MakeSlice_block_example:
  "case MakeSlice 0x11B sample_rt 8 sample_world (WithAllocator [] 0xA000) 10 16 of
     (w', Ok s) \<Rightarrow> s_len s = 10 \<and> s_cap s = 16 \<and> s_ptr s \<noteq> 0
   | (w', Err e) \<Rightarrow> (\<exists>a'. aw_objs w' 0xA000 = Some a' \<and> alloc_inv 8 a')
   | _ \<Rightarrow> False"
proof -
  have "aw_objs sample_world 0xA000 = Some (ArenaWrapper sample_arena)"
    by (simp add: sample_world_def)
  moreover have "alloc_ready (ArenaWrapper sample_arena) (8 * word_of_int 16, 1, 0, 0, sample_rt)"
    by (rule sample_arena_ready) simp
  ultimately show ?thesis
    using alloc_MakeSlice_block [OF _ _ sample_arena_iface, of "WithAllocator [] 0xA000" "0xA000" sample_world 8 16 sample_rt 10 "0x11B"]
    by (auto split: prod.splits outcome.splits)
qed

theorem alloc_Write_loses_witness:
  "case alloc_Write 0x11B sample_rt (sample_world, \<lparr>ab_ctx = [], ab_buf = \<lparr>s_ptr = 0x1000, s_len = 60, s_cap = 64\<rparr>, ab_rOff = 0\<rparr>)
      \<lparr>s_ptr = 0x2000, s_len = 10, s_cap = 10\<rparr> of
     ((w', b'), Ok n) \<Rightarrow> n = 10 \<and> take 60 (slice_bytes (aw_mem w') (alloc_Bytes b')) = replicate 60 0
   | _ \<Rightarrow> False"
  using alloc_Write_loses [where b = "\<lparr>ab_ctx = [], ab_buf = \<lparr>s_ptr = 0x1000, s_len = 60, s_cap = 64\<rparr>, ab_rOff = 0\<rparr>"
      and p = "\<lparr>s_ptr = 0x2000, s_len = 10, s_cap = 10\<rparr>" and rt = sample_rt and poly = "0x11B" and w = sample_world]
  by (auto simp: alloc_FromContext_def ctx_Value_def slice_ok_def in_space_def slice_span_def free_tail_def cap_span_def
      span_def new_bytes_ok_def sample_rt_def split: prod.splits outcome.splits)

lemma alloc_ReadAll_loses_example:
  "case ReadAll 0x11B 0x8000 sample_world [] [(sample_rt, [1, 2]), (\<lparr>rt_ptr = 0xE000, rt_node = 0, rt_choice = None\<rparr>, replicate 70 5)] None of
     (w', Ok s) \<Rightarrow> slice_bytes (aw_mem w') s = 0 # 0 # replicate 70 5
   | _ \<Rightarrow> False"
proof -
  have "new_bytes_ok (rt_ptr sample_rt) 64 (byte_slice 0x8000 [1, 2])"
    "new_bytes_ok (rt_ptr \<lparr>rt_ptr = 0xE000, rt_node = 0, rt_choice = None\<rparr>) (int (length [1, 2 :: byte] + length (replicate 70 (5 :: byte))))
       (byte_slice 0x8000 (replicate 70 5))"
    "span (rt_ptr sample_rt) 64 \<inter> span 0x8000 (length (replicate 70 (5 :: byte))) = {}"
    by (auto simp: new_bytes_ok_def sample_rt_def byte_slice_def slice_span_def span_def in_space_def)
  from alloc_ReadAll_loses [OF _ _ _ _ _ _ _ this(1,3,2), of "[]" "0x11B" sample_world] show ?thesis
    by (simp add: alloc_FromContext_def ctx_Value_def in_space_def del: io_Copy.simps)
qed

lemma alloc_New_stale_example:
  "\<exists>w1 w2 w3. alloc_New 0x11B sample_rt 8 sample_world (WithAllocator [] 0xB000) = (w1, Ok 0x38000) \<and>
     alloc_Pool_Put 8 0x11B (w1\<lparr>aw_mem := write_bytes (aw_mem w1) 0x38000 [1, 2, 3, 4, 5, 6, 7, 8]\<rparr>) 0xB000 = (w2, Ok ()) \<and>
     alloc_New 0x11B sample_rt 8 w2 (WithAllocator [] 0xB000) = (w3, Ok 0x38000) \<and>
     read_bytes (aw_mem w3) 0x38000 8 = [1, 2, 3, 4, 5, 6, 7, 8]"
proof -
  let ?c = "WithAllocator [] 0xB000"
  have ref: "aw_objs sample_world 0xB000 = Some (BallocWrapper sample_balloc)"
    by (simp add: sample_world_def)
  have nw: "no_wrap sample_balloc 8"
    by (simp add: no_wrap_def sample_fields)
  have New: "NewBalloc 8 sample_mmap 0x40000 = Ok (BallocWrapper sample_balloc)"
    by (simp add: NewBalloc_def sample_New)
  obtain k where A: "snd (balloc_Alloc 0x11B sample_balloc 8 1 0 0) = Ok (0x38000, k)"
    by (rule sample_first_block [of 8]) simp_all
  have u: "unsafe_Slice 0x38000 8 1 = Ok \<lparr>s_ptr = 0x38000, s_len = 1, s_cap = 1\<rparr>"
    by (rule unsafe_Slice_ok) simp_all
  obtain w1 where w1: "w1 = sample_world\<lparr>aw_objs := (aw_objs sample_world)(0xB000 \<mapsto> BallocWrapper (fst (balloc_Alloc 0x11B sample_balloc 8 1 0 0)))\<rparr>"
    by blast
  have N1: "alloc_New 0x11B sample_rt 8 sample_world ?c = (w1, Ok 0x38000)"
    using alloc_New_address [of ?c "0xB000" 8 "0x11B" sample_rt sample_world w1 "0x38000"] u A
    by (simp add: balloc_world_Alloc [OF ref] w1)
  have "closed (fst (balloc_Alloc 0x11B sample_balloc 8 1 0 0)) = 0"
    by (simp add: balloc_Alloc_closed sample_fields)
  then obtain w2 where P: "alloc_Pool_Put 8 0x11B (w1\<lparr>aw_mem := write_bytes (aw_mem w1) 0x38000 [1, 2, 3, 4, 5, 6, 7, 8]\<rparr>) 0xB000 = (w2, Ok ())"
    by (simp add: alloc_Pool_Put_def w1 Allocator_Reset_def ballocWrapper_Reset_def balloc_Reset_def)
  from alloc_New_stale [OF sample_mmap_ok _ _ New _ ref _ nw N1 _ P, of sample_rt] N1 P show ?thesis
    by auto
qed

end
