(* ===== verification/Pure_Http.thy ===== *)
theory Pure_Http
  imports Pure_Buffer Go_Context
begin

text \<open>
  The pool, the HTTP middleware and the JSON encoder of the package pure (pure/arena.go,
  pure/http.go, pure/json.go). Arenas are reached through pointers here, so a world holds the
  arenas by address, the memory, and the pool. The handler that the middleware wraps and the
  encoding of \<open>encoding/json\<close> are parameters.

  Shown here: whatever a handler does with its own arena, and also when it panics, the arena comes
  back empty to the pool, and every request starts with an empty arena that nobody else holds;
  \<open>MarshalJSON\<close> returns exactly the bytes of \<open>json.Marshal\<close>, in memory outside the arena.
\<close>

section \<open>Pool and middleware\<close>

record pure_world =
  w_mem :: mem
  w_arenas :: "uintptr \<rightharpoonup> PureArena"
  w_pool :: "uintptr list"
  w_size :: int

definition pure_NewPool :: "mem \<Rightarrow> (uintptr \<rightharpoonup> PureArena) \<Rightarrow> int \<Rightarrow> pure_world" where
  "pure_NewPool m as sz = \<lparr>w_mem = m, w_arenas = as, w_pool = [], w_size = sz\<rparr>"

text \<open>\<open>self\<close> and \<open>p\<close> are the addresses the runtime gives a new arena and its slab.\<close>

definition pure_Pool_Get :: "pure_world \<Rightarrow> nat option \<Rightarrow> uintptr \<Rightarrow> uintptr \<Rightarrow> (pure_world \<times> uintptr) outcome" where
  "pure_Pool_Get w c self p =
     (case pool_take c (w_pool w) of
        Some (a, rest) \<Rightarrow> Ok (w\<lparr>w_pool := rest\<rparr>, a)
      | None \<Rightarrow>
          obind (pure_New (w_mem w) p (w_size w)) (\<lambda>(m, a).
            Ok (w\<lparr>w_mem := m, w_arenas := (w_arenas w)(self \<mapsto> a)\<rparr>, self)))"

definition pure_Pool_Put :: "pure_world \<Rightarrow> uintptr \<Rightarrow> pure_world outcome" where
  "pure_Pool_Put w a =
     (case w_arenas w a of
        None \<Rightarrow> Panic NilDereference
      | Some x \<Rightarrow> Ok (w\<lparr>w_arenas := (w_arenas w)(a \<mapsto> pure_Reset x), w_pool := a # w_pool w\<rparr>))"

definition pure_WithArena :: "ctx \<Rightarrow> uintptr \<Rightarrow> ctx" where
  "pure_WithArena c a = ctx_WithValue c PureKey (ArenaRef a)"

definition pure_FromContext :: "ctx \<Rightarrow> uintptr option" where
  "pure_FromContext c = (case ctx_Value c PureKey of Some (ArenaRef a) \<Rightarrow> Some a | _ \<Rightarrow> None)"

text \<open>The deferred \<open>Put\<close> runs when the handler returns and when it panics.\<close>

definition pure_Middleware ::
  "(pure_world \<Rightarrow> ctx \<Rightarrow> 'req \<Rightarrow> pure_world \<times> 'r outcome) \<Rightarrow>
   pure_world \<Rightarrow> nat option \<Rightarrow> uintptr \<Rightarrow> uintptr \<Rightarrow> ctx \<Rightarrow> 'req \<Rightarrow> pure_world \<times> 'r outcome" where
  "pure_Middleware next w c self p ctx req =
     (case pure_Pool_Get w c self p of
        Err e \<Rightarrow> (w, Err e) | Panic q \<Rightarrow> (w, Panic q) | Diverge \<Rightarrow> (w, Diverge)
      | Ok (w1, a) \<Rightarrow>
          (case next w1 (pure_WithArena ctx a) req of
             (w2, Diverge) \<Rightarrow> (w2, Diverge)
           | (w2, r) \<Rightarrow>
               (case pure_Pool_Put w2 a of
                  Ok w3 \<Rightarrow> (w3, r) | Err e \<Rightarrow> (w2, Err e) | Panic q \<Rightarrow> (w2, Panic q) | Diverge \<Rightarrow> (w2, Diverge))))"

definition pure_MiddlewareFactory ::
  "(pure_world \<Rightarrow> ctx \<Rightarrow> 'req \<Rightarrow> pure_world \<times> 'r outcome) \<Rightarrow>
   pure_world \<Rightarrow> int \<Rightarrow> uintptr \<Rightarrow> uintptr \<Rightarrow> ctx \<Rightarrow> 'req \<Rightarrow> pure_world \<times> 'r outcome" where
  "pure_MiddlewareFactory next w sz self p ctx req =
     (case pure_New (w_mem w) p sz of
        Err e \<Rightarrow> (w, Err e) | Panic q \<Rightarrow> (w, Panic q) | Diverge \<Rightarrow> (w, Diverge)
      | Ok (m, a) \<Rightarrow>
          next (w\<lparr>w_mem := m, w_arenas := (w_arenas w)(self \<mapsto> a)\<rparr>) (pure_WithArena ctx self) req)"

lemma pure_FromContext_With [simp]: "pure_FromContext (pure_WithArena c a) = Some a"
  by (simp add: pure_FromContext_def pure_WithArena_def)

text \<open>Every pooled arena is empty, and no arena is pooled twice.\<close>

abbreviation clean_arena :: "PureArena \<Rightarrow> bool" where
  "clean_arena x \<equiv> pure_inv x \<and> pure_Len x = 0"

definition empty_arena :: "pure_world \<Rightarrow> uintptr \<Rightarrow> bool" where
  "empty_arena w a \<longleftrightarrow> held clean_arena (w_arenas w) a"

definition pool_clean :: "pure_world \<Rightarrow> bool" where
  "pool_clean w \<longleftrightarrow> idle_clean clean_arena (w_pool w) (w_arenas w)"

text \<open>What the runtime promises of the addresses of a new arena, and what a handler must not do:
  touch the pool or the arenas in it, or lose its own arena.\<close>

definition new_arena_ok :: "pure_world \<Rightarrow> uintptr \<Rightarrow> uintptr \<Rightarrow> bool" where
  "new_arena_ok w self p \<longleftrightarrow> w_arenas w self = None \<and> in_space p (nat (w_size w)) \<and> w_size w \<le> maxAlloc"

definition handler_ok :: "(pure_world \<Rightarrow> ctx \<Rightarrow> 'req \<Rightarrow> pure_world \<times> 'r outcome) \<Rightarrow> bool" where
  "handler_ok next \<longleftrightarrow> (\<forall>w ctx req a. pure_FromContext ctx = Some a \<longrightarrow> a \<notin> set (w_pool w) \<longrightarrow> empty_arena w a \<longrightarrow>
     w_pool (fst (next w ctx req)) = w_pool w \<and>
     (\<forall>b \<in> set (w_pool w). w_arenas (fst (next w ctx req)) b = w_arenas w b) \<and>
     (\<exists>x. w_arenas (fst (next w ctx req)) a = Some x \<and> pure_inv x))"

text \<open>The pool is a recycling pool.\<close>

interpretation pure_pool: recycling_pool w_pool w_arenas clean_arena pure_inv
  "\<lambda>w w' a. \<exists>c self p. new_arena_ok w self p \<and> pure_Pool_Get w c self p = Ok (w', a)"
  "\<lambda>w a w'. pure_Pool_Put w a = Ok w'"
proof unfold_locales
  fix w w' a
  assume "\<exists>c self p. new_arena_ok w self p \<and> pure_Pool_Get w c self p = Ok (w', a)"
  then obtain c self p where G: "new_arena_ok w self p" "pure_Pool_Get w c self p = Ok (w', a)" by blast
  show "(\<exists>c. pool_take c (w_pool w) = Some (a, w_pool w') \<and> w_arenas w' = w_arenas w) \<or>
    (w_arenas w a = None \<and> w_pool w' = w_pool w \<and> (\<exists>x. clean_arena x \<and> w_arenas w' = (w_arenas w)(a \<mapsto> x)))"
  proof (cases "pool_take c (w_pool w)")
    case None
    then obtain m x where N: "pure_New (w_mem w) p (w_size w) = Ok (m, x)" "w' = w\<lparr>w_mem := m, w_arenas := (w_arenas w)(self \<mapsto> x)\<rparr>" "a = self"
      using G(2) by (auto simp: pure_Pool_Get_def)
    with pure_inv_New(1,2) [OF N(1)] G(1) show ?thesis
      by (auto simp: new_arena_ok_def)
  next
    case (Some ar)
    with G(2) show ?thesis
      by (cases ar) (auto simp: pure_Pool_Get_def)
  qed
next
  fix w a w' x
  assume "pure_Pool_Put w a = Ok w'" "w_arenas w a = Some x" "pure_inv x"
  moreover from this(3) have "clean_arena (pure_Reset x)"
    by (simp add: pure_inv_def pure_Reset_def pure_Len_def)
  ultimately show "\<exists>x'. clean_arena x' \<and> w_pool w' = a # w_pool w \<and> w_arenas w' = (w_arenas w)(a \<mapsto> x')"
    by (auto simp: pure_Pool_Put_def)
qed

lemma pure_Pool_Get_clean:
  assumes "pool_clean w" "new_arena_ok w self p"
  obtains w1 a where "pure_Pool_Get w c self p = Ok (w1, a)" "pool_clean w1" "empty_arena w1 a" "a \<notin> set (w_pool w1)"
proof -
  have "\<exists>m x. pure_New (w_mem w) p (w_size w) = Ok (m, x)"
    using assms(2) by (auto simp: pure_New_def go_make_def new_arena_ok_def maxAlloc_def max_def Let_def)
  then obtain w1 a where G: "pure_Pool_Get w c self p = Ok (w1, a)"
    by (cases "pool_take c (w_pool w)") (auto simp: pure_Pool_Get_def)
  then have "\<exists>c self p. new_arena_ok w self p \<and> pure_Pool_Get w c self p = Ok (w1, a)"
    using assms(2) by blast
  from pure_pool.got_clean [OF assms(1) [unfolded pool_clean_def] this] that [OF G] show thesis
    by (simp add: pool_clean_def empty_arena_def)
qed

text \<open>
  With any handler that leaves the pool and the pooled arenas alone, the middleware serves
  every request with an arena that is empty, is the one in the request's context and is not in the
  pool; and when the handler has returned or panicked, that arena is back in the pool and all
  arenas of the pool are empty again.
\<close>

lemma pure_Middleware_clean:
  assumes "pool_clean w" "new_arena_ok w self p" "handler_ok next"
  shows "\<exists>w1 a w2 r. next w1 (pure_WithArena ctx a) req = (w2, r) \<and> pure_FromContext (pure_WithArena ctx a) = Some a \<and>
    empty_arena w1 a \<and> a \<notin> set (w_pool w1) \<and>
    (r \<noteq> Diverge \<longrightarrow> (\<exists>w3. pure_Middleware next w c self p ctx req = (w3, r) \<and> pool_clean w3 \<and> a \<in> set (w_pool w3)))"
proof (rule pure_Pool_Get_clean [OF assms(1,2), of c])
  fix w1 a
  assume G: "pure_Pool_Get w c self p = Ok (w1, a)" "pool_clean w1" "empty_arena w1 a" "a \<notin> set (w_pool w1)"
  obtain w2 r where N: "next w1 (pure_WithArena ctx a) req = (w2, r)"
    by fastforce
  from assms(3) [unfolded handler_ok_def, rule_format, of "pure_WithArena ctx a" a w1 req] G(3,4)
  have H: "w_pool w2 = w_pool w1" "\<forall>b \<in> set (w_pool w1). w_arenas w2 b = w_arenas w1 b"
    "\<exists>x. w_arenas w2 a = Some x \<and> pure_inv x"
    by (auto simp: N)
  then obtain x where x: "w_arenas w2 a = Some x" "pure_inv x" by blast
  let ?w3 = "w2\<lparr>w_arenas := (w_arenas w2)(a \<mapsto> pure_Reset x), w_pool := a # w_pool w2\<rparr>"
  have "pure_Pool_Put w2 a = Ok ?w3"
    using x(1) by (simp add: pure_Pool_Put_def)
  from pure_pool.put_clean [OF G(2) [unfolded pool_clean_def] G(4) H(1,2) x this] have "pool_clean ?w3"
    by (simp add: pool_clean_def)
  moreover have "pure_Middleware next w c self p ctx req = (?w3, r)" if "r \<noteq> Diverge"
    using that x(1) by (cases r) (simp_all add: pure_Middleware_def G(1) N pure_Pool_Put_def)
  ultimately show ?thesis
    using N G(3,4) by (intro exI [of _ w1] exI [of _ a] exI [of _ w2] exI [of _ r]) auto
qed

text \<open>A handler that takes 100 bytes of its arena and panics.\<close>

definition sample_handler :: "pure_world \<Rightarrow> ctx \<Rightarrow> nat \<Rightarrow> pure_world \<times> nat outcome" where
  "sample_handler w ctx req =
     (case pure_FromContext ctx of
        None \<Rightarrow> (w, Ok req)
      | Some a \<Rightarrow>
          (case w_arenas w a of
             None \<Rightarrow> (w, Panic NilDereference)
           | Some x \<Rightarrow> (w\<lparr>w_arenas := (w_arenas w)(a \<mapsto> fst (pure_Alloc x 100))\<rparr>, Panic (PanicValue ''handler''))))"

lemma sample_handler_ok: "handler_ok sample_handler"
proof -
  have "pure_inv (fst (pure_Alloc x 100))" if "pure_inv x" "pure_Len x = 0" for x
  proof -
    have "pure_ready x 100"
      using that by (simp add: pure_ready_def pure_Len_def)
    from pure_request_cases(1) [OF that(1) this] show ?thesis
      by (simp add: pure_request_def)
  qed
  then show ?thesis
    unfolding handler_ok_def by (auto simp: sample_handler_def empty_arena_def held_def)
qed

lemma pure_Middleware_clean_example:
  "\<exists>w3. pure_Middleware sample_handler (pure_NewPool (\<lambda>_. 0) Map.empty 256) None 0xA000 0xC000 [] 7 =
     (w3, Panic (PanicValue ''handler'')) \<and> pool_clean w3"
proof -
  let ?w = "pure_NewPool (\<lambda>_. 0) Map.empty 256"
  have "pool_clean ?w" "new_arena_ok ?w 0xA000 0xC000"
    by (simp_all add: pool_clean_def idle_clean_def new_arena_ok_def pure_NewPool_def in_space_def maxAlloc_def)
  from pure_Middleware_clean [OF this sample_handler_ok, of "[]" 7 None] show ?thesis
    by (fastforce simp: sample_handler_def empty_arena_def held_def)
qed

section \<open>JSON\<close>

text \<open>
  \<open>json.Marshal\<close> is the parameter \<open>marshal\<close>; \<open>Encoder.Encode\<close> puts its output, the bytes
  \<open>encode v\<close>, into memory of its own at \<open>scratch\<close> and hands it to the buffer's \<open>Write\<close> in one
  call. \<open>bytes.Clone\<close> copies to new memory at \<open>fresh\<close>. Code point 10 is the newline.
\<close>

definition pure_UnmarshalJSON :: "(byte list \<Rightarrow> 'v outcome) \<Rightarrow> ctx \<Rightarrow> byte list \<Rightarrow> 'v outcome" where
  "pure_UnmarshalJSON unmarshal c data = unmarshal data"

definition bytes_Clone :: "mem \<Rightarrow> uintptr \<Rightarrow> slice \<Rightarrow> mem \<times> slice" where
  "bytes_Clone m fresh b =
     (write_bytes m fresh (slice_bytes m b), \<lparr>s_ptr = fresh, s_len = s_len b, s_cap = s_len b\<rparr>)"

definition strip_newline :: "mem \<Rightarrow> slice \<Rightarrow> slice outcome" where
  "strip_newline m b =
     (if s_len b > 0 \<and> m (s_ptr b + word_of_int (s_len b - 1)) = 10 then slice_upto b (s_len b - 1) else Ok b)"

definition pure_MarshalJSON ::
  "('v \<Rightarrow> go_error + byte list) \<Rightarrow> ('v \<Rightarrow> go_error + byte list) \<Rightarrow> pure_world \<Rightarrow> ctx \<Rightarrow> uintptr \<Rightarrow> uintptr \<Rightarrow> 'v
   \<Rightarrow> pure_world \<times> slice outcome" where
  "pure_MarshalJSON marshal encode w c scratch fresh v =
     (case pure_FromContext c of
        None \<Rightarrow>
          (case marshal v of
             Inl e \<Rightarrow> (w, Err e)
           | Inr bs \<Rightarrow> (w\<lparr>w_mem := write_bytes (w_mem w) fresh bs\<rparr>,
                        Ok \<lparr>s_ptr = fresh, s_len = int (length bs), s_cap = int (length bs)\<rparr>))
      | Some h \<Rightarrow>
          (case w_arenas w h of
             None \<Rightarrow> (w, Panic NilDereference)
           | Some a \<Rightarrow>
               (case encode v of
                  Inl e \<Rightarrow> (w, Err e)
                | Inr bs \<Rightarrow>
                    let src = \<lparr>s_ptr = scratch, s_len = int (length bs), s_cap = int (length bs)\<rparr> in
                    (case pure_Write (write_bytes (w_mem w) scratch bs, a, pure_NewBuffer) src of
                       ((m1, a1, b1), Ok _) \<Rightarrow>
                         let w1 = w\<lparr>w_mem := m1, w_arenas := (w_arenas w)(h \<mapsto> a1)\<rparr> in
                         (case strip_newline m1 (pure_Bytes b1) of
                            Ok b \<Rightarrow> (let (m2, s) = bytes_Clone m1 fresh b in (w1\<lparr>w_mem := m2\<rparr>, Ok s))
                          | Err e \<Rightarrow> (w1, Err e) | Panic q \<Rightarrow> (w1, Panic q) | Diverge \<Rightarrow> (w1, Diverge))
                     | ((m1, a1, b1), Err e) \<Rightarrow> (w\<lparr>w_mem := m1, w_arenas := (w_arenas w)(h \<mapsto> a1)\<rparr>, Err e)
                     | ((m1, a1, b1), Panic q) \<Rightarrow> (w\<lparr>w_mem := m1, w_arenas := (w_arenas w)(h \<mapsto> a1)\<rparr>, Panic q)
                     | ((m1, a1, b1), Diverge) \<Rightarrow> (w\<lparr>w_mem := m1, w_arenas := (w_arenas w)(h \<mapsto> a1)\<rparr>, Diverge)))))"

text \<open>What the documentation of \<open>encoding/json\<close> says: \<open>Encode\<close> writes the encoding of \<open>Marshal\<close> and a
  newline.\<close>

definition encoder_ok :: "('v \<Rightarrow> go_error + byte list) \<Rightarrow> ('v \<Rightarrow> go_error + byte list) \<Rightarrow> bool" where
  "encoder_ok marshal encode \<longleftrightarrow>
     (\<forall>v. encode v = (case marshal v of Inl e \<Rightarrow> Inl e | Inr bs \<Rightarrow> Inr (bs @ [10])))"

lemma read_last:
  "read_bytes m p n = bs @ [x] \<Longrightarrow> m (p + of_nat (n - 1)) = x"
proof -
  assume r: "read_bytes m p n = bs @ [x]"
  then have n: "n = length bs + 1"
    using length_read_bytes [of m p n] by simp
  have "read_bytes m p (length bs + 1) = read_bytes m p (length bs) @ [m (p + of_nat (length bs))]"
    by (simp only: read_bytes_append) simp
  with r n show ?thesis
    by simp
qed

lemma strip_newline_bytes:
  assumes "slice_ok b" "slice_bytes m b = bs @ [10]"
  shows "\<exists>s. strip_newline m b = Ok s \<and> slice_bytes m s = bs \<and> s_len s = int (length bs)"
proof -
  have len: "nat (s_len b) = length bs + 1"
    using assms(2) by (metis length_append_singleton length_slice_bytes Suc_eq_plus1)
  then have pos: "0 < s_len b" "s_len b - 1 = int (length bs)"
    by auto
  have w: "word_of_int (s_len b - 1) = (of_nat (nat (s_len b) - 1) :: uintptr)"
    unfolding pos(2) len by simp
  have nl: "m (s_ptr b + word_of_int (s_len b - 1)) = 10"
    unfolding w using assms(2) by (intro read_last) (simp add: slice_bytes_def)
  have up: "slice_upto b (s_len b - 1) = Ok \<lparr>s_ptr = s_ptr b, s_len = s_len b - 1, s_cap = s_cap b\<rparr>" (is "_ = Ok ?s")
    using pos assms(1) by (simp add: slice_upto_def slice_ok_def)
  have "slice_bytes m ?s = take (nat (s_len b - 1)) (slice_bytes m b)"
    using pos by (intro slice_bytes_upto [OF _ _ up]) auto
  then have "slice_bytes m ?s = bs"
    using pos(2) assms(2) by simp
  then show ?thesis
    using up nl pos by (simp add: strip_newline_def)
qed

text \<open>
  Whether the first write into a new buffer succeeds: it does when the arena has room for the capacity
  that the buffer asks for.
\<close>

lemma pure_Write_new:
  assumes "pure_inv a" "0 < s_len p" "s_len p < 2 ^ 63" "grown_cap 0 (s_len p) = Some k" "s_len p \<le> k" "pure_ready a k"
  shows "snd (pure_Write (m, a, pure_NewBuffer) p) =
    (if pa_off a + k \<le> s_len (pa_buf a) then Ok (s_len p) else Err Pure_ErrOutOfMemory)"
proof -
  have "i64 (s_len p) = s_len p"
    using assms(2,3) by (intro i64_id) simp_all
  then show ?thesis
    using assms(2,4,5) pure_Alloc_eq [OF assms(1,6)]
    by (simp add: pure_Write_def pure_NewBuffer_def empty_slice_def pure_grow_def pure_append_def slice_upto_def slice_from_def Let_def)
qed

text \<open>
  What the run time and the caller provide for an encoding: the encoder's own memory and the new
  memory of the result lie outside the slab of the arena, and no offset overflows.
\<close>

definition json_ready :: "PureArena \<Rightarrow> uintptr \<Rightarrow> uintptr \<Rightarrow> byte list \<Rightarrow> bool" where
  "json_ready a scratch fresh bs \<longleftrightarrow> int (length bs) < maxAlloc \<and>
     in_space scratch (length bs + 1) \<and> span scratch (length bs + 1) \<inter> cap_span (pa_buf a) = {} \<and>
     in_space fresh (length bs) \<and> span fresh (length bs) \<inter> cap_span (pa_buf a) = {} \<and>
     pure_ready a (2 * int (length bs + 1) + 64)"

text \<open>
  C27: \<open>MarshalJSON\<close> with an arena in the context returns the error of \<open>json.Marshal\<close> and changes nothing,
  or exactly the bytes of \<open>json.Marshal\<close> if the arena has room for the buffer, whose capacity is the one
  that its doubling loop computes, or else ErrOutOfMemory. It never panics.
  The capacity is computed for the encoding and a newline, and the result comes without the newline of
  the encoder. It lies in new memory, so whatever is written to the slab of the arena later does not
  change it.
\<close>

theorem pure_MarshalJSON_marshals:
  assumes "encoder_ok marshal encode" "pure_FromContext c = Some h" "w_arenas w h = Some a" "pure_inv a"
    and "\<And>bs. marshal v = Inr bs \<Longrightarrow> json_ready a scratch fresh bs"
    and "in_space q (length xs)" "span q (length xs) \<subseteq> cap_span (pa_buf a)"
  shows "case marshal v of
      Inl e \<Rightarrow> pure_MarshalJSON marshal encode w c scratch fresh v = (w, Err e)
    | Inr bs \<Rightarrow> \<exists>k w'. grown_cap 0 (int (length bs) + 1) = Some k \<and>
        (if pa_off a + k \<le> s_len (pa_buf a)
         then \<exists>s. pure_MarshalJSON marshal encode w c scratch fresh v = (w', Ok s) \<and>
           slice_bytes (w_mem w') s = bs \<and> slice_bytes (write_bytes (w_mem w') q xs) s = bs
         else pure_MarshalJSON marshal encode w c scratch fresh v = (w', Err Pure_ErrOutOfMemory))"
proof (cases "marshal v")
  case (Inl e)
  then show ?thesis
    using assms(1-3) by (simp add: pure_MarshalJSON_def encoder_ok_def)
next
  case (Inr bs)
  note J = assms(5) [OF Inr, unfolded json_ready_def]
  let ?n = "int (length (bs @ [10]))"
  let ?src = "\<lparr>s_ptr = scratch, s_len = ?n, s_cap = ?n\<rparr>"
  let ?m = "write_bytes (w_mem w) scratch (bs @ [10])"
  have enc: "encode v = Inr (bs @ [10])"
    using assms(1) Inr by (simp add: encoder_ok_def)
  have inv: "pure_buffer_inv a pure_NewBuffer"
    using assms(4) by (simp add: pure_buffer_inv_def pure_NewBuffer_def empty_slice_def slice_ok_def in_space_def
        cap_span_def span_def maxAlloc_def)
  have n: "nat ?n = length bs + 1"
    by simp
  have src: "source_ok a pure_NewBuffer ?src"
    unfolding source_ok_def slice_ok_def slice_span_def slice.simps n using J by (auto simp: free_tail_def cap_span_def
        pure_NewBuffer_def empty_slice_def span_def)
  have rd: "pure_ready a (2 * (s_len (pb_data pure_NewBuffer) + s_len ?src) + 64)"
    using J by (simp add: pure_NewBuffer_def empty_slice_def)
  have bytes: "slice_bytes ?m ?src = bs @ [10]"
    unfolding slice_bytes_def slice.simps n
    using read_write_bytes [of scratch "bs @ [10]" "w_mem w"] J by simp
  obtain k where k: "grown_cap 0 ?n = Some k" "?n \<le> k" "k < 2 * ?n + 64"
    by (rule grown_cap_ends [of 0 ?n]) (use J in \<open>simp_all add: maxAlloc_def\<close>)
  then have "pure_ready a k"
    using J by (simp add: pure_ready_def)
  note W1 = pure_Write_new [OF assms(4), of ?src, unfolded slice.simps, OF _ _ k(1,2) this]
  obtain m1 a1 b1 r where W: "pure_Write (?m, a, pure_NewBuffer) ?src = ((m1, a1, b1), r)"
    by (metis prod_cases3 surj_pair)
  let ?w = "w\<lparr>w_mem := write_bytes m1 fresh bs, w_arenas := (w_arenas w)(h \<mapsto> a1)\<rparr>"
  have r: "r = (if pa_off a + k \<le> s_len (pa_buf a) then Ok ?n else Err Pure_ErrOutOfMemory)"
    using W1 [of ?m] W J by (simp add: maxAlloc_def)
  show ?thesis
  proof (cases "pa_off a + k \<le> s_len (pa_buf a)")
    case True
    have B: "slice_bytes m1 (pure_Bytes b1) = bs @ [10]" "slice_ok (pure_Bytes b1)"
      using pure_Write_appends_aux [OF inv src rd, of ?m] W True bytes
      by (auto simp: r pure_Bytes_def pure_buffer_inv_def pure_NewBuffer_def)
    from strip_newline_bytes [OF B(2,1)] obtain s where
      s: "strip_newline m1 (pure_Bytes b1) = Ok s" "slice_bytes m1 s = bs" "s_len s = int (length bs)" by blast
    have res: "pure_MarshalJSON marshal encode w c scratch fresh v =
        (?w, Ok \<lparr>s_ptr = fresh, s_len = int (length bs), s_cap = int (length bs)\<rparr>)"
      using W True s by (simp add: r pure_MarshalJSON_def assms(2,3) enc bytes_Clone_def Let_def)
    have "read_bytes (write_bytes m1 fresh bs) fresh (length bs) = bs"
      using J by (intro read_write_bytes) simp
    moreover have "read_bytes (write_bytes (write_bytes m1 fresh bs) q xs) fresh (length bs) =
        read_bytes (write_bytes m1 fresh bs) fresh (length bs)"
      by (rule read_bytes_write_other [OF assms(6)]) (use J assms(7) in blast)+
    ultimately show ?thesis
      using True k(1) Inr by (auto simp: res slice_bytes_def add.commute)
  next
    case False
    then show ?thesis
      using W k(1) Inr by (auto simp: r pure_MarshalJSON_def assms(2,3) enc Let_def add.commute)
  qed
qed

text \<open>An encoder of truth values.\<close>

definition sample_marshal :: "bool \<Rightarrow> go_error + byte list" where
  "sample_marshal v = Inr (if v then [116, 114, 117, 101] else [102, 97, 108, 115, 101])"

definition sample_encode :: "bool \<Rightarrow> go_error + byte list" where
  "sample_encode v = (case sample_marshal v of Inl e \<Rightarrow> Inl e | Inr bs \<Rightarrow> Inr (bs @ [10]))"

theorem pure_MarshalJSON_marshals_witness:
  "\<exists>w' s. pure_MarshalJSON sample_marshal sample_encode
       \<lparr>w_mem = (\<lambda>_. 0), w_arenas = [0xA000 \<mapsto> sample_pure], w_pool = [], w_size = 256\<rparr>
       (pure_WithArena [] 0xA000) 0x8000 0x9000 True = (w', Ok s) \<and> slice_bytes (w_mem w') s = [116, 114, 117, 101] \<and>
     slice_bytes (write_bytes (w_mem w') 0xC000 [1, 2]) s = [116, 114, 117, 101]"
proof -
  let ?w = "\<lparr>w_mem = (\<lambda>_. 0), w_arenas = [0xA000 \<mapsto> sample_pure], w_pool = [], w_size = 256\<rparr>"
  have e: "encoder_ok sample_marshal sample_encode" "sample_marshal True = Inr [116, 114, 117, 101]"
    by (auto simp: encoder_ok_def sample_encode_def sample_marshal_def)
  have g: "grown_cap 0 5 = Some 64"
    by (simp add: grown_cap_def grow_loop.simps)
  have "json_ready sample_pure 0x8000 0x9000 bs" if "sample_marshal True = Inr bs" for bs
    using that by (auto simp: sample_marshal_def json_ready_def maxAlloc_def in_space_def cap_span_def sample_pure_def span_def pure_ready_def)
  from pure_MarshalJSON_marshals [OF e(1) _ _ sample_pure_inv this, where c = "pure_WithArena [] 0xA000" and h = "0xA000" and w = ?w and q = "0xC000" and xs = "[1, 2]" and v = True]
  show ?thesis
    by (simp add: e(2) g in_space_def cap_span_def span_def sample_pure_def)
qed

end
