(* ===== verification/Alloc_Http.thy ===== *)
theory Alloc_Http
  imports Alloc_Buffer Pure_Http
begin

text \<open>
  The HTTP middleware and the JSON encoder of the package alloc (alloc/http.go, alloc/json.go). The
  handler that the middleware wraps and \<open>encoding/json\<close> are parameters.

  Shown here: with any of the three backends every request gets an empty allocator of its own, and it
  comes back empty also when the handler panics; what happens to one the handler closes;
  \<open>MarshalJSON\<close> returns the bytes of \<open>json.Marshal\<close>, in memory of the allocator.
\<close>

section \<open>Middleware (http.go)\<close>

text \<open>What the client sees: an error status of the middleware, or what the handler did.\<close>

datatype 'r served = HttpError nat go_error | Served "'r outcome"

text \<open>The deferred \<open>Put\<close> and \<open>Close\<close> run when the handler returns and when it panics.\<close>

definition alloc_Middleware ::
  "factory \<Rightarrow> int \<Rightarrow> u64 \<Rightarrow> (alloc_world \<Rightarrow> ctx \<Rightarrow> 'req \<Rightarrow> alloc_world \<times> 'r outcome) \<Rightarrow> alloc_world \<Rightarrow> nat option
   \<Rightarrow> (int \<Rightarrow> go_error + uintptr \<times> uintptr) \<Rightarrow> uintptr \<Rightarrow> ctx \<Rightarrow> 'req \<Rightarrow> alloc_world \<times> 'r served" where
  "alloc_Middleware factory scale poly next w c mmapAnon self ctx req =
     (case alloc_Pool_Get factory w c mmapAnon self of
        (w1, Err e) \<Rightarrow> (w1, HttpError 500 e)
      | (w1, Panic q) \<Rightarrow> (w1, Served (Panic q))
      | (w1, Diverge) \<Rightarrow> (w1, Served Diverge)
      | (w1, Ok a) \<Rightarrow>
          (case next w1 (WithAllocator ctx a) req of
             (w2, Diverge) \<Rightarrow> (w2, Served Diverge)
           | (w2, r) \<Rightarrow>
               (case alloc_Pool_Put scale poly w2 a of
                  (w3, Ok _) \<Rightarrow> (w3, Served r)
                | (w3, Err e) \<Rightarrow> (w3, Served (Err e))
                | (w3, Panic q) \<Rightarrow> (w3, Served (Panic q))
                | (w3, Diverge) \<Rightarrow> (w3, Served Diverge))))"

definition alloc_MiddlewareFactory ::
  "factory \<Rightarrow> (alloc_world \<Rightarrow> ctx \<Rightarrow> 'req \<Rightarrow> alloc_world \<times> 'r outcome) \<Rightarrow> alloc_world
   \<Rightarrow> (int \<Rightarrow> go_error + uintptr \<times> uintptr) \<Rightarrow> uintptr \<Rightarrow> ctx \<Rightarrow> 'req
   \<Rightarrow> alloc_world \<times> (uintptr \<times> uintptr) list \<times> 'r served" where
  "alloc_MiddlewareFactory factory next w mmapAnon self ctx req =
     (case factory mmapAnon of
        Err e \<Rightarrow> (w, [], HttpError 500 e)
      | Panic q \<Rightarrow> (w, [], Served (Panic q))
      | Diverge \<Rightarrow> (w, [], Served Diverge)
      | Ok a \<Rightarrow>
          (case next (w\<lparr>aw_objs := (aw_objs w)(self \<mapsto> a)\<rparr>) (WithAllocator ctx self) req of
             (w2, Diverge) \<Rightarrow> (w2, [], Served Diverge)
           | (w2, r) \<Rightarrow>
               (case aw_objs w2 self of
                  None \<Rightarrow> (w2, [], Served (Panic NilDereference))
                | Some a' \<Rightarrow>
                    let (a'', unmapped) = Allocator_Close a'
                    in (w2\<lparr>aw_objs := (aw_objs w2)(self \<mapsto> a'')\<rparr>, unmapped, Served r))))"

section \<open>JSON (json.go)\<close>

definition alloc_UnmarshalJSON :: "(byte list \<Rightarrow> 'v outcome) \<Rightarrow> ctx \<Rightarrow> byte list \<Rightarrow> 'v outcome" where
  "alloc_UnmarshalJSON unmarshal c data = unmarshal data"

definition UnmarshalJSONReader :: "('r \<Rightarrow> 'v outcome) \<Rightarrow> ctx \<Rightarrow> 'r \<Rightarrow> 'v outcome" where
  "UnmarshalJSONReader decode c r = decode r"

definition unsafeBytes :: "uintptr \<Rightarrow> int \<Rightarrow> slice" where
  "unsafeBytes addr n = \<lparr>s_ptr = addr, s_len = n, s_cap = n\<rparr>"

text \<open>
  The end of \<open>MarshalJSON\<close>: the bytes go to a block of the allocator, by way of a snapshot, or are
  cloned when it has none. \<open>fresh\<close> is the memory of the snapshot or of the clone; the first \<open>copy\<close> goes
  to a slice that is dropped at once and is left out.
\<close>

definition json_snapshot :: "u64 \<Rightarrow> go_rt \<Rightarrow> alloc_world \<Rightarrow> uintptr \<Rightarrow> uintptr \<Rightarrow> slice \<Rightarrow> alloc_world \<times> slice outcome" where
  "json_snapshot poly rt w a fresh b =
     (case world_Alloc poly rt w a (word_of_int (s_len b)) 1 0 0 of
        (w', Err e) \<Rightarrow> (let (m, s) = bytes_Clone (aw_mem w') fresh b in (w'\<lparr>aw_mem := m\<rparr>, Ok s))
      | (w', Ok (out, _)) \<Rightarrow>
          (case go_make (aw_mem w') fresh (s_len b) (s_len b) of
             Ok (m1, snap) \<Rightarrow>
               let m2 = fst (go_copy m1 snap b);
                   m3 = fst (go_copy m2 (unsafeBytes out (s_len b)) snap)
               in (w'\<lparr>aw_mem := m3\<rparr>, Ok (unsafeBytes out (s_len b)))
           | Err e \<Rightarrow> (w', Err e) | Panic q \<Rightarrow> (w', Panic q) | Diverge \<Rightarrow> (w', Diverge))
      | (w', Panic q) \<Rightarrow> (w', Panic q)
      | (w', Diverge) \<Rightarrow> (w', Diverge))"

text \<open>\<open>scratch\<close> is the memory from which the encoder writes.\<close>

definition alloc_MarshalJSON ::
  "('v \<Rightarrow> go_error + byte list) \<Rightarrow> ('v \<Rightarrow> go_error + byte list) \<Rightarrow> u64 \<Rightarrow> go_rt \<Rightarrow> go_rt \<Rightarrow> alloc_world \<Rightarrow> ctx
   \<Rightarrow> uintptr \<Rightarrow> uintptr \<Rightarrow> 'v \<Rightarrow> alloc_world \<times> slice outcome" where
  "alloc_MarshalJSON marshal encode poly rt1 rt2 w c scratch fresh v =
     (case alloc_FromContext c of
        None \<Rightarrow>
          (case marshal v of
             Inl e \<Rightarrow> (w, Err e)
           | Inr bs \<Rightarrow> (w\<lparr>aw_mem := write_bytes (aw_mem w) fresh bs\<rparr>, Ok (byte_slice fresh bs)))
      | Some a \<Rightarrow>
          (case encode v of
             Inl e \<Rightarrow> (w, Err e)
           | Inr bs \<Rightarrow>
               (case alloc_Write poly rt1 (w\<lparr>aw_mem := write_bytes (aw_mem w) scratch bs\<rparr>, alloc_NewBuffer c) (byte_slice scratch bs) of
                  ((w1, b1), Ok _) \<Rightarrow>
                    (case strip_newline (aw_mem w1) (alloc_Bytes b1) of
                       Ok b \<Rightarrow> json_snapshot poly rt2 w1 a fresh b
                     | Err e \<Rightarrow> (w1, Err e) | Panic q \<Rightarrow> (w1, Panic q) | Diverge \<Rightarrow> (w1, Diverge))
                | ((w1, b1), Err e) \<Rightarrow> (w1, Err e)
                | ((w1, b1), Panic q) \<Rightarrow> (w1, Panic q)
                | ((w1, b1), Diverge) \<Rightarrow> (w1, Diverge))))"

section \<open>Requests\<close>

abbreviation clean_alloc :: "int \<Rightarrow> Allocator \<Rightarrow> bool" where
  "clean_alloc scale x \<equiv> alloc_inv scale x \<and> alloc_used x = {}"

definition empty_allocator :: "int \<Rightarrow> alloc_world \<Rightarrow> uintptr \<Rightarrow> bool" where
  "empty_allocator scale w ref \<longleftrightarrow> held (clean_alloc scale) (aw_objs w) ref"

definition alloc_pool_clean :: "int \<Rightarrow> alloc_world \<Rightarrow> bool" where
  "alloc_pool_clean scale w \<longleftrightarrow> idle_clean (clean_alloc scale) (aw_pool w) (aw_objs w)"

text \<open>
  What a handler must not do: touch the pool or the allocators in it, or close or break its own.
\<close>

definition alloc_handler_ok :: "int \<Rightarrow> (alloc_world \<Rightarrow> ctx \<Rightarrow> 'req \<Rightarrow> alloc_world \<times> 'r outcome) \<Rightarrow> bool" where
  "alloc_handler_ok scale next \<longleftrightarrow>
     (\<forall>w ctx req a. alloc_FromContext ctx = Some a \<longrightarrow> a \<notin> set (aw_pool w) \<longrightarrow> empty_allocator scale w a \<longrightarrow>
        aw_pool (fst (next w ctx req)) = aw_pool w \<and>
        (\<forall>b \<in> set (aw_pool w). aw_objs (fst (next w ctx req)) b = aw_objs w b) \<and>
        (\<exists>x. aw_objs (fst (next w ctx req)) a = Some x \<and> alloc_inv scale x))"

lemma factory_total:
  assumes "is_factory scale poly f" "mmap_ok mm" "0 < scale" "scale < 2 ^ 63"
  shows "(\<exists>a. f mm = Ok a) \<or> (\<exists>e. f mm = Err e)"
proof -
  have B: "(\<exists>b. balloc_New scale mm n = Ok b) \<or> (\<exists>e. balloc_New scale mm n = Err e)" for n
    using balloc_New_answers [OF assms(2-4), of n] by blast
  have A: "\<exists>x. arena_New scale poly = Ok x"
    by (rule arena_New_open [OF assms(3,4), of poly]) blast
  from assms(1) consider "f = ArenaFactory scale poly" | n where "f = BallocFactory scale n" | n where "f = HybridFactory scale n"
    by (auto simp: is_factory_def)
  then show ?thesis
  proof cases
    case 1
    with A show ?thesis by (auto simp: ArenaFactory_def alloc_NewArena_def)
  next
    case (2 n)
    with B [of n] show ?thesis by (auto simp: BallocFactory_def NewBalloc_def)
  next
    case (3 n)
    with B [of n] show ?thesis by (auto simp: HybridFactory_def NewHybrid_def)
  qed
qed

text \<open>What a get relies on: a factory of the package and a new address.\<close>

definition alloc_get :: "int \<Rightarrow> u64 \<Rightarrow> alloc_world \<Rightarrow> alloc_world \<Rightarrow> uintptr \<Rightarrow> bool" where
  "alloc_get scale poly w w' a \<longleftrightarrow>
     (\<exists>f mm c self. is_factory scale poly f \<and> mmap_ok mm \<and> 0 < scale \<and> scale < 2 ^ 63 \<and> aw_objs w self = None \<and>
        alloc_Pool_Get f w c mm self = (w', Ok a))"

interpretation alloc_pool: recycling_pool aw_pool aw_objs "clean_alloc scale" "alloc_inv scale"
  "alloc_get scale poly" "\<lambda>w a w'. alloc_Pool_Put scale poly w a = (w', Ok ())" for scale poly
proof unfold_locales
  fix w w' a
  assume "alloc_get scale poly w w' a"
  then obtain f mm c self where F: "is_factory scale poly f" "mmap_ok mm" "0 < scale" "scale < 2 ^ 63"
    and G: "aw_objs w self = None" "alloc_Pool_Get f w c mm self = (w', Ok a)"
    by (auto simp: alloc_get_def)
  show "(\<exists>c. pool_take c (aw_pool w) = Some (a, aw_pool w') \<and> aw_objs w' = aw_objs w) \<or>
    (aw_objs w a = None \<and> aw_pool w' = aw_pool w \<and> (\<exists>x. clean_alloc scale x \<and> aw_objs w' = (aw_objs w)(a \<mapsto> x)))"
  proof (cases "pool_take c (aw_pool w)")
    case None
    obtain x where x: "f mm = Ok x"
      using G(2) by (cases "f mm") (simp_all add: alloc_Pool_Get_def None)
    have "(w', a) = (w\<lparr>aw_objs := (aw_objs w)(self \<mapsto> x)\<rparr>, self)"
      using G(2) by (auto simp: alloc_Pool_Get_def None x)
    moreover have "clean_alloc scale x"
      using factory_inv [OF F x] by blast
    ultimately show ?thesis
      using G(1) by (intro disjI2) auto
  next
    case (Some ar)
    with G(2) show ?thesis
      by (cases ar) (auto simp: alloc_Pool_Get_def)
  qed
next
  fix w a w' x
  assume P: "alloc_Pool_Put scale poly w a = (w', Ok ())" "aw_objs w a = Some x" "alloc_inv scale x"
  obtain x' where "Allocator_Reset scale poly x = (x', Ok ())" "clean_alloc scale x'"
    using Allocator_Reset_ok [OF P(3), of poly] by (metis prod.collapse)
  then show "\<exists>x'. clean_alloc scale x' \<and> aw_pool w' = a # aw_pool w \<and> aw_objs w' = (aw_objs w)(a \<mapsto> x')"
    using P(1,2) by (auto simp: alloc_Pool_Put_def)
qed

lemma alloc_Pool_Put_ok:
  assumes "aw_objs w a = Some x" "alloc_inv scale x"
  obtains w' where "alloc_Pool_Put scale poly w a = (w', Ok ())"
proof -
  obtain x' where "Allocator_Reset scale poly x = (x', Ok ())"
    using Allocator_Reset_ok [OF assms(2), of poly] by (metis prod.collapse)
  with assms(1) that show thesis
    by (simp add: alloc_Pool_Put_def)
qed

lemma alloc_Pool_Get_clean:
  assumes "is_factory scale poly f" "mmap_ok mm" "0 < scale" "scale < 2 ^ 63" "alloc_pool_clean scale w" "aw_objs w self = None"
  obtains (got) w1 a where "alloc_Pool_Get f w c mm self = (w1, Ok a)" "alloc_pool_clean scale w1" "empty_allocator scale w1 a" "a \<notin> set (aw_pool w1)"
  | (failed) e where "f mm = Err e" "alloc_Pool_Get f w c mm self = (w, Err e)"
proof (cases "\<exists>w1 a. alloc_Pool_Get f w c mm self = (w1, Ok a)")
  case True
  then obtain w1 a where G: "alloc_Pool_Get f w c mm self = (w1, Ok a)" by blast
  with assms have "alloc_get scale poly w w1 a"
    by (auto simp: alloc_get_def)
  from alloc_pool.got_clean [OF assms(5) [unfolded alloc_pool_clean_def] this] got [OF G] show thesis
    by (simp add: alloc_pool_clean_def empty_allocator_def)
next
  case False
  then have "pool_take c (aw_pool w) = None" "\<nexists>a. f mm = Ok a"
    by (auto simp: alloc_Pool_Get_def split: option.splits)
  with factory_total [OF assms(1-4)] failed show thesis
    by (auto simp: alloc_Pool_Get_def)
qed

text \<open>
  C28: the middleware of the package alloc, over a pool of any of the three backends and with any
  handler that keeps to its own open allocator. Unless the factory fails, which is answered with
  status 500 and leaves everything as it was, the handler runs with an allocator in its context from
  which nothing is handed out and which is not in the pool; when the handler has returned or
  panicked, that allocator is back in the pool and everything in the pool is empty again.
\<close>

theorem alloc_Middleware_clean:
  assumes "is_factory scale poly f" "mmap_ok mm" "0 < scale" "scale < 2 ^ 63" "alloc_pool_clean scale w" "aw_objs w self = None"
    and "alloc_handler_ok scale next"
  shows "(\<exists>e. f mm = Err e \<and> alloc_Middleware f scale poly next w c mm self ctx req = (w, HttpError 500 e)) \<or>
    (\<exists>w1 a w2 r. next w1 (WithAllocator ctx a) req = (w2, r) \<and> empty_allocator scale w1 a \<and> a \<notin> set (aw_pool w1) \<and>
       (r = Diverge \<or> (\<exists>w3. alloc_Middleware f scale poly next w c mm self ctx req = (w3, Served r) \<and>
          alloc_pool_clean scale w3 \<and> a \<in> set (aw_pool w3))))"
proof (cases rule: alloc_Pool_Get_clean [OF assms(1-6), of c])
  case (2 e)
  then show ?thesis
    by (simp add: alloc_Middleware_def)
next
  case (1 w1 a)
  obtain w2 r where N: "next w1 (WithAllocator ctx a) req = (w2, r)"
    by fastforce
  from assms(7) [unfolded alloc_handler_ok_def, rule_format, of "WithAllocator ctx a" a w1 req] 1(3,4)
  have H: "aw_pool w2 = aw_pool w1" "\<forall>b \<in> set (aw_pool w1). aw_objs w2 b = aw_objs w1 b"
    "\<exists>x. aw_objs w2 a = Some x \<and> alloc_inv scale x"
    by (auto simp: N)
  then obtain x where x: "aw_objs w2 a = Some x" "alloc_inv scale x" by blast
  obtain w3 where P: "alloc_Pool_Put scale poly w2 a = (w3, Ok ())"
    by (rule alloc_Pool_Put_ok [OF x])
  have "alloc_pool_clean scale w3 \<and> a \<in> set (aw_pool w3)"
    using alloc_pool.put_clean [OF 1(2) [unfolded alloc_pool_clean_def] 1(4) H(1,2) x P] by (simp add: alloc_pool_clean_def)
  moreover have "alloc_Middleware f scale poly next w c mm self ctx req = (w3, Served r)" if "r \<noteq> Diverge"
    using that by (cases r) (simp_all add: alloc_Middleware_def 1(1) N P)
  ultimately show ?thesis
    using N 1(3,4) by (intro disjI2 exI [of _ w1] exI [of _ a] exI [of _ w2] exI [of _ r]) auto
qed

section \<open>Marshalling\<close>

text \<open>
  A call of \<open>Alloc\<close> does not touch the range \<open>X\<close>, live memory of the Go heap: it neither zeroes nor
  returns any of it.
\<close>

definition call_avoids :: "u64 \<Rightarrow> go_rt \<Rightarrow> Allocator \<Rightarrow> uintptr \<Rightarrow> nat set \<Rightarrow> bool" where
  "call_avoids poly rt a sz X \<longleftrightarrow>
     (case Allocator_Alloc poly rt a sz 1 0 0 of
        (a', r) \<Rightarrow> (\<forall>m x. unat x \<in> X \<longrightarrow> made_memory rt a a' sz m x = m x) \<and>
          (case r of Ok (q, k) \<Rightarrow> span q (unat sz) \<inter> X = {} | _ \<Rightarrow> True))"

lemma world_Alloc_step:
  assumes "aw_objs w ref = Some a" "world_Alloc poly rt w ref sz m tid cid = (w', r)"
  shows "aw_objs w' ref = Some (fst (alloc_request poly a (sz, m, tid, cid, rt)))"
    "snd (alloc_request poly a (sz, m, tid, cid, rt)) = map_outcome fst r"
  using assms by (auto simp: world_Alloc_def alloc_request_def split: prod.splits)

lemma world_Alloc_avoids:
  assumes "aw_objs w ref = Some a" "call_avoids poly rt a sz X" "world_Alloc poly rt w ref sz 1 0 0 = (w', r)"
  shows "unat x \<in> X \<Longrightarrow> aw_mem w' x = aw_mem w x" "r = Ok (q, k) \<Longrightarrow> span q (unat sz) \<inter> X = {}"
  using assms by (auto simp: world_Alloc_def call_avoids_def split: prod.splits)

text \<open>The first \<open>Write\<close> to a new buffer.\<close>

lemma alloc_Write_first:
  assumes ctx: "alloc_FromContext c = Some ref" "aw_objs w ref = Some a" "alloc_inv scale a"
    and n: "bs \<noteq> []" "int (length bs) \<le> maxAlloc" "in_space scratch (length bs)" "grown_cap 0 (int (length bs)) = Some k"
    and rd: "alloc_ready a (word_of_int k, 1, 0, 0, rt)"
    and av: "call_avoids poly rt a (word_of_int k) X" "span scratch (length bs) \<subseteq> X"
    and src: "slice_bytes (aw_mem w) (byte_slice scratch bs) = bs"
  obtains (ok) w1 b1 where "alloc_Write poly rt (w, alloc_NewBuffer c) (byte_slice scratch bs) = ((w1, b1), Ok (int (length bs)))"
      "slice_ok (ab_buf b1)" "slice_bytes (aw_mem w1) (ab_buf b1) = bs" "cap_span (ab_buf b1) \<inter> X = {}"
      "aw_objs w1 ref = Some (fst (alloc_request poly a (word_of_int k, 1, 0, 0, rt)))"
      "snd (alloc_request poly a (word_of_int k, 1, 0, 0, rt)) = Ok (s_ptr (ab_buf b1))"
      "cap_span (ab_buf b1) \<subseteq> alloc_used (fst (alloc_request poly a (word_of_int k, 1, 0, 0, rt)))"
      "\<And>x. unat x \<in> alloc_used a \<Longrightarrow> aw_mem w1 x = aw_mem w x"
  | (err) w1 b1 e where "alloc_Write poly rt (w, alloc_NewBuffer c) (byte_slice scratch bs) = ((w1, b1), Err e)"
      "snd (alloc_request poly a (word_of_int k, 1, 0, 0, rt)) = Err e"
proof -
  let ?p = "byte_slice scratch bs" and ?b = "alloc_NewBuffer c" and ?q = "(word_of_int k, 1, 0, 0, rt) :: alloc_request"
  have pl: "s_len ?p = int (length bs)" "s_ptr ?p = scratch" "0 < int (length bs)" "slice_ok ?p"
    using n(1,3) by (auto simp: byte_slice_def slice_ok_def)
  have b: "slice_ok (ab_buf ?b)" "s_len (ab_buf ?b) = 0" "s_cap (ab_buf ?b) = 0" "ab_ctx ?b = c"
    by (simp_all add: alloc_NewBuffer_def) (simp_all add: empty_slice_def)
  have "int (length bs) \<le> 2 ^ 62"
    using n(2) by (simp add: maxAlloc_def)
  from grown_cap_ends [OF _ pl(3) this] n(4) have k: "int (length bs) \<le> k" "k < 2 * int (length bs) + 64"
    by auto
  have kb: "0 < k" "k < 2 ^ 63"
    using k(1) pl(3) by linarith (use k(2) n(2) in \<open>simp add: maxAlloc_def\<close>)
  then have ku: "unat (word_of_int k :: u64) = nat k"
    by (intro unat_word_of_int_u64) auto
  have big: "i64 (int (length bs)) = int (length bs)"
    using n(2) by (intro i64_id) (auto simp: maxAlloc_def)
  show thesis
  proof (cases rule: world_Alloc_cases [OF ctx(2,3) rd, of poly])
    case (1 a' q i mem)
    note St = world_Alloc_step [OF ctx(2) 1(1)] and Av = world_Alloc_avoids [OF ctx(2) av(1) 1(1)]
    let ?w1 = "w\<lparr>aw_objs := (aw_objs w)(ref \<mapsto> a'), aw_mem := mem\<rparr>" and ?nb = "\<lparr>s_ptr = q, s_len = 0, s_cap = k\<rparr>"
    have a': "a' = fst (alloc_request poly a ?q)" "snd (alloc_request poly a ?q) = Ok q"
      using St by simp_all
    have q: "q \<noteq> 0" "in_space q (nat k)"
      using 1(6,7) kb ku by (auto simp: in_space_def)
    have "unsafe_Slice q 1 k = Ok \<lparr>s_ptr = q, s_len = k, s_cap = k\<rparr>"
      using q kb(1) 1(6) ku by (intro unsafe_Slice_ok) auto
    then have mk: "MakeBytes poly rt w (ab_ctx ?b) 0 k = (?w1, Ok ?nb)"
      using kb(1) 1(1) by (simp add: MakeBytes_def ctx(1) b(4) slice_upto_def)
    have X: "span q (nat k) \<inter> X = {}"
      using Av(2) ku by simp
    have ap: "slice_span ?p \<inter> span (s_ptr ?nb) (nat k) = {}"
      using X av(2) by (auto simp: slice_span_def pl)
    have same: "slice_bytes (aw_mem ?w1) ?p = slice_bytes (aw_mem w) ?p"
      using Av(1) av(2) by (intro slice_bytes_cong [OF pl(4)]) (auto simp: slice_span_def pl)
    obtain m' where M: "alloc_Write poly rt (w, ?b) ?p =
        ((?w1\<lparr>aw_mem := m'\<rparr>, ?b\<lparr>ab_buf := ?nb\<lparr>s_len := s_len (ab_buf ?b) + s_len ?p\<rparr>\<rparr>), Ok (s_len ?p))"
      "slice_bytes m' (?nb\<lparr>s_len := s_len (ab_buf ?b) + s_len ?p\<rparr>) =
         read_bytes (aw_mem ?w1) (s_ptr ?nb) (nat (s_len (ab_buf ?b))) @ slice_bytes (aw_mem w) ?p"
      "slice_ok (?nb\<lparr>s_len := s_len (ab_buf ?b) + s_len ?p\<rparr>)"
      "\<And>x. unat x \<notin> span (s_ptr ?nb) (nat k) \<Longrightarrow> m' x = aw_mem ?w1 x"
      by (rule alloc_Write_grows [OF b(1) pl(4) _ _ _ _ _ mk _ _ _ ap same]) (use pl b k n q kb in \<open>auto simp: maxAlloc_def\<close>)
    have fr: "m' x = aw_mem w x" if "unat x \<in> alloc_used a" for x
      using M(4) [of x] 1(3,8) that ku by auto
    show thesis
      by (rule ok [OF M(1) [unfolded b(2) pl(1) add_0]])
         (use M(2,3) [unfolded b(2) pl(1)] fr src 1(4) X a' ku q(2) in \<open>auto simp: cap_span_def\<close>)
  next
    case (2 a' e mem)
    note St = world_Alloc_step [OF ctx(2) 2(1)]
    let ?w1 = "w\<lparr>aw_objs := (aw_objs w)(ref \<mapsto> a'), aw_mem := mem\<rparr>"
    have "MakeBytes poly rt w c 0 k = (?w1, Err e)"
      using kb(1) 2(1) by (simp add: MakeBytes_def ctx(1))
    then have "alloc_Write poly rt (w, ?b) ?p = ((?w1, ?b), Err e)"
      using pl b big by (simp add: alloc_Write_def alloc_grow_def n(4))
    then show thesis
      using St(2) by (intro err) auto
  qed
qed

lemma strip_newline_slice:
  assumes "slice_ok b" "slice_bytes m b = bs @ [10]"
  obtains s where "strip_newline m b = Ok s" "slice_bytes m s = bs" "s_len s = int (length bs)" "slice_ok s" "slice_span s \<subseteq> cap_span b"
proof -
  obtain s where s: "strip_newline m b = Ok s" "slice_bytes m s = bs" "s_len s = int (length bs)"
    using strip_newline_bytes [OF assms] by blast
  have "s_ptr s = s_ptr b" "s_cap s = s_cap b"
    using s(1) by (auto simp: strip_newline_def slice_upto_def split: if_splits)
  moreover have "nat (s_len b) = length bs + 1"
    using length_slice_bytes [of m b] assms(2) by simp
  ultimately have "slice_ok s" "slice_span s \<subseteq> cap_span b"
    using assms(1) s(3) by (auto simp: slice_ok_def slice_span_def cap_span_def span_def)
  with s that show thesis by blast
qed

text \<open>The snapshot and the copy to the block: what is written where.\<close>

lemma snapshot_copy:
  assumes "slice_ok s" "s_len s = int (length bs)" "slice_bytes m s = bs" "int (length bs) \<le> maxAlloc"
    and "in_space fresh (length bs)" "span fresh (length bs) \<inter> slice_span s = {}" "in_space q (length bs)"
  obtains m1 snap where "go_make m fresh (s_len s) (s_len s) = Ok (m1, snap)"
    "slice_bytes (fst (go_copy (fst (go_copy m1 snap s)) (unsafeBytes q (s_len s)) snap)) (unsafeBytes q (s_len s)) = bs"
    "\<And>x. unat x \<notin> span fresh (length bs) \<Longrightarrow> unat x \<notin> span q (length bs) \<Longrightarrow>
       fst (go_copy (fst (go_copy m1 snap s)) (unsafeBytes q (s_len s)) snap) x = m x"
proof -
  let ?n = "int (length bs)" and ?m1 = "write_bytes m fresh (replicate (length bs) 0)"
  let ?snap = "\<lparr>s_ptr = fresh, s_len = int (length bs), s_cap = int (length bs)\<rparr>" and ?out = "unsafeBytes q (int (length bs))"
  have mk: "go_make m fresh (s_len s) (s_len s) = Ok (?m1, ?snap)"
    using assms(2,4) by (simp add: go_make_def)
  have ok: "slice_ok ?snap" "slice_ok ?out"
    using assms(5,7) by (simp_all add: slice_ok_def unsafeBytes_def)
  have "slice_bytes ?m1 s = bs"
    using assms(3) by (subst slice_bytes_cong [OF assms(1), of ?m1 m]) (use assms(5,6) in \<open>auto intro!: write_bytes_other\<close>)
  then have 1: "slice_bytes (fst (go_copy ?m1 ?snap s)) ?snap = bs"
    using go_copy_full [OF ok(1), of s ?m1] assms(2) by simp
  have 2: "slice_bytes (fst (go_copy (fst (go_copy ?m1 ?snap s)) ?out ?snap)) ?out = bs"
    using go_copy_full [OF ok(2), of ?snap] 1 by (simp add: unsafeBytes_def)
  have 3: "fst (go_copy (fst (go_copy ?m1 ?snap s)) ?out ?snap) x = m x"
    if "unat x \<notin> span fresh (length bs)" "unat x \<notin> span q (length bs)" for x
    using that assms(2,5,7) by (simp add: go_copy_def Let_def unsafeBytes_def write_bytes_other)
  show thesis
    by (rule that [OF mk]) (use 2 3 assms(2) in auto)
qed

lemma json_snapshot_result:
  assumes "aw_objs w ref = Some a" "alloc_inv scale a" "alloc_ready a (word_of_int (int (length bs)), 1, 0, 0, rt)"
    and "slice_ok s" "s_len s = int (length bs)" "slice_bytes (aw_mem w) s = bs" "int (length bs) \<le> maxAlloc"
    and "in_space fresh (length bs)" "span fresh (length bs) \<inter> slice_span s = {}" "slice_span s \<subseteq> alloc_used a"
  obtains w' s' a' r where "json_snapshot poly rt w ref fresh s = (w', Ok s')" "slice_bytes (aw_mem w') s' = bs"
    "alloc_request poly a (word_of_int (int (length bs)), 1, 0, 0, rt) = (a', r)" "aw_objs w' ref = Some a'" "alloc_inv scale a'"
    "(\<exists>e. r = Err e) \<and> s_ptr s' = fresh \<or> r = Ok (s_ptr s') \<and> slice_span s' \<subseteq> alloc_used a'"
    "\<And>x. unat x \<in> alloc_used a - span fresh (length bs) \<Longrightarrow> aw_mem w' x = aw_mem w x"
proof -
  have sz: "unat (word_of_int (int (length bs)) :: u64) = length bs"
    using assms(7) by (subst unat_word_of_int_u64) (auto simp: maxAlloc_def)
  show thesis
  proof (cases rule: world_Alloc_cases [OF assms(1-3), of poly])
    case (1 a' q i mem)
    have rq: "alloc_request poly a (word_of_int (int (length bs)), 1, 0, 0, rt) = (a', Ok q)"
      using world_Alloc_step [OF assms(1) 1(1)] by (simp add: prod_eq_iff)
    have sm: "slice_bytes mem s = bs"
      using assms(6,10) 1(8) by (subst slice_bytes_cong [OF assms(4), of mem "aw_mem w"]) auto
    have q: "in_space q (length bs)" "span q (length bs) \<inter> alloc_used a = {}" "span q (length bs) \<subseteq> alloc_used a'"
      using 1(3,4,6) sz by (auto simp: in_space_def)
    show thesis
    proof (rule snapshot_copy [OF assms(4,5) sm assms(7,8,9) q(1)])
      fix m1 snap
      let ?m3 = "fst (go_copy (fst (go_copy m1 snap s)) (unsafeBytes q (s_len s)) snap)"
      assume C: "go_make mem fresh (s_len s) (s_len s) = Ok (m1, snap)" "slice_bytes ?m3 (unsafeBytes q (s_len s)) = bs"
        "\<And>x. unat x \<notin> span fresh (length bs) \<Longrightarrow> unat x \<notin> span q (length bs) \<Longrightarrow> ?m3 x = mem x"
      have J: "json_snapshot poly rt w ref fresh s = (w\<lparr>aw_objs := (aw_objs w)(ref \<mapsto> a'), aw_mem := ?m3\<rparr>, Ok (unsafeBytes q (s_len s)))"
        using 1(1) C(1) by (simp add: json_snapshot_def assms(5) Let_def)
      have fr: "?m3 x = aw_mem w x" if "unat x \<in> alloc_used a - span fresh (length bs)" for x
        using C(3) [of x] 1(8) [of x] q(2) that by auto
      show thesis
        by (rule that [OF J _ rq]) (use 1(2) C(2) q(3) assms(5) fr in \<open>auto simp: slice_span_def unsafeBytes_def\<close>)
    qed
  next
    case (2 a' e mem)
    have rq: "alloc_request poly a (word_of_int (int (length bs)), 1, 0, 0, rt) = (a', Err e)"
      using world_Alloc_step [OF assms(1) 2(1)] by (simp add: prod_eq_iff)
    have "slice_bytes mem s = bs"
      using assms(6,10) 2(4) by (subst slice_bytes_cong [OF assms(4), of mem "aw_mem w"]) auto
    then have "json_snapshot poly rt w ref fresh s =
        (w\<lparr>aw_objs := (aw_objs w)(ref \<mapsto> a'), aw_mem := write_bytes mem fresh bs\<rparr>, Ok (byte_slice fresh bs))"
      using 2(1) by (simp add: json_snapshot_def assms(5) Let_def bytes_Clone_def byte_slice_def)
    then show thesis
      by (rule that [OF _ _ rq]) (use 2(2,4) assms(8) in \<open>auto simp: read_byte_slice byte_slice_def slice_bytes_def read_write_bytes write_bytes_other\<close>)
  qed
qed

text \<open>
  What a call of \<open>MarshalJSON\<close> whose encoding is \<open>bs\<close> needs of the memory: the encoder's line and the
  new memory on the Go heap lie apart from the allocator, and its two requests are ones that it can
  answer.
\<close>

definition marshal_ready :: "u64 \<Rightarrow> go_rt \<Rightarrow> go_rt \<Rightarrow> Allocator \<Rightarrow> uintptr \<Rightarrow> uintptr \<Rightarrow> byte list \<Rightarrow> bool" where
  "marshal_ready poly rt1 rt2 a scratch fresh bs \<longleftrightarrow>
     int (length bs) < maxAlloc \<and> in_space scratch (length bs + 1) \<and> in_space fresh (length bs) \<and>
     alloc_used a \<inter> (span scratch (length bs + 1) \<union> span fresh (length bs)) = {} \<and>
     (case grown_cap 0 (int (length bs) + 1) of
        None \<Rightarrow> True
      | Some k \<Rightarrow>
          run_ready (alloc_request poly) alloc_ready a [(word_of_int k, 1, 0, 0, rt1), (word_of_int (int (length bs)), 1, 0, 0, rt2)] \<and>
          call_avoids poly rt1 a (word_of_int k) (span scratch (length bs + 1) \<union> span fresh (length bs)))"

text \<open>
  C29: \<open>MarshalJSON\<close> with an allocator in the context returns the error of \<open>json.Marshal\<close>, or exactly its
  bytes, in the block that the second of its two requests returned (so a \<open>Reset\<close> takes them away), on
  the Go heap if and only if that request fails, or the error of the first request.
  The first request is for the buffer, of the capacity that its doubling loop computes for the encoding
  and a newline. The bytes come without the newline of the encoder, and memory handed out before keeps
  its contents. The call never panics. The allocator is of any of the three kinds. (The encoder is
  taken to make one call of \<open>Write\<close>, as the one of the standard library does.)
\<close>

theorem alloc_MarshalJSON_marshals:
  assumes "encoder_ok marshal encode" "alloc_FromContext c = Some ref" "aw_objs w ref = Some a" "alloc_inv scale a"
    and "\<And>bs. marshal v = Inr bs \<Longrightarrow> marshal_ready poly rt1 rt2 a scratch fresh bs"
  shows "case marshal v of
      Inl e \<Rightarrow> alloc_MarshalJSON marshal encode poly rt1 rt2 w c scratch fresh v = (w, Err e)
    | Inr bs \<Rightarrow> \<exists>k a1 r1 a2 r2. grown_cap 0 (int (length bs) + 1) = Some k \<and>
        alloc_request poly a (word_of_int k, 1, 0, 0, rt1) = (a1, r1) \<and>
        alloc_request poly a1 (word_of_int (int (length bs)), 1, 0, 0, rt2) = (a2, r2) \<and>
        (case r1 of
           Err e \<Rightarrow> \<exists>w'. alloc_MarshalJSON marshal encode poly rt1 rt2 w c scratch fresh v = (w', Err e)
         | Ok _ \<Rightarrow> \<exists>w' s. alloc_MarshalJSON marshal encode poly rt1 rt2 w c scratch fresh v = (w', Ok s) \<and>
             slice_bytes (aw_mem w') s = bs \<and> aw_objs w' ref = Some a2 \<and> alloc_inv scale a2 \<and>
             (\<forall>x. unat x \<in> alloc_used a \<longrightarrow> aw_mem w' x = aw_mem w x) \<and>
             (case r2 of Ok q \<Rightarrow> s_ptr s = q \<and> slice_span s \<subseteq> alloc_used a2 | Err _ \<Rightarrow> s_ptr s = fresh | _ \<Rightarrow> False)
         | _ \<Rightarrow> False)"
proof (cases "marshal v")
  case (Inl e)
  then show ?thesis
    using assms(1,2) by (simp add: alloc_MarshalJSON_def encoder_ok_def)
next
  case (Inr bs)
  let ?X = "span scratch (length bs + 1) \<union> span fresh (length bs)" and ?bs = "bs @ [10]"
  let ?n = "(word_of_int (int (length bs)), 1, 0, 0, rt2) :: alloc_request"
  note M = assms(5) [OF Inr, unfolded marshal_ready_def]
  have n: "int (length bs) < maxAlloc" "in_space scratch (length bs + 1)" "in_space fresh (length bs)" "alloc_used a \<inter> ?X = {}"
    using M by blast+
  have "(0::int) \<le> 0" "0 < int (length bs) + 1" "int (length bs) + 1 \<le> 2 ^ 62"
    using n(1) by (simp_all add: maxAlloc_def)
  from grown_cap_ends [OF this] obtain k where k: "grown_cap 0 (int (length bs) + 1) = Some k"
    by auto
  let ?r1 = "(word_of_int k, 1, 0, 0, rt1) :: alloc_request"
  let ?w0 = "w\<lparr>aw_mem := write_bytes (aw_mem w) scratch ?bs\<rparr>" and ?a1 = "fst (alloc_request poly a ?r1)"
  have enc: "encode v = Inr ?bs"
    using assms(1) Inr by (simp add: encoder_ok_def)
  have rd: "alloc_ready a ?r1" "alloc_ready ?a1 ?n" "call_avoids poly rt1 a (word_of_int k) ?X"
    using M by (simp_all add: k)
  have w0: "aw_objs ?w0 ref = Some a" "slice_bytes (aw_mem ?w0) (byte_slice scratch ?bs) = ?bs"
    using assms(3) n(2) by (auto simp: read_byte_slice)
  have p: "?bs \<noteq> []" "int (length ?bs) \<le> maxAlloc" "in_space scratch (length ?bs)" "grown_cap 0 (int (length ?bs)) = Some k"
    "span scratch (length ?bs) \<subseteq> ?X"
    using n(1,2) k by (auto simp: add.commute)
  have inv1: "alloc_inv scale ?a1" "alloc_used a \<subseteq> alloc_used ?a1"
    using iface.alloc_invar [OF assms(4) rd(1)] iface.alloc_keep [OF assms(4) rd(1)] by auto
  show ?thesis
  proof (cases rule: alloc_Write_first [OF assms(2) w0(1) assms(4) p(1-4) rd(1,3) p(5) w0(2)])
    case (2 w1 b1 e)
    then show ?thesis
      by (cases "alloc_request poly a ?r1"; cases "alloc_request poly ?a1 ?n")
         (simp add: alloc_MarshalJSON_def assms(2) enc Inr k)
  next
    case (1 w1 b1)
    have keep: "aw_mem w1 x = aw_mem w x" if "unat x \<in> alloc_used a" for x
      using 1(8) [OF that] that n(2,4) write_bytes_other [of scratch ?bs x "aw_mem w"] by auto
    obtain s where s: "strip_newline (aw_mem w1) (alloc_Bytes b1) = Ok s" "slice_bytes (aw_mem w1) s = bs" "s_len s = int (length bs)"
      and sok: "slice_ok s" "slice_span s \<subseteq> cap_span (ab_buf b1)"
      using strip_newline_slice [OF 1(2,3)] by (auto simp: alloc_Bytes_def)
    have fr: "span fresh (length bs) \<inter> slice_span s = {}" "slice_span s \<subseteq> alloc_used ?a1"
      using sok(2) 1(4,7) by auto
    show ?thesis
    proof (rule json_snapshot_result [OF 1(5) inv1(1) rd(2) sok(1) s(3,2) order_less_imp_le [OF n(1)] n(3) fr, of poly])
      fix w' s' a' r
      assume J: "json_snapshot poly rt2 w1 ref fresh s = (w', Ok s')" "slice_bytes (aw_mem w') s' = bs"
        "alloc_request poly ?a1 ?n = (a', r)" "aw_objs w' ref = Some a'" "alloc_inv scale a'"
        "(\<exists>e. r = Err e) \<and> s_ptr s' = fresh \<or> r = Ok (s_ptr s') \<and> slice_span s' \<subseteq> alloc_used a'"
        "\<And>x. unat x \<in> alloc_used ?a1 - span fresh (length bs) \<Longrightarrow> aw_mem w' x = aw_mem w1 x"
      have R: "alloc_MarshalJSON marshal encode poly rt1 rt2 w c scratch fresh v = (w', Ok s')"
        using 1(1) s(1) J(1) by (simp add: alloc_MarshalJSON_def assms(2) enc)
      have fr': "aw_mem w' x = aw_mem w x" if "unat x \<in> alloc_used a" for x
        using J(7) [of x] keep [OF that] that inv1(2) n(4) by auto
      have r1: "alloc_request poly a ?r1 = (?a1, Ok (s_ptr (ab_buf b1)))"
        using 1(6) by (simp add: prod_eq_iff)
      show ?thesis
        unfolding Inr sum.case
        by (intro exI [of _ k] exI [of _ ?a1] exI [of _ "Ok (s_ptr (ab_buf b1))"] exI [of _ a'] exI [of _ r] conjI k r1 J(3))
           (use R J(2,4-6) fr' in auto)
    qed
  qed
qed

section \<open>Examples\<close>

text \<open>A handler that panics.\<close>

definition sample_panic :: "alloc_world \<Rightarrow> ctx \<Rightarrow> unit \<Rightarrow> alloc_world \<times> unit outcome" where
  "sample_panic w c req = (w, Panic (PanicValue ''no such user''))"

theorem alloc_Middleware_clean_witness:
  "\<exists>w3 a. alloc_Middleware (ArenaFactory 8 0x11B) 8 0x11B sample_panic (alloc_NewPool (\<lambda>_. 0) Map.empty) None sample_mmap 0xA000 [] () =
       (w3, Served (Panic (PanicValue ''no such user''))) \<and> alloc_pool_clean 8 w3 \<and> a \<in> set (aw_pool w3)"
proof -
  have "is_factory 8 0x11B (ArenaFactory 8 0x11B)"
    by (simp add: is_factory_def)
  moreover have "alloc_pool_clean 8 (alloc_NewPool (\<lambda>_. 0) Map.empty)" "aw_objs (alloc_NewPool (\<lambda>_. 0) Map.empty) 0xA000 = None"
    by (simp_all add: alloc_pool_clean_def idle_clean_def alloc_NewPool_def)
  moreover have "alloc_handler_ok 8 sample_panic"
    by (auto simp: alloc_handler_ok_def sample_panic_def empty_allocator_def held_def)
  moreover have "\<nexists>e. ArenaFactory 8 0x11B sample_mmap = Err e"
    by (simp add: ArenaFactory_def alloc_NewArena_def sample_arena_New)
  ultimately show ?thesis
    using alloc_Middleware_clean [OF _ sample_mmap_ok, of 8 "0x11B" "ArenaFactory 8 0x11B" "alloc_NewPool (\<lambda>_. 0) Map.empty"
        "0xA000" sample_panic None "[]" "()"] by (auto simp: sample_panic_def)
qed

lemma sample_second_ready: "no_wrap (fst (balloc_Alloc 0x11B sample_balloc 64 1 0 0)) 4"
proof (rule sample_bucket)
  fix k
  assume "balloc_Bucket 0x11B sample_balloc 0 0 = Ok k"
  then show ?thesis
    by (simp add: balloc_Alloc_def sample_fields alignUp_def popFree_def alloc_node_def newNode_def insertNode_def
        sizeof_BallocNode_def no_wrap_def Let_def balloc_Bucket_def)
qed

lemma sample_second_block:
  "\<exists>k. snd (balloc_Alloc 0x11B (fst (balloc_Alloc 0x11B sample_balloc 64 1 0 0)) 4 1 0 0) = Ok (0x38040, k)"
proof (rule sample_bucket)
  fix k
  assume "balloc_Bucket 0x11B sample_balloc 0 0 = Ok k"
  then show ?thesis
    by (simp add: balloc_Alloc_def sample_fields alignUp_def popFree_def alloc_node_def newNode_def insertNode_def
        sizeof_BallocNode_def Let_def balloc_Bucket_def insertBelow.simps)
qed

theorem alloc_MarshalJSON_marshals_witness:
  "\<exists>w' s. alloc_MarshalJSON sample_marshal sample_encode 0x11B sample_rt sample_rt sample_world (WithAllocator [] 0xB000) 0x8000 0x9000 True = (w', Ok s) \<and>
     slice_bytes (aw_mem w') s = [116, 114, 117, 101] \<and> s_ptr s = 0x38040"
proof -
  let ?a = "BallocWrapper sample_balloc" and ?bs = "[116, 114, 117, 101] :: byte list"
  let ?X = "span 0x8000 (length ?bs + 1) \<union> span 0x9000 (length ?bs)"
  obtain k where k: "snd (balloc_Alloc 0x11B sample_balloc 64 1 0 0) = Ok (0x38000, k)"
    by (rule sample_first_block [of 64]) simp_all
  obtain k2 where k2: "snd (balloc_Alloc 0x11B (fst (balloc_Alloc 0x11B sample_balloc 64 1 0 0)) 4 1 0 0) = Ok (0x38040, k2)"
    using sample_second_block by blast
  have "no_wrap sample_balloc 64"
    by (simp add: no_wrap_def sample_fields)
  then have rd: "run_ready (alloc_request 0x11B) alloc_ready ?a [(word_of_int 64, 1, 0, 0, sample_rt), (word_of_int (int (length ?bs)), 1, 0, 0, sample_rt)]"
    using sample_second_ready by (simp add: alloc_ready_def alloc_request_def Allocator_Alloc_def map_prod_def split_beta)
  have av: "call_avoids 0x11B sample_rt ?a (word_of_int 64) ?X"
    using k by (auto simp: call_avoids_def Allocator_Alloc_def made_memory_def map_prod_def split_beta span_def)
  have u: "alloc_used ?a \<inter> ?X = {}"
    by (simp add: alloc_used_def balloc_used_def balloc_blocks_def tmap_def findNode.simps sample_fields)
  have inv: "alloc_inv 8 ?a"
    using sample_inv by (simp add: alloc_inv_def sample_fields)
  have enc: "encoder_ok sample_marshal sample_encode" "sample_marshal True = Inr ?bs" "grown_cap 0 (int (length ?bs) + 1) = Some 64"
    by (simp_all add: encoder_ok_def sample_encode_def sample_marshal_def grown_cap_64)
  have M: "marshal_ready 0x11B sample_rt sample_rt ?a 0x8000 0x9000 bs" if "sample_marshal True = Inr bs" for bs
    using that rd av u unfolding enc(2) marshal_ready_def by (auto simp: enc(3) [simplified] maxAlloc_def in_space_def)
  have r: "alloc_request 0x11B ?a (word_of_int 64, 1, 0, 0, sample_rt) = (a1, r1) \<Longrightarrow>
      alloc_request 0x11B a1 (word_of_int (int (length ?bs)), 1, 0, 0, sample_rt) = (a2, r2) \<Longrightarrow> r1 = Ok 0x38000 \<and> r2 = Ok 0x38040" for a1 r1 a2 r2
    using k k2 by (auto simp: alloc_request_def Allocator_Alloc_def map_prod_def split_beta)
  have "aw_objs sample_world 0xB000 = Some ?a"
    by (simp add: sample_world_def)
  from alloc_MarshalJSON_marshals [where v = True, OF enc(1) alloc_FromContext_With this inv M] obtain a1 r1 a2 r2 where
    R: "alloc_request 0x11B ?a (word_of_int 64, 1, 0, 0, sample_rt) = (a1, r1)"
      "alloc_request 0x11B a1 (word_of_int (int (length ?bs)), 1, 0, 0, sample_rt) = (a2, r2)"
    and C: "case r1 of
        Err e \<Rightarrow> \<exists>w'. alloc_MarshalJSON sample_marshal sample_encode 0x11B sample_rt sample_rt sample_world (WithAllocator [] 0xB000) 0x8000 0x9000 True = (w', Err e)
      | Ok _ \<Rightarrow> \<exists>w' s. alloc_MarshalJSON sample_marshal sample_encode 0x11B sample_rt sample_rt sample_world (WithAllocator [] 0xB000) 0x8000 0x9000 True = (w', Ok s) \<and>
          slice_bytes (aw_mem w') s = ?bs \<and> aw_objs w' 0xB000 = Some a2 \<and> alloc_inv 8 a2 \<and>
          (\<forall>x. unat x \<in> alloc_used ?a \<longrightarrow> aw_mem w' x = aw_mem sample_world x) \<and>
          (case r2 of Ok q \<Rightarrow> s_ptr s = q \<and> slice_span s \<subseteq> alloc_used a2 | Err _ \<Rightarrow> s_ptr s = 0x9000 | _ \<Rightarrow> False)
      | _ \<Rightarrow> False"
    unfolding enc(2) sum.case enc(3) option.inject by blast
  show ?thesis
    using C unfolding r [OF R, THEN conjunct1] r [OF R, THEN conjunct2] by auto
qed

end
