(* ===== verification/Compute.thy ===== *)
theory Compute
  imports Alloc_Buffer
begin

text \<open>
  The example program compute (examples/compute/main.go, examples/compute/workload.go): the same vector
  computation on slices of the Go heap, of the pinned arena and of a cached block allocator.

  Floating-point arithmetic is a parameter: the operations of \<open>float64\<close> as functions, among them
  \<open>x * y + z\<close>, which a Go compiler may fuse. Memory is seen as cells of \<open>float64\<close>.

  Shown here: all three ways return the value of one reference definition, and the block allocator
  that \<open>cachedBalloc\<close> provides has room for every chunk.
\<close>

section \<open>Floats in memory\<close>

record 'f flops =
  f_lit :: "string \<Rightarrow> 'f"
  f_int :: "int \<Rightarrow> 'f"
  f_add :: "'f \<Rightarrow> 'f \<Rightarrow> 'f"
  f_mul :: "'f \<Rightarrow> 'f \<Rightarrow> 'f"
  f_muladd :: "'f \<Rightarrow> 'f \<Rightarrow> 'f \<Rightarrow> 'f"

type_synonym 'f fmem = "uintptr \<Rightarrow> 'f"

text \<open>The cell of an index; slices of floats count elements of 8 bytes.\<close>

definition elem :: "slice \<Rightarrow> int \<Rightarrow> uintptr" where
  "elem s i = s_ptr s + word_of_int (8 * i)"

fun zero_floats :: "'f flops \<Rightarrow> uintptr \<Rightarrow> nat \<Rightarrow> 'f fmem \<Rightarrow> 'f fmem" where
  "zero_floats fo p 0 m = m"
| "zero_floats fo p (Suc k) m = zero_floats fo (p + 8) k (m(p := f_lit fo ''0''))"

definition make_floats :: "'f flops \<Rightarrow> 'f fmem \<Rightarrow> uintptr \<Rightarrow> int \<Rightarrow> ('f fmem \<times> slice) outcome" where
  "make_floats fo m p n =
     (if n < 0 \<or> maxAlloc < 8 * n then Panic MakeSliceLen
      else Ok (zero_floats fo p (nat n) m, \<lparr>s_ptr = p, s_len = n, s_cap = n\<rparr>))"

definition floats_range :: "slice \<Rightarrow> int \<Rightarrow> int \<Rightarrow> slice outcome" where
  "floats_range s lo hi =
     (if hi < 0 \<or> s_cap s < hi \<or> lo < 0 \<or> hi < lo then Panic SliceBounds
      else Ok \<lparr>s_ptr = elem s lo, s_len = hi - lo, s_cap = s_cap s - lo\<rparr>)"

section \<open>The computation\<close>

definition vectorLen :: int where "vectorLen = 2 ^ 15"
definition chunkCount :: int where "chunkCount = 32"
definition compute_ownerMask :: u64 where "compute_ownerMask = 1"

fun fill_loop :: "'f flops \<Rightarrow> slice \<Rightarrow> slice \<Rightarrow> 'f \<Rightarrow> int \<Rightarrow> nat \<Rightarrow> 'f fmem \<Rightarrow> 'f fmem outcome" where
  "fill_loop fo a b offset i 0 m = Ok m"
| "fill_loop fo a b offset i (Suc k) m =
     (let x = f_mul fo (f_int fo (i + 1)) (f_lit fo ''0.000001'');
          m1 = m(elem a i := f_add fo x offset)
      in if i < s_len b
         then fill_loop fo a b offset (i + 1) k (m1(elem b i := f_muladd fo x (f_lit fo ''0.5'') (f_lit fo ''2'')))
         else Panic IndexOutOfRange)"

definition fill :: "'f flops \<Rightarrow> slice \<Rightarrow> slice \<Rightarrow> int \<Rightarrow> 'f fmem \<Rightarrow> 'f fmem outcome" where
  "fill fo a b salt m = fill_loop fo a b (f_int fo (i64 (salt + 1))) 0 (nat (s_len a)) m"

fun fma_loop :: "'f flops \<Rightarrow> slice \<Rightarrow> slice \<Rightarrow> slice \<Rightarrow> 'f \<Rightarrow> int \<Rightarrow> nat \<Rightarrow> 'f \<Rightarrow> 'f fmem \<Rightarrow> ('f fmem \<times> 'f) outcome" where
  "fma_loop fo dst a b scale i 0 acc m = Ok (m, acc)"
| "fma_loop fo dst a b scale i (Suc k) acc m =
     (if i < s_len a \<and> i < s_len b then
        let v = f_muladd fo (m (elem a i)) scale (m (elem b i))
        in fma_loop fo dst a b scale (i + 1) k (f_add fo acc v) (m(elem dst i := v))
      else Panic IndexOutOfRange)"

definition fma :: "'f flops \<Rightarrow> slice \<Rightarrow> slice \<Rightarrow> slice \<Rightarrow> 'f \<Rightarrow> 'f fmem \<Rightarrow> ('f fmem \<times> 'f) outcome" where
  "fma fo dst a b scale m = fma_loop fo dst a b scale 0 (nat (s_len dst)) (f_lit fo ''0.0'') m"

text \<open>The two lines that every run has for a chunk.\<close>

definition run_chunk :: "'f flops \<Rightarrow> slice \<Rightarrow> slice \<Rightarrow> slice \<Rightarrow> int \<Rightarrow> 'f \<Rightarrow> 'f fmem \<Rightarrow> ('f fmem \<times> 'f) outcome" where
  "run_chunk fo a b c chunk acc m =
     obind (fill fo a b chunk m) (\<lambda>m1.
       obind (fma fo c a b (f_lit fo ''1.000001'') m1) (\<lambda>(m2, s). Ok (m2, f_add fo acc s)))"

section \<open>On the Go heap\<close>

text \<open>\<open>ptrs chunk\<close> are the addresses of the three slices of a chunk, chosen by the runtime.\<close>

fun runGo_loop ::
  "'f flops \<Rightarrow> (int \<Rightarrow> uintptr \<times> uintptr \<times> uintptr) \<Rightarrow> int \<Rightarrow> int \<Rightarrow> nat \<Rightarrow> 'f \<Rightarrow> 'f fmem \<Rightarrow> ('f fmem \<times> 'f) outcome" where
  "runGo_loop fo ptrs n chunk 0 acc m = Ok (m, acc)"
| "runGo_loop fo ptrs n chunk (Suc k) acc m =
     (case ptrs chunk of (pa, pb, pc) \<Rightarrow>
      obind (make_floats fo m pa n) (\<lambda>(m1, a).
      obind (make_floats fo m1 pb n) (\<lambda>(m2, b).
      obind (make_floats fo m2 pc n) (\<lambda>(m3, c).
      obind (run_chunk fo a b c chunk acc m3) (\<lambda>(m4, t).
        runGo_loop fo ptrs n (chunk + 1) k t m4)))))"

definition runGo :: "'f flops \<Rightarrow> (int \<Rightarrow> uintptr \<times> uintptr \<times> uintptr) \<Rightarrow> int \<Rightarrow> int \<Rightarrow> 'f fmem \<Rightarrow> ('f fmem \<times> 'f) outcome" where
  "runGo fo ptrs chunks n m = runGo_loop fo ptrs n 0 (nat chunks) (f_lit fo ''0.0'') m"

section \<open>On a block allocator\<close>

definition ballocFloat64s :: "u64 \<Rightarrow> BlockAllocator \<Rightarrow> int \<Rightarrow> u64 \<Rightarrow> u64 \<Rightarrow> BlockAllocator \<times> (slice \<times> uintptr) outcome" where
  "ballocFloat64s poly al n threadID chunkID =
     (case balloc_Alloc poly al (word_of_int (i64 (n * 8))) compute_ownerMask threadID chunkID of
        (al', Ok (addr, _)) \<Rightarrow> (al', obind (unsafe_Slice addr 8 n) (\<lambda>s. Ok (s, addr)))
      | (al', Err e) \<Rightarrow> (al', Err e) | (al', Panic q) \<Rightarrow> (al', Panic q) | (al', Diverge) \<Rightarrow> (al', Diverge))"

definition ballocFloat64Chunk :: "u64 \<Rightarrow> BlockAllocator \<Rightarrow> int \<Rightarrow> u64 \<Rightarrow> BlockAllocator \<times> (slice \<times> slice \<times> slice) outcome" where
  "ballocFloat64Chunk poly al n threadID =
     (let sz = word_of_int (i64 (i64 (n * 3) * 8)) in
      case balloc_Alloc poly al sz compute_ownerMask threadID 0 of
        (al', Ok (addr, _)) \<Rightarrow>
          (al', obind (unsafe_Slice addr 8 (i64 (n * 3))) (\<lambda>all.
                obind (slice_upto all n) (\<lambda>a.
                obind (floats_range all n (i64 (n * 2))) (\<lambda>b.
                obind (floats_range all (i64 (n * 2)) (s_len all)) (\<lambda>c. Ok (a, b, c))))))
      | (al', Err e) \<Rightarrow> (al', Err e) | (al', Panic q) \<Rightarrow> (al', Panic q) | (al', Diverge) \<Rightarrow> (al', Diverge))"

fun runBalloc_loop ::
  "'f flops \<Rightarrow> u64 \<Rightarrow> int \<Rightarrow> int \<Rightarrow> nat \<Rightarrow> 'f \<Rightarrow> BlockAllocator \<Rightarrow> 'f fmem \<Rightarrow> BlockAllocator \<times> ('f fmem \<times> 'f) outcome" where
  "runBalloc_loop fo poly n chunk 0 acc al m = (al, Ok (m, acc))"
| "runBalloc_loop fo poly n chunk (Suc k) acc al m =
     (case ballocFloat64Chunk poly al n (word_of_int chunk) of
        (al', Ok (a, b, c)) \<Rightarrow>
          (case run_chunk fo a b c chunk acc m of
             Ok (m', t) \<Rightarrow> runBalloc_loop fo poly n (chunk + 1) k t al' m'
           | Err e \<Rightarrow> (al', Err e) | Panic q \<Rightarrow> (al', Panic q) | Diverge \<Rightarrow> (al', Diverge))
      | (al', Err e) \<Rightarrow> (al', Err e) | (al', Panic q) \<Rightarrow> (al', Panic q) | (al', Diverge) \<Rightarrow> (al', Diverge))"

definition runBallocWithAllocator ::
  "'f flops \<Rightarrow> u64 \<Rightarrow> BlockAllocator \<Rightarrow> int \<Rightarrow> int \<Rightarrow> 'f fmem \<Rightarrow> BlockAllocator \<times> ('f fmem \<times> 'f) outcome" where
  "runBallocWithAllocator fo poly al chunks n m =
     (case balloc_Reset al of
        (al', Ok _) \<Rightarrow> runBalloc_loop fo poly n 0 (nat chunks) (f_lit fo ''0.0'') al' m
      | (al', Err e) \<Rightarrow> (al', Err e) | (al', Panic q) \<Rightarrow> (al', Panic q) | (al', Diverge) \<Rightarrow> (al', Diverge))"

text \<open>
  The cache holds the allocator by reference; the mappings that \<open>Close\<close> gives back come last. The
  lock around \<open>cachedBalloc\<close> is left out: one goroutine runs.
\<close>

record ballocCache =
  cache_alloc :: "BlockAllocator option"
  cache_length :: uintptr

definition cachedBalloc ::
  "int \<Rightarrow> (int \<Rightarrow> go_error + uintptr \<times> uintptr) \<Rightarrow> ballocCache \<Rightarrow> uintptr
   \<Rightarrow> ballocCache \<times> (uintptr \<times> uintptr) list \<times> BlockAllocator outcome" where
  "cachedBalloc scale mmapAnon cache len =
     (case cache_alloc cache of
        Some al \<Rightarrow>
          if cache_length cache \<ge> len then (cache, [], Ok al)
          else
            let (al', unmapped) = balloc_Close al in
            (case balloc_New scale mmapAnon len of
               Ok new \<Rightarrow> (\<lparr>cache_alloc = Some new, cache_length = len\<rparr>, unmapped, Ok new)
             | Err e \<Rightarrow> (\<lparr>cache_alloc = None, cache_length = 0\<rparr>, unmapped, Err e)
             | Panic q \<Rightarrow> (cache\<lparr>cache_alloc := Some al'\<rparr>, unmapped, Panic q)
             | Diverge \<Rightarrow> (cache\<lparr>cache_alloc := Some al'\<rparr>, unmapped, Diverge))
      | None \<Rightarrow>
          (case balloc_New scale mmapAnon len of
             Ok new \<Rightarrow> (\<lparr>cache_alloc = Some new, cache_length = len\<rparr>, [], Ok new)
           | Err e \<Rightarrow> (\<lparr>cache_alloc = None, cache_length = 0\<rparr>, [], Err e)
           | Panic q \<Rightarrow> (cache, [], Panic q)
           | Diverge \<Rightarrow> (cache, [], Diverge)))"

definition runBalloc ::
  "'f flops \<Rightarrow> u64 \<Rightarrow> int \<Rightarrow> (int \<Rightarrow> go_error + uintptr \<times> uintptr) \<Rightarrow> ballocCache \<Rightarrow> int \<Rightarrow> int \<Rightarrow> 'f fmem
   \<Rightarrow> ballocCache \<times> (uintptr \<times> uintptr) list \<times> ('f fmem \<times> 'f) outcome" where
  "runBalloc fo poly scale mmapAnon cache chunks n m =
     (let bytesPerChunk = word_of_int (i64 (i64 (n * 3) * 8)) in
      case cachedBalloc scale mmapAnon cache (word_of_int chunks * bytesPerChunk + 8388608) of
        (cache', unmapped, Ok al) \<Rightarrow>
          let (al', r) = runBallocWithAllocator fo poly al chunks n m
          in (cache'\<lparr>cache_alloc := Some al'\<rparr>, unmapped, r)
      | (cache', unmapped, Err e) \<Rightarrow> (cache', unmapped, Err e)
      | (cache', unmapped, Panic q) \<Rightarrow> (cache', unmapped, Panic q)
      | (cache', unmapped, Diverge) \<Rightarrow> (cache', unmapped, Diverge))"

section \<open>On the pinned arena\<close>

text \<open>
  \<open>rt chunk j\<close> are the addresses of the slice and of the tree node that the runtime chooses for the
  \<open>j\<close>-th call of a chunk. The type assertion holds: the argument is a pinned arena.
\<close>

definition arenaFloat64s ::
  "'f flops \<Rightarrow> uintptr \<times> uintptr \<Rightarrow> Arena \<Rightarrow> 'f fmem \<Rightarrow> int \<Rightarrow> u64 \<Rightarrow> u64 \<Rightarrow> (Arena \<times> 'f fmem) \<times> (slice \<times> uintptr) outcome" where
  "arenaFloat64s fo pn al m n threadID chunkID =
     (case arena_Alloc al (fst pn) (snd pn) (word_of_int (i64 (n * 8))) compute_ownerMask threadID chunkID of
        (al', Ok (addr, _)) \<Rightarrow>
          ((al', zero_floats fo addr (nat n) m), obind (unsafe_Slice addr 8 n) (\<lambda>s. Ok (s, addr)))
      | (al', Err e) \<Rightarrow> ((al', m), Err e) | (al', Panic q) \<Rightarrow> ((al', m), Panic q) | (al', Diverge) \<Rightarrow> ((al', m), Diverge))"

definition arena_slices ::
  "'f flops \<Rightarrow> (nat \<Rightarrow> uintptr \<times> uintptr) \<Rightarrow> Arena \<Rightarrow> 'f fmem \<Rightarrow> int \<Rightarrow> u64 \<Rightarrow> (Arena \<times> 'f fmem) \<times> (slice \<times> slice \<times> slice) outcome" where
  "arena_slices fo rt al m n tid =
     (case arenaFloat64s fo (rt 0) al m n tid 0 of
        ((al1, m1), Ok (a, _)) \<Rightarrow>
          (case arenaFloat64s fo (rt 1) al1 m1 n tid 1 of
             ((al2, m2), Ok (b, _)) \<Rightarrow>
               (case arenaFloat64s fo (rt 2) al2 m2 n tid 2 of
                  ((al3, m3), Ok (c, _)) \<Rightarrow> ((al3, m3), Ok (a, b, c))
                | (st, Err e) \<Rightarrow> (st, Err e) | (st, Panic q) \<Rightarrow> (st, Panic q) | (st, Diverge) \<Rightarrow> (st, Diverge))
           | (st, Err e) \<Rightarrow> (st, Err e) | (st, Panic q) \<Rightarrow> (st, Panic q) | (st, Diverge) \<Rightarrow> (st, Diverge))
      | (st, Err e) \<Rightarrow> (st, Err e) | (st, Panic q) \<Rightarrow> (st, Panic q) | (st, Diverge) \<Rightarrow> (st, Diverge))"

fun runArena_loop ::
  "'f flops \<Rightarrow> (int \<Rightarrow> nat \<Rightarrow> uintptr \<times> uintptr) \<Rightarrow> int \<Rightarrow> int \<Rightarrow> nat \<Rightarrow> 'f \<Rightarrow> Arena \<Rightarrow> 'f fmem
   \<Rightarrow> Arena \<times> ('f fmem \<times> 'f) outcome" where
  "runArena_loop fo rt n chunk 0 acc al m = (al, Ok (m, acc))"
| "runArena_loop fo rt n chunk (Suc k) acc al m =
     (case arena_slices fo (rt chunk) al m n (word_of_int chunk) of
        ((al', m'), Ok (a, b, c)) \<Rightarrow>
          (case run_chunk fo a b c chunk acc m' of
             Ok (m2, t) \<Rightarrow> runArena_loop fo rt n (chunk + 1) k t al' m2
           | Err e \<Rightarrow> (al', Err e) | Panic q \<Rightarrow> (al', Panic q) | Diverge \<Rightarrow> (al', Diverge))
      | ((al', _), Err e) \<Rightarrow> (al', Err e) | ((al', _), Panic q) \<Rightarrow> (al', Panic q) | ((al', _), Diverge) \<Rightarrow> (al', Diverge))"

text \<open>The deferred \<open>Close\<close> runs on every way out.\<close>

definition runArena ::
  "'f flops \<Rightarrow> int \<Rightarrow> u64 \<Rightarrow> (int \<Rightarrow> nat \<Rightarrow> uintptr \<times> uintptr) \<Rightarrow> int \<Rightarrow> int \<Rightarrow> 'f fmem \<Rightarrow> Arena option \<times> ('f fmem \<times> 'f) outcome" where
  "runArena fo scale poly rt chunks n m =
     (case arena_New scale poly of
        Ok al \<Rightarrow>
          let (al', r) = runArena_loop fo rt n 0 (nat chunks) (f_lit fo ''0.0'') al m
          in (Some (arena_Close al'), r)
      | Err e \<Rightarrow> (None, Err e) | Panic q \<Rightarrow> (None, Panic q) | Diverge \<Rightarrow> (None, Diverge))"

section \<open>The program (main.go)\<close>

text \<open>
  \<open>run\<close> prints a name and a sum, or ends the program with the error; the time it takes is left out. The
  program first runs the workload once on the block allocator, which fills the cache.
\<close>

definition compute_run :: "string \<Rightarrow> 'f outcome \<Rightarrow> (string \<times> 'f) outcome" where
  "compute_run name fn = obind fn (\<lambda>s. Ok (name, s))"

definition compute_main ::
  "'f flops \<Rightarrow> u64 \<Rightarrow> int \<Rightarrow> (int \<Rightarrow> go_error + uintptr \<times> uintptr) \<Rightarrow> (int \<Rightarrow> uintptr \<times> uintptr \<times> uintptr) \<Rightarrow> ballocCache \<Rightarrow> 'f fmem
   \<Rightarrow> (string \<times> 'f) list outcome" where
  "compute_main fo poly scale mmapAnon ptrs cache m =
     (case runBalloc fo poly scale mmapAnon cache chunkCount vectorLen m of
        (cache1, _, warm) \<Rightarrow>
          obind warm (\<lambda>(m1, _).
          obind (runGo fo ptrs chunkCount vectorLen m1) (\<lambda>(m2, s).
          obind (compute_run ''go'' (Ok s)) (\<lambda>line1.
            case runBalloc fo poly scale mmapAnon cache1 chunkCount vectorLen m2 of
              (cache2, _, r) \<Rightarrow>
                obind (compute_run ''balloc'' (map_outcome snd r)) (\<lambda>line2. Ok [line1, line2])))))"

section \<open>The value of the computation\<close>

definition cell_x :: "'f flops \<Rightarrow> nat \<Rightarrow> 'f" where
  "cell_x fo i = f_mul fo (f_int fo (int i + 1)) (f_lit fo ''0.000001'')"

definition cell_v :: "'f flops \<Rightarrow> int \<Rightarrow> nat \<Rightarrow> 'f" where
  "cell_v fo salt i =
     f_muladd fo (f_add fo (cell_x fo i) (f_int fo (salt + 1))) (f_lit fo ''1.000001'')
       (f_muladd fo (cell_x fo i) (f_lit fo ''0.5'') (f_lit fo ''2''))"

definition chunk_value :: "'f flops \<Rightarrow> nat \<Rightarrow> int \<Rightarrow> 'f" where
  "chunk_value fo n chunk = foldl (\<lambda>s i. f_add fo s (cell_v fo chunk i)) (f_lit fo ''0.0'') [0..<n]"

definition workload_value :: "'f flops \<Rightarrow> nat \<Rightarrow> nat \<Rightarrow> 'f" where
  "workload_value fo chunks n = foldl (\<lambda>t c. f_add fo t (chunk_value fo n (int c))) (f_lit fo ''0.0'') [0..<chunks]"

text \<open>Three slices of \<open>n\<close> elements whose cells are all different.\<close>

definition cells_apart :: "slice \<Rightarrow> slice \<Rightarrow> nat \<Rightarrow> bool" where
  "cells_apart s t n \<longleftrightarrow> (\<forall>i < n. \<forall>j < n. elem s (int i) \<noteq> elem t (int j))"

definition cells_distinct :: "slice \<Rightarrow> nat \<Rightarrow> bool" where
  "cells_distinct s n \<longleftrightarrow> (\<forall>i < n. \<forall>j < n. elem s (int i) = elem s (int j) \<longrightarrow> i = j)"

lemma fill_loop_cells:
  assumes "s_len b = int n" "i + k = n" "cells_apart a b n" "cells_distinct a n" "cells_distinct b n"
  shows "\<exists>m'. fill_loop fo a b offset (int i) k m = Ok m' \<and>
    (\<forall>j < n. m' (elem a (int j)) = (if i \<le> j then f_add fo (cell_x fo j) offset else m (elem a (int j)))) \<and>
    (\<forall>j < n. m' (elem b (int j)) = (if i \<le> j then f_muladd fo (cell_x fo j) (f_lit fo ''0.5'') (f_lit fo ''2'') else m (elem b (int j))))"
  using assms(2)
proof (induction k arbitrary: i m)
  case 0
  then show ?case by auto
next
  case (Suc k)
  let ?b = "\<lambda>j. f_muladd fo (cell_x fo j) (f_lit fo ''0.5'') (f_lit fo ''2'')"
  define m1 where "m1 = m(elem a (int i) := f_add fo (cell_x fo i) offset, elem b (int i) := ?b i)"
  have i: "i < n" "Suc i + k = n"
    using Suc.prems by simp_all
  have step: "fill_loop fo a b offset (int i) (Suc k) m = fill_loop fo a b offset (int (Suc i)) k m1"
    using i assms(1) by (simp add: cell_x_def m1_def add.commute Let_def)
  have A: "m1 (elem a (int j)) = (if j = i then f_add fo (cell_x fo j) offset else m (elem a (int j)))" if "j < n" for j
    using that i(1) assms(3,4) by (auto simp: m1_def cells_apart_def cells_distinct_def)
  have B: "m1 (elem b (int j)) = (if j = i then ?b j else m (elem b (int j)))" if "j < n" for j
  proof -
    have "elem b (int j) \<noteq> elem a (int i)"
      using that i(1) assms(3) unfolding cells_apart_def by metis
    then show ?thesis
      using that i(1) assms(5) by (auto simp: m1_def cells_distinct_def)
  qed
  from Suc.IH [OF i(2), of m1] obtain m' where M: "fill_loop fo a b offset (int (Suc i)) k m1 = Ok m'"
    "\<And>j. j < n \<Longrightarrow> m' (elem a (int j)) = (if Suc i \<le> j then f_add fo (cell_x fo j) offset else m1 (elem a (int j)))"
    "\<And>j. j < n \<Longrightarrow> m' (elem b (int j)) = (if Suc i \<le> j then ?b j else m1 (elem b (int j)))"
    by blast
  show ?case
    unfolding step M(1) by (intro exI [of _ m']) (simp add: M(2,3) A B Suc_le_eq le_less)
qed

lemma fma_loop_value:
  assumes "s_len a = int n" "s_len b = int n" "i + k = n" "cells_apart dst a n" "cells_apart dst b n"
    and "\<forall>j < n. m (elem a (int j)) = A j \<and> m (elem b (int j)) = B j"
  shows "\<exists>m'. fma_loop fo dst a b scale (int i) k acc m =
    Ok (m', foldl (\<lambda>s j. f_add fo s (f_muladd fo (A j) scale (B j))) acc [i..<n])"
  using assms(3,6)
proof (induction k arbitrary: i acc m)
  case 0
  then show ?case by auto
next
  case (Suc k)
  let ?v = "f_muladd fo (A i) scale (B i)"
  have i: "i < n"
    using Suc.prems(1) by simp
  define m1 where "m1 = m(elem dst (int i) := ?v)"
  have step: "fma_loop fo dst a b scale (int i) (Suc k) acc m = fma_loop fo dst a b scale (int (Suc i)) k (f_add fo acc ?v) m1"
    using i assms(1,2) Suc.prems(2) by (simp add: add.commute Let_def m1_def)
  have "\<forall>j < n. m1 (elem a (int j)) = A j \<and> m1 (elem b (int j)) = B j"
    using i assms(4,5) Suc.prems(2) unfolding m1_def cells_apart_def fun_upd_apply by metis
  from Suc.IH [OF _ this, of "Suc i" "f_add fo acc ?v"] Suc.prems(1) i show ?case
    unfolding step by (simp add: upt_conv_Cons)
qed

definition chunk_slices :: "slice \<Rightarrow> slice \<Rightarrow> slice \<Rightarrow> nat \<Rightarrow> bool" where
  "chunk_slices a b c n \<longleftrightarrow> s_len a = int n \<and> s_len b = int n \<and> s_len c = int n \<and>
     cells_apart a b n \<and> cells_apart c a n \<and> cells_apart c b n \<and> cells_distinct a n \<and> cells_distinct b n"

lemma run_chunk_value:
  assumes "chunk_slices a b c n" "0 \<le> chunk" "chunk < 2 ^ 62"
  shows "\<exists>m'. run_chunk fo a b c chunk acc m = Ok (m', f_add fo acc (chunk_value fo n chunk))"
proof -
  note S = assms(1) [unfolded chunk_slices_def]
  have i: "i64 (chunk + 1) = chunk + 1"
    using assms(2,3) by (intro i64_id) auto
  obtain m1 where F: "fill_loop fo a b (f_int fo (chunk + 1)) (int 0) n m = Ok m1"
    "\<forall>j < n. m1 (elem a (int j)) = f_add fo (cell_x fo j) (f_int fo (chunk + 1)) \<and>
       m1 (elem b (int j)) = f_muladd fo (cell_x fo j) (f_lit fo ''0.5'') (f_lit fo ''2'')"
    using fill_loop_cells [of b n 0 n a fo "f_int fo (chunk + 1)" m] S by auto
  from fma_loop_value [OF _ _ _ _ _ F(2), of 0 n c fo "f_lit fo ''1.000001''" "f_lit fo ''0.0''"] S
  obtain m2 where "fma_loop fo c a b (f_lit fo ''1.000001'') 0 n (f_lit fo ''0.0'') m1 = Ok (m2, chunk_value fo n chunk)"
    by (auto simp: chunk_value_def cell_v_def)
  with F(1) S show ?thesis
    by (simp add: run_chunk_def fill_def fma_def i)
qed

text \<open>Slices over memory that does not wrap and does not overlap have different cells.\<close>

lemma elem_unat:
  assumes "in_space (s_ptr s) (8 * n)" "i < n"
  shows "unat (elem s (int i)) = unat (s_ptr s) + 8 * i"
proof -
  have "elem s (int i) = s_ptr s + of_nat (8 * i)"
    by (simp add: elem_def)
  with in_space_add [OF assms(1), of "8 * i"] assms(2) show ?thesis by simp
qed

lemma cells_distinct_space: "in_space (s_ptr s) (8 * n) \<Longrightarrow> cells_distinct s n"
  unfolding cells_distinct_def by (metis elem_unat add_left_cancel mult_left_cancel zero_neq_numeral)

lemma cells_apart_space:
  assumes "in_space (s_ptr s) (8 * n)" "in_space (s_ptr t) (8 * n)" "span (s_ptr s) (8 * n) \<inter> span (s_ptr t) (8 * n) = {}"
  shows "cells_apart s t n"
proof -
  have "unat (elem u (int i)) \<in> span (s_ptr u) (8 * n)" if "in_space (s_ptr u) (8 * n)" "i < n" for u i
    using elem_unat [OF that] that(2) by (simp add: span_def)
  with assms show ?thesis
    unfolding cells_apart_def by (metis disjoint_iff)
qed

definition ptrs_apart :: "uintptr \<times> uintptr \<times> uintptr \<Rightarrow> nat \<Rightarrow> bool" where
  "ptrs_apart ps n \<longleftrightarrow> (case ps of (pa, pb, pc) \<Rightarrow>
     in_space pa n \<and> in_space pb n \<and> in_space pc n \<and>
     span pa n \<inter> span pb n = {} \<and> span pc n \<inter> span pa n = {} \<and> span pc n \<inter> span pb n = {})"

lemma chunk_slices_ptrs:
  assumes "ptrs_apart (s_ptr a, s_ptr b, s_ptr c) (8 * n)" "s_len a = int n" "s_len b = int n" "s_len c = int n"
  shows "chunk_slices a b c n"
  using assms by (simp add: chunk_slices_def ptrs_apart_def cells_distinct_space cells_apart_space)

lemma workload_step:
  "foldl (\<lambda>t c. f_add fo t (chunk_value fo n (int c))) acc [j..<j + Suc k] =
   foldl (\<lambda>t c. f_add fo t (chunk_value fo n (int c))) (f_add fo acc (chunk_value fo n (int j))) [Suc j..<Suc j + k]"
  by (simp add: upt_conv_Cons del: upt_Suc)

lemma runGo_loop_value:
  assumes "8 * int n \<le> maxAlloc" "\<forall>c. ptrs_apart (ptrs c) (8 * n)" "int j + int k \<le> 2 ^ 62"
  shows "\<exists>m'. runGo_loop fo ptrs (int n) (int j) k acc m =
    Ok (m', foldl (\<lambda>t c. f_add fo t (chunk_value fo n (int c))) acc [j..<j + k])"
  using assms(3)
proof (induction k arbitrary: j acc m)
  case 0
  then show ?case by simp
next
  case (Suc k)
  obtain pa pb pc where p: "ptrs (int j) = (pa, pb, pc)"
    by (cases "ptrs (int j)") auto
  let ?s = "\<lambda>p. \<lparr>s_ptr = p, s_len = int n, s_cap = int n\<rparr>"
  have mk: "make_floats fo m p (int n) = Ok (zero_floats fo p n m, ?s p)" for m :: "uintptr \<Rightarrow> 'a" and p
    using assms(1) by (simp add: make_floats_def)
  have "chunk_slices (?s pa) (?s pb) (?s pc) n"
    using assms(2) [rule_format, of "int j"] p by (intro chunk_slices_ptrs) auto
  from run_chunk_value [OF this, of "int j" fo acc "zero_floats fo pc n (zero_floats fo pb n (zero_floats fo pa n m))"] Suc.prems
  obtain m4 where R: "run_chunk fo (?s pa) (?s pb) (?s pc) (int j) acc (zero_floats fo pc n (zero_floats fo pb n (zero_floats fo pa n m))) =
    Ok (m4, f_add fo acc (chunk_value fo n (int j)))"
    by auto
  then have "runGo_loop fo ptrs (int n) (int j) (Suc k) acc m =
      runGo_loop fo ptrs (int n) (int (Suc j)) k (f_add fo acc (chunk_value fo n (int j))) m4"
    by (simp add: p mk add.commute)
  with Suc.IH [of "Suc j" "f_add fo acc (chunk_value fo n (int j))" m4] Suc.prems workload_step [of fo n acc j k] show ?case
    by (simp del: upt_Suc)
qed

section \<open>Room for every chunk\<close>

definition same_map :: "BlockAllocator \<Rightarrow> BlockAllocator \<Rightarrow> bool" where
  "same_map b b' \<longleftrightarrow> payloadBase b' = payloadBase b \<and> payloadEnd b' = payloadEnd b \<and> nodeBase b' = nodeBase b \<and> nodeEnd b' = nodeEnd b \<and>
     MmapBase b' = MmapBase b \<and> MmapLength b' = MmapLength b"

lemma bump_Alloc_fields:
  assumes "freeList b = 0" "balloc_Alloc poly b sz m tid cid = (b', Ok (q, k))"
  shows "freeList b' = 0" "bump b' = bump b + alignUp sz 8" "nodeBump b' = nodeBump b + 40" "same_map b b'" "closed b' = closed b"
  using assms
  by (auto simp: balloc_Alloc_def alloc_node_def newNode_def popFree_def Let_def sizeof_BallocNode_def same_map_def
      split: if_splits outcome.splits option.splits prod.splits)

lemma chunk_thirds:
  fixes q :: uintptr
  assumes "in_space q (24 * n)"
  defines "s \<equiv> \<lambda>j. \<lparr>s_ptr = q + of_nat (8 * (j * n)), s_len = int n, s_cap = int ((3 - j) * n)\<rparr>"
  shows "chunk_slices (s 0) (s 1) (s 2) n"
proof -
  have p: "unat (q + of_nat (8 * (j * n))) = unat q + 8 * (j * n)" "in_space (q + of_nat (8 * (j * n))) (8 * n)" if "j < 3" for j
  proof -
    have le: "8 * (j * n) + 8 * n \<le> 24 * n"
      using mult_le_mono1 [of "j + 1" 3 "8 * n"] that by (simp add: algebra_simps)
    have U: "unat (q + of_nat (8 * (j * n))) = unat q + 8 * (j * n) \<and> in_space (q + of_nat (8 * (j * n))) (24 * n - 8 * (j * n))"
      by (rule in_space_add [OF assms(1)]) (use le in linarith)
    then show "unat (q + of_nat (8 * (j * n))) = unat q + 8 * (j * n)" ..
    show "in_space (q + of_nat (8 * (j * n))) (8 * n)"
      by (rule in_space_le [OF U [THEN conjunct2]]) (use le in linarith)
  qed
  show ?thesis
    using p [of 0] p [of 1] p [of 2] unfolding s_def by (intro chunk_slices_ptrs) (auto simp: ptrs_apart_def span_def)
qed

lemma ballocFloat64Chunk_ok:
  assumes inv: "balloc_inv b" "closed b = 0" "freeList b = 0"
    and n: "0 < n" "n < 2 ^ 57"
    and room: "unat (bump b) + 24 * n + 7 \<le> unat (payloadEnd b)" "unat (nodeBump b) + 40 \<le> unat (nodeEnd b)"
  obtains b' a s c where "ballocFloat64Chunk poly b (int n) tid = (b', Ok (a, s, c))" "chunk_slices a s c n"
    "balloc_inv b'" "closed b' = 0" "freeList b' = 0" "same_map b b'"
    "unat (bump b') = unat (bump b) + 24 * n" "unat (nodeBump b') = unat (nodeBump b) + 40"
proof -
  let ?q = "bump b"
  define z :: u64 where "z = word_of_int (24 * int n)"
  have i: "i64 (int n * 3) = 3 * int n" "i64 (3 * int n * 8) = 24 * int n" "i64 (int n * 2) = 2 * int n"
    using n(2) by (simp_all add: i64_id)
  have sz: "unat z = 24 * n"
    using n unat_word_of_int_u64 [of "24 * int n"] unfolding z_def by (simp add: nat_mult_distrib del: of_int_mult)
  then have z: "z \<noteq> 0"
    using n(1) by auto
  have lt: "unat (payloadEnd b) < 2 ^ 64" "unat (nodeEnd b) < 2 ^ 64"
    by simp_all
  have nw: "no_wrap b z"
    using room lt unfolding no_wrap_def sz by (simp del: unat_lt_u64)
  have r8: "round8 (24 * n) = 24 * n"
    by (simp add: round8_def)
  have lay: "layout b"
    using inv(1) refines_fields(1) by (auto simp: balloc_inv_def)
  obtain k where k: "balloc_Bucket poly b tid 0 = Ok k"
    using Alloc_bucket [OF lay] by blast
  have "balloc_place b z = Some ?q"
    using room inv(3) by (simp add: balloc_place_def balloc_head_def sz r8)
  then have "snd (balloc_Alloc poly b z compute_ownerMask tid 0) = Ok (?q, k)"
    using balloc_Alloc_value [OF inv(1) nw, of poly compute_ownerMask tid 0] z inv(2) k by simp
  then obtain b' where A: "balloc_Alloc poly b z compute_ownerMask tid 0 = (b', Ok (?q, k))"
    by (metis prod.collapse)
  note F = bump_Alloc_fields [OF inv(3) A]
  obtain A where "balloc_refines b A" "spec_inv A"
    using inv(1) by (auto simp: balloc_inv_def)
  then have "unat (payloadBase b) \<le> unat ?q"
    using refines_fields [of b A] by (simp add: spec_inv_def)
  then have "0 < unat ?q"
    using lay by (simp add: layout_def meta_limit_def)
  then have q: "?q \<noteq> 0" "in_space ?q (24 * n)"
    using room(1) lt(1) by (auto simp: in_space_def simp del: unat_lt_u64)
  let ?s = "\<lambda>j. \<lparr>s_ptr = ?q + of_nat (8 * (j * n)), s_len = int n, s_cap = int ((3 - j) * n)\<rparr>"
  have "unsafe_Slice ?q 8 (3 * int n) = Ok \<lparr>s_ptr = ?q, s_len = 3 * int n, s_cap = 3 * int n\<rparr>"
    using q by (intro unsafe_Slice_ok) (auto simp: in_space_def nat_mult_distrib)
  then have C: "ballocFloat64Chunk poly b (int n) tid = (b', Ok (?s 0, ?s 1, ?s 2))"
    unfolding ballocFloat64Chunk_def Let_def i z_def [symmetric] A
    by (simp add: slice_upto_def floats_range_def elem_def)
  have "chunk_slices (?s 0) (?s 1) (?s 2) n"
    by (rule chunk_thirds [OF q(2)])
  moreover have "balloc_inv b'"
    using balloc_inv_Alloc(1) [OF inv(1) nw A] .
  moreover have "unat (bump b') = unat ?q + 24 * n" "unat (nodeBump b') = unat (nodeBump b) + 40"
    using F(2,3) alignUp8 [of z] room lt sz r8 by (auto simp: unat_add_u64 simp del: unat_lt_u64)
  ultimately show thesis
    using that [OF C] F inv(2) by simp
qed

lemma same_map_trans: "same_map b b1 \<Longrightarrow> same_map b1 b2 \<Longrightarrow> same_map b b2"
  by (simp add: same_map_def)

lemma runBalloc_loop_value:
  assumes "balloc_inv b" "closed b = 0" "freeList b = 0" "0 < n" "n < 2 ^ 57" "int j + int k \<le> 2 ^ 62"
    and "unat (bump b) + k * (24 * n) + 7 \<le> unat (payloadEnd b)" "unat (nodeBump b) + 40 * k \<le> unat (nodeEnd b)"
  shows "\<exists>b' m'. runBalloc_loop fo poly (int n) (int j) k acc b m =
      (b', Ok (m', foldl (\<lambda>t c. f_add fo t (chunk_value fo n (int c))) acc [j..<j + k])) \<and>
    balloc_inv b' \<and> closed b' = 0 \<and> same_map b b'"
  using assms
proof (induction k arbitrary: j acc b m)
  case 0
  then show ?case by (simp add: same_map_def)
next
  case (Suc k)
  have room: "unat (bump b) + 24 * n + 7 \<le> unat (payloadEnd b)" "unat (nodeBump b) + 40 \<le> unat (nodeEnd b)"
    using Suc.prems(7,8) by simp_all
  obtain b1 a s c where C: "ballocFloat64Chunk poly b (int n) (word_of_int (int j)) = (b1, Ok (a, s, c))" "chunk_slices a s c n"
    and b1: "balloc_inv b1" "closed b1 = 0" "freeList b1 = 0" "same_map b b1"
      "unat (bump b1) = unat (bump b) + 24 * n" "unat (nodeBump b1) = unat (nodeBump b) + 40"
    by (rule ballocFloat64Chunk_ok [OF Suc.prems(1-5) room])
  obtain m1 where R: "run_chunk fo a s c (int j) acc m = Ok (m1, f_add fo acc (chunk_value fo n (int j)))"
    using run_chunk_value [OF C(2), of "int j" fo acc m] Suc.prems(6) by auto
  have step: "runBalloc_loop fo poly (int n) (int j) (Suc k) acc b m =
      runBalloc_loop fo poly (int n) (int (Suc j)) k (f_add fo acc (chunk_value fo n (int j))) b1 m1"
    using C(1) R by (simp add: add.commute)
  have "int (Suc j) + int k \<le> 2 ^ 62" "unat (bump b1) + k * (24 * n) + 7 \<le> unat (payloadEnd b1)"
    "unat (nodeBump b1) + 40 * k \<le> unat (nodeEnd b1)"
    using Suc.prems(6-8) b1(4-6) by (simp_all add: same_map_def)
  from Suc.IH [OF b1(1-3) Suc.prems(4,5) this, of "f_add fo acc (chunk_value fo n (int j))" m1] same_map_trans [OF b1(4)]
  show ?case
    unfolding step workload_step by blast
qed

text \<open>
  What the cache keeps: an open block allocator whose mapping has the length that is remembered.
\<close>

definition cache_ok :: "ballocCache \<Rightarrow> bool" where
  "cache_ok cache \<longleftrightarrow>
     (case cache_alloc cache of
        None \<Rightarrow> True
      | Some b \<Rightarrow> balloc_inv b \<and> closed b = 0 \<and> unat (payloadBase b) = unat (MmapBase b) + 163840 \<and> MmapLength b = cache_length cache)"

lemma cachedBalloc_ok:
  assumes "mmap_ok mm" "0 < scale" "scale < 2 ^ 63" "cache_ok cache" "8388608 \<le> unat len" "\<exists>r. mm (sint len) = Inr r"
  obtains cache' u b where "cachedBalloc scale mm cache len = (cache', u, Ok b)" "cache_ok (cache'\<lparr>cache_alloc := Some b\<rparr>)"
    "unat len \<le> unat (cache_length cache')"
proof -
  have nz: "len \<noteq> 0" "\<not> unat len < 167936"
    using assms(5) by auto
  obtain new where new: "balloc_New scale mm len = Ok new"
    using balloc_New_spec [OF assms(1-3), of len] assms(6) nz by (cases "balloc_New scale mm len") auto
  have N: "closed new = 0" "unat (payloadBase new) = unat (MmapBase new) + 163840" "unat (payloadEnd new) = unat (MmapBase new) + unat len"
    using balloc_New_spec [OF assms(1-3), of len] nz by (simp_all add: new)
  have inv: "balloc_inv new"
    using balloc_inv_New [OF assms(1-3) new] .
  have "MmapLength new = len"
    using N(3) balloc_New_layout(1) [OF assms(1-3) new] by (simp add: layout_def word_unat_eq_iff)
  then have ok: "cache_ok \<lparr>cache_alloc = Some new, cache_length = len\<rparr>"
    using inv N by (simp add: cache_ok_def)
  show thesis
  proof (cases "\<exists>b. cache_alloc cache = Some b \<and> cache_length cache \<ge> len")
    case True
    then obtain b where b: "cache_alloc cache = Some b" "cache_length cache \<ge> len" by blast
    have "cachedBalloc scale mm cache len = (cache, [], Ok b)"
      using b by (simp add: cachedBalloc_def)
    then show thesis
      by (rule that) (use assms(4) b in \<open>auto simp: cache_ok_def word_le_nat_alt\<close>)
  next
    case False
    then obtain u where "cachedBalloc scale mm cache len = (\<lparr>cache_alloc = Some new, cache_length = len\<rparr>, u, Ok new)"
      by (cases "cache_alloc cache") (auto simp: cachedBalloc_def new split_beta Let_def)
    then show thesis
      by (rule that) (use ok in simp_all)
  qed
qed

lemma runBallocWithAllocator_value:
  assumes "balloc_inv b" "closed b = 0" "unat (payloadBase b) = unat (MmapBase b) + 163840"
    and "chunks * (24 * n) + 8388608 \<le> unat (MmapLength b)" "0 < n" "n < 2 ^ 57" "chunks \<le> 4096"
  shows "\<exists>b' m'. runBallocWithAllocator fo poly b (int chunks) (int n) m = (b', Ok (m', workload_value fo chunks n)) \<and>
    balloc_inv b' \<and> closed b' = 0 \<and> same_map b b'"
proof -
  obtain b1 where R: "balloc_Reset b = (b1, Ok ())" "b1 = b\<lparr>MemTree := 0, freeList := 0, bump := payloadBase b, nodeBump := nodeBase b, activeBlocks := 0\<rparr>"
    using assms(2) by (simp add: balloc_Reset_def)
  have inv: "balloc_inv b1"
    using balloc_inv_Reset [OF assms(1)] R(1) by simp
  have "layout b"
    using assms(1) refines_fields(1) by (auto simp: balloc_inv_def)
  then have "unat (bump b1) + chunks * (24 * n) + 7 \<le> unat (payloadEnd b1)" "unat (nodeBump b1) + 40 * chunks \<le> unat (nodeEnd b1)"
    using assms(3,4,7) by (simp_all add: R(2) layout_def meta_limit_def)
  from runBalloc_loop_value [OF inv _ _ assms(5,6) _ this, of 0 fo poly "f_lit fo ''0.0''" m]
  obtain b' m' where "runBalloc_loop fo poly (int n) 0 chunks (f_lit fo ''0.0'') b1 m = (b', Ok (m', workload_value fo chunks n))"
    "balloc_inv b'" "closed b' = 0" "same_map b1 b'"
    using assms(2,7) by (auto simp: R(2) workload_value_def)
  moreover have "same_map b b1"
    by (simp add: R(2) same_map_def)
  ultimately show ?thesis
    using same_map_trans by (auto simp: runBallocWithAllocator_def R(1))
qed

lemma chunk_bytes:
  assumes "chunks * (24 * n) + 8388608 < 2 ^ 62" "n < 2 ^ 57"
  shows "unat (word_of_int (int chunks) * word_of_int (i64 (i64 (int n * 3) * 8)) + 8388608 :: u64) = chunks * (24 * n) + 8388608"
    "sint (word_of_int (int chunks) * word_of_int (i64 (i64 (int n * 3) * 8)) + 8388608 :: u64) = int (chunks * (24 * n) + 8388608)"
proof -
  define l where "l = chunks * (24 * n) + 8388608"
  have "i64 (int n * 3) = int n * 3" "i64 (int n * 3 * 8) = 24 * int n"
    using assms(2) by (simp_all add: i64_id)
  then have eq: "word_of_int (int chunks) * word_of_int (i64 (i64 (int n * 3) * 8)) + 8388608 = (word_of_int (int l) :: u64)"
    by (simp add: l_def)
  have l: "l < 2 ^ 62"
    using assms(1) by (simp add: l_def)
  then have u: "unat (word_of_int (int l) :: u64) = l"
    by (subst unat_word_of_int_u64) auto
  then show "unat (word_of_int (int chunks) * word_of_int (i64 (i64 (int n * 3) * 8)) + 8388608 :: u64) = chunks * (24 * n) + 8388608"
    unfolding eq by (simp only: l_def)
  have "sint (word_of_int (int l) :: u64) = int l"
    using sint_eq_unat [of "word_of_int (int l) :: u64"] l u by (simp del: of_nat_unat)
  then show "sint (word_of_int (int chunks) * word_of_int (i64 (i64 (int n * 3) * 8)) + 8388608 :: u64) = int (chunks * (24 * n) + 8388608)"
    unfolding eq by (simp only: l_def)
qed

section \<open>The pinned arena\<close>

text \<open>
  What the runtime guarantees for the calls of a run: each new slice is memory that is not pinned,
  each node is new, and the slices of a chunk do not overlap.
\<close>

definition arena_call :: "int \<Rightarrow> u64 \<Rightarrow> uintptr \<times> uintptr \<Rightarrow> u64 \<Rightarrow> Arena \<Rightarrow> Arena" where
  "arena_call n tid pn cid al = fst (arena_Alloc al (fst pn) (snd pn) (word_of_int (8 * n)) compute_ownerMask tid cid)"

definition arena_chunk :: "int \<Rightarrow> u64 \<Rightarrow> (nat \<Rightarrow> uintptr \<times> uintptr) \<Rightarrow> Arena \<Rightarrow> Arena" where
  "arena_chunk n tid rt al = arena_call n tid (rt 2) 2 (arena_call n tid (rt 1) 1 (arena_call n tid (rt 0) 0 al))"

definition call_ok :: "Arena \<Rightarrow> uintptr \<times> uintptr \<Rightarrow> bool" where
  "call_ok al pn \<longleftrightarrow> gc_ok al (fst pn) (snd pn) \<and> fst pn \<noteq> 0"

definition chunk_ok :: "nat \<Rightarrow> u64 \<Rightarrow> (nat \<Rightarrow> uintptr \<times> uintptr) \<Rightarrow> Arena \<Rightarrow> bool" where
  "chunk_ok n tid rt al \<longleftrightarrow> call_ok al (rt 0) \<and> call_ok (arena_call (int n) tid (rt 0) 0 al) (rt 1) \<and>
     call_ok (arena_call (int n) tid (rt 1) 1 (arena_call (int n) tid (rt 0) 0 al)) (rt 2) \<and>
     ptrs_apart (fst (rt 0), fst (rt 1), fst (rt 2)) (8 * n)"

fun arena_rt_ok :: "(int \<Rightarrow> nat \<Rightarrow> uintptr \<times> uintptr) \<Rightarrow> nat \<Rightarrow> int \<Rightarrow> nat \<Rightarrow> Arena \<Rightarrow> bool" where
  "arena_rt_ok rt n chunk 0 al \<longleftrightarrow> True"
| "arena_rt_ok rt n chunk (Suc k) al \<longleftrightarrow>
     chunk_ok n (word_of_int chunk) (rt chunk) al \<and>
     arena_rt_ok rt n (chunk + 1) k (arena_chunk (int n) (word_of_int chunk) (rt chunk) al)"

lemma arenaFloat64s_ok:
  assumes al: "arena_inv al" "\<not> a_closed al" and n: "0 < n" "8 * int n \<le> maxAlloc"
    and rt: "call_ok al pn" "in_space (fst pn) (8 * n)"
  shows "arenaFloat64s fo pn al m (int n) tid cid =
      ((arena_call (int n) tid pn cid al, zero_floats fo (fst pn) n m), Ok (\<lparr>s_ptr = fst pn, s_len = int n, s_cap = int n\<rparr>, fst pn))"
    "arena_inv (arena_call (int n) tid pn cid al)" "\<not> a_closed (arena_call (int n) tid pn cid al)"
proof -
  define z :: u64 where "z = word_of_int (8 * int n)"
  have i: "i64 (int n * 8) = 8 * int n"
    using n(2) by (simp add: i64_id maxAlloc_def)
  have uz: "unat z = 8 * n"
    using n(2) unat_word_of_int_u64 [of "8 * int n"] unfolding z_def by (simp add: maxAlloc_def nat_mult_distrib del: of_int_mult)
  moreover have "unat z < 2 ^ 63"
    using uz n(2) by (simp add: maxAlloc_def)
  ultimately have z: "z \<noteq> 0" "sint z = 8 * int n"
    using n(1) sint_eq_unat [of z] by (auto simp del: of_nat_unat)
  have gc: "gc_ok al (fst pn) (snd pn)" "fst pn \<noteq> 0"
    using rt(1) by (auto simp: call_ok_def)
  have U: "unsafe_Slice (fst pn) 8 (int n) = Ok \<lparr>s_ptr = fst pn, s_len = int n, s_cap = int n\<rparr>"
    using gc(2) rt(2) by (intro unsafe_Slice_ok) (auto simp: in_space_def)
  have pos: "0 \<le> sint z" "sint z \<le> maxAlloc"
    using z(2) n(2) by simp_all
  obtain k a' where A: "arena_Alloc al (fst pn) (snd pn) z compute_ownerMask tid cid = (a', Ok (fst pn, k))" "a_closed a' = a_closed al"
    by (rule arena_Alloc_open [OF al(1) gc(1) z(1) pos al(2), of compute_ownerMask tid cid])
  have a': "arena_call (int n) tid pn cid al = a'"
    by (simp only: arena_call_def z_def [symmetric] A(1) fst_conv)
  show "arenaFloat64s fo pn al m (int n) tid cid =
      ((arena_call (int n) tid pn cid al, zero_floats fo (fst pn) n m), Ok (\<lparr>s_ptr = fst pn, s_len = int n, s_cap = int n\<rparr>, fst pn))"
    unfolding arenaFloat64s_def i z_def [symmetric] A(1) a' by (simp add: U)
  show "\<not> a_closed (arena_call (int n) tid pn cid al)"
    using A(2) al(2) by (simp add: a')
  show "arena_inv (arena_call (int n) tid pn cid al)"
    using arena_inv_Alloc [OF al(1) gc(1), of z compute_ownerMask tid cid] A(1) by (simp add: a')
qed

lemma arena_slices_ok:
  assumes al: "arena_inv al" "\<not> a_closed al" and n: "0 < n" "8 * int n \<le> maxAlloc" and rt: "chunk_ok n tid rt al"
  shows "\<exists>m' a b c. arena_slices fo rt al m (int n) tid = ((arena_chunk (int n) tid rt al, m'), Ok (a, b, c)) \<and> chunk_slices a b c n"
    "arena_inv (arena_chunk (int n) tid rt al)" "\<not> a_closed (arena_chunk (int n) tid rt al)"
proof -
  let ?s = "\<lambda>i. \<lparr>s_ptr = fst (rt i), s_len = int n, s_cap = int n\<rparr>"
  have sp: "in_space (fst (rt 0)) (8 * n)" "in_space (fst (rt 1)) (8 * n)" "in_space (fst (rt 2)) (8 * n)"
    and ok: "call_ok al (rt 0)" "call_ok (arena_call (int n) tid (rt 0) 0 al) (rt 1)"
      "call_ok (arena_call (int n) tid (rt 1) 1 (arena_call (int n) tid (rt 0) 0 al)) (rt 2)"
    using rt by (auto simp: chunk_ok_def ptrs_apart_def)
  note C0 = arenaFloat64s_ok [OF al n ok(1) sp(1), where tid = tid and cid = 0]
  note C1 = arenaFloat64s_ok [OF C0(2,3) n ok(2) sp(2), where tid = tid and cid = 1]
  note C2 = arenaFloat64s_ok [OF C1(2,3) n ok(3) sp(3), where tid = tid and cid = 2]
  have "chunk_slices (?s 0) (?s 1) (?s 2) n"
    using rt by (intro chunk_slices_ptrs) (auto simp: chunk_ok_def)
  moreover have "\<exists>m'. arena_slices fo rt al m (int n) tid = ((arena_chunk (int n) tid rt al, m'), Ok (?s 0, ?s 1, ?s 2))"
    by (simp add: arena_slices_def C0(1) C1(1) C2(1) arena_chunk_def del: One_nat_def)
  ultimately show "\<exists>m' a b c. arena_slices fo rt al m (int n) tid = ((arena_chunk (int n) tid rt al, m'), Ok (a, b, c)) \<and> chunk_slices a b c n"
    by blast
  show "arena_inv (arena_chunk (int n) tid rt al)" "\<not> a_closed (arena_chunk (int n) tid rt al)"
    using C2(2,3) by (simp_all add: arena_chunk_def)
qed

lemma runArena_loop_value:
  assumes "arena_inv al" "\<not> a_closed al" "0 < n" "8 * int n \<le> maxAlloc" "int j + int k \<le> 2 ^ 62" "arena_rt_ok rt n (int j) k al"
  shows "\<exists>al' m'. runArena_loop fo rt (int n) (int j) k acc al m =
      (al', Ok (m', foldl (\<lambda>t c. f_add fo t (chunk_value fo n (int c))) acc [j..<j + k])) \<and> arena_inv al'"
  using assms
proof (induction k arbitrary: j acc al m)
  case 0
  then show ?case by simp
next
  case (Suc k)
  let ?al = "arena_chunk (int n) (word_of_int (int j)) (rt (int j)) al"
  have H: "chunk_ok n (word_of_int (int j)) (rt (int j)) al" "arena_rt_ok rt n (int (Suc j)) k ?al" "int (Suc j) + int k \<le> 2 ^ 62"
    using Suc.prems(5,6) by (simp_all add: add.commute)
  note S = arena_slices_ok [OF Suc.prems(1-4) H(1)]
  obtain m1 a b c where A: "arena_slices fo (rt (int j)) al m (int n) (word_of_int (int j)) = ((?al, m1), Ok (a, b, c))" "chunk_slices a b c n"
    using S(1) by blast
  obtain m2 where R: "run_chunk fo a b c (int j) acc m1 = Ok (m2, f_add fo acc (chunk_value fo n (int j)))"
    using run_chunk_value [OF A(2), of "int j" fo acc m1] Suc.prems(5) by auto
  have step: "runArena_loop fo rt (int n) (int j) (Suc k) acc al m =
      runArena_loop fo rt (int n) (int (Suc j)) k (f_add fo acc (chunk_value fo n (int j))) ?al m2"
    unfolding runArena_loop.simps A(1) by (simp add: R add.commute)
  show ?case
    unfolding step workload_step by (rule Suc.IH [OF S(2,3) Suc.prems(3,4) H(3,2)])
qed

text \<open>
  On the pinned arena the computation has the same value, and afterwards nothing is pinned.
\<close>

lemma runArena_value:
  assumes "0 < scale" "scale < 2 ^ 63" "0 < n" "8 * int n \<le> maxAlloc" "chunks < 2 ^ 62"
    and "arena_New scale poly = Ok al" "arena_rt_ok rt n 0 chunks al"
  shows "\<exists>al' m'. runArena fo scale poly rt (int chunks) (int n) m = (Some al', Ok (m', workload_value fo chunks n)) \<and> a_pinned al' = {}"
proof -
  have al: "arena_inv al" "\<not> a_closed al"
    using arena_inv_New [OF assms(1,2,6)] assms(6) by (auto simp: arena_New_def)
  obtain al1 m' where R: "runArena_loop fo rt (int n) 0 chunks (f_lit fo ''0.0'') al m = (al1, Ok (m', workload_value fo chunks n))" "arena_inv al1"
    using runArena_loop_value [OF al assms(3,4), of 0 chunks rt fo "f_lit fo ''0.0''" m] assms(5,7) by (auto simp: workload_value_def)
  have "a_pinned (arena_Close al1) = {}"
    using arena_invD(1,3) [OF arena_inv_Close [OF R(2)]] by (auto simp: arena_Close_def)
  then show ?thesis
    by (simp add: runArena_def assms(6) R(1))
qed

lemma runGo_value:
  assumes "8 * int n \<le> maxAlloc" "chunks \<le> 4096" "\<forall>c. ptrs_apart (ptrs c) (8 * n)"
  shows "\<exists>m'. runGo fo ptrs (int chunks) (int n) m = Ok (m', workload_value fo chunks n)"
  using runGo_loop_value [OF assms(1,3), of 0 chunks fo "f_lit fo ''0.0''" m] assms(2)
  by (auto simp: runGo_def workload_value_def)

lemma runBalloc_value:
  assumes "mmap_ok mm" "0 < scale" "scale < 2 ^ 63" "cache_ok cache" "0 < n" "8 * int n \<le> maxAlloc"
    and "chunks \<le> 4096" "chunks * (24 * n) + 8388608 < 2 ^ 62"
    and "mm (int (chunks * (24 * n) + 8388608)) = Inr r"
  shows "\<exists>cache' u m'. runBalloc fo poly scale mm cache (int chunks) (int n) m = (cache', u, Ok (m', workload_value fo chunks n)) \<and> cache_ok cache'"
proof -
  have n: "n < 2 ^ 57"
    using assms(6) by (simp add: maxAlloc_def)
  note B = chunk_bytes [OF assms(8) n]
  let ?len = "word_of_int (int chunks) * word_of_int (i64 (i64 (int n * 3) * 8)) + 8388608 :: u64"
  have len: "8388608 \<le> unat ?len" "\<exists>r. mm (sint ?len) = Inr r"
    using assms(9) unfolding B by auto
  obtain cache1 u b where C: "cachedBalloc scale mm cache ?len = (cache1, u, Ok b)" "cache_ok (cache1\<lparr>cache_alloc := Some b\<rparr>)"
    "unat ?len \<le> unat (cache_length cache1)"
    by (rule cachedBalloc_ok [OF assms(1-4) len])
  have b: "balloc_inv b" "closed b = 0" "unat (payloadBase b) = unat (MmapBase b) + 163840" "MmapLength b = cache_length cache1"
    using C(2) by (simp_all add: cache_ok_def)
  obtain b' m1 where W: "runBallocWithAllocator fo poly b (int chunks) (int n) m = (b', Ok (m1, workload_value fo chunks n))"
    "balloc_inv b'" "closed b' = 0" "same_map b b'"
    using runBallocWithAllocator_value [OF b(1-3) _ assms(5) n assms(7), of fo poly m] C(3) b(4) unfolding B by auto
  have "runBalloc fo poly scale mm cache (int chunks) (int n) m = (cache1\<lparr>cache_alloc := Some b'\<rparr>, u, Ok (m1, workload_value fo chunks n))"
    unfolding runBalloc_def Let_def C(1) by (simp add: W(1))
  moreover have "cache_ok (cache1\<lparr>cache_alloc := Some b'\<rparr>)"
    using W(2-4) b(3,4) by (simp add: cache_ok_def same_map_def)
  ultimately show ?thesis
    by blast
qed

text \<open>
  C30: the computation on the cached block allocator returns exactly the value that it has on the Go
  heap, whatever the floating-point operations are, and it never fails, when the mapping succeeds
  and there are at most 4096 chunks: the mapping that \<open>cachedBalloc\<close> keeps or makes has room for the
  nodes and for all chunks. Afterwards the cache again holds an open allocator of the length it
  remembers, so runs can follow each other.
\<close>

theorem runBalloc_equals_runGo:
  assumes "mmap_ok mm" "0 < scale" "scale < 2 ^ 63" "cache_ok cache" "0 < n" "8 * int n \<le> maxAlloc"
    and "chunks \<le> 4096" "chunks * (24 * n) + 8388608 < 2 ^ 62"
    and "mm (int (chunks * (24 * n) + 8388608)) = Inr r" "\<forall>c. ptrs_apart (ptrs c) (8 * n)"
  shows "\<exists>cache' u m1 m2. runBalloc fo poly scale mm cache (int chunks) (int n) m = (cache', u, Ok (m1, workload_value fo chunks n)) \<and>
    cache_ok cache' \<and> runGo fo ptrs (int chunks) (int n) m' = Ok (m2, workload_value fo chunks n)"
  using runBalloc_value [OF assms(1-9), of fo poly m] runGo_value [OF assms(6,7,10), of fo m'] by blast

text \<open>
  The program prints the same sum twice, when the 32 MiB that the workload needs can be mapped.
\<close>

lemma compute_main_prints:
  assumes "mmap_ok mm" "0 < scale" "scale < 2 ^ 63" "cache_ok cache" "mm 33554432 = Inr r" "\<forall>c. ptrs_apart (ptrs c) (8 * 32768)"
  shows "compute_main fo poly scale mm ptrs cache m =
    Ok [(''go'', workload_value fo 32 32768), (''balloc'', workload_value fo 32 32768)]"
proof -
  have B: "\<exists>cache' u m'. runBalloc fo poly scale mm cache 32 32768 m = (cache', u, Ok (m', workload_value fo 32 32768)) \<and> cache_ok cache'"
    if "cache_ok cache" for cache m
    using runBalloc_value [OF assms(1-3) that, of 32768 32 r fo poly m] assms(5) by (simp add: maxAlloc_def)
  obtain cache1 u1 m1 where R1: "runBalloc fo poly scale mm cache 32 32768 m = (cache1, u1, Ok (m1, workload_value fo 32 32768))" "cache_ok cache1"
    using B [OF assms(4)] by blast
  obtain m2 where G: "runGo fo ptrs 32 32768 m1 = Ok (m2, workload_value fo 32 32768)"
    using runGo_value [OF _ _ assms(6), of 32 fo m1] by (auto simp: maxAlloc_def)
  obtain cache2 u2 m3 where R2: "runBalloc fo poly scale mm cache1 32 32768 m2 = (cache2, u2, Ok (m3, workload_value fo 32 32768))"
    using B [OF R1(2)] by blast
  have sizes: "chunkCount = 32" "vectorLen = 32768"
    by (simp_all add: chunkCount_def vectorLen_def)
  show ?thesis
    unfolding compute_main_def sizes R1(1) by (simp add: compute_run_def G R2)
qed

text \<open>Arithmetic on integers in place of floats, and three slices at fixed addresses.\<close>

definition sample_flops :: "int flops" where
  "sample_flops = \<lparr>f_lit = (\<lambda>s. int (length s)), f_int = id, f_add = (+), f_mul = (*), f_muladd = (\<lambda>x y z. x * y + z)\<rparr>"

definition sample_map :: "int \<Rightarrow> go_error + uintptr \<times> uintptr" where
  "sample_map n = (if n = 8391680 then Inr (0x10000, 8391680) else Inl (Sys_Err 12))"

theorem runBalloc_equals_runGo_witness:
  "\<exists>cache' u m1 m2. runBalloc sample_flops 0x11B 8 sample_map \<lparr>cache_alloc = None, cache_length = 0\<rparr> 32 4 (\<lambda>_. 0) =
       (cache', u, Ok (m1, workload_value sample_flops 32 4)) \<and> cache_ok cache' \<and>
     runGo sample_flops (\<lambda>_. (0x1000, 0x2000, 0x3000)) 32 4 (\<lambda>_. 0) = Ok (m2, workload_value sample_flops 32 4)"
proof -
  have "mmap_ok sample_map"
    by (auto simp: mmap_ok_def sample_map_def split: if_splits)
  moreover have "\<forall>c :: int. ptrs_apart (0x1000, 0x2000, 0x3000) (8 * 4)"
    by (auto simp: ptrs_apart_def in_space_def span_def)
  ultimately show ?thesis
    using runBalloc_equals_runGo [of sample_map 8 "\<lparr>cache_alloc = None, cache_length = 0\<rparr>" 4 32 "(0x10000, 8391680)" "\<lambda>_. (0x1000, 0x2000, 0x3000)"
        sample_flops "0x11B" "\<lambda>_. 0" "\<lambda>_. 0"]
    by (simp add: cache_ok_def maxAlloc_def sample_map_def)
qed

lemma sample_arena_rt:
  "arena_rt_ok (\<lambda>_ j. (0xC000 + 0x100 * of_nat j, 0xD000 + 0x100 * of_nat j)) 16 0 1 sample_arena"
proof -
  have "\<exists>k. topology_bucket (a_topo sample_arena) 0 c = Ok k" for c
    using arena_inv_bucket [OF arena_reachable_inv [OF _ _ sample_arena_reachable], of 0 c] by (auto simp: arena_Bucket_def)
  then obtain k where k: "topology_bucket (a_topo sample_arena) 0 c = Ok (k c)" for c
    by metis
  have 1: "arena_call 16 0 (0xC000, 0xD000) 0 sample_arena = sample_arena_one"
    using k [of 0] by (simp add: arena_call_def arena_Alloc_def go_make_bytes_def maxAlloc_def memTree_insert_def sample_arena_one_def
        sample_arena_def Let_def compute_ownerMask_def)
  have 2: "call_ok (arena_call 16 0 (0xC100, 0xD100) 1 sample_arena_one) (0xC200, 0xD200)"
    using k [of 1] by (simp add: call_ok_def gc_ok_def in_tree_def arena_call_def arena_Alloc_def go_make_bytes_def maxAlloc_def memTree_insert_def
        sample_arena_one_def sample_arena_def Let_def compute_ownerMask_def findNode.simps arena_insertNode.simps)
  have 3: "call_ok sample_arena (0xC000, 0xD000)" "call_ok sample_arena_one (0xC100, 0xD100)"
    by (simp_all add: call_ok_def gc_ok_def in_tree_def sample_arena_one_def sample_arena_def)
  have "ptrs_apart (0xC000, 0xC100, 0xC200) 128"
    by (auto simp: ptrs_apart_def in_space_def span_def)
  with 1 2 3 show ?thesis
    by (simp add: chunk_ok_def)
qed

end
