(* ===== verification/Webapp.thy ===== *)
theory Webapp
  imports Alloc_Http Compute
begin

text \<open>
  The example web server (examples/webapp/main.go): its two handlers behind the middleware of the
  package alloc, over a pool of block allocators. \<open>encoding/json\<close>, the clock and floating-point
  arithmetic are parameters. The mapping is seen as cells of \<open>Row\<close> where the query handler uses it;
  a row holds the pointer and the length of its label, whose bytes are on the Go heap. The mapping is
  no root of the garbage collector, so what a collection does to those bytes is a parameter too. The
  router compares the path, as \<open>http.ServeMux\<close> does with these patterns.

  Shown here: what the query handler answers on every branch, and that a whole request is answered
  with the rows it asks for, whose numbers are always right and whose labels are right as long as the
  collector leaves them alone, and gives a clean allocator back to the pool.
\<close>

section \<open>Data models\<close>

record QueryRequest =
  Table :: string
  Limit :: int
  Fields :: "string list"

text \<open>A string of Go: its bytes are wherever the pointer says.\<close>

record go_string =
  str_ptr :: uintptr
  str_len :: int

record 'f Row =
  ID :: int
  Value :: 'f
  Label :: go_string

record QueryResponse =
  Rows :: slice
  Count :: int

text \<open>A row takes 32 bytes: an integer, a float and the two words of a string.\<close>

definition sizeof_Row :: uintptr where
  "sizeof_Row = 32"

text \<open>What a handler writes: \<open>http.Error\<close>, or a content type and a body.\<close>

datatype web_reply = WebError nat go_error | Web string "byte list" | NotFound

section \<open>Handlers\<close>

text \<open>\<open>%d\<close> for the numbers that occur.\<close>

fun decimal :: "nat \<Rightarrow> string" where
  "decimal n = (if n < 10 then [char_of (48 + n)] else decimal (n div 10) @ [char_of (48 + n mod 10)])"

declare decimal.simps [simp del]

type_synonym 'f row_mem = "uintptr \<Rightarrow> 'f Row"

definition row_at :: "slice \<Rightarrow> int \<Rightarrow> uintptr" where
  "row_at s i = s_ptr s + word_of_int (32 * i)"

text \<open>What \<open>Sprintf\<close> makes for row \<open>i\<close>, and the row with a label that lies at \<open>lab\<close>.\<close>

definition row_label :: "int \<Rightarrow> byte list" where
  "row_label i = map of_char (''row-'' @ decimal (nat (i64 (i + 1))))"

definition row_value :: "'f flops \<Rightarrow> int \<Rightarrow> 'f" where
  "row_value fo i = f_mul fo (f_int fo i) (f_lit fo ''1.618'')"

definition make_row :: "'f flops \<Rightarrow> uintptr \<Rightarrow> int \<Rightarrow> 'f Row" where
  "make_row fo lab i = \<lparr>ID = i64 (i + 1), Value = row_value fo i,
     Label = \<lparr>str_ptr = lab, str_len = int (length (row_label i))\<rparr>\<rparr>"

text \<open>
  The label of row \<open>i\<close> is made at \<open>labels i\<close> on the Go heap. A collection may run after each row; what
  it does to the heap, where only the mapping points to the labels, is \<open>gc i\<close>.
\<close>

fun rows_loop :: "'f flops \<Rightarrow> (int \<Rightarrow> uintptr) \<Rightarrow> (int \<Rightarrow> mem \<Rightarrow> mem) \<Rightarrow> slice \<Rightarrow> int \<Rightarrow> nat \<Rightarrow> 'f row_mem \<Rightarrow> mem \<Rightarrow> 'f row_mem \<times> mem" where
  "rows_loop fo labels gc rows i 0 m h = (m, h)"
| "rows_loop fo labels gc rows i (Suc k) m h =
     rows_loop fo labels gc rows (i + 1) k (m(row_at rows i := make_row fo (labels i) i))
       (gc i (write_bytes h (labels i) (row_label i)))"

text \<open>
  The encoder reads the rows one after the other, each label through its pointer at that time; a
  collection may run after each row here too.
\<close>

fun read_rows :: "(int \<Rightarrow> mem \<Rightarrow> mem) \<Rightarrow> 'f row_mem \<Rightarrow> slice \<Rightarrow> int \<Rightarrow> nat \<Rightarrow> mem \<Rightarrow> (int \<times> 'f \<times> byte list) list \<times> mem" where
  "read_rows gc m s i 0 h = ([], h)"
| "read_rows gc m s i (Suc k) h =
     (let r = m (row_at s i); (rs, h') = read_rows gc m s (i + 1) k (gc (s_len s + i) h)
      in ((ID r, Value r, read_bytes h (str_ptr (Label r)) (nat (str_len (Label r)))) # rs, h'))"

text \<open>
  When the encoder fails, nothing is written and the error is logged. \<open>before\<close> is what the memory
  holds before the rows are written.
\<close>

definition queryHandler ::
  "'f flops \<Rightarrow> (int \<Rightarrow> uintptr) \<Rightarrow> (int \<Rightarrow> mem \<Rightarrow> mem) \<Rightarrow> ('b \<Rightarrow> go_error + QueryRequest)
   \<Rightarrow> ((int \<times> 'f \<times> byte list) list \<times> int \<Rightarrow> go_error + byte list) \<Rightarrow> u64 \<Rightarrow> go_rt \<Rightarrow> 'f row_mem
   \<Rightarrow> alloc_world \<Rightarrow> ctx \<Rightarrow> 'b \<Rightarrow> alloc_world \<times> web_reply outcome" where
  "queryHandler fo labels gc decode encode poly rt before w c body =
     (case decode body of
        Inl e \<Rightarrow> (w, Ok (WebError 400 e))
      | Inr req \<Rightarrow>
          (case MakeSlice poly rt sizeof_Row w c (Limit req) (Limit req) of
             (w', Err e) \<Rightarrow> (w', Ok (WebError 500 e))
           | (w', Panic q) \<Rightarrow> (w', Panic q)
           | (w', Diverge) \<Rightarrow> (w', Diverge)
           | (w', Ok rows) \<Rightarrow>
               let (m, h) = rows_loop fo labels gc rows 0 (nat (s_len rows)) before (aw_mem w');
                   resp = \<lparr>Rows = rows, Count = s_len rows\<rparr>;
                   (rs, h') = read_rows gc m (Rows resp) 0 (nat (s_len (Rows resp))) h
               in (w'\<lparr>aw_mem := h'\<rparr>, Ok (case encode (rs, Count resp) of
                     Inl e \<Rightarrow> Web ''application/json'' []
                   | Inr bs \<Rightarrow> Web ''application/json'' bs))))"

text \<open>
  \<open>Fprintf\<close> formats a line into memory of its own, at \<open>scratch i\<close>, and calls \<open>Write\<close>; the handler
  ignores its error.
\<close>

definition buffer_line :: "(nat \<Rightarrow> string) \<Rightarrow> nat \<Rightarrow> byte list" where
  "buffer_line now i = map of_char (''line '' @ decimal (i + 1) @ '': '' @ now i @ [CHR 0x0A])"

fun buffer_loop :: "(nat \<Rightarrow> string) \<Rightarrow> u64 \<Rightarrow> (nat \<Rightarrow> go_rt) \<Rightarrow> (nat \<Rightarrow> uintptr) \<Rightarrow> nat \<Rightarrow> nat \<Rightarrow> alloc_state \<Rightarrow> alloc_state \<times> unit outcome" where
  "buffer_loop now poly rt scratch i 0 st = (st, Ok ())"
| "buffer_loop now poly rt scratch i (Suc k) (w, b) =
     (let line = buffer_line now i in
      case alloc_Write poly (rt i) (w\<lparr>aw_mem := write_bytes (aw_mem w) (scratch i) line\<rparr>, b) (byte_slice (scratch i) line) of
        (st, Ok _) \<Rightarrow> buffer_loop now poly rt scratch (i + 1) k st
      | (st, Err _) \<Rightarrow> buffer_loop now poly rt scratch (i + 1) k st
      | (st, Panic q) \<Rightarrow> (st, Panic q)
      | (st, Diverge) \<Rightarrow> (st, Diverge))"

definition bufferHandler ::
  "(nat \<Rightarrow> string) \<Rightarrow> u64 \<Rightarrow> (nat \<Rightarrow> go_rt) \<Rightarrow> (nat \<Rightarrow> uintptr) \<Rightarrow> alloc_world \<Rightarrow> ctx \<Rightarrow> 'b \<Rightarrow> alloc_world \<times> web_reply outcome" where
  "bufferHandler now poly rt scratch w c body =
     (case buffer_loop now poly rt scratch 0 1000 (w, alloc_NewBuffer c) of
        ((w', b), Ok _) \<Rightarrow> (w', Ok (Web ''text/plain'' (slice_bytes (aw_mem w') (alloc_Bytes b))))
      | ((w', b), Err e) \<Rightarrow> (w', Err e)
      | ((w', b), Panic q) \<Rightarrow> (w', Panic q)
      | ((w', b), Diverge) \<Rightarrow> (w', Diverge))"

section \<open>Main\<close>

text \<open>A request is a path and a body; the two handlers have their parameters already.\<close>

definition mux ::
  "(alloc_world \<Rightarrow> ctx \<Rightarrow> 'b \<Rightarrow> alloc_world \<times> web_reply outcome) \<Rightarrow> (alloc_world \<Rightarrow> ctx \<Rightarrow> 'b \<Rightarrow> alloc_world \<times> web_reply outcome)
   \<Rightarrow> alloc_world \<Rightarrow> ctx \<Rightarrow> string \<times> 'b \<Rightarrow> alloc_world \<times> web_reply outcome" where
  "mux query buffer w c req =
     (if fst req = ''/query'' then query w c (snd req)
      else if fst req = ''/buffer'' then buffer w c (snd req)
      else (w, Ok NotFound))"

definition webapp_main ::
  "int \<Rightarrow> u64 \<Rightarrow> (alloc_world \<Rightarrow> ctx \<Rightarrow> 'b \<Rightarrow> alloc_world \<times> web_reply outcome) \<Rightarrow> (alloc_world \<Rightarrow> ctx \<Rightarrow> 'b \<Rightarrow> alloc_world \<times> web_reply outcome)
   \<Rightarrow> alloc_world \<Rightarrow> nat option \<Rightarrow> (int \<Rightarrow> go_error + uintptr \<times> uintptr) \<Rightarrow> uintptr \<Rightarrow> ctx \<Rightarrow> string \<times> 'b
   \<Rightarrow> alloc_world \<times> web_reply served" where
  "webapp_main scale poly query buffer = alloc_Middleware (BallocFactory scale (push_bit 20 64)) scale poly (mux query buffer)"

section \<open>The rows of an answer\<close>

lemma row_at_unat:
  assumes "in_space (s_ptr s) (32 * n)" "i < n"
  shows "unat (row_at s (int i)) = unat (s_ptr s) + 32 * i"
proof -
  have "row_at s (int i) = s_ptr s + of_nat (32 * i)"
    by (simp add: row_at_def)
  with in_space_add [OF assms(1), of "32 * i"] assms(2) show ?thesis by simp
qed

lemma row_at_inj:
  assumes "in_space (s_ptr s) (32 * n)" "i < n" "j < n" "row_at s (int i) = row_at s (int j)"
  shows "i = j"
proof -
  have "unat (s_ptr s) + 32 * i = unat (s_ptr s) + 32 * j"
    unfolding row_at_unat [OF assms(1,2), symmetric] row_at_unat [OF assms(1,3), symmetric] assms(4) ..
  then show ?thesis by simp
qed

lemma rows_loop_cells:
  assumes "in_space (s_ptr s) (32 * n)" "i + k = n"
  shows "(\<forall>j. i \<le> j \<and> j < n \<longrightarrow>
      fst (rows_loop fo labels gc s (int i) k m h) (row_at s (int j)) = make_row fo (labels (int j)) (int j)) \<and>
    (\<forall>j < i. fst (rows_loop fo labels gc s (int i) k m h) (row_at s (int j)) = m (row_at s (int j)))"
  using assms(2)
proof (induction k arbitrary: i m h)
  case (Suc k)
  define m1 where "m1 = m(row_at s (int i) := make_row fo (labels (int i)) (int i))"
  define h1 where "h1 = gc (int i) (write_bytes h (labels (int i)) (row_label (int i)))"
  have step: "rows_loop fo labels gc s (int i) (Suc k) m h = rows_loop fo labels gc s (int (Suc i)) k m1 h1"
    by (simp add: m1_def h1_def add.commute)
  have "m1 (row_at s (int j)) = m (row_at s (int j))" if "j < i" for j
    using row_at_inj [OF assms(1), of i j] that Suc.prems unfolding m1_def by auto
  moreover have "m1 (row_at s (int i)) = make_row fo (labels (int i)) (int i)"
    by (simp add: m1_def)
  ultimately show ?case
    unfolding step using Suc.IH [of "Suc i" m1 h1] Suc.prems by (metis Suc_leI add_Suc_shift le_neq_implies_less less_Suc_eq)
qed auto

text \<open>
  The collector leaves the labels alone: they are made in separate places, and no collection changes
  the bytes of one that has been made.
\<close>

abbreviation label_span :: "(int \<Rightarrow> uintptr) \<Rightarrow> nat \<Rightarrow> nat set" where
  "label_span labels i \<equiv> span (labels (int i)) (length (row_label (int i)))"

definition labels_survive :: "(int \<Rightarrow> uintptr) \<Rightarrow> (int \<Rightarrow> mem \<Rightarrow> mem) \<Rightarrow> nat \<Rightarrow> bool" where
  "labels_survive labels gc n \<longleftrightarrow>
     (\<forall>i < n. in_space (labels (int i)) (length (row_label (int i)))) \<and>
     (\<forall>i < n. \<forall>j < i. label_span labels i \<inter> label_span labels j = {}) \<and>
     (\<forall>t h. \<forall>i < n. i \<le> t \<longrightarrow> (\<forall>x. unat x \<in> label_span labels i \<longrightarrow> gc (int t) h x = h x))"

text \<open>What a heap holds at the place of label \<open>i\<close>.\<close>

abbreviation label_at :: "(int \<Rightarrow> uintptr) \<Rightarrow> mem \<Rightarrow> nat \<Rightarrow> byte list" where
  "label_at labels h i \<equiv> read_bytes h (labels (int i)) (length (row_label (int i)))"

lemma label_kept:
  assumes "labels_survive labels gc n" "i < n" "i \<le> t"
  shows "label_at labels (gc (int t) h) i = label_at labels h i"
  using assms by (intro read_bytes_cong) (auto simp: labels_survive_def)

lemma rows_loop_labels:
  assumes "labels_survive labels gc n" "i + k = n" "j < n" "j < i \<Longrightarrow> label_at labels h j = row_label (int j)"
  shows "label_at labels (snd (rows_loop fo labels gc s (int i) k m h)) j = row_label (int j)"
  using assms(2,4)
proof (induction k arbitrary: i m h)
  case 0
  with assms(3) show ?case by simp
next
  case (Suc k)
  let ?h = "write_bytes h (labels (int i)) (row_label (int i))"
  have sp: "in_space (labels (int i)) (length (row_label (int i)))" "j < i \<Longrightarrow> label_span labels i \<inter> label_span labels j = {}"
    using assms(1) Suc.prems(1) by (simp_all add: labels_survive_def)
  have "label_at labels ?h j = row_label (int j)" if "j \<le> i"
  proof (cases "j = i")
    case True
    with sp(1) show ?thesis by (simp add: read_write_bytes)
  next
    case False
    then have "j < i"
      using that by simp
    have "label_at labels ?h j = label_at labels h j"
    proof (rule read_bytes_cong)
      show "in_space (labels (int j)) (length (row_label (int j)))"
        using assms(1,3) by (simp add: labels_survive_def)
    qed (use sp \<open>j < i\<close> in \<open>auto intro!: write_bytes_other\<close>)
    with Suc.prems(2) \<open>j < i\<close> show ?thesis by simp
  qed
  then have "j < Suc i \<Longrightarrow> label_at labels (gc (int i) ?h) j = row_label (int j)"
    using label_kept [OF assms(1,3), of i ?h] by simp
  from Suc.IH [where i = "Suc i", OF _ this, where m = "m(row_at s (int i) := make_row fo (labels (int i)) (int i))"] Suc.prems(1)
  show ?case by (simp add: add.commute fun_upd_def)
qed

text \<open>
  The rows as the encoder sees them: their numbers are right, their labels have the right length, and
  the right bytes if the collector leaves them alone.
\<close>

definition seen_rows :: "'f flops \<Rightarrow> byte list list \<Rightarrow> (int \<times> 'f \<times> byte list) list" where
  "seen_rows fo ls = map (\<lambda>i. (i64 (int i + 1), row_value fo (int i), ls ! i)) [0..<length ls]"

lemma read_rows_from:
  assumes "\<forall>j. i \<le> j \<and> j < n \<longrightarrow> m (row_at s (int j)) = make_row fo (labels (int j)) (int j)" "i + k = n" "s_len s = int n"
  shows "\<exists>ls. fst (read_rows gc m s (int i) k h) = map (\<lambda>j. (i64 (int (i + j) + 1), row_value fo (int (i + j)), ls ! j)) [0..<k] \<and>
    length ls = k \<and> (\<forall>j < k. length (ls ! j) = length (row_label (int (i + j)))) \<and>
    (labels_survive labels gc n \<longrightarrow> (\<forall>j < k. label_at labels h (i + j) = row_label (int (i + j))) \<longrightarrow>
      ls = map (\<lambda>j. row_label (int (i + j))) [0..<k])"
  using assms(1,2)
proof (induction k arbitrary: i h)
  case (Suc k)
  let ?h = "gc (s_len s + int i) h"
  obtain ls where ls: "fst (read_rows gc m s (int (Suc i)) k ?h) =
      map (\<lambda>j. (i64 (int (Suc i + j) + 1), row_value fo (int (Suc i + j)), ls ! j)) [0..<k]"
    "length ls = k" "\<forall>j < k. length (ls ! j) = length (row_label (int (Suc i + j)))"
    "labels_survive labels gc n \<longrightarrow> (\<forall>j < k. label_at labels ?h (Suc i + j) = row_label (int (Suc i + j))) \<longrightarrow>
      ls = map (\<lambda>j. row_label (int (Suc i + j))) [0..<k]"
    using Suc.IH [of "Suc i" ?h] Suc.prems by auto
  have row: "m (row_at s (int i)) = make_row fo (labels (int i)) (int i)"
    using Suc.prems by simp
  have kept: "label_at labels ?h (Suc i + j) = label_at labels h (Suc i + j)" if "labels_survive labels gc n" "j < k" for j
    using label_kept [OF that(1), of "Suc i + j" "n + i" h] that(2) Suc.prems(2) assms(3) by simp
  have up: "map f [0..<Suc k] = f 0 # map (\<lambda>j. f (Suc j)) [0..<k]" for f :: "nat \<Rightarrow> 'x"
    by (simp add: map_upt_Suc del: upt_Suc)
  have all: "ls = map (\<lambda>j. row_label (int (Suc i + j))) [0..<k]"
    if "labels_survive labels gc n" "\<forall>j < Suc k. label_at labels h (i + j) = row_label (int (i + j))"
  proof -
    have "label_at labels ?h (Suc i + j) = row_label (int (Suc i + j))" if "j < k" for j
      using kept [OF \<open>labels_survive labels gc n\<close> that] \<open>\<forall>j < Suc k. _\<close> [rule_format, of "Suc j"] that by simp
    with ls(4) that(1) show ?thesis by blast
  qed
  have len: "length ((label_at labels h i # ls) ! j) = length (row_label (int (i + j)))" if "j < Suc k" for j
    using ls(3) that by (cases j) auto
  have "fst (read_rows gc m s (int i) (Suc k) h) =
      map (\<lambda>j. (i64 (int (i + j) + 1), row_value fo (int (i + j)), (label_at labels h i # ls) ! j)) [0..<Suc k]"
    unfolding up using ls(1) row by (simp add: make_row_def split_beta Let_def add.commute add.left_commute)
  moreover have "label_at labels h i # ls = map (\<lambda>j. row_label (int (i + j))) [0..<Suc k]"
    if "labels_survive labels gc n" "\<forall>j < Suc k. label_at labels h (i + j) = row_label (int (i + j))"
    unfolding up using all [OF that] that(2) [rule_format, of 0] by simp
  ultimately show ?case
    using ls(2) len by (intro exI [of _ "label_at labels h i # ls"]) auto
qed simp

lemma read_rows_loop:
  assumes "in_space (s_ptr s) (32 * n)" "s_len s = int n" "rows_loop fo labels gc s 0 n m h = (m1, h1)"
  obtains ls h2 where "read_rows gc m1 s 0 n h1 = (seen_rows fo ls, h2)" "length ls = n"
    "\<forall>i < n. length (ls ! i) = length (row_label (int i))" "labels_survive labels gc n \<longrightarrow> ls = map (\<lambda>i. row_label (int i)) [0..<n]"
proof -
  have m1: "\<forall>j. 0 \<le> j \<and> j < n \<longrightarrow> m1 (row_at s (int j)) = make_row fo (labels (int j)) (int j)"
    using rows_loop_cells [OF assms(1), of 0 n fo labels gc m h] assms(3) by simp
  have h1: "labels_survive labels gc n \<Longrightarrow> \<forall>j < n. label_at labels h1 (0 + j) = row_label (int (0 + j))"
    using rows_loop_labels [of labels gc n 0 n _ h fo s m] assms(3) by simp
  obtain ls where "fst (read_rows gc m1 s 0 n h1) = seen_rows fo ls" "length ls = n"
    "\<forall>i < n. length (ls ! i) = length (row_label (int i))" "labels_survive labels gc n \<longrightarrow> ls = map (\<lambda>i. row_label (int i)) [0..<n]"
    using read_rows_from [OF m1 _ assms(2), of n gc h1] h1 by (auto simp: seen_rows_def)
  then show thesis
    by (intro that [of ls "snd (read_rows gc m1 s 0 n h1)"]) (auto simp: prod_eq_iff)
qed

section \<open>The allocators of the pool\<close>

text \<open>
  The block allocators of 64 MiB that the factory makes: in use, and as they come out of the factory
  or of \<open>Reset\<close>.
\<close>

definition web_block :: "BlockAllocator \<Rightarrow> bool" where
  "web_block b \<longleftrightarrow> balloc_inv b \<and> closed b = 0 \<and> unat (payloadBase b) = unat (MmapBase b) + 163840 \<and>
     unat (payloadEnd b) = unat (MmapBase b) + 67108864"

definition fresh_block :: "BlockAllocator \<Rightarrow> bool" where
  "fresh_block b \<longleftrightarrow> web_block b \<and> freeList b = 0 \<and> bump b = payloadBase b \<and> nodeBump b = nodeBase b"

definition web_used :: "Allocator \<Rightarrow> bool" where
  "web_used x \<longleftrightarrow> (\<exists>b. x = BallocWrapper b \<and> web_block b)"

definition web_fresh :: "Allocator \<Rightarrow> bool" where
  "web_fresh x \<longleftrightarrow> (\<exists>b. x = BallocWrapper b \<and> fresh_block b)"

lemma factory_fresh:
  assumes "mmap_ok mm" "0 < scale" "scale < 2 ^ 63" "mm 67108864 = Inr r"
  obtains x where "BallocFactory scale (push_bit 20 64) mm = Ok x" "web_fresh x"
proof -
  have len: "push_bit 20 64 = (67108864 :: u64)" "sint (67108864 :: u64) = 67108864" "unat (67108864 :: u64) = 67108864"
    by (simp_all add: push_bit_eq_mult)
  obtain b where b: "balloc_New scale mm 67108864 = Ok b"
    using balloc_New_spec [OF assms(1-3), of 67108864] assms(4) len by (cases "balloc_New scale mm 67108864") auto
  have "web_block b" "bump b = payloadBase b"
    using balloc_New_spec [OF assms(1-3), of 67108864] b balloc_inv_New [OF assms(1-3) b] by (simp_all add: web_block_def)
  moreover have "freeList b = 0" "nodeBump b = nodeBase b"
    using balloc_New_layout [OF assms(1-3) b] by simp_all
  ultimately show thesis
    using that b by (simp add: BallocFactory_def NewBalloc_def len(1) web_fresh_def fresh_block_def)
qed

lemma Reset_fresh:
  assumes "web_used x"
  obtains x' where "Allocator_Reset scale poly x = (x', Ok ())" "web_fresh x'"
proof -
  obtain b where b: "x = BallocWrapper b" "web_block b"
    using assms by (auto simp: web_used_def)
  have "Allocator_Reset scale poly x = (BallocWrapper (fst (balloc_Reset b)), Ok ())"
    using b by (simp add: Allocator_Reset_def ballocWrapper_Reset_def balloc_Reset_def web_block_def)
  moreover have "fresh_block (fst (balloc_Reset b))"
    using b(2) balloc_inv_Reset [of b] by (simp add: fresh_block_def web_block_def balloc_Reset_def)
  ultimately show thesis
    using that by (auto simp: web_fresh_def)
qed

interpretation web_pool: recycling_pool aw_pool aw_objs web_fresh web_used
  "\<lambda>w w' a. \<exists>scale mm r c self. mmap_ok mm \<and> 0 < scale \<and> scale < 2 ^ 63 \<and> mm 67108864 = Inr r \<and> aw_objs w self = None \<and>
     alloc_Pool_Get (BallocFactory scale (push_bit 20 64)) w c mm self = (w', Ok a)"
  "\<lambda>w a w'. alloc_Pool_Put scale poly w a = (w', Ok ())" for scale poly
proof (unfold_locales, elim exE conjE)
  fix w w' a scale mm r c self
  assume F: "mmap_ok mm" "0 < scale" "scale < 2 ^ 63" "mm 67108864 = Inr r"
    and G: "aw_objs w self = None" "alloc_Pool_Get (BallocFactory scale (push_bit 20 64)) w c mm self = (w', Ok a)"
  obtain x where x: "BallocFactory scale (push_bit 20 64) mm = Ok x" "web_fresh x"
    by (rule factory_fresh [OF F])
  show "(\<exists>c. pool_take c (aw_pool w) = Some (a, aw_pool w') \<and> aw_objs w' = aw_objs w) \<or>
    (aw_objs w a = None \<and> aw_pool w' = aw_pool w \<and> (\<exists>x. web_fresh x \<and> aw_objs w' = (aw_objs w)(a \<mapsto> x)))"
    using G x by (cases "pool_take c (aw_pool w)") (auto simp: alloc_Pool_Get_def split: prod.splits)
next
  fix w a w' x
  assume P: "alloc_Pool_Put scale poly w a = (w', Ok ())" "aw_objs w a = Some x" "web_used x"
  obtain x' where "Allocator_Reset scale poly x = (x', Ok ())" "web_fresh x'"
    by (rule Reset_fresh [OF P(3)])
  then show "\<exists>x'. web_fresh x' \<and> aw_pool w' = a # aw_pool w \<and> aw_objs w' = (aw_objs w)(a \<mapsto> x')"
    using P(1,2) by (auto simp: alloc_Pool_Put_def)
qed

text \<open>A fresh allocator has room for two million rows.\<close>

definition max_rows :: int where
  "max_rows = 2092031"

lemma fresh_block_Alloc:
  assumes "fresh_block b" "sz \<noteq> 0" "unat sz \<le> 66945016"
  obtains b' k where "balloc_Alloc poly b sz 1 0 0 = (b', Ok (payloadBase b, k))" "web_block b'"
proof -
  have b: "balloc_inv b" "closed b = 0" "freeList b = 0" "bump b = payloadBase b" "nodeBump b = nodeBase b"
      "unat (payloadBase b) = unat (MmapBase b) + 163840" "unat (payloadEnd b) = unat (MmapBase b) + 67108864"
    using assms(1) by (auto simp: fresh_block_def web_block_def)
  have lay: "layout b"
    using b(1) refines_fields(1) by (auto simp: balloc_inv_def)
  have lt: "unat (payloadEnd b) < 2 ^ 64"
    by simp
  have nw: "no_wrap b sz"
    using b assms(3) lt lay unfolding no_wrap_def by (simp add: layout_def meta_limit_def del: unat_lt_u64)
  have "balloc_place b sz = Some (payloadBase b)"
    using b assms(3) round8_bounds [of "unat sz"] lay by (simp add: balloc_place_def balloc_head_def layout_def meta_limit_def)
  moreover obtain k where "balloc_Bucket poly b 0 0 = Ok k"
    using Alloc_bucket [OF lay] by blast
  ultimately have "snd (balloc_Alloc poly b sz 1 0 0) = Ok (payloadBase b, k)"
    using balloc_Alloc_value [OF b(1) nw, of poly 1 0 0] assms(2) b(2) by simp
  then obtain b' where A: "balloc_Alloc poly b sz 1 0 0 = (b', Ok (payloadBase b, k))"
    by (metis prod.collapse)
  moreover have "web_block b'"
    using bump_Alloc_fields [OF b(3) A] balloc_inv_Alloc(1) [OF b(1) nw A] b by (simp add: web_block_def same_map_def)
  ultimately show thesis
    by (rule that)
qed

lemma MakeSlice_fresh:
  assumes "alloc_FromContext c = Some ref" "aw_objs w ref = Some (BallocWrapper b)" "fresh_block b" "0 < n" "int n \<le> max_rows"
  obtains w' b' where
    "MakeSlice poly rt sizeof_Row w c (int n) (int n) = (w', Ok \<lparr>s_ptr = payloadBase b, s_len = int n, s_cap = int n\<rparr>)"
    "aw_pool w' = aw_pool w" "aw_objs w' = (aw_objs w)(ref \<mapsto> BallocWrapper b')" "web_block b'" "in_space (payloadBase b) (32 * n)"
proof -
  define z :: u64 where "z = sizeof_Row * word_of_int (int n)"
  have "z = word_of_int (32 * int n)"
    by (simp add: z_def sizeof_Row_def)
  then have uz: "unat z = 32 * n"
    using assms(5) unat_word_of_int_u64 [of "32 * int n"] by (simp add: max_rows_def nat_mult_distrib del: of_int_mult)
  then have z: "z \<noteq> 0" "unat z \<le> 66945016"
    using assms(4,5) by (auto simp: max_rows_def)
  obtain b' k where A: "balloc_Alloc poly b z 1 0 0 = (b', Ok (payloadBase b, k))" "web_block b'"
    by (rule fresh_block_Alloc [OF assms(3) z])
  have b: "unat (payloadBase b) = unat (MmapBase b) + 163840" "unat (payloadEnd b) = unat (MmapBase b) + 67108864"
    using assms(3) by (auto simp: fresh_block_def web_block_def)
  moreover have "unat (payloadEnd b) < 2 ^ 64"
    by simp
  ultimately have sp: "in_space (payloadBase b) (32 * n)"
    using uz z(2) by (simp add: in_space_def del: unat_lt_u64)
  have "payloadBase b \<noteq> 0"
    using b(1) by (metis add_is_0 unat_0 zero_neq_numeral)
  then have U: "unsafe_Slice (payloadBase b) 32 (int n) = Ok \<lparr>s_ptr = payloadBase b, s_len = int n, s_cap = int n\<rparr>"
    using sp by (intro unsafe_Slice_ok) (auto simp: in_space_def)
  let ?w = "w\<lparr>aw_objs := (aw_objs w)(ref \<mapsto> BallocWrapper b')\<rparr>"
  have "world_Alloc poly rt w ref z 1 0 0 = (?w, Ok (payloadBase b, k))"
    using A(1) assms(2) by (simp add: world_Alloc_def Allocator_Alloc_def made_memory_def)
  then have "MakeSlice poly rt sizeof_Row w c (int n) (int n) = (?w, Ok \<lparr>s_ptr = payloadBase b, s_len = int n, s_cap = int n\<rparr>)"
    unfolding MakeSlice_def z_def [symmetric] using assms(1,4) U by (simp add: slice_upto_def sizeof_Row_def)
  then show thesis
    by (rule that) (use A(2) sp in simp_all)
qed

definition query_answer :: "'f flops \<Rightarrow> ((int \<times> 'f \<times> byte list) list \<times> int \<Rightarrow> go_error + byte list) \<Rightarrow> byte list list \<Rightarrow> web_reply" where
  "query_answer fo encode ls = Web ''application/json'' (case encode (seen_rows fo ls, int (length ls)) of Inl e \<Rightarrow> [] | Inr bs \<Rightarrow> bs)"

text \<open>The labels of the first \<open>n\<close> rows, and what the encoder may find for them.\<close>

definition row_labels :: "nat \<Rightarrow> byte list list" where
  "row_labels n = map (\<lambda>i. row_label (int i)) [0..<n]"

definition found_labels :: "(int \<Rightarrow> uintptr) \<Rightarrow> (int \<Rightarrow> mem \<Rightarrow> mem) \<Rightarrow> nat \<Rightarrow> byte list list \<Rightarrow> bool" where
  "found_labels labels gc n ls \<longleftrightarrow> map length ls = map length (row_labels n) \<and> (labels_survive labels gc n \<longrightarrow> ls = row_labels n)"

lemma queryHandler_fresh:
  assumes ctx: "alloc_FromContext c = Some ref" "aw_objs w ref = Some x" "web_fresh x"
    and req: "decode body = Inr req" "0 \<le> Limit req" "Limit req \<le> max_rows"
  obtains w' x' ls where "queryHandler fo labels gc decode encode poly rt before w c body = (w', Ok (query_answer fo encode ls))"
    "found_labels labels gc (nat (Limit req)) ls" "aw_pool w' = aw_pool w" "aw_objs w' = (aw_objs w)(ref \<mapsto> x')" "web_used x'"
proof (cases "Limit req = 0")
  case True
  then have "queryHandler fo labels gc decode encode poly rt before w c body = (w, Ok (query_answer fo encode []))"
    using req(1) by (simp add: queryHandler_def MakeSlice_def empty_slice_def query_answer_def seen_rows_def split: sum.split)
  then show thesis
    by (rule that [of _ _ x]) (use ctx True in \<open>auto simp: web_fresh_def web_used_def fresh_block_def found_labels_def row_labels_def\<close>)
next
  case False
  define n where "n = nat (Limit req)"
  have n: "Limit req = int n" "0 < n" "int n \<le> max_rows"
    using False req(2,3) by (simp_all add: n_def)
  obtain b where b: "x = BallocWrapper b" "fresh_block b"
    using ctx(3) by (auto simp: web_fresh_def)
  let ?s = "\<lparr>s_ptr = payloadBase b, s_len = int n, s_cap = int n\<rparr>"
  obtain w' b' where M: "MakeSlice poly rt sizeof_Row w c (int n) (int n) = (w', Ok ?s)"
    "aw_pool w' = aw_pool w" "aw_objs w' = (aw_objs w)(ref \<mapsto> BallocWrapper b')" "web_block b'" "in_space (payloadBase b) (32 * n)"
    by (rule MakeSlice_fresh [OF ctx(1) ctx(2) [unfolded b(1)] b(2) n(2,3), of poly rt])
  obtain m1 h1 where L: "rows_loop fo labels gc ?s 0 n before (aw_mem w') = (m1, h1)"
    by fastforce
  have s: "in_space (s_ptr ?s) (32 * n)" "s_len ?s = int n"
    using M(5) by simp_all
  obtain ls h2 where R: "read_rows gc m1 ?s 0 n h1 = (seen_rows fo ls, h2)" "length ls = n"
    "\<forall>i < n. length (ls ! i) = length (row_label (int i))" "labels_survive labels gc n \<longrightarrow> ls = map (\<lambda>i. row_label (int i)) [0..<n]"
    by (rule read_rows_loop [OF s L])
  have "queryHandler fo labels gc decode encode poly rt before w c body = (w'\<lparr>aw_mem := h2\<rparr>, Ok (query_answer fo encode ls))"
    using req(1) n(1) M(1) L R(1,2) by (simp add: queryHandler_def query_answer_def split: sum.split)
  moreover have "found_labels labels gc n ls"
    using R(2-4) by (auto simp: found_labels_def row_labels_def intro!: nth_equalityI)
  ultimately show thesis
    by (rule that [of _ _ "BallocWrapper b'", folded n_def]) (use M(2-4) in \<open>auto simp: web_used_def\<close>)
qed

text \<open>
  C20: the web server answers a query for up to two million rows with the JSON of the rows 1 to
  \<open>limit\<close>, never with an error. Numbers and count are always right. Labels, read from the Go heap when
  they are encoded, have the right length, and the right bytes if the collector leaves them alone.
  This holds whatever requests came before, although the rows are written over memory that other
  requests have used, as long as the pool holds allocators of its factory and the mapping call grants
  64 MiB when a new one is needed. The collector need not leave the labels alone, since only the
  mapping points to them. The allocator goes back to the pool, so the next request finds the same
  conditions.
\<close>

theorem webapp_query_answered:
  assumes "mmap_ok mm" "0 < scale" "scale < 2 ^ 63" "mm 67108864 = Inr r"
    and "idle_clean web_fresh (aw_pool w) (aw_objs w)" "aw_objs w self = None"
    and "decode body = Inr req" "0 \<le> Limit req" "Limit req \<le> max_rows"
  shows "\<exists>w' ls. webapp_main scale poly (queryHandler fo labels gc decode encode poly rt before) buffer w c mm self ctx (''/query'', body) =
      (w', Served (Ok (query_answer fo encode ls))) \<and>
    map length ls = map length (row_labels (nat (Limit req))) \<and>
    (labels_survive labels gc (nat (Limit req)) \<longrightarrow> ls = row_labels (nat (Limit req))) \<and>
    idle_clean web_fresh (aw_pool w') (aw_objs w')"
proof -
  let ?f = "BallocFactory scale (push_bit 20 64)" and ?q = "queryHandler fo labels gc decode encode poly rt before"
  obtain x0 where x0: "?f mm = Ok x0"
    by (rule factory_fresh [OF assms(1-4)])
  obtain w1 a where G: "alloc_Pool_Get ?f w c mm self = (w1, Ok a)"
    using x0 by (cases "pool_take c (aw_pool w)") (auto simp: alloc_Pool_Get_def)
  have P: "idle_clean web_fresh (aw_pool w1) (aw_objs w1)" "held web_fresh (aw_objs w1) a" "a \<notin> set (aw_pool w1)"
    using web_pool.got_clean [OF assms(5), of w1 a] G assms(1-4,6) by blast+
  then obtain x where x: "aw_objs w1 a = Some x" "web_fresh x"
    by (auto simp: held_def)
  have ctx: "alloc_FromContext (WithAllocator ctx a) = Some a"
    by (simp add: alloc_FromContext_def WithAllocator_def)
  obtain w2 x2 ls where Q: "?q w1 (WithAllocator ctx a) body = (w2, Ok (query_answer fo encode ls))"
    "found_labels labels gc (nat (Limit req)) ls"
    "aw_pool w2 = aw_pool w1" "aw_objs w2 = (aw_objs w1)(a \<mapsto> x2)" "web_used x2"
    by (rule queryHandler_fresh [where w = w1 and decode = decode and body = body, OF ctx x assms(7-9), of fo labels gc encode poly rt before])
  obtain x3 where x3: "Allocator_Reset scale poly x2 = (x3, Ok ())"
    by (rule Reset_fresh [OF Q(5), of scale poly])
  then obtain w3 where P3: "alloc_Pool_Put scale poly w2 a = (w3, Ok ())"
    using Q(4) by (simp add: alloc_Pool_Put_def)
  have "idle_clean web_fresh (aw_pool w3) (aw_objs w3)"
    using web_pool.put_clean [OF P(1,3) Q(3) _ _ Q(5) P3] Q(4) P(3) by (auto simp: fun_upd_def)
  moreover have "webapp_main scale poly ?q buffer w c mm self ctx (''/query'', body) = (w3, Served (Ok (query_answer fo encode ls)))"
    unfolding webapp_main_def alloc_Middleware_def G by (simp add: mux_def Q(1) P3)
  ultimately show ?thesis
    using Q(2) unfolding found_labels_def by blast
qed

text \<open>A body that is not JSON is answered with status 400; a negative limit makes the handler panic.\<close>

lemma queryHandler_rejects:
  "decode body = Inl e \<Longrightarrow> queryHandler fo labels gc decode encode poly rt before w c body = (w, Ok (WebError 400 e))"
  "decode body = Inr req \<Longrightarrow> Limit req < 0 \<Longrightarrow>
    queryHandler fo labels gc decode encode poly rt before w c body = (w, Panic (PanicValue ''alloc: invalid slice bounds''))"
  by (simp_all add: queryHandler_def MakeSlice_def)

definition web_sample_map :: "int \<Rightarrow> go_error + uintptr \<times> uintptr" where
  "web_sample_map n = (if n = 67108864 then Inr (0x10000, 67108864) else Inl (Sys_Err 12))"

text \<open>The labels of the sample requests, 32 bytes apart, and an encoder that shows the numbers and labels.\<close>

definition web_sample_labels :: "int \<Rightarrow> uintptr" where
  "web_sample_labels i = 0x800000 + word_of_int (32 * i)"

definition web_sample_encode :: "(int \<times> int \<times> byte list) list \<times> int \<Rightarrow> go_error + byte list" where
  "web_sample_encode = (\<lambda>(rows, n). Inr (concat (map (\<lambda>(i, v, l). word_of_int i # l) rows)))"

definition web_sample_decode :: "int \<Rightarrow> go_error + QueryRequest" where
  "web_sample_decode n = Inr \<lparr>Table = ''events'', Limit = n, Fields = []\<rparr>"

lemma web_sample_row_label: "row_label 0 = [114, 111, 119, 45, 49]" "row_label 1 = [114, 111, 119, 45, 50]"
proof -
  have "char_of (49 :: nat) = CHR ''1''" "char_of (50 :: nat) = CHR ''2''"
    by (simp_all add: char_of_def bit_0)
  then show "row_label 0 = [114, 111, 119, 45, 49]" "row_label 1 = [114, 111, 119, 45, 50]"
    by (simp_all add: row_label_def i64_id decimal.simps)
qed

lemma web_sample_survive: "labels_survive web_sample_labels (\<lambda>_ h. h) 2"
  by (auto simp: labels_survive_def web_sample_labels_def in_space_def span_def less_2_cases_iff web_sample_row_label)

theorem webapp_query_answered_witness:
  "\<exists>w'. webapp_main 8 0x11B
      (queryHandler sample_flops web_sample_labels (\<lambda>_ h. h) web_sample_decode web_sample_encode
         0x11B sample_rt (\<lambda>_. \<lparr>ID = 0, Value = 0, Label = \<lparr>str_ptr = 0, str_len = 0\<rparr>\<rparr>))
      (\<lambda>w c n. (w, Ok NotFound)) (alloc_NewPool (\<lambda>_. 0) Map.empty) None web_sample_map 0xB000 [] (''/query'', 2) =
    (w', Served (Ok (Web ''application/json'' [1, 114, 111, 119, 45, 49, 2, 114, 111, 119, 45, 50])))"
proof -
  have mm: "mmap_ok web_sample_map" "web_sample_map 67108864 = Inr (0x10000, 67108864)"
    by (auto simp: mmap_ok_def web_sample_map_def split: if_splits)
  have idle: "idle_clean web_fresh (aw_pool (alloc_NewPool (\<lambda>_. 0) Map.empty)) (aw_objs (alloc_NewPool (\<lambda>_. 0) Map.empty))"
    "aw_objs (alloc_NewPool (\<lambda>_. 0) Map.empty) 0xB000 = None"
    by (simp_all add: alloc_NewPool_def idle_clean_def)
  have "query_answer sample_flops web_sample_encode (row_labels (nat 2)) =
      Web ''application/json'' [1, 114, 111, 119, 45, 49, 2, 114, 111, 119, 45, 50]"
    by (simp add: query_answer_def seen_rows_def row_labels_def web_sample_encode_def web_sample_row_label i64_id upt_rec [of _ 2])
  then show ?thesis
    using webapp_query_answered [OF mm(1) _ _ mm(2) idle, where scale = 8 and decode = web_sample_decode and body = 2 and poly = "0x11B" and
        fo = sample_flops and labels = web_sample_labels and gc = "\<lambda>_ h. h" and encode = web_sample_encode and rt = sample_rt and
        before = "\<lambda>_. \<lparr>ID = 0, Value = 0, Label = \<lparr>str_ptr = 0, str_len = 0\<rparr>\<rparr>" and buffer = "\<lambda>w c n. (w, Ok NotFound)" and
        c = None and ctx = "[]"] web_sample_survive
    by (auto simp: web_sample_decode_def max_rows_def)
qed

text \<open>
  A collection that runs while the rows are filled and clears the memory of the labels: both rows are
  then encoded with labels of zeros.
\<close>

lemma read_bytes_zero: "read_bytes (\<lambda>_. 0) p 5 = [0, 0, 0, 0, 0]"
proof -
  have "read_bytes (\<lambda>_. 0) p n = replicate n 0" for n
    by (induction n arbitrary: p) simp_all
  then show ?thesis by (simp add: numeral_eq_Suc)
qed

lemma row_label_lost:
  assumes "rows_loop sample_flops web_sample_labels (\<lambda>_ _ _. 0) \<lparr>s_ptr = 0x38000, s_len = 2, s_cap = 2\<rparr> 0 (Suc (Suc 0)) before h = (m, h')"
  shows "fst (read_rows (\<lambda>_ h. h) m \<lparr>s_ptr = 0x38000, s_len = 2, s_cap = 2\<rparr> 0 (Suc (Suc 0)) h') =
    [(1, row_value sample_flops 0, [0, 0, 0, 0, 0]), (2, row_value sample_flops 1, [0, 0, 0, 0, 0])]"
  using assms by (auto simp: row_at_def make_row_def web_sample_row_label i64_id read_bytes_zero split_beta Let_def)

end
