(* ===== verification/Threads.thy ===== *)
theory Threads
  imports Main
begin

text \<open>
  Goroutines that share a state. What a goroutine does next is a function of its own local state
  (the place in the code it has reached and its local variables) and of the shared one: one atomic
  action, or None when the operation is over. The scheduler picks any goroutine at any moment, and
  a goroutine that is between operations may start another one.

  The locale \<open>shared_invariant\<close> is the interface by which the lock-free parts are verified: an
  invariant of the shared state and of all local states that every action and every call keeps. It
  then holds after any interleaving of any number of goroutines.
\<close>

type_synonym ('s, 'l) action = "'l \<Rightarrow> 's \<Rightarrow> ('s \<times> 'l) option"

type_synonym ('s, 'l) config = "'s \<times> (nat \<Rightarrow> 'l)"

inductive reach :: "('s, 'l) action \<Rightarrow> ('s \<Rightarrow> 'l \<Rightarrow> 's \<Rightarrow> 'l \<Rightarrow> bool) \<Rightarrow> ('s, 'l) config \<Rightarrow> ('s, 'l) config \<Rightarrow> bool"
  for act call c where
  reach_refl: "reach act call c c"
| reach_act: "reach act call c (s, ls) \<Longrightarrow> act (ls t) s = Some (s', l') \<Longrightarrow> reach act call c (s', ls(t := l'))"
| reach_call: "reach act call c (s, ls) \<Longrightarrow> call s (ls t) s' l' \<Longrightarrow> reach act call c (s', ls(t := l'))"

text \<open>One goroutine runs alone for some actions.\<close>

fun solo :: "('s, 'l) action \<Rightarrow> nat \<Rightarrow> 's \<times> 'l \<Rightarrow> 's \<times> 'l" where
  "solo act 0 (s, l) = (s, l)"
| "solo act (Suc k) (s, l) = (case act l s of None \<Rightarrow> (s, l) | Some sl \<Rightarrow> solo act k sl)"

lemma solo_add: "solo act (m + n) c = solo act n (solo act m c)"
proof (induction m arbitrary: c)
  case 0
  then show ?case by (cases c) simp
next
  case (Suc m)
  obtain s l where c: "c = (s, l)" by (cases c)
  show ?case
  proof (cases "act l s")
    case None
    then have "solo act n (s, l) = (s, l)" for n
      by (cases n) simp_all
    then show ?thesis
      using c None by simp
  qed (use c Suc in simp)
qed

lemma solo_reach:
  assumes "reach act call c (s, ls)" "solo act k (s, ls t) = (s', l')"
  shows "reach act call c (s', ls(t := l'))"
  using assms
proof (induction k arbitrary: s ls)
  case 0
  then have "s' = s" "ls(t := l') = ls"
    by auto
  with 0 show ?case by (simp only:)
next
  case (Suc k)
  show ?case
  proof (cases "act (ls t) s")
    case None
    then have "s' = s" "ls(t := l') = ls"
      using Suc.prems(2) by auto
    with Suc.prems(1) show ?thesis by (simp only:)
  next
    case (Some sl)
    obtain s1 l1 where sl: "sl = (s1, l1)" by (cases sl)
    have "reach act call c (s1, ls(t := l1))"
      using reach_act [OF Suc.prems(1)] Some sl by simp
    from Suc.IH [OF this, unfolded fun_upd_upd] Suc.prems(2) Some sl show ?thesis
      by simp
  qed
qed

text \<open>Left alone, the goroutine is done after at most \<open>n\<close> actions.\<close>

definition returns_within :: "('s, 'l) action \<Rightarrow> ('l \<Rightarrow> bool) \<Rightarrow> nat \<Rightarrow> 's \<Rightarrow> 'l \<Rightarrow> bool" where
  "returns_within act fin n s l \<longleftrightarrow> (\<exists>k \<le> n. fin (snd (solo act k (s, l))))"

lemma returns_within_step: "act l s = Some (s', l') \<Longrightarrow> returns_within act fin n s' l' \<Longrightarrow> returns_within act fin (Suc n) s l"
  unfolding returns_within_def using solo.simps(2) [of act _ s l] by (metis Suc_le_mono option.simps(5))

lemma returns_within_mono: "returns_within act fin m s l \<Longrightarrow> m \<le> n \<Longrightarrow> returns_within act fin n s l"
  unfolding returns_within_def using le_trans by blast

lemma returns_within_done: "fin l \<Longrightarrow> returns_within act fin n s l"
  unfolding returns_within_def by (intro exI [of _ 0]) simp

lemma returns_within_solo: "solo act k (s, l) = (s', l') \<Longrightarrow> k \<le> m \<Longrightarrow> returns_within act fin n s' l' \<Longrightarrow> returns_within act fin (m + n) s l"
  unfolding returns_within_def by (metis add_le_mono solo_add)

lemma solo_stuck: "act l s = None \<Longrightarrow> solo act k (s, l) = (s, l)"
  by (cases k) simp_all

lemma returns_within_enabled: "returns_within act fin n s l \<Longrightarrow> \<not> fin l \<Longrightarrow> act l s \<noteq> None"
proof
  assume "act l s = None"
  then have "solo act k (s, l) = (s, l)" for k
    by (rule solo_stuck)
  moreover assume "returns_within act fin n s l" "\<not> fin l"
  ultimately show False
    by (simp add: returns_within_def)
qed

text \<open>Where a goroutine that runs alone can get to.\<close>

definition runs_to :: "('s, 'l) action \<Rightarrow> 's \<times> 'l \<Rightarrow> 's \<times> 'l \<Rightarrow> bool" where
  "runs_to act c d \<longleftrightarrow> (\<exists>k. solo act k c = d)"

lemma runs_to_refl: "runs_to act c c"
  unfolding runs_to_def by (intro exI [of _ 0]) (cases c; simp)

lemma runs_to_trans: "runs_to act c d \<Longrightarrow> runs_to act d e \<Longrightarrow> runs_to act c e"
  unfolding runs_to_def by (metis solo_add)

lemma runs_to_step: "act l s = Some d \<Longrightarrow> runs_to act d e \<Longrightarrow> runs_to act (s, l) e"
  unfolding runs_to_def by (metis option.simps(5) solo.simps(2))

lemma runs_to_part: "\<exists>j \<le> k. solo act j c = d \<Longrightarrow> runs_to act d e \<Longrightarrow> runs_to act c e"
  unfolding runs_to_def by (metis solo_add)

text \<open>
  The loop of a part of an operation runs as it does on its own; at its end the operation goes on.
\<close>

lemma solo_embed:
  assumes step: "\<And>x m x' m'. \<not> fin m \<Longrightarrow> sub m x = Some (x', m') \<Longrightarrow>
      act (snd (emb x m)) (fst (emb x m)) = Some (if fin m' then out x' m' else emb x' m')"
    and stop: "\<And>x m. fin m \<Longrightarrow> sub m x = None"
    and "solo sub k (x, m) = (x', m')" "fin m'" "\<not> fin m"
  shows "\<exists>j \<le> k. solo act j (emb x m) = out x' m'"
  using assms(3,5)
proof (induction k arbitrary: x m)
  case 0
  then show ?case
    using assms(4) by simp
next
  case (Suc k)
  obtain y l where y: "sub m x = Some (y, l)"
    using Suc.prems assms(4) by (cases "sub m x") auto
  then have go: "solo act (Suc j) (emb x m) = solo act j (if fin l then out y l else emb y l)" for j
    using step [OF Suc.prems(2) y] solo.simps(2) [of act j "fst (emb x m)" "snd (emb x m)"] by simp
  show ?case
  proof (cases "fin l")
    case True
    then have "x' = y" "m' = l"
      using Suc.prems(1) y solo_stuck [of sub l y, OF stop [OF True]] by auto
    then show ?thesis
      using go [of 0] True by (intro exI [of _ "Suc 0"]) (cases "out y l"; simp)
  next
    case False
    have "solo sub k (y, l) = (x', m')"
      using Suc.prems(1) y by simp
    from Suc.IH [OF this False] obtain j where "j \<le> k" "solo act j (emb y l) = out x' m'" by blast
    then show ?thesis
      using go [of j] False by (intro exI [of _ "Suc j"]) simp
  qed
qed

text \<open>
  A concrete run: the goroutines in the order in which they act or start an operation. \<open>start\<close> says
  what the start of an operation does, None when it may not start.
\<close>

datatype 'c event = Call nat 'c | Step nat

fun run_events :: "('s, 'l) action \<Rightarrow> ('c \<Rightarrow> 's \<Rightarrow> 'l \<Rightarrow> ('s \<times> 'l) option) \<Rightarrow> 'c event list \<Rightarrow> ('s, 'l) config \<Rightarrow> ('s, 'l) config option" where
  "run_events act start [] c = Some c"
| "run_events act start (Call t op # es) (s, ls) =
     (case start op s (ls t) of None \<Rightarrow> None | Some (s', l') \<Rightarrow> run_events act start es (s', ls(t := l')))"
| "run_events act start (Step t # es) (s, ls) =
     (case act (ls t) s of None \<Rightarrow> None | Some (s', l') \<Rightarrow> run_events act start es (s', ls(t := l')))"

lemma run_events_reach:
  assumes start: "\<And>op s l s' l'. start op s l = Some (s', l') \<Longrightarrow> call s l s' l'"
    and "run_events act start es c = Some d" "reach act call b c"
  shows "reach act call b d"
  using assms(2,3)
proof (induction es arbitrary: c)
  case (Cons e es)
  obtain s ls where c: "c = (s, ls)" by (cases c)
  show ?case
  proof (cases e)
    case (Call t op)
    with Cons.prems(1) c obtain s' l' where "start op s (ls t) = Some (s', l')" "run_events act start es (s', ls(t := l')) = Some d"
      by (auto split: option.splits)
    from Cons.IH [OF this(2) reach_call [OF Cons.prems(2) [unfolded c] start [OF this(1)]]] show ?thesis .
  next
    case (Step t)
    with Cons.prems(1) c obtain s' l' where "act (ls t) s = Some (s', l')" "run_events act start es (s', ls(t := l')) = Some d"
      by (auto split: option.splits)
    from Cons.IH [OF this(2) reach_act [OF Cons.prems(2) [unfolded c] this(1)]] show ?thesis .
  qed
qed simp

locale shared_invariant =
  fixes act :: "('s, 'l) action"
    and call :: "'s \<Rightarrow> 'l \<Rightarrow> 's \<Rightarrow> 'l \<Rightarrow> bool"
    and inv :: "'s \<Rightarrow> (nat \<Rightarrow> 'l) \<Rightarrow> bool"
  assumes act_inv: "inv s ls \<Longrightarrow> act (ls t) s = Some (s', l') \<Longrightarrow> inv s' (ls(t := l'))"
    and call_inv: "inv s ls \<Longrightarrow> call s (ls t) s' l' \<Longrightarrow> inv s' (ls(t := l'))"
begin

lemma reach_inv:
  assumes "reach act call (s0, ls0) (s, ls)" "inv s0 ls0"
  shows "inv s ls"
proof -
  have "inv (fst c) (snd c)" if "reach act call (s0, ls0) c" for c
    using that by (induction rule: reach.induct) (simp_all add: assms(2) act_inv call_inv del: fun_upd_apply)
  from this [OF assms(1)] show ?thesis by simp
qed

end

end
