(* ===== verification/Conc_List.thy ===== *)
theory Conc_List
  imports Balloc_Spec Threads
begin

text \<open>
  The free list of balloc (\<open>pushFree\<close> and \<open>popFree\<close> of balloc/tree.go) as goroutines run it at the same
  time: every load, store and compare-and-swap of the two loops is one atomic action.

  Here: the actions, and the invariant that every interleaving keeps when no request is larger than
  a free block, so that \<open>popFree\<close> never puts a slot back. Conc_List_Props draws the conclusions.
\<close>

section \<open>The actions\<close>

text \<open>
  The shared words: the slots, the head of the list, and as a history the slots that were handed out
  to callers of \<open>popFree\<close>.
\<close>

record free_list =
  fl_slots :: slot_store
  fl_root :: uintptr
  fl_handed :: "uintptr list"

text \<open>What follows a push: \<open>FreeVarying\<close> is done, or \<open>popFree\<close> returns without a block.\<close>

datatype after_push = Freed | TooSmall

text \<open>
  The places in the code, with the local variables that are still needed: the slot to push and the
  head that was read; the size asked for, the head and its successor.
\<close>

datatype list_pc =
    ListIdle
  | PushLoad uintptr after_push
  | PushStore uintptr uintptr after_push
  | PushCas uintptr uintptr after_push
  | PopLoad uintptr
  | PopNext uintptr uintptr
  | PopCas uintptr uintptr uintptr
  | PopTest uintptr uintptr
  | PushReturned
  | PopReturned "(uintptr \<times> uintptr) option"

fun list_act :: "(free_list, list_pc) action" where
  "list_act (PushLoad slot k) f = Some (f, PushStore slot (fl_root f) k)"
| "list_act (PushStore slot head k) f =
     (case fl_slots f slot of
        None \<Rightarrow> None
      | Some s \<Rightarrow> Some (f\<lparr>fl_slots := (fl_slots f)(slot \<mapsto> s\<lparr>slot_next := head\<rparr>)\<rparr>, PushCas slot head k))"
| "list_act (PushCas slot head k) f =
     (if fl_root f = head
      then Some (f\<lparr>fl_root := slot\<rparr>, case k of Freed \<Rightarrow> PushReturned | TooSmall \<Rightarrow> PopReturned None)
      else Some (f, PushLoad slot k))"
| "list_act (PopLoad sz) f = Some (f, if fl_root f = 0 then PopReturned None else PopNext sz (fl_root f))"
| "list_act (PopNext sz head) f =
     (case fl_slots f head of None \<Rightarrow> None | Some s \<Rightarrow> Some (f, PopCas sz head (slot_next s)))"
| "list_act (PopCas sz head next) f =
     (if fl_root f = head then Some (f\<lparr>fl_root := next\<rparr>, PopTest sz head) else Some (f, PopLoad sz))"
| "list_act (PopTest sz head) f =
     (case fl_slots f head of
        None \<Rightarrow> None
      | Some s \<Rightarrow>
          if slot_size s \<ge> sz
          then Some (f\<lparr>fl_handed := head # fl_handed f\<rparr>, PopReturned (Some (slot_addr s, slot_size s)))
          else Some (f, PushLoad head TooSmall))"
| "list_act ListIdle f = None"
| "list_act PushReturned f = None"
| "list_act (PopReturned r) f = None"

fun list_done :: "list_pc \<Rightarrow> bool" where
  "list_done ListIdle = True"
| "list_done PushReturned = True"
| "list_done (PopReturned r) = True"
| "list_done _ = False"

text \<open>
  Calls. \<open>FreeVarying\<close> pushes a slot that \<open>newFreeSlot\<close> has just made; \<open>Alloc\<close> pops. The two predicates
  restrict the sizes of free blocks and of requests.
\<close>

inductive list_call :: "(uintptr \<Rightarrow> bool) \<Rightarrow> (uintptr \<Rightarrow> bool) \<Rightarrow> free_list \<Rightarrow> list_pc \<Rightarrow> free_list \<Rightarrow> list_pc \<Rightarrow> bool"
  for freeOk askOk where
  call_push: "list_done l \<Longrightarrow> slot \<noteq> 0 \<Longrightarrow> fl_slots f slot = None \<Longrightarrow> freeOk sz \<Longrightarrow>
    list_call freeOk askOk f l
      (f\<lparr>fl_slots := (fl_slots f)(slot \<mapsto> \<lparr>slot_addr = addr, slot_size = sz, slot_next = 0\<rparr>)\<rparr>) (PushLoad slot Freed)"
| call_pop: "list_done l \<Longrightarrow> askOk sz \<Longrightarrow> list_call freeOk askOk f l f (PopLoad sz)"

definition empty_list :: free_list where
  "empty_list = \<lparr>fl_slots = Map.empty, fl_root = 0, fl_handed = []\<rparr>"

section \<open>No slot is handed out twice\<close>

text \<open>The slot that only this goroutine may touch, and the one it has read and not yet taken.\<close>

fun owns :: "list_pc \<Rightarrow> uintptr option" where
  "owns (PushLoad slot k) = Some slot"
| "owns (PushStore slot head k) = Some slot"
| "owns (PushCas slot head k) = Some slot"
| "owns (PopTest sz head) = Some head"
| "owns _ = None"

fun peeks :: "list_pc \<Rightarrow> uintptr option" where
  "peeks (PopNext sz head) = Some head"
| "peeks (PopCas sz head next) = Some head"
| "peeks _ = None"

fun pushes :: "list_pc \<Rightarrow> uintptr option" where
  "pushes (PopTest sz head) = None"
| "pushes l = owns l"

text \<open>What a goroutine knows of the slots, when every request is at most \<open>n\<close>.\<close>

fun knows :: "uintptr \<Rightarrow> slot_store \<Rightarrow> list_pc \<Rightarrow> bool" where
  "knows n sl (PushLoad slot k) = (k = Freed)"
| "knows n sl (PushStore slot head k) = (k = Freed)"
| "knows n sl (PushCas slot head k) = (k = Freed \<and> (\<exists>s. sl slot = Some s \<and> slot_next s = head))"
| "knows n sl (PopLoad sz) = (sz \<le> n)"
| "knows n sl (PopNext sz head) = (sz \<le> n)"
| "knows n sl (PopCas sz head next) = (sz \<le> n \<and> (\<exists>s. sl head = Some s \<and> slot_next s = next))"
| "knows n sl (PopTest sz head) = (sz \<le> n)"
| "knows n sl l = True"

definition list_inv_at :: "uintptr \<Rightarrow> uintptr list \<Rightarrow> free_list \<Rightarrow> (nat \<Rightarrow> list_pc) \<Rightarrow> bool" where
  "list_inv_at n xs f ls \<longleftrightarrow>
     list_at (fl_slots f) (fl_root f) xs \<and> distinct (xs @ fl_handed f) \<and>
     (\<forall>s. s \<in> dom (fl_slots f) \<longleftrightarrow> s \<in> set (xs @ fl_handed f) \<or> (\<exists>t. owns (ls t) = Some s)) \<and>
     (\<forall>t s. owns (ls t) = Some s \<longrightarrow> s \<noteq> 0 \<and> s \<notin> set (xs @ fl_handed f)) \<and>
     (\<forall>t u s. owns (ls t) = Some s \<longrightarrow> owns (ls u) = Some s \<longrightarrow> t = u) \<and>
     (\<forall>t s. peeks (ls t) = Some s \<longrightarrow> s \<in> dom (fl_slots f) \<and> (\<forall>u. pushes (ls u) \<noteq> Some s)) \<and> 0 \<notin> dom (fl_slots f) \<and>
     (\<forall>t. knows n (fl_slots f) (ls t)) \<and> (\<forall>s x. fl_slots f s = Some x \<longrightarrow> n \<le> slot_size x)"

definition list_inv :: "uintptr \<Rightarrow> free_list \<Rightarrow> (nat \<Rightarrow> list_pc) \<Rightarrow> bool" where
  "list_inv n f ls \<longleftrightarrow> (\<exists>xs. list_inv_at n xs f ls)"

lemma list_inv_atD:
  assumes "list_inv_at n xs f ls"
  shows "list_at (fl_slots f) (fl_root f) xs" "distinct (xs @ fl_handed f)"
    "s \<in> dom (fl_slots f) \<longleftrightarrow> s \<in> set (xs @ fl_handed f) \<or> (\<exists>t. owns (ls t) = Some s)"
    "owns (ls t) = Some s \<Longrightarrow> s \<noteq> 0 \<and> s \<notin> set (xs @ fl_handed f)"
    "owns (ls t) = Some s \<Longrightarrow> owns (ls u) = Some s \<Longrightarrow> t = u"
    "peeks (ls t) = Some s \<Longrightarrow> s \<in> dom (fl_slots f) \<and> (\<forall>u. pushes (ls u) \<noteq> Some s)"
    "knows n (fl_slots f) (ls t)" "fl_slots f s = Some x \<Longrightarrow> n \<le> slot_size x" "0 \<notin> dom (fl_slots f)"
  using assms unfolding list_inv_at_def by blast+

text \<open>A step of one goroutine: what has to be shown of it and of the others.\<close>

lemma list_inv_atI:
  assumes "list_at (fl_slots f) (fl_root f) xs" "distinct (xs @ fl_handed f)"
    and "\<And>s. s \<in> dom (fl_slots f) \<longleftrightarrow> s \<in> set (xs @ fl_handed f) \<or> owns l = Some s \<or> (\<exists>u. u \<noteq> t \<and> owns (ls u) = Some s)"
    and "\<And>s. owns l = Some s \<Longrightarrow> s \<noteq> 0 \<and> s \<notin> set (xs @ fl_handed f) \<and> (\<forall>u. u \<noteq> t \<longrightarrow> owns (ls u) \<noteq> Some s)"
    and "\<And>u s. u \<noteq> t \<Longrightarrow> owns (ls u) = Some s \<Longrightarrow> s \<noteq> 0 \<and> s \<notin> set (xs @ fl_handed f)"
    and "\<And>u v s. u \<noteq> t \<Longrightarrow> v \<noteq> t \<Longrightarrow> owns (ls u) = Some s \<Longrightarrow> owns (ls v) = Some s \<Longrightarrow> u = v"
    and "\<And>s. peeks l = Some s \<Longrightarrow> s \<in> dom (fl_slots f) \<and> (\<forall>u. u \<noteq> t \<longrightarrow> pushes (ls u) \<noteq> Some s)"
    and "\<And>u s. u \<noteq> t \<Longrightarrow> peeks (ls u) = Some s \<Longrightarrow> s \<in> dom (fl_slots f) \<and> pushes l \<noteq> Some s \<and> (\<forall>v. v \<noteq> t \<longrightarrow> pushes (ls v) \<noteq> Some s)"
    and "knows n (fl_slots f) l" "\<And>u. u \<noteq> t \<Longrightarrow> knows n (fl_slots f) (ls u)"
    and "\<And>s x. fl_slots f s = Some x \<Longrightarrow> n \<le> slot_size x" "0 \<notin> dom (fl_slots f)"
  shows "list_inv_at n xs f (ls(t := l))"
proof -
  have ex: "(\<exists>u. owns ((ls(t := l)) u) = Some s) \<longleftrightarrow> owns l = Some s \<or> (\<exists>u. u \<noteq> t \<and> owns (ls u) = Some s)" for s
    by auto
  have self: "peeks l = Some s \<Longrightarrow> pushes l \<noteq> Some s" for s
    by (cases l) auto
  let ?ls = "ls(t := l)"
  have own: "s \<noteq> 0 \<and> s \<notin> set (xs @ fl_handed f)" if "owns (?ls u) = Some s" for u s
    using that assms(4) [of s] assms(5) [of u s] by (cases "u = t") simp_all
  have single: "u = v" if "owns (?ls u) = Some s" "owns (?ls v) = Some s" for u v s
    using that assms(4) [of s] assms(6) [of u v s] by (cases "u = t"; cases "v = t") auto
  have peek: "s \<in> dom (fl_slots f) \<and> pushes (?ls v) \<noteq> Some s" if "peeks (?ls u) = Some s" for u v s
    using that assms(7) [of s] assms(8) [of u s] self [of s] by (cases "u = t"; cases "v = t") auto
  have know: "knows n (fl_slots f) (?ls u)" for u
    using assms(9,10) by (cases "u = t") simp_all
  show ?thesis
    unfolding list_inv_at_def ex using assms(1-3,11,12) own single peek know by blast
qed

lemma pushes_owns: "pushes l = Some s \<Longrightarrow> owns l = Some s"
  by (cases l) auto

lemma knows_upd: "knows n sl l \<Longrightarrow> owns l \<noteq> Some a \<Longrightarrow> peeks l \<noteq> Some a \<Longrightarrow> knows n (sl(a \<mapsto> x)) l"
  by (cases l) auto

text \<open>
  An action that keeps the slots and at most moves one between the list, the goroutine and the slots
  handed out.
\<close>

lemma list_inv_move:
  assumes inv: "list_inv_at n xs f ls" and sl: "fl_slots f' = fl_slots f"
    and at: "list_at (fl_slots f) (fl_root f') ys" "distinct (ys @ fl_handed f')"
    and part: "set (ys @ fl_handed f') \<union> set_option (owns l) = set (xs @ fl_handed f) \<union> set_option (owns (ls t))"
    and own: "\<And>s. owns l = Some s \<Longrightarrow> s \<noteq> 0 \<and> s \<notin> set (ys @ fl_handed f')"
    and push: "\<And>s. pushes l = Some s \<Longrightarrow> pushes (ls t) = Some s"
    and peek: "\<And>s. peeks l = Some s \<Longrightarrow> s \<in> dom (fl_slots f) \<and> (\<forall>u. pushes (ls u) \<noteq> Some s)"
    and know: "knows n (fl_slots f) l"
  shows "list_inv_at n ys f' (ls(t := l))"
proof (rule list_inv_atI)
  note D = list_inv_atD [OF inv]
  have other: "s \<notin> set (xs @ fl_handed f) \<union> set_option (owns (ls t))" if "u \<noteq> t" "owns (ls u) = Some s" for u s
    using D(4) [OF that(2)] D(5) [of u s t] that by auto
  have cover: "s \<in> set (ys @ fl_handed f') \<or> owns l = Some s \<longleftrightarrow> s \<in> set (xs @ fl_handed f) \<or> owns (ls t) = Some s" for s
    using part by (metis Un_iff elem_set)
  show "s \<in> dom (fl_slots f') \<longleftrightarrow> s \<in> set (ys @ fl_handed f') \<or> owns l = Some s \<or> (\<exists>u. u \<noteq> t \<and> owns (ls u) = Some s)" for s
  proof -
    have "(\<exists>u. owns (ls u) = Some s) \<longleftrightarrow> owns (ls t) = Some s \<or> (\<exists>u. u \<noteq> t \<and> owns (ls u) = Some s)"
      by metis
    with D(3) [of s] cover [of s] show ?thesis
      unfolding sl by blast
  qed
  show "owns l = Some s \<Longrightarrow> s \<noteq> 0 \<and> s \<notin> set (ys @ fl_handed f') \<and> (\<forall>u. u \<noteq> t \<longrightarrow> owns (ls u) \<noteq> Some s)" for s
    using own [of s] other [of _ s] cover [of s] by auto
  show "u \<noteq> t \<Longrightarrow> owns (ls u) = Some s \<Longrightarrow> s \<noteq> 0 \<and> s \<notin> set (ys @ fl_handed f')" for u s
    using D(4) [of u s] other [of u s] cover [of s] by auto
  show "peeks l = Some s \<Longrightarrow> s \<in> dom (fl_slots f') \<and> (\<forall>u. u \<noteq> t \<longrightarrow> pushes (ls u) \<noteq> Some s)" for s
    using peek sl by simp
  show "peeks (ls u) = Some s \<Longrightarrow> s \<in> dom (fl_slots f') \<and> pushes l \<noteq> Some s \<and> (\<forall>v. v \<noteq> t \<longrightarrow> pushes (ls v) \<noteq> Some s)" for u s
    using D(6) [of u s] push [of s] sl by auto
qed (use list_inv_atD [OF inv] at know in \<open>simp_all add: sl\<close>)

text \<open>The store to the link of a slot that no other goroutine can reach.\<close>

lemma list_inv_store:
  assumes inv: "list_inv_at n xs f ls" and pc: "ls t = PushStore slot head k" and s: "fl_slots f slot = Some s"
  shows "list_inv_at n xs (f\<lparr>fl_slots := (fl_slots f)(slot \<mapsto> s\<lparr>slot_next := head\<rparr>)\<rparr>) (ls(t := PushCas slot head k))"
    (is "list_inv_at n xs ?f (ls(t := ?l))")
proof (rule list_inv_atI)
  note D = list_inv_atD [OF inv]
  have own: "owns (ls t) = Some slot" "pushes (ls t) = Some slot"
    by (simp_all add: pc)
  have other: "owns (ls u) \<noteq> Some slot" if "u \<noteq> t" for u
    using D(5) [OF own(1)] that by blast
  have d: "dom (fl_slots ?f) = dom (fl_slots f)"
    using s by auto
  show "list_at (fl_slots ?f) (fl_root ?f) xs"
    by (rule list_at_frame [of "fl_slots f"]) (use D(1) D(4) [OF own(1)] in auto)
  show "q \<in> dom (fl_slots ?f) \<longleftrightarrow> q \<in> set (xs @ fl_handed ?f) \<or> owns ?l = Some q \<or> (\<exists>u. u \<noteq> t \<and> owns (ls u) = Some q)" for q
  proof -
    have "(\<exists>u. owns (ls u) = Some q) \<longleftrightarrow> owns ?l = Some q \<or> (\<exists>u. u \<noteq> t \<and> owns (ls u) = Some q)"
      using own(1) by (metis owns.simps(3))
    then show ?thesis
      unfolding d using D(3) [of q] by simp
  qed
  show "owns ?l = Some q \<Longrightarrow> q \<noteq> 0 \<and> q \<notin> set (xs @ fl_handed ?f) \<and> (\<forall>u. u \<noteq> t \<longrightarrow> owns (ls u) \<noteq> Some q)" for q
    using D(4) [OF own(1)] other by auto
  show "peeks (ls u) = Some q \<Longrightarrow> q \<in> dom (fl_slots ?f) \<and> pushes ?l \<noteq> Some q \<and> (\<forall>v. v \<noteq> t \<longrightarrow> pushes (ls v) \<noteq> Some q)" for u q
    unfolding d using D(6) [of u q] own(2) by auto
  show "knows n (fl_slots ?f) ?l"
    using D(7) [of t] by (simp add: pc)
  show "knows n (fl_slots ?f) (ls u)" if "u \<noteq> t" for u
  proof -
    have "peeks (ls u) \<noteq> Some slot"
      using D(6) [of u slot] own(2) by blast
    from knows_upd [OF D(7) other [OF that] this] show ?thesis by simp
  qed
  show "fl_slots ?f q = Some x \<Longrightarrow> n \<le> slot_size x" for q x
    using D(8) s by (auto split: if_splits)
  show "0 \<notin> dom (fl_slots ?f)"
    unfolding d by (rule D(9))
  show "u \<noteq> t \<Longrightarrow> v \<noteq> t \<Longrightarrow> owns (ls u) = Some q \<Longrightarrow> owns (ls v) = Some q \<Longrightarrow> u = v" for u v q
    by (rule D(5))
qed (use list_inv_atD(2,4) [OF inv] in simp_all)

text \<open>An action that only reads.\<close>

lemma list_inv_read:
  assumes inv: "list_inv_at n xs f ls" and "owns l = owns (ls t)" "pushes l = pushes (ls t)" "knows n (fl_slots f) l"
    and "peeks l = None \<or> (\<exists>s. peeks l = Some s \<and> s \<in> dom (fl_slots f) \<and> (\<forall>u. pushes (ls u) \<noteq> Some s))"
  shows "list_inv n f (ls(t := l))"
proof -
  note D = list_inv_atD [OF inv]
  have "list_inv_at n xs f (ls(t := l))"
  proof (rule list_inv_move [OF inv refl D(1,2)])
    show "owns l = Some s \<Longrightarrow> s \<noteq> 0 \<and> s \<notin> set (xs @ fl_handed f)" for s
      using D(4) assms(2) by simp
    show "peeks l = Some s \<Longrightarrow> s \<in> dom (fl_slots f) \<and> (\<forall>u. pushes (ls u) \<noteq> Some s)" for s
      using assms(5) by auto
  qed (use assms in simp_all)
  then show ?thesis
    by (auto simp: list_inv_def)
qed

text \<open>One action at each place.\<close>

lemma peeks_slot:
  assumes inv: "list_inv_at n xs f ls" and "peeks (ls t) = Some h"
  shows "h \<noteq> 0" "\<exists>s. fl_slots f h = Some s" "\<forall>u. pushes (ls u) \<noteq> Some h"
  using list_inv_atD(6) [OF inv assms(2)] list_inv_atD(9) [OF inv] by auto

lemma PushCas_inv:
  assumes inv: "list_inv_at n xs f ls" and at: "ls t = PushCas slot head k" and act: "list_act (ls t) f = Some (f', l)"
  shows "list_inv n f' (ls(t := l))"
proof (cases "fl_root f = head")
  case True
  note D = list_inv_atD [OF inv]
  have k: "k = Freed" "\<exists>s. fl_slots f slot = Some s \<and> slot_next s = head"
    using D(7) [of t] at by auto
  have "list_inv_at n (slot # xs) f' (ls(t := l))"
    by (rule list_inv_move [OF inv]) (use D(1,2) D(4) [of t slot] act at k True in auto)
  then show ?thesis
    by (auto simp: list_inv_def)
next
  case False
  with act at list_inv_atD(7) [OF inv, of t] list_inv_read [OF inv, of l t] show ?thesis by auto
qed

lemma PopLoad_inv:
  assumes inv: "list_inv_at n xs f ls" and at: "ls t = PopLoad sz" and act: "list_act (ls t) f = Some (f', l)"
  shows "list_inv n f' (ls(t := l))"
proof (cases "fl_root f = 0")
  case True
  with act at list_inv_read [OF inv, of l t] show ?thesis by auto
next
  case False
  note D = list_inv_atD [OF inv]
  from False have root: "fl_root f \<in> set xs"
    by (rule list_at_cons [OF D(1)]) simp
  then have "fl_root f \<in> dom (fl_slots f)"
    using D(3) [of "fl_root f"] by simp
  moreover have "pushes (ls u) \<noteq> Some (fl_root f)" for u
    using D(4) [OF pushes_owns, of u "fl_root f"] root by auto
  moreover have "f' = f" "l = PopNext sz (fl_root f)"
    using act at False by auto
  ultimately show ?thesis
    using at D(7) [of t] list_inv_read [OF inv, of l t] by simp
qed

lemma PopCas_inv:
  assumes inv: "list_inv_at n xs f ls" and at: "ls t = PopCas sz head nxt" and act: "list_act (ls t) f = Some (f', l)"
  shows "list_inv n f' (ls(t := l))"
proof (cases "fl_root f = head")
  case True
  note D = list_inv_atD [OF inv]
  have "head \<noteq> 0"
    using peeks_slot(1) [OF inv, of t head] at by simp
  then obtain s ys where xs: "xs = head # ys" "fl_slots f head = Some s" "list_at (fl_slots f) (slot_next s) ys"
    using list_at_cons [OF D(1)] True by metis
  have "list_inv_at n ys f' (ls(t := l))"
    by (rule list_inv_move [OF inv]) (use D(2) D(7) [of t] xs act at True \<open>head \<noteq> 0\<close> in auto)
  then show ?thesis
    by (auto simp: list_inv_def)
next
  case False
  with act at list_inv_atD(7) [OF inv, of t] list_inv_read [OF inv, of l t] show ?thesis by auto
qed

lemma PopTest_inv:
  assumes inv: "list_inv_at n xs f ls" and at: "ls t = PopTest sz head" and act: "list_act (ls t) f = Some (f', l)"
  shows "list_inv n f' (ls(t := l))"
proof -
  note D = list_inv_atD [OF inv]
  obtain s where s: "fl_slots f head = Some s"
    using act at by (auto split: option.splits)
  have "slot_size s \<ge> sz"
    using D(8) [OF s] D(7) [of t] at by auto
  then have "list_inv_at n xs f' (ls(t := l))"
    by (intro list_inv_move [OF inv]) (use D(1,2) D(4) [of t head] act at s in auto)
  then show ?thesis
    by (auto simp: list_inv_def)
qed

lemma list_act_inv:
  assumes inv: "list_inv_at n xs f ls" and act: "list_act (ls t) f = Some (f', l)"
  shows "list_inv n f' (ls(t := l))"
proof (cases "ls t")
  case (PushLoad slot k)
  then show ?thesis
    using act list_inv_atD(7) [OF inv, of t] list_inv_read [OF inv, of l t] by auto
next
  case (PushStore slot head k)
  with act list_inv_store [OF inv PushStore] show ?thesis
    by (auto simp: list_inv_def split: option.splits)
next
  case (PopNext sz head)
  then obtain s where s: "fl_slots f head = Some s"
    using peeks_slot(2) [OF inv, of t head] by auto
  then have "f' = f" "l = PopCas sz head (slot_next s)"
    using act PopNext by simp_all
  then show ?thesis
    using list_inv_atD(7) [OF inv, of t] list_inv_read [OF inv, of l t] s peeks_slot(3) [OF inv, of t head] PopNext by auto
qed (use act PushCas_inv [OF inv _ act] PopLoad_inv [OF inv _ act] PopCas_inv [OF inv _ act] PopTest_inv [OF inv _ act] in
       \<open>simp_all del: fun_upd_apply\<close>)

lemma done_owns: "list_done l \<Longrightarrow> owns l = None \<and> pushes l = None \<and> peeks l = None"
  by (cases l) auto

lemma list_call_inv:
  assumes inv: "list_inv_at n xs f ls" and call: "list_call (\<lambda>sz. n \<le> sz) (\<lambda>sz. sz \<le> n) f (ls t) f' l"
  shows "list_inv n f' (ls(t := l))"
  using call
proof cases
  case (call_pop sz)
  show ?thesis
    unfolding call_pop by (rule list_inv_read [OF inv]) (use call_pop done_owns in auto)
next
  case (call_push slot sz addr)
  note D = list_inv_atD [OF inv]
  have new: "slot \<notin> dom (fl_slots f)"
    using call_push(5) by auto
  then have out: "slot \<notin> set (xs @ fl_handed f)" "owns (ls u) \<noteq> Some slot" "peeks (ls u) \<noteq> Some slot" for u
    using D(3) [of slot] D(6) [of u slot] by blast+
  have idle: "owns (ls t) = None" "peeks (ls t) = None"
    using done_owns [OF call_push(3)] by auto
  have "list_inv_at n xs f' (ls(t := l))"
    unfolding call_push(1,2)
  proof (rule list_inv_atI)
    let ?f = "f\<lparr>fl_slots := (fl_slots f)(slot \<mapsto> \<lparr>slot_addr = addr, slot_size = sz, slot_next = 0\<rparr>)\<rparr>"
    show "list_at (fl_slots ?f) (fl_root ?f) xs"
      by (rule list_at_frame [of "fl_slots f"]) (use D(1) out(1) in auto)
    show "s \<in> dom (fl_slots ?f) \<longleftrightarrow> s \<in> set (xs @ fl_handed ?f) \<or> owns (PushLoad slot Freed) = Some s \<or> (\<exists>u. u \<noteq> t \<and> owns (ls u) = Some s)" for s
    proof -
      have "(\<exists>u. u \<noteq> t \<and> owns (ls u) = Some s) \<longleftrightarrow> (\<exists>u. owns (ls u) = Some s)"
        using idle(1) by force
      with D(3) [of s] show ?thesis by auto
    qed
    show "peeks (ls u) = Some s \<Longrightarrow> s \<in> dom (fl_slots ?f) \<and> pushes (PushLoad slot Freed) \<noteq> Some s \<and> (\<forall>v. v \<noteq> t \<longrightarrow> pushes (ls v) \<noteq> Some s)" for u s
      using D(6) [of u s] new by auto
    show "knows n (fl_slots ?f) (ls u)" for u
      using knows_upd [OF D(7) out(2,3)] by simp
    show "fl_slots ?f s = Some x \<Longrightarrow> n \<le> slot_size x" for s x
      using D(8) call_push(6) by (auto split: if_splits)
    show "0 \<notin> dom (fl_slots ?f)"
      using D(9) call_push(4) by simp
    show "u \<noteq> t \<Longrightarrow> v \<noteq> t \<Longrightarrow> owns (ls u) = Some s \<Longrightarrow> owns (ls v) = Some s \<Longrightarrow> u = v" for u v s
      by (rule D(5))
  qed (use D(2) D(4) out call_push(4) in simp_all)
  then show ?thesis
    by (auto simp: list_inv_def)
qed

interpretation free_list: shared_invariant list_act "list_call (\<lambda>sz. n \<le> sz) (\<lambda>sz. sz \<le> n)" "list_inv n" for n
proof
  fix f ls t f' l
  assume "list_inv n f ls"
  then obtain xs where inv: "list_inv_at n xs f ls"
    by (auto simp: list_inv_def)
  show "list_act (ls t) f = Some (f', l) \<Longrightarrow> list_inv n f' (ls(t := l))"
    by (rule list_act_inv [OF inv])
  show "list_call (\<lambda>sz. n \<le> sz) (\<lambda>sz. sz \<le> n) f (ls t) f' l \<Longrightarrow> list_inv n f' (ls(t := l))"
    by (rule list_call_inv [OF inv])
qed

lemma list_inv_empty: "list_inv n empty_list (\<lambda>_. ListIdle)"
  by (auto simp: list_inv_def list_inv_at_def empty_list_def)

end
