(* ===== verification/Conc_List_Props.thy ===== *)
theory Conc_List_Props
  imports Conc_List
begin

text \<open>
  What the free list of balloc does for goroutines that use it at the same time, whatever the sizes
  of the blocks and of the requests: an operation that is left alone returns, with the result of the
  sequential definitions, and the double use of a block that the loop of \<open>popFree\<close> allows.
\<close>

section \<open>An operation that is left alone returns\<close>

text \<open>Every pointer that a goroutine holds or that is stored leads to a slot.\<close>

fun pc_slots :: "list_pc \<Rightarrow> uintptr set" where
  "pc_slots (PushLoad slot k) = {slot}"
| "pc_slots (PushStore slot head k) = {slot}"
| "pc_slots (PushCas slot head k) = {slot}"
| "pc_slots (PopNext sz head) = {head}"
| "pc_slots (PopCas sz head next) = {head}"
| "pc_slots (PopTest sz head) = {head}"
| "pc_slots _ = {}"

fun pc_links :: "list_pc \<Rightarrow> uintptr set" where
  "pc_links (PushStore slot head k) = {head}"
| "pc_links (PushCas slot head k) = {head}"
| "pc_links (PopCas sz head next) = {next}"
| "pc_links _ = {}"

definition pc_safe :: "slot_store \<Rightarrow> list_pc \<Rightarrow> bool" where
  "pc_safe sl l \<longleftrightarrow> pc_slots l \<subseteq> dom sl \<and> pc_links l \<subseteq> insert 0 (dom sl)"

definition list_safe :: "free_list \<Rightarrow> bool" where
  "list_safe f \<longleftrightarrow> fl_root f \<in> insert 0 (dom (fl_slots f)) \<and> slot_next ` ran (fl_slots f) \<subseteq> insert 0 (dom (fl_slots f))"

lemma pc_safe_mono: "pc_safe sl l \<Longrightarrow> dom sl \<subseteq> dom sl' \<Longrightarrow> pc_safe sl' l"
  unfolding pc_safe_def by blast

lemma list_safe_next: "list_safe f \<Longrightarrow> fl_slots f q = Some s \<Longrightarrow> slot_next s \<in> insert 0 (dom (fl_slots f))"
  unfolding list_safe_def by (blast intro: ranI)

lemma list_safe_store:
  assumes "list_safe f" "slot_next s \<in> insert 0 (dom (fl_slots f))"
  shows "list_safe (f\<lparr>fl_slots := (fl_slots f)(q \<mapsto> s)\<rparr>)"
  using assms unfolding list_safe_def ran_def by auto

lemma list_safe_root: "list_safe f \<Longrightarrow> r \<in> insert 0 (dom (fl_slots f)) \<Longrightarrow> list_safe (f\<lparr>fl_root := r\<rparr>)"
  by (simp add: list_safe_def)

lemma list_safe_handed [simp]: "list_safe (f\<lparr>fl_handed := hs\<rparr>) = list_safe f"
  by (simp add: list_safe_def)

lemma list_act_safe:
  assumes "list_safe f" "pc_safe (fl_slots f) l" "list_act l f = Some (f', l')"
  shows "list_safe f' \<and> pc_safe (fl_slots f') l' \<and> dom (fl_slots f) \<subseteq> dom (fl_slots f')"
proof (cases l)
  case (PushStore slot head k)
  then obtain s where s: "fl_slots f slot = Some s" "l' = PushCas slot head k"
      "f' = f\<lparr>fl_slots := (fl_slots f)(slot \<mapsto> s\<lparr>slot_next := head\<rparr>)\<rparr>"
    using assms(3) by (auto split: option.splits)
  have "list_safe f'"
    unfolding s(3) by (rule list_safe_store) (use assms(1,2) PushStore in \<open>simp_all add: pc_safe_def\<close>)
  then show ?thesis
    using s assms(2) PushStore by (auto simp: pc_safe_def)
next
  case (PopNext sz head)
  then show ?thesis
    using assms list_safe_next [OF assms(1), of head] by (auto simp: pc_safe_def split: option.splits)
next
  case (PushCas slot head k)
  then show ?thesis
    using assms list_safe_root [OF assms(1), of slot] by (cases k) (auto simp: pc_safe_def split: if_splits)
next
  case (PopCas sz head nxt)
  then show ?thesis
    using assms list_safe_root [OF assms(1), of nxt] by (auto simp: pc_safe_def split: if_splits)
next
  case (PopTest sz head)
  then show ?thesis
    using assms by (auto simp: pc_safe_def split: if_splits option.splits)
qed (use assms in \<open>auto simp: pc_safe_def list_safe_def split: if_splits option.splits\<close>)

lemma list_call_safe:
  assumes "list_safe f" "list_call freeOk askOk f l f' l'"
  shows "list_safe f' \<and> pc_safe (fl_slots f') l' \<and> dom (fl_slots f) \<subseteq> dom (fl_slots f')"
  using assms(2)
proof cases
  case (call_push slot sz addr)
  then show ?thesis
    using list_safe_store [OF assms(1)] by (auto simp: pc_safe_def)
qed (use assms(1) in \<open>simp add: pc_safe_def\<close>)

interpretation any_sizes: shared_invariant list_act "list_call freeOk askOk"
  "\<lambda>f ls. list_safe f \<and> (\<forall>t. pc_safe (fl_slots f) (ls t))" for freeOk askOk
proof
  fix f ls t f' l
  assume inv: "list_safe f \<and> (\<forall>t. pc_safe (fl_slots f) (ls t))"
  have keep: "list_safe f' \<and> (\<forall>u. pc_safe (fl_slots f') ((ls(t := l)) u))"
    if "list_safe f' \<and> pc_safe (fl_slots f') l \<and> dom (fl_slots f) \<subseteq> dom (fl_slots f')"
    using that inv pc_safe_mono by (metis fun_upd_apply)
  show "list_act (ls t) f = Some (f', l) \<Longrightarrow> list_safe f' \<and> (\<forall>u. pc_safe (fl_slots f') ((ls(t := l)) u))"
    using list_act_safe inv by (intro keep) blast
  show "list_call freeOk askOk f (ls t) f' l \<Longrightarrow> list_safe f' \<and> (\<forall>u. pc_safe (fl_slots f') ((ls(t := l)) u))"
    using list_call_safe inv by (intro keep) blast
qed

text \<open>Alone from the start of its loop, an operation is the sequential one.\<close>

lemma pushFree_alone:
  assumes "fl_slots f slot = Some s"
  shows "\<exists>f'. solo list_act 3 (f, PushLoad slot k) = (f', case k of Freed \<Rightarrow> PushReturned | TooSmall \<Rightarrow> PopReturned None) \<and>
    pushFree (fl_slots f) (fl_root f) slot = Some (fl_slots f', fl_root f')"
  using assms by (simp add: numeral_eq_Suc pushFree_def)

lemma popFree_alone:
  assumes "list_safe f"
  shows "\<exists>k f' r. k \<le> 7 \<and> solo list_act k (f, PopLoad sz) = (f', PopReturned r) \<and>
    popFree (fl_slots f) (fl_root f) sz = Some (fl_slots f', fl_root f', r)"
proof (cases "fl_root f = 0")
  case True
  then have "solo list_act 1 (f, PopLoad sz) = (f, PopReturned None)"
    by simp
  then show ?thesis
    using True by (intro exI [of _ 1] exI [of _ f] exI [of _ None]) (simp add: popFree_def)
next
  case False
  then obtain s where s: "fl_slots f (fl_root f) = Some s"
    using assms by (auto simp: list_safe_def)
  let ?p = "f\<lparr>fl_root := slot_next s\<rparr>"
  have pop: "solo list_act 3 (f, PopLoad sz) = (?p, PopTest sz (fl_root f))"
    using s False by (simp add: numeral_eq_Suc)
  show ?thesis
  proof (cases "slot_size s \<ge> sz")
    case True
    have "solo list_act (3 + 1) (f, PopLoad sz)
        = (?p\<lparr>fl_handed := fl_root f # fl_handed f\<rparr>, PopReturned (Some (slot_addr s, slot_size s)))"
      unfolding solo_add pop using s True by simp
    then show ?thesis
      using s False True
      by (intro exI [of _ "3 + 1"] exI [of _ "?p\<lparr>fl_handed := fl_root f # fl_handed f\<rparr>"]) (simp add: popFree_def)
  next
    case small: False
    have "solo list_act (3 + (1 + 3)) (f, PopLoad sz) = solo list_act 3 (?p, PushLoad (fl_root f) TooSmall)"
      unfolding solo_add pop using s small by simp
    moreover obtain f' where "solo list_act 3 (?p, PushLoad (fl_root f) TooSmall) = (f', PopReturned None)"
        "pushFree (fl_slots f) (slot_next s) (fl_root f) = Some (fl_slots f', fl_root f')"
      using pushFree_alone [of ?p "fl_root f" s TooSmall] s by auto
    ultimately show ?thesis
      using s False small by (intro exI [of _ "3 + (1 + 3)"]) (auto simp: popFree_def Let_def)
  qed
qed

text \<open>From any place in the loops, at most nine actions are left.\<close>

abbreviation returns_in :: "nat \<Rightarrow> free_list \<Rightarrow> list_pc \<Rightarrow> bool" where
  "returns_in \<equiv> returns_within list_act list_done"

lemma returns_in_PushLoad:
  assumes "pc_safe (fl_slots f) (PushLoad slot k)"
  shows "returns_in 3 f (PushLoad slot k)"
proof -
  obtain s where "fl_slots f slot = Some s"
    using assms by (auto simp: pc_safe_def)
  from pushFree_alone [OF this, of k] show ?thesis
    unfolding returns_within_def by (intro exI [of _ 3]) (cases k; auto)
qed

lemma returns_in_PopLoad: "list_safe f \<Longrightarrow> returns_in 7 f (PopLoad sz)"
  using popFree_alone [of f sz] unfolding returns_within_def by (metis list_done.simps(3) snd_conv)

lemma returns_in_PushCas:
  assumes "pc_safe (fl_slots f) (PushCas slot head k)"
  shows "returns_in 4 f (PushCas slot head k)"
proof (cases "fl_root f = head")
  case True
  have "returns_in (Suc 3) f (PushCas slot head k)"
    by (rule returns_within_step [OF _ returns_within_done]) (use True in \<open>auto split: after_push.split\<close>)
  then show ?thesis by simp
next
  case False
  have "returns_in (Suc 3) f (PushCas slot head k)"
    by (rule returns_within_step [OF _ returns_in_PushLoad]) (use False assms in \<open>auto simp: pc_safe_def\<close>)
  then show ?thesis by simp
qed

lemma returns_in_PopTest:
  assumes "pc_safe (fl_slots f) (PopTest sz head)"
  shows "returns_in 4 f (PopTest sz head)"
proof -
  obtain s where s: "fl_slots f head = Some s"
    using assms by (auto simp: pc_safe_def)
  have "returns_in (Suc 3) f (PopTest sz head)"
  proof (cases "slot_size s \<ge> sz")
    case True
    then show ?thesis
      by (intro returns_within_step [OF _ returns_within_done]) (use s in auto)
  next
    case False
    then show ?thesis
      by (intro returns_within_step [OF _ returns_in_PushLoad]) (use s in \<open>auto simp: pc_safe_def\<close>)
  qed
  then show ?thesis by simp
qed

lemma returns_in_PopCas:
  assumes "list_safe f" "pc_safe (fl_slots f) (PopCas sz head nxt)"
  shows "returns_in 8 f (PopCas sz head nxt)"
proof (cases "fl_root f = head")
  case True
  have "returns_in (Suc 4) f (PopCas sz head nxt)"
    by (rule returns_within_step [OF _ returns_in_PopTest]) (use True assms(2) in \<open>auto simp: pc_safe_def\<close>)
  then show ?thesis
    by (rule returns_within_mono) simp
next
  case False
  have "returns_in (Suc 7) f (PopCas sz head nxt)"
    by (rule returns_within_step [OF _ returns_in_PopLoad]) (use False assms(1) in auto)
  then show ?thesis by simp
qed

lemma alone_returns:
  assumes "list_safe f" "pc_safe (fl_slots f) l"
  shows "returns_in 9 f l"
proof (cases l)
  case (PushStore slot head k)
  then obtain s where s: "fl_slots f slot = Some s"
    using assms(2) by (auto simp: pc_safe_def)
  let ?f = "f\<lparr>fl_slots := (fl_slots f)(slot \<mapsto> s\<lparr>slot_next := head\<rparr>)\<rparr>"
  have "returns_in 4 ?f (PushCas slot head k)"
    by (rule returns_in_PushCas) (use PushStore s assms(2) in \<open>auto simp: pc_safe_def\<close>)
  then have "returns_in (Suc 4) f l"
    by (rule returns_within_step [rotated]) (simp add: PushStore s)
  then show ?thesis
    by (rule returns_within_mono) simp
next
  case (PopNext sz head)
  then obtain s where s: "fl_slots f head = Some s"
    using assms(2) by (auto simp: pc_safe_def)
  have "returns_in (Suc 8) f l"
    by (rule returns_within_step [OF _ returns_in_PopCas])
       (use PopNext s assms list_safe_next [OF assms(1) s] in \<open>auto simp: pc_safe_def\<close>)
  then show ?thesis by simp
next
  case (PushLoad slot k)
  with assms(2) show ?thesis
    by (auto intro: returns_within_mono [OF returns_in_PushLoad])
next
  case (PushCas slot head k)
  with assms(2) show ?thesis
    by (auto intro: returns_within_mono [OF returns_in_PushCas])
next
  case (PopLoad sz)
  with assms(1) show ?thesis
    by (auto intro: returns_within_mono [OF returns_in_PopLoad])
next
  case (PopCas sz head nxt)
  with assms show ?thesis
    by (auto intro: returns_within_mono [OF returns_in_PopCas])
next
  case (PopTest sz head)
  with assms(2) show ?thesis
    by (auto intro: returns_within_mono [OF returns_in_PopTest])
qed (simp_all add: returns_within_done)

lemma list_reach_safe:
  assumes "reach list_act (list_call freeOk askOk) (empty_list, \<lambda>_. ListIdle) (f, ls)"
  shows "list_safe f" "pc_safe (fl_slots f) (ls t)" "returns_in 9 f (ls t)"
proof -
  have "list_safe empty_list \<and> (\<forall>t. pc_safe (fl_slots empty_list) ((\<lambda>_. ListIdle) t))"
    by (simp add: list_safe_def pc_safe_def empty_list_def)
  from any_sizes.reach_inv [OF assms this] show "list_safe f" "pc_safe (fl_slots f) (ls t)"
    by auto
  then show "returns_in 9 f (ls t)"
    by (rule alone_returns)
qed

section \<open>Concrete runs\<close>

datatype list_op = DoPush uintptr uintptr uintptr | DoPop uintptr

fun list_start :: "(uintptr \<Rightarrow> bool) \<Rightarrow> (uintptr \<Rightarrow> bool) \<Rightarrow> list_op \<Rightarrow> free_list \<Rightarrow> list_pc \<Rightarrow> (free_list \<times> list_pc) option" where
  "list_start freeOk askOk (DoPush slot addr sz) f l =
     (if list_done l \<and> slot \<noteq> 0 \<and> fl_slots f slot = None \<and> freeOk sz
      then Some (f\<lparr>fl_slots := (fl_slots f)(slot \<mapsto> \<lparr>slot_addr = addr, slot_size = sz, slot_next = 0\<rparr>)\<rparr>, PushLoad slot Freed)
      else None)"
| "list_start freeOk askOk (DoPop sz) f l = (if list_done l \<and> askOk sz then Some (f, PopLoad sz) else None)"

abbreviation list_run :: "(uintptr \<Rightarrow> bool) \<Rightarrow> (uintptr \<Rightarrow> bool) \<Rightarrow> list_op event list \<Rightarrow> (free_list, list_pc) config \<Rightarrow> (free_list, list_pc) config option" where
  "list_run freeOk askOk \<equiv> run_events list_act (list_start freeOk askOk)"

lemma list_start_call: "list_start freeOk askOk op f l = Some (f', l') \<Longrightarrow> list_call freeOk askOk f l f' l'"
  by (cases op) (auto split: if_splits intro: list_call.intros)

lemma list_run_reach:
  assumes "list_run freeOk askOk es c = Some d" "reach list_act (list_call freeOk askOk) b c"
  shows "reach list_act (list_call freeOk askOk) b d"
  using list_start_call assms by (rule run_events_reach)

lemmas list_run_from_start = list_run_reach [OF _ reach_refl]

text \<open>Two goroutines: one pushes a block of 64 bytes, the other takes it.\<close>

definition push_pop :: "list_op event list" where
  "push_pop = [Call 0 (DoPush 16 0x1000 64), Call 1 (DoPop 64), Step 0, Step 0, Step 0, Step 1, Step 1, Step 1, Step 1]"

lemma push_pop_run:
  "list_run (\<lambda>sz. 64 \<le> sz) (\<lambda>sz. sz \<le> 64) push_pop (empty_list, \<lambda>_. ListIdle) =
    Some (\<lparr>fl_slots = [16 \<mapsto> \<lparr>slot_addr = 0x1000, slot_size = 64, slot_next = 0\<rparr>], fl_root = 0, fl_handed = [16]\<rparr>,
      (\<lambda>_. ListIdle)(0 := PushReturned, 1 := PopReturned (Some (0x1000, 64))))"
  by (simp add: push_pop_def empty_list_def fun_eq_iff)

text \<open>
  Four goroutines on a list of two slots, the first too small for a request of 64 bytes. Goroutine
  2 reads the head and its successor and is suspended; 1 takes the head and finds it too small; 3
  takes the other block; 1 puts the head back, which now has no successor; 2 goes on and makes the
  successor it has read the head, and 4 takes that block again.
\<close>

definition aba_setup :: "list_op event list" where
  "aba_setup = [Call 0 (DoPush 32 0x2000 64), Step 0, Step 0, Step 0, Call 0 (DoPush 16 0x1000 8), Step 0, Step 0, Step 0]"

definition aba_run :: "list_op event list" where
  "aba_run = [Call 2 (DoPop 8), Step 2, Step 2,
     Call 1 (DoPop 64), Step 1, Step 1, Step 1, Step 1,
     Call 3 (DoPop 64), Step 3, Step 3, Step 3, Step 3,
     Step 1, Step 1, Step 1, Step 2, Step 2,
     Call 4 (DoPop 64), Step 4, Step 4, Step 4, Step 4]"

lemma aba_setup_run:
  "list_run (\<lambda>_. True) (\<lambda>_. True) aba_setup (empty_list, \<lambda>_. ListIdle) =
    Some (\<lparr>fl_slots = [32 \<mapsto> \<lparr>slot_addr = 0x2000, slot_size = 64, slot_next = 0\<rparr>,
             16 \<mapsto> \<lparr>slot_addr = 0x1000, slot_size = 8, slot_next = 32\<rparr>], fl_root = 16, fl_handed = []\<rparr>,
      (\<lambda>_. ListIdle)(0 := PushReturned))"
  by (simp add: aba_setup_def empty_list_def fun_eq_iff)

lemma aba_run_run:
  "list_run (\<lambda>_. True) (\<lambda>_. True) aba_run
     (\<lparr>fl_slots = [32 \<mapsto> \<lparr>slot_addr = 0x2000, slot_size = 64, slot_next = 0\<rparr>,
             16 \<mapsto> \<lparr>slot_addr = 0x1000, slot_size = 8, slot_next = 32\<rparr>], fl_root = 16, fl_handed = []\<rparr>,
      (\<lambda>_. ListIdle)(0 := PushReturned)) =
    Some (\<lparr>fl_slots = [32 \<mapsto> \<lparr>slot_addr = 0x2000, slot_size = 64, slot_next = 0\<rparr>,
             16 \<mapsto> \<lparr>slot_addr = 0x1000, slot_size = 8, slot_next = 0\<rparr>], fl_root = 0, fl_handed = [32, 16, 32]\<rparr>,
      (\<lambda>_. ListIdle)(0 := PushReturned, 1 := PopReturned None, 2 := PopReturned (Some (0x1000, 8)),
        3 := PopReturned (Some (0x2000, 64)), 4 := PopReturned (Some (0x2000, 64))))"
  by (simp add: aba_run_def fun_eq_iff)

section \<open>The theorems\<close>

text \<open>
  C14: any number of goroutines push and pop at the same time, in any interleaving of their single
  loads, stores and compare-and-swaps. When every request is at most as large as every free block,
  no slot is handed out twice, and none is lost: each slot that was ever pushed is in the list, or
  was handed out once, or is in the hands of exactly one goroutine that has not returned yet.
\<close>

theorem free_list_hands_out_once:
  assumes "reach list_act (list_call (\<lambda>sz. n \<le> sz) (\<lambda>sz. sz \<le> n)) (empty_list, \<lambda>_. ListIdle) (f, ls)"
  shows "distinct (fl_handed f) \<and>
    (\<exists>xs. list_at (fl_slots f) (fl_root f) xs \<and> distinct xs \<and> set xs \<inter> set (fl_handed f) = {} \<and>
      (\<forall>s. s \<in> dom (fl_slots f) \<longleftrightarrow> s \<in> set xs \<or> s \<in> set (fl_handed f) \<or> (\<exists>t. owns (ls t) = Some s)) \<and>
      (\<forall>t s. owns (ls t) = Some s \<longrightarrow> s \<notin> set xs \<and> s \<notin> set (fl_handed f) \<and> (\<forall>u. owns (ls u) = Some s \<longrightarrow> u = t)))"
proof -
  obtain xs where "list_inv_at n xs f ls"
    using free_list.reach_inv [OF assms list_inv_empty] by (auto simp: list_inv_def)
  note D = list_inv_atD [OF this]
  have "distinct xs" "distinct (fl_handed f)" "set xs \<inter> set (fl_handed f) = {}"
    using D(2) by auto
  moreover have "s \<in> dom (fl_slots f) \<longleftrightarrow> s \<in> set xs \<or> s \<in> set (fl_handed f) \<or> (\<exists>t. owns (ls t) = Some s)" for s
    using D(3) by simp
  moreover have "s \<notin> set xs \<and> s \<notin> set (fl_handed f) \<and> (\<forall>u. owns (ls u) = Some s \<longrightarrow> u = t)" if "owns (ls t) = Some s" for t s
    using D(4) [OF that] D(5) [OF that] by auto
  ultimately show ?thesis
    using D(1) by blast
qed

theorem free_list_hands_out_once_witness:
  "\<exists>f ls. list_run (\<lambda>sz. 64 \<le> sz) (\<lambda>sz. sz \<le> 64) push_pop (empty_list, \<lambda>_. ListIdle) = Some (f, ls) \<and>
    fl_handed f = [16] \<and> distinct (fl_handed f)"
  using free_list_hands_out_once [OF list_run_from_start, OF push_pop_run] push_pop_run by simp

text \<open>
  Whatever the goroutines have done so far, with blocks and requests of any size, an operation
  on the free list that is left alone returns after at most nine further loads, stores and
  compare-and-swaps: no goroutine can leave the list in a state that blocks another one. A whole
  operation that runs alone has the effect and the result of the sequential \<open>pushFree\<close> and \<open>popFree\<close>.
\<close>

lemma free_list_obstruction_free:
  assumes "reach list_act (list_call (\<lambda>_. True) (\<lambda>_. True)) (empty_list, \<lambda>_. ListIdle) (f, ls)"
  shows "(\<exists>k \<le> 9. list_done (snd (solo list_act k (f, ls t)))) \<and>
    (\<forall>slot. ls t = PushLoad slot Freed \<longrightarrow>
      (\<exists>k f'. solo list_act k (f, ls t) = (f', PushReturned) \<and>
        pushFree (fl_slots f) (fl_root f) slot = Some (fl_slots f', fl_root f'))) \<and>
    (\<forall>sz. ls t = PopLoad sz \<longrightarrow>
      (\<exists>k f' r. solo list_act k (f, ls t) = (f', PopReturned r) \<and>
        popFree (fl_slots f) (fl_root f) sz = Some (fl_slots f', fl_root f', r)))"
proof -
  note safe = list_reach_safe(1) [OF assms] and pc = list_reach_safe(2) [OF assms, of t]
  have "\<exists>k f'. solo list_act k (f, ls t) = (f', PushReturned) \<and>
      pushFree (fl_slots f) (fl_root f) slot = Some (fl_slots f', fl_root f')" if start: "ls t = PushLoad slot Freed" for slot
  proof -
    obtain s where "fl_slots f slot = Some s"
      using pc by (auto simp: pc_safe_def start)
    from pushFree_alone [OF this, of Freed] show ?thesis
      using start by auto
  qed
  moreover have "\<exists>k f' r. solo list_act k (f, ls t) = (f', PopReturned r) \<and>
      popFree (fl_slots f) (fl_root f) sz = Some (fl_slots f', fl_root f', r)" if "ls t = PopLoad sz" for sz
    using popFree_alone [OF safe, of sz] that by auto
  ultimately show ?thesis
    using list_reach_safe(3) [OF assms, of t] unfolding returns_within_def by blast
qed

lemma free_list_obstruction_free_example:
  "\<exists>f ls. list_run (\<lambda>_. True) (\<lambda>_. True) [Call 0 (DoPush 16 0x1000 64)] (empty_list, \<lambda>_. ListIdle) = Some (f, ls) \<and>
    ls 0 = PushLoad 16 Freed \<and> (\<exists>k f'. solo list_act k (f, ls 0) = (f', PushReturned))"
proof -
  let ?r = "list_run (\<lambda>_. True) (\<lambda>_. True) [Call 0 (DoPush 16 0x1000 64)] (empty_list, \<lambda>_. ListIdle)"
  obtain f ls where r: "?r = Some (f, ls)" "ls 0 = PushLoad 16 Freed"
    by (simp add: empty_list_def)
  have "\<exists>k f'. solo list_act k (f, ls 0) = (f', PushReturned)"
    using free_list_obstruction_free [OF list_run_from_start [OF r(1)], of 0] r(2) by blast
  with r show ?thesis by blast
qed

text \<open>
  With requests that may be too large for the head of the list, a block can be handed out
  twice. There is an interleaving of five goroutines at whose end two calls of \<open>popFree\<close> have both
  returned the block at 0x2000, although it was put into the list once: \<open>popFree\<close> puts a slot that is
  too small back, and a compare-and-swap on the head cannot tell that the slot was away in between.
\<close>

lemma free_list_hands_out_twice:
  "\<exists>f ls. reach list_act (list_call (\<lambda>_. True) (\<lambda>_. True)) (empty_list, \<lambda>_. ListIdle) (f, ls) \<and>
    ls 3 = PopReturned (Some (0x2000, 64)) \<and> ls 4 = PopReturned (Some (0x2000, 64)) \<and>
    {s. \<exists>x. fl_slots f s = Some x \<and> slot_addr x = 0x2000} = {32} \<and> fl_handed f = [32, 16, 32]"
proof (intro exI conjI)
  show "reach list_act (list_call (\<lambda>_. True) (\<lambda>_. True)) (empty_list, \<lambda>_. ListIdle)
     (\<lparr>fl_slots = [32 \<mapsto> \<lparr>slot_addr = 0x2000, slot_size = 64, slot_next = 0\<rparr>,
             16 \<mapsto> \<lparr>slot_addr = 0x1000, slot_size = 8, slot_next = 0\<rparr>], fl_root = 0, fl_handed = [32, 16, 32]\<rparr>,
      (\<lambda>_. ListIdle)(0 := PushReturned, 1 := PopReturned None, 2 := PopReturned (Some (0x1000, 8)),
        3 := PopReturned (Some (0x2000, 64)), 4 := PopReturned (Some (0x2000, 64))))"
    by (rule list_run_reach [OF aba_run_run list_run_from_start [OF aba_setup_run]])
qed (auto split: if_splits)

end
