(* ===== verification/Conc_Tree.thy ===== *)
theory Conc_Tree
  imports Balloc Threads
begin

text \<open>
  The search tree of balloc/tree.go and arena/tree.go as goroutines use it at the same time: inserting
  a node, finding one, adding owners to it and clearing owners of it. Every access to a word that
  other goroutines write is one atomic action: a load, a store, an atomic or, a compare-and-swap. The
  address of a node is written before the node is published and never again.

  The two packages run the same loops but for one store: the insertion of balloc also sets the size
  of a node that it finds (the argument \<open>resize\<close> of \<open>tree_act\<close>).

  Here: the actions, and the invariant of every interleaving: what hangs below the root is a
  search tree, and a goroutine on its way down stands on the search path of its address.
  Conc_Tree_Props draws the conclusions.
\<close>

section \<open>The actions\<close>

record tree_state =
  tr_nodes :: node_store
  tr_root :: uintptr

text \<open>What a walk is for: \<open>findNode\<close> alone, \<open>Share\<close>, or \<open>FreeVarying\<close>.\<close>

datatype find_then = ThenReturn | ThenOr u64 | ThenClear u64

text \<open>
  The places in the code: \<open>insertNode\<close> before its load of the root and before its compare-and-swap;
  \<open>insertBelow\<close> at a node, before its compare-and-swap on the link, and between the two updates of
  a node that it found; \<open>findNode\<close>; the loop of \<open>clearOwner\<close>. A returned insertion keeps the node
  it was called with and its result.
\<close>

datatype tree_pc =
    TreeIdle
  | InsRoot uintptr
  | InsRootCas uintptr
  | InsAt uintptr uintptr
  | InsCas uintptr uintptr
  | InsOr uintptr uintptr
  | InsReturned uintptr uintptr
  | FindRoot uintptr find_then
  | FindAt uintptr uintptr find_then
  | FindReturned uintptr uintptr
  | OrOwner uintptr u64
  | OrReturned uintptr
  | ClearLoad uintptr u64
  | ClearCas uintptr u64 u64
  | ClearReturned uintptr u64

definition set_node :: "tree_state \<Rightarrow> uintptr \<Rightarrow> BallocNode \<Rightarrow> tree_state" where
  "set_node s q c = s\<lparr>tr_nodes := (tr_nodes s)(q \<mapsto> c)\<rparr>"

fun tree_act :: "bool \<Rightarrow> (tree_state, tree_pc) action" where
  "tree_act resize (InsRoot node) s =
     Some (s, if tr_root s = 0 then InsRootCas node else InsAt node (tr_root s))"
| "tree_act resize (InsRootCas node) s =
     (if tr_root s = 0 then Some (s\<lparr>tr_root := node\<rparr>, InsReturned node node) else Some (s, InsRoot node))"
| "tree_act resize (InsAt node cur) s =
     (case (tr_nodes s node, tr_nodes s cur) of
        (Some n, Some c) \<Rightarrow>
          if Addr n = Addr c then
            (if resize then Some (set_node s cur (c\<lparr>Size := Size n\<rparr>), InsOr node cur)
             else Some (set_node s cur (c\<lparr>OwnerMask := OwnerMask c OR OwnerMask n\<rparr>), InsReturned node cur))
          else if link_of c (Addr n) = 0 then Some (s, InsCas node cur)
          else Some (s, InsAt node (link_of c (Addr n)))
      | _ \<Rightarrow> None)"
| "tree_act resize (InsCas node cur) s =
     (case (tr_nodes s node, tr_nodes s cur) of
        (Some n, Some c) \<Rightarrow>
          if link_of c (Addr n) = 0 then Some (set_node s cur (set_link c (Addr n) node), InsReturned node node)
          else Some (s, InsAt node cur)
      | _ \<Rightarrow> None)"
| "tree_act resize (InsOr node cur) s =
     (case (tr_nodes s node, tr_nodes s cur) of
        (Some n, Some c) \<Rightarrow>
          Some (set_node s cur (c\<lparr>OwnerMask := OwnerMask c OR OwnerMask n\<rparr>), InsReturned node cur)
      | _ \<Rightarrow> None)"
| "tree_act resize (FindRoot a k) s =
     Some (s, if tr_root s = 0 then FindReturned a 0 else FindAt a (tr_root s) k)"
| "tree_act resize (FindAt a cur k) s =
     (case tr_nodes s cur of
        None \<Rightarrow> None
      | Some c \<Rightarrow>
          if a = Addr c then
            Some (s, case k of ThenReturn \<Rightarrow> FindReturned a cur | ThenOr m \<Rightarrow> OrOwner cur m | ThenClear m \<Rightarrow> ClearLoad cur m)
          else let p = (if a < Addr c then Left c else Right c) in
            Some (s, if p = 0 then FindReturned a 0 else FindAt a p k))"
| "tree_act resize (OrOwner cur m) s =
     (case tr_nodes s cur of
        None \<Rightarrow> None
      | Some c \<Rightarrow> Some (set_node s cur (c\<lparr>OwnerMask := OwnerMask c OR m\<rparr>), OrReturned cur))"
| "tree_act resize (ClearLoad cur m) s =
     (case tr_nodes s cur of None \<Rightarrow> None | Some c \<Rightarrow> Some (s, ClearCas cur m (OwnerMask c)))"
| "tree_act resize (ClearCas cur m current) s =
     (case tr_nodes s cur of
        None \<Rightarrow> None
      | Some c \<Rightarrow>
          let nxt = current AND NOT m in
          if OwnerMask c = current then Some (set_node s cur (c\<lparr>OwnerMask := nxt\<rparr>), ClearReturned cur nxt)
          else Some (s, ClearLoad cur m))"
| "tree_act resize TreeIdle s = None"
| "tree_act resize (InsReturned node p) s = None"
| "tree_act resize (FindReturned a p) s = None"
| "tree_act resize (OrReturned p) s = None"
| "tree_act resize (ClearReturned p m) s = None"

fun tree_done :: "tree_pc \<Rightarrow> bool" where
  "tree_done TreeIdle = True"
| "tree_done (InsReturned node p) = True"
| "tree_done (FindReturned a p) = True"
| "tree_done (OrReturned p) = True"
| "tree_done (ClearReturned p m) = True"
| "tree_done _ = False"

text \<open>
  Calls: an insertion comes with a node that \<open>newNode\<close> has just made; \<open>Share\<close> and \<open>FreeVarying\<close> come
  with an address and a mask.
\<close>

inductive tree_call :: "tree_state \<Rightarrow> tree_pc \<Rightarrow> tree_state \<Rightarrow> tree_pc \<Rightarrow> bool" where
  call_insert: "tree_done l \<Longrightarrow> node \<noteq> 0 \<Longrightarrow> tr_nodes s node = None \<Longrightarrow>
    tree_call s l (set_node s node \<lparr>Addr = a, Size = sz, OwnerMask = m, Left = 0, Right = 0\<rparr>) (InsRoot node)"
| call_find: "tree_done l \<Longrightarrow> tree_call s l s (FindRoot a k)"

definition empty_tree :: tree_state where
  "empty_tree = \<lparr>tr_nodes = Map.empty, tr_root = 0\<rparr>"

section \<open>The invariant of all interleavings\<close>

text \<open>The node that a goroutine is about to publish.\<close>

fun pending :: "tree_pc \<Rightarrow> uintptr option" where
  "pending (InsRoot node) = Some node"
| "pending (InsRootCas node) = Some node"
| "pending (InsAt node cur) = Some node"
| "pending (InsCas node cur) = Some node"
| "pending (InsOr node cur) = Some node"
| "pending _ = None"

definition new_node :: "node_store \<Rightarrow> uintptr tree \<Rightarrow> uintptr \<Rightarrow> bool" where
  "new_node h t node \<longleftrightarrow> node \<noteq> 0 \<and> node \<notin> set_tree t \<and> (\<exists>n. h node = Some n \<and> Left n = 0 \<and> Right n = 0)"

text \<open>Where a goroutine stands in the tree.\<close>

fun walks :: "node_store \<Rightarrow> uintptr tree \<Rightarrow> tree_pc \<Rightarrow> bool" where
  "walks h t (InsAt node cur) = toward h t (key h node) cur"
| "walks h t (InsCas node cur) = (toward h t (key h node) cur \<and> key h node \<noteq> key h cur)"
| "walks h t (InsOr node cur) = (cur \<in> set_tree t \<and> key h cur = key h node)"
| "walks h t (InsReturned node p) = (p \<in> set_tree t \<and> node \<in> dom h \<and> key h p = key h node)"
| "walks h t (FindAt a cur k) = toward h t a cur"
| "walks h t (FindReturned a p) = (p = 0 \<or> p \<in> set_tree t \<and> key h p = a)"
| "walks h t (OrOwner cur m) = (cur \<in> set_tree t)"
| "walks h t (OrReturned cur) = (cur \<in> set_tree t)"
| "walks h t (ClearLoad cur m) = (cur \<in> set_tree t)"
| "walks h t (ClearCas cur m current) = (cur \<in> set_tree t)"
| "walks h t (ClearReturned cur m) = (cur \<in> set_tree t)"
| "walks h t _ = True"

definition tree_inv_at :: "uintptr tree \<Rightarrow> tree_state \<Rightarrow> (nat \<Rightarrow> tree_pc) \<Rightarrow> bool" where
  "tree_inv_at t s ls \<longleftrightarrow>
     mem_tree (tr_nodes s) (tr_root s) t \<and>
     (\<forall>u. walks (tr_nodes s) t (ls u)) \<and>
     (\<forall>u node. pending (ls u) = Some node \<longrightarrow> new_node (tr_nodes s) t node) \<and>
     (\<forall>u v node. pending (ls u) = Some node \<longrightarrow> pending (ls v) = Some node \<longrightarrow> u = v)"

definition tree_inv :: "tree_state \<Rightarrow> (nat \<Rightarrow> tree_pc) \<Rightarrow> bool" where
  "tree_inv s ls \<longleftrightarrow> (\<exists>t. tree_inv_at t s ls)"

lemma tree_inv_atD:
  assumes "tree_inv_at t s ls"
  shows "mem_tree (tr_nodes s) (tr_root s) t" "walks (tr_nodes s) t (ls u)"
    "pending (ls u) = Some node \<Longrightarrow> new_node (tr_nodes s) t node"
    "pending (ls u) = Some node \<Longrightarrow> pending (ls v) = Some node \<Longrightarrow> u = v"
  using assms unfolding tree_inv_at_def by blast+

text \<open>
  How the tree may change under a goroutine: no node leaves it, no address changes, a search path
  only gets longer, and nodes that are not published stay as they are.
\<close>

definition tree_ext :: "node_store \<Rightarrow> uintptr tree \<Rightarrow> node_store \<Rightarrow> uintptr tree \<Rightarrow> bool" where
  "tree_ext h t h' t' \<longleftrightarrow>
     set_tree t \<subseteq> set_tree t' \<and> (\<forall>q \<in> dom h. q \<in> dom h' \<and> key h' q = key h q) \<and>
     (\<forall>a q. toward h t a q \<longrightarrow> toward h' t' a q) \<and> (\<forall>q \<in> dom h. q \<notin> set_tree t \<longrightarrow> h' q = h q)"

lemma tree_ext_refl: "tree_ext h t h t"
  by (simp add: tree_ext_def)

lemma new_node_ext: "new_node h t node \<Longrightarrow> tree_ext h t h' t' \<Longrightarrow> node \<notin> set_tree t' \<Longrightarrow> new_node h' t' node"
  by (auto simp: new_node_def tree_ext_def dom_def)

lemma walks_ext:
  assumes "mem_tree h p t" "walks h t l" "tree_ext h t h' t'" "\<And>node. pending l = Some node \<Longrightarrow> new_node h t node"
  shows "walks h' t' l"
proof -
  have key: "key h' q = key h q" if "q \<in> dom h" for q
    using assms(3) that by (auto simp: tree_ext_def)
  have inside: "q \<in> dom h" "q \<in> set_tree t'" if "q \<in> set_tree t" for q
    using mem_tree_dom [OF assms(1) that] assms(3) that by (auto simp: tree_ext_def)
  have path: "q \<in> dom h" "toward h' t' a q" if "toward h t a q" for a q
    using toward_key [OF assms(1) that] assms(3) that by (auto simp: tree_ext_def)
  have new: "node \<in> dom h" if "pending l = Some node" for node
    using assms(4) [OF that] by (auto simp: new_node_def)
  have grows: "q \<in> dom h'" if "q \<in> dom h" for q
    using assms(3) that by (auto simp: tree_ext_def)
  show ?thesis
    using assms(2) key inside path new grows by (cases l) (auto simp del: domIff)
qed

lemma tree_inv_step:
  assumes inv: "tree_inv_at t s ls" and tree: "mem_tree (tr_nodes s') (tr_root s') t'"
    and ext: "tree_ext (tr_nodes s) t (tr_nodes s') t'" and walk: "walks (tr_nodes s') t' l"
    and pend: "pending l = None \<and> (\<forall>x \<in> set_tree t' - set_tree t. pending (ls u) = Some x) \<or>
      pending l = pending (ls u) \<and> set_tree t' = set_tree t"
  shows "tree_inv s' (ls(u := l))"
proof -
  note D = tree_inv_atD [OF inv]
  have "walks (tr_nodes s') t' ((ls(u := l)) v)" for v
    using walk walks_ext [OF D(1) D(2) ext D(3)] by simp
  moreover have "new_node (tr_nodes s') t' node" if "pending ((ls(u := l)) v) = Some node" for v node
  proof (rule new_node_ext [OF _ ext])
    have same: "pending (ls v) = Some node" "v = u \<Longrightarrow> set_tree t' = set_tree t"
      using that pend by (auto split: if_splits)
    from D(3) [OF same(1)] show new: "new_node (tr_nodes s) t node" .
    show "node \<notin> set_tree t'"
      using new same pend D(4) [OF same(1), of u] by (auto simp: new_node_def)
  qed
  moreover have "v = w" if "pending ((ls(u := l)) v) = Some node" "pending ((ls(u := l)) w) = Some node" for v w node
    using that pend D(4) [of _ node] by (auto split: if_splits)
  ultimately have "tree_inv_at t' s' (ls(u := l))"
    unfolding tree_inv_at_def using tree by blast
  then show ?thesis
    by (auto simp: tree_inv_def)
qed

text \<open>The three ways in which an action changes the tree.\<close>

lemma data_ext:
  assumes t: "mem_tree h p t" and q: "q \<in> set_tree t" "h q = Some c"
    and same: "Addr c' = Addr c" "Left c' = Left c" "Right c' = Right c"
  shows "mem_tree (h(q \<mapsto> c')) p t \<and> tree_ext h t (h(q \<mapsto> c')) t"
proof -
  have keys: "key (h(q \<mapsto> c')) x = key h x" for x
    using q(2) same(1) by (simp add: key_def)
  have "toward (h(q \<mapsto> c')) t a x = toward h t a x" for a x
    by (rule toward_cong) (rule keys)
  moreover have "mem_tree (h(q \<mapsto> c')) p t"
    using t by (rule mem_tree_cong) (use q same in auto)
  ultimately show ?thesis
    using q keys by (auto simp: tree_ext_def)
qed

lemma link_ext:
  assumes t: "mem_tree h p t" and path: "toward h t (Addr n) q" and c: "h q = Some c" "Addr n \<noteq> Addr c" "link_of c (Addr n) = 0"
    and node: "new_node h t node" "h node = Some n"
  defines "h' \<equiv> h(q \<mapsto> set_link c (Addr n) node)"
  shows "mem_tree h' p (grow_tree h t (Addr n) node) \<and> tree_ext h t h' (grow_tree h t (Addr n) node)"
    and "set_tree (grow_tree h t (Addr n) node) = insert node (set_tree t)" "key h' = key h"
proof -
  show keys: "key h' = key h"
    using c(1) by (auto simp: h'_def key_def set_link_def fun_eq_iff)
  show grown: "set_tree (grow_tree h t (Addr n) node) = insert node (set_tree t)"
    by (rule set_grow) (rule end_of_path [OF t path c])
  have "toward h' (grow_tree h t (Addr n) node) a x" if "toward h t a x" for a x
    using toward_grow [OF that] by (subst toward_cong [of _ _ h]) (simp_all add: keys)
  moreover have "mem_tree h' p (grow_tree h t (Addr n) node)"
    unfolding h'_def by (rule link_grow [OF t path c]) (use node in \<open>auto simp: new_node_def\<close>)
  ultimately show "mem_tree h' p (grow_tree h t (Addr n) node) \<and> tree_ext h t h' (grow_tree h t (Addr n) node)"
    using grown keys toward_mem [OF path] by (auto simp: tree_ext_def h'_def)
qed

text \<open>What an action of a goroutine does to the tree.\<close>

definition acts_well :: "tree_state \<Rightarrow> uintptr tree \<Rightarrow> tree_pc \<Rightarrow> tree_state \<Rightarrow> tree_pc \<Rightarrow> bool" where
  "acts_well s t l s' l' \<longleftrightarrow> (\<exists>t'. mem_tree (tr_nodes s') (tr_root s') t' \<and>
     tree_ext (tr_nodes s) t (tr_nodes s') t' \<and> walks (tr_nodes s') t' l' \<and>
     (pending l' = None \<and> (\<forall>x \<in> set_tree t' - set_tree t. pending l = Some x) \<or>
      pending l' = pending l \<and> set_tree t' = set_tree t))"

lemma acts_silent:
  assumes "mem_tree (tr_nodes s) (tr_root s) t" "walks (tr_nodes s) t l'" "pending l' = None \<or> pending l' = pending l"
  shows "acts_well s t l s l'"
  unfolding acts_well_def using assms tree_ext_refl by (intro exI [of _ t]) auto

lemma acts_data:
  assumes t: "mem_tree (tr_nodes s) (tr_root s) t" and q: "q \<in> set_tree t" "tr_nodes s q = Some c"
    and same: "Addr c' = Addr c" "Left c' = Left c" "Right c' = Right c"
    and l': "walks (tr_nodes s) t l'" "pending l' = None \<or> pending l' = pending l"
      "\<And>node. pending l' = Some node \<Longrightarrow> new_node (tr_nodes s) t node"
  shows "acts_well s t l (set_node s q c') l'"
proof -
  note E = data_ext [OF t q same]
  have "walks ((tr_nodes s)(q \<mapsto> c')) t l'"
    using walks_ext [OF t l'(1) conjunct2 [OF E] l'(3)] .
  then show ?thesis
    unfolding acts_well_def set_node_def using E l'(2) by (intro exI [of _ t]) auto
qed

lemma acts_link:
  assumes inv: "tree_inv_at t s ls" and at: "ls u = InsCas node cur"
    and n: "tr_nodes s node = Some n" and c: "tr_nodes s cur = Some c" "link_of c (Addr n) = 0"
  shows "acts_well s t (ls u) (set_node s cur (set_link c (Addr n) node)) (InsReturned node node)"
proof -
  have path: "toward (tr_nodes s) t (Addr n) cur" "Addr n \<noteq> Addr c"
    using tree_inv_atD(2) [OF inv, of u] at n c by (auto simp: key_def)
  have new: "new_node (tr_nodes s) t node"
    using tree_inv_atD(3) [OF inv, of u] at by simp
  note L = link_ext [OF tree_inv_atD(1) [OF inv] path(1) c(1) path(2) c(2) new n]
  have "node \<in> dom ((tr_nodes s)(cur \<mapsto> set_link c (Addr n) node))"
    using n by auto
  then show ?thesis
    unfolding acts_well_def set_node_def using L at
    by (intro exI [of _ "grow_tree (tr_nodes s) t (Addr n) node"]) (simp, blast)
qed

lemma acts_root:
  assumes inv: "tree_inv_at t s ls" and at: "ls u = InsRootCas node" "tr_root s = 0"
  shows "acts_well s t (ls u) (s\<lparr>tr_root := node\<rparr>) (InsReturned node node)"
proof -
  have "t = Leaf"
    using tree_inv_atD(1) [OF inv] at(2) by simp
  obtain n where n: "node \<noteq> 0" "tr_nodes s node = Some n" "Left n = 0" "Right n = 0"
    using tree_inv_atD(3) [OF inv, of u] at by (auto simp: new_node_def)
  have "mem_tree (tr_nodes s) node (Node Leaf node Leaf)"
    using n by (rule mem_tree_single)
  then show ?thesis
    unfolding acts_well_def using \<open>t = Leaf\<close> n(2) at
    by (intro exI [of _ "Node Leaf node Leaf"]) (auto simp: tree_ext_def)
qed

text \<open>One action of each loop.\<close>

lemma key_at: "tr_nodes s q = Some c \<Longrightarrow> key (tr_nodes s) q = Addr c"
  by (simp add: key_def)

lemma acts_InsAt:
  assumes inv: "tree_inv_at t s ls" and at: "ls u = InsAt node cur" and act: "tree_act resize (ls u) s = Some (s', l)"
  shows "acts_well s t (ls u) s' l"
proof -
  note D = tree_inv_atD(1) [OF inv] and N = tree_inv_atD(3) [OF inv, of u]
  obtain n where n: "tr_nodes s node = Some n"
    using N at by (auto simp: new_node_def)
  obtain c where c: "tr_nodes s cur = Some c"
    using act at n by (auto split: option.splits)
  note keys = key_at [OF n] key_at [OF c]
  have path: "toward (tr_nodes s) t (Addr n) cur"
    using tree_inv_atD(2) [OF inv, of u] at keys by simp
  show ?thesis
  proof (cases "Addr n = Addr c")
    case True
    then show ?thesis
      using act at n c toward_mem [OF path] N keys by (cases resize) (auto intro!: acts_data [OF D])
  next
    case False
    then have "s' = s" "walks (tr_nodes s) t l" "pending l = pending (ls u)"
      using act at n c path toward_step [OF D path c] keys by (auto split: if_splits)
    then show ?thesis
      using acts_silent [OF D] by simp
  qed
qed

lemma acts_InsCas:
  assumes inv: "tree_inv_at t s ls" and at: "ls u = InsCas node cur" and act: "tree_act resize (ls u) s = Some (s', l)"
  shows "acts_well s t (ls u) s' l"
proof -
  obtain n c where n: "tr_nodes s node = Some n" "tr_nodes s cur = Some c"
    using act at by (auto split: option.splits)
  show ?thesis
  proof (cases "link_of c (Addr n) = 0")
    case True
    then show ?thesis
      using act at n acts_link [OF inv at n] by auto
  next
    case False
    then have "s' = s" "l = InsAt node cur"
      using act at n by auto
    then show ?thesis
      using acts_silent [OF tree_inv_atD(1) [OF inv]] tree_inv_atD(2) [OF inv, of u] at by simp
  qed
qed

lemma acts_FindAt:
  assumes inv: "tree_inv_at t s ls" and at: "ls u = FindAt a cur k" and act: "tree_act resize (ls u) s = Some (s', l)"
  shows "acts_well s t (ls u) s' l"
proof -
  note D = tree_inv_atD(1) [OF inv]
  obtain c where c: "tr_nodes s cur = Some c"
    using act at by (auto split: option.splits)
  have path: "toward (tr_nodes s) t a cur"
    using tree_inv_atD(2) [OF inv, of u] at by simp
  have "s' = s \<and> walks (tr_nodes s) t l \<and> pending l = None"
  proof (cases "a = Addr c")
    case True
    then show ?thesis
      using act at c path toward_mem [OF path] key_at [OF c] by (auto split: find_then.splits)
  next
    case False
    then have "(if a < Addr c then Left c else Right c) = link_of c a"
      by (auto simp: link_of_def)
    then show ?thesis
      using False act at c path toward_step [OF D path c] by (auto simp: Let_def split: if_splits)
  qed
  then show ?thesis
    using acts_silent [OF D] by simp
qed

lemma acts_on_owner:
  assumes inv: "tree_inv_at t s ls" and act: "tree_act resize (ls u) s = Some (s', l)"
    and at: "(\<exists>node. ls u = InsOr node q) \<or> (\<exists>m. ls u = OrOwner q m) \<or> (\<exists>m. ls u = ClearLoad q m) \<or> (\<exists>m current. ls u = ClearCas q m current)"
  shows "acts_well s t (ls u) s' l"
proof -
  note D = tree_inv_atD(1) [OF inv] and W = tree_inv_atD(2) [OF inv, of u]
  have q: "q \<in> set_tree t"
    using at W by auto
  obtain c where c: "tr_nodes s q = Some c"
    using mem_tree_dom [OF D q] by blast
  have "pending l = None \<and> walks (tr_nodes s) t l \<and> (s' = s \<or> (\<exists>x. s' = set_node s q (c\<lparr>OwnerMask := x\<rparr>)))"
    using at act W c q by (auto simp: Let_def dest: domI split: option.splits if_splits)
  then show ?thesis
    using acts_silent [OF D, of l "ls u"] acts_data [OF D q c, where l' = l and l = "ls u"] by auto
qed

lemma tree_act_well:
  assumes inv: "tree_inv_at t s ls" and act: "tree_act resize (ls u) s = Some (s', l)"
  shows "acts_well s t (ls u) s' l"
proof (cases "ls u")
  case (InsRoot node)
  then show ?thesis
    using act toward_root [OF tree_inv_atD(1) [OF inv]] acts_silent [OF tree_inv_atD(1) [OF inv]] by auto
next
  case (InsRootCas node)
  then show ?thesis
    using act acts_root [OF inv InsRootCas] acts_silent [OF tree_inv_atD(1) [OF inv]] by (cases "tr_root s = 0") auto
next
  case (FindRoot a k)
  then show ?thesis
    using act toward_root [OF tree_inv_atD(1) [OF inv]] acts_silent [OF tree_inv_atD(1) [OF inv]] by auto
qed (use act acts_InsAt [OF inv _ act] acts_InsCas [OF inv _ act] acts_FindAt [OF inv _ act] acts_on_owner [OF inv act] in auto)

lemma done_pending: "tree_done l \<Longrightarrow> pending l = None"
  by (cases l) auto

text \<open>A call that brings a node leaves the tree alone.\<close>

lemma fresh_ext:
  assumes t: "mem_tree h p t" and "h node = None"
  shows "mem_tree (h(node \<mapsto> n)) p t \<and> tree_ext h t (h(node \<mapsto> n)) t"
proof -
  have out: "node \<notin> set_tree t"
    using mem_tree_dom [OF t] assms(2) by fastforce
  then have "toward (h(node \<mapsto> n)) t a x = toward h t a x" for a x
    by (intro toward_cong) (auto simp: key_def)
  moreover have "mem_tree (h(node \<mapsto> n)) p t"
    using t by (rule mem_tree_frame) (use out in auto)
  ultimately show ?thesis
    using assms(2) by (auto simp: tree_ext_def key_def)
qed

lemma tree_call_inv:
  assumes inv: "tree_inv_at t s ls" and call: "tree_call s (ls u) s' l"
  shows "tree_inv s' (ls(u := l))"
  using call
proof cases
  case (call_find a k)
  show ?thesis
    unfolding call_find by (rule tree_inv_step [OF inv tree_inv_atD(1) [OF inv] tree_ext_refl]) simp_all
next
  case (call_insert node a sz m)
  note D = tree_inv_atD [OF inv]
  let ?n = "\<lparr>Addr = a, Size = sz, OwnerMask = m, Left = 0, Right = 0\<rparr>"
  note E = fresh_ext [OF D(1) call_insert(5), of ?n]
  have out: "node \<notin> set_tree t"
    using mem_tree_dom [OF D(1)] call_insert(5) by fastforce
  have others: "pending (ls v) \<noteq> Some node" for v
    using D(3) [of v node] call_insert(5) by (auto simp: new_node_def)
  have "walks (tr_nodes s') t ((ls(u := l)) v)" for v
    using walks_ext [OF D(1) D(2) conjunct2 [OF E] D(3)] call_insert(1,2) by (simp add: set_node_def del: fun_upd_apply)
       (simp add: fun_upd_apply)
  moreover have "new_node (tr_nodes s') t nd" if "pending ((ls(u := l)) v) = Some nd" for v nd
  proof (cases "v = u")
    case True
    then show ?thesis
      using that call_insert(1,2,4) out by (simp add: new_node_def set_node_def)
  next
    case False
    then have "new_node (tr_nodes s) t nd"
      using that D(3) by simp
    then show ?thesis
      unfolding call_insert(1) set_node_def using new_node_ext [OF _ conjunct2 [OF E]] by (simp add: new_node_def)
  qed
  moreover have "v = w" if "pending ((ls(u := l)) v) = Some nd" "pending ((ls(u := l)) w) = Some nd" for v w nd
    using that D(4) [of _ nd] others call_insert(2) by (auto split: if_splits)
  moreover have "mem_tree (tr_nodes s') (tr_root s') t"
    using E call_insert(1) by (simp add: set_node_def)
  ultimately have "tree_inv_at t s' (ls(u := l))"
    unfolding tree_inv_at_def by blast
  then show ?thesis
    by (auto simp: tree_inv_def)
qed

interpretation conc_tree: shared_invariant "tree_act resize" tree_call tree_inv for resize
proof
  fix s ls u s' l
  assume "tree_inv s ls"
  then obtain t where inv: "tree_inv_at t s ls"
    by (auto simp: tree_inv_def)
  show "tree_inv s' (ls(u := l))" if "tree_act resize (ls u) s = Some (s', l)"
    using tree_act_well [OF inv that] unfolding acts_well_def by (elim exE conjE) (rule tree_inv_step [OF inv])
  show "tree_call s (ls u) s' l \<Longrightarrow> tree_inv s' (ls(u := l))"
    by (rule tree_call_inv [OF inv])
qed

lemma tree_inv_empty: "tree_inv empty_tree (\<lambda>_. TreeIdle)"
  unfolding tree_inv_def tree_inv_at_def empty_tree_def by (intro exI [of _ Leaf]) simp

end
