(* ===== verification/Conc_Tree_Props.thy ===== *)
theory Conc_Tree_Props
  imports Conc_Tree
begin

text \<open>
  What the search tree of balloc and arena guarantees to goroutines that use it at the same time:
  nothing that was inserted is lost, every operation takes effect in one of its actions as the
  sequential operation would at that moment, an operation that is left alone returns, and of the
  owners of a block that free it at the same time exactly one is told that it was the last.
\<close>

section \<open>Nothing is lost\<close>

lemma tree_ext_found:
  assumes "mem_tree h p t" "mem_tree h' p' t'" "tree_ext h t h' t'" "findNode h p a = Some q" "q \<noteq> 0"
  shows "findNode h' p' a = Some q"
proof (cases rule: findNode_total [OF assms(1), of a])
  case (2 x n)
  then have x: "x = q" "q \<in> set_tree t'" "q \<in> dom h" "key h q = a"
    using assms(3,4) by (auto simp: tree_ext_def key_def)
  then have "key h' q = a"
    using assms(3) by (auto simp: tree_ext_def)
  with findNode_hit [OF assms(2) x(2)] show ?thesis by simp
qed (use assms(4,5) in simp)

lemma found_stays:
  assumes "reach (tree_act resize) tree_call (s, ls) (s', ls')" "tree_inv s ls"
    and "findNode (tr_nodes s) (tr_root s) a = Some q" "q \<noteq> 0"
  shows "findNode (tr_nodes s') (tr_root s') a = Some q"
proof -
  have "tree_inv (fst c) (snd c) \<and> findNode (tr_nodes (fst c)) (tr_root (fst c)) a = Some q"
    if "reach (tree_act resize) tree_call (s, ls) c" for c
    using that
  proof (induction rule: reach.induct)
    case reach_refl
    then show ?case using assms by simp
  next
    case (reach_act s1 ls1 u s2 l)
    then obtain t where inv: "tree_inv_at t s1 ls1" and found: "findNode (tr_nodes s1) (tr_root s1) a = Some q"
      by (auto simp: tree_inv_def)
    from tree_act_well [OF inv reach_act(2)] obtain t' where
      "mem_tree (tr_nodes s2) (tr_root s2) t'" "tree_ext (tr_nodes s1) t (tr_nodes s2) t'"
      by (auto simp: acts_well_def)
    from tree_ext_found [OF tree_inv_atD(1) [OF inv] this found assms(4)] conc_tree.act_inv [where ls = ls1 and t = u, OF _ reach_act(2)] reach_act(3)
    show ?case
      by (simp del: fun_upd_apply)
  next
    case (reach_call s1 ls1 u s2 l)
    then have inv: "tree_inv s2 (ls1(u := l))"
      using conc_tree.call_inv [where ls = ls1 and t = u, OF _ reach_call(2)] by (simp del: fun_upd_apply)
    from reach_call obtain t where t: "mem_tree (tr_nodes s1) (tr_root s1) t"
      by (auto simp: tree_inv_def tree_inv_at_def)
    have found: "findNode (tr_nodes s1) (tr_root s1) a = Some q"
      using reach_call by simp
    from reach_call(2) have "findNode (tr_nodes s2) (tr_root s2) a = Some q"
    proof cases
      case (call_insert node b sz m)
      note F = fresh_ext [OF t call_insert(5), of "\<lparr>Addr = b, Size = sz, OwnerMask = m, Left = 0, Right = 0\<rparr>"]
      show ?thesis
        using tree_ext_found [OF t conjunct1 [OF F] conjunct2 [OF F] found assms(4)]
        by (simp add: call_insert(1) set_node_def del: fun_upd_apply)
    qed (use found in simp)
    with inv show ?case by (simp del: fun_upd_apply)
  qed
  from this [OF assms(1)] show ?thesis by simp
qed

lemma returned_found:
  assumes "tree_inv s ls" "ls u = InsReturned node p"
  shows "\<exists>n. tr_nodes s node = Some n \<and> p \<noteq> 0 \<and> findNode (tr_nodes s) (tr_root s) (Addr n) = Some p"
proof -
  obtain t where inv: "tree_inv_at t s ls"
    using assms(1) by (auto simp: tree_inv_def)
  note t = tree_inv_atD(1) [OF inv]
  obtain n where n: "tr_nodes s node = Some n" "p \<in> set_tree t" "key (tr_nodes s) p = Addr n"
    using tree_inv_atD(2) [OF inv, of u] assms(2) by (auto simp: key_def)
  show ?thesis
    using n findNode_hit [OF t n(2)] mem_tree_ptr_nonzero [OF t n(2)] by auto
qed

section \<open>An operation that is left alone returns\<close>

text \<open>The walk of either package below the root.\<close>

definition seq_insert :: "bool \<Rightarrow> node_store \<Rightarrow> uintptr \<Rightarrow> uintptr \<Rightarrow> (node_store \<times> uintptr) option" where
  "seq_insert resize = (if resize then insertBelow else arena_insertNode)"

lemma seq_insert_simps:
  assumes "h cur = Some c" "h node = Some n"
  shows "seq_insert resize h cur node =
    (if Addr n = Addr c then
       Some (h(cur \<mapsto> (if resize then c\<lparr>Size := Size n, OwnerMask := OwnerMask c OR OwnerMask n\<rparr>
                        else c\<lparr>OwnerMask := OwnerMask c OR OwnerMask n\<rparr>)), cur)
     else if link_of c (Addr n) = 0 then Some (h(cur \<mapsto> set_link c (Addr n) node), node)
     else seq_insert resize h (link_of c (Addr n)) node)"
  using assms by (simp add: seq_insert_def link_of_def set_link_def insertBelow.simps [of h cur] arena_insertNode.simps [of h cur])

lemma toward_insert:
  assumes "mem_tree h p t" "toward h t (Addr n) q" "h node = Some n"
  shows "seq_insert resize h p node = seq_insert resize h q node"
  using balloc_tree.ins_toward [OF assms] arena_tree.ins_toward [OF assms] by (simp add: seq_insert_def)

lemma insert_alone:
  assumes "mem_tree (tr_nodes s) cur t" "cur \<noteq> 0" "tr_nodes s node = Some n" "node \<notin> set_tree t"
  shows "\<exists>k h p. k \<le> height t + 1 \<and> seq_insert resize (tr_nodes s) cur node = Some (h, p) \<and>
    solo (tree_act resize) k (s, InsAt node cur) = (s\<lparr>tr_nodes := h\<rparr>, InsReturned node p)"
  using assms(1,2,4)
proof (induction t arbitrary: cur)
  case (Node l x r)
  then obtain c where c: "cur = x" "tr_nodes s x = Some c" "mem_tree (tr_nodes s) (Left c) l" "mem_tree (tr_nodes s) (Right c) r"
    by (auto simp: mem_tree_Node)
  have ne: "x \<noteq> node"
    using Node.prems(3) by auto
  note seq = seq_insert_simps [OF c(2) assms(3), of resize]
  consider "Addr n = Addr c" | "Addr n \<noteq> Addr c" "link_of c (Addr n) = 0"
    | "Addr n \<noteq> Addr c" "link_of c (Addr n) \<noteq> 0" by blast
  then show ?case
  proof cases
    case 1
    have "solo (tree_act resize) 2 (s, InsAt node x) = (s\<lparr>tr_nodes := fst (the (seq_insert resize (tr_nodes s) x node))\<rparr>, InsReturned node x)"
      using 1 c(2) assms(3) ne seq by (cases resize) (simp_all add: numeral_eq_Suc set_node_def)
    then show ?thesis
      unfolding c(1) using 1 seq by (intro exI [of _ 2]) auto
  next
    case 2
    have "solo (tree_act resize) 2 (s, InsAt node x) = (s\<lparr>tr_nodes := (tr_nodes s)(x \<mapsto> set_link c (Addr n) node)\<rparr>, InsReturned node node)"
      using 2 c(2) assms(3) by (simp add: numeral_eq_Suc set_node_def)
    then show ?thesis
      unfolding c(1) using 2 seq by (intro exI [of _ 2]) auto
  next
    case 3
    let ?t = "if Addr n > Addr c then r else l"
    have sub: "mem_tree (tr_nodes s) (link_of c (Addr n)) ?t" "node \<notin> set_tree ?t"
      using c(3,4) Node.prems(3) by (auto simp: link_of_def)
    obtain k h p where IH: "k \<le> height ?t + 1" "seq_insert resize (tr_nodes s) (link_of c (Addr n)) node = Some (h, p)"
      "solo (tree_act resize) k (s, InsAt node (link_of c (Addr n))) = (s\<lparr>tr_nodes := h\<rparr>, InsReturned node p)"
      using Node.IH(1) [of "link_of c (Addr n)"] Node.IH(2) [of "link_of c (Addr n)"] sub 3(2)
      by (cases "Addr n > Addr c") (simp_all, blast+)
    have "solo (tree_act resize) (Suc k) (s, InsAt node x) = (s\<lparr>tr_nodes := h\<rparr>, InsReturned node p)"
      using 3 c(2) assms(3) IH(3) by simp
    moreover have "height ?t \<le> height (Node l x r) - 1"
      by simp
    ultimately show ?thesis
      unfolding c(1) using seq 3 IH(1,2) by (intro exI [of _ "Suc k"] exI [of _ h] exI [of _ p]) auto
  qed
qed simp

text \<open>Where a goroutine goes on that has found the node, or not.\<close>

definition after_find :: "find_then \<Rightarrow> uintptr \<Rightarrow> uintptr \<Rightarrow> tree_pc" where
  "after_find k a p = (if p = 0 then FindReturned a 0 else case k of
     ThenReturn \<Rightarrow> FindReturned a p | ThenOr m \<Rightarrow> OrOwner p m | ThenClear m \<Rightarrow> ClearLoad p m)"

lemma find_alone:
  assumes "mem_tree (tr_nodes s) cur t" "cur \<noteq> 0"
  shows "\<exists>j p. j \<le> height t \<and> findNode (tr_nodes s) cur a = Some p \<and>
    solo (tree_act resize) j (s, FindAt a cur k) = (s, after_find k a p)"
  using assms
proof (induction t arbitrary: cur)
  case (Node l x r)
  then obtain c where c: "cur = x" "x \<noteq> 0" "tr_nodes s x = Some c" "mem_tree (tr_nodes s) (Left c) l" "mem_tree (tr_nodes s) (Right c) r"
    by (auto simp: mem_tree_Node)
  define q where "q = (if a < Addr c then Left c else Right c)"
  let ?t = "if a < Addr c then l else r"
  have sub: "mem_tree (tr_nodes s) q ?t" "height ?t < height (Node l x r)"
    using c(4,5) by (auto simp: q_def less_Suc_eq_le)
  have find: "findNode (tr_nodes s) x a = (if a = Addr c then Some x else findNode (tr_nodes s) q a)"
    using c(2,3) by (simp add: findNode.simps [of "tr_nodes s" x] q_def)
  have step: "tree_act resize (FindAt a x k) s =
      Some (s, if a = Addr c then after_find k a x else if q = 0 then FindReturned a 0 else FindAt a q k)"
    using c(2,3) by (simp add: q_def Let_def after_find_def split: find_then.split)
  consider "a = Addr c \<or> q = 0" | "a \<noteq> Addr c" "q \<noteq> 0" by blast
  then show ?case
  proof cases
    case 1
    then have "findNode (tr_nodes s) x a = Some (if a = Addr c then x else 0)"
      using find by (auto simp: findNode.simps [of _ 0])
    moreover have "solo (tree_act resize) 1 (s, FindAt a x k) = (s, after_find k a (if a = Addr c then x else 0))"
      using step 1 by (auto simp: after_find_def simp del: tree_act.simps)
    ultimately show ?thesis
      unfolding c(1) by (intro exI [of _ 1] exI [of _ "if a = Addr c then x else 0"]) (simp del: One_nat_def solo.simps)
  next
    case 2
    obtain j p where IH: "j \<le> height ?t" "findNode (tr_nodes s) q a = Some p"
      "solo (tree_act resize) j (s, FindAt a q k) = (s, after_find k a p)"
      using Node.IH(1) [of q] Node.IH(2) [of q] sub(1) 2(2) by (cases "a < Addr c") (simp_all, blast+)
    have "solo (tree_act resize) (Suc j) (s, FindAt a x k) = (s, after_find k a p)"
      using step 2 IH(3) by (simp del: tree_act.simps)
    then show ?thesis
      unfolding c(1) using find 2 IH(1,2) sub(2) by (intro exI [of _ "Suc j"] exI [of _ p]) auto
  qed
qed simp

lemma toward_sub:
  assumes "mem_tree h p t" "toward h t a q"
  shows "\<exists>t'. mem_tree h q t' \<and> set_tree t' \<subseteq> set_tree t \<and> height t' \<le> height t"
  using assms
proof (induction t arbitrary: p)
  case (Node l x r)
  from Node.prems(1) obtain m where m: "p = x" "mem_tree h (Left m) l" "mem_tree h (Right m) r" "h x = Some m"
    by (auto simp: mem_tree_Node)
  consider "q = x" | "toward h l a q" | "toward h r a q"
    using Node.prems(2) by auto
  then show ?case
  proof cases
    case 1
    then show ?thesis
      using Node.prems(1) m(1) by blast
  next
    case 2
    then show ?thesis
      using Node.IH(1) [OF m(2)] by (fastforce simp: le_max_iff_disj)
  next
    case 3
    then show ?thesis
      using Node.IH(2) [OF m(3)] by (fastforce simp: le_max_iff_disj)
  qed
qed simp

abbreviation tree_returns :: "bool \<Rightarrow> nat \<Rightarrow> tree_state \<Rightarrow> tree_pc \<Rightarrow> bool" where
  "tree_returns resize \<equiv> returns_within (tree_act resize) tree_done"

lemma returns_Clear:
  assumes "tr_nodes s q = Some c"
  shows "tree_returns resize 2 s (ClearLoad q m)" "tree_returns resize 3 s (ClearCas q m current)" "tree_returns resize 1 s (OrOwner q m)"
proof -
  show load: "tree_returns resize 2 s (ClearLoad q m)"
    unfolding returns_within_def using assms by (intro exI [of _ 2]) (simp add: numeral_eq_Suc Let_def)
  have "tree_returns resize (Suc 2) s (ClearCas q m current)"
  proof (cases "OwnerMask c = current")
    case True
    then show ?thesis
      by (intro returns_within_step [OF _ returns_within_done]) (use assms in \<open>auto simp: Let_def\<close>)
  next
    case False
    then show ?thesis
      by (intro returns_within_step [OF _ load]) (use assms in \<open>auto simp: Let_def\<close>)
  qed
  then show "tree_returns resize 3 s (ClearCas q m current)" by simp
  show "tree_returns resize 1 s (OrOwner q m)"
    unfolding returns_within_def using assms by (intro exI [of _ 1]) simp
qed

lemma returns_after_find:
  assumes "p \<noteq> 0 \<Longrightarrow> \<exists>c. tr_nodes s p = Some c"
  shows "tree_returns resize 2 s (after_find k a p)"
proof (cases "p = 0")
  case True
  then show ?thesis
    by (simp add: after_find_def returns_within_done)
next
  case False
  then obtain c where c: "tr_nodes s p = Some c"
    using assms by blast
  show ?thesis
    using False returns_Clear [OF c] returns_within_mono [OF returns_Clear(3) [OF c]]
    by (cases k) (simp_all add: after_find_def returns_within_done)
qed

lemma returns_FindAt:
  assumes t: "mem_tree (tr_nodes s) (tr_root s) t" and path: "toward (tr_nodes s) t a cur"
  shows "tree_returns resize (height t + 2) s (FindAt a cur k)"
proof -
  obtain t' where t': "mem_tree (tr_nodes s) cur t'" "height t' \<le> height t"
    using toward_sub [OF t path] by blast
  have "cur \<noteq> 0"
    using toward_key [OF t path] by simp
  from find_alone [OF t'(1) this, of a resize k] obtain j p where
    F: "j \<le> height t'" "findNode (tr_nodes s) cur a = Some p" "solo (tree_act resize) j (s, FindAt a cur k) = (s, after_find k a p)"
    by blast
  have "\<exists>c. tr_nodes s p = Some c" if "p \<noteq> 0"
    by (cases rule: findNode_total [OF t'(1), of a]) (use F(2) that in auto)
  from returns_within_solo [OF F(3) _ returns_after_find [OF this]] F(1) t'(2) show ?thesis
    by simp
qed

lemma returns_InsAt:
  assumes t: "mem_tree (tr_nodes s) (tr_root s) t" and path: "toward (tr_nodes s) t (key (tr_nodes s) node) cur"
    and new: "new_node (tr_nodes s) t node"
  shows "tree_returns resize (height t + 1) s (InsAt node cur)"
proof -
  obtain t' where t': "mem_tree (tr_nodes s) cur t'" "set_tree t' \<subseteq> set_tree t" "height t' \<le> height t"
    using toward_sub [OF t path] by blast
  obtain n where n: "tr_nodes s node = Some n" "node \<notin> set_tree t'"
    using new t'(2) by (auto simp: new_node_def)
  have "cur \<noteq> 0"
    using toward_key [OF t path] by simp
  from insert_alone [OF t'(1) this n, of resize] obtain j h p where
    "j \<le> height t' + 1" "solo (tree_act resize) j (s, InsAt node cur) = (s\<lparr>tr_nodes := h\<rparr>, InsReturned node p)"
    by blast
  then show ?thesis
    unfolding returns_within_def using t'(3) by (intro exI [of _ j]) simp
qed

lemma returns_InsRoot:
  assumes t: "mem_tree (tr_nodes s) (tr_root s) t" and new: "new_node (tr_nodes s) t node"
  shows "tree_returns resize (height t + 2) s (InsRoot node)"
proof (cases "tr_root s = 0")
  case True
  have "tree_returns resize 2 s (InsRoot node)"
    unfolding returns_within_def using True by (intro exI [of _ 2]) (simp add: numeral_eq_Suc)
  then show ?thesis
    by (rule returns_within_mono) simp
next
  case False
  have "tree_returns resize (Suc (height t + 1)) s (InsRoot node)"
    by (rule returns_within_step [OF _ returns_InsAt [OF t toward_root [OF t False] new]]) (simp add: False)
  then show ?thesis by simp
qed

lemma returns_InsRootCas:
  assumes "mem_tree (tr_nodes s) (tr_root s) t" "new_node (tr_nodes s) t node"
  shows "tree_returns resize (Suc (height t + 2)) s (InsRootCas node)"
proof (cases "tr_root s = 0")
  case True
  then show ?thesis
    by (intro returns_within_step [OF _ returns_within_done]) auto
next
  case False
  then show ?thesis
    by (intro returns_within_step [OF _ returns_InsRoot [OF assms]]) auto
qed

lemma returns_InsCas:
  assumes t: "mem_tree (tr_nodes s) (tr_root s) t" and path: "toward (tr_nodes s) t (key (tr_nodes s) node) cur"
    and new: "new_node (tr_nodes s) t node"
  shows "tree_returns resize (Suc (height t + 1)) s (InsCas node cur)"
proof -
  obtain n c where n: "tr_nodes s node = Some n" "tr_nodes s cur = Some c"
    using new toward_key [OF t path] by (auto simp: new_node_def)
  show ?thesis
  proof (cases "link_of c (Addr n) = 0")
    case True
    then show ?thesis
      by (intro returns_within_step [OF _ returns_within_done]) (use n in auto)
  next
    case False
    then show ?thesis
      by (intro returns_within_step [OF _ returns_InsAt [OF t path new]]) (use n in auto)
  qed
qed

lemma returns_InsOr: "tr_nodes s node = Some n \<Longrightarrow> tr_nodes s q = Some c \<Longrightarrow> tree_returns resize 1 s (InsOr node q)"
  unfolding returns_within_def by (intro exI [of _ 1]) simp

lemma returns_FindRoot:
  assumes "mem_tree (tr_nodes s) (tr_root s) t"
  shows "tree_returns resize (Suc (height t + 2)) s (FindRoot a k)"
proof (cases "tr_root s = 0")
  case True
  then show ?thesis
    by (intro returns_within_step [OF _ returns_within_done]) auto
next
  case False
  then show ?thesis
    by (intro returns_within_step [OF _ returns_FindAt [OF assms toward_root [OF assms]]]) auto
qed

lemma tree_alone:
  assumes inv: "tree_inv_at t s ls"
  shows "tree_returns resize (height t + 3) s (ls u)"
proof -
  note t = tree_inv_atD(1) [OF inv] and W = tree_inv_atD(2) [OF inv, of u] and N = tree_inv_atD(3) [OF inv, of u]
  have enough: ?thesis if "tree_returns resize m s (ls u)" "m \<le> height t + 3" for m
    using that by (rule returns_within_mono)
  have at: "\<exists>c. tr_nodes s q = Some c" if "q \<in> set_tree t" for q
    by (rule mem_tree_dom [OF t that])
  show ?thesis
  proof (cases "ls u")
    case (InsRoot node)
    then show ?thesis
      using returns_InsRoot [OF t] N by (intro enough [of "height t + 2"]) auto
  next
    case (InsRootCas node)
    then show ?thesis
      using returns_InsRootCas [OF t] N by (intro enough [of "Suc (height t + 2)"]) auto
  next
    case (InsAt node cur)
    then show ?thesis
      using returns_InsAt [OF t] W N by (intro enough [of "height t + 1"]) auto
  next
    case (InsCas node cur)
    then show ?thesis
      using returns_InsCas [OF t] W N by (intro enough [of "Suc (height t + 1)"]) auto
  next
    case (InsOr node cur)
    then obtain n c where "tr_nodes s node = Some n" "tr_nodes s cur = Some c"
      using N at [of cur] W by (auto simp: new_node_def)
    with InsOr show ?thesis
      using returns_InsOr by (intro enough [of 1]) auto
  next
    case (FindRoot a k)
    then show ?thesis
      using returns_FindRoot [OF t] by (intro enough [of "Suc (height t + 2)"]) auto
  next
    case (FindAt a cur k)
    then show ?thesis
      using returns_FindAt [OF t] W by (intro enough [of "height t + 2"]) auto
  next
    case (OrOwner q m)
    then show ?thesis
      using returns_Clear(3) at [of q] W by (intro enough [of 1]) auto
  next
    case (ClearLoad q m)
    then show ?thesis
      using returns_Clear(1) at [of q] W by (intro enough [of 2]) auto
  next
    case (ClearCas q m current)
    then show ?thesis
      using returns_Clear(2) at [of q] W by (intro enough [of 3]) auto
  qed (simp_all add: returns_within_done)
qed

lemma tree_reach_returns:
  assumes "reach (tree_act resize) tree_call (empty_tree, \<lambda>_. TreeIdle) (s, ls)"
  shows "\<exists>t. tree_inv_at t s ls \<and> (\<forall>u. tree_returns resize (height t + 3) s (ls u))"
  using conc_tree.reach_inv [OF assms tree_inv_empty] tree_alone by (auto simp: tree_inv_def)

text \<open>Whole operations, from their load of the root.\<close>

lemma insertNode_alone:
  assumes t: "mem_tree (tr_nodes s) (tr_root s) t" and new: "new_node (tr_nodes s) t node"
  shows "\<exists>k h r p. solo (tree_act True) k (s, InsRoot node) = (s\<lparr>tr_nodes := h, tr_root := r\<rparr>, InsReturned node p) \<and>
    insertNode (tr_nodes s) (tr_root s) node = Some (h, r, p)"
proof (cases "tr_root s = 0")
  case True
  have "solo (tree_act True) 2 (s, InsRoot node) = (s\<lparr>tr_nodes := tr_nodes s, tr_root := node\<rparr>, InsReturned node node)"
    using True by (simp add: numeral_eq_Suc)
  then show ?thesis
    using True unfolding insertNode_def by (metis (full_types))
next
  case False
  obtain n where "tr_nodes s node = Some n" "node \<notin> set_tree t"
    using new by (auto simp: new_node_def)
  from insert_alone [OF t False this, of True] obtain k h p where
    I: "insertBelow (tr_nodes s) (tr_root s) node = Some (h, p)"
      "solo (tree_act True) k (s, InsAt node (tr_root s)) = (s\<lparr>tr_nodes := h\<rparr>, InsReturned node p)"
    by (auto simp: seq_insert_def)
  have "solo (tree_act True) (Suc k) (s, InsRoot node) = (s\<lparr>tr_nodes := h, tr_root := tr_root s\<rparr>, InsReturned node p)"
    using I(2) False by simp
  then show ?thesis
    using False I(1) by (intro exI conjI) (assumption, simp add: insertNode_def)
qed

lemma findNode_alone:
  assumes t: "mem_tree (tr_nodes s) (tr_root s) t"
  shows "\<exists>k p. solo (tree_act resize) k (s, FindRoot a ThenReturn) = (s, FindReturned a p) \<and>
    findNode (tr_nodes s) (tr_root s) a = Some p"
proof (cases "tr_root s = 0")
  case True
  have "solo (tree_act resize) 1 (s, FindRoot a ThenReturn) = (s, FindReturned a 0)"
    using True by simp
  then show ?thesis
    using True by (intro exI conjI) (assumption, simp add: findNode.simps)
next
  case False
  from find_alone [OF t False, of a resize ThenReturn] obtain k p where
    F: "findNode (tr_nodes s) (tr_root s) a = Some p"
      "solo (tree_act resize) k (s, FindAt a (tr_root s) ThenReturn) = (s, after_find ThenReturn a p)"
    by blast
  have "solo (tree_act resize) (Suc k) (s, FindRoot a ThenReturn) = (s, FindReturned a p)"
    using F(2) False by (simp add: after_find_def)
  then show ?thesis
    using F(1) by (intro exI conjI)
qed

section \<open>The moment at which an operation takes effect\<close>

lemma link_linearizes:
  assumes inv: "tree_inv_at t s ls" and at: "ls u = InsCas node cur"
    and n: "tr_nodes s node = Some n" and c: "tr_nodes s cur = Some c" "link_of c (Addr n) = 0"
  shows "insertNode (tr_nodes s) (tr_root s) node = Some ((tr_nodes s)(cur \<mapsto> set_link c (Addr n) node), tr_root s, node)"
proof -
  note t = tree_inv_atD(1) [OF inv]
  have path: "toward (tr_nodes s) t (Addr n) cur" "Addr n \<noteq> Addr c"
    using tree_inv_atD(2) [OF inv, of u] at n c by (auto simp: key_def)
  then have "tr_root s \<noteq> 0"
    using t by auto
  then show ?thesis
    using toward_insert [OF t path(1) n, of True] seq_insert_simps [OF c(1) n, of True] c(2) path(2)
    by (simp add: insertNode_def seq_insert_def del: fun_upd_apply)
qed

lemma hit_linearizes:
  assumes inv: "tree_inv_at t s ls" and at: "ls u = InsAt node cur"
    and n: "tr_nodes s node = Some n" and c: "tr_nodes s cur = Some c" "Addr n = Addr c"
  shows "arena_insertNode (tr_nodes s) (tr_root s) node =
    Some ((tr_nodes s)(cur \<mapsto> c\<lparr>OwnerMask := OwnerMask c OR OwnerMask n\<rparr>), cur) \<and> cur \<noteq> node"
proof -
  note t = tree_inv_atD(1) [OF inv]
  have path: "toward (tr_nodes s) t (Addr n) cur"
    using tree_inv_atD(2) [OF inv, of u] at n by (auto simp: key_def)
  moreover have "cur \<noteq> node"
    using toward_mem [OF path] tree_inv_atD(3) [OF inv, of u] at by (auto simp: new_node_def)
  ultimately show ?thesis
    using toward_insert [OF t path n, of False] seq_insert_simps [OF c(1) n, of False] c(2)
    by (simp add: seq_insert_def del: fun_upd_apply)
qed

lemma find_linearizes:
  assumes inv: "tree_inv_at t s ls" and act: "tree_act resize (ls u) s = Some (s', FindReturned a p)"
  shows "findNode (tr_nodes s) (tr_root s) a = Some p"
proof (cases "ls u")
  case (FindRoot b k)
  with act show ?thesis
    by (auto simp: findNode.simps [of _ 0] split: if_splits)
next
  case (FindAt b cur k)
  note t = tree_inv_atD(1) [OF inv]
  obtain c where c: "tr_nodes s cur = Some c"
    using act FindAt by (auto split: option.splits)
  have path: "toward (tr_nodes s) t b cur"
    using tree_inv_atD(2) [OF inv, of u] FindAt by simp
  have "findNode (tr_nodes s) cur a = Some p" "a = b"
    using act FindAt c toward_key [OF t path]
    by (auto simp: findNode.simps [of _ cur] findNode.simps [of _ 0] Let_def split: if_splits find_then.splits)
  then show ?thesis
    using toward_find [OF t path] by simp
qed (use act in \<open>auto simp: Let_def split: if_splits option.splits\<close>)

lemma returned_node_cases:
  assumes inv: "tree_inv_at t s ls" and act: "tree_act resize (ls u) s = Some (s', InsReturned node node)"
  shows "insertNode (tr_nodes s) (tr_root s) node = Some (tr_nodes s', tr_root s', node)"
proof (cases "ls u")
  case (InsRootCas nd)
  with act show ?thesis
    by (auto simp: insertNode_def split: if_splits)
next
  case (InsCas nd cur)
  then obtain n c where n: "tr_nodes s nd = Some n" "tr_nodes s cur = Some c"
    using act by (auto split: option.splits)
  then have "link_of c (Addr n) = 0" "nd = node" "s' = set_node s cur (set_link c (Addr n) node)"
    using act InsCas by (auto split: if_splits)
  with link_linearizes [OF inv InsCas n] show ?thesis
    by (simp add: set_node_def)
next
  case (InsAt nd cur)
  then obtain n c where n: "tr_nodes s nd = Some n" "tr_nodes s cur = Some c"
    using act by (auto split: option.splits)
  then have "Addr n = Addr c" "nd = node" "cur = node"
    using act InsAt by (auto split: if_splits)
  with hit_linearizes [OF inv InsAt n] show ?thesis by simp
next
  case (InsOr nd cur)
  then have "nd = node" "cur = node"
    using act by (auto split: option.splits)
  then show ?thesis
    using tree_inv_atD(2,3) [OF inv, of u] InsOr by (auto simp: new_node_def)
qed (use act in \<open>auto simp: Let_def split: if_splits option.splits find_then.splits\<close>)

section \<open>The last owner\<close>

text \<open>
  The goroutines of \<open>T\<close> clear owners of the node \<open>q\<close>, each the mask of its own layer; no two masks
  share a layer, and each layer owns the block at the start.
\<close>

definition layers_apart :: "u64 \<Rightarrow> nat set \<Rightarrow> (nat \<Rightarrow> u64) \<Rightarrow> bool" where
  "layers_apart w T m \<longleftrightarrow> w \<noteq> 0 \<and> (\<forall>t \<in> T. m t AND w \<noteq> 0) \<and> (\<forall>t \<in> T. \<forall>u \<in> T. t \<noteq> u \<longrightarrow> m t AND m u = 0)"

fun clears :: "uintptr \<Rightarrow> u64 \<Rightarrow> tree_pc \<Rightarrow> bool" where
  "clears q m (ClearLoad p k) = (p = q \<and> k = m)"
| "clears q m (ClearCas p k current) = (p = q \<and> k = m)"
| "clears q m (ClearReturned p r) = (p = q)"
| "clears q m l = False"

definition owner_inv :: "uintptr \<Rightarrow> u64 \<Rightarrow> nat set \<Rightarrow> (nat \<Rightarrow> u64) \<Rightarrow> tree_state \<Rightarrow> (nat \<Rightarrow> tree_pc) \<Rightarrow> bool" where
  "owner_inv q w T m s ls \<longleftrightarrow> layers_apart w T m \<and>
     (\<forall>t \<in> T. clears q (m t) (ls t)) \<and> (\<forall>t. t \<notin> T \<longrightarrow> ls t = TreeIdle) \<and>
     (\<exists>c. tr_nodes s q = Some c \<and>
       (\<forall>b. bit (OwnerMask c) b \<longleftrightarrow> bit w b \<and> (\<forall>t \<in> T. tree_done (ls t) \<longrightarrow> \<not> bit (m t) b)) \<and>
       (if OwnerMask c = 0 then \<exists>!t. ls t = ClearReturned q 0 else \<forall>t. ls t \<noteq> ClearReturned q 0))"

lemma bit_less_64: "bit x b \<Longrightarrow> b < 64" for x :: u64
  using bit_imp_le_length [of x b] by simp

lemma and_zero_bits: "x AND y = 0 \<longleftrightarrow> (\<forall>b. \<not> (bit x b \<and> bit y b))" for x y :: u64
  by (auto simp: bit_eq_iff bit_and_iff dest: bit_less_64)

text \<open>While a layer has not cleared its bits, the block has an owner.\<close>

lemma owner_left:
  assumes "layers_apart w T m" "u \<in> T" "\<not> tree_done (ls u)"
    and bits: "\<forall>b. bit x b \<longleftrightarrow> bit w b \<and> (\<forall>t \<in> T. tree_done (ls t) \<longrightarrow> \<not> bit (m t) b)"
  shows "x \<noteq> 0"
proof -
  obtain b where b: "bit (m u) b" "bit w b"
    using assms(1,2) unfolding layers_apart_def and_zero_bits by blast
  have "\<not> bit (m t) b" if "t \<in> T" "tree_done (ls t)" for t
  proof -
    have "m t AND m u = 0"
      using assms(1-3) that unfolding layers_apart_def by metis
    with b(1) show ?thesis
      unfolding and_zero_bits by blast
  qed
  with b bits have "bit x b" by blast
  then show ?thesis by auto
qed

lemma owner_act_inv:
  assumes inv: "owner_inv q w T m s ls" and act: "tree_act resize (ls u) s = Some (s', l)"
  shows "owner_inv q w T m s' (ls(u := l))"
proof -
  from inv obtain c where apart: "layers_apart w T m" and T: "\<forall>t \<in> T. clears q (m t) (ls t)" "\<forall>t. t \<notin> T \<longrightarrow> ls t = TreeIdle"
    and c: "tr_nodes s q = Some c"
    and bits: "\<forall>b. bit (OwnerMask c) b \<longleftrightarrow> bit w b \<and> (\<forall>t \<in> T. tree_done (ls t) \<longrightarrow> \<not> bit (m t) b)"
    and last: "if OwnerMask c = 0 then \<exists>!t. ls t = ClearReturned q 0 else \<forall>t. ls t \<noteq> ClearReturned q 0"
    unfolding owner_inv_def by blast
  have u: "u \<in> T" "\<not> tree_done (ls u)"
    using T(2) act by (cases "u \<in> T"; cases "ls u"; auto)+
  then have clears: "clears q (m u) (ls u)"
    using T(1) by blast
  have busy: "OwnerMask c \<noteq> 0" "\<forall>t. ls t \<noteq> ClearReturned q 0"
    using owner_left [where ls = ls, OF apart u bits] last by auto
  show ?thesis
  proof (cases "tree_done l")
    case False
    have "s' = s" "clears q (m u) l"
      using False act clears c by (cases "ls u"; auto simp: Let_def split: if_splits)+
    then show ?thesis
      using apart T u c bits busy False unfolding owner_inv_def by (intro conjI exI [of _ c]) auto
  next
    case True
    then obtain current where "ls u = ClearCas q (m u) current"
      using act clears c by (cases "ls u") (auto split: option.splits)
    then have l: "l = ClearReturned q (OwnerMask c AND NOT (m u))"
        "s' = set_node s q (c\<lparr>OwnerMask := OwnerMask c AND NOT (m u)\<rparr>)"
      using True act c by (auto simp: Let_def split: if_splits)
    have "bit (OwnerMask c AND NOT (m u)) b \<longleftrightarrow> bit w b \<and> (\<forall>t \<in> T. tree_done ((ls(u := l)) t) \<longrightarrow> \<not> bit (m t) b)" for b
      using bits u l(1) by (auto simp: bit_and_iff bit_not_iff dest: bit_less_64)
    then show ?thesis
      using apart T u c busy l unfolding owner_inv_def
      by (intro conjI exI [of _ "c\<lparr>OwnerMask := OwnerMask c AND NOT (m u)\<rparr>"]) (auto simp: set_node_def)
  qed
qed

interpretation last_owner: shared_invariant "tree_act resize" "\<lambda>_ _ _ _. False" "owner_inv q w T m" for resize q w T m
  by unfold_locales (auto intro: owner_act_inv simp del: fun_upd_apply)

section \<open>Concrete runs\<close>

datatype tree_op = DoInsert uintptr uintptr uintptr u64 | DoFind uintptr find_then

fun tree_start :: "tree_op \<Rightarrow> tree_state \<Rightarrow> tree_pc \<Rightarrow> (tree_state \<times> tree_pc) option" where
  "tree_start (DoInsert node a sz m) s l =
     (if tree_done l \<and> node \<noteq> 0 \<and> tr_nodes s node = None
      then Some (set_node s node \<lparr>Addr = a, Size = sz, OwnerMask = m, Left = 0, Right = 0\<rparr>, InsRoot node) else None)"
| "tree_start (DoFind a k) s l = (if tree_done l then Some (s, FindRoot a k) else None)"

abbreviation tree_run :: "bool \<Rightarrow> tree_op event list \<Rightarrow> (tree_state, tree_pc) config \<Rightarrow> (tree_state, tree_pc) config option" where
  "tree_run resize \<equiv> run_events (tree_act resize) tree_start"

lemma tree_start_call: "tree_start op s l = Some (s', l') \<Longrightarrow> tree_call s l s' l'"
  by (cases op) (auto split: if_splits intro: tree_call.intros)

lemma tree_run_reach:
  assumes "tree_run resize es c = Some d" "reach (tree_act resize) tree_call b c"
  shows "reach (tree_act resize) tree_call b d"
  using tree_start_call assms by (rule run_events_reach)

lemmas tree_run_from_start = tree_run_reach [OF _ reach_refl]

text \<open>
  Two goroutines insert at the same time into the empty tree: both see that there is no root, one
  becomes the root, the other has to go round its loop again and hangs its node below.
\<close>

definition two_inserts :: "tree_op event list" where
  "two_inserts = [Call 0 (DoInsert 0x10 0x1000 64 1), Call 1 (DoInsert 0x20 0x2000 64 2),
     Step 0, Step 1, Step 0, Step 1, Step 1, Step 1]"

definition two_nodes :: "(tree_state, tree_pc) config" where
  "two_nodes = (\<lparr>tr_nodes = [0x10 \<mapsto> \<lparr>Addr = 0x1000, Size = 64, OwnerMask = 1, Left = 0, Right = 0\<rparr>,
     0x20 \<mapsto> \<lparr>Addr = 0x2000, Size = 64, OwnerMask = 2, Left = 0, Right = 0\<rparr>], tr_root = 0x10\<rparr>,
     (\<lambda>_. TreeIdle)(0 := InsReturned 0x10 0x10, 1 := InsCas 0x20 0x10))"

lemma two_inserts_run: "tree_run resize two_inserts (empty_tree, \<lambda>_. TreeIdle) = Some two_nodes"
  by (simp add: two_inserts_def two_nodes_def empty_tree_def set_node_def link_of_def fun_eq_iff)

section \<open>The theorems\<close>

text \<open>
  C12: any number of goroutines insert nodes, search, add owners and clear owners at the same
  time, in any interleaving of their atomic actions. At every moment what hangs below the root is a
  search tree. An insertion that has returned a node is in it: a search for its address finds that
  node, now and after whatever the goroutines do later, although no lock is held.
\<close>

theorem conc_tree_nothing_lost:
  assumes "reach (tree_act resize) tree_call (empty_tree, \<lambda>_. TreeIdle) (s, ls)"
    and "reach (tree_act resize) tree_call (s, ls) (s', ls')"
  shows "(\<exists>t. mem_tree (tr_nodes s) (tr_root s) t) \<and>
    (\<forall>u node p. ls u = InsReturned node p \<longrightarrow>
      (\<exists>n. tr_nodes s node = Some n \<and> p \<noteq> 0 \<and> findNode (tr_nodes s) (tr_root s) (Addr n) = Some p \<and>
        findNode (tr_nodes s') (tr_root s') (Addr n) = Some p)) \<and>
    (\<forall>a q. findNode (tr_nodes s) (tr_root s) a = Some q \<and> q \<noteq> 0 \<longrightarrow> findNode (tr_nodes s') (tr_root s') a = Some q)"
proof -
  have inv: "tree_inv s ls"
    by (rule conc_tree.reach_inv [OF assms(1) tree_inv_empty])
  then have "\<exists>t. mem_tree (tr_nodes s) (tr_root s) t"
    by (auto simp: tree_inv_def tree_inv_at_def)
  then show ?thesis
    using returned_found [OF inv] found_stays [OF assms(2) inv] by blast
qed

theorem conc_tree_nothing_lost_witness:
  "tree_run True two_inserts (empty_tree, \<lambda>_. TreeIdle) = Some two_nodes \<and> snd two_nodes 0 = InsReturned 0x10 0x10 \<and>
    (\<exists>n. tr_nodes (fst two_nodes) 0x10 = Some n \<and> findNode (tr_nodes (fst two_nodes)) (tr_root (fst two_nodes)) (Addr n) = Some 0x10)"
proof -
  obtain s ls where c: "two_nodes = (s, ls)" by (cases two_nodes)
  have "ls 0 = InsReturned 0x10 0x10"
    using c by (auto simp: two_nodes_def)
  then show ?thesis
    using conc_tree_nothing_lost [OF tree_run_from_start [OF two_inserts_run [of True, unfolded c]] reach_refl] two_inserts_run [of True]
    unfolding c fst_conv snd_conv by blast
qed

text \<open>
  C13: an operation takes effect in one atomic action, as the sequential operation would at that
  moment. The compare-and-swap that links a node does to the tree what \<open>insertNode\<close> does when nobody
  else runs; so does the atomic or by which the insertion of the package arena ends at a node it
  found, and the compare-and-swap of \<open>clearOwner\<close>. A search returns what the sequential search
  returns at the moment of its last load. The actions before that change nothing, but for the size
  that the insertion of balloc stores into a node it found.
\<close>

theorem conc_tree_linearizes:
  assumes "reach (tree_act resize) tree_call (empty_tree, \<lambda>_. TreeIdle) (s, ls)"
    and "tree_act resize (ls u) s = Some (s', l)"
  shows "(\<forall>node. l = InsReturned node node \<longrightarrow>
      insertNode (tr_nodes s) (tr_root s) node = Some (tr_nodes s', tr_root s', node)) \<and>
    (\<forall>node cur. ls u = InsAt node cur \<and> l = InsReturned node cur \<longrightarrow>
      arena_insertNode (tr_nodes s) (tr_root s) node = Some (tr_nodes s', cur) \<and> tr_root s' = tr_root s) \<and>
    (\<forall>a p. l = FindReturned a p \<longrightarrow> findNode (tr_nodes s) (tr_root s) a = Some p) \<and>
    (\<forall>q m current r. ls u = ClearCas q m current \<and> l = ClearReturned q r \<longrightarrow>
      (\<exists>c. tr_nodes s q = Some c \<and> tr_nodes s' = (tr_nodes s)(q \<mapsto> clearOwner c m) \<and> r = OwnerMask (clearOwner c m))) \<and>
    (tree_done l \<or> s' = s \<or> (\<exists>node cur. l = InsOr node cur))"
proof (intro conjI allI impI)
  obtain t where inv: "tree_inv_at t s ls"
    using conc_tree.reach_inv [OF assms(1) tree_inv_empty] by (auto simp: tree_inv_def)
  show "insertNode (tr_nodes s) (tr_root s) node = Some (tr_nodes s', tr_root s', node)" if "l = InsReturned node node" for node
    using returned_node_cases [OF inv assms(2) [unfolded that]] .
  show "findNode (tr_nodes s) (tr_root s) a = Some p" if "l = FindReturned a p" for a p
    using find_linearizes [OF inv assms(2) [unfolded that]] .
  fix node cur
  assume at: "ls u = InsAt node cur \<and> l = InsReturned node cur"
  then obtain n c where n: "tr_nodes s node = Some n" "tr_nodes s cur = Some c"
    using assms(2) by (auto split: option.splits)
  with at assms(2) have "Addr n = Addr c" "s' = set_node s cur (c\<lparr>OwnerMask := OwnerMask c OR OwnerMask n\<rparr>)"
    by (auto split: if_splits)
  then show "arena_insertNode (tr_nodes s) (tr_root s) node = Some (tr_nodes s', cur)" "tr_root s' = tr_root s"
    using hit_linearizes [OF inv conjunct1 [OF at] n] by (simp_all add: set_node_def)
next
  fix q m current r
  assume "ls u = ClearCas q m current \<and> l = ClearReturned q r"
  then show "\<exists>c. tr_nodes s q = Some c \<and> tr_nodes s' = (tr_nodes s)(q \<mapsto> clearOwner c m) \<and> r = OwnerMask (clearOwner c m)"
    using assms(2) by (auto simp: Let_def clearOwner_def set_node_def split: option.splits if_splits)
next
  show "tree_done l \<or> s' = s \<or> (\<exists>node cur. l = InsOr node cur)"
    using assms(2) by (cases "ls u") (auto simp: Let_def split: option.splits if_splits)
qed

theorem conc_tree_linearizes_witness:
  "\<exists>s' l. tree_act True (snd two_nodes 1) (fst two_nodes) = Some (s', l) \<and> l = InsReturned 0x20 0x20 \<and>
    insertNode (tr_nodes (fst two_nodes)) (tr_root (fst two_nodes)) 0x20 = Some (tr_nodes s', tr_root s', 0x20)"
proof -
  obtain s ls where c: "two_nodes = (s, ls)" by (cases two_nodes)
  obtain s' where act: "tree_act True (ls 1) s = Some (s', InsReturned 0x20 0x20)"
    using c by (auto simp: two_nodes_def link_of_def)
  show ?thesis
    using conc_tree_linearizes [OF tree_run_from_start [OF two_inserts_run [of True, unfolded c]] act] act
    unfolding c fst_conv snd_conv by blast
qed

text \<open>
  Whatever the goroutines have done so far, an operation on the tree that is left alone returns,
  from any place in its loops and after at most three actions more than the tree is high. An
  insertion of balloc that runs alone has the effect and the result of the sequential \<open>insertNode\<close>,
  and a search those of \<open>findNode\<close>.
\<close>

lemma conc_tree_obstruction_free:
  assumes "reach (tree_act resize) tree_call (empty_tree, \<lambda>_. TreeIdle) (s, ls)"
  shows "(\<exists>t. mem_tree (tr_nodes s) (tr_root s) t \<and>
      (\<forall>u. \<exists>k \<le> height t + 3. tree_done (snd (solo (tree_act resize) k (s, ls u))))) \<and>
    (\<forall>u node. resize \<and> ls u = InsRoot node \<longrightarrow>
      (\<exists>k h r p. solo (tree_act resize) k (s, ls u) = (s\<lparr>tr_nodes := h, tr_root := r\<rparr>, InsReturned node p) \<and>
        insertNode (tr_nodes s) (tr_root s) node = Some (h, r, p))) \<and>
    (\<forall>u a. ls u = FindRoot a ThenReturn \<longrightarrow>
      (\<exists>k p. solo (tree_act resize) k (s, ls u) = (s, FindReturned a p) \<and>
        findNode (tr_nodes s) (tr_root s) a = Some p))"
proof -
  obtain t where inv: "tree_inv_at t s ls" and alone: "\<forall>u. tree_returns resize (height t + 3) s (ls u)"
    using tree_reach_returns [OF assms] by blast
  note t = tree_inv_atD(1) [OF inv]
  have "\<exists>k \<le> height t + 3. tree_done (snd (solo (tree_act resize) k (s, ls u)))" for u
    using alone by (simp add: returns_within_def)
  moreover have "\<exists>k h r p. solo (tree_act resize) k (s, ls u) = (s\<lparr>tr_nodes := h, tr_root := r\<rparr>, InsReturned node p) \<and>
      insertNode (tr_nodes s) (tr_root s) node = Some (h, r, p)" if "resize \<and> ls u = InsRoot node" for u node
    using insertNode_alone [OF t, of node] tree_inv_atD(3) [OF inv, of u] that by simp
  moreover have "\<exists>k p. solo (tree_act resize) k (s, ls u) = (s, FindReturned a p) \<and> findNode (tr_nodes s) (tr_root s) a = Some p"
    if "ls u = FindRoot a ThenReturn" for u a
    using findNode_alone [OF t, of resize a] that by simp
  ultimately show ?thesis
    using t by blast
qed

lemma conc_tree_obstruction_free_example:
  "snd two_nodes 1 = InsCas 0x20 0x10 \<and> (\<exists>k. tree_done (snd (solo (tree_act True) k (fst two_nodes, snd two_nodes 1))))"
proof -
  obtain s ls where c: "two_nodes = (s, ls)" by (cases two_nodes)
  have "ls 1 = InsCas 0x20 0x10"
    using c by (auto simp: two_nodes_def)
  then show ?thesis
    using conc_tree_obstruction_free [OF tree_run_from_start [OF two_inserts_run [of True, unfolded c]]]
    unfolding c fst_conv snd_conv by blast
qed

text \<open>
  Goroutines clear the owners of the same block at the same time, each the layers of its own
  mask; no layer is in two masks and each mask has a layer that owns the block. In every interleaving
  of their loads and compare-and-swaps the mask of the block loses exactly the layers of those that
  have returned; at most one of them is told that no owner is left, one is as soon as none is left,
  and that is not before all of them have returned. So a block is put on the free list once.
\<close>

lemma last_owner_frees:
  assumes "layers_apart (OwnerMask c0) T m" "tr_nodes s0 q = Some c0"
    and "\<forall>t. ls0 t = (if t \<in> T then ClearLoad q (m t) else TreeIdle)"
    and "reach (tree_act resize) (\<lambda>_ _ _ _. False) (s0, ls0) (s, ls)"
  shows "\<exists>c. tr_nodes s q = Some c \<and>
    (\<forall>b. bit (OwnerMask c) b \<longleftrightarrow> bit (OwnerMask c0) b \<and> (\<forall>t \<in> T. tree_done (ls t) \<longrightarrow> \<not> bit (m t) b)) \<and>
    (\<forall>t u. ls t = ClearReturned q 0 \<and> ls u = ClearReturned q 0 \<longrightarrow> t = u) \<and>
    ((\<exists>t. ls t = ClearReturned q 0) \<longleftrightarrow> OwnerMask c = 0) \<and>
    (OwnerMask c = 0 \<longrightarrow> (\<forall>t \<in> T. tree_done (ls t)))"
proof -
  have "owner_inv q (OwnerMask c0) T m s0 ls0"
    using assms(1-3) by (auto simp: owner_inv_def layers_apart_def)
  from last_owner.reach_inv [OF assms(4) this] obtain c where
    c: "tr_nodes s q = Some c"
      "\<forall>b. bit (OwnerMask c) b \<longleftrightarrow> bit (OwnerMask c0) b \<and> (\<forall>t \<in> T. tree_done (ls t) \<longrightarrow> \<not> bit (m t) b)"
      "if OwnerMask c = 0 then \<exists>!t. ls t = ClearReturned q 0 else \<forall>t. ls t \<noteq> ClearReturned q 0"
    unfolding owner_inv_def by blast
  have "OwnerMask c = 0 \<Longrightarrow> t \<in> T \<Longrightarrow> tree_done (ls t)" for t
    using owner_left [where ls = ls, OF assms(1) _ _ c(2)] by blast
  moreover have "(\<exists>t. ls t = ClearReturned q 0) \<longleftrightarrow> OwnerMask c = 0"
    using c(3) by (auto split: if_splits)
  moreover have "ls t = ClearReturned q 0 \<and> ls u = ClearReturned q 0 \<longrightarrow> t = u" for t u
    using c(3) by (auto split: if_splits)
  ultimately show ?thesis
    using c(1,2) by blast
qed

text \<open>Two layers own a block; the one that loses the race for the word goes round its loop again.\<close>

definition shared_block :: tree_state where
  "shared_block = \<lparr>tr_nodes = [0x10 \<mapsto> \<lparr>Addr = 0x1000, Size = 64, OwnerMask = 3, Left = 0, Right = 0\<rparr>], tr_root = 0x10\<rparr>"

definition two_owners :: "nat \<Rightarrow> tree_pc" where
  "two_owners t = (if t \<in> {0, 1} then ClearLoad 0x10 (if t = 0 then 1 else 2) else TreeIdle)"

definition clear_race :: "unit event list" where
  "clear_race = [Step 0, Step 1, Step 0, Step 1, Step 1, Step 1]"

lemma last_owner_frees_example:
  "\<exists>s ls c. run_events (tree_act True) (\<lambda>_ _ _. None) clear_race (shared_block, two_owners) = Some (s, ls) \<and>
    ls 0 = ClearReturned 0x10 2 \<and> ls 1 = ClearReturned 0x10 0 \<and> tr_nodes s 0x10 = Some c \<and> OwnerMask c = 0"
proof -
  let ?m = "\<lambda>t. if t = 0 then 1 else (2 :: u64)" and ?c = "\<lparr>Addr = 0x1000, Size = 64, OwnerMask = 3, Left = 0, Right = 0\<rparr>"
  obtain s ls where run: "run_events (tree_act True) (\<lambda>_ _ _. None) clear_race (shared_block, two_owners) = Some (s, ls)"
    and r: "ls 0 = ClearReturned 0x10 2" "ls 1 = ClearReturned 0x10 0"
    by (simp add: clear_race_def shared_block_def two_owners_def set_node_def Let_def)
  have reach: "reach (tree_act True) (\<lambda>_ _ _ _. False) (shared_block, two_owners) (s, ls)"
    by (rule run_events_reach [OF _ run reach_refl]) simp
  have start: "layers_apart (OwnerMask ?c) {0, 1} ?m" "tr_nodes shared_block 0x10 = Some ?c"
      "\<forall>t. two_owners t = (if t \<in> {0, 1} then ClearLoad 0x10 (?m t) else TreeIdle)"
    by (simp_all add: layers_apart_def shared_block_def two_owners_def)
  from last_owner_frees [OF start reach] r(2) obtain c where "tr_nodes s 0x10 = Some c" "OwnerMask c = 0"
    by blast
  with run r show ?thesis by blast
qed

end
