(* ===== verification/Conc_Balloc.thy ===== *)
theory Conc_Balloc
  imports Conc_List_Props Conc_Tree_Props
begin

text \<open>
  The block allocator of balloc/core.go as goroutines use it at the same time: whole calls of \<open>Alloc\<close>,
  \<open>FreeVarying\<close> and \<open>Share\<close>, composed of the actions of the free list (Conc_List), of the search tree
  (Conc_Tree) and of the single atomic additions to the two bump pointers and the counter.

  Here: the machine, and the tokens by which its ownership protocol is explained. Conc_Balloc_Props
  proves the invariant of all interleavings and draws the conclusions.
\<close>

section \<open>The machine\<close>

text \<open>
  The shared words: the free list, the tree, the two bump pointers, the counter. The rest is history:
  the owner bits of a block that are in the hands of clients and not in use by a running call, the
  bits that are given out or promised, and how far the bump pointers have moved.
\<close>

record conc_state =
  cs_list :: free_list
  cs_tree :: tree_state
  cs_bump :: uintptr
  cs_nodeBump :: uintptr
  cs_active :: u64
  cs_owned :: "uintptr \<Rightarrow> u64"
  cs_taken :: "uintptr \<Rightarrow> u64"
  cs_asked :: nat
  cs_noded :: nat

text \<open>
  The places in the three operations, with the local variables that are still needed: the size and
  the mask; the block and its size; the node. A place inside \<open>popFree\<close>, \<open>pushFree\<close>, \<open>insertNode\<close>,
  \<open>findNode\<close> and \<open>clearOwner\<close> is refined by the places of Conc_List and Conc_Tree, so the local state
  is a triple.
\<close>

datatype alloc_stage =
    ConcIdle
  | AllocPop uintptr u64
  | AllocBump uintptr u64
  | AllocNode uintptr uintptr u64
  | AllocInsert uintptr u64
  | AllocCount uintptr u64
  | AllocReturned uintptr
  | AllocFailed
  | FreeFind uintptr u64
  | FreeRead uintptr uintptr
  | FreeSlot uintptr uintptr
  | FreePush
  | FreeCount
  | FreeReturned bool
  | FreeFailed
  | ShareFind uintptr u64 u64
  | ShareReturned
  | ShareFailed

type_synonym conc_local = "alloc_stage \<times> list_pc \<times> tree_pc"

text \<open>The branches of the code on what the loops return.\<close>

fun popped :: "uintptr \<Rightarrow> u64 \<Rightarrow> list_pc \<Rightarrow> alloc_stage" where
  "popped n m (PopReturned None) = AllocBump n m"
| "popped n m (PopReturned (Some (a, sz))) = AllocNode a sz m"
| "popped n m lp = AllocPop n m"

fun freed :: "uintptr \<Rightarrow> u64 \<Rightarrow> tree_pc \<Rightarrow> alloc_stage" where
  "freed a m (FindReturned b p) = FreeFailed"
| "freed a m (ClearReturned q r) = (if r = 0 then FreeRead a q else FreeReturned False)"
| "freed a m tp = FreeFind a m"

fun shared_with :: "uintptr \<Rightarrow> u64 \<Rightarrow> u64 \<Rightarrow> tree_pc \<Rightarrow> alloc_stage" where
  "shared_with a g m (FindReturned b p) = ShareFailed"
| "shared_with a g m (OrReturned q) = ShareReturned"
| "shared_with a g m tp = ShareFind a g m"

text \<open>What the history records when owner bits are cleared, and when a share is done.\<close>

fun taken_after :: "uintptr \<Rightarrow> u64 \<Rightarrow> tree_pc \<Rightarrow> (uintptr \<Rightarrow> u64) \<Rightarrow> uintptr \<Rightarrow> u64" where
  "taken_after a m (ClearReturned q r) w = w(a := w a AND NOT m)"
| "taken_after a m tp w = w"

fun owned_after :: "uintptr \<Rightarrow> u64 \<Rightarrow> tree_pc \<Rightarrow> (uintptr \<Rightarrow> u64) \<Rightarrow> uintptr \<Rightarrow> u64" where
  "owned_after a m (OrReturned q) w = w(a := w a OR m)"
| "owned_after a m tp w = w"

text \<open>
  The end of the payload and the end of the node area are arguments. The bucket that \<open>Alloc\<close> returns
  beside the address is a function of its arguments and left out.
\<close>

fun conc_act :: "uintptr \<Rightarrow> uintptr \<Rightarrow> (conc_state, conc_local) action" where
  "conc_act pe ne (AllocPop n m, lp, tp) s =
     map_option (\<lambda>(f, lp'). (s\<lparr>cs_list := f\<rparr>, popped n m lp', lp', tp)) (list_act lp (cs_list s))"
| "conc_act pe ne (AllocBump n m, lp, tp) s =
     (let nb = cs_bump s + n; addr = nb - n; s' = s\<lparr>cs_bump := nb, cs_asked := cs_asked s + unat n\<rparr> in
      Some (s', if addr + n > pe then AllocFailed else AllocNode addr n m, lp, tp))"
| "conc_act pe ne (AllocNode a sz m, lp, tp) s =
     (let nb = cs_nodeBump s + sizeof_BallocNode; raw = nb - sizeof_BallocNode;
          s' = s\<lparr>cs_nodeBump := nb, cs_noded := cs_noded s + unat sizeof_BallocNode\<rparr> in
      if raw + sizeof_BallocNode > ne then Some (s', AllocFailed, lp, tp)
      else Some (s'\<lparr>cs_tree := set_node (cs_tree s) raw
                     \<lparr>Addr = a, Size = sz, OwnerMask = normalizeMask m, Left = 0, Right = 0\<rparr>,
                   cs_taken := (cs_taken s)(a := normalizeMask m)\<rparr>,
                 AllocInsert a (normalizeMask m), lp, InsRoot raw))"
| "conc_act pe ne (AllocInsert a m, lp, tp) s =
     map_option (\<lambda>(tr, tp'). (s\<lparr>cs_tree := tr\<rparr>, if tree_done tp' then AllocCount a m else AllocInsert a m, lp, tp'))
       (tree_act True tp (cs_tree s))"
| "conc_act pe ne (AllocCount a m, lp, tp) s =
     Some (s\<lparr>cs_active := cs_active s + 1, cs_owned := (cs_owned s)(a := cs_owned s a OR m)\<rparr>, AllocReturned a, lp, tp)"
| "conc_act pe ne (FreeFind a m, lp, tp) s =
     map_option (\<lambda>(tr, tp'). (s\<lparr>cs_tree := tr, cs_taken := taken_after a m tp' (cs_taken s)\<rparr>, freed a m tp', lp, tp'))
       (tree_act True tp (cs_tree s))"
| "conc_act pe ne (FreeRead a q, lp, tp) s =
     map_option (\<lambda>c. (s, FreeSlot (Addr c) (Size c), lp, tp)) (tr_nodes (cs_tree s) q)"
| "conc_act pe ne (FreeSlot a sz, lp, tp) s =
     (let nb = cs_nodeBump s + sizeof_freeSlot; raw = nb - sizeof_freeSlot;
          s' = s\<lparr>cs_nodeBump := nb, cs_noded := cs_noded s + unat sizeof_freeSlot\<rparr> in
      if raw + sizeof_freeSlot > ne then Some (s', FreeFailed, lp, tp)
      else Some (s'\<lparr>cs_list := (cs_list s)\<lparr>fl_slots := (fl_slots (cs_list s))
                     (raw \<mapsto> \<lparr>slot_addr = a, slot_size = sz, slot_next = 0\<rparr>)\<rparr>\<rparr>,
                 FreePush, PushLoad raw Freed, tp))"
| "conc_act pe ne (FreePush, lp, tp) s =
     map_option (\<lambda>(f, lp'). (s\<lparr>cs_list := f\<rparr>, if list_done lp' then FreeCount else FreePush, lp', tp))
       (list_act lp (cs_list s))"
| "conc_act pe ne (FreeCount, lp, tp) s =
     Some (s\<lparr>cs_active := cs_active s + NOT 0\<rparr>, FreeReturned True, lp, tp)"
| "conc_act pe ne (ShareFind a g m, lp, tp) s =
     map_option (\<lambda>(tr, tp'). (s\<lparr>cs_tree := tr, cs_owned := owned_after a (g OR m) tp' (cs_owned s)\<rparr>, shared_with a g m tp', lp, tp'))
       (tree_act True tp (cs_tree s))"
| "conc_act pe ne (ConcIdle, lp, tp) s = None"
| "conc_act pe ne (AllocReturned a, lp, tp) s = None"
| "conc_act pe ne (AllocFailed, lp, tp) s = None"
| "conc_act pe ne (FreeReturned b, lp, tp) s = None"
| "conc_act pe ne (FreeFailed, lp, tp) s = None"
| "conc_act pe ne (ShareReturned, lp, tp) s = None"
| "conc_act pe ne (ShareFailed, lp, tp) s = None"

fun stage_done :: "alloc_stage \<Rightarrow> bool" where
  "stage_done ConcIdle = True"
| "stage_done (AllocReturned a) = True"
| "stage_done AllocFailed = True"
| "stage_done (FreeReturned b) = True"
| "stage_done FreeFailed = True"
| "stage_done ShareReturned = True"
| "stage_done ShareFailed = True"
| "stage_done st = False"

text \<open>
  Calls. A client frees a block for owners that are its own, and it shares a block of which it is an
  owner, with owners that nobody else brings in; the owners it names, and by which it holds the
  block during a share, are in use until the call returns. \<open>ask\<close> restricts the rounded sizes.
\<close>

inductive conc_call :: "(uintptr \<Rightarrow> bool) \<Rightarrow> conc_state \<Rightarrow> conc_local \<Rightarrow> conc_state \<Rightarrow> conc_local \<Rightarrow> bool"
  for ask where
  call_alloc: "stage_done st \<Longrightarrow> sz \<noteq> 0 \<Longrightarrow> ask (alignUp sz 8) \<Longrightarrow>
    conc_call ask s (st, lp, tp) s (AllocPop (alignUp sz 8) m, PopLoad (alignUp sz 8), tp)"
| call_free: "stage_done st \<Longrightarrow> m \<noteq> 0 \<Longrightarrow> cs_owned s a AND m = m \<Longrightarrow>
    conc_call ask s (st, lp, tp) (s\<lparr>cs_owned := (cs_owned s)(a := cs_owned s a AND NOT m)\<rparr>)
      (FreeFind a m, lp, FindRoot a (ThenClear m))"
| call_share: "stage_done st \<Longrightarrow> g \<noteq> 0 \<Longrightarrow> cs_owned s a AND g = g \<Longrightarrow> cs_taken s a AND normalizeMask m = 0 \<Longrightarrow>
    conc_call ask s (st, lp, tp)
      (s\<lparr>cs_owned := (cs_owned s)(a := cs_owned s a AND NOT g),
        cs_taken := (cs_taken s)(a := cs_taken s a OR normalizeMask m)\<rparr>)
      (ShareFind a g (normalizeMask m), lp, FindRoot a (ThenOr (normalizeMask m)))"

definition empty_balloc :: "uintptr \<Rightarrow> uintptr \<Rightarrow> conc_state" where
  "empty_balloc pb nb = \<lparr>cs_list = empty_list, cs_tree = empty_tree, cs_bump = pb, cs_nodeBump = nb, cs_active = 0,
     cs_owned = (\<lambda>_. 0), cs_taken = (\<lambda>_. 0), cs_asked = 0, cs_noded = 0\<rparr>"

end
