(* ===== verification/Conc_Effects.thy ===== *)
theory Conc_Effects
  imports Conc_List_Props Conc_Tree_Props
begin

text \<open>
  What one action of the free list (Conc_List) and of the search tree (Conc_Tree) does to what the
  block allocator around them sees: the slots and the slots handed out, the owner mask of every
  block, where a walk to a block leads.
\<close>

section \<open>What an action of the free list and of the tree does\<close>

fun pops :: "uintptr \<Rightarrow> list_pc \<Rightarrow> bool" where
  "pops n (PopLoad k) = (k = n)"
| "pops n (PopNext k head) = (k = n)"
| "pops n (PopCas k head nxt) = (k = n)"
| "pops n (PopTest k head) = (k = n)"
| "pops n lp = False"

fun puts :: "list_pc \<Rightarrow> bool" where
  "puts (PushLoad slot k) = (k = Freed)"
| "puts (PushStore slot head k) = (k = Freed)"
| "puts (PushCas slot head k) = (k = Freed)"
| "puts lp = False"

lemma list_act_slots:
  assumes "list_act lp f = Some (f', lp')"
  shows "map_option slot_addr (fl_slots f' q) = map_option slot_addr (fl_slots f q)"
    "map_option slot_size (fl_slots f' q) = map_option slot_size (fl_slots f q)"
    "dom (fl_slots f') = dom (fl_slots f)"
  using assms by (cases lp; auto split: option.splits if_splits)+

lemma list_act_pops:
  assumes "pops n lp" "list_act lp f = Some (f', lp')" "\<And>q x. fl_slots f q = Some x \<Longrightarrow> slot_size x = n"
  obtains "pops n lp' \<or> lp' = PopReturned None" "fl_handed f' = fl_handed f"
  | q x where "lp' = PopReturned (Some (slot_addr x, n))" "fl_slots f q = Some x" "fl_handed f' = q # fl_handed f"
  using assms by (cases lp) (auto split: option.splits if_splits)

lemma list_act_puts:
  assumes "puts lp" "list_act lp f = Some (f', lp')"
  shows "(puts lp' \<or> lp' = PushReturned) \<and> fl_handed f' = fl_handed f"
  using assms by (cases lp) (auto split: option.splits if_splits)

text \<open>The owner mask that a search for a block finds; 0 when there is no node.\<close>

definition mask_at :: "tree_state \<Rightarrow> uintptr \<Rightarrow> u64" where
  "mask_at s a = (case tmap (tr_nodes s) (tr_root s) a of None \<Rightarrow> 0 | Some (sz, m) \<Rightarrow> m)"

lemma mask_at_node:
  assumes "mem_tree (tr_nodes s) (tr_root s) t" "q \<in> set_tree t" "tr_nodes s q = Some c"
  shows "mask_at s (Addr c) = OwnerMask c"
proof -
  have "tmap (tr_nodes s) (tr_root s) (Addr c) = Some (Size c, OwnerMask c)"
    unfolding tmap_Some_iff [OF assms(1)] using assms(2,3) by blast
  then show ?thesis
    by (simp add: mask_at_def)
qed

lemma mask_at_none: "mem_tree (tr_nodes s) (tr_root s) t \<Longrightarrow> a \<notin> key (tr_nodes s) ` set_tree t \<Longrightarrow> mask_at s a = 0"
  using tmap_None_iff [of "tr_nodes s" "tr_root s" t a] by (simp add: mask_at_def)

lemma mask_at_data:
  assumes t: "mem_tree (tr_nodes s) (tr_root s) t" and q: "q \<in> set_tree t" "tr_nodes s q = Some c"
    and same: "Addr c' = Addr c" "Left c' = Left c" "Right c' = Right c"
  shows "mask_at (set_node s q c') = (mask_at s)(Addr c := OwnerMask c')"
  using tmap_update_data(2) [OF t q same] by (auto simp: mask_at_def set_node_def)

lemma mask_at_fresh:
  assumes t: "mem_tree (tr_nodes s) (tr_root s) t" and "tr_nodes s node = None"
  shows "mask_at (set_node s node n) = mask_at s"
proof -
  have "node \<notin> set_tree t"
    using mem_tree_dom [OF t] assms(2) by fastforce
  then have "tmap ((tr_nodes s)(node \<mapsto> n)) (tr_root s) = tmap (tr_nodes s) (tr_root s)"
    by (intro tmap_frame [OF t]) auto
  then show ?thesis
    by (simp add: mask_at_def set_node_def fun_eq_iff)
qed

text \<open>
  The effect of an action on the owner masks: only the one that publishes a node, finds one, adds
  owners or clears owners changes a mask, and it changes one.
\<close>

fun mask_effect :: "tree_state \<Rightarrow> tree_pc \<Rightarrow> tree_pc \<Rightarrow> uintptr \<Rightarrow> u64" where
  "mask_effect s tp (InsReturned node p) =
     (mask_at s)(key (tr_nodes s) node := mask_at s (key (tr_nodes s) node) OR OwnerMask (the (tr_nodes s node)))"
| "mask_effect s (OrOwner q m) (OrReturned p) = (mask_at s)(key (tr_nodes s) q := mask_at s (key (tr_nodes s) q) OR m)"
| "mask_effect s (ClearCas q m current) (ClearReturned p r) = (mask_at s)(key (tr_nodes s) q := r)"
| "mask_effect s tp tp' = mask_at s"

lemma mask_at_publish:
  assumes inv: "tree_inv_at t s ls" and at: "ls u = InsCas node cur"
    and n: "tr_nodes s node = Some n" and c: "tr_nodes s cur = Some c" "link_of c (Addr n) = 0"
  shows "mask_at (set_node s cur (set_link c (Addr n) node)) = (mask_at s)(Addr n := OwnerMask n)" "mask_at s (Addr n) = 0"
proof -
  have path: "toward (tr_nodes s) t (Addr n) cur" "Addr n \<noteq> Addr c"
    using tree_inv_atD(2) [OF inv, of u] at n c by (auto simp: key_def)
  have new: "new_node (tr_nodes s) t node"
    using tree_inv_atD(3) [OF inv, of u] at by simp
  note D = tree_inv_atD(1) [OF inv]
  have absent: "Addr n \<notin> key (tr_nodes s) ` set_tree t"
    by (rule end_of_path [OF D path(1) c(1) path(2) c(2)])
  show "mask_at s (Addr n) = 0"
    by (rule mask_at_none [OF D absent])
  let ?h = "(tr_nodes s)(cur \<mapsto> set_link c (Addr n) node)"
  note L = link_ext [OF D path(1) c(1) path(2) c(2) new n]
  have "cur \<noteq> node"
    using new toward_mem [OF path(1)] by (auto simp: new_node_def)
  then have "tmap ?h (tr_root s) = (tmap (tr_nodes s) (tr_root s))(Addr n \<mapsto> (Size n, OwnerMask n))"
    by (intro tmap_extend [OF D conjunct1 [OF L(1)] L(2) _ _ absent]) (use c(1) n in \<open>auto simp: set_link_def\<close>)
  then show "mask_at (set_node s cur (set_link c (Addr n) node)) = (mask_at s)(Addr n := OwnerMask n)"
    by (auto simp: mask_at_def set_node_def)
qed

lemma mask_at_root:
  assumes inv: "tree_inv_at t s ls" and at: "ls u = InsRootCas node" "tr_root s = 0" and n: "tr_nodes s node = Some n"
  shows "mask_at (s\<lparr>tr_root := node\<rparr>) = (mask_at s)(Addr n := OwnerMask n)" "mask_at s (Addr n) = 0"
proof -
  have Leaf: "mem_tree (tr_nodes s) 0 Leaf"
    by simp
  have "node \<noteq> 0" "Left n = 0" "Right n = 0"
    using tree_inv_atD(3) [OF inv, of u] at n by (auto simp: new_node_def)
  then have "mem_tree (tr_nodes s) node (Node Leaf node Leaf)"
    by (intro mem_tree_single) (use n in auto)
  from tmap_extend [OF Leaf this, of node n]
  have "tmap (tr_nodes s) node = (tmap (tr_nodes s) 0)(Addr n \<mapsto> (Size n, OwnerMask n))"
    using n by simp
  then show "mask_at (s\<lparr>tr_root := node\<rparr>) = (mask_at s)(Addr n := OwnerMask n)" "mask_at s (Addr n) = 0"
    using at(2) by (auto simp: mask_at_def)
qed

lemma tree_act_masks:
  assumes inv: "tree_inv_at t s ls" and act: "tree_act True (ls u) s = Some (s', tp')"
  shows "mask_at s' = mask_effect s (ls u) tp'"
proof -
  note D = tree_inv_atD(1) [OF inv] and W = tree_inv_atD(2) [OF inv, of u] and N = tree_inv_atD(3) [OF inv, of u]
  have node: "\<exists>n. tr_nodes s node = Some n" if "pending (ls u) = Some node" for node
    using N [OF that] by (auto simp: new_node_def)
  show ?thesis
  proof (cases "ls u")
    case (InsRootCas node)
    obtain n where n: "tr_nodes s node = Some n"
      using node InsRootCas by auto
    show ?thesis
    proof (cases "tr_root s = 0")
      case True
      then show ?thesis
        using act InsRootCas mask_at_root [OF inv InsRootCas True n] n by (auto simp: key_def)
    qed (use act InsRootCas in auto)
  next
    case (InsAt nd cur)
    then obtain n c where n: "tr_nodes s nd = Some n" "tr_nodes s cur = Some c"
      using act by (auto split: option.splits)
    have cur: "cur \<in> set_tree t"
      using W InsAt toward_mem by auto
    from mask_at_data [OF D cur n(2), of "c\<lparr>Size := Size n\<rparr>"] mask_at_node [OF D cur n(2)]
    have "mask_at (set_node s cur (c\<lparr>Size := Size n\<rparr>)) = mask_at s"
      by (simp add: fun_eq_iff)
    then show ?thesis
      using act InsAt n by (auto split: if_splits)
  next
    case (InsCas nd cur)
    then obtain n c where n: "tr_nodes s nd = Some n" "tr_nodes s cur = Some c"
      using act by (auto split: option.splits)
    show ?thesis
    proof (cases "link_of c (Addr n) = 0")
      case True
      then show ?thesis
        using act InsCas mask_at_publish [OF inv InsCas n True] n by (auto simp: key_def)
    qed (use act InsCas n in auto)
  next
    case (InsOr nd cur)
    then obtain n c where n: "tr_nodes s nd = Some n" "tr_nodes s cur = Some c"
      using act by (auto split: option.splits)
    have cur: "cur \<in> set_tree t" "Addr c = Addr n"
      using W InsOr n by (auto simp: key_def)
    show ?thesis
      using act InsOr n cur mask_at_data [OF D cur(1) n(2), of "c\<lparr>OwnerMask := OwnerMask c OR OwnerMask n\<rparr>"] mask_at_node [OF D cur(1) n(2)]
      by (auto simp: key_def)
  next
    case (OrOwner cur m)
    then obtain c where c: "tr_nodes s cur = Some c"
      using act by (auto split: option.splits)
    have cur: "cur \<in> set_tree t"
      using W OrOwner by simp
    show ?thesis
      using act OrOwner c mask_at_data [OF D cur c, of "c\<lparr>OwnerMask := OwnerMask c OR m\<rparr>"] mask_at_node [OF D cur c]
      by (auto simp: key_def)
  next
    case (ClearCas cur m current)
    then obtain c where c: "tr_nodes s cur = Some c"
      using act by (auto split: option.splits)
    have cur: "cur \<in> set_tree t"
      using W ClearCas by simp
    show ?thesis
      using act ClearCas c mask_at_data [OF D cur c, of "c\<lparr>OwnerMask := current AND NOT m\<rparr>"]
      by (auto simp: key_def Let_def split: if_splits)
  qed (use act in \<open>auto simp: Let_def split: option.splits if_splits find_then.splits\<close>)
qed

text \<open>What a walk to the node of a block leads to; with an owner, it does not end without a node.\<close>

fun walks_for :: "node_store \<Rightarrow> uintptr \<Rightarrow> find_then \<Rightarrow> tree_pc \<Rightarrow> bool" where
  "walks_for h a k (FindRoot b k') = (b = a \<and> k' = k)"
| "walks_for h a k (FindAt b cur k') = (b = a \<and> k' = k)"
| "walks_for h a k (OrOwner q m) = (k = ThenOr m \<and> key h q = a)"
| "walks_for h a k (ClearLoad q m) = (k = ThenClear m \<and> key h q = a)"
| "walks_for h a k (ClearCas q m current) = (k = ThenClear m \<and> key h q = a)"
| "walks_for h a k tp = False"

lemma walk_finds:
  assumes inv: "tree_inv_at t s ls" and walk: "walks_for (tr_nodes s) a k (ls u)" and own: "mask_at s a \<noteq> 0" "k \<noteq> ThenReturn"
    and act: "tree_act True (ls u) s = Some (s', tp')"
  shows "tp' \<noteq> FindReturned b p"
proof
  assume found: "tp' = FindReturned b p"
  with act walk own(2) have b: "b = a" "p = 0"
    by (cases "ls u"; auto simp: Let_def split: option.splits if_splits find_then.splits)+
  have "findNode (tr_nodes s) (tr_root s) a = Some 0"
    using find_linearizes [OF inv, of True u s' a 0] act found b by simp
  then have "mask_at s a = 0"
    by (simp add: mask_at_def tmap_def)
  with own show False by simp
qed

lemma walk_goes_on:
  assumes act: "tree_act True tp s = Some (s', tp')" and walk: "walks_for (tr_nodes s) a k tp" and k: "k \<noteq> ThenReturn"
  obtains "walks_for (tr_nodes s') a k tp'" "\<not> tree_done tp'"
  | b p where "tp' = FindReturned b p"
  | q m where "tp = OrOwner q m" "k = ThenOr m" "tp' = OrReturned q" "key (tr_nodes s) q = a"
  | q m current r where "tp = ClearCas q m current" "k = ThenClear m" "tp' = ClearReturned q r" "key (tr_nodes s) q = a" "tr_nodes s q \<noteq> None"
proof -
  have "walks_for (tr_nodes s') a k tp' \<and> \<not> tree_done tp' \<or> (\<exists>b p. tp' = FindReturned b p)"
    if "\<forall>q m. tp = OrOwner q m \<longrightarrow> False" "\<forall>q m current. tp = ClearCas q m current \<longrightarrow> False"
    using assms that by (cases tp) (auto simp: Let_def key_def split: option.splits if_splits find_then.splits)
  moreover have "tp' = OrReturned q \<and> key (tr_nodes s) q = a \<and> k = ThenOr m" if "tp = OrOwner q m" for q m
    using assms that by (auto split: option.splits)
  moreover have "walks_for (tr_nodes s') a k tp' \<and> \<not> tree_done tp' \<or>
      (\<exists>r. tp' = ClearReturned q r \<and> k = ThenClear m \<and> key (tr_nodes s) q = a \<and> tr_nodes s q \<noteq> None)" if "tp = ClearCas q m current" for q m current
    using assms that by (auto simp: Let_def key_def split: option.splits if_splits)
  ultimately show thesis
    using that by metis
qed

lemma clear_result:
  assumes inv: "tree_inv_at t s ls" and at: "ls u = ClearCas q m current" and act: "tree_act True (ls u) s = Some (s', ClearReturned p r)"
  shows "p = q \<and> r = mask_at s (key (tr_nodes s) q) AND NOT m"
proof -
  obtain c where c: "tr_nodes s q = Some c" "OwnerMask c = current" "p = q" "r = current AND NOT m"
    using act at by (auto simp: Let_def split: option.splits if_splits)
  have "q \<in> set_tree t"
    using tree_inv_atD(2) [OF inv, of u] at by simp
  from mask_at_node [OF tree_inv_atD(1) [OF inv] this c(1)] c show ?thesis
    by (simp add: key_def)
qed

lemma insert_goes_on:
  assumes "tree_act True tp s = Some (s', tp')" "pending tp = Some node"
  shows "(if tree_done tp' then \<exists>p. tp' = InsReturned node p else pending tp' = Some node)"
  using assms by (cases tp) (auto split: option.splits if_splits)

text \<open>Nodes stay, with their addresses; sizes are only copied from other nodes.\<close>

definition nodes_kept :: "node_store \<Rightarrow> node_store \<Rightarrow> bool" where
  "nodes_kept h h' \<longleftrightarrow> (\<forall>q c. h q = Some c \<longrightarrow> (\<exists>c'. h' q = Some c' \<and> Addr c' = Addr c))"

lemma nodes_kept_refl: "nodes_kept h h"
  by (simp add: nodes_kept_def)

lemma nodes_kept_fresh: "h node = None \<Longrightarrow> nodes_kept h (h(node \<mapsto> n))"
  by (auto simp: nodes_kept_def)

lemma tree_act_nodes:
  assumes "tree_act True tp s = Some (s', tp')"
  shows "nodes_kept (tr_nodes s) (tr_nodes s')" "dom (tr_nodes s') = dom (tr_nodes s)"
    "(\<And>q c. tr_nodes s q = Some c \<Longrightarrow> Size c = n) \<Longrightarrow> tr_nodes s' q = Some c' \<Longrightarrow> Size c' = n"
  using assms
  by (cases tp; auto simp: nodes_kept_def set_node_def set_link_def Let_def split: option.splits if_splits find_then.splits; fail)+

lemma tree_act_pending:
  assumes inv: "tree_inv_at t s ls" and act: "tree_act True (ls u) s = Some (s', tp')" and "pending (ls v) = Some node"
  shows "tr_nodes s' node = tr_nodes s node"
proof -
  have "node \<in> dom (tr_nodes s)" "node \<notin> set_tree t"
    using tree_inv_atD(3) [OF inv assms(3)] by (auto simp: new_node_def)
  then show ?thesis
    using tree_act_well [OF inv act] unfolding acts_well_def tree_ext_def by blast
qed

end
