(* ===== verification/Conc_Tokens.thy ===== *)
theory Conc_Tokens
  imports Prelude
begin

text \<open>
  The ownership protocol of balloc, apart from the code that runs it. Every block is in one place: in
  a slot of the free list, in the hands of a goroutine, or owned, when the owner mask of its node is
  not zero. Every owner bit of a block is in one hand: that of the clients, or that of a goroutine
  that works for an owner; and a goroutine may hold a promise of bits that nobody else brings in.

  Each lemma is a move of the protocol: it keeps the rules. Conc_Balloc_Props shows that every action
  of the allocator is such a move, or none.
\<close>

record tokens =
  tk_slot :: "uintptr \<Rightarrow> uintptr option"
  tk_carry :: "nat \<Rightarrow> uintptr option"
  tk_own :: "uintptr \<Rightarrow> u64"
  tk_owned :: "uintptr \<Rightarrow> u64"
  tk_grip :: "nat \<Rightarrow> uintptr \<Rightarrow> u64"
  tk_claim :: "nat \<Rightarrow> uintptr \<Rightarrow> u64"
  tk_taken :: "uintptr \<Rightarrow> u64"

datatype place = InSlot uintptr | Carried nat | Owners

fun has :: "tokens \<Rightarrow> place \<Rightarrow> uintptr \<Rightarrow> bool" where
  "has k (InSlot q) a \<longleftrightarrow> tk_slot k q = Some a"
| "has k (Carried u) a \<longleftrightarrow> tk_carry k u = Some a"
| "has k Owners a \<longleftrightarrow> tk_own k a \<noteq> 0"

datatype hand = Clients | Worker nat | Claimant nat

fun grasp :: "tokens \<Rightarrow> hand \<Rightarrow> uintptr \<Rightarrow> u64" where
  "grasp k Clients = tk_owned k"
| "grasp k (Worker u) = tk_grip k u"
| "grasp k (Claimant u) = tk_claim k u"

fun promise :: "hand \<Rightarrow> bool" where
  "promise (Claimant u) = True"
| "promise x = False"

definition tokens_ok :: "tokens \<Rightarrow> bool" where
  "tokens_ok k \<longleftrightarrow>
     (\<forall>x y a. has k x a \<longrightarrow> has k y a \<longrightarrow> x = y) \<and>
     (\<forall>x y a i. bit (grasp k x a) i \<longrightarrow> bit (grasp k y a) i \<longrightarrow> x = y) \<and>
     (\<forall>x a i. bit (grasp k x a) i \<longrightarrow> bit (tk_taken k a) i) \<and>
     (\<forall>a i. bit (tk_own k a) i \<longleftrightarrow> (\<exists>x. \<not> promise x \<and> bit (grasp k x a) i)) \<and>
     (\<forall>u a. tk_claim k u a \<noteq> 0 \<longrightarrow> tk_grip k u a \<noteq> 0 \<or> tk_carry k u = Some a)"

lemma tokens_okD:
  assumes "tokens_ok k"
  shows "has k x a \<Longrightarrow> has k y a \<Longrightarrow> x = y"
    "bit (grasp k g a) i \<Longrightarrow> bit (grasp k h a) i \<Longrightarrow> g = h"
    "bit (grasp k g a) i \<Longrightarrow> bit (tk_taken k a) i"
    "bit (tk_own k a) i \<longleftrightarrow> (\<exists>h. \<not> promise h \<and> bit (grasp k h a) i)"
    "tk_claim k u a \<noteq> 0 \<Longrightarrow> tk_grip k u a \<noteq> 0 \<or> tk_carry k u = Some a"
  using assms unfolding tokens_ok_def by blast+

lemma tokens_okI:
  assumes "\<And>x y a. has k x a \<Longrightarrow> has k y a \<Longrightarrow> x = y"
    and "\<And>g h a i. bit (grasp k g a) i \<Longrightarrow> bit (grasp k h a) i \<Longrightarrow> g = h"
    and "\<And>g a i. bit (grasp k g a) i \<Longrightarrow> bit (tk_taken k a) i"
    and "\<And>a i. bit (tk_own k a) i \<longleftrightarrow> (\<exists>h. \<not> promise h \<and> bit (grasp k h a) i)"
    and "\<And>u a. tk_claim k u a \<noteq> 0 \<Longrightarrow> tk_grip k u a \<noteq> 0 \<or> tk_carry k u = Some a"
  shows "tokens_ok k"
  unfolding tokens_ok_def using assms by blast

definition single :: "uintptr \<Rightarrow> u64 \<Rightarrow> uintptr \<Rightarrow> u64" where
  "single a m x = (if x = a then m else 0)"

lemma single_simps [simp]: "single a m a = m" "x \<noteq> a \<Longrightarrow> single a m x = 0" "bit (single a m x) i \<longleftrightarrow> x = a \<and> bit m i"
  by (auto simp: single_def)

lemma nonzero_bit: "(w :: u64) \<noteq> 0 \<longleftrightarrow> (\<exists>i. bit w i)"
  using bit_eq_iff [of w 0] by (auto dest: bit_imp_le_length)

lemma bits_zero: "\<not> bit (0 :: u64) i"
  by simp

text \<open>A block whose owners hold anything is owned, and one that is elsewhere has no owners.\<close>

lemma grasp_own:
  assumes ok: "tokens_ok k" and "grasp k x a \<noteq> 0" "\<not> promise x"
  shows "tk_own k a \<noteq> 0"
  using assms(2,3) tokens_okD(4) [OF ok, of a] unfolding nonzero_bit by blast

lemma elsewhere_no_owner:
  assumes ok: "tokens_ok k" and "has k p a" "p \<noteq> Owners"
  shows "tk_own k a = 0" "\<not> promise x \<Longrightarrow> grasp k x a = 0" "tk_claim k u a \<noteq> 0 \<Longrightarrow> p = Carried u"
proof -
  show own: "tk_own k a = 0"
    using tokens_okD(1) [OF ok assms(2), of Owners] assms(3) by auto
  show free: "grasp k x a = 0" if "\<not> promise x" for x
    using grasp_own [OF ok _ that] own by blast
  show "p = Carried u" if "tk_claim k u a \<noteq> 0"
    using tokens_okD(5) [OF ok that] free [of "Worker u"] tokens_okD(1) [OF ok assms(2), of "Carried u"] by auto
qed

lemma nowhere_no_owner:
  assumes ok: "tokens_ok k" and "\<forall>p. \<not> has k p a"
  shows "tk_own k a = 0" "grasp k x a = 0"
proof -
  show own: "tk_own k a = 0"
    using assms(2) has.simps(3) by blast
  have free: "grasp k x a = 0" if "\<not> promise x" for x
    using grasp_own [OF ok _ that] own by blast
  have "tk_carry k u \<noteq> Some a" for u
    using assms(2) has.simps(2) by blast
  then have "tk_claim k u a = 0" for u
    using tokens_okD(5) [OF ok, of u a] free [of "Worker u"] by auto
  then show "grasp k x a = 0"
    using free [of x] by (cases x) auto
qed

section \<open>Moves of a block\<close>

text \<open>A block goes to a new place; nothing happens to its owner bits.\<close>

lemma tokens_move:
  assumes ok: "tokens_ok k"
    and same: "tk_own k' = tk_own k" "tk_owned k' = tk_owned k" "tk_grip k' = tk_grip k" "tk_claim k' = tk_claim k" "tk_taken k' = tk_taken k"
    and place: "\<And>x c. has k' x c \<Longrightarrow> has k x c \<and> c \<noteq> a \<or> x = p \<and> c = a"
    and claims: "\<And>u c. tk_claim k u c \<noteq> 0 \<Longrightarrow> tk_grip k u c \<noteq> 0 \<or> tk_carry k' u = Some c"
  shows "tokens_ok k'"
proof -
  have grasp: "grasp k' = grasp k"
    by (rule ext, rule hand.induct) (simp_all add: same)
  show ?thesis
  proof (rule tokens_okI, unfold grasp same)
    show "x = y" if "has k' x c" "has k' y c" for x y c
      using place [OF that(1)] place [OF that(2)] tokens_okD(1) [OF ok, of x c y] by blast
  qed (fact tokens_okD [OF ok] claims)+
qed

lemma tokens_take:
  assumes "tokens_ok k" "tk_slot k q = Some a" "tk_carry k u = None"
  shows "tokens_ok (k\<lparr>tk_slot := (tk_slot k)(q := None), tk_carry := (tk_carry k)(u := Some a)\<rparr>)"
proof (rule tokens_move [OF assms(1), of _ a "Carried u"])
  fix x c
  assume "has (k\<lparr>tk_slot := (tk_slot k)(q := None), tk_carry := (tk_carry k)(u := Some a)\<rparr>) x c"
  then show "has k x c \<and> c \<noteq> a \<or> x = Carried u \<and> c = a"
    using tokens_okD(1) [OF assms(1), of "InSlot q" a x] assms(2) by (cases x) (auto split: if_splits)
qed (use tokens_okD(5) [OF assms(1), of _ _] assms(3) in \<open>simp_all, metis option.distinct(1)\<close>)

lemma tokens_new:
  assumes "tokens_ok k" "\<forall>p. \<not> has k p a" "tk_carry k u = None"
  shows "tokens_ok (k\<lparr>tk_carry := (tk_carry k)(u := Some a)\<rparr>)"
proof (rule tokens_move [OF assms(1), of _ a "Carried u"])
  fix x c
  assume "has (k\<lparr>tk_carry := (tk_carry k)(u := Some a)\<rparr>) x c"
  then show "has k x c \<and> c \<noteq> a \<or> x = Carried u \<and> c = a"
    using assms(2) [rule_format, of x] by (cases x) (auto split: if_splits)
qed (use tokens_okD(5) [OF assms(1), of _ _] assms(3) in \<open>simp_all, metis option.distinct(1)\<close>)

lemma tokens_drop:
  assumes "tokens_ok k" "tk_carry k u = Some a" "tk_claim k u = (\<lambda>_. 0)"
  shows "tokens_ok (k\<lparr>tk_carry := (tk_carry k)(u := None)\<rparr>)"
proof (rule tokens_move [OF assms(1), of _ a "Carried u"])
  fix x c
  assume "has (k\<lparr>tk_carry := (tk_carry k)(u := None)\<rparr>) x c"
  then show "has k x c \<and> c \<noteq> a \<or> x = Carried u \<and> c = a"
    using tokens_okD(1) [OF assms(1), of "Carried u" a x] assms(2) by (cases x) (auto split: if_splits)
qed (use tokens_okD(5) [OF assms(1)] assms(3) in auto)

lemma tokens_put:
  assumes "tokens_ok k" "tk_carry k u = Some a" "tk_claim k u = (\<lambda>_. 0)" "tk_slot k q = None"
  shows "tokens_ok (k\<lparr>tk_slot := (tk_slot k)(q := Some a), tk_carry := (tk_carry k)(u := None)\<rparr>)"
proof (rule tokens_move [OF assms(1), of _ a "InSlot q"])
  fix x c
  assume "has (k\<lparr>tk_slot := (tk_slot k)(q := Some a), tk_carry := (tk_carry k)(u := None)\<rparr>) x c"
  then show "has k x c \<and> c \<noteq> a \<or> x = InSlot q \<and> c = a"
    using tokens_okD(1) [OF assms(1), of "Carried u" a x] assms(2) by (cases x) (auto split: if_splits)
qed (use tokens_okD(5) [OF assms(1)] assms(3) in auto)

section \<open>Moves of owner bits\<close>

lemma bit_and_not: "bit (w AND NOT m) i \<longleftrightarrow> bit w i \<and> \<not> bit m i" for w m :: u64
  by (auto simp: bit_simps dest: bit_imp_le_length)

lemmas owner_bits = bit_and_not bit_or_iff bit_and_iff

text \<open>A goroutine that carries a block prepares a node with the owners \<open>m\<close>.\<close>

lemma tokens_prepare:
  assumes ok: "tokens_ok k" and carry: "tk_carry k u = Some a" and idle: "tk_claim k u = (\<lambda>_. 0)"
  shows "tokens_ok (k\<lparr>tk_claim := (tk_claim k)(u := single a m), tk_taken := (tk_taken k)(a := m)\<rparr>)" (is "tokens_ok ?k")
proof -
  have has: "has ?k x = has k x" for x
    by (rule ext, cases x) simp_all
  have none: "grasp k h a = 0" for h
  proof (cases h)
    case (Claimant v)
    then show ?thesis
      using elsewhere_no_owner(3) [OF ok, of "Carried u" a v] carry idle by (cases "v = u") auto
  qed (use elsewhere_no_owner(2) [OF ok, of "Carried u" a h] carry in auto)
  have grasp: "bit (grasp ?k h c) i \<longleftrightarrow> bit (grasp k h c) i \<or> h = Claimant u \<and> c = a \<and> bit m i" for h c i
    using idle by (cases h) auto
  have free: "\<not> bit (grasp k h a) i" for h i
    by (simp add: none)
  show ?thesis
  proof (rule tokens_okI, unfold grasp has)
    show "g = h" if "bit (grasp k g c) i \<or> g = Claimant u \<and> c = a \<and> bit m i" "bit (grasp k h c) i \<or> h = Claimant u \<and> c = a \<and> bit m i" for g h c i
      using that tokens_okD(2) [OF ok, of g c i h] free by blast
    show "bit (tk_taken ?k c) i" if "bit (grasp k g c) i \<or> g = Claimant u \<and> c = a \<and> bit m i" for g c i
      using that tokens_okD(3) [OF ok, of g c i] free by auto
    show "bit (tk_own ?k c) i \<longleftrightarrow> (\<exists>h. \<not> promise h \<and> (bit (grasp k h c) i \<or> h = Claimant u \<and> c = a \<and> bit m i))" for c i
      using tokens_okD(4) [OF ok, of c i] by auto
    show "tk_grip ?k v c \<noteq> 0 \<or> tk_carry ?k v = Some c" if "tk_claim ?k v c \<noteq> 0" for v c
      using that carry tokens_okD(5) [OF ok, of v c] by (cases "v = u"; cases "c = a") auto
  qed (fact tokens_okD(1) [OF ok])
qed

text \<open>The node is in the tree: the block is owned, and the goroutine works for its owners.\<close>

lemma tokens_publish:
  assumes ok: "tokens_ok k" and carry: "tk_carry k u = Some a" and claim: "tk_claim k u = single a m" and idle: "tk_grip k u = (\<lambda>_. 0)"
  shows "tokens_ok (k\<lparr>tk_carry := (tk_carry k)(u := None), tk_own := (tk_own k)(a := tk_own k a OR m),
    tk_claim := (tk_claim k)(u := \<lambda>_. 0), tk_grip := (tk_grip k)(u := single a m)\<rparr>)" (is "tokens_ok ?k")
proof -
  have own: "tk_own k a = 0"
    using elsewhere_no_owner(1) [OF ok, of "Carried u" a] carry by simp
  have grasp: "bit (grasp ?k h c) i \<longleftrightarrow> (if h = Worker u then c = a \<and> bit m i else h \<noteq> Claimant u \<and> bit (grasp k h c) i)" for h c i
    by (cases h) auto
  have was: "bit (grasp k (Claimant u) a) i \<longleftrightarrow> bit m i" "\<not> bit (grasp k (Worker u) c) i" for i c
    using claim idle by simp_all
  show ?thesis
  proof (rule tokens_okI, unfold grasp)
    show "x = y" if "has ?k x c" "has ?k y c" for x y c
    proof -
      have "has k x c \<and> c \<noteq> a \<or> x = Owners \<and> c = a" if "has ?k x c" for x
        using that own tokens_okD(1) [OF ok, of "Carried u" a x] carry by (cases x) (auto split: if_splits)
      from this [OF that(1)] this [OF that(2)] show ?thesis
        using tokens_okD(1) [OF ok, of x c y] by blast
    qed
    show "g = h" if "if g = Worker u then c = a \<and> bit m i else g \<noteq> Claimant u \<and> bit (grasp k g c) i"
        "if h = Worker u then c = a \<and> bit m i else h \<noteq> Claimant u \<and> bit (grasp k h c) i" for g h c i
      using that was(1) [of i] tokens_okD(2) [OF ok, of _ c i] by (metis (full_types))
    show "bit (tk_taken ?k c) i" if "if g = Worker u then c = a \<and> bit m i else g \<noteq> Claimant u \<and> bit (grasp k g c) i" for g c i
      using that was(1) [of i] tokens_okD(3) [OF ok, of "Claimant u" c i] tokens_okD(3) [OF ok, of g c i] by (auto split: if_splits)
    show "bit (tk_own ?k c) i \<longleftrightarrow> (\<exists>h. \<not> promise h \<and> (if h = Worker u then c = a \<and> bit m i else h \<noteq> Claimant u \<and> bit (grasp k h c) i))" for c i
    proof -
      have "bit (tk_own ?k c) i \<longleftrightarrow> bit (tk_own k c) i \<or> c = a \<and> bit m i"
        by (simp add: bit_or_iff)
      moreover have "bit (tk_own k c) i \<longleftrightarrow> (\<exists>h. \<not> promise h \<and> h \<noteq> Worker u \<and> bit (grasp k h c) i)"
        unfolding tokens_okD(4) [OF ok] using was(2) by blast
      ultimately show ?thesis
        by (metis promise.simps)
    qed
    show "tk_grip ?k v c \<noteq> 0 \<or> tk_carry ?k v = Some c" if "tk_claim ?k v c \<noteq> 0" for v c
      using that tokens_okD(5) [OF ok, of v c] by (cases "v = u") auto
  qed
qed

text \<open>
  Owner bits go from one hand to another, and nothing else happens: a goroutine hands its bits to the
  client that it works for, or takes bits from it.
\<close>

lemma tokens_rehand:
  assumes ok: "tokens_ok k"
    and same: "tk_slot k' = tk_slot k" "tk_carry k' = tk_carry k" "tk_own k' = tk_own k" "tk_claim k' = tk_claim k" "tk_taken k' = tk_taken k"
    and moved: "\<And>v. v \<noteq> u \<Longrightarrow> tk_grip k' v = tk_grip k v"
      "\<And>c i. bit (tk_owned k' c) i \<or> bit (tk_grip k' u c) i \<longleftrightarrow> bit (tk_owned k c) i \<or> bit (tk_grip k u c) i"
      "\<And>c i. \<not> (bit (tk_owned k' c) i \<and> bit (tk_grip k' u c) i)"
    and idle: "tk_claim k u = (\<lambda>_. 0)"
  shows "tokens_ok k'"
proof -
  have has: "has k' x = has k x" for x
    by (rule ext, cases x) (simp_all add: same)
  have other: "grasp k' h = grasp k h" if "h \<noteq> Clients" "h \<noteq> Worker u" for h
    using that moved(1) same by (cases h) auto
  define old where "old h = (if h = Clients \<or> h = Worker u then Clients else h)" for h
  have origin: "\<exists>g. old g = old h \<and> promise g = promise h \<and> bit (grasp k g c) i" if "bit (grasp k' h c) i" for h c i
  proof (cases "h = Clients \<or> h = Worker u")
    case True
    then have "bit (grasp k Clients c) i \<or> bit (grasp k (Worker u) c) i"
      using that moved(2) [of c i] by auto
    then obtain g where "g = Clients \<or> g = Worker u" "bit (grasp k g c) i"
      by blast
    with True show ?thesis
      by (intro exI [of _ g]) (auto simp: old_def)
  next
    case False
    then show ?thesis
      using that other [of h] by auto
  qed
  show ?thesis
  proof (rule tokens_okI, unfold has)
    show "g = h" if gh: "bit (grasp k' g c) i" "bit (grasp k' h c) i" for g h c i
    proof -
      obtain g' where g': "old g' = old g" "bit (grasp k g' c) i"
        using origin [OF gh(1)] by blast
      obtain h' where h': "old h' = old h" "bit (grasp k h' c) i"
        using origin [OF gh(2)] by blast
      have "g' = h'"
        using g'(2) h'(2) by (rule tokens_okD(2) [OF ok])
      with g'(1) h'(1) have "old g = old h"
        by simp
      then show ?thesis
        using gh moved(3) [of c i] by (auto simp: old_def split: if_splits)
    qed
    show "bit (tk_taken k' c) i" if "bit (grasp k' g c) i" for g c i
      using origin [OF that] tokens_okD(3) [OF ok, of _ c i] same by metis
    show "bit (tk_own k' c) i \<longleftrightarrow> (\<exists>h. \<not> promise h \<and> bit (grasp k' h c) i)" for c i
    proof -
      have "(\<exists>h. \<not> promise h \<and> bit (grasp k' h c) i) \<longleftrightarrow> (\<exists>h. \<not> promise h \<and> bit (grasp k h c) i)"
      proof
        assume "\<exists>h. \<not> promise h \<and> bit (grasp k h c) i"
        then obtain h where h: "\<not> promise h" "bit (grasp k h c) i" by blast
        show "\<exists>h. \<not> promise h \<and> bit (grasp k' h c) i"
        proof (cases "h = Clients \<or> h = Worker u")
          case True
          then have "bit (grasp k' Clients c) i \<or> bit (grasp k' (Worker u) c) i"
            using h(2) moved(2) [of c i] by auto
          then show ?thesis
            using promise.simps by blast
        qed (use h other in metis)
      qed (use origin in metis)
      then show ?thesis
        using tokens_okD(4) [OF ok, of c i] same by simp
    qed
    show "tk_grip k' v c \<noteq> 0 \<or> tk_carry k' v = Some c" if "tk_claim k' v c \<noteq> 0" for v c
      using that tokens_okD(5) [OF ok, of v c] moved(1) [of v] idle same by (cases "v = u") auto
  qed (fact tokens_okD(1) [OF ok])
qed

lemma tokens_give:
  assumes ok: "tokens_ok k" and grip: "tk_grip k u = single a g" and idle: "tk_claim k u = (\<lambda>_. 0)"
  shows "tokens_ok (k\<lparr>tk_owned := (tk_owned k)(a := tk_owned k a OR g), tk_grip := (tk_grip k)(u := \<lambda>_. 0)\<rparr>)"
  by (rule tokens_rehand [OF ok, of _ u]) (use grip idle in \<open>auto simp: bit_or_iff\<close>)

lemma tokens_begin:
  assumes ok: "tokens_ok k" and g: "tk_owned k a AND g = g" and idle: "tk_grip k u = (\<lambda>_. 0)" "tk_claim k u = (\<lambda>_. 0)"
  shows "tokens_ok (k\<lparr>tk_owned := (tk_owned k)(a := tk_owned k a AND NOT g), tk_grip := (tk_grip k)(u := single a g)\<rparr>)"
proof (rule tokens_rehand [OF ok, of _ u])
  have "bit (tk_owned k a) i" if "bit g i" for i
    using that g by (metis bit_and_iff)
  then show "bit (tk_owned (k\<lparr>tk_owned := (tk_owned k)(a := tk_owned k a AND NOT g), tk_grip := (tk_grip k)(u := single a g)\<rparr>) c) i \<or>
      bit (tk_grip (k\<lparr>tk_owned := (tk_owned k)(a := tk_owned k a AND NOT g), tk_grip := (tk_grip k)(u := single a g)\<rparr>) u c) i \<longleftrightarrow>
      bit (tk_owned k c) i \<or> bit (tk_grip k u c) i" for c i
    using idle by (auto simp: bit_and_not)
qed (use idle in \<open>auto simp: bit_and_not\<close>)

text \<open>A goroutine that holds owner bits promises more.\<close>

lemma tokens_claim:
  assumes ok: "tokens_ok k" and grip: "tk_grip k u a \<noteq> 0" and idle: "tk_claim k u = (\<lambda>_. 0)" and free: "tk_taken k a AND m = 0"
  shows "tokens_ok (k\<lparr>tk_claim := (tk_claim k)(u := single a m), tk_taken := (tk_taken k)(a := tk_taken k a OR m)\<rparr>)" (is "tokens_ok ?k")
proof -
  have has: "has ?k x = has k x" for x
    by (rule ext, cases x) simp_all
  have grasp: "bit (grasp ?k h c) i \<longleftrightarrow> bit (grasp k h c) i \<or> h = Claimant u \<and> c = a \<and> bit m i" for h c i
    using idle by (cases h) auto
  have fresh: "\<not> bit (grasp k h a) i" if "bit m i" for h i
    using that free tokens_okD(3) [OF ok, of h a i] bits_zero [of i] by (metis bit_and_iff)
  show ?thesis
  proof (rule tokens_okI, unfold grasp has)
    show "g = h" if "bit (grasp k g c) i \<or> g = Claimant u \<and> c = a \<and> bit m i" "bit (grasp k h c) i \<or> h = Claimant u \<and> c = a \<and> bit m i" for g h c i
      using that tokens_okD(2) [OF ok, of g c i h] fresh by blast
    show "bit (tk_taken ?k c) i" if "bit (grasp k g c) i \<or> g = Claimant u \<and> c = a \<and> bit m i" for g c i
      using that tokens_okD(3) [OF ok, of g c i] by (auto simp: bit_or_iff)
    show "bit (tk_own ?k c) i \<longleftrightarrow> (\<exists>h. \<not> promise h \<and> (bit (grasp k h c) i \<or> h = Claimant u \<and> c = a \<and> bit m i))" for c i
      using tokens_okD(4) [OF ok, of c i] by auto
    show "tk_grip ?k v c \<noteq> 0 \<or> tk_carry ?k v = Some c" if "tk_claim ?k v c \<noteq> 0" for v c
      using that grip tokens_okD(5) [OF ok, of v c] by (cases "v = u"; cases "c = a") auto
  qed (fact tokens_okD(1) [OF ok])
qed

text \<open>The promise is kept: the bits are in the owner mask, and with the others in the clients' hands.\<close>

lemma tokens_fulfil:
  assumes ok: "tokens_ok k" and grip: "tk_grip k u = single a g" "g \<noteq> 0" and claim: "tk_claim k u = single a m"
  shows "tokens_ok (k\<lparr>tk_own := (tk_own k)(a := tk_own k a OR m), tk_owned := (tk_owned k)(a := tk_owned k a OR (g OR m)),
    tk_grip := (tk_grip k)(u := \<lambda>_. 0), tk_claim := (tk_claim k)(u := \<lambda>_. 0)\<rparr>)"
proof -
  let ?j = "k\<lparr>tk_own := (tk_own k)(a := tk_own k a OR m), tk_grip := (tk_grip k)(u := single a (g OR m)), tk_claim := (tk_claim k)(u := \<lambda>_. 0)\<rparr>"
  have was: "bit (grasp k (Claimant u) c) i \<longleftrightarrow> c = a \<and> bit m i" "bit (grasp k (Worker u) c) i \<longleftrightarrow> c = a \<and> bit g i" for c i
    using grip(1) claim by simp_all
  have owned: "tk_own k a \<noteq> 0"
    using grasp_own [OF ok, of "Worker u" a] grip by simp
  have grasp: "bit (grasp ?j h c) i \<longleftrightarrow>
      (if h = Worker u then bit (grasp k (Worker u) c) i \<or> bit (grasp k (Claimant u) c) i else h \<noteq> Claimant u \<and> bit (grasp k h c) i)" for h c i
    using grip(1) claim by (cases h) (auto simp: bit_or_iff)
  have own: "bit (tk_own ?j c) i \<longleftrightarrow> bit (tk_own k c) i \<or> bit (grasp k (Claimant u) c) i" for c i
    using claim by (simp add: bit_or_iff)
  have j: "tokens_ok ?j"
  proof (rule tokens_okI, unfold grasp own)
    show "x = y" if "has ?j x c" "has ?j y c" for x y c
    proof -
      have "has k x c" if "has ?j x c" for x
        using that owned by (cases x) (auto split: if_splits)
      from this [OF that(1)] this [OF that(2)] show ?thesis
        by (rule tokens_okD(1) [OF ok])
    qed
    show "g = h" if "if g = Worker u then bit (grasp k (Worker u) c) i \<or> bit (grasp k (Claimant u) c) i else g \<noteq> Claimant u \<and> bit (grasp k g c) i"
        "if h = Worker u then bit (grasp k (Worker u) c) i \<or> bit (grasp k (Claimant u) c) i else h \<noteq> Claimant u \<and> bit (grasp k h c) i" for g h c i
      using that tokens_okD(2) [OF ok, of _ c i] by (metis (full_types))
    show "bit (tk_taken ?j c) i"
      if "if h = Worker u then bit (grasp k (Worker u) c) i \<or> bit (grasp k (Claimant u) c) i else h \<noteq> Claimant u \<and> bit (grasp k h c) i" for h c i
      using that tokens_okD(3) [OF ok, of _ c i] by (simp, metis)
    show "bit (tk_own k c) i \<or> bit (grasp k (Claimant u) c) i \<longleftrightarrow> (\<exists>h. \<not> promise h \<and>
        (if h = Worker u then bit (grasp k (Worker u) c) i \<or> bit (grasp k (Claimant u) c) i else h \<noteq> Claimant u \<and> bit (grasp k h c) i))" for c i
      unfolding tokens_okD(4) [OF ok] by (metis promise.simps)
    show "tk_grip ?j v c \<noteq> 0 \<or> tk_carry ?j v = Some c" if "tk_claim ?j v c \<noteq> 0" for v c
      using that tokens_okD(5) [OF ok, of v c] by (cases "v = u") auto
  qed
  note tokens_give [OF j, of u a "g OR m"]
  then show ?thesis
    by (cases k) simp
qed

text \<open>
  A goroutine clears the bits that it holds. If these were the last, the block is in its hands: no
  other goroutine has it, and none can come to own it before it is handed out again.
\<close>

lemma tokens_clear:
  assumes ok: "tokens_ok k" and grip: "tk_grip k u = single a m" "m \<noteq> 0" and idle: "tk_carry k u = None" "tk_claim k u = (\<lambda>_. 0)"
  shows "tokens_ok (k\<lparr>tk_own := (tk_own k)(a := tk_own k a AND NOT m), tk_grip := (tk_grip k)(u := \<lambda>_. 0),
    tk_taken := (tk_taken k)(a := tk_taken k a AND NOT m),
    tk_carry := (tk_carry k)(u := if tk_own k a AND NOT m = 0 then Some a else None)\<rparr>)" (is "tokens_ok ?k")
proof -
  have was: "bit (grasp k (Worker u) c) i \<longleftrightarrow> c = a \<and> bit m i" for c i
    using grip(1) by simp
  have owned: "tk_own k a \<noteq> 0"
    using grasp_own [OF ok, of "Worker u" a] grip by simp
  have grasp: "bit (grasp ?k h c) i \<longleftrightarrow> h \<noteq> Worker u \<and> bit (grasp k h c) i" for h c i
    using was by (cases h) auto
  have other: "\<not> bit m i" if "h \<noteq> Worker u" "bit (grasp k h a) i" for h i
    using tokens_okD(2) [OF ok that(2), of "Worker u"] that(1) was by blast
  have own: "bit (tk_own ?k c) i \<longleftrightarrow> bit (tk_own k c) i \<and> \<not> bit (grasp k (Worker u) c) i" for c i
    using grip(1) by (auto simp: bit_and_not)
  show ?thesis
  proof (rule tokens_okI, unfold grasp own)
    show "x = y" if "has ?k x c" "has ?k y c" for x y c
    proof -
      have "has k x c \<and> c \<noteq> a \<or> c = a \<and> (if tk_own k a AND NOT m = 0 then x = Carried u else x = Owners)" if "has ?k x c" for x
        using that owned idle(1) tokens_okD(1) [OF ok, of Owners a x] by (cases x) (auto split: if_splits)
      from this [OF that(1)] this [OF that(2)] show ?thesis
        using tokens_okD(1) [OF ok, of x c y] by (metis (full_types))
    qed
    show "bit (tk_taken ?k c) i" if "h \<noteq> Worker u \<and> bit (grasp k h c) i" for h c i
      using that tokens_okD(3) [OF ok, of h c i] other [of h i] by (auto simp: bit_and_not)
    show "bit (tk_own k c) i \<and> \<not> bit (grasp k (Worker u) c) i \<longleftrightarrow> (\<exists>h. \<not> promise h \<and> h \<noteq> Worker u \<and> bit (grasp k h c) i)" for c i
      unfolding tokens_okD(4) [OF ok] using tokens_okD(2) [OF ok, of _ c i] by blast
    show "tk_grip ?k v c \<noteq> 0 \<or> tk_carry ?k v = Some c" if "tk_claim ?k v c \<noteq> 0" for v c
      using that tokens_okD(5) [OF ok, of v c] idle by (cases "v = u") auto
  qed (use tokens_okD(2) [OF ok] in blast)
qed

section \<open>The moves as one relation\<close>

text \<open>The rules are kept, and no block comes from nowhere.\<close>

definition keeps :: "tokens \<Rightarrow> tokens \<Rightarrow> bool" where
  "keeps k k' \<longleftrightarrow> tokens_ok k' \<and> (\<forall>p a. has k' p a \<longrightarrow> (\<exists>p. has k p a))"

lemma keepsI: "tokens_ok k' \<Longrightarrow> (\<And>p a. has k' p a \<Longrightarrow> has k p a \<or> a = b) \<Longrightarrow> has k q b \<Longrightarrow> keeps k k'"
  unfolding keeps_def by blast

lemma keeps_same: "tokens_ok k \<Longrightarrow> keeps k k"
  unfolding keeps_def by blast

lemma keeps_take:
  assumes "tokens_ok k" "tk_slot k q = Some a" "tk_carry k u = None"
  shows "keeps k (k\<lparr>tk_slot := (tk_slot k)(q := None), tk_carry := (tk_carry k)(u := Some a)\<rparr>)"
proof (rule keepsI [OF tokens_take [OF assms], of k a "InSlot q"])
  show "has (k\<lparr>tk_slot := (tk_slot k)(q := None), tk_carry := (tk_carry k)(u := Some a)\<rparr>) p c \<Longrightarrow> has k p c \<or> c = a" for p c
    by (cases p) (auto split: if_splits)
qed (use assms in simp)

lemma keeps_drop:
  assumes "tokens_ok k" "tk_carry k u = Some a" "tk_claim k u = (\<lambda>_. 0)"
  shows "keeps k (k\<lparr>tk_carry := (tk_carry k)(u := None)\<rparr>)"
proof (rule keepsI [OF tokens_drop [OF assms], of k a "Carried u"])
  show "has (k\<lparr>tk_carry := (tk_carry k)(u := None)\<rparr>) p c \<Longrightarrow> has k p c \<or> c = a" for p c
    by (cases p) (auto split: if_splits)
qed (use assms in simp)

lemma keeps_put:
  assumes "tokens_ok k" "tk_carry k u = Some a" "tk_claim k u = (\<lambda>_. 0)" "tk_slot k q = None"
  shows "keeps k (k\<lparr>tk_slot := (tk_slot k)(q := Some a), tk_carry := (tk_carry k)(u := None)\<rparr>)"
proof (rule keepsI [OF tokens_put [OF assms], of k a "Carried u"])
  show "has (k\<lparr>tk_slot := (tk_slot k)(q := Some a), tk_carry := (tk_carry k)(u := None)\<rparr>) p c \<Longrightarrow> has k p c \<or> c = a" for p c
    by (cases p) (auto split: if_splits)
qed (use assms in simp)

lemma keeps_prepare:
  assumes "tokens_ok k" "tk_carry k u = Some a" "tk_claim k u = (\<lambda>_. 0)"
  shows "keeps k (k\<lparr>tk_claim := (tk_claim k)(u := single a m), tk_taken := (tk_taken k)(a := m)\<rparr>)"
proof (rule keepsI [OF tokens_prepare [OF assms, of m], of k a "Carried u"])
  show "has (k\<lparr>tk_claim := (tk_claim k)(u := single a m), tk_taken := (tk_taken k)(a := m)\<rparr>) p c \<Longrightarrow> has k p c \<or> c = a" for p c
    by (cases p) auto
qed (use assms in simp)

lemma keeps_publish:
  assumes "tokens_ok k" "tk_carry k u = Some a" "tk_claim k u = single a m" "tk_grip k u = (\<lambda>_. 0)"
  shows "keeps k (k\<lparr>tk_carry := (tk_carry k)(u := None), tk_own := (tk_own k)(a := tk_own k a OR m),
    tk_claim := (tk_claim k)(u := \<lambda>_. 0), tk_grip := (tk_grip k)(u := single a m)\<rparr>)"
proof (rule keepsI [OF tokens_publish [OF assms], of k a "Carried u"])
  show "has (k\<lparr>tk_carry := (tk_carry k)(u := None), tk_own := (tk_own k)(a := tk_own k a OR m),
    tk_claim := (tk_claim k)(u := \<lambda>_. 0), tk_grip := (tk_grip k)(u := single a m)\<rparr>) p c \<Longrightarrow> has k p c \<or> c = a" for p c
    by (cases p) (auto split: if_splits)
qed (use assms in simp)

lemma keeps_give:
  assumes "tokens_ok k" "tk_grip k u = single a g" "tk_claim k u = (\<lambda>_. 0)"
  shows "keeps k (k\<lparr>tk_owned := (tk_owned k)(a := tk_owned k a OR g), tk_grip := (tk_grip k)(u := \<lambda>_. 0)\<rparr>)"
  unfolding keeps_def
proof (intro conjI tokens_give [OF assms] allI impI)
  show "\<exists>p. has k p c" if "has (k\<lparr>tk_owned := (tk_owned k)(a := tk_owned k a OR g), tk_grip := (tk_grip k)(u := \<lambda>_. 0)\<rparr>) p c" for p c
    using that by (intro exI [of _ p]) (cases p; auto)
qed

lemma keeps_begin:
  assumes "tokens_ok k" "tk_owned k a AND g = g" "tk_grip k u = (\<lambda>_. 0)" "tk_claim k u = (\<lambda>_. 0)"
  shows "keeps k (k\<lparr>tk_owned := (tk_owned k)(a := tk_owned k a AND NOT g), tk_grip := (tk_grip k)(u := single a g)\<rparr>)"
  unfolding keeps_def
proof (intro conjI tokens_begin [OF assms] allI impI)
  show "\<exists>p. has k p c" if "has (k\<lparr>tk_owned := (tk_owned k)(a := tk_owned k a AND NOT g), tk_grip := (tk_grip k)(u := single a g)\<rparr>) p c" for p c
    using that by (intro exI [of _ p]) (cases p; auto)
qed

lemma keeps_share:
  assumes ok: "tokens_ok k" and g: "tk_owned k a AND g = g" "g \<noteq> 0" and idle: "tk_grip k u = (\<lambda>_. 0)" "tk_claim k u = (\<lambda>_. 0)"
    and free: "tk_taken k a AND m = 0"
  shows "keeps k (k\<lparr>tk_owned := (tk_owned k)(a := tk_owned k a AND NOT g), tk_grip := (tk_grip k)(u := single a g),
    tk_claim := (tk_claim k)(u := single a m), tk_taken := (tk_taken k)(a := tk_taken k a OR m)\<rparr>)" (is "keeps k ?k")
  unfolding keeps_def
proof (intro conjI allI impI)
  note tokens_claim [OF tokens_begin [OF ok g(1) idle], of u a m]
  then show "tokens_ok ?k"
    using idle free g(2) by simp
  show "\<exists>p. has k p c" if "has ?k p c" for p c
    using that by (intro exI [of _ p]) (cases p; auto)
qed

lemma keeps_fulfil:
  assumes "tokens_ok k" "tk_grip k u = single a g" "g \<noteq> 0" "tk_claim k u = single a m"
  shows "keeps k (k\<lparr>tk_own := (tk_own k)(a := tk_own k a OR m), tk_owned := (tk_owned k)(a := tk_owned k a OR (g OR m)),
    tk_grip := (tk_grip k)(u := \<lambda>_. 0), tk_claim := (tk_claim k)(u := \<lambda>_. 0)\<rparr>)"
proof (rule keepsI [OF tokens_fulfil [OF assms], of k a Owners])
  show "has (k\<lparr>tk_own := (tk_own k)(a := tk_own k a OR m), tk_owned := (tk_owned k)(a := tk_owned k a OR (g OR m)),
    tk_grip := (tk_grip k)(u := \<lambda>_. 0), tk_claim := (tk_claim k)(u := \<lambda>_. 0)\<rparr>) p c \<Longrightarrow> has k p c \<or> c = a" for p c
    by (cases p) (auto split: if_splits)
qed (use grasp_own [OF assms(1), of "Worker u" a] assms(2,3) in simp)

lemma keeps_clear:
  assumes "tokens_ok k" "tk_grip k u = single a m" "m \<noteq> 0" "tk_carry k u = None" "tk_claim k u = (\<lambda>_. 0)"
  shows "keeps k (k\<lparr>tk_own := (tk_own k)(a := tk_own k a AND NOT m), tk_grip := (tk_grip k)(u := \<lambda>_. 0),
    tk_taken := (tk_taken k)(a := tk_taken k a AND NOT m),
    tk_carry := (tk_carry k)(u := if tk_own k a AND NOT m = 0 then Some a else None)\<rparr>)"
proof (rule keepsI [OF tokens_clear [OF assms], of k a Owners])
  show "has (k\<lparr>tk_own := (tk_own k)(a := tk_own k a AND NOT m), tk_grip := (tk_grip k)(u := \<lambda>_. 0),
    tk_taken := (tk_taken k)(a := tk_taken k a AND NOT m),
    tk_carry := (tk_carry k)(u := if tk_own k a AND NOT m = 0 then Some a else None)\<rparr>) p c \<Longrightarrow> has k p c \<or> c = a" for p c
    by (cases p) (auto split: if_splits)
qed (use grasp_own [OF assms(1), of "Worker u" a] assms(2,3) in simp)

end
