(* ===== verification/Conc_Balloc_Inv.thy ===== *)
theory Conc_Balloc_Inv
  imports Conc_Balloc Conc_Effects Conc_Tokens
begin

text \<open>
  The invariant of every interleaving of \<open>Alloc\<close>, \<open>FreeVarying\<close> and \<open>Share\<close> when all requests have one
  rounded size: the free list and the tree keep their own invariants, every goroutine is at a place
  that fits what it knows, and the ownership protocol of Conc_Tokens is kept.
\<close>

section \<open>The invariant\<close>

text \<open>What each place means for the ownership of blocks.\<close>

fun carries :: "alloc_stage \<Rightarrow> uintptr option" where
  "carries (AllocNode a sz m) = Some a"
| "carries (AllocInsert a m) = Some a"
| "carries (FreeRead a q) = Some a"
| "carries (FreeSlot a sz) = Some a"
| "carries st = None"

fun grips :: "alloc_stage \<Rightarrow> uintptr \<Rightarrow> u64" where
  "grips (AllocCount a m) = single a m"
| "grips (FreeFind a m) = single a m"
| "grips (ShareFind a g m) = single a g"
| "grips st = (\<lambda>_. 0)"

fun claims :: "alloc_stage \<Rightarrow> uintptr \<Rightarrow> u64" where
  "claims (AllocInsert a m) = single a m"
| "claims (ShareFind a g m) = single a m"
| "claims st = (\<lambda>_. 0)"

definition conc_tokens :: "conc_state \<Rightarrow> (nat \<Rightarrow> conc_local) \<Rightarrow> tokens" where
  "conc_tokens s ls = \<lparr>
     tk_slot = (\<lambda>q. if q \<in> set (fl_handed (cs_list s)) then None else map_option slot_addr (fl_slots (cs_list s) q)),
     tk_carry = (\<lambda>u. carries (fst (ls u))), tk_own = mask_at (cs_tree s), tk_owned = cs_owned s,
     tk_grip = (\<lambda>u. grips (fst (ls u))), tk_claim = (\<lambda>u. claims (fst (ls u))), tk_taken = cs_taken s\<rparr>"

text \<open>What a goroutine knows at each place, when every request has the size \<open>n\<close>.\<close>

fun fits :: "uintptr \<Rightarrow> node_store \<Rightarrow> conc_local \<Rightarrow> bool" where
  "fits n h (AllocPop k m, lp, tp) \<longleftrightarrow> k = n \<and> pops n lp \<and> tree_done tp"
| "fits n h (AllocBump k m, lp, tp) \<longleftrightarrow> k = n \<and> list_done lp \<and> tree_done tp"
| "fits n h (AllocNode a sz m, lp, tp) \<longleftrightarrow> sz = n \<and> list_done lp \<and> tree_done tp"
| "fits n h (AllocInsert a m, lp, tp) \<longleftrightarrow> list_done lp \<and>
     (\<exists>node c. pending tp = Some node \<and> h node = Some c \<and> Addr c = a \<and> OwnerMask c = m)"
| "fits n h (FreeFind a m, lp, tp) \<longleftrightarrow> m \<noteq> 0 \<and> list_done lp \<and> walks_for h a (ThenClear m) tp"
| "fits n h (FreeRead a q, lp, tp) \<longleftrightarrow> list_done lp \<and> tree_done tp \<and> (\<exists>c. h q = Some c \<and> Addr c = a)"
| "fits n h (FreeSlot a sz, lp, tp) \<longleftrightarrow> sz = n \<and> list_done lp \<and> tree_done tp"
| "fits n h (FreePush, lp, tp) \<longleftrightarrow> puts lp \<and> tree_done tp"
| "fits n h (ShareFind a g m, lp, tp) \<longleftrightarrow> g \<noteq> 0 \<and> list_done lp \<and> walks_for h a (ThenOr m) tp"
| "fits n h (st, lp, tp) \<longleftrightarrow> list_done lp \<and> tree_done tp"

lemma fits_idle: "stage_done st \<Longrightarrow> fits n h (st, lp, tp) \<longleftrightarrow> list_done lp \<and> tree_done tp"
  by (cases st) auto

lemma stage_idle: "stage_done st \<Longrightarrow> carries st = None \<and> grips st = (\<lambda>_. 0) \<and> claims st = (\<lambda>_. 0)"
  by (cases st) auto

lemma walks_for_kept:
  assumes "nodes_kept h h'" "walks h t tp" "mem_tree h p t" "walks_for h a k tp"
  shows "walks_for h' a k tp"
proof -
  have "key h' q = key h q" if "q \<in> set_tree t" for q
    using assms(1) mem_tree_dom [OF assms(3) that] by (fastforce simp: nodes_kept_def key_def)
  then show ?thesis
    using assms(2,4) by (cases tp) auto
qed

lemma fits_kept:
  assumes kept: "nodes_kept h h'" and walks: "walks h t tp" "mem_tree h p t" and pend: "\<And>node. pending tp = Some node \<Longrightarrow> h' node = h node"
    and fits: "fits n h (st, lp, tp)"
  shows "fits n h' (st, lp, tp)"
proof (cases st)
  case (FreeRead a q)
  then show ?thesis
    using fits kept by (force simp: nodes_kept_def)
next
  case (AllocInsert a m)
  then show ?thesis
    using fits pend by fastforce
qed (use fits walks_for_kept [OF kept walks] in auto)

text \<open>The blocks that the bump pointer has cut off so far and that end inside the payload.\<close>

definition is_block :: "uintptr \<Rightarrow> uintptr \<Rightarrow> uintptr \<Rightarrow> nat \<Rightarrow> uintptr \<Rightarrow> bool" where
  "is_block pb pe n asked a \<longleftrightarrow>
     (\<exists>j. unat a = unat pb + j * unat n \<and> (j + 1) * unat n \<le> asked) \<and> unat a + unat n \<le> unat pe"

definition areas_ok :: "uintptr \<Rightarrow> uintptr \<Rightarrow> uintptr \<Rightarrow> conc_state \<Rightarrow> bool" where
  "areas_ok pb nb n s \<longleftrightarrow> cs_bump s = pb + of_nat (cs_asked s) \<and> cs_nodeBump s = nb + of_nat (cs_noded s) \<and>
     (\<exists>j. cs_asked s = j * unat n) \<and>
     (\<forall>q \<in> dom (tr_nodes (cs_tree s)) \<union> dom (fl_slots (cs_list s)). unat q < unat nb + cs_noded s)"

abbreviation list_pcs :: "(nat \<Rightarrow> conc_local) \<Rightarrow> nat \<Rightarrow> list_pc" where
  "list_pcs ls u \<equiv> fst (snd (ls u))"

abbreviation tree_pcs :: "(nat \<Rightarrow> conc_local) \<Rightarrow> nat \<Rightarrow> tree_pc" where
  "tree_pcs ls u \<equiv> snd (snd (ls u))"

definition conc_core :: "uintptr \<Rightarrow> uintptr \<Rightarrow> uintptr \<Rightarrow> uintptr \<Rightarrow> conc_state \<Rightarrow> (nat \<Rightarrow> conc_local) \<Rightarrow> bool" where
  "conc_core pb pe nb n s ls \<longleftrightarrow>
     list_inv n (cs_list s) (list_pcs ls) \<and> tree_inv (cs_tree s) (tree_pcs ls) \<and>
     (\<forall>u. fits n (tr_nodes (cs_tree s)) (ls u)) \<and>
     (\<forall>q c. tr_nodes (cs_tree s) q = Some c \<longrightarrow> Size c = n) \<and> (\<forall>q x. fl_slots (cs_list s) q = Some x \<longrightarrow> slot_size x = n) \<and>
     areas_ok pb nb n s \<and> tokens_ok (conc_tokens s ls) \<and>
     (\<forall>p a. has (conc_tokens s ls) p a \<longrightarrow> is_block pb pe n (cs_asked s) a)"

lemma conc_coreD:
  assumes "conc_core pb pe nb n s ls"
  shows "list_inv n (cs_list s) (list_pcs ls)" "tree_inv (cs_tree s) (tree_pcs ls)" "fits n (tr_nodes (cs_tree s)) (ls u)"
    "tr_nodes (cs_tree s) q = Some c \<Longrightarrow> Size c = n" "fl_slots (cs_list s) q = Some x \<Longrightarrow> slot_size x = n"
    "areas_ok pb nb n s" "tokens_ok (conc_tokens s ls)" "has (conc_tokens s ls) p a \<Longrightarrow> is_block pb pe n (cs_asked s) a"
  using assms unfolding conc_core_def by blast+

lemma is_block_mono: "is_block pb pe n k a \<Longrightarrow> k \<le> k' \<Longrightarrow> is_block pb pe n k' a"
  unfolding is_block_def using le_trans by blast

text \<open>One goroutine takes a step; the others stay where they are.\<close>

lemma conc_core_step:
  assumes core: "conc_core pb pe nb n s ls"
    and list: "list_inv n (cs_list s') ((list_pcs ls)(u := lp'))" and tree: "tree_inv (cs_tree s') ((tree_pcs ls)(u := tp'))"
    and kept: "nodes_kept (tr_nodes (cs_tree s)) (tr_nodes (cs_tree s'))"
      "\<And>v node. pending (tree_pcs ls v) = Some node \<Longrightarrow> tr_nodes (cs_tree s') node = tr_nodes (cs_tree s) node"
    and fits: "fits n (tr_nodes (cs_tree s')) (st', lp', tp')"
    and sizes: "\<And>q c. tr_nodes (cs_tree s') q = Some c \<Longrightarrow> Size c = n" "\<And>q x. fl_slots (cs_list s') q = Some x \<Longrightarrow> slot_size x = n"
    and areas: "areas_ok pb nb n s'"
    and tokens: "keeps (conc_tokens s ls) (conc_tokens s' (ls(u := (st', lp', tp')))) \<or>
      tokens_ok (conc_tokens s' (ls(u := (st', lp', tp')))) \<and>
      (\<forall>p a. has (conc_tokens s' (ls(u := (st', lp', tp')))) p a \<longrightarrow> is_block pb pe n (cs_asked s') a)"
    and mono: "cs_asked s \<le> cs_asked s'"
  shows "conc_core pb pe nb n s' (ls(u := (st', lp', tp')))"
proof -
  note D = conc_coreD [OF core]
  obtain t where t: "tree_inv_at t (cs_tree s) (tree_pcs ls)"
    using D(2) by (auto simp: tree_inv_def)
  have others: "fits n (tr_nodes (cs_tree s')) (ls v)" for v
  proof -
    obtain st lp tp where v: "ls v = (st, lp, tp)" by (cases "ls v")
    have "walks (tr_nodes (cs_tree s)) t tp"
      using tree_inv_atD(2) [OF t, of v] v by simp
    from fits_kept [OF kept(1) this tree_inv_atD(1) [OF t], of n st lp] kept(2) [of v] D(3) [of v] v show ?thesis
      by simp
  qed
  have projs: "list_pcs (ls(u := (st', lp', tp'))) = (list_pcs ls)(u := lp')" "tree_pcs (ls(u := (st', lp', tp'))) = (tree_pcs ls)(u := tp')"
    by (simp_all add: fun_eq_iff)
  have "tokens_ok (conc_tokens s' (ls(u := (st', lp', tp'))))"
    using tokens by (auto simp: keeps_def)
  moreover have "is_block pb pe n (cs_asked s') a" if "has (conc_tokens s' (ls(u := (st', lp', tp')))) p a" for p a
    using tokens that is_block_mono [OF D(8) mono] unfolding keeps_def by blast
  moreover have "fits n (tr_nodes (cs_tree s')) ((ls(u := (st', lp', tp'))) v)" for v
    using fits others by simp
  ultimately show ?thesis
    unfolding conc_core_def projs using list tree sizes areas by blast
qed

text \<open>The tokens after a step, from those before.\<close>

lemma conc_tokens_upd:
  "conc_tokens s (ls(u := (st, lp, tp))) = (conc_tokens s ls)\<lparr>tk_carry := (tk_carry (conc_tokens s ls))(u := carries st),
     tk_grip := (tk_grip (conc_tokens s ls))(u := grips st), tk_claim := (tk_claim (conc_tokens s ls))(u := claims st)\<rparr>"
  by (simp add: conc_tokens_def fun_eq_iff)

lemma conc_tokens_same:
  assumes "carries st = carries (fst (ls u))" "grips st = grips (fst (ls u))" "claims st = claims (fst (ls u))"
  shows "conc_tokens s (ls(u := (st, lp, tp))) = conc_tokens s ls"
  unfolding conc_tokens_def using assms by (auto simp: fun_eq_iff)

lemma conc_tokens_at:
  "tk_carry (conc_tokens s ls) u = carries (fst (ls u))" "tk_grip (conc_tokens s ls) u = grips (fst (ls u))"
  "tk_claim (conc_tokens s ls) u = claims (fst (ls u))" "tk_own (conc_tokens s ls) = mask_at (cs_tree s)"
  "tk_owned (conc_tokens s ls) = cs_owned s" "tk_taken (conc_tokens s ls) = cs_taken s"
  "tk_slot (conc_tokens s ls) q = (if q \<in> set (fl_handed (cs_list s)) then None else map_option slot_addr (fl_slots (cs_list s) q))"
  by (simp_all add: conc_tokens_def)

lemma conc_tokens_shared:
  assumes "\<And>q. map_option slot_addr (fl_slots (cs_list s') q) = map_option slot_addr (fl_slots (cs_list s) q)"
    "fl_handed (cs_list s') = fl_handed (cs_list s)" "mask_at (cs_tree s') = mask_at (cs_tree s)"
    "cs_owned s' = cs_owned s" "cs_taken s' = cs_taken s"
  shows "conc_tokens s' ls = conc_tokens s ls"
  unfolding conc_tokens_def assms ..

section \<open>Actions on the free list\<close>

lemma list_step:
  assumes core: "conc_core pb pe nb n s ls" and at: "ls u = (st, lp, tp)" and act: "list_act lp (cs_list s) = Some (f', lp')"
  shows "list_inv n f' ((list_pcs ls)(u := lp'))"
  using free_list.act_inv [OF conc_coreD(1) [OF core], of u f' lp'] act at by simp

lemma list_step_core:
  assumes core: "conc_core pb pe nb n s ls" and at: "ls u = (st, lp, tp)" and act: "list_act lp (cs_list s) = Some (f', lp')"
    and fits: "fits n (tr_nodes (cs_tree s)) (st', lp', tp)"
    and tokens: "keeps (conc_tokens s ls) (conc_tokens (s\<lparr>cs_list := f'\<rparr>) (ls(u := (st', lp', tp))))"
  shows "conc_core pb pe nb n (s\<lparr>cs_list := f'\<rparr>) (ls(u := (st', lp', tp)))"
proof (rule conc_core_step [OF core])
  note D = conc_coreD [OF core] and L = list_act_slots [OF act]
  show "list_inv n (cs_list (s\<lparr>cs_list := f'\<rparr>)) ((list_pcs ls)(u := lp'))"
    using list_step [OF core at act] by simp
  show "tree_inv (cs_tree (s\<lparr>cs_list := f'\<rparr>)) ((tree_pcs ls)(u := tp))"
    using D(2) at by (simp add: fun_upd_idem)
  show "areas_ok pb nb n (s\<lparr>cs_list := f'\<rparr>)"
    using D(6) L(3) by (simp add: areas_ok_def)
  show "slot_size x = n" if "fl_slots (cs_list (s\<lparr>cs_list := f'\<rparr>)) q = Some x" for q x
    using that L(2) [of q] D(5) [of q] by (cases "fl_slots (cs_list s) q") auto
qed (use conc_coreD(4) [OF core] fits tokens in \<open>simp_all add: nodes_kept_refl\<close>)

lemma core_AllocPop:
  assumes core: "conc_core pb pe nb n s ls" and at: "ls u = (AllocPop k m, lp, tp)" and act: "conc_act pe ne (ls u) s = Some (s', l')"
  shows "conc_core pb pe nb n s' (ls(u := l'))"
proof -
  note D = conc_coreD [OF core]
  obtain f' lp' where la: "list_act lp (cs_list s) = Some (f', lp')" and r: "s' = s\<lparr>cs_list := f'\<rparr>" "l' = (popped k m lp', lp', tp)"
    using act at by auto
  have shape: "k = n" "pops n lp" "tree_done tp"
    using D(3) [of u] at by simp_all
  note L = list_act_slots [OF la]
  show ?thesis
    unfolding r
  proof (rule list_step_core [OF core at la])
    show "fits n (tr_nodes (cs_tree s)) (popped k m lp', lp', tp)"
      by (rule list_act_pops [OF shape(2) la D(5)]) (use shape in \<open>cases lp'; auto\<close>)+
    show "keeps (conc_tokens s ls) (conc_tokens (s\<lparr>cs_list := f'\<rparr>) (ls(u := (popped k m lp', lp', tp))))"
    proof (rule list_act_pops [OF shape(2) la D(5)])
      assume "pops n lp' \<or> lp' = PopReturned None" "fl_handed f' = fl_handed (cs_list s)"
      then have "conc_tokens (s\<lparr>cs_list := f'\<rparr>) (ls(u := (popped k m lp', lp', tp))) = conc_tokens (s\<lparr>cs_list := f'\<rparr>) ls"
        by (intro conc_tokens_same) (use at in \<open>cases lp'; auto\<close>)+
      moreover have "conc_tokens (s\<lparr>cs_list := f'\<rparr>) ls = conc_tokens s ls"
        by (rule conc_tokens_shared) (use L(1) \<open>fl_handed f' = fl_handed (cs_list s)\<close> in auto)
      ultimately show ?thesis
        using keeps_same [OF D(7)] by simp
    next
      fix q x assume q: "lp' = PopReturned (Some (slot_addr x, n))" "fl_slots (cs_list s) q = Some x" "fl_handed f' = q # fl_handed (cs_list s)"
      obtain xs where "list_inv_at n xs f' ((list_pcs ls)(u := lp'))"
        using list_step [OF core at la] by (auto simp: list_inv_def)
      from list_inv_atD(2) [OF this] have out: "q \<notin> set (fl_handed (cs_list s))"
        using q(3) by simp
      have "conc_tokens (s\<lparr>cs_list := f'\<rparr>) (ls(u := (popped k m lp', lp', tp))) = (conc_tokens s ls)\<lparr>
          tk_slot := (tk_slot (conc_tokens s ls))(q := None), tk_carry := (tk_carry (conc_tokens s ls))(u := Some (slot_addr x))\<rparr>"
        unfolding conc_tokens_def using q L(1) at by (auto simp: fun_eq_iff)
      then show ?thesis
        using keeps_take [OF D(7), of q "slot_addr x" u] q out at by (simp add: conc_tokens_at)
    qed
  qed
qed

lemma core_FreePush:
  assumes core: "conc_core pb pe nb n s ls" and at: "ls u = (FreePush, lp, tp)" and act: "conc_act pe ne (ls u) s = Some (s', l')"
  shows "conc_core pb pe nb n s' (ls(u := l'))"
proof -
  note D = conc_coreD [OF core]
  obtain f' lp' where la: "list_act lp (cs_list s) = Some (f', lp')" and r: "s' = s\<lparr>cs_list := f'\<rparr>"
      "l' = (if list_done lp' then FreeCount else FreePush, lp', tp)"
    using act at by auto
  have shape: "puts lp" "tree_done tp"
    using D(3) [of u] at by simp_all
  note P = list_act_puts [OF shape(1) la] and L = list_act_slots [OF la]
  show ?thesis
    unfolding r
  proof (rule list_step_core [OF core at la])
    have "conc_tokens (s\<lparr>cs_list := f'\<rparr>) (ls(u := (if list_done lp' then FreeCount else FreePush, lp', tp))) = conc_tokens (s\<lparr>cs_list := f'\<rparr>) ls"
      by (rule conc_tokens_same) (use at in auto)
    also have "\<dots> = conc_tokens s ls"
      by (rule conc_tokens_shared) (use L(1) P in auto)
    finally show "keeps (conc_tokens s ls) (conc_tokens (s\<lparr>cs_list := f'\<rparr>) (ls(u := (if list_done lp' then FreeCount else FreePush, lp', tp))))"
      using keeps_same [OF D(7)] by simp
  qed (use P shape in auto)
qed

section \<open>Actions on the bump pointers and the counter\<close>

text \<open>A step that leaves the list and the tree alone.\<close>

lemma local_step_core:
  assumes core: "conc_core pb pe nb n s ls" and at: "ls u = (st, lp, tp)"
    and same: "cs_list s' = cs_list s" "cs_tree s' = cs_tree s" and fits: "fits n (tr_nodes (cs_tree s)) (st', lp, tp)"
    and areas: "areas_ok pb nb n s'" "cs_asked s \<le> cs_asked s'"
    and tokens: "keeps (conc_tokens s ls) (conc_tokens s' (ls(u := (st', lp, tp)))) \<or>
      tokens_ok (conc_tokens s' (ls(u := (st', lp, tp)))) \<and>
      (\<forall>p a. has (conc_tokens s' (ls(u := (st', lp, tp)))) p a \<longrightarrow> is_block pb pe n (cs_asked s') a)"
  shows "conc_core pb pe nb n s' (ls(u := (st', lp, tp)))"
proof (rule conc_core_step [OF core _ _ _ _ _ _ _ areas(1) tokens areas(2)])
  note D = conc_coreD [OF core]
  show "list_inv n (cs_list s') ((list_pcs ls)(u := lp))" "tree_inv (cs_tree s') ((tree_pcs ls)(u := tp))"
    using D(1,2) at same by (simp_all add: fun_upd_idem)
qed (use conc_coreD(4,5) [OF core] same fits in \<open>simp_all add: nodes_kept_refl\<close>)

lemma core_AllocCount:
  assumes core: "conc_core pb pe nb n s ls" and at: "ls u = (AllocCount a m, lp, tp)" and act: "conc_act pe ne (ls u) s = Some (s', l')"
  shows "conc_core pb pe nb n s' (ls(u := l'))"
proof -
  note D = conc_coreD [OF core]
  have r: "s' = s\<lparr>cs_active := cs_active s + 1, cs_owned := (cs_owned s)(a := cs_owned s a OR m)\<rparr>" "l' = (AllocReturned a, lp, tp)"
    using act at by simp_all
  show ?thesis
    unfolding r(2)
  proof (rule local_step_core [OF core at])
    have "conc_tokens s' (ls(u := (AllocReturned a, lp, tp))) = (conc_tokens s ls)\<lparr>
        tk_owned := (tk_owned (conc_tokens s ls))(a := tk_owned (conc_tokens s ls) a OR m), tk_grip := (tk_grip (conc_tokens s ls))(u := \<lambda>_. 0)\<rparr>"
      unfolding conc_tokens_def r(1) using at by (auto simp: fun_eq_iff)
    then show "keeps (conc_tokens s ls) (conc_tokens s' (ls(u := (AllocReturned a, lp, tp)))) \<or>
        tokens_ok (conc_tokens s' (ls(u := (AllocReturned a, lp, tp)))) \<and>
        (\<forall>p c. has (conc_tokens s' (ls(u := (AllocReturned a, lp, tp)))) p c \<longrightarrow> is_block pb pe n (cs_asked s') c)"
      using keeps_give [OF D(7), of u a m] at by (simp add: conc_tokens_at)
  qed (use D(3) [of u] D(6) at in \<open>simp_all add: r(1) areas_ok_def\<close>)
qed

lemma core_FreeRead:
  assumes core: "conc_core pb pe nb n s ls" and at: "ls u = (FreeRead a q, lp, tp)" and act: "conc_act pe ne (ls u) s = Some (s', l')"
  shows "conc_core pb pe nb n s' (ls(u := l'))"
proof -
  note D = conc_coreD [OF core]
  obtain c where c: "tr_nodes (cs_tree s) q = Some c" "Addr c = a"
    using D(3) [of u] at by auto
  have r: "s' = s" "l' = (FreeSlot a n, lp, tp)"
    using act at c D(4) [OF c(1)] by simp_all
  show ?thesis
    unfolding r
  proof (rule local_step_core [OF core at])
    have "conc_tokens s (ls(u := (FreeSlot a n, lp, tp))) = conc_tokens s ls"
      by (rule conc_tokens_same) (use at in auto)
    then show "keeps (conc_tokens s ls) (conc_tokens s (ls(u := (FreeSlot a n, lp, tp)))) \<or>
        tokens_ok (conc_tokens s (ls(u := (FreeSlot a n, lp, tp)))) \<and>
        (\<forall>p c. has (conc_tokens s (ls(u := (FreeSlot a n, lp, tp)))) p c \<longrightarrow> is_block pb pe n (cs_asked s) c)"
      using keeps_same [OF D(7)] by simp
  qed (use D(3) [of u] D(6) at in simp_all)
qed

lemma core_FreeCount:
  assumes core: "conc_core pb pe nb n s ls" and at: "ls u = (FreeCount, lp, tp)" and act: "conc_act pe ne (ls u) s = Some (s', l')"
  shows "conc_core pb pe nb n s' (ls(u := l'))"
proof -
  note D = conc_coreD [OF core]
  have r: "s' = s\<lparr>cs_active := cs_active s + NOT 0\<rparr>" "l' = (FreeReturned True, lp, tp)"
    using act at by simp_all
  show ?thesis
    unfolding r(2)
  proof (rule local_step_core [OF core at])
    have "conc_tokens s' (ls(u := (FreeReturned True, lp, tp))) = conc_tokens s' ls"
      by (rule conc_tokens_same) (use at in auto)
    also have "\<dots> = conc_tokens s ls"
      by (rule conc_tokens_shared) (simp_all add: r(1))
    finally show "keeps (conc_tokens s ls) (conc_tokens s' (ls(u := (FreeReturned True, lp, tp)))) \<or>
        tokens_ok (conc_tokens s' (ls(u := (FreeReturned True, lp, tp)))) \<and>
        (\<forall>p c. has (conc_tokens s' (ls(u := (FreeReturned True, lp, tp)))) p c \<longrightarrow> is_block pb pe n (cs_asked s') c)"
      using keeps_same [OF D(7)] by simp
  qed (use D(3) [of u] D(6) at in \<open>simp_all add: r(1) areas_ok_def\<close>)
qed

text \<open>The block that the bump pointer cuts off is new.\<close>

lemma bump_exact:
  assumes "areas_ok pb nb n s" "unat pb + cs_asked s < 2 ^ 64"
  shows "unat (cs_bump s) = unat pb + cs_asked s"
proof -
  have "unat (of_nat (cs_asked s) :: u64) = cs_asked s"
    using assms(2) by (simp add: unat_of_nat take_bit_nat_eq_self)
  then show ?thesis
    using assms unat_add_u64 [of pb "of_nat (cs_asked s)"] by (simp add: areas_ok_def)
qed

lemma new_block:
  assumes "areas_ok pb nb n s" "unat pb + (cs_asked s + unat n) < 2 ^ 64" "n \<noteq> 0"
  shows "is_block pb pe n (cs_asked s) a \<Longrightarrow> a \<noteq> cs_bump s"
    "\<not> cs_bump s + n > pe \<Longrightarrow> is_block pb pe n (cs_asked s + unat n) (cs_bump s)"
proof -
  have b: "unat (cs_bump s) = unat pb + cs_asked s"
    by (rule bump_exact [OF assms(1)]) (use assms(2) in simp)
  have pos: "0 < unat n"
    using assms(3) by (simp add: unat_gt_0)
  show "a \<noteq> cs_bump s" if "is_block pb pe n (cs_asked s) a"
  proof
    assume "a = cs_bump s"
    with that b obtain j where "cs_asked s = j * unat n" "(j + 1) * unat n \<le> cs_asked s"
      by (auto simp: is_block_def)
    with pos show False by simp
  qed
  have "unat (cs_bump s + n) = unat pb + cs_asked s + unat n"
    using unat_add_u64 [of "cs_bump s" n] b assms(2) by simp
  moreover obtain j where "cs_asked s = j * unat n"
    using assms(1) by (auto simp: areas_ok_def)
  ultimately show "is_block pb pe n (cs_asked s + unat n) (cs_bump s)" if "\<not> cs_bump s + n > pe"
    using that b by (auto simp: is_block_def word_nat intro!: exI [of _ j])
qed

lemma core_AllocBump:
  assumes core: "conc_core pb pe nb n s ls" and at: "ls u = (AllocBump k m, lp, tp)" and act: "conc_act pe ne (ls u) s = Some (s', l')"
    and n: "n \<noteq> 0" and room: "unat pb + cs_asked s' < 2 ^ 64"
  shows "conc_core pb pe nb n s' (ls(u := l'))"
proof -
  note D = conc_coreD [OF core]
  have k: "k = n" "list_done lp" "tree_done tp"
    using D(3) [of u] at by simp_all
  have s': "s' = s\<lparr>cs_bump := cs_bump s + n, cs_asked := cs_asked s + unat n\<rparr>"
    and l': "l' = (if cs_bump s + n > pe then AllocFailed else AllocNode (cs_bump s) n m, lp, tp)"
    using act at k by (auto simp: Let_def)
  note new = new_block [OF D(6) _ n]
  have room': "unat pb + (cs_asked s + unat n) < 2 ^ 64"
    using room s' by simp
  have areas: "areas_ok pb nb n s'"
  proof -
    obtain j where "cs_asked s = j * unat n"
      using D(6) by (auto simp: areas_ok_def)
    then have "\<exists>j. cs_asked s' = j * unat n"
      by (intro exI [of _ "Suc j"]) (simp add: s')
    then show ?thesis
      using D(6) by (simp add: areas_ok_def s')
  qed
  let ?k = "conc_tokens s ls"
  show ?thesis
  proof (cases "cs_bump s + n > pe")
    case True
    have "conc_tokens s' (ls(u := (AllocFailed, lp, tp))) = conc_tokens s' ls"
      by (rule conc_tokens_same) (use at in auto)
    also have "\<dots> = ?k"
      by (rule conc_tokens_shared) (simp_all add: s')
    finally have "keeps ?k (conc_tokens s' (ls(u := (AllocFailed, lp, tp))))"
      using keeps_same [OF D(7)] by simp
    then show ?thesis
      using True k areas unfolding l' by (simp del: fun_upd_apply) (intro local_step_core [OF core at], simp_all add: s')
  next
    case False
    have eq: "conc_tokens s' (ls(u := (AllocNode (cs_bump s) n m, lp, tp))) = ?k\<lparr>tk_carry := (tk_carry ?k)(u := Some (cs_bump s))\<rparr>" (is "?t = _")
      unfolding conc_tokens_def s' using at by (auto simp: fun_eq_iff)
    have fresh: "\<forall>p. \<not> has ?k p (cs_bump s)"
      using new(1) [OF room'] D(8) by blast
    have "tokens_ok ?t"
      unfolding eq by (rule tokens_new [OF D(7) fresh]) (use at in \<open>simp add: conc_tokens_at\<close>)
    moreover have "is_block pb pe n (cs_asked s') a" if "has ?t p a" for p a
    proof -
      have "has ?k p a \<or> a = cs_bump s"
        using that unfolding eq by (cases p) (auto split: if_splits)
      then show ?thesis
        using is_block_mono [OF D(8)] new(2) [OF room' False] by (auto simp: s')
    qed
    ultimately show ?thesis
      using False k areas unfolding l' by (simp del: fun_upd_apply) (intro local_step_core [OF core at], simp_all add: s')
  qed
qed

text \<open>The memory that the node bump pointer cuts off is new as well.\<close>

lemma node_bump_fresh:
  assumes areas: "areas_ok pb nb n s" and room: "unat nb + cs_noded s < 2 ^ 64" and nb: "nb \<noteq> 0"
  shows "cs_nodeBump s \<noteq> 0" "tr_nodes (cs_tree s) (cs_nodeBump s) = None" "fl_slots (cs_list s) (cs_nodeBump s) = None"
    "unat (cs_nodeBump s) = unat nb + cs_noded s"
proof -
  have "unat (of_nat (cs_noded s) :: u64) = cs_noded s"
    using room by (simp add: unat_of_nat take_bit_nat_eq_self)
  then show b: "unat (cs_nodeBump s) = unat nb + cs_noded s"
    using areas room unat_add_u64 [of nb "of_nat (cs_noded s)"] by (simp add: areas_ok_def)
  have "0 < unat nb"
    using nb by (simp add: unat_gt_0)
  with b have "0 < unat (cs_nodeBump s)"
    by linarith
  then show "cs_nodeBump s \<noteq> 0"
    by (simp add: unat_gt_0)
  have "cs_nodeBump s \<notin> dom (tr_nodes (cs_tree s)) \<union> dom (fl_slots (cs_list s))"
    using areas b by (force simp: areas_ok_def)
  then show "tr_nodes (cs_tree s) (cs_nodeBump s) = None" "fl_slots (cs_list s) (cs_nodeBump s) = None"
    by (auto simp: domIff)
qed

lemma areas_grow:
  assumes areas: "areas_ok pb nb n s" and s': "cs_bump s' = cs_bump s" "cs_asked s' = cs_asked s"
      "cs_nodeBump s' = cs_nodeBump s + of_nat w" "cs_noded s' = cs_noded s + w"
    and new: "\<And>q. q \<in> dom (tr_nodes (cs_tree s')) \<union> dom (fl_slots (cs_list s')) \<Longrightarrow>
      q \<in> dom (tr_nodes (cs_tree s)) \<union> dom (fl_slots (cs_list s)) \<or> unat q = unat nb + cs_noded s \<and> 0 < w"
  shows "areas_ok pb nb n s'"
proof -
  have "unat q < unat nb + cs_noded s'" if "q \<in> dom (tr_nodes (cs_tree s')) \<union> dom (fl_slots (cs_list s'))" for q
    using new [OF that]
  proof
    assume "q \<in> dom (tr_nodes (cs_tree s)) \<union> dom (fl_slots (cs_list s))"
    then have "unat q < unat nb + cs_noded s"
      using areas by (simp add: areas_ok_def)
    then show ?thesis
      using s'(4) by simp
  qed (use s'(4) in simp)
  then show ?thesis
    using areas s' unfolding areas_ok_def by simp
qed

lemma core_node_failed:
  assumes core: "conc_core pb pe nb n s ls" and at: "ls u = (st, lp, tp)"
    and carry: "carries st = Some a" "grips st = (\<lambda>_. 0)" "claims st = (\<lambda>_. 0)"
    and failed: "stage_done st'" "list_done lp" "tree_done tp" and w: "unat (of_nat w :: u64) = w"
  shows "conc_core pb pe nb n (s\<lparr>cs_nodeBump := cs_nodeBump s + of_nat w, cs_noded := cs_noded s + w\<rparr>) (ls(u := (st', lp, tp)))"
proof -
  note D = conc_coreD [OF core]
  let ?s = "s\<lparr>cs_nodeBump := cs_nodeBump s + of_nat w, cs_noded := cs_noded s + w\<rparr>"
  note idle = stage_idle [OF failed(1)]
  have "conc_tokens ?s (ls(u := (st', lp, tp))) = (conc_tokens s ls)\<lparr>tk_carry := (tk_carry (conc_tokens s ls))(u := None)\<rparr>"
    unfolding conc_tokens_def using at carry idle by (auto simp: fun_eq_iff)
  then have "keeps (conc_tokens s ls) (conc_tokens ?s (ls(u := (st', lp, tp))))"
    using keeps_drop [OF D(7), of u a] at carry by (simp add: conc_tokens_at)
  moreover have "areas_ok pb nb n ?s"
    by (rule areas_grow [OF D(6), of _ w]) simp_all
  ultimately show ?thesis
    using failed fits_idle [OF failed(1)] by (intro local_step_core [OF core at]) simp_all
qed

lemma core_AllocNode:
  assumes core: "conc_core pb pe nb n s ls" and at: "ls u = (AllocNode a sz m, lp, tp)" and act: "conc_act pe ne (ls u) s = Some (s', l')"
    and nb: "nb \<noteq> 0" and room: "unat nb + cs_noded s' < 2 ^ 64"
  shows "conc_core pb pe nb n s' (ls(u := l'))"
proof -
  note D = conc_coreD [OF core]
  have k: "sz = n" "list_done lp" "tree_done tp"
    using D(3) [of u] at by simp_all
  let ?w = "normalizeMask m" and ?raw = "cs_nodeBump s"
  let ?c = "\<lparr>Addr = a, Size = n, OwnerMask = ?w, Left = 0, Right = 0\<rparr>"
  show ?thesis
  proof (cases "?raw + 40 > ne")
    case True
    then have "s' = s\<lparr>cs_nodeBump := ?raw + of_nat 40, cs_noded := cs_noded s + 40\<rparr>" "l' = (AllocFailed, lp, tp)"
      using act at k by (simp_all add: Let_def sizeof_BallocNode_def)
    then show ?thesis
      using core_node_failed [OF core at, of a AllocFailed 40] k by simp
  next
    case False
    then have s': "s' = s\<lparr>cs_nodeBump := ?raw + 40, cs_noded := cs_noded s + 40, cs_tree := set_node (cs_tree s) ?raw ?c,
        cs_taken := (cs_taken s)(a := ?w)\<rparr>" and l': "l' = (AllocInsert a ?w, lp, InsRoot ?raw)"
      using act at k by (simp_all add: Let_def sizeof_BallocNode_def)
    have "unat nb + cs_noded s < 2 ^ 64"
      using room s' by simp
    note fresh = node_bump_fresh [OF D(6) this nb]
    obtain t where t: "tree_inv_at t (cs_tree s) (tree_pcs ls)"
      using D(2) by (auto simp: tree_inv_def)
    have call: "tree_call (cs_tree s) tp (set_node (cs_tree s) ?raw ?c) (InsRoot ?raw)"
      using k fresh by (intro call_insert) auto
    show ?thesis
      unfolding l'
    proof (rule conc_core_step [OF core])
      show "list_inv n (cs_list s') ((list_pcs ls)(u := lp))"
        using D(1) at s' by (simp add: fun_upd_idem)
      show "tree_inv (cs_tree s') ((tree_pcs ls)(u := InsRoot ?raw))"
        using tree_call_inv [OF t, of u] call at s' by simp
      show "nodes_kept (tr_nodes (cs_tree s)) (tr_nodes (cs_tree s'))"
        unfolding s' using nodes_kept_fresh [where h = "tr_nodes (cs_tree s)", OF fresh(2)] by (simp add: set_node_def)
      show "tr_nodes (cs_tree s') node = tr_nodes (cs_tree s) node" if "pending (tree_pcs ls v) = Some node" for v node
        using tree_inv_atD(3) [OF t that] fresh(2) s' by (auto simp: set_node_def new_node_def)
      show "fits n (tr_nodes (cs_tree s')) (AllocInsert a ?w, lp, InsRoot ?raw)"
        using k s' by (simp add: set_node_def)
      show "Size c = n" if "tr_nodes (cs_tree s') q = Some c" for q c
        using that D(4) [of q c] s' by (auto simp: set_node_def split: if_splits)
      show "areas_ok pb nb n s'"
        by (rule areas_grow [OF D(6), of _ 40]) (use fresh(4) s' in \<open>auto simp: set_node_def\<close>)
      have "mask_at (cs_tree s') = mask_at (cs_tree s)"
        using mask_at_fresh [OF tree_inv_atD(1) [OF t] fresh(2)] s' by simp
      then have "conc_tokens s' (ls(u := (AllocInsert a ?w, lp, InsRoot ?raw))) = (conc_tokens s ls)\<lparr>
          tk_claim := (tk_claim (conc_tokens s ls))(u := single a ?w), tk_taken := (tk_taken (conc_tokens s ls))(a := ?w)\<rparr>"
        unfolding conc_tokens_def using at s' by (auto simp: fun_eq_iff)
      then show "keeps (conc_tokens s ls) (conc_tokens s' (ls(u := (AllocInsert a ?w, lp, InsRoot ?raw)))) \<or>
          tokens_ok (conc_tokens s' (ls(u := (AllocInsert a ?w, lp, InsRoot ?raw)))) \<and>
          (\<forall>p c. has (conc_tokens s' (ls(u := (AllocInsert a ?w, lp, InsRoot ?raw)))) p c \<longrightarrow> is_block pb pe n (cs_asked s') c)"
        using keeps_prepare [OF D(7), of u a ?w] at by (simp add: conc_tokens_at)
    qed (use D(5) s' in auto)
  qed
qed

lemma core_FreeSlot:
  assumes core: "conc_core pb pe nb n s ls" and at: "ls u = (FreeSlot a sz, lp, tp)" and act: "conc_act pe ne (ls u) s = Some (s', l')"
    and nb: "nb \<noteq> 0" and room: "unat nb + cs_noded s' < 2 ^ 64"
  shows "conc_core pb pe nb n s' (ls(u := l'))"
proof -
  note D = conc_coreD [OF core]
  have k: "sz = n" "list_done lp" "tree_done tp"
    using D(3) [of u] at by simp_all
  let ?raw = "cs_nodeBump s"
  let ?x = "\<lparr>slot_addr = a, slot_size = n, slot_next = 0\<rparr>"
  show ?thesis
  proof (cases "?raw + 24 > ne")
    case True
    then have "s' = s\<lparr>cs_nodeBump := ?raw + of_nat 24, cs_noded := cs_noded s + 24\<rparr>" "l' = (FreeFailed, lp, tp)"
      using act at k by (simp_all add: Let_def sizeof_freeSlot_def)
    then show ?thesis
      using core_node_failed [OF core at, of a FreeFailed 24] k by simp
  next
    case False
    let ?f = "(cs_list s)\<lparr>fl_slots := (fl_slots (cs_list s))(?raw \<mapsto> ?x)\<rparr>"
    have s': "s' = s\<lparr>cs_nodeBump := ?raw + 24, cs_noded := cs_noded s + 24, cs_list := ?f\<rparr>" and l': "l' = (FreePush, PushLoad ?raw Freed, tp)"
      using False act at k by (simp_all add: Let_def sizeof_freeSlot_def)
    have "unat nb + cs_noded s < 2 ^ 64"
      using room s' by simp
    note fresh = node_bump_fresh [OF D(6) this nb]
    obtain xs where xs: "list_inv_at n xs (cs_list s) (list_pcs ls)"
      using D(1) by (auto simp: list_inv_def)
    have out: "?raw \<notin> set (fl_handed (cs_list s))"
      using list_inv_atD(3) [OF xs, of ?raw] fresh(3) by auto
    have call: "list_call (\<lambda>sz. n \<le> sz) (\<lambda>sz. sz \<le> n) (cs_list s) lp ?f (PushLoad ?raw Freed)"
      using k fresh by (intro call_push) auto
    show ?thesis
      unfolding l'
    proof (rule conc_core_step [OF core])
      show "list_inv n (cs_list s') ((list_pcs ls)(u := PushLoad ?raw Freed))"
        using list_call_inv [OF xs, of u] call at s' by simp
      show "tree_inv (cs_tree s') ((tree_pcs ls)(u := tp))"
        using D(2) at s' by (simp add: fun_upd_idem)
      show "slot_size x = n" if "fl_slots (cs_list s') q = Some x" for q x
        using that D(5) [of q x] s' by (auto split: if_splits)
      show "areas_ok pb nb n s'"
        by (rule areas_grow [OF D(6), of _ 24]) (use fresh(4) s' in auto)
      have "conc_tokens s' (ls(u := (FreePush, PushLoad ?raw Freed, tp))) = (conc_tokens s ls)\<lparr>
          tk_slot := (tk_slot (conc_tokens s ls))(?raw := Some a), tk_carry := (tk_carry (conc_tokens s ls))(u := None)\<rparr>"
        unfolding conc_tokens_def using at s' out by (auto simp: fun_eq_iff)
      then show "keeps (conc_tokens s ls) (conc_tokens s' (ls(u := (FreePush, PushLoad ?raw Freed, tp)))) \<or>
          tokens_ok (conc_tokens s' (ls(u := (FreePush, PushLoad ?raw Freed, tp)))) \<and>
          (\<forall>p c. has (conc_tokens s' (ls(u := (FreePush, PushLoad ?raw Freed, tp)))) p c \<longrightarrow> is_block pb pe n (cs_asked s') c)"
        using keeps_put [OF D(7), of u a ?raw] at fresh(3) by (simp add: conc_tokens_at)
    qed (use D(4) k s' in \<open>auto simp: nodes_kept_refl\<close>)
  qed
qed

section \<open>Actions on the tree\<close>

lemma tree_step_core:
  assumes core: "conc_core pb pe nb n s ls" and at: "ls u = (st, lp, tp)" and act: "tree_act True tp (cs_tree s) = Some (tr, tp')"
    and s': "cs_list s' = cs_list s" "cs_tree s' = tr" "cs_bump s' = cs_bump s" "cs_nodeBump s' = cs_nodeBump s"
      "cs_asked s' = cs_asked s" "cs_noded s' = cs_noded s"
    and fits: "fits n (tr_nodes tr) (st', lp, tp')"
    and tokens: "keeps (conc_tokens s ls) (conc_tokens s' (ls(u := (st', lp, tp'))))"
  shows "conc_core pb pe nb n s' (ls(u := (st', lp, tp')))"
proof -
  note D = conc_coreD [OF core]
  obtain t where t: "tree_inv_at t (cs_tree s) (tree_pcs ls)"
    using D(2) by (auto simp: tree_inv_def)
  have act': "tree_act True (tree_pcs ls u) (cs_tree s) = Some (tr, tp')"
    using act at by simp
  note N = tree_act_nodes [OF act]
  show ?thesis
  proof (rule conc_core_step [OF core])
    show "list_inv n (cs_list s') ((list_pcs ls)(u := lp))"
      using D(1) at s' by (simp add: fun_upd_idem)
    show "tree_inv (cs_tree s') ((tree_pcs ls)(u := tp'))"
      unfolding s'(2) by (rule conc_tree.act_inv [OF D(2) act'])
    show "tr_nodes (cs_tree s') node = tr_nodes (cs_tree s) node" if "pending (tree_pcs ls v) = Some node" for v node
      unfolding s'(2) by (rule tree_act_pending [OF t act' that])
    show "Size c = n" if "tr_nodes (cs_tree s') q = Some c" for q c
      using that N(3) [of n q c] D(4) s' by simp
    show "areas_ok pb nb n s'"
      using D(6) N(2) s' by (simp add: areas_ok_def)
  qed (use N(1) D(5) fits tokens s' in simp_all)
qed

lemma core_AllocInsert:
  assumes core: "conc_core pb pe nb n s ls" and at: "ls u = (AllocInsert a m, lp, tp)" and act: "conc_act pe ne (ls u) s = Some (s', l')"
  shows "conc_core pb pe nb n s' (ls(u := l'))"
proof -
  note D = conc_coreD [OF core]
  obtain tr tp' where ta: "tree_act True tp (cs_tree s) = Some (tr, tp')" and s': "s' = s\<lparr>cs_tree := tr\<rparr>"
    and l': "l' = (if tree_done tp' then AllocCount a m else AllocInsert a m, lp, tp')"
    using act at by auto
  obtain node c where node: "pending tp = Some node" "tr_nodes (cs_tree s) node = Some c" "Addr c = a" "OwnerMask c = m" and lp: "list_done lp"
    using D(3) [of u] at by auto
  obtain t where t: "tree_inv_at t (cs_tree s) (tree_pcs ls)"
    using D(2) by (auto simp: tree_inv_def)
  have ta': "tree_act True (tree_pcs ls u) (cs_tree s) = Some (tr, tp')"
    using ta at by simp
  note masks = tree_act_masks [OF t ta'] and go = insert_goes_on [OF ta node(1)]
  have kept: "tr_nodes tr node = Some c"
    using tree_act_pending [OF t ta', of u node] node at by simp
  show ?thesis
  proof (cases "tree_done tp'")
    case True
    then obtain p where p: "tp' = InsReturned node p"
      using go by auto
    then have "mask_at tr = (mask_at (cs_tree s))(a := mask_at (cs_tree s) a OR m)"
      using masks node by (simp add: key_def)
    then have "conc_tokens s' (ls(u := (AllocCount a m, lp, tp'))) = (conc_tokens s ls)\<lparr>
        tk_carry := (tk_carry (conc_tokens s ls))(u := None), tk_own := (tk_own (conc_tokens s ls))(a := tk_own (conc_tokens s ls) a OR m),
        tk_claim := (tk_claim (conc_tokens s ls))(u := \<lambda>_. 0), tk_grip := (tk_grip (conc_tokens s ls))(u := single a m)\<rparr>"
      unfolding conc_tokens_def using at s' by (auto simp: fun_eq_iff)
    then have "keeps (conc_tokens s ls) (conc_tokens s' (ls(u := (AllocCount a m, lp, tp'))))"
      using keeps_publish [OF D(7), of u a m] at by (simp add: conc_tokens_at)
    then show ?thesis
      using True lp l' s' by (simp del: fun_upd_apply) (intro tree_step_core [OF core at ta], simp_all)
  next
    case False
    then have "mask_at tr = mask_at (cs_tree s)"
      using masks go at by (cases tp'; cases tp; auto)
    moreover have "conc_tokens s' (ls(u := (AllocInsert a m, lp, tp'))) = conc_tokens s' ls"
      by (rule conc_tokens_same) (use at in auto)
    moreover have "conc_tokens s' ls = conc_tokens s ls" if "mask_at tr = mask_at (cs_tree s)"
      by (rule conc_tokens_shared) (use s' that in simp_all)
    ultimately have "keeps (conc_tokens s ls) (conc_tokens s' (ls(u := (AllocInsert a m, lp, tp'))))"
      using keeps_same [OF D(7)] by simp
    then show ?thesis
      using False lp l' s' go kept node by (simp del: fun_upd_apply) (intro tree_step_core [OF core at ta], simp_all)
  qed
qed

text \<open>A goroutine that works for an owner of the block finds its node.\<close>

lemma owner_mask:
  assumes core: "conc_core pb pe nb n s ls" and "grips (fst (ls u)) a \<noteq> 0"
  shows "mask_at (cs_tree s) a \<noteq> 0"
  using grasp_own [OF conc_coreD(7) [OF core], of "Worker u" a] assms(2) by (simp add: conc_tokens_at)

text \<open>The action that clears owner bits leaves the bits of the other owners.\<close>

lemma clear_masks:
  assumes core: "conc_core pb pe nb n s ls" and at: "ls u = (FreeFind a m, lp, tp)"
    and act: "tree_act True tp (cs_tree s) = Some (tr, tp')" and tp': "tp' = ClearReturned q r"
  shows "r = mask_at (cs_tree s) a AND NOT m" "mask_at tr = (mask_at (cs_tree s))(a := r)" "\<exists>c. tr_nodes tr q = Some c \<and> Addr c = a"
proof -
  note D = conc_coreD [OF core]
  obtain t where t: "tree_inv_at t (cs_tree s) (tree_pcs ls)"
    using D(2) by (auto simp: tree_inv_def)
  have walk: "walks_for (tr_nodes (cs_tree s)) a (ThenClear m) tp"
    using D(3) [of u] at by simp
  then obtain current c where tp: "tp = ClearCas q m current" "key (tr_nodes (cs_tree s)) q = a" "tr_nodes (cs_tree s) q = Some c"
    using act tp' by (cases tp) (auto simp: Let_def split: option.splits if_splits find_then.splits)
  have at': "tree_pcs ls u = ClearCas q m current" "tree_act True (tree_pcs ls u) (cs_tree s) = Some (tr, ClearReturned q r)"
    using at tp act tp' by simp_all
  from clear_result [OF t this] tp(2) show "r = mask_at (cs_tree s) a AND NOT m"
    by simp
  show "mask_at tr = (mask_at (cs_tree s))(a := r)"
    using tree_act_masks [OF t at'(2)] at'(1) tp(2) by simp
  show "\<exists>c. tr_nodes tr q = Some c \<and> Addr c = a"
    using tree_act_nodes(1) [OF act] tp(2,3) by (auto simp: nodes_kept_def key_def)
qed

lemma core_FreeFind:
  assumes core: "conc_core pb pe nb n s ls" and at: "ls u = (FreeFind a m, lp, tp)" and act: "conc_act pe ne (ls u) s = Some (s', l')"
  shows "conc_core pb pe nb n s' (ls(u := l')) \<and> fst l' \<noteq> FreeFailed"
proof -
  note D = conc_coreD [OF core]
  obtain tr tp' where ta: "tree_act True tp (cs_tree s) = Some (tr, tp')"
    and s': "s' = s\<lparr>cs_tree := tr, cs_taken := taken_after a m tp' (cs_taken s)\<rparr>" and l': "l' = (freed a m tp', lp, tp')"
    using act at by auto
  have fit: "m \<noteq> 0" "list_done lp" "walks_for (tr_nodes (cs_tree s)) a (ThenClear m) tp"
    using D(3) [of u] at by simp_all
  obtain t where t: "tree_inv_at t (cs_tree s) (tree_pcs ls)"
    using D(2) by (auto simp: tree_inv_def)
  have ta': "tree_act True (tree_pcs ls u) (cs_tree s) = Some (tr, tp')"
    using ta at by simp
  note masks = tree_act_masks [OF t ta']
  have own: "mask_at (cs_tree s) a \<noteq> 0"
    by (rule owner_mask [OF core, of u]) (use at fit in simp)
  show ?thesis
  proof (rule walk_goes_on [OF ta fit(3)])
    assume go: "walks_for (tr_nodes tr) a (ThenClear m) tp'" "\<not> tree_done tp'"
    then have st: "freed a m tp' = FreeFind a m" "taken_after a m tp' (cs_taken s) = cs_taken s" "mask_at tr = mask_at (cs_tree s)"
      using masks at by (cases tp'; cases tp; auto)+
    have "conc_tokens s' (ls(u := (FreeFind a m, lp, tp'))) = conc_tokens s' ls"
      by (rule conc_tokens_same) (use at in auto)
    also have "\<dots> = conc_tokens s ls"
      by (rule conc_tokens_shared) (use s' st in simp_all)
    finally have "keeps (conc_tokens s ls) (conc_tokens s' (ls(u := (FreeFind a m, lp, tp'))))"
      using keeps_same [OF D(7)] by simp
    then show ?thesis
      using go fit st l' s' by (simp del: fun_upd_apply) (intro tree_step_core [OF core at ta], simp_all)
  next
    fix b p assume "tp' = FindReturned b p"
    then show ?thesis
      using walk_finds [OF t _ own _ ta', of "ThenClear m" b p] fit at by simp
  next
    fix q w current r
    assume c: "tp = ClearCas q w current" "ThenClear m = ThenClear w" "tp' = ClearReturned q r" "key (tr_nodes (cs_tree s)) q = a"
      "tr_nodes (cs_tree s) q \<noteq> None"
    note C = clear_masks [OF core at ta c(3)]
    have "conc_tokens s' (ls(u := (freed a m tp', lp, tp'))) = (conc_tokens s ls)\<lparr>
        tk_own := (tk_own (conc_tokens s ls))(a := tk_own (conc_tokens s ls) a AND NOT m), tk_grip := (tk_grip (conc_tokens s ls))(u := \<lambda>_. 0),
        tk_taken := (tk_taken (conc_tokens s ls))(a := tk_taken (conc_tokens s ls) a AND NOT m),
        tk_carry := (tk_carry (conc_tokens s ls))(u := if tk_own (conc_tokens s ls) a AND NOT m = 0 then Some a else None)\<rparr>"
      unfolding conc_tokens_def using at s' c(3) C(1,2) by (auto simp: fun_eq_iff)
    then have "keeps (conc_tokens s ls) (conc_tokens s' (ls(u := (freed a m tp', lp, tp'))))"
      using keeps_clear [OF D(7), of u a m] fit at by (simp add: conc_tokens_at)
    then show ?thesis
      unfolding l' using fit c(3) C(3) s' by (intro conjI tree_step_core [OF core at ta]) auto
  next
    fix q w assume "ThenClear m = ThenOr w"
    then show ?thesis by simp
  qed simp
qed

lemma core_ShareFind:
  assumes core: "conc_core pb pe nb n s ls" and at: "ls u = (ShareFind a g m, lp, tp)" and act: "conc_act pe ne (ls u) s = Some (s', l')"
  shows "conc_core pb pe nb n s' (ls(u := l')) \<and> fst l' \<noteq> ShareFailed"
proof -
  note D = conc_coreD [OF core]
  obtain tr tp' where ta: "tree_act True tp (cs_tree s) = Some (tr, tp')"
    and s': "s' = s\<lparr>cs_tree := tr, cs_owned := owned_after a (g OR m) tp' (cs_owned s)\<rparr>" and l': "l' = (shared_with a g m tp', lp, tp')"
    using act at by auto
  have fit: "g \<noteq> 0" "list_done lp" "walks_for (tr_nodes (cs_tree s)) a (ThenOr m) tp"
    using D(3) [of u] at by simp_all
  obtain t where t: "tree_inv_at t (cs_tree s) (tree_pcs ls)"
    using D(2) by (auto simp: tree_inv_def)
  have ta': "tree_act True (tree_pcs ls u) (cs_tree s) = Some (tr, tp')"
    using ta at by simp
  note masks = tree_act_masks [OF t ta']
  have own: "mask_at (cs_tree s) a \<noteq> 0"
    by (rule owner_mask [OF core, of u]) (use at fit in simp)
  show ?thesis
  proof (rule walk_goes_on [OF ta fit(3)])
    assume go: "walks_for (tr_nodes tr) a (ThenOr m) tp'" "\<not> tree_done tp'"
    then have st: "shared_with a g m tp' = ShareFind a g m" "owned_after a (g OR m) tp' (cs_owned s) = cs_owned s" "mask_at tr = mask_at (cs_tree s)"
      using masks at by (cases tp'; cases tp; auto)+
    have "conc_tokens s' (ls(u := (ShareFind a g m, lp, tp'))) = conc_tokens s' ls"
      by (rule conc_tokens_same) (use at in auto)
    also have "\<dots> = conc_tokens s ls"
      by (rule conc_tokens_shared) (use s' st in simp_all)
    finally have "keeps (conc_tokens s ls) (conc_tokens s' (ls(u := (ShareFind a g m, lp, tp'))))"
      using keeps_same [OF D(7)] by simp
    then show ?thesis
      using go fit st l' s' by (simp del: fun_upd_apply) (intro tree_step_core [OF core at ta], simp_all)
  next
    fix b p assume "tp' = FindReturned b p"
    then show ?thesis
      using walk_finds [OF t _ own _ ta', of "ThenOr m" b p] fit at by simp
  next
    fix q w assume c: "tp = OrOwner q w" "ThenOr m = ThenOr w" "tp' = OrReturned q" "key (tr_nodes (cs_tree s)) q = a"
    have eq: "mask_at tr = (mask_at (cs_tree s))(a := mask_at (cs_tree s) a OR m)"
      using masks c at by simp
    have "conc_tokens s' (ls(u := (ShareReturned, lp, tp'))) = (conc_tokens s ls)\<lparr>
        tk_own := (tk_own (conc_tokens s ls))(a := tk_own (conc_tokens s ls) a OR m),
        tk_owned := (tk_owned (conc_tokens s ls))(a := tk_owned (conc_tokens s ls) a OR (g OR m)),
        tk_grip := (tk_grip (conc_tokens s ls))(u := \<lambda>_. 0), tk_claim := (tk_claim (conc_tokens s ls))(u := \<lambda>_. 0)\<rparr>"
      unfolding conc_tokens_def using at s' c(3) eq by (auto simp: fun_eq_iff)
    then have "keeps (conc_tokens s ls) (conc_tokens s' (ls(u := (ShareReturned, lp, tp'))))"
      using keeps_fulfil [OF D(7), of u a g m] fit at by (simp add: conc_tokens_at)
    then have "conc_core pb pe nb n s' (ls(u := (ShareReturned, lp, tp')))"
      by (intro tree_step_core [OF core at ta]) (use s' fit c(3) in simp_all)
    then show ?thesis
      using c(3) l' by (simp del: fun_upd_apply)
  next
    fix q w current r assume "ThenOr m = ThenClear w"
    then show ?thesis by simp
  qed simp
qed

section \<open>Calls, and the whole invariant\<close>

lemma core_call:
  assumes core: "conc_core pb pe nb n s ls" and call: "conc_call (\<lambda>k. k = n) s (ls u) s' l'"
  shows "conc_core pb pe nb n s' (ls(u := l'))"
  using call
proof cases
  note D = conc_coreD [OF core]
  obtain t where t: "tree_inv_at t (cs_tree s) (tree_pcs ls)"
    using D(2) by (auto simp: tree_inv_def)
  have find: "tree_inv (cs_tree s) ((tree_pcs ls)(u := FindRoot a k))" if "ls u = (st, lp, tp)" "stage_done st" for st lp tp a k
    using tree_call_inv [OF t, of u] call_find [of tp "cs_tree s" a k] D(3) [of u] that fits_idle [OF that(2)] by simp
  {
    case (call_alloc st sz lp tp m)
    note idle = stage_idle [OF call_alloc(4)] and fit = fits_idle [OF call_alloc(4)]
    obtain xs where xs: "list_inv_at n xs (cs_list s) (list_pcs ls)"
      using D(1) by (auto simp: list_inv_def)
    have "list_call (\<lambda>sz. n \<le> sz) (\<lambda>sz. sz \<le> n) (cs_list s) lp (cs_list s) (PopLoad n)"
      using D(3) [of u] call_alloc(1) fit by (intro call_pop) auto
    then have "list_inv n (cs_list s) ((list_pcs ls)(u := PopLoad n))"
      using list_call_inv [OF xs, of u] call_alloc(1) by simp
    moreover have "conc_tokens s (ls(u := (AllocPop n m, PopLoad n, tp))) = conc_tokens s ls"
      by (rule conc_tokens_same) (use call_alloc(1) idle in auto)
    ultimately have "conc_core pb pe nb n s (ls(u := (AllocPop n m, PopLoad n, tp)))"
      using D keeps_same [OF D(7)] call_alloc(1) fit D(3) [of u]
      by (intro conc_core_step [OF core]) (simp_all add: nodes_kept_refl fun_upd_idem)
    then show ?thesis
      using call_alloc by simp
  next
    case (call_free st m a lp tp)
    note idle = stage_idle [OF call_free(4)]
    let ?l = "(FreeFind a m, lp, FindRoot a (ThenClear m))"
    have "conc_tokens s' (ls(u := ?l)) = (conc_tokens s ls)\<lparr>
        tk_owned := (tk_owned (conc_tokens s ls))(a := tk_owned (conc_tokens s ls) a AND NOT m), tk_grip := (tk_grip (conc_tokens s ls))(u := single a m)\<rparr>"
      unfolding conc_tokens_def using call_free idle by (auto simp: fun_eq_iff)
    then have "keeps (conc_tokens s ls) (conc_tokens s' (ls(u := ?l)))"
      using keeps_begin [OF D(7), of a m u] call_free idle by (simp add: conc_tokens_at)
    then show ?thesis
      unfolding call_free(3) using D find [OF call_free(1,4)] call_free fits_idle [OF call_free(4)] D(3) [of u]
      by (intro conc_core_step [OF core]) (simp_all add: nodes_kept_refl fun_upd_idem areas_ok_def)
  next
    case (call_share st g a m lp tp)
    note idle = stage_idle [OF call_share(4)]
    let ?l = "(ShareFind a g (normalizeMask m), lp, FindRoot a (ThenOr (normalizeMask m)))"
    have "conc_tokens s' (ls(u := ?l)) = (conc_tokens s ls)\<lparr>
        tk_owned := (tk_owned (conc_tokens s ls))(a := tk_owned (conc_tokens s ls) a AND NOT g), tk_grip := (tk_grip (conc_tokens s ls))(u := single a g),
        tk_claim := (tk_claim (conc_tokens s ls))(u := single a (normalizeMask m)),
        tk_taken := (tk_taken (conc_tokens s ls))(a := tk_taken (conc_tokens s ls) a OR normalizeMask m)\<rparr>"
      unfolding conc_tokens_def using call_share idle by (auto simp: fun_eq_iff)
    then have "keeps (conc_tokens s ls) (conc_tokens s' (ls(u := ?l)))"
      using keeps_share [OF D(7), of a g u "normalizeMask m"] call_share idle by (simp add: conc_tokens_at)
    then show ?thesis
      unfolding call_share(3) using D find [OF call_share(1,4)] call_share fits_idle [OF call_share(4)] D(3) [of u]
      by (intro conc_core_step [OF core]) (simp_all add: nodes_kept_refl fun_upd_idem areas_ok_def)
  }
qed

text \<open>The bump pointers have not gone round the end of the address space.\<close>

definition in_range :: "uintptr \<Rightarrow> uintptr \<Rightarrow> conc_state \<Rightarrow> bool" where
  "in_range pb nb s \<longleftrightarrow> unat pb + cs_asked s < 2 ^ 64 \<and> unat nb + cs_noded s < 2 ^ 64"

definition conc_inv :: "uintptr \<Rightarrow> uintptr \<Rightarrow> uintptr \<Rightarrow> uintptr \<Rightarrow> conc_state \<Rightarrow> (nat \<Rightarrow> conc_local) \<Rightarrow> bool" where
  "conc_inv pb pe nb n s ls \<longleftrightarrow> (n \<noteq> 0 \<and> nb \<noteq> 0 \<and> in_range pb nb s \<longrightarrow> conc_core pb pe nb n s ls)"

lemma in_range_back:
  assumes "conc_act pe ne l s = Some (s', l')" "in_range pb nb s'"
  shows "in_range pb nb s"
proof -
  obtain st lp tp where "l = (st, lp, tp)" by (cases l)
  with assms show ?thesis
    by (cases st) (auto simp: in_range_def Let_def split: if_splits)
qed

lemma core_act:
  assumes core: "conc_core pb pe nb n s ls" and act: "conc_act pe ne (ls u) s = Some (s', l')"
    and "n \<noteq> 0" "nb \<noteq> 0" "in_range pb nb s'"
  shows "conc_core pb pe nb n s' (ls(u := l'))"
proof -
  obtain st lp tp where at: "ls u = (st, lp, tp)" by (cases "ls u")
  show ?thesis
  proof (cases st)
    case AllocBump
    with core_AllocBump [OF core _ act] at assms show ?thesis
      by (auto simp: in_range_def)
  next
    case AllocNode
    with core_AllocNode [OF core _ act] at assms show ?thesis
      by (auto simp: in_range_def)
  next
    case FreeSlot
    with core_FreeSlot [OF core _ act] at assms show ?thesis
      by (auto simp: in_range_def)
  qed (use at act core_AllocPop [OF core _ act] core_AllocInsert [OF core _ act] core_AllocCount [OF core _ act] core_FreeFind [OF core _ act]
       core_FreeRead [OF core _ act] core_FreePush [OF core _ act] core_FreeCount [OF core _ act] core_ShareFind [OF core _ act] in
       \<open>simp_all del: fun_upd_apply\<close>)
qed

interpretation conc_balloc: shared_invariant "conc_act pe ne" "conc_call (\<lambda>k. k = n)" "conc_inv pb pe nb n" for pb pe nb ne n
proof
  fix s ls u s' l
  assume inv: "conc_inv pb pe nb n s ls"
  show "conc_inv pb pe nb n s' (ls(u := l))" if act: "conc_act pe ne (ls u) s = Some (s', l)"
    using inv core_act [where ls = ls and u = u, OF _ act] in_range_back [OF act] unfolding conc_inv_def by blast
  show "conc_inv pb pe nb n s' (ls(u := l))" if call: "conc_call (\<lambda>k. k = n) s (ls u) s' l"
  proof -
    have "in_range pb nb s' \<longleftrightarrow> in_range pb nb s"
      using call by cases (simp_all add: in_range_def)
    then show ?thesis
      using inv core_call [where ls = ls and u = u, OF _ call] unfolding conc_inv_def by blast
  qed
qed

lemma conc_inv_empty: "conc_inv pb pe nb n (empty_balloc pb nb) (\<lambda>_. (ConcIdle, ListIdle, TreeIdle))"
proof -
  have "has (conc_tokens (empty_balloc pb nb) (\<lambda>_. (ConcIdle, ListIdle, TreeIdle))) p a \<longleftrightarrow> False" for p a
    by (cases p) (simp_all add: conc_tokens_def empty_balloc_def empty_list_def empty_tree_def mask_at_def)
  moreover have "grasp (conc_tokens (empty_balloc pb nb) (\<lambda>_. (ConcIdle, ListIdle, TreeIdle))) h a = 0" for h a
    by (cases h) (simp_all add: conc_tokens_def empty_balloc_def)
  ultimately have "tokens_ok (conc_tokens (empty_balloc pb nb) (\<lambda>_. (ConcIdle, ListIdle, TreeIdle)))"
    by (simp add: tokens_ok_def) (simp add: conc_tokens_def empty_balloc_def empty_tree_def mask_at_def)
  then show ?thesis
    using list_inv_empty [of n] tree_inv_empty \<open>\<And>p a. has _ p a \<longleftrightarrow> False\<close>
    by (simp add: conc_inv_def conc_core_def areas_ok_def) (simp add: empty_balloc_def empty_list_def empty_tree_def)
qed

end
