(* ===== verification/Conc_Balloc_Props.thy ===== *)
theory Conc_Balloc_Props
  imports Conc_Balloc_Inv
begin

text \<open>
  What the invariant of Conc_Balloc_Inv says of \<open>Alloc\<close>, \<open>FreeVarying\<close> and \<open>Share\<close> of balloc/core.go when
  goroutines interleave.
\<close>

section \<open>Concrete runs\<close>

datatype conc_op = DoAlloc uintptr u64 | DoFree uintptr u64 | DoShare uintptr u64 u64

fun conc_start :: "(uintptr \<Rightarrow> bool) \<Rightarrow> conc_op \<Rightarrow> conc_state \<Rightarrow> conc_local \<Rightarrow> (conc_state \<times> conc_local) option" where
  "conc_start ask (DoAlloc sz m) s (st, lp, tp) =
     (if stage_done st \<and> sz \<noteq> 0 \<and> ask (alignUp sz 8) then Some (s, AllocPop (alignUp sz 8) m, PopLoad (alignUp sz 8), tp) else None)"
| "conc_start ask (DoFree a m) s (st, lp, tp) =
     (if stage_done st \<and> m \<noteq> 0 \<and> cs_owned s a AND m = m
      then Some (s\<lparr>cs_owned := (cs_owned s)(a := cs_owned s a AND NOT m)\<rparr>, FreeFind a m, lp, FindRoot a (ThenClear m)) else None)"
| "conc_start ask (DoShare a g m) s (st, lp, tp) =
     (if stage_done st \<and> g \<noteq> 0 \<and> cs_owned s a AND g = g \<and> cs_taken s a AND normalizeMask m = 0
      then Some (s\<lparr>cs_owned := (cs_owned s)(a := cs_owned s a AND NOT g), cs_taken := (cs_taken s)(a := cs_taken s a OR normalizeMask m)\<rparr>,
        ShareFind a g (normalizeMask m), lp, FindRoot a (ThenOr (normalizeMask m))) else None)"

abbreviation conc_run :: "uintptr \<Rightarrow> uintptr \<Rightarrow> (uintptr \<Rightarrow> bool) \<Rightarrow> conc_op event list \<Rightarrow> (conc_state, conc_local) config \<Rightarrow> (conc_state, conc_local) config option" where
  "conc_run pe ne ask \<equiv> run_events (conc_act pe ne) (conc_start ask)"

abbreviation conc_idle :: "nat \<Rightarrow> conc_local" where
  "conc_idle \<equiv> \<lambda>_. (ConcIdle, ListIdle, TreeIdle)"

lemma conc_start_call: "conc_start ask op s l = Some (s', l') \<Longrightarrow> conc_call ask s l s' l'"
  by (cases l; cases op) (auto split: if_splits intro: conc_call.intros)

lemma conc_run_reach:
  assumes "conc_run pe ne ask es c = Some d" "reach (conc_act pe ne) (conc_call ask) b c"
  shows "reach (conc_act pe ne) (conc_call ask) b d"
  using conc_start_call assms by (rule run_events_reach)

lemmas conc_run_from_start = conc_run_reach [OF _ reach_refl]

primrec steps :: "nat \<Rightarrow> nat \<Rightarrow> conc_op event list" where
  "steps t 0 = []"
| "steps t (Suc k) = Step t # steps t k"

lemma steps_numeral [simp]: "steps t (numeral k) = Step t # steps t (pred_numeral k)" "steps t 1 = [Step t]"
  by (simp_all add: numeral_eq_Suc)

definition aba_prepare :: "conc_op event list" where
  "aba_prepare =
     Call 0 (DoAlloc 64 1) # steps 0 6 @ Call 0 (DoAlloc 8 1) # steps 0 7 @
     Call 0 (DoFree 0x20000 1) # steps 0 10 @ Call 0 (DoFree 0x20040 1) # steps 0 11"

lemmas conc_run_simps = empty_balloc_def empty_list_def empty_tree_def sizeof_BallocNode_def sizeof_freeSlot_def
  normalizeMask_def alignUp_def set_node_def link_of_def set_link_def Let_def

text \<open>
  Two goroutines allocate at the same time: the one that was first at the bump pointer is second at
  the root of the tree.
\<close>

definition two_allocs :: "conc_op event list" where
  "two_allocs = [Call 0 (DoAlloc 60 1), Call 1 (DoAlloc 64 1), Step 0, Step 1, Step 1, Step 0, Step 0, Step 1, Step 0, Step 1,
     Step 0, Step 1, Step 1, Step 0, Step 1, Step 1]"

lemma two_allocs_run:
  obtains s ls where "conc_run 0x30000 0x2000 (\<lambda>k. k = 64) two_allocs (empty_balloc 0x20000 0x1000, conc_idle) = Some (s, ls)"
    "in_range 0x20000 0x1000 s" "fst (ls 0) = AllocReturned 0x20040" "fst (ls 1) = AllocCount 0x20000 1" "cs_owned s 0x20040 = 1"
    "mask_at (cs_tree s) 0x20000 = 1" "mask_at (cs_tree s) 0x20040 = 1"
  by (simp add: two_allocs_def conc_run_simps in_range_def mask_at_def tmap_def findNode.simps)

text \<open>
  A goroutine allocates a block and shares it with a second owner; then both owners free it at the
  same time, and the compare-and-swap of the second fails once.
\<close>

definition two_frees :: "conc_op event list" where
  "two_frees = Call 0 (DoAlloc 64 1) # steps 0 6 @ Call 0 (DoShare 0x20000 1 2) # steps 0 3 @
     [Call 0 (DoFree 0x20000 1), Call 1 (DoFree 0x20000 2)] @ steps 0 3 @ steps 1 3 @ [Step 0, Step 1, Step 1]"

lemma two_frees_run:
  obtains s ls where "conc_run 0x30000 0x2000 (\<lambda>k. k = 64) two_frees (empty_balloc 0x20000 0x1000, conc_idle) = Some (s, ls)"
    "in_range 0x20000 0x1000 s" "fst (ls 0) = FreeReturned False" "ls 1 = (FreeFind 0x20000 2, ListIdle, ClearCas 0x1000 2 2)"
    "\<exists>s' l'. conc_act 0x30000 0x2000 (ls 1) s = Some (s', l') \<and> fst l' = FreeRead 0x20000 0x1000"
  by (simp add: two_frees_def conc_run_simps in_range_def)

section \<open>The theorems\<close>

lemma conc_reach_core:
  assumes "reach (conc_act pe ne) (conc_call (\<lambda>k. k = n)) (empty_balloc pb nb, conc_idle) (s, ls)"
    and "n \<noteq> 0" "nb \<noteq> 0" "in_range pb nb s"
  shows "conc_core pb pe nb n s ls"
  using conc_balloc.reach_inv [OF assms(1) conc_inv_empty [of pb pe nb n]] assms(2-4) by (simp add: conc_inv_def)

lemma blocks_apart:
  assumes "is_block pb pe n k a" "is_block pb pe n k b" "a \<noteq> b"
  shows "unat a + unat n \<le> unat b \<or> unat b + unat n \<le> unat a"
proof -
  obtain i j where i: "unat a = unat pb + i * unat n" and j: "unat b = unat pb + j * unat n"
    using assms(1,2) by (auto simp: is_block_def)
  then consider "i < j" | "j < i"
    using assms(3) by (metis linorder_less_linear word_unat_eq_iff)
  then show ?thesis
  proof cases
    case 1
    then have "Suc i * unat n \<le> j * unat n"
      by (intro mult_le_mono1) simp
    then show ?thesis
      using i j by simp
  next
    case 2
    then have "Suc j * unat n \<le> i * unat n"
      by (intro mult_le_mono1) simp
    then show ?thesis
      using i j by simp
  qed
qed

text \<open>
  C7: any number of goroutines call \<open>Alloc\<close>, \<open>FreeVarying\<close> and \<open>Share\<close> at the same time, in any
  interleaving of their atomic accesses, all requests rounding to the size \<open>n\<close>. Every block lies in
  the payload and is in one place: in one slot of the free list, in the hands of one goroutine that is
  about to hand it out or to put it back, or owned; blocks in different places, and different owned
  blocks, do not overlap. The owner mask in the tree is exactly what the clients and the running calls
  hold, and no owner bit is in two hands.
\<close>

theorem conc_blocks_exclusive:
  assumes "reach (conc_act pe ne) (conc_call (\<lambda>k. k = n)) (empty_balloc pb nb, conc_idle) (s, ls)"
    and "n \<noteq> 0" "nb \<noteq> 0" "in_range pb nb s"
  shows "(\<forall>p a. has (conc_tokens s ls) p a \<longrightarrow> unat pb \<le> unat a \<and> unat a + unat n \<le> unat pe) \<and>
    (\<forall>p q a b. has (conc_tokens s ls) p a \<and> has (conc_tokens s ls) q b \<and> (p \<noteq> q \<or> a \<noteq> b) \<longrightarrow>
      unat a + unat n \<le> unat b \<or> unat b + unat n \<le> unat a) \<and>
    (\<forall>a i. bit (mask_at (cs_tree s) a) i \<longleftrightarrow> bit (cs_owned s a) i \<or> (\<exists>u. bit (grips (fst (ls u)) a) i)) \<and>
    (\<forall>g h a. g \<noteq> h \<longrightarrow> grasp (conc_tokens s ls) g a AND grasp (conc_tokens s ls) h a = 0)"
proof -
  note D = conc_coreD [OF conc_reach_core [OF assms]]
  note T = tokens_okD [OF D(7)]
  have "unat a + unat n \<le> unat b \<or> unat b + unat n \<le> unat a"
    if "has (conc_tokens s ls) p a" "has (conc_tokens s ls) q b" "p \<noteq> q \<or> a \<noteq> b" for p q a b
    using blocks_apart [OF D(8) [OF that(1)] D(8) [OF that(2)]] T(1) [of p a q] that by blast
  moreover have "bit (mask_at (cs_tree s) a) i \<longleftrightarrow> bit (cs_owned s a) i \<or> (\<exists>u. bit (grips (fst (ls u)) a) i)" for a i
  proof -
    have "(\<exists>h. \<not> promise h \<and> bit (grasp (conc_tokens s ls) h a) i) \<longleftrightarrow> bit (cs_owned s a) i \<or> (\<exists>u. bit (grips (fst (ls u)) a) i)"
    proof
      assume "\<exists>h. \<not> promise h \<and> bit (grasp (conc_tokens s ls) h a) i"
      then obtain h where "\<not> promise h" "bit (grasp (conc_tokens s ls) h a) i" by blast
      then show "bit (cs_owned s a) i \<or> (\<exists>u. bit (grips (fst (ls u)) a) i)"
        by (cases h) (auto simp: conc_tokens_at)
    next
      assume "bit (cs_owned s a) i \<or> (\<exists>u. bit (grips (fst (ls u)) a) i)"
      then consider "bit (cs_owned s a) i" | u where "bit (grips (fst (ls u)) a) i" by blast
      then show "\<exists>h. \<not> promise h \<and> bit (grasp (conc_tokens s ls) h a) i"
        by cases (auto simp: conc_tokens_at intro: exI [of _ Clients] exI [of _ "Worker _"])
    qed
    then show ?thesis
      using T(4) [of a i] by (simp add: conc_tokens_at)
  qed
  moreover have "grasp (conc_tokens s ls) g a AND grasp (conc_tokens s ls) h a = 0" if "g \<noteq> h" for g h a
    using T(2) [of g a _ h] that unfolding and_zero_bits by blast
  moreover have "unat pb \<le> unat a \<and> unat a + unat n \<le> unat pe" if "has (conc_tokens s ls) p a" for p a
    using D(8) [OF that] by (auto simp: is_block_def)
  ultimately show ?thesis by blast
qed

theorem conc_blocks_exclusive_witness:
  "\<exists>s ls. conc_run 0x30000 0x2000 (\<lambda>k. k = 64) two_allocs (empty_balloc 0x20000 0x1000, conc_idle) = Some (s, ls) \<and>
    fst (ls 0) = AllocReturned 0x20040 \<and> fst (ls 1) = AllocCount 0x20000 1 \<and> cs_owned s 0x20040 = 1 \<and>
    (unat (0x20000 :: uintptr) + unat (64 :: uintptr) \<le> unat (0x20040 :: uintptr) \<or>
     unat (0x20040 :: uintptr) + unat (64 :: uintptr) \<le> unat (0x20000 :: uintptr))"
proof (rule two_allocs_run)
  fix s ls
  assume run: "conc_run 0x30000 0x2000 (\<lambda>k. k = 64) two_allocs (empty_balloc 0x20000 0x1000, conc_idle) = Some (s, ls)"
    and range: "in_range 0x20000 0x1000 s" and at: "fst (ls 0) = AllocReturned 0x20040" "fst (ls 1) = AllocCount 0x20000 1" "cs_owned s 0x20040 = 1"
    and masks: "mask_at (cs_tree s) 0x20000 = 1" "mask_at (cs_tree s) 0x20040 = 1"
  have "has (conc_tokens s ls) Owners 0x20000" "has (conc_tokens s ls) Owners 0x20040"
    using masks by (simp_all add: conc_tokens_at)
  moreover have apart: "(0x20000 :: uintptr) \<noteq> 0x20040" "(64 :: uintptr) \<noteq> 0" "(0x1000 :: uintptr) \<noteq> 0"
    by simp_all
  ultimately show ?thesis
    using conc_blocks_exclusive [OF conc_run_from_start [OF run] apart(2,3) range] run at by blast
qed

lemma last_owner_step:
  assumes core: "conc_core pb pe nb n s ls" and at: "ls u = (FreeFind a m, lp, tp)" and act: "conc_act pe ne (ls u) s = Some (s', l')"
  shows "fst l' \<noteq> FreeFailed"
    "fst l' = FreeRead b q \<Longrightarrow> b = a \<and> mask_at (cs_tree s') a = 0 \<and> cs_owned s a = 0 \<and>
      (\<forall>v. v \<noteq> u \<longrightarrow> grips (fst (ls v)) a = 0 \<and> carries (fst (ls v)) \<noteq> Some a)"
    "fst l' = FreeReturned False \<Longrightarrow> cs_owned s a \<noteq> 0 \<or> (\<exists>v. v \<noteq> u \<and> grips (fst (ls v)) a \<noteq> 0)"
proof -
  note D = conc_coreD [OF core]
  obtain tr tp' where ta: "tree_act True tp (cs_tree s) = Some (tr, tp')"
    and s': "s' = s\<lparr>cs_tree := tr, cs_taken := taken_after a m tp' (cs_taken s)\<rparr>" and l': "l' = (freed a m tp', lp, tp')"
    using at act by auto
  have core': "conc_core pb pe nb n s' (ls(u := l'))" "fst l' \<noteq> FreeFailed"
    using core_FreeFind [OF core at act] by blast+
  note D' = conc_coreD [OF core'(1)]
  have other: "fst ((ls(u := l')) v) = fst (ls v)" if "v \<noteq> u" for v
    using that by simp
  show "fst l' \<noteq> FreeFailed"
    by (rule core'(2))
  show "b = a \<and> mask_at (cs_tree s') a = 0 \<and> cs_owned s a = 0 \<and> (\<forall>v. v \<noteq> u \<longrightarrow> grips (fst (ls v)) a = 0 \<and> carries (fst (ls v)) \<noteq> Some a)"
    if r: "fst l' = FreeRead b q"
  proof -
    have b: "b = a"
      using r l' by (cases tp') (auto split: if_splits)
    have mine: "has (conc_tokens s' (ls(u := l'))) (Carried u) a"
      using r b by (simp add: conc_tokens_at)
    note none = elsewhere_no_owner(1,2) [OF D'(7) mine]
    have "carries (fst (ls v)) \<noteq> Some a" if "v \<noteq> u" for v
      using tokens_okD(1) [OF D'(7) mine, of "Carried v"] that by (auto simp: conc_tokens_at)
    moreover have "grips (fst (ls v)) a = 0" if "v \<noteq> u" for v
      using none(2) [of "Worker v"] that by (simp add: conc_tokens_at)
    ultimately show ?thesis
      using b none(1) none(2) [of Clients] by (simp add: conc_tokens_at s')
  qed
  show "cs_owned s a \<noteq> 0 \<or> (\<exists>v. v \<noteq> u \<and> grips (fst (ls v)) a \<noteq> 0)" if r: "fst l' = FreeReturned False"
  proof -
    obtain q r where tp': "tp' = ClearReturned q r" "r \<noteq> 0"
      using r l' by (cases tp') (auto split: if_splits)
    have "mask_at (cs_tree s') a \<noteq> 0"
      using clear_masks [OF core at ta tp'(1)] tp'(2) s' by simp
    then obtain i where "bit (mask_at (cs_tree s') a) i"
      unfolding nonzero_bit by blast
    then obtain h where h: "\<not> promise h" "bit (grasp (conc_tokens s' (ls(u := l'))) h a) i"
      using tokens_okD(4) [OF D'(7), of a i] by (auto simp: conc_tokens_at)
    then show ?thesis
    proof (cases h)
      case Clients
      with h(2) have "bit (cs_owned s a) i"
        by (simp add: conc_tokens_at s')
      then show ?thesis
        unfolding nonzero_bit by blast
    next
      case (Worker v)
      with h(2) r have "v \<noteq> u" "bit (grips (fst (ls v)) a) i"
        by (auto simp: conc_tokens_at split: if_splits)
      then show ?thesis
        unfolding nonzero_bit by blast
    qed simp
  qed
qed

text \<open>
  C8: the protocol of the owners, with whole calls interleaved as before. \<open>FreeVarying\<close> called by an
  owner always finds the block. The call that clears the last bits, and no other, goes on to put the
  block on the free list: at that moment no client and no other running call holds the block. While
  somebody else holds it, \<open>FreeVarying\<close> returns false and leaves the block to them.
\<close>

theorem conc_last_owner_reclaims:
  assumes "reach (conc_act pe ne) (conc_call (\<lambda>k. k = n)) (empty_balloc pb nb, conc_idle) (s, ls)"
    and "n \<noteq> 0" "nb \<noteq> 0" "in_range pb nb s" and "conc_act pe ne (ls u) s = Some (s', l')"
  shows "(\<forall>a m. fst (ls u) = FreeFind a m \<longrightarrow> fst l' \<noteq> FreeFailed \<and>
      (\<forall>b q. fst l' = FreeRead b q \<longrightarrow> b = a \<and> mask_at (cs_tree s') a = 0 \<and> cs_owned s a = 0 \<and>
        (\<forall>v. v \<noteq> u \<longrightarrow> grips (fst (ls v)) a = 0 \<and> carries (fst (ls v)) \<noteq> Some a)) \<and>
      (fst l' = FreeReturned False \<longrightarrow> cs_owned s a \<noteq> 0 \<or> (\<exists>v. v \<noteq> u \<and> grips (fst (ls v)) a \<noteq> 0))) \<and>
    (\<forall>a g m. fst (ls u) = ShareFind a g m \<longrightarrow> fst l' \<noteq> ShareFailed)"
proof -
  note core = conc_reach_core [OF assms(1-4)]
  obtain st lp tp where at: "ls u = (st, lp, tp)" by (cases "ls u")
  have "fst l' \<noteq> ShareFailed" if "fst (ls u) = ShareFind a g m" for a g m
    using core_ShareFind [OF core _ assms(5)] that at by simp
  moreover have "fst l' \<noteq> FreeFailed \<and>
      (\<forall>b q. fst l' = FreeRead b q \<longrightarrow> b = a \<and> mask_at (cs_tree s') a = 0 \<and> cs_owned s a = 0 \<and>
        (\<forall>v. v \<noteq> u \<longrightarrow> grips (fst (ls v)) a = 0 \<and> carries (fst (ls v)) \<noteq> Some a)) \<and>
      (fst l' = FreeReturned False \<longrightarrow> cs_owned s a \<noteq> 0 \<or> (\<exists>v. v \<noteq> u \<and> grips (fst (ls v)) a \<noteq> 0))" if "fst (ls u) = FreeFind a m" for a m
  proof -
    have at': "ls u = (FreeFind a m, lp, tp)"
      using that at by simp
    note L = last_owner_step [OF core at' assms(5)]
    show ?thesis
      using L(1,3) by (intro conjI allI impI) (use L(2) in \<open>blast+\<close>)
  qed
  ultimately show ?thesis by blast
qed

theorem conc_last_owner_reclaims_witness:
  "\<exists>s ls s' l'. conc_run 0x30000 0x2000 (\<lambda>k. k = 64) two_frees (empty_balloc 0x20000 0x1000, conc_idle) = Some (s, ls) \<and>
    fst (ls 0) = FreeReturned False \<and> conc_act 0x30000 0x2000 (ls 1) s = Some (s', l') \<and> fst l' = FreeRead 0x20000 0x1000 \<and>
    mask_at (cs_tree s') 0x20000 = 0"
proof (rule two_frees_run)
  fix s ls
  assume run: "conc_run 0x30000 0x2000 (\<lambda>k. k = 64) two_frees (empty_balloc 0x20000 0x1000, conc_idle) = Some (s, ls)"
    and range: "in_range 0x20000 0x1000 s" and at: "fst (ls 0) = FreeReturned False" "ls 1 = (FreeFind 0x20000 2, ListIdle, ClearCas 0x1000 2 2)"
    and act: "\<exists>s' l'. conc_act 0x30000 0x2000 (ls 1) s = Some (s', l') \<and> fst l' = FreeRead 0x20000 0x1000"
  obtain s' l' where act: "conc_act 0x30000 0x2000 (ls 1) s = Some (s', l')" "fst l' = FreeRead 0x20000 0x1000"
    using act by blast
  have nz: "(64 :: uintptr) \<noteq> 0" "(0x1000 :: uintptr) \<noteq> 0" and "fst (ls 1) = FreeFind 0x20000 2"
    using at(2) by simp_all
  with conc_last_owner_reclaims [OF conc_run_from_start [OF run] nz range act(1)] act(2) have "mask_at (cs_tree s') 0x20000 = 0"
    by blast
  then show ?thesis
    using run at(1) act by blast
qed

end
