(* ===== verification/Conc_Balloc_Safe.thy ===== *)
theory Conc_Balloc_Safe
  imports Conc_Balloc_Props
begin

text \<open>
  The machine of Conc_Balloc with blocks and requests of any size: what is left of the invariant. The
  pointers of the free list and of the tree lead to slots and nodes, and every goroutine is at a place
  from which it can go on.
\<close>

section \<open>What holds for all sizes\<close>

fun takes :: "list_pc \<Rightarrow> bool" where
  "takes (PushLoad slot k) = (k = TooSmall)"
| "takes (PushStore slot head k) = (k = TooSmall)"
| "takes (PushCas slot head k) = (k = TooSmall)"
| "takes (PopLoad k) = True"
| "takes (PopNext k head) = True"
| "takes (PopCas k head nxt) = True"
| "takes (PopTest k head) = True"
| "takes lp = False"

lemma list_act_takes:
  assumes "takes lp" "list_act lp f = Some (f', lp')"
  shows "takes lp' \<or> (\<exists>r. lp' = PopReturned r)"
  using assms by (cases lp) (auto split: option.splits if_splits)

fun place_ok :: "node_store \<Rightarrow> conc_local \<Rightarrow> bool" where
  "place_ok h (AllocPop k m, lp, tp) \<longleftrightarrow> takes lp \<and> tree_done tp"
| "place_ok h (AllocInsert a m, lp, tp) \<longleftrightarrow> list_done lp \<and> pending tp \<noteq> None"
| "place_ok h (FreeFind a m, lp, tp) \<longleftrightarrow> list_done lp \<and> walks_for h a (ThenClear m) tp"
| "place_ok h (FreeRead a q, lp, tp) \<longleftrightarrow> list_done lp \<and> tree_done tp \<and> (\<exists>c. h q = Some c \<and> Addr c = a)"
| "place_ok h (FreePush, lp, tp) \<longleftrightarrow> puts lp \<and> tree_done tp"
| "place_ok h (ShareFind a g m, lp, tp) \<longleftrightarrow> list_done lp \<and> walks_for h a (ThenOr m) tp"
| "place_ok h (st, lp, tp) \<longleftrightarrow> list_done lp \<and> tree_done tp"

lemma place_ok_idle: "stage_done st \<Longrightarrow> place_ok h (st, lp, tp) \<longleftrightarrow> list_done lp \<and> tree_done tp"
  by (cases st) auto

lemma place_ok_kept:
  assumes kept: "nodes_kept h h'" and walks: "walks h t tp" "mem_tree h p t" and ok: "place_ok h (st, lp, tp)"
  shows "place_ok h' (st, lp, tp)"
proof (cases st)
  case (FreeRead a q)
  then show ?thesis
    using ok kept by (force simp: nodes_kept_def)
qed (use ok walks_for_kept [OF kept walks] in auto)

definition conc_safe :: "uintptr \<Rightarrow> uintptr \<Rightarrow> conc_state \<Rightarrow> (nat \<Rightarrow> conc_local) \<Rightarrow> bool" where
  "conc_safe pb nb s ls \<longleftrightarrow>
     list_safe (cs_list s) \<and> (\<forall>u. pc_safe (fl_slots (cs_list s)) (list_pcs ls u)) \<and> tree_inv (cs_tree s) (tree_pcs ls) \<and>
     (\<forall>u. place_ok (tr_nodes (cs_tree s)) (ls u)) \<and> areas_ok pb nb 1 s"

lemma conc_safeD:
  assumes "conc_safe pb nb s ls"
  shows "list_safe (cs_list s)" "pc_safe (fl_slots (cs_list s)) (list_pcs ls u)" "tree_inv (cs_tree s) (tree_pcs ls)"
    "place_ok (tr_nodes (cs_tree s)) (ls u)" "areas_ok pb nb 1 s"
  using assms unfolding conc_safe_def by blast+

lemma conc_safe_step:
  assumes safe: "conc_safe pb nb s ls"
    and list: "list_safe (cs_list s')" "pc_safe (fl_slots (cs_list s')) lp'" "dom (fl_slots (cs_list s)) \<subseteq> dom (fl_slots (cs_list s'))"
    and tree: "tree_inv (cs_tree s') ((tree_pcs ls)(u := tp'))" "nodes_kept (tr_nodes (cs_tree s)) (tr_nodes (cs_tree s'))"
    and place: "place_ok (tr_nodes (cs_tree s')) (st', lp', tp')" and areas: "areas_ok pb nb 1 s'"
  shows "conc_safe pb nb s' (ls(u := (st', lp', tp')))"
proof -
  note D = conc_safeD [OF safe]
  obtain t where t: "tree_inv_at t (cs_tree s) (tree_pcs ls)"
    using D(3) by (auto simp: tree_inv_def)
  have "place_ok (tr_nodes (cs_tree s')) (ls v)" for v
  proof -
    obtain st lp tp where v: "ls v = (st, lp, tp)" by (cases "ls v")
    have "walks (tr_nodes (cs_tree s)) t tp"
      using tree_inv_atD(2) [OF t, of v] v by simp
    from place_ok_kept [OF tree(2) this tree_inv_atD(1) [OF t], of st lp] D(4) [of v] v show ?thesis
      by simp
  qed
  moreover have "pc_safe (fl_slots (cs_list s')) (list_pcs ls v)" for v
    by (rule pc_safe_mono [OF D(2) list(3)])
  moreover have "tree_pcs (ls(u := (st', lp', tp'))) = (tree_pcs ls)(u := tp')"
    by (simp add: fun_eq_iff)
  ultimately show ?thesis
    using list(1,2) tree(1) place areas by (simp add: conc_safe_def)
qed

text \<open>The kinds of actions.\<close>

lemma safe_list_step:
  assumes safe: "conc_safe pb nb s ls" and at: "ls u = (st, lp, tp)" and act: "list_act lp (cs_list s) = Some (f', lp')"
    and place: "place_ok (tr_nodes (cs_tree s)) (st', lp', tp)"
  shows "conc_safe pb nb (s\<lparr>cs_list := f'\<rparr>) (ls(u := (st', lp', tp)))"
proof (rule conc_safe_step [OF safe])
  note D = conc_safeD [OF safe]
  have "pc_safe (fl_slots (cs_list s)) lp"
    using D(2) [of u] at by simp
  note L = list_act_safe [OF D(1) this act] and dom = list_act_slots(3) [OF act]
  show "list_safe (cs_list (s\<lparr>cs_list := f'\<rparr>))" "pc_safe (fl_slots (cs_list (s\<lparr>cs_list := f'\<rparr>))) lp'"
    "dom (fl_slots (cs_list s)) \<subseteq> dom (fl_slots (cs_list (s\<lparr>cs_list := f'\<rparr>)))"
    using L by simp_all
  show "tree_inv (cs_tree (s\<lparr>cs_list := f'\<rparr>)) ((tree_pcs ls)(u := tp))"
    using D(3) at by (simp add: fun_upd_idem)
  show "areas_ok pb nb 1 (s\<lparr>cs_list := f'\<rparr>)"
    using D(5) dom by (simp add: areas_ok_def)
qed (use place in \<open>simp_all add: nodes_kept_refl\<close>)

lemma safe_local_step:
  assumes safe: "conc_safe pb nb s ls" and at: "ls u = (st, lp, tp)"
    and same: "cs_list s' = cs_list s" "cs_tree s' = cs_tree s" and place: "place_ok (tr_nodes (cs_tree s)) (st', lp, tp)"
    and areas: "areas_ok pb nb 1 s'"
  shows "conc_safe pb nb s' (ls(u := (st', lp, tp)))"
  using conc_safeD(1,3) [OF safe] conc_safeD(2) [OF safe, of u] at same place areas
  by (intro conc_safe_step [OF safe]) (simp_all add: nodes_kept_refl fun_upd_idem)

lemma safe_tree_step:
  assumes safe: "conc_safe pb nb s ls" and at: "ls u = (st, lp, tp)" and act: "tree_act True tp (cs_tree s) = Some (tr, tp')"
    and s': "cs_list s' = cs_list s" "cs_tree s' = tr" "cs_bump s' = cs_bump s" "cs_nodeBump s' = cs_nodeBump s"
      "cs_asked s' = cs_asked s" "cs_noded s' = cs_noded s"
    and place: "place_ok (tr_nodes tr) (st', lp, tp')"
  shows "conc_safe pb nb s' (ls(u := (st', lp, tp')))"
proof (rule conc_safe_step [OF safe])
  note D = conc_safeD [OF safe] and N = tree_act_nodes [OF act]
  have act': "tree_act True (tree_pcs ls u) (cs_tree s) = Some (tr, tp')"
    using act at by simp
  show "tree_inv (cs_tree s') ((tree_pcs ls)(u := tp'))"
    unfolding s'(2) by (rule conc_tree.act_inv [OF D(3) act'])
  show "areas_ok pb nb 1 s'"
    using D(5) N(2) s' by (simp add: areas_ok_def)
qed (use conc_safeD(1) [OF safe] conc_safeD(2) [OF safe, of u] tree_act_nodes(1) [OF act] at s' place in simp_all)

lemma safe_AllocPop:
  assumes safe: "conc_safe pb nb s ls" and at: "ls u = (AllocPop k m, lp, tp)" and act: "conc_act pe ne (ls u) s = Some (s', l')"
  shows "conc_safe pb nb s' (ls(u := l'))"
proof -
  note D = conc_safeD [OF safe]
  have ok: "place_ok (tr_nodes (cs_tree s)) (AllocPop k m, lp, tp)"
    using D(4) [of u] at by simp
  obtain f' lp' where la: "list_act lp (cs_list s) = Some (f', lp')" and r: "s' = s\<lparr>cs_list := f'\<rparr>" "l' = (popped k m lp', lp', tp)"
    using act at by auto
  have "place_ok (tr_nodes (cs_tree s)) (popped k m lp', lp', tp)"
  proof -
    have tp: "tree_done tp" and "takes lp' \<or> (\<exists>r. lp' = PopReturned r)"
      using list_act_takes [OF _ la] ok by simp_all
    then consider "takes lp'" | "lp' = PopReturned None" | a sz where "lp' = PopReturned (Some (a, sz))"
      by (metis option.exhaust surj_pair)
    then show ?thesis
    proof cases
      case 1
      with tp show ?thesis by (cases lp') simp_all
    qed (use tp in simp_all)
  qed
  then show ?thesis
    unfolding r by (rule safe_list_step [OF safe at la])
qed

lemma safe_AllocNode:
  assumes safe: "conc_safe pb nb s ls" and at: "ls u = (AllocNode a sz m, lp, tp)" and act: "conc_act pe ne (ls u) s = Some (s', l')"
    and nb: "nb \<noteq> 0" and room: "unat nb + cs_noded s < 2 ^ 64"
  shows "conc_safe pb nb s' (ls(u := l'))"
proof -
  note D = conc_safeD [OF safe]
  have ok: "place_ok (tr_nodes (cs_tree s)) (AllocNode a sz m, lp, tp)"
    using D(4) [of u] at by simp
  obtain t where t: "tree_inv_at t (cs_tree s) (tree_pcs ls)"
    using D(3) by (auto simp: tree_inv_def)
  note fresh = node_bump_fresh [OF D(5) room nb]
  let ?raw = "cs_nodeBump s"
  show ?thesis
  proof (cases "?raw + 40 > ne")
    case True
    then have r: "s' = s\<lparr>cs_nodeBump := ?raw + 40, cs_noded := cs_noded s + 40\<rparr>" "l' = (AllocFailed, lp, tp)"
      using act at by (simp_all add: Let_def sizeof_BallocNode_def)
    show ?thesis
      unfolding r by (intro safe_local_step [OF safe at] areas_grow [OF D(5), of _ 40]) (use ok in auto)
  next
    case False
    let ?c = "\<lparr>Addr = a, Size = sz, OwnerMask = normalizeMask m, Left = 0, Right = 0\<rparr>"
    have r: "s' = s\<lparr>cs_nodeBump := ?raw + 40, cs_noded := cs_noded s + 40, cs_tree := set_node (cs_tree s) ?raw ?c,
        cs_taken := (cs_taken s)(a := normalizeMask m)\<rparr>" "l' = (AllocInsert a (normalizeMask m), lp, InsRoot ?raw)"
      using False act at by (simp_all add: Let_def sizeof_BallocNode_def)
    have call: "tree_call (cs_tree s) tp (set_node (cs_tree s) ?raw ?c) (InsRoot ?raw)"
      using ok fresh by (intro call_insert) auto
    show ?thesis
      unfolding r(2)
    proof (rule conc_safe_step [OF safe])
      show "tree_inv (cs_tree s') ((tree_pcs ls)(u := InsRoot ?raw))"
        using tree_call_inv [OF t, of u] call at r by simp
      show "nodes_kept (tr_nodes (cs_tree s)) (tr_nodes (cs_tree s'))"
        unfolding r using nodes_kept_fresh [where h = "tr_nodes (cs_tree s)", OF fresh(2)] by (simp add: set_node_def)
      show "areas_ok pb nb 1 s'"
        by (rule areas_grow [OF D(5), of _ 40]) (use fresh(4) r in \<open>auto simp: set_node_def\<close>)
    qed (use D(1) D(2) [of u] at ok r in simp_all)
  qed
qed

lemma safe_FreeFind:
  assumes safe: "conc_safe pb nb s ls" and at: "ls u = (FreeFind a m, lp, tp)" and act: "conc_act pe ne (ls u) s = Some (s', l')"
  shows "conc_safe pb nb s' (ls(u := l'))"
proof -
  note D = conc_safeD [OF safe]
  have ok: "place_ok (tr_nodes (cs_tree s)) (FreeFind a m, lp, tp)"
    using D(4) [of u] at by simp
  obtain tr tp' where ta: "tree_act True tp (cs_tree s) = Some (tr, tp')"
      and r: "s' = s\<lparr>cs_tree := tr, cs_taken := taken_after a m tp' (cs_taken s)\<rparr>" "l' = (freed a m tp', lp, tp')"
    using act at by auto
  have lp: "list_done lp" and walk: "walks_for (tr_nodes (cs_tree s)) a (ThenClear m) tp"
    using ok by auto
  have "place_ok (tr_nodes tr) (freed a m tp', lp, tp')"
  proof (rule walk_goes_on [OF ta walk])
    fix q m' current r assume c: "tp' = ClearReturned q r" "key (tr_nodes (cs_tree s)) q = a" "tr_nodes (cs_tree s) q \<noteq> None"
    have "\<exists>c. tr_nodes tr q = Some c \<and> Addr c = a"
      using tree_act_nodes(1) [OF ta] c(2,3) by (auto simp: nodes_kept_def key_def)
    with c(1) lp show ?thesis by simp
  qed (use lp in \<open>cases tp'; simp\<close>)+
  then show ?thesis
    unfolding r by (intro safe_tree_step [OF safe at ta]) simp_all
qed

lemma safe_ShareFind:
  assumes safe: "conc_safe pb nb s ls" and at: "ls u = (ShareFind a g m, lp, tp)" and act: "conc_act pe ne (ls u) s = Some (s', l')"
  shows "conc_safe pb nb s' (ls(u := l'))"
proof -
  note D = conc_safeD [OF safe]
  have ok: "place_ok (tr_nodes (cs_tree s)) (ShareFind a g m, lp, tp)"
    using D(4) [of u] at by simp
  obtain tr tp' where ta: "tree_act True tp (cs_tree s) = Some (tr, tp')"
      and r: "s' = s\<lparr>cs_tree := tr, cs_owned := owned_after a (g OR m) tp' (cs_owned s)\<rparr>" "l' = (shared_with a g m tp', lp, tp')"
    using act at by auto
  have lp: "list_done lp" and walk: "walks_for (tr_nodes (cs_tree s)) a (ThenOr m) tp"
    using ok by auto
  have "place_ok (tr_nodes tr) (shared_with a g m tp', lp, tp')"
    by (rule walk_goes_on [OF ta walk]) (use lp in \<open>cases tp'; simp\<close>)+
  then show ?thesis
    unfolding r by (intro safe_tree_step [OF safe at ta]) simp_all
qed

lemma safe_FreeSlot:
  assumes safe: "conc_safe pb nb s ls" and at: "ls u = (FreeSlot a sz, lp, tp)" and act: "conc_act pe ne (ls u) s = Some (s', l')"
    and nb: "nb \<noteq> 0" and room: "unat nb + cs_noded s < 2 ^ 64"
  shows "conc_safe pb nb s' (ls(u := l'))"
proof -
  note D = conc_safeD [OF safe]
  have ok: "place_ok (tr_nodes (cs_tree s)) (FreeSlot a sz, lp, tp)"
    using D(4) [of u] at by simp
  note fresh = node_bump_fresh [OF D(5) room nb]
  let ?raw = "cs_nodeBump s"
  let ?f = "(cs_list s)\<lparr>fl_slots := (fl_slots (cs_list s))(?raw \<mapsto> \<lparr>slot_addr = a, slot_size = sz, slot_next = 0\<rparr>)\<rparr>"
  show ?thesis
  proof (cases "?raw + 24 > ne")
    case True
    then have r: "s' = s\<lparr>cs_nodeBump := ?raw + 24, cs_noded := cs_noded s + 24\<rparr>" "l' = (FreeFailed, lp, tp)"
      using act at by (simp_all add: Let_def sizeof_freeSlot_def)
    show ?thesis
      unfolding r by (intro safe_local_step [OF safe at] areas_grow [OF D(5), of _ 24]) (use ok in auto)
  next
    case False
    have r: "s' = s\<lparr>cs_nodeBump := ?raw + 24, cs_noded := cs_noded s + 24, cs_list := ?f\<rparr>" "l' = (FreePush, PushLoad ?raw Freed, tp)"
      using False act at by (simp_all add: Let_def sizeof_freeSlot_def)
    show ?thesis
      unfolding r(2)
    proof (rule conc_safe_step [OF safe])
      show "list_safe (cs_list s')"
        unfolding r using list_safe_store [OF D(1), of "\<lparr>slot_addr = a, slot_size = sz, slot_next = 0\<rparr>" ?raw] by simp
      show "tree_inv (cs_tree s') ((tree_pcs ls)(u := tp))"
        using D(3) at r by (simp add: fun_upd_idem)
      show "areas_ok pb nb 1 s'"
        by (rule areas_grow [OF D(5), of _ 24]) (use fresh(4) r in auto)
    qed (use ok r in \<open>auto simp: nodes_kept_refl pc_safe_def\<close>)
  qed
qed

lemma safe_act:
  assumes safe: "conc_safe pb nb s ls" and act: "conc_act pe ne (ls u) s = Some (s', l')"
    and nb: "nb \<noteq> 0" and room: "unat nb + cs_noded s < 2 ^ 64"
  shows "conc_safe pb nb s' (ls(u := l'))"
proof -
  note D = conc_safeD [OF safe]
  obtain st lp tp where at: "ls u = (st, lp, tp)" by (cases "ls u")
  have ok: "place_ok (tr_nodes (cs_tree s)) (st, lp, tp)"
    using D(4) [of u] at by simp
  show ?thesis
  proof (cases st)
    case (AllocBump k m)
    have "areas_ok pb nb 1 (s\<lparr>cs_bump := cs_bump s + k, cs_asked := cs_asked s + unat k\<rparr>)"
      using D(5) by (simp add: areas_ok_def)
    then show ?thesis
      using act at ok AllocBump by (auto simp: Let_def simp del: fun_upd_apply intro!: safe_local_step [OF safe at])
  next
    case (AllocInsert a m)
    then obtain tr tp' where ta: "tree_act True tp (cs_tree s) = Some (tr, tp')" and r: "s' = s\<lparr>cs_tree := tr\<rparr>"
        "l' = (if tree_done tp' then AllocCount a m else AllocInsert a m, lp, tp')"
      using act at by auto
    obtain node where "pending tp = Some node"
      using ok AllocInsert by auto
    note go = insert_goes_on [OF ta this]
    show ?thesis
      unfolding r by (rule safe_tree_step [OF safe at ta]) (use go ok AllocInsert in \<open>auto split: if_splits\<close>)
  next
    case (FreeRead a q)
    then show ?thesis
      using act at ok D(5) by (auto simp del: fun_upd_apply intro!: safe_local_step [OF safe at])
  next
    case FreePush
    then obtain f' lp' where la: "list_act lp (cs_list s) = Some (f', lp')" and r: "s' = s\<lparr>cs_list := f'\<rparr>"
        "l' = (if list_done lp' then FreeCount else FreePush, lp', tp)"
      using act at by auto
    have "puts lp"
      using ok FreePush by simp
    from list_act_puts [OF this la] show ?thesis
      unfolding r by (intro safe_list_step [OF safe at la]) (use ok FreePush in auto)
  next
    case (AllocCount a m)
    then show ?thesis
      using act at ok D(5) by (auto simp: areas_ok_def simp del: fun_upd_apply intro!: safe_local_step [OF safe at])
  next
    case FreeCount
    then show ?thesis
      using act at ok D(5) by (auto simp: areas_ok_def simp del: fun_upd_apply intro!: safe_local_step [OF safe at])
  qed (use at act safe_AllocPop [OF safe _ act] safe_AllocNode [OF safe _ act nb room] safe_FreeFind [OF safe _ act]
         safe_ShareFind [OF safe _ act] safe_FreeSlot [OF safe _ act nb room] in \<open>simp_all del: fun_upd_apply\<close>)
qed

lemma safe_call:
  assumes safe: "conc_safe pb nb s ls" and call: "conc_call ask s (ls u) s' l'"
  shows "conc_safe pb nb s' (ls(u := l'))"
  using call
proof cases
  note D = conc_safeD [OF safe]
  obtain t where t: "tree_inv_at t (cs_tree s) (tree_pcs ls)"
    using D(3) by (auto simp: tree_inv_def)
  have find: "tree_inv (cs_tree s) ((tree_pcs ls)(u := FindRoot a k))" if "ls u = (st, lp, tp)" "stage_done st" for st lp tp a k
    using tree_call_inv [OF t, of u] call_find [of tp "cs_tree s" a k] D(4) [of u] that place_ok_idle [OF that(2)] by simp
  {
    case (call_alloc st sz lp tp m)
    show ?thesis
      unfolding call_alloc using D call_alloc(1) place_ok_idle [OF call_alloc(4)] D(4) [of u]
      by (intro conc_safe_step [OF safe]) (simp_all add: nodes_kept_refl fun_upd_idem pc_safe_def)
  next
    case (call_free st m a lp tp)
    show ?thesis
      unfolding call_free(2,3) using D D(2) [of u] find [OF call_free(1,4)] call_free(1) place_ok_idle [OF call_free(4)] D(4) [of u]
      by (intro conc_safe_step [OF safe]) (simp_all add: nodes_kept_refl areas_ok_def)
  next
    case (call_share st g a m lp tp)
    show ?thesis
      unfolding call_share(2,3) using D D(2) [of u] find [OF call_share(1,4)] call_share(1) place_ok_idle [OF call_share(4)] D(4) [of u]
      by (intro conc_safe_step [OF safe]) (simp_all add: nodes_kept_refl areas_ok_def)
  }
qed

definition nodes_in_range :: "uintptr \<Rightarrow> conc_state \<Rightarrow> bool" where
  "nodes_in_range nb s \<longleftrightarrow> nb \<noteq> 0 \<and> unat nb + cs_noded s < 2 ^ 64"

lemma nodes_in_range_back:
  assumes "conc_act pe ne l s = Some (s', l')" "nodes_in_range nb s'"
  shows "nodes_in_range nb s"
proof -
  obtain st lp tp where "l = (st, lp, tp)" by (cases l)
  with assms show ?thesis
    by (cases st) (auto simp: nodes_in_range_def Let_def split: if_splits)
qed

interpretation conc_any_sizes: shared_invariant "conc_act pe ne" "conc_call ask" "\<lambda>s ls. nodes_in_range nb s \<longrightarrow> conc_safe pb nb s ls" for pe ne ask pb nb
proof
  fix s ls u s' l
  assume inv: "nodes_in_range nb s \<longrightarrow> conc_safe pb nb s ls"
  show "nodes_in_range nb s' \<longrightarrow> conc_safe pb nb s' (ls(u := l))" if act: "conc_act pe ne (ls u) s = Some (s', l)"
  proof
    assume "nodes_in_range nb s'"
    from nodes_in_range_back [OF act this] have r: "nodes_in_range nb s" .
    with inv have "conc_safe pb nb s ls" by simp
    from safe_act [where ls = ls and u = u, OF this act] r show "conc_safe pb nb s' (ls(u := l))"
      by (simp add: nodes_in_range_def)
  qed
  show "nodes_in_range nb s' \<longrightarrow> conc_safe pb nb s' (ls(u := l))" if call: "conc_call ask s (ls u) s' l"
  proof -
    have "nodes_in_range nb s' \<longleftrightarrow> nodes_in_range nb s"
      using call by cases (simp_all add: nodes_in_range_def)
    then show ?thesis
      using inv safe_call [where ls = ls and u = u, OF _ call] by blast
  qed
qed

lemma conc_safe_empty: "conc_safe pb nb (empty_balloc pb nb) conc_idle"
  using tree_inv_empty
  by (simp add: conc_safe_def areas_ok_def) (simp add: empty_balloc_def empty_list_def empty_tree_def list_safe_def pc_safe_def)

lemma conc_reach_safe:
  assumes "reach (conc_act pe ne) (conc_call ask) (empty_balloc pb nb, conc_idle) (s, ls)" "nodes_in_range nb s"
  shows "conc_safe pb nb s ls"
  using conc_any_sizes.reach_inv [OF assms(1)] conc_safe_empty assms(2) by blast

end
