(* ===== verification/Conc_Balloc_Alone.thy ===== *)
theory Conc_Balloc_Alone
  imports Conc_Balloc_Safe
begin

text \<open>
  The machine of Conc_Balloc with blocks and requests of any size: no goroutine is ever stuck, a call
  that is left alone returns, and a whole call that runs alone has the effect and the result of the
  sequential \<open>balloc_Alloc\<close>, \<open>balloc_FreeVarying\<close> and \<open>balloc_Share\<close>.
\<close>

section \<open>A call that is left alone\<close>

lemma list_done_stop: "list_done lp \<Longrightarrow> list_act lp f = None"
  by (cases lp) auto

lemma tree_done_stop: "tree_done tp \<Longrightarrow> tree_act r tp s = None"
  by (cases tp) auto

lemma solo_AllocPop:
  assumes "solo list_act k (cs_list s, lp) = (f', lp')" "list_done lp'" "\<not> list_done lp"
  shows "\<exists>j \<le> k. solo (conc_act pe ne) j (s, AllocPop n m, lp, tp) = (s\<lparr>cs_list := f'\<rparr>, popped n m lp', lp', tp)"
proof -
  have "popped n m l = AllocPop n m" if "\<not> list_done l" for l
    using that by (cases l) auto
  then have "\<exists>j \<le> k. solo (conc_act pe ne) j (s\<lparr>cs_list := cs_list s\<rparr>, AllocPop n m, lp, tp) = (s\<lparr>cs_list := f'\<rparr>, popped n m lp', lp', tp)"
    by (intro solo_embed [where fin = list_done and sub = list_act and emb = "\<lambda>f lp. (s\<lparr>cs_list := f\<rparr>, AllocPop n m, lp, tp)"
        and out = "\<lambda>f lp. (s\<lparr>cs_list := f\<rparr>, popped n m lp, lp, tp)", OF _ list_done_stop assms(1-3)]) auto
  then show ?thesis by simp
qed

lemma solo_FreePush:
  assumes "solo list_act k (cs_list s, lp) = (f', lp')" "list_done lp'" "\<not> list_done lp"
  shows "\<exists>j \<le> k. solo (conc_act pe ne) j (s, FreePush, lp, tp) = (s\<lparr>cs_list := f'\<rparr>, FreeCount, lp', tp)"
proof -
  have "\<exists>j \<le> k. solo (conc_act pe ne) j (s\<lparr>cs_list := cs_list s\<rparr>, FreePush, lp, tp) = (s\<lparr>cs_list := f'\<rparr>, FreeCount, lp', tp)"
    by (intro solo_embed [where fin = list_done and sub = list_act and emb = "\<lambda>f lp. (s\<lparr>cs_list := f\<rparr>, FreePush, lp, tp)"
        and out = "\<lambda>f lp. (s\<lparr>cs_list := f\<rparr>, FreeCount, lp, tp)", OF _ list_done_stop assms(1-3)]) auto
  then show ?thesis by simp
qed

lemma solo_AllocInsert:
  assumes "solo (tree_act True) k (cs_tree s, tp) = (tr, tp')" "tree_done tp'" "\<not> tree_done tp"
  shows "\<exists>j \<le> k. solo (conc_act pe ne) j (s, AllocInsert a m, lp, tp) = (s\<lparr>cs_tree := tr\<rparr>, AllocCount a m, lp, tp')"
proof -
  have "\<exists>j \<le> k. solo (conc_act pe ne) j (s\<lparr>cs_tree := cs_tree s\<rparr>, AllocInsert a m, lp, tp) = (s\<lparr>cs_tree := tr\<rparr>, AllocCount a m, lp, tp')"
    by (intro solo_embed [where fin = tree_done and sub = "tree_act True" and emb = "\<lambda>tr tp. (s\<lparr>cs_tree := tr\<rparr>, AllocInsert a m, lp, tp)"
        and out = "\<lambda>tr tp. (s\<lparr>cs_tree := tr\<rparr>, AllocCount a m, lp, tp)", OF _ tree_done_stop assms(1-3)]) auto
  then show ?thesis by simp
qed

lemma solo_FreeFind:
  assumes "solo (tree_act True) k (cs_tree s, tp) = (tr, tp')" "tree_done tp'" "\<not> tree_done tp"
  shows "\<exists>j \<le> k. solo (conc_act pe ne) j (s, FreeFind a m, lp, tp) =
    (s\<lparr>cs_tree := tr, cs_taken := taken_after a m tp' (cs_taken s)\<rparr>, freed a m tp', lp, tp')"
proof -
  have go: "freed a m l = FreeFind a m" "taken_after a m l w = w" if "\<not> tree_done l" for l w
    using that by (cases l; simp)+
  have "\<exists>j \<le> k. solo (conc_act pe ne) j (s\<lparr>cs_tree := cs_tree s\<rparr>, FreeFind a m, lp, tp) =
      (s\<lparr>cs_tree := tr, cs_taken := taken_after a m tp' (cs_taken s)\<rparr>, freed a m tp', lp, tp')"
    by (intro solo_embed [where fin = tree_done and sub = "tree_act True" and emb = "\<lambda>tr tp. (s\<lparr>cs_tree := tr\<rparr>, FreeFind a m, lp, tp)"
        and out = "\<lambda>tr tp. (s\<lparr>cs_tree := tr, cs_taken := taken_after a m tp (cs_taken s)\<rparr>, freed a m tp, lp, tp)", OF _ tree_done_stop assms(1-3)])
       (auto simp: go)
  then show ?thesis by simp
qed

lemma solo_ShareFind:
  assumes "solo (tree_act True) k (cs_tree s, tp) = (tr, tp')" "tree_done tp'" "\<not> tree_done tp"
  shows "\<exists>j \<le> k. solo (conc_act pe ne) j (s, ShareFind a g m, lp, tp) =
    (s\<lparr>cs_tree := tr, cs_owned := owned_after a (g OR m) tp' (cs_owned s)\<rparr>, shared_with a g m tp', lp, tp')"
proof -
  have go: "shared_with a g m l = ShareFind a g m" "owned_after a (g OR m) l w = w" if "\<not> tree_done l" for l w
    using that by (cases l; simp)+
  have "\<exists>j \<le> k. solo (conc_act pe ne) j (s\<lparr>cs_tree := cs_tree s\<rparr>, ShareFind a g m, lp, tp) =
      (s\<lparr>cs_tree := tr, cs_owned := owned_after a (g OR m) tp' (cs_owned s)\<rparr>, shared_with a g m tp', lp, tp')"
    by (intro solo_embed [where fin = tree_done and sub = "tree_act True" and emb = "\<lambda>tr tp. (s\<lparr>cs_tree := tr\<rparr>, ShareFind a g m, lp, tp)"
        and out = "\<lambda>tr tp. (s\<lparr>cs_tree := tr, cs_owned := owned_after a (g OR m) tp (cs_owned s)\<rparr>, shared_with a g m tp, lp, tp)", OF _ tree_done_stop assms(1-3)])
       (auto simp: go)
  then show ?thesis by simp
qed

section \<open>Every call returns\<close>

abbreviation conc_returns :: "uintptr \<Rightarrow> uintptr \<Rightarrow> nat \<Rightarrow> conc_state \<Rightarrow> conc_local \<Rightarrow> bool" where
  "conc_returns pe ne \<equiv> returns_within (conc_act pe ne) (\<lambda>l. stage_done (fst l))"

text \<open>From the bound of a part and the bound of what follows it.\<close>

lemma returns_part:
  assumes part: "returns_within sub fin k x m"
    and lift: "\<And>i x' m'. solo sub i (x, m) = (x', m') \<Longrightarrow> fin m' \<Longrightarrow> \<exists>j \<le> i. solo (conc_act pe ne) j (s, l) = out x' m'"
    and rest: "\<And>x' m'. fin m' \<Longrightarrow> conc_returns pe ne r (fst (out x' m')) (snd (out x' m'))"
  shows "conc_returns pe ne (k + r) s l"
proof -
  obtain i x' m' where i: "i \<le> k" "solo sub i (x, m) = (x', m')" "fin m'"
    using part unfolding returns_within_def by (metis surj_pair snd_conv)
  obtain j where j: "j \<le> i" "solo (conc_act pe ne) j (s, l) = out x' m'"
    using lift [OF i(2,3)] by blast
  show ?thesis
    by (rule returns_within_solo [of _ j _ _ "fst (out x' m')" "snd (out x' m')"]) (use j i rest [OF i(3)] in auto)
qed

lemma returns_AllocCount: "conc_returns pe ne 1 s (AllocCount a m, lp, tp)"
  unfolding returns_within_def by (intro exI [of _ 1]) simp

lemma returns_FreeCount: "conc_returns pe ne 1 s (FreeCount, lp, tp)"
  unfolding returns_within_def by (intro exI [of _ 1]) simp

lemma returns_AllocInsert:
  assumes "tree_returns True k (cs_tree s) tp" "\<not> tree_done tp"
  shows "conc_returns pe ne (k + 1) s (AllocInsert a m, lp, tp)"
  by (rule returns_part [OF assms(1) solo_AllocInsert [OF _ _ assms(2)]]) (auto intro: returns_AllocCount [unfolded One_nat_def])

lemma returns_AllocNode:
  assumes t: "mem_tree (tr_nodes (cs_tree s)) (tr_root (cs_tree s)) t" and fresh: "tr_nodes (cs_tree s) (cs_nodeBump s) = None" "cs_nodeBump s \<noteq> 0"
  shows "conc_returns pe ne (Suc (height t + 2 + 1)) s (AllocNode a sz m, lp, tp)"
proof (cases "cs_nodeBump s + 40 > ne")
  case True
  then have "conc_act pe ne (AllocNode a sz m, lp, tp) s = Some (s\<lparr>cs_nodeBump := cs_nodeBump s + 40, cs_noded := cs_noded s + 40\<rparr>, AllocFailed, lp, tp)"
    by (simp add: Let_def sizeof_BallocNode_def)
  then show ?thesis
    by (rule returns_within_step) (simp add: returns_within_done)
next
  case False
  let ?raw = "cs_nodeBump s" and ?c = "\<lparr>Addr = a, Size = sz, OwnerMask = normalizeMask m, Left = 0, Right = 0\<rparr>"
  let ?s = "s\<lparr>cs_nodeBump := ?raw + 40, cs_noded := cs_noded s + 40, cs_tree := set_node (cs_tree s) ?raw ?c,
          cs_taken := (cs_taken s)(a := normalizeMask m)\<rparr>"
  have act: "conc_act pe ne (AllocNode a sz m, lp, tp) s = Some (?s, AllocInsert a (normalizeMask m), lp, InsRoot ?raw)"
    using False by (simp add: Let_def sizeof_BallocNode_def)
  have "?raw \<notin> set_tree t"
    using mem_tree_dom [OF t] fresh(1) by fastforce
  then have "new_node (tr_nodes (cs_tree ?s)) t ?raw"
    using fresh by (simp add: new_node_def set_node_def)
  moreover have "mem_tree (tr_nodes (cs_tree ?s)) (tr_root (cs_tree ?s)) t"
    using fresh_ext [OF t fresh(1), of ?c] by (simp add: set_node_def)
  ultimately have "tree_returns True (height t + 2) (cs_tree ?s) (InsRoot ?raw)"
    by (intro returns_InsRoot)
  from returns_AllocInsert [OF this] show ?thesis
    by (intro returns_within_step [where act = "conc_act pe ne", OF act]) simp
qed

lemma returns_AllocBump:
  assumes "mem_tree (tr_nodes (cs_tree s)) (tr_root (cs_tree s)) t" "tr_nodes (cs_tree s) (cs_nodeBump s) = None" "cs_nodeBump s \<noteq> 0"
  shows "conc_returns pe ne (Suc (Suc (height t + 2 + 1))) s (AllocBump n m, lp, tp)"
proof -
  obtain s' st where s': "conc_act pe ne (AllocBump n m, lp, tp) s = Some (s', st, lp, tp)" "cs_tree s' = cs_tree s" "cs_nodeBump s' = cs_nodeBump s"
      and st: "st = AllocFailed \<or> (\<exists>a. st = AllocNode a n m)"
    by (simp add: Let_def)
  have "conc_returns pe ne (Suc (height t + 2 + 1)) s' (st, lp, tp)"
    using st returns_AllocNode [of s' t] assms s'(2,3) by (auto simp: returns_within_done)
  then show ?thesis
    by (rule returns_within_step [where act = "conc_act pe ne", OF s'(1)])
qed

lemma returns_AllocPop:
  assumes list: "returns_in 9 (cs_list s) lp" "takes lp"
    and tree: "mem_tree (tr_nodes (cs_tree s)) (tr_root (cs_tree s)) t" "tr_nodes (cs_tree s) (cs_nodeBump s) = None" "cs_nodeBump s \<noteq> 0"
  shows "conc_returns pe ne (9 + Suc (Suc (height t + 2 + 1))) s (AllocPop n m, lp, tp)"
proof -
  have busy: "\<not> list_done lp"
    using list(2) by (cases lp) auto
  have keep: "takes (snd (solo list_act i (f, l))) \<or> (\<exists>r. snd (solo list_act i (f, l)) = PopReturned r)" if "takes l" for i f l
    using that
  proof (induction i arbitrary: f l)
    case (Suc i)
    show ?case
    proof (cases "list_act l f")
      case (Some fl)
      obtain f' l' where fl: "fl = (f', l')" by (cases fl)
      from list_act_takes [OF Suc.prems Some [unfolded fl]] show ?thesis
        using Suc.IH [of l' f'] Some fl solo_stuck [of list_act] by fastforce
    qed (use Suc.prems in simp)
  qed simp
  obtain i f' lp' where i: "i \<le> 9" "solo list_act i (cs_list s, lp) = (f', lp')" "list_done lp'"
    using list(1) unfolding returns_within_def by (metis surj_pair snd_conv)
  have "takes lp' \<or> (\<exists>r. lp' = PopReturned r)"
    using keep [OF list(2), of i "cs_list s"] i(2) by simp
  then obtain r where r: "lp' = PopReturned r"
    using i(3) by (cases lp') auto
  obtain j where j: "j \<le> i" "solo (conc_act pe ne) j (s, AllocPop n m, lp, tp) = (s\<lparr>cs_list := f'\<rparr>, popped n m lp', lp', tp)"
    using solo_AllocPop [OF i(2,3) busy] by blast
  have "conc_returns pe ne (Suc (Suc (height t + 2 + 1))) (s\<lparr>cs_list := f'\<rparr>) (popped n m lp', lp', tp)"
  proof (cases r)
    case None
    then show ?thesis
      using returns_AllocBump [of "s\<lparr>cs_list := f'\<rparr>" t] tree r by simp
  next
    case (Some asz)
    obtain a sz where "asz = (a, sz)" by (cases asz)
    moreover have "conc_returns pe ne (Suc (height t + 2 + 1)) (s\<lparr>cs_list := f'\<rparr>) (AllocNode a sz m, lp', tp)"
      using tree by (intro returns_AllocNode) simp_all
    ultimately show ?thesis
      using Some r by (auto intro: returns_within_mono)
  qed
  from returns_within_solo [OF j(2) _ this, of 9] j(1) i(1) show ?thesis by simp
qed

lemma returns_FreePush:
  assumes "returns_in k (cs_list s) lp" "\<not> list_done lp"
  shows "conc_returns pe ne (k + 1) s (FreePush, lp, tp)"
  by (rule returns_part [OF assms(1) solo_FreePush [OF _ _ assms(2)]]) (auto intro: returns_FreeCount [unfolded One_nat_def])

lemma returns_FreeSlot: "conc_returns pe ne 5 s (FreeSlot a sz, lp, tp)"
proof (cases "cs_nodeBump s + 24 > ne")
  case True
  then have "conc_act pe ne (FreeSlot a sz, lp, tp) s = Some (s\<lparr>cs_nodeBump := cs_nodeBump s + 24, cs_noded := cs_noded s + 24\<rparr>, FreeFailed, lp, tp)"
    by (simp add: Let_def sizeof_freeSlot_def)
  from returns_within_step [where act = "conc_act pe ne", OF this returns_within_done, of _ 4] show ?thesis by simp
next
  case False
  let ?raw = "cs_nodeBump s" and ?x = "\<lparr>slot_addr = a, slot_size = sz, slot_next = 0\<rparr>"
  let ?s = "s\<lparr>cs_nodeBump := ?raw + 24, cs_noded := cs_noded s + 24, cs_list := (cs_list s)\<lparr>fl_slots := (fl_slots (cs_list s))(?raw \<mapsto> ?x)\<rparr>\<rparr>"
  have act: "conc_act pe ne (FreeSlot a sz, lp, tp) s = Some (?s, FreePush, PushLoad ?raw Freed, tp)"
    using False by (simp add: Let_def sizeof_freeSlot_def)
  have "returns_in 3 (cs_list ?s) (PushLoad ?raw Freed)"
    by (rule returns_in_PushLoad) (simp add: pc_safe_def)
  from returns_FreePush [OF this] have "conc_returns pe ne 4 ?s (FreePush, PushLoad ?raw Freed, tp)"
    by simp
  from returns_within_step [where act = "conc_act pe ne", OF act this] show ?thesis by simp
qed

lemma returns_FreeRead:
  assumes "tr_nodes (cs_tree s) q \<noteq> None"
  shows "conc_returns pe ne 6 s (FreeRead a q, lp, tp)"
proof -
  obtain c where "tr_nodes (cs_tree s) q = Some c"
    using assms by auto
  then have "conc_act pe ne (FreeRead a q, lp, tp) s = Some (s, FreeSlot (Addr c) (Size c), lp, tp)"
    by simp
  from returns_within_step [where act = "conc_act pe ne", OF this returns_FreeSlot] show ?thesis by simp
qed

text \<open>How a walk ends.\<close>

fun walk_end :: "node_store \<Rightarrow> find_then \<Rightarrow> tree_pc \<Rightarrow> bool" where
  "walk_end h k (FindReturned b p) = True"
| "walk_end h (ThenClear m) (ClearReturned q r) = (h q \<noteq> None)"
| "walk_end h (ThenOr m) (OrReturned q) = True"
| "walk_end h k tp = False"

lemma walk_result:
  assumes "walks_for (tr_nodes s) a k tp" "k \<noteq> ThenReturn" "solo (tree_act True) i (s, tp) = (s', tp')" "tree_done tp'"
  shows "walk_end (tr_nodes s') k tp'"
  using assms(1,3)
proof (induction i arbitrary: s tp)
  case 0
  then show ?case
    using assms(4) by (cases tp) auto
next
  case (Suc i)
  have "\<not> tree_done tp"
    using Suc.prems(1) by (cases tp) auto
  then obtain s1 tp1 where act: "tree_act True tp s = Some (s1, tp1)"
    using Suc.prems assms(4) by (cases "tree_act True tp s") auto
  then have go: "solo (tree_act True) i (s1, tp1) = (s', tp')"
    using Suc.prems(2) by simp
  have stop: "s' = s1 \<and> tp' = tp1" if "tree_done tp1"
    using go solo_stuck [of "tree_act True" tp1 s1 i, OF tree_done_stop [OF that]] by simp
  show ?case
  proof (rule walk_goes_on [OF act Suc.prems(1) assms(2)])
    assume "walks_for (tr_nodes s1) a k tp1"
    from Suc.IH [OF this go] show ?thesis .
  next
    fix q m current r assume c: "tp1 = ClearReturned q r" "k = ThenClear m" "tr_nodes s q \<noteq> None"
    with stop show ?thesis
      using tree_act_nodes(2) [OF act] by auto
  qed (use stop in auto)
qed

lemma returns_FreeFind:
  assumes "tree_returns True k (cs_tree s) tp" "walks_for (tr_nodes (cs_tree s)) a (ThenClear m) tp"
  shows "conc_returns pe ne (k + 6) s (FreeFind a m, lp, tp)"
proof -
  have busy: "\<not> tree_done tp"
    using assms(2) by (cases tp) auto
  obtain i tr tp' where i: "i \<le> k" "solo (tree_act True) i (cs_tree s, tp) = (tr, tp')" "tree_done tp'"
    using assms(1) unfolding returns_within_def by (metis surj_pair snd_conv)
  let ?s = "s\<lparr>cs_tree := tr, cs_taken := taken_after a m tp' (cs_taken s)\<rparr>"
  obtain j where j: "j \<le> i" "solo (conc_act pe ne) j (s, FreeFind a m, lp, tp) = (?s, freed a m tp', lp, tp')"
    using solo_FreeFind [OF i(2,3) busy] by blast
  have "conc_returns pe ne 6 ?s (freed a m tp', lp, tp')"
  proof -
    have "walk_end (tr_nodes tr) (ThenClear m) tp'"
      by (rule walk_result [OF assms(2) _ i(2,3)]) simp
    then show ?thesis
      using returns_FreeRead [of ?s] by (cases tp') (simp_all add: returns_within_done)
  qed
  from returns_within_solo [OF j(2) _ this, of k] j(1) i(1) show ?thesis by simp
qed

lemma returns_ShareFind:
  assumes "tree_returns True k (cs_tree s) tp" "walks_for (tr_nodes (cs_tree s)) a (ThenOr m) tp"
  shows "conc_returns pe ne k s (ShareFind a g m, lp, tp)"
proof -
  have busy: "\<not> tree_done tp"
    using assms(2) by (cases tp) auto
  obtain i tr tp' where i: "i \<le> k" "solo (tree_act True) i (cs_tree s, tp) = (tr, tp')" "tree_done tp'"
    using assms(1) unfolding returns_within_def by (metis surj_pair snd_conv)
  have "walk_end (tr_nodes tr) (ThenOr m) tp'"
    by (rule walk_result [OF assms(2) _ i(2,3)]) simp
  then have "stage_done (shared_with a g m tp')"
    by (cases tp') simp_all
  moreover obtain j where "j \<le> i" "solo (conc_act pe ne) j (s, ShareFind a g m, lp, tp) =
      (s\<lparr>cs_tree := tr, cs_owned := owned_after a (g OR m) tp' (cs_owned s)\<rparr>, shared_with a g m tp', lp, tp')"
    using solo_ShareFind [OF i(2,3) busy] by blast
  ultimately show ?thesis
    unfolding returns_within_def using i(1) by (intro exI [of _ j]) auto
qed

text \<open>At every place, the bound of what is left.\<close>

lemma returns_Alloc_stages:
  assumes list: "returns_in 9 (cs_list s) lp" and tree: "tree_returns True (height t + 3) (cs_tree s) tp"
    and T: "mem_tree (tr_nodes (cs_tree s)) (tr_root (cs_tree s)) t" and fresh: "tr_nodes (cs_tree s) (cs_nodeBump s) = None" "cs_nodeBump s \<noteq> 0"
    and place: "place_ok (tr_nodes (cs_tree s)) (st, lp, tp)"
    and st: "st = AllocPop n m \<or> st = AllocBump n m \<or> st = AllocNode a n m \<or> st = AllocInsert a m \<or> st = AllocCount a m"
  shows "conc_returns pe ne (height t + 14) s (st, lp, tp)"
proof -
  have enough: ?thesis if "conc_returns pe ne k s (st, lp, tp)" "k \<le> height t + 14" for k
    using that by (rule returns_within_mono)
  consider "st = AllocPop n m" | "st = AllocBump n m" | "st = AllocNode a n m" | "st = AllocInsert a m" | "st = AllocCount a m"
    using st by blast
  then show ?thesis
  proof cases
    case 1
    then show ?thesis
      using enough [of "9 + Suc (Suc (height t + 2 + 1))"] returns_AllocPop [OF list _ T fresh] place by simp
  next
    case 2
    then show ?thesis
      using enough [of "Suc (Suc (height t + 2 + 1))"] returns_AllocBump [OF T fresh] by simp
  next
    case 3
    then show ?thesis
      using enough [of "Suc (height t + 2 + 1)"] returns_AllocNode [OF T fresh] by simp
  next
    case 4
    then have "\<not> tree_done tp"
      using place by (cases tp) auto
    then show ?thesis
      using enough [of "height t + 3 + 1"] returns_AllocInsert [OF tree] 4 by simp
  next
    case 5
    then show ?thesis
      using enough [of 1] returns_AllocCount by simp
  qed
qed

lemma returns_Free_stages:
  assumes list: "returns_in 9 (cs_list s) lp" and tree: "tree_returns True (height t + 3) (cs_tree s) tp"
    and place: "place_ok (tr_nodes (cs_tree s)) (st, lp, tp)"
    and st: "st = FreeFind a m \<or> st = FreeRead a q \<or> st = FreeSlot a n \<or> st = FreePush \<or> st = FreeCount \<or> st = ShareFind a g m"
  shows "conc_returns pe ne (height t + 14) s (st, lp, tp)"
proof -
  have enough: ?thesis if "conc_returns pe ne k s (st, lp, tp)" "k \<le> height t + 14" for k
    using that by (rule returns_within_mono)
  consider "st = FreeFind a m" | "st = FreeRead a q" | "st = FreeSlot a n" | "st = FreePush" | "st = FreeCount" | "st = ShareFind a g m"
    using st by blast
  then show ?thesis
  proof cases
    case 1
    then show ?thesis
      using enough [of "height t + 3 + 6"] returns_FreeFind [OF tree] place by simp
  next
    case 2
    then show ?thesis
      using enough [of 6] returns_FreeRead place by force
  next
    case 3
    then show ?thesis
      using enough [of 5] returns_FreeSlot by simp
  next
    case 4
    then have "\<not> list_done lp"
      using place by (cases lp) auto
    then show ?thesis
      using enough [of "9 + 1"] returns_FreePush [OF list] 4 by simp
  next
    case 5
    then show ?thesis
      using enough [of 1] returns_FreeCount by simp
  next
    case 6
    then show ?thesis
      using enough [of "height t + 3"] returns_ShareFind [OF tree] place by simp
  qed
qed

lemma conc_alone_returns:
  assumes safe: "conc_safe pb nb s ls" and range: "nodes_in_range nb s"
  shows "\<exists>t. mem_tree (tr_nodes (cs_tree s)) (tr_root (cs_tree s)) t \<and> (\<forall>u. conc_returns pe ne (height t + 14) s (ls u))"
proof -
  note D = conc_safeD [OF safe]
  obtain t where t: "tree_inv_at t (cs_tree s) (tree_pcs ls)"
    using D(3) by (auto simp: tree_inv_def)
  have fresh: "tr_nodes (cs_tree s) (cs_nodeBump s) = None" "cs_nodeBump s \<noteq> 0"
    using node_bump_fresh [OF D(5)] range by (simp_all add: nodes_in_range_def)
  note T = tree_inv_atD(1) [OF t]
  have "conc_returns pe ne (height t + 14) s (ls u)" for u
  proof -
    obtain st lp tp where at: "ls u = (st, lp, tp)" by (cases "ls u")
    have place: "place_ok (tr_nodes (cs_tree s)) (st, lp, tp)"
      using D(4) [of u] at by simp
    have list: "returns_in 9 (cs_list s) lp"
      using alone_returns [OF D(1) D(2) [of u]] at by simp
    have tree: "tree_returns True (height t + 3) (cs_tree s) tp"
      using tree_alone [OF t, of True u] at by simp
    note A = returns_Alloc_stages [OF list tree T fresh place, of _ _ _ pe ne] and F = returns_Free_stages [OF list tree place, of _ _ _ _ _ pe ne]
    show ?thesis
      unfolding at using A F by (cases st) (auto simp: returns_within_done)
  qed
  then show ?thesis
    using T by blast
qed

section \<open>A whole call alone is the sequential call\<close>

text \<open>The sequential allocator that the shared words make up, with the fields of \<open>b\<close> that do not change.\<close>

definition as_seq :: "BlockAllocator \<Rightarrow> conc_state \<Rightarrow> BlockAllocator" where
  "as_seq b s = b\<lparr>nodes := tr_nodes (cs_tree s), MemTree := tr_root (cs_tree s), slots := fl_slots (cs_list s),
     freeList := fl_root (cs_list s), bump := cs_bump s, nodeBump := cs_nodeBump s, activeBlocks := cs_active s\<rparr>"

lemma as_seq_simps [simp]:
  "nodes (as_seq b s) = tr_nodes (cs_tree s)" "MemTree (as_seq b s) = tr_root (cs_tree s)" "slots (as_seq b s) = fl_slots (cs_list s)"
  "freeList (as_seq b s) = fl_root (cs_list s)" "bump (as_seq b s) = cs_bump s" "nodeBump (as_seq b s) = cs_nodeBump s"
  "activeBlocks (as_seq b s) = cs_active s" "payloadEnd (as_seq b s) = payloadEnd b" "nodeEnd (as_seq b s) = nodeEnd b"
  "closed (as_seq b s) = closed b" "Pandiagonal (as_seq b s) = Pandiagonal b" "Scale (as_seq b s) = Scale b" "mapping (as_seq b s) = mapping b"
  by (simp_all add: as_seq_def)

text \<open>What a goroutine returns, beside what the sequential call returns.\<close>

fun alloc_agrees :: "BlockAllocator \<Rightarrow> int \<Rightarrow> conc_state \<Rightarrow> alloc_stage \<Rightarrow> BlockAllocator \<times> (uintptr \<times> int) outcome \<Rightarrow> bool" where
  "alloc_agrees b bucket s (AllocReturned a) r \<longleftrightarrow> r = (as_seq b s, Ok (a, bucket))"
| "alloc_agrees b bucket s AllocFailed r \<longleftrightarrow> r = (as_seq b s, Err Balloc_ErrOutOfMemory)"
| "alloc_agrees b bucket s st r \<longleftrightarrow> False"

fun free_agrees :: "BlockAllocator \<Rightarrow> conc_state \<Rightarrow> alloc_stage \<Rightarrow> BlockAllocator \<times> bool outcome \<Rightarrow> bool" where
  "free_agrees b s (FreeReturned x) r \<longleftrightarrow> r = (as_seq b s, Ok x)"
| "free_agrees b s FreeFailed r \<longleftrightarrow> (\<exists>e \<in> {Balloc_ErrNotFound, Balloc_ErrOutOfMemory}. r = (as_seq b s, Err e))"
| "free_agrees b s st r \<longleftrightarrow> False"

fun share_agrees :: "BlockAllocator \<Rightarrow> conc_state \<Rightarrow> alloc_stage \<Rightarrow> BlockAllocator \<times> unit outcome \<Rightarrow> bool" where
  "share_agrees b s ShareReturned r \<longleftrightarrow> r = (as_seq b s, Ok ())"
| "share_agrees b s ShareFailed r \<longleftrightarrow> r = (as_seq b s, Err Balloc_ErrNotFound)"
| "share_agrees b s st r \<longleftrightarrow> False"

lemma alone_AllocNode:
  assumes t: "mem_tree (tr_nodes (cs_tree s)) (tr_root (cs_tree s)) t" and fresh: "tr_nodes (cs_tree s) (cs_nodeBump s) = None" "cs_nodeBump s \<noteq> 0"
    and ne: "nodeEnd b = ne"
  shows "\<exists>s' l'. runs_to (conc_act pe ne) (s, AllocNode a sz m, lp, tp) (s', l') \<and>
    alloc_agrees b bucket s' (fst l') (alloc_node (as_seq b s) a sz m bucket)"
proof -
  let ?raw = "cs_nodeBump s" and ?c = "\<lparr>Addr = a, Size = sz, OwnerMask = normalizeMask m, Left = 0, Right = 0\<rparr>"
  show ?thesis
  proof (cases "?raw + 40 > ne")
    case True
    let ?s = "s\<lparr>cs_nodeBump := ?raw + 40, cs_noded := cs_noded s + 40\<rparr>"
    have act: "conc_act pe ne (AllocNode a sz m, lp, tp) s = Some (?s, AllocFailed, lp, tp)"
      using True by (simp add: Let_def sizeof_BallocNode_def)
    have "alloc_node (as_seq b s) a sz m bucket = (as_seq b ?s, Err Balloc_ErrOutOfMemory)"
      using True ne by (simp add: alloc_node_def newNode_def Let_def sizeof_BallocNode_def) (simp add: as_seq_def)
    then show ?thesis
      using runs_to_step [where act = "conc_act pe ne", OF act runs_to_refl] by (intro exI conjI) (assumption, simp)
  next
    case False
    let ?s = "s\<lparr>cs_nodeBump := ?raw + 40, cs_noded := cs_noded s + 40, cs_tree := set_node (cs_tree s) ?raw ?c,
            cs_taken := (cs_taken s)(a := normalizeMask m)\<rparr>"
    have act: "conc_act pe ne (AllocNode a sz m, lp, tp) s = Some (?s, AllocInsert a (normalizeMask m), lp, InsRoot ?raw)"
      using False by (simp add: Let_def sizeof_BallocNode_def)
    have "?raw \<notin> set_tree t"
      using mem_tree_dom [OF t] fresh(1) by fastforce
    then have new: "new_node (tr_nodes (cs_tree ?s)) t ?raw"
      using fresh by (simp add: new_node_def set_node_def)
    have t': "mem_tree (tr_nodes (cs_tree ?s)) (tr_root (cs_tree ?s)) t"
      using fresh_ext [OF t fresh(1), of ?c] by (simp add: set_node_def)
    obtain k h r p where ins: "solo (tree_act True) k (cs_tree ?s, InsRoot ?raw) = ((cs_tree ?s)\<lparr>tr_nodes := h, tr_root := r\<rparr>, InsReturned ?raw p)"
        "insertNode (tr_nodes (cs_tree ?s)) (tr_root (cs_tree ?s)) ?raw = Some (h, r, p)"
      using insertNode_alone [OF t' new] by blast
    let ?tr = "(cs_tree ?s)\<lparr>tr_nodes := h, tr_root := r\<rparr>"
    let ?s2 = "?s\<lparr>cs_tree := ?tr\<rparr>" and ?w = "normalizeMask m"
    let ?s3 = "?s2\<lparr>cs_active := cs_active ?s2 + 1, cs_owned := (cs_owned ?s2)(a := cs_owned ?s2 a OR ?w)\<rparr>"
    have count: "conc_act pe ne (AllocCount a ?w, lp, InsReturned ?raw p) ?s2 = Some (?s3, AllocReturned a, lp, InsReturned ?raw p)"
      by simp
    have "runs_to (conc_act pe ne) (?s, AllocInsert a ?w, lp, InsRoot ?raw) (?s3, AllocReturned a, lp, InsReturned ?raw p)"
      by (rule runs_to_part [OF solo_AllocInsert [OF ins(1)] runs_to_step [where act = "conc_act pe ne", OF count runs_to_refl]]) simp_all
    then have "runs_to (conc_act pe ne) (s, AllocNode a sz m, lp, tp) (?s3, AllocReturned a, lp, InsReturned ?raw p)"
      by (rule runs_to_step [where act = "conc_act pe ne", OF act])
    moreover have "alloc_node (as_seq b s) a sz m bucket = (as_seq b ?s3, Ok (a, bucket))"
      using False ne ins(2) by (simp add: alloc_node_def newNode_def Let_def sizeof_BallocNode_def set_node_def) (simp add: as_seq_def)
    ultimately show ?thesis
      by (intro exI conjI) (assumption, simp)
  qed
qed

lemma alone_Alloc:
  assumes safe: "conc_safe pb nb s ls" and range: "nodes_in_range nb s"
    and b: "payloadEnd b = pe" "nodeEnd b = ne" "closed b = 0" and sz: "sz \<noteq> 0" "n = alignUp sz 8"
    and bucket: "balloc_Bucket G b th ch = Ok bucket"
  shows "\<exists>s' l'. runs_to (conc_act pe ne) (s, AllocPop n m, PopLoad n, tp) (s', l') \<and>
    alloc_agrees b bucket s' (fst l') (balloc_Alloc G (as_seq b s) sz m th ch)"
proof -
  note D = conc_safeD [OF safe]
  obtain t where t: "mem_tree (tr_nodes (cs_tree s)) (tr_root (cs_tree s)) t"
    using D(3) by (auto simp: tree_inv_def tree_inv_at_def)
  note fresh = node_bump_fresh [OF D(5)] and bucket' = bucket [unfolded balloc_Bucket_def]
  have fresh: "tr_nodes (cs_tree s) (cs_nodeBump s) = None" "cs_nodeBump s \<noteq> 0"
    using node_bump_fresh [OF D(5)] range by (simp_all add: nodes_in_range_def)
  obtain k f' r where pop: "solo list_act k (cs_list s, PopLoad n) = (f', PopReturned r)"
      "popFree (fl_slots (cs_list s)) (fl_root (cs_list s)) n = Some (fl_slots f', fl_root f', r)"
    using popFree_alone [OF D(1)] by blast
  let ?s = "s\<lparr>cs_list := f'\<rparr>"
  have run: "runs_to (conc_act pe ne) (s, AllocPop n m, PopLoad n, tp) e"
    if "runs_to (conc_act pe ne) (?s, popped n m (PopReturned r), PopReturned r, tp) e" for e
    by (rule runs_to_part [OF solo_AllocPop [OF pop(1)] that]) simp_all
  have seq: "as_seq b ?s = (as_seq b s)\<lparr>slots := fl_slots f', freeList := fl_root f'\<rparr>"
    by (simp add: as_seq_def)
  show ?thesis
  proof (cases r)
    case (Some asz)
    obtain a w where asz: "asz = (a, w)" by (cases asz)
    have "balloc_Alloc G (as_seq b s) sz m th ch = alloc_node (as_seq b ?s) a w m bucket"
      using pop(2) b(3) sz(1) bucket' Some asz by (simp add: balloc_Alloc_def balloc_Bucket_def seq sz(2) [symmetric])
    moreover obtain s' l' where "runs_to (conc_act pe ne) (?s, AllocNode a w m, PopReturned r, tp) (s', l')"
        "alloc_agrees b bucket s' (fst l') (alloc_node (as_seq b ?s) a w m bucket)"
      using alone_AllocNode [of ?s t b ne pe a w m "PopReturned r" tp bucket] t fresh b(2) by auto
    ultimately show ?thesis
      using run [of "(s', l')"] Some asz by (intro exI [of _ s'] exI [of _ l']) simp
  next
    case None
    let ?s2 = "?s\<lparr>cs_bump := cs_bump s + n, cs_asked := cs_asked s + unat n\<rparr>"
    have seq2: "as_seq b ?s2 = (as_seq b s)\<lparr>slots := fl_slots f', freeList := fl_root f', bump := cs_bump s + n\<rparr>"
      by (simp add: as_seq_def)
    have act: "conc_act pe ne (AllocBump n m, PopReturned r, tp) ?s =
        Some (?s2, if cs_bump s + n > pe then AllocFailed else AllocNode (cs_bump s) n m, PopReturned r, tp)"
      by (simp add: Let_def)
    have seq3: "balloc_Alloc G (as_seq b s) sz m th ch =
        (if cs_bump s + n > pe then (as_seq b ?s2, Err Balloc_ErrOutOfMemory) else alloc_node (as_seq b ?s2) (cs_bump s) n m bucket)"
      using pop(2) b sz(1) bucket' None by (simp add: balloc_Alloc_def balloc_Bucket_def seq2 Let_def sz(2) [symmetric])
    show ?thesis
    proof (cases "cs_bump s + n > pe")
      case True
      then have "runs_to (conc_act pe ne) (s, AllocPop n m, PopLoad n, tp) (?s2, AllocFailed, PopReturned r, tp)"
        using run runs_to_step [where act = "conc_act pe ne", OF act runs_to_refl] None by simp
      then show ?thesis
        using seq3 True by (intro exI conjI) (assumption, simp)
    next
      case False
      obtain s' l' where "runs_to (conc_act pe ne) (?s2, AllocNode (cs_bump s) n m, PopReturned r, tp) (s', l')"
          "alloc_agrees b bucket s' (fst l') (alloc_node (as_seq b ?s2) (cs_bump s) n m bucket)"
        using alone_AllocNode [of ?s2 t b ne pe "cs_bump s" n m "PopReturned r" tp bucket] t fresh b(2) by auto
      then show ?thesis
        using run [of "(s', l')"] runs_to_step [where act = "conc_act pe ne", OF act, of "(s', l')"] None seq3 False
        by (intro exI [of _ s'] exI [of _ l']) simp
    qed
  qed
qed

text \<open>The walk alone, then what it is for.\<close>

lemma find_runs:
  assumes t: "mem_tree (tr_nodes tr) (tr_root tr) t"
  shows "\<exists>p. findNode (tr_nodes tr) (tr_root tr) a = Some p \<and> runs_to (tree_act True) (tr, FindRoot a k) (tr, after_find k a p)"
proof (cases "tr_root tr = 0")
  case True
  have act: "tree_act True (FindRoot a k) tr = Some (tr, FindReturned a 0)"
    using True by simp
  show ?thesis
    using True runs_to_step [where act = "tree_act True", OF act runs_to_refl]
    by (intro exI [of _ 0]) (simp add: findNode.simps after_find_def)
next
  case False
  obtain j p where "findNode (tr_nodes tr) (tr_root tr) a = Some p" "solo (tree_act True) j (tr, FindAt a (tr_root tr) k) = (tr, after_find k a p)"
    using find_alone [OF t False, of a True k] by blast
  moreover from this(2) have "runs_to (tree_act True) (tr, FindAt a (tr_root tr) k) (tr, after_find k a p)"
    unfolding runs_to_def by blast
  moreover have act: "tree_act True (FindRoot a k) tr = Some (tr, FindAt a (tr_root tr) k)"
    using False by simp
  ultimately show ?thesis
    using runs_to_step [where act = "tree_act True", OF act] by blast
qed

lemma clear_runs:
  assumes "tr_nodes tr p = Some c"
  shows "runs_to (tree_act True) (tr, ClearLoad p m)
    (set_node tr p (c\<lparr>OwnerMask := OwnerMask c AND NOT m\<rparr>), ClearReturned p (OwnerMask c AND NOT m))"
  unfolding runs_to_def using assms by (intro exI [of _ 2]) (simp add: numeral_eq_Suc Let_def)

lemma FreeFind_runs:
  assumes "runs_to (tree_act True) (cs_tree s, tp) (tr, tp')" "tree_done tp'" "\<not> tree_done tp"
    and "runs_to (conc_act pe ne) (s\<lparr>cs_tree := tr, cs_taken := taken_after a m tp' (cs_taken s)\<rparr>, freed a m tp', lp, tp') e"
  shows "runs_to (conc_act pe ne) (s, FreeFind a m, lp, tp) e"
proof -
  obtain k where "solo (tree_act True) k (cs_tree s, tp) = (tr, tp')"
    using assms(1) by (auto simp: runs_to_def)
  from runs_to_part [OF solo_FreeFind [OF this assms(2,3)] assms(4)] show ?thesis .
qed

lemma alone_FreeSlot:
  assumes ne: "nodeEnd b = ne"
  shows "\<exists>s' l'. runs_to (conc_act pe ne) (s, FreeSlot a sz, lp, tp) (s', l') \<and> free_agrees b s' (fst l')
    (case newFreeSlot (as_seq b s) a sz of
       (b2, Ok slot) \<Rightarrow> (case pushFree (slots b2) (freeList b2) slot of
           None \<Rightarrow> (b2, Diverge)
         | Some (sl, root) \<Rightarrow> (b2\<lparr>slots := sl, freeList := root, activeBlocks := activeBlocks b2 + NOT 0\<rparr>, Ok True))
     | (b2, Err e) \<Rightarrow> (b2, Err e) | (b2, Panic q) \<Rightarrow> (b2, Panic q) | (b2, Diverge) \<Rightarrow> (b2, Diverge))"
proof -
  let ?raw = "cs_nodeBump s" and ?x = "\<lparr>slot_addr = a, slot_size = sz, slot_next = 0\<rparr>"
  show ?thesis
  proof (cases "?raw + 24 > ne")
    case True
    let ?s = "s\<lparr>cs_nodeBump := ?raw + 24, cs_noded := cs_noded s + 24\<rparr>"
    have act: "conc_act pe ne (FreeSlot a sz, lp, tp) s = Some (?s, FreeFailed, lp, tp)"
      using True by (simp add: Let_def sizeof_freeSlot_def)
    have "newFreeSlot (as_seq b s) a sz = (as_seq b ?s, Err Balloc_ErrOutOfMemory)"
      using True ne by (simp add: newFreeSlot_def Let_def sizeof_freeSlot_def) (simp add: as_seq_def)
    then show ?thesis
      using runs_to_step [where act = "conc_act pe ne", OF act runs_to_refl] by (intro exI conjI) (assumption, simp)
  next
    case False
    let ?f = "(cs_list s)\<lparr>fl_slots := (fl_slots (cs_list s))(?raw \<mapsto> ?x)\<rparr>"
    let ?s = "s\<lparr>cs_nodeBump := ?raw + 24, cs_noded := cs_noded s + 24, cs_list := ?f\<rparr>"
    have act: "conc_act pe ne (FreeSlot a sz, lp, tp) s = Some (?s, FreePush, PushLoad ?raw Freed, tp)"
      using False by (simp add: Let_def sizeof_freeSlot_def)
    have new: "newFreeSlot (as_seq b s) a sz = (as_seq b ?s, Ok ?raw)"
      using False ne by (simp add: newFreeSlot_def Let_def sizeof_freeSlot_def) (simp add: as_seq_def)
    have "fl_slots (cs_list ?s) ?raw = Some ?x"
      by simp
    from pushFree_alone [OF this, of Freed] obtain f' where push: "solo list_act 3 (cs_list ?s, PushLoad ?raw Freed) = (f', PushReturned)"
        "pushFree (fl_slots (cs_list ?s)) (fl_root (cs_list ?s)) ?raw = Some (fl_slots f', fl_root f')"
      by auto
    let ?s2 = "?s\<lparr>cs_list := f'\<rparr>"
    let ?s3 = "?s2\<lparr>cs_active := cs_active ?s2 + NOT 0\<rparr>"
    have count: "conc_act pe ne (FreeCount, PushReturned, tp) ?s2 = Some (?s3, FreeReturned True, PushReturned, tp)"
      by simp
    have "runs_to (conc_act pe ne) (?s, FreePush, PushLoad ?raw Freed, tp) (?s3, FreeReturned True, PushReturned, tp)"
      by (rule runs_to_part [OF solo_FreePush [OF push(1)] runs_to_step [where act = "conc_act pe ne", OF count runs_to_refl]]) simp_all
    then have "runs_to (conc_act pe ne) (s, FreeSlot a sz, lp, tp) (?s3, FreeReturned True, PushReturned, tp)"
      by (rule runs_to_step [where act = "conc_act pe ne", OF act])
    moreover have "as_seq b ?s3 = (as_seq b ?s)\<lparr>slots := fl_slots f', freeList := fl_root f', activeBlocks := cs_active s + NOT 0\<rparr>"
      by (simp add: as_seq_def)
    ultimately show ?thesis
      using new push(2) by (intro exI conjI) (assumption, simp)
  qed
qed

lemma alone_Free:
  assumes safe: "conc_safe pb nb s ls" and range: "nodes_in_range nb s" and b: "nodeEnd b = ne" "mapping b \<noteq> None"
  shows "\<exists>s' l'. runs_to (conc_act pe ne) (s, FreeFind a m, lp, FindRoot a (ThenClear m)) (s', l') \<and>
    free_agrees b s' (fst l') (balloc_FreeVarying (as_seq b s) a m)"
proof -
  note D = conc_safeD [OF safe]
  obtain t where t: "mem_tree (tr_nodes (cs_tree s)) (tr_root (cs_tree s)) t"
    using D(3) by (auto simp: tree_inv_def tree_inv_at_def)
  obtain p where p: "findNode (tr_nodes (cs_tree s)) (tr_root (cs_tree s)) a = Some p"
      "runs_to (tree_act True) (cs_tree s, FindRoot a (ThenClear m)) (cs_tree s, after_find (ThenClear m) a p)"
    using find_runs [OF t] by blast
  show ?thesis
  proof (cases "p = 0")
    case True
    have "runs_to (conc_act pe ne) (s, FreeFind a m, lp, FindRoot a (ThenClear m)) (s, FreeFailed, lp, FindReturned a 0)"
      using p(2) True by (intro FreeFind_runs [of _ _ "cs_tree s" "FindReturned a 0"]) (simp_all add: after_find_def runs_to_refl)
    moreover have "balloc_FreeVarying (as_seq b s) a m = (as_seq b s, Err Balloc_ErrNotFound)"
      using p(1) True b(2) by (simp add: balloc_FreeVarying_def)
    ultimately show ?thesis
      by (intro exI conjI) (assumption, simp)
  next
    case False
    obtain c where c: "tr_nodes (cs_tree s) p = Some c" "Addr c = a"
      by (rule findNode_total [OF t, of a]) (use p(1) False in auto)
    let ?c = "c\<lparr>OwnerMask := OwnerMask c AND NOT m\<rparr>"
    let ?tp = "ClearReturned p (OwnerMask c AND NOT m)"
    let ?s = "s\<lparr>cs_tree := set_node (cs_tree s) p ?c, cs_taken := taken_after a m ?tp (cs_taken s)\<rparr>"
    have run: "runs_to (conc_act pe ne) (s, FreeFind a m, lp, FindRoot a (ThenClear m)) e" if "runs_to (conc_act pe ne) (?s, freed a m ?tp, lp, ?tp) e" for e
      using runs_to_trans [OF p(2)] clear_runs [OF c(1), of m] False that
      by (intro FreeFind_runs [of _ _ "set_node (cs_tree s) p ?c" ?tp]) (simp_all add: after_find_def)
    have seq: "as_seq b ?s = (as_seq b s)\<lparr>nodes := (tr_nodes (cs_tree s))(p \<mapsto> ?c)\<rparr>"
      by (simp add: as_seq_def set_node_def)
    show ?thesis
    proof (cases "OwnerMask c AND NOT m = 0")
      case last: True
      obtain mm where mm: "mapping b = Some mm"
        using b(2) by blast
      have act: "conc_act pe ne (FreeRead a p, lp, ?tp) ?s = Some (?s, FreeSlot a (Size c), lp, ?tp)"
        using c by (simp add: set_node_def)
      obtain s' l' where slot: "runs_to (conc_act pe ne) (?s, FreeSlot a (Size c), lp, ?tp) (s', l')" "free_agrees b s' (fst l')
          (case newFreeSlot (as_seq b ?s) a (Size c) of
             (b2, Ok slot) \<Rightarrow> (case pushFree (slots b2) (freeList b2) slot of
                 None \<Rightarrow> (b2, Diverge)
               | Some (sl, root) \<Rightarrow> (b2\<lparr>slots := sl, freeList := root, activeBlocks := activeBlocks b2 + NOT 0\<rparr>, Ok True))
           | (b2, Err e) \<Rightarrow> (b2, Err e) | (b2, Panic q) \<Rightarrow> (b2, Panic q) | (b2, Diverge) \<Rightarrow> (b2, Diverge))"
        using alone_FreeSlot [OF b(1), of pe ?s a "Size c" lp ?tp] by blast
      have "runs_to (conc_act pe ne) (?s, freed a m ?tp, lp, ?tp) (s', l')"
        using runs_to_step [where act = "conc_act pe ne", OF act slot(1)] last by simp
      moreover have "free_agrees b s' (fst l') (balloc_FreeVarying (as_seq b s) a m)"
        using slot(2) p(1) False c last mm unfolding seq by (simp add: balloc_FreeVarying_def clearOwner_def Let_def)
      ultimately show ?thesis
        using run by blast
    next
      case more: False
      then have "runs_to (conc_act pe ne) (?s, freed a m ?tp, lp, ?tp) (?s, FreeReturned False, lp, ?tp)"
        by (simp add: runs_to_refl)
      moreover have "balloc_FreeVarying (as_seq b s) a m = (as_seq b ?s, Ok False)"
        using p(1) False c more b(2) unfolding seq by (simp add: balloc_FreeVarying_def clearOwner_def Let_def)
      ultimately show ?thesis
        using run by (intro exI conjI) (blast, simp)
    qed
  qed
qed

lemma alone_Share:
  assumes safe: "conc_safe pb nb s ls" and b: "mapping b \<noteq> None"
  shows "\<exists>s' l'. runs_to (conc_act pe ne) (s, ShareFind a g (normalizeMask m), lp, FindRoot a (ThenOr (normalizeMask m))) (s', l') \<and>
    share_agrees b s' (fst l') (balloc_Share (as_seq b s) a m)"
proof -
  note D = conc_safeD [OF safe]
  let ?w = "normalizeMask m"
  obtain t where t: "mem_tree (tr_nodes (cs_tree s)) (tr_root (cs_tree s)) t"
    using D(3) by (auto simp: tree_inv_def tree_inv_at_def)
  obtain p where p: "findNode (tr_nodes (cs_tree s)) (tr_root (cs_tree s)) a = Some p"
      "runs_to (tree_act True) (cs_tree s, FindRoot a (ThenOr ?w)) (cs_tree s, after_find (ThenOr ?w) a p)"
    using find_runs [OF t] by blast
  have run: "runs_to (conc_act pe ne) (s, ShareFind a g ?w, lp, FindRoot a (ThenOr ?w))
      (s\<lparr>cs_tree := tr, cs_owned := owned_after a (g OR ?w) tp' (cs_owned s)\<rparr>, shared_with a g ?w tp', lp, tp')"
    if part: "runs_to (tree_act True) (cs_tree s, FindRoot a (ThenOr ?w)) (tr, tp')" "tree_done tp'" for tr tp'
  proof -
    obtain k where "solo (tree_act True) k (cs_tree s, FindRoot a (ThenOr ?w)) = (tr, tp')"
      using part(1) by (auto simp: runs_to_def)
    from runs_to_part [OF solo_ShareFind [OF this part(2)] runs_to_refl] show ?thesis by simp
  qed
  show ?thesis
  proof (cases "p = 0")
    case True
    then have "runs_to (conc_act pe ne) (s, ShareFind a g ?w, lp, FindRoot a (ThenOr ?w)) (s, ShareFailed, lp, FindReturned a 0)"
      using run [of "cs_tree s" "FindReturned a 0"] p(2) by (simp add: after_find_def)
    moreover have "balloc_Share (as_seq b s) a m = (as_seq b s, Err Balloc_ErrNotFound)"
      using p(1) True b by (simp add: balloc_Share_def)
    ultimately show ?thesis
      by (intro exI conjI) (assumption, simp)
  next
    case False
    obtain c where c: "tr_nodes (cs_tree s) p = Some c"
      by (rule findNode_total [OF t, of a]) (use p(1) False in auto)
    let ?tr = "set_node (cs_tree s) p (c\<lparr>OwnerMask := OwnerMask c OR ?w\<rparr>)"
    have act: "tree_act True (OrOwner p ?w) (cs_tree s) = Some (?tr, OrReturned p)"
      using c by simp
    have "runs_to (tree_act True) (cs_tree s, FindRoot a (ThenOr ?w)) (?tr, OrReturned p)"
      using runs_to_trans [OF p(2)] runs_to_step [where act = "tree_act True", OF act runs_to_refl] False by (simp add: after_find_def)
    note run [OF this]
    moreover have "balloc_Share (as_seq b s) a m =
        (as_seq b (s\<lparr>cs_tree := ?tr, cs_owned := owned_after a (g OR ?w) (OrReturned p) (cs_owned s)\<rparr>), Ok ())"
      using p(1) False c b by (simp add: balloc_Share_def) (simp add: as_seq_def set_node_def)
    ultimately show ?thesis
      by (intro exI conjI) (simp, simp)
  qed
qed

section \<open>The theorems\<close>

text \<open>
  C11: whatever whole calls of \<open>Alloc\<close>, \<open>FreeVarying\<close> and \<open>Share\<close> the goroutines have run and interleaved
  so far, with blocks and requests of any size, a goroutine in the middle of a call can do its next
  action, and left alone it returns after at most the height of the search tree and fourteen more
  actions: no call waits for another one.
\<close>

theorem conc_calls_obstruction_free:
  assumes "reach (conc_act pe ne) (conc_call ask) (empty_balloc pb nb, conc_idle) (s, ls)" "nodes_in_range nb s"
  shows "(\<exists>t. mem_tree (tr_nodes (cs_tree s)) (tr_root (cs_tree s)) t \<and>
      (\<forall>u. \<exists>k \<le> height t + 14. stage_done (fst (snd (solo (conc_act pe ne) k (s, ls u)))))) \<and>
    (\<forall>u. \<not> stage_done (fst (ls u)) \<longrightarrow> conc_act pe ne (ls u) s \<noteq> None)"
proof -
  obtain t where t: "mem_tree (tr_nodes (cs_tree s)) (tr_root (cs_tree s)) t" "\<And>u. conc_returns pe ne (height t + 14) s (ls u)"
    using conc_alone_returns [OF conc_reach_safe [OF assms] assms(2)] by blast
  then show ?thesis
    using returns_within_enabled [OF t(2)] unfolding returns_within_def by blast
qed

theorem conc_calls_obstruction_free_witness:
  "\<exists>s ls. conc_run 0x30000 0x2000 (\<lambda>k. k = 64) two_frees (empty_balloc 0x20000 0x1000, conc_idle) = Some (s, ls) \<and>
    fst (ls 1) = FreeFind 0x20000 2 \<and> (\<exists>k. stage_done (fst (snd (solo (conc_act 0x30000 0x2000) k (s, ls 1)))))"
proof (rule two_frees_run)
  fix s ls
  assume run: "conc_run 0x30000 0x2000 (\<lambda>k. k = 64) two_frees (empty_balloc 0x20000 0x1000, conc_idle) = Some (s, ls)"
    and range: "in_range 0x20000 0x1000 s" and at: "ls 1 = (FreeFind 0x20000 2, ListIdle, ClearCas 0x1000 2 2)"
  have "nodes_in_range 0x1000 s"
    using range by (simp add: in_range_def nodes_in_range_def)
  then show ?thesis
    using conc_calls_obstruction_free [OF conc_run_from_start [OF run]] run at by (metis fst_conv)
qed

text \<open>
  C9: the machine computes what the sequential model computes. From any state that interleaved calls
  have led to, a call that starts and runs alone ends with the result of \<open>balloc_Alloc\<close>,
  \<open>balloc_FreeVarying\<close> or \<open>balloc_Share\<close> on the allocator that the shared words make up at its start,
  errors included, and leaves the words as that function does.
\<close>

theorem conc_call_alone_sequential:
  assumes "reach (conc_act (payloadEnd b) (nodeEnd b)) (conc_call ask) (empty_balloc pb nb, conc_idle) (s, ls)" "nodes_in_range nb s"
    and "closed b = 0" "mapping b \<noteq> None" "balloc_Bucket GFPoly b threadID chunkID = Ok bucket"
  shows "(\<forall>sz m tp. sz \<noteq> 0 \<and> ls u = (AllocPop (alignUp sz 8) m, PopLoad (alignUp sz 8), tp) \<longrightarrow>
      (\<exists>s' l'. runs_to (conc_act (payloadEnd b) (nodeEnd b)) (s, ls u) (s', l') \<and>
        alloc_agrees b bucket s' (fst l') (balloc_Alloc GFPoly (as_seq b s) sz m threadID chunkID))) \<and>
    (\<forall>a m lp. ls u = (FreeFind a m, lp, FindRoot a (ThenClear m)) \<longrightarrow>
      (\<exists>s' l'. runs_to (conc_act (payloadEnd b) (nodeEnd b)) (s, ls u) (s', l') \<and>
        free_agrees b s' (fst l') (balloc_FreeVarying (as_seq b s) a m))) \<and>
    (\<forall>a g m lp. ls u = (ShareFind a g (normalizeMask m), lp, FindRoot a (ThenOr (normalizeMask m))) \<longrightarrow>
      (\<exists>s' l'. runs_to (conc_act (payloadEnd b) (nodeEnd b)) (s, ls u) (s', l') \<and>
        share_agrees b s' (fst l') (balloc_Share (as_seq b s) a m)))"
proof -
  note safe = conc_reach_safe [OF assms(1,2)]
  note A = alone_Alloc [OF safe assms(2) refl refl assms(3) _ refl assms(5)]
    and F = alone_Free [OF safe assms(2) refl assms(4)] and S = alone_Share [OF safe assms(4), where pe = "payloadEnd b" and ne = "nodeEnd b"]
  show ?thesis
    by (intro conjI allI impI; (elim conjE)?) (simp only:, rule A F S, assumption?)+
qed

definition lone_balloc :: BlockAllocator where
  "lone_balloc = \<lparr>MmapBase = 0x1000, MmapLength = 0x2F000, MemTree = 0, Pandiagonal = [[1]], Scale = 1, mapping = Some (0x1000, 0x2F000),
     payloadBase = 0x20000, payloadEnd = 0x30000, bump = 0x20000, nodeBase = 0x1000, nodeEnd = 0x2000, nodeBump = 0x1000,
     freeList = 0, activeBlocks = 0, closed = 0, cleanup = True, nodes = Map.empty, slots = Map.empty\<rparr>"

lemma lone_bucket: "\<exists>k. balloc_Bucket 0x11B lone_balloc 0 0 = Ok k"
  by (simp add: balloc_Bucket_def lone_balloc_def bucketFor_def Let_def index_at_def)

theorem conc_call_alone_sequential_witness:
  "\<exists>s ls s' l' k. conc_run 0x30000 0x2000 (\<lambda>_. True) (aba_prepare @ [Call 1 (DoAlloc 8 1)]) (empty_balloc 0x20000 0x1000, conc_idle) = Some (s, ls) \<and>
    runs_to (conc_act 0x30000 0x2000) (s, ls 1) (s', l') \<and>
    alloc_agrees lone_balloc k s' (fst l') (balloc_Alloc 0x11B (as_seq lone_balloc s) 8 1 0 0)"
proof -
  obtain k where k: "balloc_Bucket 0x11B lone_balloc 0 0 = Ok k"
    using lone_bucket by blast
  obtain s ls where run: "conc_run 0x30000 0x2000 (\<lambda>_. True) (aba_prepare @ [Call 1 (DoAlloc 8 1)]) (empty_balloc 0x20000 0x1000, conc_idle) = Some (s, ls)"
      and range: "nodes_in_range 0x1000 s" and at: "ls 1 = (AllocPop 8 1, PopLoad 8, TreeIdle)"
    by (simp add: aba_prepare_def conc_run_simps nodes_in_range_def)
  have b: "payloadEnd lone_balloc = 0x30000" "nodeEnd lone_balloc = 0x2000" "closed lone_balloc = 0" "mapping lone_balloc \<noteq> None"
    by (simp_all add: lone_balloc_def)
  have start: "(8 :: uintptr) \<noteq> 0 \<and> ls 1 = (AllocPop (alignUp 8 8) 1, PopLoad (alignUp 8 8), TreeIdle)"
    using at by (simp add: alignUp_def)
  note conc_call_alone_sequential [of lone_balloc "\<lambda>_. True", unfolded b(1-3), OF conc_run_from_start [OF run] range refl b(4) k, of 1]
  from conjunct1 [OF this] start obtain s' l' where "runs_to (conc_act 0x30000 0x2000) (s, ls 1) (s', l')"
      "alloc_agrees lone_balloc k s' (fst l') (balloc_Alloc 0x11B (as_seq lone_balloc s) 8 1 0 0)"
    by blast
  with run show ?thesis
    by blast
qed

end
