(* ===== verification/Conc_Balloc_Aba.thy ===== *)
theory Conc_Balloc_Aba
  imports Conc_Balloc_Alone
begin

text \<open>
  How one block is handed out twice (\<open>popFree\<close> of balloc/tree.go inside \<open>Alloc\<close> of balloc/core.go). A request
  that is too large for the head of the free list takes it off and puts it back; the compare-and-swap
  of a goroutine that has read the head and its successor before cannot tell, although the successor
  may have been handed out meanwhile. This is possible on every list whose head is smaller than the
  block behind it.
\<close>

section \<open>The schedule\<close>

text \<open>
  \<open>q\<close> reads the head and its successor and is suspended; \<open>p\<close> takes the head and finds it too small; \<open>u\<close>
  takes the other block; \<open>p\<close> puts the head back; \<open>q\<close> goes on and makes the successor that it has read
  the head, and \<open>v\<close> takes that block again.
\<close>

definition twice_events :: "nat \<Rightarrow> nat \<Rightarrow> nat \<Rightarrow> nat \<Rightarrow> uintptr \<Rightarrow> uintptr \<Rightarrow> uintptr event list" where
  "twice_events p q u v small big =
     [Call q small, Step q, Step q, Call p big, Step p, Step p, Step p, Step p, Call u big, Step u, Step u, Step u, Step u,
      Step p, Step p, Step p, Step q, Step q, Call v big, Step v, Step v, Step v, Step v]"

text \<open>Calls of \<open>Alloc\<close> only.\<close>

definition alloc_call :: "conc_state \<Rightarrow> conc_local \<Rightarrow> conc_state \<Rightarrow> conc_local \<Rightarrow> bool" where
  "alloc_call s l s' l' \<longleftrightarrow> conc_call (\<lambda>_. True) s l s' l' \<and> (\<exists>n m. fst l' = AllocPop n m)"

definition alloc_start :: "uintptr \<Rightarrow> conc_state \<Rightarrow> conc_local \<Rightarrow> (conc_state \<times> conc_local) option" where
  "alloc_start sz = conc_start (\<lambda>_. True) (DoAlloc sz 1)"

lemma alloc_start_call: "alloc_start sz s l = Some (s', l') \<Longrightarrow> alloc_call s l s' l'"
  unfolding alloc_start_def alloc_call_def using conc_start_call by (cases l) (fastforce split: if_splits)

lemma twice_events_result:
  assumes list: "fl_root (cs_list s) = a" "a \<noteq> 0" "b \<noteq> 0" "a \<noteq> b"
      "fl_slots (cs_list s) a = Some \<lparr>slot_addr = x, slot_size = m, slot_next = b\<rparr>"
      "fl_slots (cs_list s) b = Some \<lparr>slot_addr = y, slot_size = n, slot_next = c\<rparr>"
    and sizes: "small \<noteq> 0" "big \<noteq> 0" "alignUp small 8 \<le> m" "m < alignUp big 8" "alignUp big 8 \<le> n"
    and idle: "ls p = (ConcIdle, lp, tp)" "ls q = (ConcIdle, lq, tq)" "ls u = (ConcIdle, lu, tu)" "ls v = (ConcIdle, lv, tv)" "distinct [p, q, u, v]"
  obtains f lp' lq' lu' lv' where "run_events (conc_act pe ne) alloc_start (twice_events p q u v small big) (s, ls) =
    Some (s\<lparr>cs_list := f\<rparr>, ls(q := (AllocNode x m 1, lq', tq), p := (AllocBump (alignUp big 8) 1, lp', tp),
      u := (AllocNode y n 1, lu', tu), v := (AllocNode y n 1, lv', tv)))"
proof -
  have "\<not> alignUp big 8 \<le> m"
    using sizes(4) by simp
  then show thesis
    by (intro that) (use assms in \<open>simp add: twice_events_def alloc_start_def fun_upd_twist; fail\<close>)
qed

section \<open>The rest of an Alloc\<close>

text \<open>From the block in hand to the return, as long as there is room for one more node.\<close>

fun on_way :: "uintptr \<Rightarrow> uintptr \<Rightarrow> nat \<Rightarrow> conc_state \<times> conc_local \<Rightarrow> bool" where
  "on_way y nb0 k (s, AllocNode a sz m, lp, tp) \<longleftrightarrow> a = y \<and> cs_nodeBump s = nb0 \<and> cs_noded s = k"
| "on_way y nb0 k (s, AllocInsert a m, lp, tp) \<longleftrightarrow> a = y \<and> cs_nodeBump s = nb0 + 40 \<and> cs_noded s = k + 40"
| "on_way y nb0 k (s, AllocCount a m, lp, tp) \<longleftrightarrow> a = y \<and> cs_nodeBump s = nb0 + 40 \<and> cs_noded s = k + 40"
| "on_way y nb0 k (s, AllocReturned a, lp, tp) \<longleftrightarrow> a = y \<and> cs_nodeBump s = nb0 + 40 \<and> cs_noded s = k + 40"
| "on_way y nb0 k c \<longleftrightarrow> False"

lemma on_way_act:
  assumes "on_way y nb0 k (s, l)" "conc_act pe ne l s = Some d" "nb0 + 40 \<le> ne"
  shows "on_way y nb0 k d"
proof -
  obtain st lp tp where l: "l = (st, lp, tp)" by (cases l)
  show ?thesis
    using assms unfolding l by (cases st) (auto simp: sizeof_BallocNode_def Let_def not_less split: if_splits)
qed

lemma on_way_solo:
  assumes "on_way y nb0 k (s, l)" "nb0 + 40 \<le> ne"
  shows "on_way y nb0 k (solo (conc_act pe ne) j (s, l))"
  using assms(1)
proof (induction j arbitrary: s l)
  case (Suc j)
  show ?case
  proof (cases "conc_act pe ne l s")
    case (Some d)
    obtain s' l' where d: "d = (s', l')" by (cases d)
    then have "on_way y nb0 k (s', l')"
      using on_way_act [OF Suc.prems] Some assms(2) by blast
    from Suc.IH [OF this] show ?thesis
      using Some d by simp
  qed (use Suc.prems in simp)
qed simp

lemma on_way_done: "on_way y nb0 k (s, l) \<Longrightarrow> stage_done (fst l) \<Longrightarrow>
    fst l = AllocReturned y \<and> cs_nodeBump s = nb0 + 40 \<and> cs_noded s = k + 40"
  by (cases "(y, nb0, k, s, l)" rule: on_way.cases) auto

lemma reach_alloc_call:
  assumes "reach (conc_act pe ne) alloc_call c d" "reach (conc_act pe ne) (conc_call (\<lambda>_. True)) b c"
  shows "reach (conc_act pe ne) (conc_call (\<lambda>_. True)) b d"
  using assms by (induction rule: reach.induct) (auto intro: reach.intros simp: alloc_call_def)

lemma alloc_finishes:
  assumes from_start: "reach (conc_act pe ne) (conc_call (\<lambda>_. True)) (empty_balloc pb nb, conc_idle) (s0, ls0)"
    and so_far: "reach (conc_act pe ne) alloc_call (s0, ls0) (s, ls)"
    and stage: "ls u = (AllocNode y sz m, lp, tp)" and room: "nb \<noteq> 0" "cs_nodeBump s + 40 \<le> ne" "unat nb + cs_noded s < 2 ^ 64"
  obtains s' l' where "reach (conc_act pe ne) alloc_call (s0, ls0) (s', ls(u := l'))" "fst l' = AllocReturned y"
    "cs_nodeBump s' = cs_nodeBump s + 40" "cs_noded s' = cs_noded s + 40"
proof -
  have "nodes_in_range nb s"
    using room by (simp add: nodes_in_range_def)
  from conc_calls_obstruction_free [OF reach_alloc_call [OF so_far from_start] this]
  obtain k where k: "stage_done (fst (snd (solo (conc_act pe ne) k (s, ls u))))" by blast
  obtain s' l' where solo: "solo (conc_act pe ne) k (s, ls u) = (s', l')"
    by (cases "solo (conc_act pe ne) k (s, ls u)")
  have "on_way y (cs_nodeBump s) (cs_noded s) (s, ls u)"
    by (simp add: stage)
  from on_way_solo [OF this room(2), of pe k] have "on_way y (cs_nodeBump s) (cs_noded s) (s', l')"
    unfolding solo .
  from on_way_done [OF this] k solo show thesis
    by (intro that [OF solo_reach [OF so_far solo]]) auto
qed

section \<open>The theorem\<close>

text \<open>
  C10: with requests of different sizes the free list is not safe: from every reachable state in which
  its head is smaller than the block behind it, four goroutines that call \<open>Alloc\<close> can interleave so
  that two of them return the block behind the head, with no call that frees it in between.
  One request has to fit the head, the others only the block behind it; there must be room for two
  more nodes.
\<close>

theorem conc_Alloc_same_block:
  assumes "reach (conc_act pe ne) (conc_call (\<lambda>_. True)) (empty_balloc pb nb, conc_idle) (s, ls)"
    and "nb \<noteq> 0" "unat nb + cs_noded s + 80 \<le> unat ne"
    and "fl_root (cs_list s) = a" "a \<noteq> 0" "b \<noteq> 0" "a \<noteq> b"
    and "fl_slots (cs_list s) a = Some \<lparr>slot_addr = x, slot_size = m, slot_next = b\<rparr>"
    and "fl_slots (cs_list s) b = Some \<lparr>slot_addr = y, slot_size = n, slot_next = c\<rparr>"
    and "small \<noteq> 0" "big \<noteq> 0" "alignUp small 8 \<le> m" "m < alignUp big 8" "alignUp big 8 \<le> n"
    and "fst (ls p) = ConcIdle" "fst (ls q) = ConcIdle" "fst (ls u) = ConcIdle" "fst (ls v) = ConcIdle" "distinct [p, q, u, v]"
  shows "\<exists>s' ls'. reach (conc_act pe ne) alloc_call (s, ls) (s', ls') \<and> fst (ls' u) = AllocReturned y \<and> fst (ls' v) = AllocReturned y"
proof -
  obtain lp tp lq tq lu tu lv tv where idle: "ls p = (ConcIdle, lp, tp)" "ls q = (ConcIdle, lq, tq)" "ls u = (ConcIdle, lu, tu)" "ls v = (ConcIdle, lv, tv)"
    using assms(15-18) by (metis prod.collapse)
  obtain f lp' lq' lu' lv' where run: "run_events (conc_act pe ne) alloc_start (twice_events p q u v small big) (s, ls) =
    Some (s\<lparr>cs_list := f\<rparr>, ls(q := (AllocNode x m 1, lq', tq), p := (AllocBump (alignUp big 8) 1, lp', tp),
      u := (AllocNode y n 1, lu', tu), v := (AllocNode y n 1, lv', tv)))" (is "_ = Some (?s1, ?ls1)")
    by (rule twice_events_result [OF assms(4-14) idle assms(19)])
  have r1: "reach (conc_act pe ne) alloc_call (s, ls) (?s1, ?ls1)"
    by (rule run_events_reach [where start = alloc_start, OF alloc_start_call run reach_refl])
  have lt: "unat nb + cs_noded s + 80 < 2 ^ 64"
    using le_less_trans [OF assms(3) unat_lt_u64] by simp
  then have "nodes_in_range nb s"
    using assms(2) by (simp add: nodes_in_range_def)
  then have "cs_nodeBump s = nb + of_nat (cs_noded s)"
    using conc_safeD(5) [OF conc_reach_safe [OF assms(1)]] by (simp add: areas_ok_def)
  then have bump: "unat (cs_nodeBump s) = unat nb + cs_noded s"
    using lt by (simp add: unat_add_u64 unat_of_nat take_bit_nat_eq_self)
  have 40: "unat (40 :: u64) = 40"
    by simp
  have more: "unat (cs_nodeBump s + 40) = unat (cs_nodeBump s) + 40" "unat (cs_nodeBump s + 40 + 40) = unat (cs_nodeBump s) + 80"
    using lt bump by (simp_all add: unat_add_u64)
  have room: "cs_nodeBump ?s1 + 40 \<le> ne" "unat nb + cs_noded ?s1 < 2 ^ 64"
    using more(1) bump assms(3) lt by (simp_all add: word_le_nat_alt)
  have at_u: "?ls1 u = (AllocNode y n 1, lu', tu)" and at_v: "?ls1 v = (AllocNode y n 1, lv', tv)" and uv: "u \<noteq> v"
    using assms(19) by auto
  obtain s2 l2 where u: "reach (conc_act pe ne) alloc_call (s, ls) (s2, ?ls1(u := l2))" "fst l2 = AllocReturned y"
    "cs_nodeBump s2 = cs_nodeBump ?s1 + 40" "cs_noded s2 = cs_noded ?s1 + 40"
    by (rule alloc_finishes [OF assms(1) r1 at_u assms(2) room])
  have at_v: "(?ls1(u := l2)) v = (AllocNode y n 1, lv', tv)"
    using at_v uv by simp
  have room: "cs_nodeBump s2 + 40 \<le> ne" "unat nb + cs_noded s2 < 2 ^ 64"
    using more(2) bump assms(3) lt u(3,4) by (simp_all add: word_le_nat_alt)
  obtain s3 l3 where v: "reach (conc_act pe ne) alloc_call (s, ls) (s3, (?ls1(u := l2))(v := l3))" "fst l3 = AllocReturned y"
    by (rule alloc_finishes [OF assms(1) u(1) at_v assms(2) room])
  show ?thesis
    by (intro exI conjI, rule v(1)) (use u(2) v(2) uv in simp_all)
qed

text \<open>
  A list with a block of 8 bytes in front of one of 64, and requests of these two sizes: the block at
  0x20000 is returned twice.
\<close>

theorem conc_Alloc_same_block_witness:
  "\<exists>s ls s' ls'. conc_run 0x30000 0x2000 (\<lambda>_. True) aba_prepare (empty_balloc 0x20000 0x1000, conc_idle) = Some (s, ls) \<and>
    reach (conc_act 0x30000 0x2000) alloc_call (s, ls) (s', ls') \<and> fst (ls' 3) = AllocReturned 0x20000 \<and> fst (ls' 4) = AllocReturned 0x20000"
proof -
  obtain s ls where run: "conc_run 0x30000 0x2000 (\<lambda>_. True) aba_prepare (empty_balloc 0x20000 0x1000, conc_idle) = Some (s, ls)"
    and list: "unat (0x1000 :: uintptr) + cs_noded s + 80 \<le> unat (0x2000 :: uintptr)" "fl_root (cs_list s) = 0x1068"
      "(0x1068 :: uintptr) \<noteq> 0" "(0x1050 :: uintptr) \<noteq> 0" "(0x1068 :: uintptr) \<noteq> 0x1050"
      "fl_slots (cs_list s) 0x1068 = Some \<lparr>slot_addr = 0x20040, slot_size = 8, slot_next = 0x1050\<rparr>"
      "fl_slots (cs_list s) 0x1050 = Some \<lparr>slot_addr = 0x20000, slot_size = 64, slot_next = 0\<rparr>"
    and idle: "fst (ls 1) = ConcIdle" "fst (ls 2) = ConcIdle" "fst (ls 3) = ConcIdle" "fst (ls 4) = ConcIdle"
    by (simp add: aba_prepare_def conc_run_simps)
  have sizes: "(8 :: uintptr) \<noteq> 0" "(64 :: uintptr) \<noteq> 0" "alignUp 8 8 \<le> (8 :: uintptr)" "(8 :: uintptr) < alignUp 64 8" "alignUp 64 8 \<le> (64 :: uintptr)"
    by (simp_all add: alignUp_def)
  have "(0x1000 :: uintptr) \<noteq> 0" "distinct [1, 2, 3, 4 :: nat]"
    by simp_all
  from conc_Alloc_same_block [OF conc_run_from_start [OF run] this(1) list sizes idle this(2)] run show ?thesis
    by blast
qed

end
