(* ===== verification/Slice_Words.thy ===== *)
theory Slice_Words
  imports Main "HOL-Library.Multiset"
begin

text \<open>
  A slice of pointers in memory that several goroutines see (the field \<open>small\<close> of a shard in
  alloc/hybrid.go): three words, and arrays of cells that are nil or a slab. \<open>append\<close> is the stores it
  makes, which become visible one at a time and in any order: the length and the new element when
  there is room; when there is none, the copies to a new array, its three words and the new element.

  Shown here: whatever the order, once all stores of an \<open>append\<close> are done the slice shows the old
  elements and the new one.
\<close>

section \<open>The words\<close>

record slice_words =
  sl_arrays :: "nat option list list"
  sl_ptr :: "nat option"
  sl_len :: nat
  sl_cap :: nat

datatype slice_store = StoreElem nat nat "nat option" | StorePtr nat | StoreLen nat | StoreCap nat

fun do_store :: "slice_store \<Rightarrow> slice_words \<Rightarrow> slice_words" where
  "do_store (StoreElem a j c) m = m\<lparr>sl_arrays := (sl_arrays m)[a := (sl_arrays m ! a)[j := c]]\<rparr>"
| "do_store (StorePtr a) m = m\<lparr>sl_ptr := Some a\<rparr>"
| "do_store (StoreLen n) m = m\<lparr>sl_len := n\<rparr>"
| "do_store (StoreCap n) m = m\<lparr>sl_cap := n\<rparr>"

text \<open>
  A new array has \<open>newcap n\<close> cells, all nil, when the old one holds \<open>n\<close>. No other goroutine can reach
  it before its pointer is stored.
\<close>

definition append_stores :: "(nat \<Rightarrow> nat) \<Rightarrow> nat \<Rightarrow> slice_words \<Rightarrow> slice_words \<times> slice_store list" where
  "append_stores newcap k m =
     (let n = sl_len m
      in if n < sl_cap m then (m, [StoreLen (Suc n), StoreElem (the (sl_ptr m)) n (Some k)])
         else
           let a = length (sl_arrays m)
           in (m\<lparr>sl_arrays := sl_arrays m @ [replicate (newcap n) None]\<rparr>,
               map (\<lambda>j. StoreElem a j (sl_arrays m ! the (sl_ptr m) ! j)) [0..<n] @
               [StorePtr a, StoreCap (newcap n), StoreLen (Suc n), StoreElem a n (Some k)]))"

text \<open>The slabs that the slice holds, read when nobody stores to it.\<close>

definition slice_slabs :: "slice_words \<Rightarrow> nat list" where
  "slice_slabs m = (case sl_ptr m of None \<Rightarrow> [] | Some a \<Rightarrow> map the (take (sl_len m) (sl_arrays m ! a)))"

definition slice_shows :: "slice_words \<Rightarrow> nat list \<Rightarrow> bool" where
  "slice_shows m xs \<longleftrightarrow> sl_len m = length xs \<and> sl_len m \<le> sl_cap m \<and>
     (case sl_ptr m of
        None \<Rightarrow> sl_cap m = 0
      | Some a \<Rightarrow> a < length (sl_arrays m) \<and> length (sl_arrays m ! a) = sl_cap m \<and>
          (\<forall>j < length xs. sl_arrays m ! a ! j = Some (xs ! j)))"

lemma slice_shows_slabs: "slice_shows m xs \<Longrightarrow> slice_slabs m = xs"
  by (auto simp: slice_shows_def slice_slabs_def split: option.splits intro!: nth_equalityI)

section \<open>Stores commute\<close>

fun same_place :: "slice_store \<Rightarrow> slice_store \<Rightarrow> bool" where
  "same_place (StoreElem a j c) (StoreElem b k d) \<longleftrightarrow> a = b \<and> j = k"
| "same_place (StorePtr a) (StorePtr b) \<longleftrightarrow> True"
| "same_place (StoreLen n) (StoreLen m) \<longleftrightarrow> True"
| "same_place (StoreCap n) (StoreCap m) \<longleftrightarrow> True"
| "same_place x y \<longleftrightarrow> False"

lemma cells_commute:
  assumes "a = b \<Longrightarrow> j \<noteq> k"
  shows "(xs[a := (xs ! a)[j := c]])[b := (xs[a := (xs ! a)[j := c]] ! b)[k := d]] =
    (xs[b := (xs ! b)[k := d]])[a := (xs[b := (xs ! b)[k := d]] ! a)[j := c]]"
proof (cases "a = b")
  case True
  then show ?thesis
    using assms by (cases "b < length xs") (simp_all add: list_update_swap [of j k] list_update_beyond)
qed (simp add: list_update_swap)

lemma do_store_commute:
  assumes "same_place x y \<Longrightarrow> x = y"
  shows "do_store x (do_store y m) = do_store y (do_store x m)"
proof (cases "x = y")
  case False
  with assms have "\<not> same_place x y"
    by blast
  show ?thesis
  proof (cases "\<exists>a j c b k d. x = StoreElem a j c \<and> y = StoreElem b k d")
    case True
    then obtain a j c b k d where xy: "x = StoreElem a j c" "y = StoreElem b k d"
      by blast
    then show ?thesis
      using cells_commute [of a b j k "sl_arrays m" c d] \<open>\<not> same_place x y\<close> by simp
  qed (use \<open>\<not> same_place x y\<close> in \<open>cases x; cases y; simp\<close>)
qed simp

definition separate :: "slice_store list \<Rightarrow> bool" where
  "separate ps \<longleftrightarrow> (\<forall>x \<in> set ps. \<forall>y \<in> set ps. same_place x y \<longrightarrow> x = y)"

lemma stores_any_order:
  assumes "separate ps" "mset qs = mset ps"
  shows "fold do_store qs m = fold do_store ps m"
proof -
  have "fold do_store ps = fold do_store qs"
    by (rule fold_multiset_equiv) (use assms do_store_commute in \<open>auto simp: separate_def fun_eq_iff\<close>)
  then show ?thesis by simp
qed

section \<open>Append\<close>

lemma fold_copy:
  assumes "n \<le> length (sl_arrays m ! a)" "a < length (sl_arrays m)"
  shows "fold do_store (map (\<lambda>j. StoreElem a j (f j)) [0..<n]) m =
    m\<lparr>sl_arrays := (sl_arrays m)[a := map f [0..<n] @ drop n (sl_arrays m ! a)]\<rparr>"
  using assms(1)
proof (induction n)
  case (Suc n)
  obtain y ys where "drop n (sl_arrays m ! a) = y # ys" "drop (Suc n) (sl_arrays m ! a) = ys"
    using Suc.prems by (metis Cons_nth_drop_Suc Suc_le_lessD)
  then show ?case
    using Suc assms(2) by (simp add: list_update_append)
qed simp

lemma separate_stores:
  assumes "append_stores newcap k m = (m', ps)"
  shows "separate ps"
  using assms by (auto simp: append_stores_def Let_def separate_def split: if_splits)

lemma append_shows:
  assumes now: "slice_shows m xs" and more: "\<And>n. n < newcap n" and pending: "append_stores newcap k m = (m', ps)" and order: "mset qs = mset ps"
  shows "slice_shows (fold do_store qs m') (xs @ [k])"
proof -
  have len: "sl_len m = length xs" "sl_len m \<le> sl_cap m"
    using now by (simp_all add: slice_shows_def)
  have "slice_shows (fold do_store ps m') (xs @ [k])"
  proof (cases "sl_len m < sl_cap m")
    case True
    then obtain a where a: "sl_ptr m = Some a" "a < length (sl_arrays m)" "length (sl_arrays m ! a) = sl_cap m"
      "\<forall>j < length xs. sl_arrays m ! a ! j = Some (xs ! j)"
      using now by (auto simp: slice_shows_def split: option.splits)
    have "m' = m" "ps = [StoreLen (Suc (length xs)), StoreElem a (length xs) (Some k)]"
      using pending True len(1) a(1) by (simp_all add: append_stores_def Let_def)
    then show ?thesis
      using True a len by (auto simp: slice_shows_def nth_append nth_list_update less_Suc_eq)
  next
    case False
    let ?b = "length (sl_arrays m)" and ?n = "length xs" and ?cells = "\<lambda>j. sl_arrays m ! the (sl_ptr m) ! j"
    have m': "m' = m\<lparr>sl_arrays := sl_arrays m @ [replicate (newcap ?n) None]\<rparr>"
      and ps: "ps = map (\<lambda>j. StoreElem ?b j (?cells j)) [0..<?n] @ [StorePtr ?b, StoreCap (newcap ?n), StoreLen (Suc ?n), StoreElem ?b ?n (Some k)]"
      using pending False len(1) by (simp_all add: append_stores_def Let_def)
    have cells: "?cells j = Some (xs ! j)" if "j < ?n" for j
      using now that by (auto simp: slice_shows_def split: option.splits)
    have "?n \<le> length (sl_arrays m' ! ?b)" "?b < length (sl_arrays m')"
      using more [of ?n] by (simp_all add: m')
    from fold_copy [OF this, of ?cells]
    have "fold do_store (map (\<lambda>j. StoreElem ?b j (?cells j)) [0..<?n]) m' =
        m'\<lparr>sl_arrays := sl_arrays m @ [map ?cells [0..<?n] @ replicate (newcap ?n - ?n) None]\<rparr>"
      by (simp add: m')
    then have "fold do_store ps m' = m'\<lparr>sl_ptr := Some ?b, sl_len := Suc ?n, sl_cap := newcap ?n,
        sl_arrays := sl_arrays m @ [(map ?cells [0..<?n] @ replicate (newcap ?n - ?n) None)[?n := Some k]]\<rparr>"
      by (simp add: ps)
    then show ?thesis
      using more [of ?n] cells by (auto simp: slice_shows_def nth_append nth_list_update less_Suc_eq)
  qed
  then show ?thesis
    using stores_any_order [OF separate_stores [OF pending] order] by simp
qed

text \<open>What a cell may hold: the slabs of \<open>X\<close>, or nil.\<close>

definition cells_in :: "nat set \<Rightarrow> slice_words \<Rightarrow> bool" where
  "cells_in X m \<longleftrightarrow> (\<forall>arr \<in> set (sl_arrays m). \<forall>k. Some k \<in> set arr \<longrightarrow> k \<in> X)"

definition stores_in :: "nat set \<Rightarrow> slice_store list \<Rightarrow> bool" where
  "stores_in X ps \<longleftrightarrow> (\<forall>a j k. StoreElem a j (Some k) \<in> set ps \<longrightarrow> k \<in> X)"

lemma cells_in_mono: "cells_in X m \<Longrightarrow> X \<subseteq> Y \<Longrightarrow> cells_in Y m"
  unfolding cells_in_def by blast

lemma cells_in_nth: "cells_in X m \<Longrightarrow> a < length (sl_arrays m) \<Longrightarrow> j < length (sl_arrays m ! a) \<Longrightarrow> sl_arrays m ! a ! j = Some k \<Longrightarrow> k \<in> X"
  unfolding cells_in_def by (metis nth_mem)

lemma do_store_cells:
  assumes "cells_in X m" "stores_in X (p # ps)"
  shows "cells_in X (do_store p m)" "stores_in X ps"
proof -
  show "cells_in X (do_store p m)"
  proof (cases p)
    case (StoreElem a j c)
    show ?thesis
    proof (cases "a < length (sl_arrays m)")
      case True
      have "k \<in> X" if "Some k \<in> set ((sl_arrays m ! a)[j := c])" for k
        using that assms True StoreElem unfolding cells_in_def stores_in_def
        by (metis insert_iff list.set_intros(1) nth_mem set_update_subset_insert subsetD)
      then show ?thesis
        using assms(1) set_update_subset_insert [of "sl_arrays m" a "(sl_arrays m ! a)[j := c]"]
        unfolding cells_in_def StoreElem do_store.simps by auto
    qed (use assms(1) StoreElem in \<open>simp add: cells_in_def list_update_beyond\<close>)
  qed (use assms(1) in \<open>simp_all add: cells_in_def\<close>)
  show "stores_in X ps"
    using assms(2) unfolding stores_in_def by auto
qed

lemma append_cells:
  assumes "cells_in (set xs) m" "slice_shows m xs" "append_stores newcap k m = (m', ps)" "mset qs = mset ps"
  shows "cells_in (set (xs @ [k])) m'" "stores_in (set (xs @ [k])) qs"
proof -
  have cells: "cells_in (set (xs @ [k])) m"
    using assms(1) by (rule cells_in_mono) auto
  show "cells_in (set (xs @ [k])) m'"
    using assms(3) cells by (auto simp: append_stores_def Let_def cells_in_def split: if_splits)
  have "set qs = set ps"
    using assms(4) by (rule mset_eq_setD)
  moreover have "sl_arrays m ! the (sl_ptr m) ! j = Some (xs ! j)" if "j < sl_len m" for j
    using assms(2) that by (auto simp: slice_shows_def split: option.splits)
  moreover have "sl_len m = length xs"
    using assms(2) by (simp add: slice_shows_def)
  ultimately show "stores_in (set (xs @ [k])) qs"
    using assms(3) by (auto simp: append_stores_def Let_def stores_in_def split: if_splits)
qed

end
