(* ===== verification/Conc_Hybrid.thy ===== *)
theory Conc_Hybrid
  imports Hybrid Threads Slice_Words
begin

text \<open>
  Small requests to the hybrid allocator (\<open>allocSmall\<close> of alloc/hybrid.go) as goroutines make them at the
  same time: the loop over the slabs of a shard without its lock, the loop with it, and the slab that
  is taken from the pool, reset and appended. An atomic addition to the offset of a slab, the
  operations on the lock, and every load and store of a word or a cell of the slice \<open>s.small\<close> are one
  action each.

  The first loop reads the slice while another goroutine may append to it. So it can see a pointer and
  a length that do not belong together, or a cell whose store is still to come. It can then use a nil
  slab, which panics, a slab that an older array held before the last \<open>Reset\<close>, or memory behind the
  end of an array; what happens then is not defined, and the goroutine stops.
\<close>

section \<open>The machine\<close>

text \<open>
  All slabs that exist, in the order in which they were made; a pointer to a slab is its position.
  For each shard its slice of slabs, the stores of an \<open>append\<close> to it that are still to come, its lock
  and its pool. What the run time decides is a list of what is to come: for each \<open>pool.Get\<close> which
  pooled slab it returns, if any, and the address of a new one. The rest is history: the slabs that
  were appended, the blocks that were handed out, and an upper bound of all offsets.
\<close>

record small_state =
  sm_slabs :: "smallArena list"
  sm_slice :: "nat \<Rightarrow> slice_words"
  sm_stores :: "nat \<Rightarrow> slice_store list"
  sm_lock :: "nat \<Rightarrow> bool"
  sm_pool :: "nat \<Rightarrow> nat list"
  sm_supply :: "(nat option \<times> uintptr) list"
  sm_small :: "nat \<Rightarrow> nat list"
  sm_given :: "(uintptr \<times> nat) list"
  sm_tried :: nat

text \<open>
  The first flag says whether the goroutine holds the lock, the shard and the size follow. A loop has
  the pointer and the length that it has loaded, and the index it is at.
\<close>

datatype small_pc =
    SmallIdle
  | SmallRead bool bool nat uintptr
  | SmallHasPtr bool nat uintptr "nat option"
  | SmallHasLen bool nat uintptr nat
  | SmallElem bool nat uintptr "nat option" nat nat
  | SmallTry bool nat uintptr "nat option" nat nat "nat option"
  | SmallLock nat uintptr
  | SmallGet nat uintptr
  | SmallReset nat uintptr nat
  | SmallAppend nat uintptr nat
  | SmallStores nat uintptr nat
  | SmallLast nat uintptr nat
  | SmallUnlock nat uintptr "uintptr outcome"
  | SmallReturned uintptr "uintptr outcome"
  | SmallWild nat uintptr

text \<open>One attempt on a slab: the addition, then the comparison of its result.\<close>

definition small_attempt :: "small_state \<Rightarrow> nat \<Rightarrow> uintptr \<Rightarrow> small_state \<times> uintptr outcome" where
  "small_attempt s k sz =
     (let (a, r) = smallArena_alloc (sm_slabs s ! k) sz in
      (s\<lparr>sm_slabs := (sm_slabs s)[k := a], sm_tried := sm_tried s + unat sz,
         sm_given := (case r of Ok addr \<Rightarrow> (addr, unat sz) # sm_given s | _ \<Rightarrow> sm_given s)\<rparr>, r))"

text \<open>On a nil slab a size of 0 is answered before the slab is used; any other size is a panic.\<close>

definition nil_attempt :: "small_state \<Rightarrow> uintptr \<Rightarrow> small_state \<times> uintptr outcome" where
  "nil_attempt s sz = (if sz = 0 then (s\<lparr>sm_given := (0, 0) # sm_given s\<rparr>, Ok 0) else (s, Panic NilDereference))"

text \<open>The first slab that does not fail answers; with the lock held, it is released first.\<close>

fun answered :: "uintptr outcome \<Rightarrow> small_pc \<Rightarrow> small_pc \<Rightarrow> small_pc" where
  "answered (Err e) next answer = next"
| "answered r next answer = answer"

definition finish :: "bool \<Rightarrow> nat \<Rightarrow> uintptr \<Rightarrow> uintptr outcome \<Rightarrow> small_pc" where
  "finish lk i sz r = (if lk then SmallUnlock i sz r else SmallReturned sz r)"

text \<open>
  The load of cell \<open>j\<close> of the array at \<open>p\<close>. Through a nil pointer it panics; behind the end of the
  array it is wild.
\<close>

definition load_cell :: "small_state \<Rightarrow> bool \<Rightarrow> nat \<Rightarrow> uintptr \<Rightarrow> nat option \<Rightarrow> nat \<Rightarrow> nat \<Rightarrow> small_pc" where
  "load_cell s lk i sz p n j =
     (case p of
        None \<Rightarrow> finish lk i sz (Panic NilDereference)
      | Some a \<Rightarrow>
          (let arrays = sl_arrays (sm_slice s i)
           in if a < length arrays \<and> j < length (arrays ! a) then SmallTry lk i sz p n j (arrays ! a ! j) else SmallWild i sz))"

text \<open>
  \<open>newcap\<close> is how much \<open>append\<close> grows an array; \<open>order\<close> is the order in which its stores become
  visible. The order of the two loads of a loop is chosen with the call.
\<close>

fun small_act :: "(nat \<Rightarrow> nat) \<Rightarrow> (slice_store list \<Rightarrow> slice_store list) \<Rightarrow> (small_state, small_pc) action" where
  "small_act newcap order (SmallRead lk len_first i sz) s =
     Some (s, if len_first then SmallHasLen lk i sz (sl_len (sm_slice s i)) else SmallHasPtr lk i sz (sl_ptr (sm_slice s i)))"
| "small_act newcap order (SmallHasPtr lk i sz p) s = Some (s, SmallElem lk i sz p (sl_len (sm_slice s i)) 0)"
| "small_act newcap order (SmallHasLen lk i sz n) s = Some (s, SmallElem lk i sz (sl_ptr (sm_slice s i)) n 0)"
| "small_act newcap order (SmallElem lk i sz p n j) s =
     Some (s, if j < n then load_cell s lk i sz p n j else if lk then SmallGet i sz else SmallLock i sz)"
| "small_act newcap order (SmallTry lk i sz p n j cell) s =
     (let (s', r) = (case cell of None \<Rightarrow> nil_attempt s sz | Some k \<Rightarrow> small_attempt s k sz)
      in Some (s', answered r (SmallElem lk i sz p n (Suc j)) (finish lk i sz r)))"
| "small_act newcap order (SmallLock i sz) s =
     (if sm_lock s i then None else Some (s\<lparr>sm_lock := (sm_lock s)(i := True)\<rparr>, SmallRead True False i sz))"
| "small_act newcap order (SmallGet i sz) s =
     (case sm_supply s of
        [] \<Rightarrow> None
      | (choice, p) # rest \<Rightarrow>
          (case pool_take choice (sm_pool s i) of
             Some (k, pool) \<Rightarrow> Some (s\<lparr>sm_supply := rest, sm_pool := (sm_pool s)(i := pool)\<rparr>, SmallReset i sz k)
           | None \<Rightarrow> Some (s\<lparr>sm_supply := rest, sm_slabs := sm_slabs s @ [newSmallArena p]\<rparr>, SmallReset i sz (length (sm_slabs s)))))"
| "small_act newcap order (SmallReset i sz k) s =
     Some (s\<lparr>sm_slabs := (sm_slabs s)[k := smallArena_reset (sm_slabs s ! k)]\<rparr>, SmallAppend i sz k)"
| "small_act newcap order (SmallAppend i sz k) s =
     (let (m, ps) = append_stores newcap k (sm_slice s i)
      in Some (s\<lparr>sm_slice := (sm_slice s)(i := m), sm_stores := (sm_stores s)(i := order ps),
           sm_small := (sm_small s)(i := sm_small s i @ [k])\<rparr>, SmallStores i sz k))"
| "small_act newcap order (SmallStores i sz k) s =
     (case sm_stores s i of
        [] \<Rightarrow> Some (s, SmallLast i sz k)
      | p # ps \<Rightarrow> Some (s\<lparr>sm_slice := (sm_slice s)(i := do_store p (sm_slice s i)), sm_stores := (sm_stores s)(i := ps)\<rparr>, SmallStores i sz k))"
| "small_act newcap order (SmallLast i sz k) s = (let (s', r) = small_attempt s k sz in Some (s', SmallUnlock i sz r))"
| "small_act newcap order (SmallUnlock i sz r) s = Some (s\<lparr>sm_lock := (sm_lock s)(i := False)\<rparr>, SmallReturned sz r)"
| "small_act newcap order SmallIdle s = None"
| "small_act newcap order (SmallReturned sz r) s = None"
| "small_act newcap order (SmallWild i sz) s = None"

text \<open>What Go promises of the two: arrays grow, and every store is made once.\<close>

definition append_ok :: "(nat \<Rightarrow> nat) \<Rightarrow> (slice_store list \<Rightarrow> slice_store list) \<Rightarrow> bool" where
  "append_ok newcap order \<longleftrightarrow> (\<forall>n. n < newcap n) \<and> (\<forall>ps. mset (order ps) = mset ps)"

fun small_done :: "small_pc \<Rightarrow> bool" where
  "small_done SmallIdle = True"
| "small_done (SmallReturned sz r) = True"
| "small_done l = False"

text \<open>\<open>hybrid.Alloc\<close> comes here with at most 4 KiB; the thread chooses the shard.\<close>

inductive small_call :: "small_state \<Rightarrow> small_pc \<Rightarrow> small_state \<Rightarrow> small_pc \<Rightarrow> bool" where
  call_small: "small_done l \<Longrightarrow> sz \<le> smallThreshold \<Longrightarrow> small_call s l s (SmallRead False len_first (unat (threadID mod 8 :: u64)) sz)"

section \<open>The shape of the state\<close>

text \<open>
  A slab is in the slice of one shard, or in one pool, or in the hands of one goroutine. This, the
  locks and the slices themselves are in order whatever the first loops have read.
\<close>

fun in_hand :: "small_pc \<Rightarrow> nat option" where
  "in_hand (SmallReset i sz k) = Some k"
| "in_hand (SmallAppend i sz k) = Some k"
| "in_hand l = None"

datatype slab_place = InSmall nat | InPool nat | InHand nat

fun lies :: "small_state \<Rightarrow> (nat \<Rightarrow> small_pc) \<Rightarrow> slab_place \<Rightarrow> nat \<Rightarrow> bool" where
  "lies s ls (InSmall i) k \<longleftrightarrow> k \<in> set (sm_small s i)"
| "lies s ls (InPool i) k \<longleftrightarrow> k \<in> set (sm_pool s i)"
| "lies s ls (InHand u) k \<longleftrightarrow> in_hand (ls u) = Some k"

definition locked_by :: "bool \<Rightarrow> nat \<Rightarrow> nat option" where
  "locked_by lk i = (if lk then Some i else None)"

fun locks :: "small_pc \<Rightarrow> nat option" where
  "locks (SmallRead lk f i sz) = locked_by lk i"
| "locks (SmallHasPtr lk i sz p) = locked_by lk i"
| "locks (SmallHasLen lk i sz n) = locked_by lk i"
| "locks (SmallElem lk i sz p n j) = locked_by lk i"
| "locks (SmallTry lk i sz p n j c) = locked_by lk i"
| "locks (SmallGet i sz) = Some i"
| "locks (SmallReset i sz k) = Some i"
| "locks (SmallAppend i sz k) = Some i"
| "locks (SmallStores i sz k) = Some i"
| "locks (SmallLast i sz k) = Some i"
| "locks (SmallUnlock i sz r) = Some i"
| "locks l = None"

fun storing :: "small_pc \<Rightarrow> nat option" where
  "storing (SmallStores i sz k) = Some i"
| "storing l = None"

text \<open>The slice once the stores that are still to come are done.\<close>

definition settled :: "small_state \<Rightarrow> nat \<Rightarrow> slice_words" where
  "settled s i = fold do_store (sm_stores s i) (sm_slice s i)"

definition active :: "small_state \<Rightarrow> nat set" where
  "active s = (\<Union>i. set (sm_small s i))"

definition places_ok :: "small_state \<Rightarrow> (nat \<Rightarrow> small_pc) \<Rightarrow> bool" where
  "places_ok s ls \<longleftrightarrow> (\<forall>p q k. lies s ls p k \<longrightarrow> lies s ls q k \<longrightarrow> p = q) \<and> (\<forall>p k. lies s ls p k \<longrightarrow> k < length (sm_slabs s)) \<and>
     (\<forall>i. distinct (sm_small s i) \<and> distinct (sm_pool s i))"

definition locks_ok :: "small_state \<Rightarrow> (nat \<Rightarrow> small_pc) \<Rightarrow> bool" where
  "locks_ok s ls \<longleftrightarrow> (\<forall>u i. locks (ls u) = Some i \<longrightarrow> sm_lock s i) \<and>
     (\<forall>u v i. locks (ls u) = Some i \<longrightarrow> locks (ls v) = Some i \<longrightarrow> u = v)"

definition slices_ok :: "small_state \<Rightarrow> (nat \<Rightarrow> small_pc) \<Rightarrow> bool" where
  "slices_ok s ls \<longleftrightarrow> (\<forall>i. slice_shows (settled s i) (sm_small s i)) \<and>
     (\<forall>i. sm_stores s i \<noteq> [] \<longrightarrow> (\<exists>u. storing (ls u) = Some i))"

definition small_shape :: "small_state \<Rightarrow> (nat \<Rightarrow> small_pc) \<Rightarrow> bool" where
  "small_shape s ls \<longleftrightarrow> places_ok s ls \<and> locks_ok s ls \<and> slices_ok s ls"

lemma small_shapeD:
  assumes "small_shape s ls"
  shows "places_ok s ls" "locks_ok s ls" "slices_ok s ls"
  using assms by (simp_all add: small_shape_def)

lemma places_okD:
  assumes "places_ok s ls"
  shows "lies s ls p k \<Longrightarrow> lies s ls q k \<Longrightarrow> p = q" "lies s ls p k \<Longrightarrow> k < length (sm_slabs s)"
    "distinct (sm_small s i)" "distinct (sm_pool s i)"
  using assms unfolding places_ok_def by blast+

lemma locks_okD:
  assumes "locks_ok s ls"
  shows "locks (ls u) = Some i \<Longrightarrow> sm_lock s i" "locks (ls u) = Some i \<Longrightarrow> locks (ls v) = Some i \<Longrightarrow> u = v"
  using assms unfolding locks_ok_def by blast+

lemma slices_okD:
  assumes "slices_ok s ls"
  shows "slice_shows (settled s i) (sm_small s i)" "sm_stores s i \<noteq> [] \<Longrightarrow> \<exists>u. storing (ls u) = Some i"
  using assms unfolding slices_ok_def by blast+

lemma active_lies: "k \<in> active s \<longleftrightarrow> (\<exists>i. lies s ls (InSmall i) k)"
  by (simp add: active_def)

lemma active_bounded: "places_ok s ls \<Longrightarrow> j \<in> active s \<Longrightarrow> j < length (sm_slabs s)"
  unfolding active_lies [where ls = ls] using places_okD(2) by blast

lemma in_hand_idle: "places_ok s ls \<Longrightarrow> in_hand (ls u) = Some k \<Longrightarrow> k \<notin> active s"
  unfolding active_lies [where ls = ls] using places_okD(1) [of s ls "InHand u"] by fastforce

lemma storing_locks: "storing l = Some i \<Longrightarrow> locks l = Some i"
  by (cases l) simp_all

text \<open>While a goroutine that is not in an \<open>append\<close> holds the lock, the slice is settled.\<close>

lemma locked_settled:
  assumes "small_shape s ls" "locks (ls u) = Some i" "storing (ls u) = None"
  shows "sm_stores s i = []" "settled s i = sm_slice s i"
proof -
  note S = small_shapeD [OF assms(1)]
  show 1: "sm_stores s i = []"
  proof (rule ccontr)
    assume "sm_stores s i \<noteq> []"
    then obtain v where v: "storing (ls v) = Some i"
      using slices_okD(2) [OF S(3)] by blast
    have "v = u"
      by (rule locks_okD(2) [OF S(2) storing_locks [OF v] assms(2)])
    with v assms(3) show False by simp
  qed
  show "settled s i = sm_slice s i"
    by (simp add: settled_def 1)
qed

text \<open>A free lock means that nobody is in an \<open>append\<close>.\<close>

lemma free_settled:
  assumes "small_shape s ls" "\<not> sm_lock s i"
  shows "sm_stores s i = []" "slice_shows (sm_slice s i) (sm_small s i)"
proof -
  note S = small_shapeD [OF assms(1)]
  show 1: "sm_stores s i = []"
    using slices_okD(2) [OF S(3), of i] locks_okD(1) [OF S(2)] storing_locks assms(2) by blast
  then show "slice_shows (sm_slice s i) (sm_small s i)"
    using slices_okD(1) [OF S(3), of i] by (simp add: settled_def)
qed

section \<open>Every action keeps the shape\<close>

text \<open>Actions that move no slab and do not touch a slice or a lock.\<close>

lemma shape_same:
  assumes "small_shape s ls" "in_hand l' = in_hand (ls u)" "locks l' = locks (ls u) \<or> locks l' = None" "storing l' = storing (ls u)"
    and "sm_small s' = sm_small s" "sm_pool s' = sm_pool s" "length (sm_slabs s') = length (sm_slabs s)" "sm_lock s' = sm_lock s"
    and "sm_slice s' = sm_slice s" "sm_stores s' = sm_stores s"
  shows "small_shape s' (ls(u := l'))"
proof -
  note S = small_shapeD [OF assms(1)]
  have "lies s' (ls(u := l')) p k = lies s ls p k" for p k
    using assms by (cases p) auto
  then have "places_ok s' (ls(u := l'))"
    using S(1) assms(5-7) by (simp add: places_ok_def)
  moreover have l: "storing ((ls(u := l')) v) = storing (ls v)" "locks ((ls(u := l')) v) = Some i \<Longrightarrow> locks (ls v) = Some i" for v i
    using assms(3,4) by (auto split: if_splits)
  have "locks_ok s' (ls(u := l'))"
    using S(2) l(2) unfolding locks_ok_def assms(8) by blast
  moreover have "slices_ok s' (ls(u := l'))"
    using S(3) unfolding slices_ok_def settled_def l(1) assms(5,9,10) .
  ultimately show ?thesis
    by (simp add: small_shape_def)
qed

text \<open>One slab goes to another place.\<close>

lemma places_move:
  assumes ok: "places_ok s ls" and moved: "\<And>p j. lies s' ls' p j \<Longrightarrow> if j = k then p = q else lies s ls p j"
    and len: "k < length (sm_slabs s')" "length (sm_slabs s) \<le> length (sm_slabs s')"
    and lists: "\<And>i. distinct (sm_small s' i)" "\<And>i. distinct (sm_pool s' i)"
  shows "places_ok s' ls'"
  unfolding places_ok_def
proof (intro conjI allI impI)
  fix p p' j assume "lies s' ls' p j" "lies s' ls' p' j"
  then show "p = p'"
    using moved [of p j] moved [of p' j] places_okD(1) [OF ok, of p j p'] by (auto split: if_splits)
next
  fix p j assume "lies s' ls' p j"
  then show "j < length (sm_slabs s')"
    using moved [of p j] places_okD(2) [OF ok, of p j] len by (auto split: if_splits)
qed (use lists in blast)+

lemma locks_same:
  assumes "locks_ok s ls" "locks l' = locks (ls u)" "sm_lock s' = sm_lock s"
  shows "locks_ok s' (ls(u := l'))"
proof -
  have "locks ((ls(u := l')) v) = locks (ls v)" for v
    using assms(2) by simp
  then show ?thesis
    using assms(1,3) unfolding locks_ok_def by metis
qed

lemma slices_same:
  assumes "slices_ok s ls" "storing (ls u) = None" "sm_small s' = sm_small s" "sm_slice s' = sm_slice s" "sm_stores s' = sm_stores s"
  shows "slices_ok s' (ls(u := l'))"
proof -
  have "\<exists>v. storing ((ls(u := l')) v) = Some i" if more: "sm_stores s i \<noteq> []" for i
  proof -
    obtain v where "storing (ls v) = Some i"
      using slices_okD(2) [OF assms(1) more] by blast
    then show ?thesis
      using assms(2) by (intro exI [of _ v]) auto
  qed
  then show ?thesis
    using slices_okD(1) [OF assms(1)] assms(3-5) by (simp add: slices_ok_def settled_def)
qed

lemma shape_lock:
  assumes shape: "small_shape s ls" and here: "ls u = SmallLock i sz" "\<not> sm_lock s i"
  shows "small_shape (s\<lparr>sm_lock := (sm_lock s)(i := True)\<rparr>) (ls(u := SmallRead True f i sz))"
proof -
  note S = small_shapeD [OF shape]
  let ?s = "s\<lparr>sm_lock := (sm_lock s)(i := True)\<rparr>" and ?ls = "ls(u := SmallRead True f i sz)"
  have "lies ?s ?ls p k = lies s ls p k" for p k
    using here by (cases p) auto
  then have "places_ok ?s ?ls"
    using S(1) by (simp add: places_ok_def)
  moreover have "locks (ls v) \<noteq> Some i" for v
    using locks_okD(1) [OF S(2)] here(2) by blast
  then have "locks_ok ?s ?ls"
    using S(2) unfolding locks_ok_def by (intro conjI allI impI) (auto simp: locked_by_def split: if_splits)
  moreover have "slices_ok ?s ?ls"
    using here by (intro slices_same [OF S(3)]) simp_all
  ultimately show ?thesis
    by (simp add: small_shape_def)
qed

lemma shape_unlock:
  assumes shape: "small_shape s ls" and here: "ls u = SmallUnlock i sz r"
  shows "small_shape (s\<lparr>sm_lock := (sm_lock s)(i := False)\<rparr>) (ls(u := SmallReturned sz r))"
proof -
  note S = small_shapeD [OF shape]
  let ?s = "s\<lparr>sm_lock := (sm_lock s)(i := False)\<rparr>" and ?ls = "ls(u := SmallReturned sz r)"
  have "lies ?s ?ls p k = lies s ls p k" for p k
    using here by (cases p) auto
  then have "places_ok ?s ?ls"
    using S(1) by (simp add: places_ok_def)
  moreover have "locks_ok ?s ?ls"
    using S(2) here unfolding locks_ok_def by (auto dest: spec [of _ u])
  moreover have "slices_ok ?s ?ls"
    using here by (intro slices_same [OF S(3)]) simp_all
  ultimately show ?thesis
    by (simp add: small_shape_def)
qed

lemma shape_get_pooled:
  assumes shape: "small_shape s ls" and here: "ls u = SmallGet i sz" and pooled: "pool_take c (sm_pool s i) = Some (k, pool)"
  shows "small_shape (s\<lparr>sm_supply := rest, sm_pool := (sm_pool s)(i := pool)\<rparr>) (ls(u := SmallReset i sz k))"
proof -
  note S = small_shapeD [OF shape] and T = pool_take_Some [OF pooled]
  let ?s = "s\<lparr>sm_supply := rest, sm_pool := (sm_pool s)(i := pool)\<rparr>" and ?ls = "ls(u := SmallReset i sz k)"
  have P: "distinct pool" "k \<notin> set pool" "k \<in> set (sm_pool s i)"
    using T places_okD(4) [OF S(1), of i] by auto
  have only: "p = InPool i" if "lies s ls p k" for p
    using places_okD(1) [OF S(1) that, of "InPool i"] P(3) by simp
  have "places_ok ?s ?ls"
  proof (rule places_move [OF S(1)])
    fix p j assume "lies ?s ?ls p j"
    then show "if j = k then p = InHand u else lies s ls p j"
      using only [of p] P T(2) by (cases p) (auto split: if_splits)
  next
    show "k < length (sm_slabs ?s)"
      using places_okD(2) [OF S(1), of "InPool i"] P(3) by simp
  qed (use places_okD(3,4) [OF S(1)] P in simp_all)
  moreover have "locks_ok ?s ?ls" "slices_ok ?s ?ls"
    using here by (auto intro!: locks_same [OF S(2)] slices_same [OF S(3)])
  ultimately show ?thesis
    by (simp add: small_shape_def)
qed

lemma shape_get_new:
  assumes shape: "small_shape s ls" and here: "ls u = SmallGet i sz"
  shows "small_shape (s\<lparr>sm_supply := rest, sm_slabs := sm_slabs s @ [newSmallArena p]\<rparr>) (ls(u := SmallReset i sz (length (sm_slabs s))))"
proof -
  note S = small_shapeD [OF shape]
  let ?k = "length (sm_slabs s)"
  let ?s = "s\<lparr>sm_supply := rest, sm_slabs := sm_slabs s @ [newSmallArena p]\<rparr>" and ?ls = "ls(u := SmallReset i sz ?k)"
  have bound: "j < ?k" if "lies s ls p j" for p j
    using places_okD(2) [OF S(1) that] .
  have "places_ok ?s ?ls"
  proof (rule places_move [OF S(1)])
    fix p j assume lies: "lies ?s ?ls p j"
    show "if j = ?k then p = InHand u else lies s ls p j"
    proof (cases "p = InHand u")
      case False
      then have "lies s ls p j"
        using lies by (cases p) auto
      then show ?thesis
        using bound by auto
    qed (use lies in simp)
  qed (use places_okD(3,4) [OF S(1)] in simp_all)
  moreover have "locks_ok ?s ?ls" "slices_ok ?s ?ls"
    using here by (auto intro!: locks_same [OF S(2)] slices_same [OF S(3)])
  ultimately show ?thesis
    by (simp add: small_shape_def)
qed

text \<open>The slab in hand joins the slice; the stores that show it are still to come.\<close>

lemma shape_append:
  assumes shape: "small_shape s ls" and ok: "append_ok newcap order" and here: "ls u = SmallAppend i sz k"
    and stores: "append_stores newcap k (sm_slice s i) = (m, ps)"
  shows "small_shape (s\<lparr>sm_slice := (sm_slice s)(i := m), sm_stores := (sm_stores s)(i := order ps),
      sm_small := (sm_small s)(i := sm_small s i @ [k])\<rparr>) (ls(u := SmallStores i sz k))"
proof -
  note S = small_shapeD [OF shape]
  let ?s = "s\<lparr>sm_slice := (sm_slice s)(i := m), sm_stores := (sm_stores s)(i := order ps), sm_small := (sm_small s)(i := sm_small s i @ [k])\<rparr>"
  let ?ls = "ls(u := SmallStores i sz k)"
  have k: "k < length (sm_slabs s)"
    using places_okD(2) [OF S(1), of "InHand u" k] here by simp
  have idle: "k \<notin> active s"
    using in_hand_idle [OF S(1), of u k] here by simp
  have only: "p = InHand u" if "lies s ls p k" for p
    using places_okD(1) [OF S(1) that, of "InHand u"] here by simp
  have "places_ok ?s ?ls"
  proof (rule places_move [OF S(1)])
    fix p j assume "lies ?s ?ls p j"
    then show "if j = k then p = InSmall i else lies s ls p j"
      using only [of p] here by (cases p) (auto split: if_splits)
  next
    show "distinct (sm_small ?s j)" for j
      using places_okD(3) [OF S(1)] idle by (auto simp: active_def)
  qed (use k places_okD(4) [OF S(1)] in simp_all)
  moreover have "locks_ok ?s ?ls"
    using here by (intro locks_same [OF S(2)]) simp_all
  moreover have "slices_ok ?s ?ls"
    unfolding slices_ok_def
  proof (intro conjI allI impI)
    fix j
    have now: "slice_shows (sm_slice s i) (sm_small s i)"
      using slices_okD(1) [OF S(3), of i] locked_settled(2) [OF shape, of u i] here by simp
    show "slice_shows (settled ?s j) (sm_small ?s j)"
    proof (cases "j = i")
      case True
      have "\<And>n. n < newcap n" "mset (order ps) = mset ps"
        using ok by (simp_all add: append_ok_def)
      from append_shows [OF now this(1) stores this(2)] True show ?thesis
        by (simp add: settled_def)
    qed (use slices_okD(1) [OF S(3), of j] in \<open>simp add: settled_def\<close>)
    assume "sm_stores ?s j \<noteq> []"
    then show "\<exists>v. storing (?ls v) = Some j"
    proof (cases "j = i")
      case False
      with \<open>sm_stores ?s j \<noteq> []\<close> obtain v where "storing (ls v) = Some j"
        using slices_okD(2) [OF S(3), of j] by auto
      then show ?thesis
        using here by (intro exI [of _ v]) auto
    qed (auto intro: exI [of _ u])
  qed
  ultimately show ?thesis
    by (simp add: small_shape_def)
qed

lemma shape_store:
  assumes shape: "small_shape s ls" and here: "ls u = SmallStores i sz k" "sm_stores s i = p # ps"
  shows "small_shape (s\<lparr>sm_slice := (sm_slice s)(i := do_store p (sm_slice s i)), sm_stores := (sm_stores s)(i := ps)\<rparr>) ls"
proof -
  note S = small_shapeD [OF shape]
  let ?s = "s\<lparr>sm_slice := (sm_slice s)(i := do_store p (sm_slice s i)), sm_stores := (sm_stores s)(i := ps)\<rparr>"
  have "lies ?s ls q j = lies s ls q j" for q j
    by (cases q) simp_all
  then have "places_ok ?s ls"
    using S(1) by (simp add: places_ok_def)
  moreover have "locks_ok ?s ls"
    using S(2) by (simp add: locks_ok_def)
  moreover have "settled ?s j = settled s j" for j
    using here(2) by (simp add: settled_def)
  then have "slices_ok ?s ls"
    using S(3) here by (auto simp: slices_ok_def)
  ultimately show ?thesis
    by (simp add: small_shape_def)
qed

lemma shape_stored:
  assumes shape: "small_shape s ls" and here: "ls u = SmallStores i sz k" "sm_stores s i = []"
  shows "small_shape s (ls(u := SmallLast i sz k))"
proof -
  note S = small_shapeD [OF shape]
  have "lies s (ls(u := SmallLast i sz k)) q j = lies s ls q j" for q j
    using here by (cases q) auto
  then have "places_ok s (ls(u := SmallLast i sz k))"
    using S(1) by (simp add: places_ok_def)
  moreover have "locks_ok s (ls(u := SmallLast i sz k))"
    using here by (intro locks_same [OF S(2)]) simp_all
  moreover have "\<exists>v. storing ((ls(u := SmallLast i sz k)) v) = Some j" if more: "sm_stores s j \<noteq> []" for j
  proof -
    obtain v where "storing (ls v) = Some j"
      using slices_okD(2) [OF S(3) more] by blast
    then show ?thesis
      using more here by (intro exI [of _ v]) auto
  qed
  then have "slices_ok s (ls(u := SmallLast i sz k))"
    using slices_okD(1) [OF S(3)] by (simp add: slices_ok_def)
  ultimately show ?thesis
    by (simp add: small_shape_def)
qed

lemma small_attempt_same:
  assumes "small_attempt s k sz = (s', r)"
  shows "sm_small s' = sm_small s" "sm_pool s' = sm_pool s" "length (sm_slabs s') = length (sm_slabs s)" "sm_lock s' = sm_lock s"
    "sm_slice s' = sm_slice s" "sm_stores s' = sm_stores s" "sm_supply s' = sm_supply s"
  using assms by (auto simp: small_attempt_def split: prod.splits)

lemma nil_attempt_same:
  assumes "nil_attempt s sz = (s', r)"
  shows "sm_small s' = sm_small s" "sm_pool s' = sm_pool s" "sm_slabs s' = sm_slabs s" "sm_lock s' = sm_lock s"
    "sm_slice s' = sm_slice s" "sm_stores s' = sm_stores s" "sm_supply s' = sm_supply s"
  using assms by (auto simp: nil_attempt_def split: if_splits)

lemma answered_same: "in_hand (answered r l m) = (if \<exists>e. r = Err e then in_hand l else in_hand m)"
  "locks (answered r l m) = (if \<exists>e. r = Err e then locks l else locks m)"
  "storing (answered r l m) = (if \<exists>e. r = Err e then storing l else storing m)"
  by (cases r; simp)+

lemma finish_same [simp]: "in_hand (finish lk i sz r) = None" "locks (finish lk i sz r) = locked_by lk i" "storing (finish lk i sz r) = None"
  by (simp_all add: finish_def locked_by_def)

lemma load_cell_same [simp]:
  "in_hand (load_cell s lk i sz p n j) = None" "storing (load_cell s lk i sz p n j) = None"
  by (simp_all add: load_cell_def Let_def split: option.split)

lemma load_cell_locks: "locks (load_cell s lk i sz p n j) = locked_by lk i \<or> locks (load_cell s lk i sz p n j) = None"
  by (simp add: load_cell_def Let_def split: option.split)

lemma small_act_shape:
  assumes shape: "small_shape s ls" and ok: "append_ok newcap order" and act: "small_act newcap order (ls u) s = Some (s', l')"
  shows "small_shape s' (ls(u := l'))"
proof (cases "ls u")
  case (SmallElem lk i sz p n j)
  then show ?thesis
    using act load_cell_locks [of s lk i sz p n j] by (intro shape_same [OF shape]) (auto simp: locked_by_def split: if_splits)
next
  case (SmallTry lk i sz p n j cell)
  obtain t r where t: "(case cell of None \<Rightarrow> nil_attempt s sz | Some k \<Rightarrow> small_attempt s k sz) = (t, r)"
    by fastforce
  then have "sm_small t = sm_small s" "sm_pool t = sm_pool s" "length (sm_slabs t) = length (sm_slabs s)" "sm_lock t = sm_lock s"
    "sm_slice t = sm_slice s" "sm_stores t = sm_stores s"
    by (auto dest: small_attempt_same nil_attempt_same split: option.splits)
  then show ?thesis
    using act SmallTry t by (intro shape_same [OF shape]) (auto simp: answered_same split: if_splits)
next
  case (SmallLock i sz)
  then show ?thesis
    using act shape_lock [OF shape SmallLock] by (auto split: if_splits)
next
  case (SmallGet i sz)
  then obtain c p rest where feed: "sm_supply s = (c, p) # rest"
    using act by (auto split: list.splits)
  show ?thesis
  proof (cases "pool_take c (sm_pool s i)")
    case None
    then show ?thesis
      using act shape_get_new [OF shape SmallGet, where p = p and rest = rest] SmallGet feed by auto
  next
    case (Some kp)
    then show ?thesis
      using act shape_get_pooled [OF shape SmallGet, of c "fst kp" "snd kp"] SmallGet feed by (cases kp) auto
  qed
next
  case (SmallAppend i sz k)
  obtain m ps where "append_stores newcap k (sm_slice s i) = (m, ps)"
    by fastforce
  with shape_append [OF shape ok SmallAppend this] show ?thesis
    using act SmallAppend by simp
next
  case (SmallStores i sz k)
  show ?thesis
  proof (cases "sm_stores s i")
    case Nil
    then show ?thesis
      using act shape_stored [OF shape SmallStores] SmallStores by simp
  next
    case (Cons p ps)
    then have "ls(u := l') = ls"
      using act SmallStores by auto
    then show ?thesis
      using act shape_store [OF shape SmallStores Cons] SmallStores Cons by simp
  qed
next
  case (SmallLast i sz k)
  obtain t r where t: "small_attempt s k sz = (t, r)" by fastforce
  then show ?thesis
    using act SmallLast by (intro shape_same [OF shape]) (auto dest: small_attempt_same)
next
  case (SmallUnlock i sz r)
  then show ?thesis
    using act shape_unlock [OF shape SmallUnlock] by auto
qed (use act in \<open>auto intro!: shape_same [OF shape] split: if_splits\<close>)

lemma small_call_shape:
  assumes shape: "small_shape s ls" and start: "small_call s (ls u) s' l'"
  shows "small_shape s' (ls(u := l'))"
proof -
  from start obtain f i sz where l': "small_done (ls u)" "s' = s" "l' = SmallRead False f i sz"
    by (cases rule: small_call.cases) blast
  then show ?thesis
    by (cases "ls u") (auto simp: locked_by_def intro!: shape_same [OF shape])
qed

section \<open>The invariant\<close>

text \<open>
  As long as no cell of an array has held a slab from before, the cells hold nil or slabs that were
  appended. Then the slabs that a goroutine tries are in use, in no pool, and the blocks are apart.
\<close>

fun tries :: "small_pc \<Rightarrow> nat set" where
  "tries (SmallTry lk i sz p n j (Some k)) = {k}"
| "tries (SmallStores i sz k) = {k}"
| "tries (SmallLast i sz k) = {k}"
| "tries l = {}"

fun request :: "small_pc \<Rightarrow> uintptr" where
  "request (SmallRead lk f i sz) = sz"
| "request (SmallHasPtr lk i sz p) = sz"
| "request (SmallHasLen lk i sz n) = sz"
| "request (SmallElem lk i sz p n j) = sz"
| "request (SmallTry lk i sz p n j c) = sz"
| "request (SmallLock i sz) = sz"
| "request (SmallGet i sz) = sz"
| "request (SmallReset i sz k) = sz"
| "request (SmallAppend i sz k) = sz"
| "request (SmallStores i sz k) = sz"
| "request (SmallLast i sz k) = sz"
| "request l = 0"

text \<open>What a call can return.\<close>

definition answer_ok :: "small_state \<Rightarrow> uintptr \<Rightarrow> uintptr outcome \<Rightarrow> bool" where
  "answer_ok s sz r \<longleftrightarrow> r = Err Balloc_ErrOutOfMemory \<or> r = Panic NilDereference \<or> (\<exists>a. r = Ok a \<and> (a, unat sz) \<in> set (sm_given s))"

fun small_knows :: "small_state \<Rightarrow> small_pc \<Rightarrow> bool" where
  "small_knows s (SmallAppend i sz k) \<longleftrightarrow> sa_off (sm_slabs s ! k) = 0"
| "small_knows s (SmallUnlock i sz r) \<longleftrightarrow> answer_ok s sz r"
| "small_knows s (SmallReturned sz r) \<longleftrightarrow> answer_ok s sz r"
| "small_knows s l \<longleftrightarrow> True"

definition cells_ok :: "small_state \<Rightarrow> bool" where
  "cells_ok s \<longleftrightarrow> (\<forall>i. cells_in (set (sm_small s i)) (sm_slice s i) \<and> stores_in (set (sm_small s i)) (sm_stores s i))"

definition apart_pair :: "uintptr \<times> nat \<Rightarrow> uintptr \<times> nat \<Rightarrow> bool" where
  "apart_pair x y \<longleftrightarrow> span (fst x) (snd x) \<inter> span (fst y) (snd y) = {}"

definition given_ok :: "small_state \<Rightarrow> bool" where
  "given_ok s \<longleftrightarrow> slabs_ok {} (map sa_ptr (sm_slabs s) @ map snd (sm_supply s)) \<and>
     (\<forall>k \<in> active s. 0 \<le> sa_off (sm_slabs s ! k) \<and> sa_off (sm_slabs s ! k) \<le> int (sm_tried s)) \<and>
     (\<forall>x \<in> set (sm_given s). snd x \<noteq> 0 \<longrightarrow> (\<exists>k \<in> active s. span (fst x) (snd x) \<subseteq> slab_used (sm_slabs s ! k))) \<and>
     sorted_wrt apart_pair (sm_given s)"

text \<open>The block that a goroutine has just been given.\<close>

fun held :: "small_pc \<Rightarrow> (uintptr \<times> nat) option" where
  "held (SmallUnlock i sz (Ok a)) = Some (a, unat sz)"
| "held (SmallReturned sz (Ok a)) = Some (a, unat sz)"
| "held l = None"

definition held_ok :: "(nat \<Rightarrow> small_pc) \<Rightarrow> bool" where
  "held_ok ls \<longleftrightarrow> (\<forall>u v x y. u \<noteq> v \<longrightarrow> held (ls u) = Some x \<longrightarrow> held (ls v) = Some y \<longrightarrow> apart_pair x y)"

definition small_core :: "small_state \<Rightarrow> (nat \<Rightarrow> small_pc) \<Rightarrow> bool" where
  "small_core s ls \<longleftrightarrow> small_shape s ls \<and> cells_ok s \<and> given_ok s \<and> held_ok ls \<and>
     (\<forall>u. tries (ls u) \<subseteq> active s \<and> small_knows s (ls u) \<and> request (ls u) \<le> smallThreshold)"

lemma small_coreD:
  assumes "small_core s ls"
  shows "small_shape s ls" "cells_ok s" "given_ok s" "held_ok ls" "tries (ls u) \<subseteq> active s" "small_knows s (ls u)"
    "request (ls u) \<le> smallThreshold" "places_ok s ls"
  using assms unfolding small_core_def small_shape_def by blast+

lemma given_okD:
  assumes "given_ok s"
  shows "slabs_ok {} (map sa_ptr (sm_slabs s) @ map snd (sm_supply s))"
    "k \<in> active s \<Longrightarrow> 0 \<le> sa_off (sm_slabs s ! k)" "k \<in> active s \<Longrightarrow> sa_off (sm_slabs s ! k) \<le> int (sm_tried s)"
    "x \<in> set (sm_given s) \<Longrightarrow> snd x \<noteq> 0 \<Longrightarrow> \<exists>k \<in> active s. span (fst x) (snd x) \<subseteq> slab_used (sm_slabs s ! k)"
    "sorted_wrt apart_pair (sm_given s)"
  using assms unfolding given_ok_def by blast+

lemma slab_in_space: "slabs_ok R (map sa_ptr S @ ps) \<Longrightarrow> k < length S \<Longrightarrow> in_space (sa_ptr (S ! k)) 65536"
  by (auto simp: slabs_ok_def smallSlabSize_def)

lemma slabs_apart:
  assumes "slabs_ok R (map sa_ptr S @ ps)" "k < length S" "j < length S" "k \<noteq> j"
  shows "slab_span (sa_ptr (S ! k)) \<inter> slab_span (sa_ptr (S ! j)) = {}"
proof -
  have "map sa_ptr S ! k \<noteq> map sa_ptr S ! j"
    using assms unfolding slabs_ok_def by (subst nth_eq_iff_index_eq) auto
  then show ?thesis
    using assms unfolding slabs_ok_def by simp
qed

lemma slab_used_in_span: "slab_used a \<subseteq> slab_span (sa_ptr a)"
  unfolding slab_used_def slab_span_def by (rule span_mono) simp

text \<open>A block that an attempt hands out is new memory of its slab.\<close>

lemma cut_from_slab:
  assumes "in_space (sa_ptr a) 65536" "0 \<le> sa_off a" "sa_off a + int n \<le> smallSlabSize"
  shows "span (sa_ptr a + word_of_int (sa_off a)) n \<subseteq> slab_used (a\<lparr>sa_off := sa_off a + int n\<rparr>)"
    "span (sa_ptr a + word_of_int (sa_off a)) n \<inter> slab_used a = {}"
proof -
  have "unat (word_of_int (sa_off a) :: u64) = nat (sa_off a)"
    using assms(2,3) by (intro unat_word_of_int_u64) (simp_all add: smallSlabSize_def)
  then have "unat (sa_ptr a + word_of_int (sa_off a)) = unat (sa_ptr a) + nat (sa_off a)"
    using assms by (subst unat_add_u64) (simp_all add: in_space_def smallSlabSize_def)
  then show "span (sa_ptr a + word_of_int (sa_off a)) n \<subseteq> slab_used (a\<lparr>sa_off := sa_off a + int n\<rparr>)"
    "span (sa_ptr a + word_of_int (sa_off a)) n \<inter> slab_used a = {}"
    using assms(2,3) by (auto simp: span_def slab_used_def)
qed

lemma slab_used_grows: "sa_ptr a' = sa_ptr a \<Longrightarrow> sa_off a \<le> sa_off a' \<Longrightarrow> slab_used a \<subseteq> slab_used a'"
  unfolding slab_used_def by (auto simp: span_def)

text \<open>An attempt on a slab of a shard keeps what was handed out apart.\<close>

definition attempt_ok :: "small_state \<Rightarrow> small_state \<Rightarrow> nat \<Rightarrow> uintptr \<Rightarrow> uintptr outcome \<Rightarrow> bool" where
  "attempt_ok s s' k sz r \<longleftrightarrow> given_ok s' \<and>
     (r = Err Balloc_ErrOutOfMemory \<and> sm_given s' = sm_given s \<or> (\<exists>a. r = Ok a \<and> sm_given s' = (a, unat sz) # sm_given s)) \<and>
     (\<forall>j. j \<noteq> k \<longrightarrow> sm_slabs s' ! j = sm_slabs s ! j)"

lemma attempt_zero:
  assumes "given_ok s" "k < length (sm_slabs s)" "small_attempt s k 0 = (s', r)"
  shows "attempt_ok s s' k 0 r"
proof -
  have s': "s' = s\<lparr>sm_given := (0, 0) # sm_given s\<rparr>" "r = Ok 0"
    using assms(3) by (simp_all add: small_attempt_def smallArena_alloc_def)
  note G = given_okD [OF assms(1)]
  have act: "active s' = active s"
    by (simp add: s' active_def)
  have "given_ok s'"
    unfolding given_ok_def act
  proof (intro conjI ballI impI)
    fix x assume "x \<in> set (sm_given s')" "snd x \<noteq> 0"
    then have "x \<in> set (sm_given s)"
      by (auto simp: s')
    then show "\<exists>k \<in> active s. span (fst x) (snd x) \<subseteq> slab_used (sm_slabs s' ! k)"
      using G(4) [of x] \<open>snd x \<noteq> 0\<close> by (simp add: s')
  qed (use G(1-3,5) in \<open>simp_all add: s' apart_pair_def span_def\<close>)
  then show ?thesis
    using s' by (auto simp: attempt_ok_def)
qed

lemma attempt_given:
  assumes given: "given_ok s" and k: "k \<in> active s" "k < length (sm_slabs s)" and active: "\<forall>j \<in> active s. j < length (sm_slabs s)"
    and n: "0 < n" and room: "sa_off (sm_slabs s ! k) + int n \<le> smallSlabSize \<or> blocks = []"
    and blocks: "blocks = [] \<or> blocks = [(sa_ptr (sm_slabs s ! k) + word_of_int (sa_off (sm_slabs s ! k)), n)]"
    and s': "s' = s\<lparr>sm_slabs := (sm_slabs s)[k := (sm_slabs s ! k)\<lparr>sa_off := sa_off (sm_slabs s ! k) + int n\<rparr>],
      sm_tried := sm_tried s + n, sm_given := blocks @ sm_given s\<rparr>"
  shows "given_ok s'"
proof -
  note G = given_okD [OF given]
  let ?a = "sm_slabs s ! k" and ?S = "sm_slabs s"
  let ?a' = "?a\<lparr>sa_off := sa_off ?a + int n\<rparr>"
  have act: "active s' = active s"
    by (simp add: active_def s')
  have grows: "slab_used (?S ! j) \<subseteq> slab_used (sm_slabs s' ! j)" if "j < length ?S" for j
    using slab_used_grows [of ?a' ?a] k(2) by (cases "j = k") (simp_all add: s')
  have old: "\<exists>j \<in> active s. span (fst x) (snd x) \<subseteq> slab_used (sm_slabs s' ! j)" if mem: "x \<in> set (sm_given s)" "snd x \<noteq> 0" for x
  proof -
    obtain j where j: "j \<in> active s" "span (fst x) (snd x) \<subseteq> slab_used (?S ! j)"
      using G(4) [OF mem] by blast
    then show ?thesis
      using grows [of j] active by blast
  qed
  have new: "span (fst b) (snd b) \<subseteq> slab_used (sm_slabs s' ! k)" "\<forall>x \<in> set (sm_given s). apart_pair b x" if "b \<in> set blocks" for b
  proof -
    have b: "b = (sa_ptr ?a + word_of_int (sa_off ?a), n)" and room': "sa_off ?a + int n \<le> smallSlabSize"
      using that blocks room by auto
    note C = cut_from_slab [OF slab_in_space [OF G(1) k(2)] G(2) [OF k(1)] room']
    show "span (fst b) (snd b) \<subseteq> slab_used (sm_slabs s' ! k)"
      using C(1) k(2) by (simp add: b s')
    show "\<forall>x \<in> set (sm_given s). apart_pair b x"
    proof
      fix x assume x: "x \<in> set (sm_given s)"
      show "apart_pair b x"
      proof (cases "snd x = 0")
        case False
        then obtain j where j: "j \<in> active s" "span (fst x) (snd x) \<subseteq> slab_used (?S ! j)"
          using G(4) [OF x] by blast
        show ?thesis
        proof (cases "j = k")
          case True
          then show ?thesis
            using C(2) j(2) by (auto simp: apart_pair_def b)
        next
          case False
          have "span (fst b) (snd b) \<subseteq> slab_span (sa_ptr ?a)"
            using C(1) slab_used_in_span [of ?a'] by (auto simp: b)
          moreover have "span (fst x) (snd x) \<subseteq> slab_span (sa_ptr (?S ! j))"
            using j(2) slab_used_in_span by blast
          ultimately show ?thesis
            using slabs_apart [OF G(1) k(2), of j] active j(1) False unfolding apart_pair_def by blast
        qed
      qed (simp add: apart_pair_def span_def)
    qed
  qed
  have ptrs: "map sa_ptr (sm_slabs s') = map sa_ptr ?S"
    using k(2) by (intro nth_equalityI) (auto simp: s' nth_list_update)
  have "0 \<le> sa_off (sm_slabs s' ! j) \<and> sa_off (sm_slabs s' ! j) \<le> int (sm_tried s')" if "j \<in> active s" for j
    using G(2,3) [OF that] k(2) by (cases "j = k") (auto simp: s')
  moreover have "\<exists>j \<in> active s'. span (fst x) (snd x) \<subseteq> slab_used (sm_slabs s' ! j)" if "x \<in> set (sm_given s')" "snd x \<noteq> 0" for x
    using that old [of x] new(1) [of x] k(1) by (auto simp: s' act [unfolded s'])
  moreover have "sorted_wrt apart_pair (sm_given s')"
    using G(5) new(2) blocks by (auto simp: s')
  ultimately show ?thesis
    unfolding given_ok_def act ptrs using G(1) by (simp add: s')
qed

lemma small_attempt_ok:
  assumes given: "given_ok s" and k: "k \<in> active s" and active: "\<forall>j \<in> active s. j < length (sm_slabs s)"
    and sz: "sz \<le> smallThreshold" and room: "int (sm_tried s) + 4096 < 2 ^ 63" and r: "small_attempt s k sz = (s', r)"
  shows "attempt_ok s s' k sz r"
proof (cases "sz = 0")
  case True
  with attempt_zero [OF given _ r [unfolded True]] k active show ?thesis by simp
next
  case False
  note G = given_okD [OF given]
  let ?a = "sm_slabs s ! k"
  let ?A = "sa_ptr ?a + word_of_int (sa_off ?a)"
  have off: "0 \<le> sa_off ?a" "sa_off ?a + 4096 < 2 ^ 63"
    using G(2,3) [OF k] room by simp_all
  have len: "k < length (sm_slabs s)"
    using k active by blast
  have n: "0 < unat sz"
    using False by (simp add: unat_gt_0)
  define blocks where "blocks = (if sa_off ?a + int (unat sz) > smallSlabSize then [] else [(?A, unat sz)])"
  have s': "s' = s\<lparr>sm_slabs := (sm_slabs s)[k := ?a\<lparr>sa_off := sa_off ?a + int (unat sz)\<rparr>],
      sm_tried := sm_tried s + unat sz, sm_given := blocks @ sm_given s\<rparr>"
    and r': "r = (if sa_off ?a + int (unat sz) > smallSlabSize then Err Balloc_ErrOutOfMemory else Ok ?A)"
    using r unfolding small_attempt_def smallArena_alloc_eq [OF off sz False] by (auto simp: blocks_def simp del: of_nat_unat)
  have "given_ok s'"
    by (rule attempt_given [OF given k len active n _ _ s']) (auto simp: blocks_def simp del: of_nat_unat)
  then show ?thesis
    unfolding attempt_ok_def using s' r' by (auto simp: blocks_def simp del: of_nat_unat)
qed

section \<open>Every action keeps the invariant\<close>

lemma given_keep:
  assumes given: "given_ok s" and slabs: "slabs_ok {} (map sa_ptr (sm_slabs s') @ map snd (sm_supply s'))"
    and same: "sm_tried s' = sm_tried s" "sm_given s' = sm_given s" "active s \<subseteq> active s'"
    and old: "\<And>k. k \<in> active s \<Longrightarrow> sm_slabs s' ! k = sm_slabs s ! k"
    and new: "\<And>k. k \<in> active s' \<Longrightarrow> k \<notin> active s \<Longrightarrow> sa_off (sm_slabs s' ! k) = 0"
  shows "given_ok s'"
proof -
  note G = given_okD [OF given]
  have "0 \<le> sa_off (sm_slabs s' ! k) \<and> sa_off (sm_slabs s' ! k) \<le> int (sm_tried s')" if "k \<in> active s'" for k
    using G(2,3) [of k] old [of k] new [OF that] same(1) by (cases "k \<in> active s") simp_all
  moreover have "\<exists>k \<in> active s'. span (fst x) (snd x) \<subseteq> slab_used (sm_slabs s' ! k)"
    if mem: "x \<in> set (sm_given s')" "snd x \<noteq> 0" for x
  proof -
    obtain k where k: "k \<in> active s" "span (fst x) (snd x) \<subseteq> slab_used (sm_slabs s ! k)"
      using G(4) [of x] mem same(2) by auto
    then show ?thesis
      using old [OF k(1)] same(3) by (intro bexI [of _ k]) auto
  qed
  ultimately show ?thesis
    unfolding given_ok_def using slabs G(5) same(2) by simp
qed

text \<open>Only locks and slices change.\<close>

lemma given_same:
  assumes "given_ok s" "sm_slabs s' = sm_slabs s" "sm_supply s' = sm_supply s" "sm_tried s' = sm_tried s" "sm_given s' = sm_given s"
    "sm_small s' = sm_small s"
  shows "given_ok s'"
  using assms by (simp add: given_ok_def active_def)

lemma held_same:
  assumes "held_ok ls" "held l' = held (ls u)"
  shows "held_ok (ls(u := l'))"
proof -
  have "held ((ls(u := l')) v) = held (ls v)" for v
    using assms(2) by simp
  then show ?thesis
    using assms(1) unfolding held_ok_def by metis
qed

lemma held_none: "held_ok ls \<Longrightarrow> held l' = None \<Longrightarrow> held_ok (ls(u := l'))"
  unfolding held_ok_def by simp

lemma answer_ok_mono: "answer_ok s sz r \<Longrightarrow> set (sm_given s) \<subseteq> set (sm_given s') \<Longrightarrow> answer_ok s' sz r"
  unfolding answer_ok_def by blast

lemma small_knows_kept:
  assumes "small_knows s l" "set (sm_given s) \<subseteq> set (sm_given s')" "\<And>k. in_hand l = Some k \<Longrightarrow> sm_slabs s' ! k = sm_slabs s ! k"
  shows "small_knows s' l"
  using assms answer_ok_mono by (cases l) auto

lemma small_core_step:
  assumes core: "small_core s ls" and shape: "small_shape s' (ls(u := l'))"
    and ok: "cells_ok s'" "given_ok s'" "held_ok (ls(u := l'))"
    and mono: "set (sm_given s) \<subseteq> set (sm_given s')" "active s \<subseteq> active s'"
    and hands: "\<And>v k. v \<noteq> u \<Longrightarrow> in_hand (ls v) = Some k \<Longrightarrow> sm_slabs s' ! k = sm_slabs s ! k"
    and l': "tries l' \<subseteq> active s'" "small_knows s' l'" "request l' \<le> smallThreshold"
  shows "small_core s' (ls(u := l'))"
proof -
  have "small_knows s' (ls v)" if "v \<noteq> u" for v
    using small_knows_kept [OF small_coreD(6) [OF core] mono(1)] hands [OF that] by blast
  moreover have "tries (ls v) \<subseteq> active s'" for v
    using small_coreD(5) [OF core] mono(2) by blast
  ultimately show ?thesis
    unfolding small_core_def using shape ok l' small_coreD(7) [OF core] by simp
qed

text \<open>Actions that leave slabs, slices and history alone.\<close>

lemma core_local:
  assumes core: "small_core s ls" and shape: "small_shape s' (ls(u := l'))"
    and same: "sm_slabs s' = sm_slabs s" "sm_supply s' = sm_supply s" "sm_tried s' = sm_tried s" "sm_given s' = sm_given s"
      "sm_small s' = sm_small s" "sm_slice s' = sm_slice s" "sm_stores s' = sm_stores s"
    and l': "held l' = None \<or> held l' = held (ls u)" "tries l' \<subseteq> active s" "small_knows s l'" "request l' \<le> smallThreshold"
  shows "small_core s' (ls(u := l'))"
proof (rule small_core_step [OF core shape])
  note C = small_coreD [OF core]
  show "cells_ok s'"
    using C(2) same by (simp add: cells_ok_def)
  show "given_ok s'"
    by (rule given_same [OF C(3)]) (use same in simp_all)
  show "held_ok (ls(u := l'))"
    using l'(1) held_none [OF C(4)] held_same [OF C(4)] by blast
  show "small_knows s' l'"
    using small_knows_kept [OF l'(3)] same by simp
  show "tries l' \<subseteq> active s'" "active s \<subseteq> active s'"
    using l'(2) same by (simp_all add: active_def)
qed (use same l' in simp_all)

text \<open>Attempts: the answer of a slab, or the next one.\<close>

lemma core_attempt:
  assumes core: "small_core s ls" and shape: "small_shape s' (ls(u := l'))"
    and s': "given_ok s'" "sm_small s' = sm_small s" "sm_slice s' = sm_slice s" "sm_stores s' = sm_stores s"
    and hands: "\<And>v j. in_hand (ls v) = Some j \<Longrightarrow> sm_slabs s' ! j = sm_slabs s ! j"
    and res: "sm_given s' = sm_given s \<or> (\<exists>a. r = Ok a \<and> sm_given s' = (a, unat sz) # sm_given s)"
    and l': "tries l' = {}" "request l' \<le> smallThreshold" "small_knows s' l'" "held l' = None \<or> (\<exists>a. r = Ok a \<and> held l' = Some (a, unat sz) \<and> sm_given s' \<noteq> sm_given s)"
  shows "small_core s' (ls(u := l'))"
proof (rule small_core_step [OF core shape _ s'(1)])
  note C = small_coreD [OF core]
  show "cells_ok s'"
    using C(2) s' by (simp add: cells_ok_def)
  show "set (sm_given s) \<subseteq> set (sm_given s')"
    using res by auto
  show "held_ok (ls(u := l'))"
  proof (cases "held l' = None")
    case True
    then show ?thesis
      by (rule held_none [OF C(4)])
  next
    case False
    then obtain a where a: "held l' = Some (a, unat sz)" "sm_given s' = (a, unat sz) # sm_given s"
      using l'(4) res by auto
    have "apart_pair (a, unat sz) x \<and> apart_pair x (a, unat sz)" if "v \<noteq> u" "held (ls v) = Some x" for v x
    proof -
      have "x \<in> set (sm_given s)"
        using C(6) [of v] that(2) by (cases "ls v" rule: held.cases) (auto simp: answer_ok_def)
      then show ?thesis
        using given_okD(5) [OF s'(1)] a(2) by (auto simp: apart_pair_def)
    qed
    then show ?thesis
      using C(4) a(1) unfolding held_ok_def by (metis fun_upd_apply option.inject)
  qed
  show "active s \<subseteq> active s'"
    using s' by (simp add: active_def)
qed (use hands l' in auto)

lemma core_slab:
  assumes core: "small_core s ls" and shape: "small_shape s' (ls(u := l'))" and k: "k \<in> active s" and room: "int (sm_tried s) + 4096 < 2 ^ 63"
    and sz: "sz \<le> smallThreshold" and r: "small_attempt s k sz = (s', r)"
    and l': "l' = SmallUnlock i sz r \<or> l' = SmallReturned sz r \<or> tries l' = {} \<and> request l' = sz \<and> held l' = None \<and> small_knows s' l'"
  shows "small_core s' (ls(u := l'))"
proof -
  note C = small_coreD [OF core]
  have "attempt_ok s s' k sz r"
    using small_attempt_ok [OF C(3) k _ sz room r] active_bounded [OF C(8)] by blast
  then have ok: "given_ok s'" "\<And>j. j \<noteq> k \<Longrightarrow> sm_slabs s' ! j = sm_slabs s ! j"
    and res: "r = Err Balloc_ErrOutOfMemory \<and> sm_given s' = sm_given s \<or> (\<exists>a. r = Ok a \<and> sm_given s' = (a, unat sz) # sm_given s)"
    unfolding attempt_ok_def by blast+
  have hands: "sm_slabs s' ! j = sm_slabs s ! j" if "in_hand (ls v) = Some j" for v j
    using ok(2) [of j] in_hand_idle [OF C(8) that] k by blast
  show ?thesis
    by (rule core_attempt [OF core shape ok(1), of r sz])
       (use hands res l' sz in \<open>auto simp: small_attempt_same [OF r] answer_ok_def\<close>)
qed

lemma core_nil:
  assumes core: "small_core s ls" and shape: "small_shape s' (ls(u := finish lk i sz r))" and r: "nil_attempt s sz = (s', r)"
  shows "small_core s' (ls(u := finish lk i sz r))"
proof -
  note C = small_coreD [OF core]
  have "given_ok s'"
  proof (cases "sz = 0")
    case True
    then have s': "s' = s\<lparr>sm_given := (0, 0) # sm_given s\<rparr>"
      using r by (simp add: nil_attempt_def)
    then have "active s' = active s"
      by (simp add: active_def)
    then show ?thesis
      using C(3) s' by (simp add: given_ok_def apart_pair_def span_def)
  qed (use r C(3) in \<open>simp add: nil_attempt_def\<close>)
  then show ?thesis
    by (rule core_attempt [OF core shape, of r sz])
       (use r in \<open>auto simp: nil_attempt_same [OF r] nil_attempt_def finish_def answer_ok_def split: if_splits\<close>)
qed

text \<open>A slab comes from the pool or from the heap, is reset, and joins the slice.\<close>

lemma slabs_ok_drop: "slabs_ok R (xs @ p # ys) \<Longrightarrow> slabs_ok R (xs @ ys)"
  unfolding slabs_ok_def by simp

lemma core_get_pooled:
  assumes core: "small_core s ls" and here: "ls u = SmallGet i sz" and feed: "sm_supply s = x # rest"
    and s': "s' = s\<lparr>sm_supply := rest, sm_pool := (sm_pool s)(i := pool)\<rparr>" and shape: "small_shape s' (ls(u := SmallReset i sz k))"
  shows "small_core s' (ls(u := SmallReset i sz k))"
proof (rule small_core_step [OF core shape])
  note C = small_coreD [OF core]
  show "given_ok s'"
    using given_okD(1) [OF C(3)] feed
    by (intro given_keep [OF C(3)]) (auto simp: s' active_def intro: slabs_ok_drop)
  show "request (SmallReset i sz k) \<le> smallThreshold"
    using C(7) [of u] here by simp
qed (use small_coreD(2,4) [OF core] in \<open>simp_all add: s' held_none cells_ok_def active_def\<close>)

lemma core_get_new:
  assumes core: "small_core s ls" and here: "ls u = SmallGet i sz" and feed: "sm_supply s = (c, p) # rest"
    and s': "s' = s\<lparr>sm_supply := rest, sm_slabs := sm_slabs s @ [newSmallArena p]\<rparr>" and shape: "small_shape s' (ls(u := SmallReset i sz k))"
  shows "small_core s' (ls(u := SmallReset i sz k))"
proof (rule small_core_step [OF core shape])
  note C = small_coreD [OF core]
  show "given_ok s'"
    using given_okD(1) [OF C(3)] feed active_bounded [OF C(8)]
    by (intro given_keep [OF C(3)]) (simp_all add: s' active_def newSmallArena_def nth_append)
  show "request (SmallReset i sz k) \<le> smallThreshold"
    using C(7) [of u] here by simp
  show "sm_slabs s' ! j = sm_slabs s ! j" if "v \<noteq> u" "in_hand (ls v) = Some j" for v j
    using places_okD(2) [OF C(8), of "InHand v" j] that(2) by (simp add: s' nth_append)
qed (use small_coreD(2,4) [OF core] in \<open>simp_all add: s' held_none cells_ok_def active_def\<close>)

lemma core_reset:
  assumes core: "small_core s ls" and here: "ls u = SmallReset i sz k"
    and s': "s' = s\<lparr>sm_slabs := (sm_slabs s)[k := smallArena_reset (sm_slabs s ! k)]\<rparr>" and shape: "small_shape s' (ls(u := SmallAppend i sz k))"
  shows "small_core s' (ls(u := SmallAppend i sz k))"
proof (rule small_core_step [OF core shape])
  note C = small_coreD [OF core]
  have k: "k < length (sm_slabs s)"
    using places_okD(2) [OF C(8), of "InHand u" k] here by simp
  have idle: "k \<notin> active s"
    using in_hand_idle [OF C(8), of u k] here by simp
  have act: "active s' = active s"
    by (simp add: s' active_def)
  have ptrs: "map sa_ptr (sm_slabs s') = map sa_ptr (sm_slabs s)"
    using k by (intro nth_equalityI) (auto simp: s' nth_list_update smallArena_reset_def)
  show "given_ok s'"
  proof (rule given_keep [OF C(3)])
    show "slabs_ok {} (map sa_ptr (sm_slabs s') @ map snd (sm_supply s'))"
      unfolding ptrs using given_okD(1) [OF C(3)] by (simp add: s')
    show "sm_slabs s' ! j = sm_slabs s ! j" if "j \<in> active s" for j
      using that idle by (cases "j = k") (simp_all add: s')
  qed (use act in \<open>simp_all add: s'\<close>)
  show "small_knows s' (SmallAppend i sz k)"
    using k by (simp add: s' smallArena_reset_def)
  show "request (SmallAppend i sz k) \<le> smallThreshold"
    using C(7) [of u] here by simp
  show "sm_slabs s' ! j = sm_slabs s ! j" if "v \<noteq> u" "in_hand (ls v) = Some j" for v j
  proof -
    have "j \<noteq> k"
      using places_okD(1) [OF C(8), of "InHand v" j "InHand u"] that here by auto
    then show ?thesis by (simp add: s')
  qed
qed (use small_coreD(2,4) [OF core] in \<open>simp_all add: s' held_none cells_ok_def active_def\<close>)

lemma core_append:
  assumes core: "small_core s ls" and ok: "append_ok newcap order" and here: "ls u = SmallAppend i sz k"
    and stores: "append_stores newcap k (sm_slice s i) = (m, ps)"
    and s': "s' = s\<lparr>sm_slice := (sm_slice s)(i := m), sm_stores := (sm_stores s)(i := order ps), sm_small := (sm_small s)(i := sm_small s i @ [k])\<rparr>"
    and shape: "small_shape s' (ls(u := SmallStores i sz k))"
  shows "small_core s' (ls(u := SmallStores i sz k))"
proof (rule small_core_step [OF core shape])
  note C = small_coreD [OF core]
  have off: "sa_off (sm_slabs s ! k) = 0"
    using C(6) [of u] here by simp
  have act: "active s' = insert k (active s)"
    by (auto simp: s' active_def split: if_splits)
  show "given_ok s'"
    using given_okD(1) [OF C(3)] off by (intro given_keep [OF C(3)]) (auto simp: s' act [unfolded s'])
  show "active s \<subseteq> active s'" "tries (SmallStores i sz k) \<subseteq> active s'"
    by (auto simp: act)
  have now: "slice_shows (sm_slice s i) (sm_small s i)"
    using slices_okD(1) [OF small_shapeD(3) [OF C(1)], of i] locked_settled(2) [OF C(1), of u i] here by simp
  have "mset (order ps) = mset ps"
    using ok by (simp add: append_ok_def)
  with append_cells [OF _ now stores this] C(2) show "cells_ok s'"
    by (simp add: s' cells_ok_def)
  show "request (SmallStores i sz k) \<le> smallThreshold"
    using C(7) [of u] here by simp
qed (use small_coreD(4) [OF core] in \<open>simp_all add: s' held_none\<close>)

lemma core_store:
  assumes core: "small_core s ls" and here: "ls u = SmallStores i sz k" "sm_stores s i = p # ps"
    and s': "s' = s\<lparr>sm_slice := (sm_slice s)(i := do_store p (sm_slice s i)), sm_stores := (sm_stores s)(i := ps)\<rparr>"
    and shape: "small_shape s' (ls(u := SmallStores i sz k))"
  shows "small_core s' (ls(u := SmallStores i sz k))"
proof (rule small_core_step [OF core shape])
  note C = small_coreD [OF core]
  show "cells_ok s'"
  proof -
    have "cells_in (set (sm_small s i)) (sm_slice s i)" "stores_in (set (sm_small s i)) (p # ps)"
      using C(2) unfolding cells_ok_def here(2) [symmetric] by blast+
    from do_store_cells [OF this] C(2) show ?thesis
      by (simp add: s' cells_ok_def)
  qed
  show "given_ok s'"
    by (rule given_same [OF C(3)]) (simp_all add: s')
  show "request (SmallStores i sz k) \<le> smallThreshold"
    using C(7) [of u] here by simp
  show "tries (SmallStores i sz k) \<subseteq> active s'"
    using C(5) [of u] here by (simp add: s' active_def)
qed (use small_coreD(4) [OF core] in \<open>simp_all add: s' held_none active_def\<close>)

text \<open>A cell that is loaded holds nil or a slab in use.\<close>

lemma load_cell_core:
  assumes "cells_ok s" "sz \<le> smallThreshold"
  shows "tries (load_cell s lk i sz p n j) \<subseteq> active s" "held (load_cell s lk i sz p n j) = None" "small_knows s (load_cell s lk i sz p n j)"
    "request (load_cell s lk i sz p n j) \<le> smallThreshold"
proof -
  have cell: "tries (SmallTry lk i sz p n j (sl_arrays (sm_slice s i) ! a ! j)) \<subseteq> active s"
    if "a < length (sl_arrays (sm_slice s i))" "j < length (sl_arrays (sm_slice s i) ! a)" for a
  proof (cases "sl_arrays (sm_slice s i) ! a ! j")
    case (Some k)
    have "cells_in (set (sm_small s i)) (sm_slice s i)"
      using assms(1) by (simp add: cells_ok_def)
    from cells_in_nth [OF this that Some] show ?thesis
      by (auto simp: Some active_def)
  qed simp
  show "tries (load_cell s lk i sz p n j) \<subseteq> active s"
    using cell by (cases p) (simp_all add: load_cell_def finish_def Let_def)
qed (use assms(2) in \<open>simp_all add: load_cell_def finish_def answer_ok_def Let_def split: option.split\<close>)

text \<open>
  The invariant holds as long as less than $2^{63}$ bytes were tried for in all: until then no offset
  wraps around.
\<close>

lemma small_attempt_tried: "small_attempt s k sz = (s', r) \<Longrightarrow> sm_tried s' = sm_tried s + unat sz"
  by (auto simp: small_attempt_def split: prod.splits)

lemma nil_attempt_tried: "nil_attempt s sz = (s', r) \<Longrightarrow> sm_tried s' = sm_tried s"
  by (auto simp: nil_attempt_def split: if_splits)

lemma small_act_tried: "small_act newcap order l s = Some (s', l') \<Longrightarrow> sm_tried s \<le> sm_tried s'"
  by (induction newcap order l s rule: small_act.induct)
     (auto simp: small_attempt_tried dest: nil_attempt_tried split: if_splits option.splits list.splits prod.splits)

lemma core_try:
  assumes core: "small_core s ls" and shape: "small_shape s' (ls(u := l'))" and room: "int (sm_tried s) + 4096 < 2 ^ 63"
    and here: "ls u = SmallTry lk i sz p n j cell"
    and r: "(case cell of None \<Rightarrow> nil_attempt s sz | Some k \<Rightarrow> small_attempt s k sz) = (s', r)"
    and l': "l' = answered r (SmallElem lk i sz p n (Suc j)) (finish lk i sz r)"
  shows "small_core s' (ls(u := l'))"
proof -
  have sz: "sz \<le> smallThreshold"
    using small_coreD(7) [OF core, of u] here by simp
  show ?thesis
  proof (cases cell)
    case None
    then have n: "nil_attempt s sz = (s', r)"
      using r by simp
    then have "l' = finish lk i sz r"
      using l' by (auto simp: nil_attempt_def split: if_splits)
    then show ?thesis
      using core_nil [OF core _ n] shape by simp
  next
    case (Some k)
    then have "k \<in> active s"
      using small_coreD(5) [OF core, of u] here by simp
    moreover have "l' = SmallUnlock i sz r \<or> l' = SmallReturned sz r \<or> tries l' = {} \<and> request l' = sz \<and> held l' = None \<and> small_knows s' l'"
      using l' by (cases r) (simp_all add: finish_def)
    ultimately show ?thesis
      using core_slab [OF core shape _ room sz] r Some by simp
  qed
qed

lemma small_act_core:
  assumes core: "small_core s ls" and ok: "append_ok newcap order" and room: "int (sm_tried s) + 4096 < 2 ^ 63"
    and act: "small_act newcap order (ls u) s = Some (s', l')"
  shows "small_core s' (ls(u := l'))"
proof -
  note C = small_coreD [OF core]
  have sz: "request (ls u) \<le> smallThreshold"
    by (rule C(7))
  have shape: "small_shape s' (ls(u := l'))"
    by (rule small_act_shape [OF C(1) ok act])
  show ?thesis
  proof (cases "ls u")
    case (SmallElem lk i sz p n j)
    then have l': "s' = s" "l' = (if j < n then load_cell s lk i sz p n j else if lk then SmallGet i sz else SmallLock i sz)"
      and le: "sz \<le> smallThreshold"
      using act sz by simp_all
    note L = load_cell_core [OF C(2) le, of lk i p n j]
    show ?thesis
      by (intro core_local [OF core shape]) (use l' L le in \<open>simp_all split: if_split\<close>)
  next
    case (SmallTry lk i sz p n j cell)
    obtain t r where t: "(case cell of None \<Rightarrow> nil_attempt s sz | Some k \<Rightarrow> small_attempt s k sz) = (t, r)"
      by fastforce
    then have "s' = t" "l' = answered r (SmallElem lk i sz p n (Suc j)) (finish lk i sz r)"
      using act SmallTry by simp_all
    with core_try [OF core shape room SmallTry] t show ?thesis by simp
  next
    case (SmallLock i sz)
    then show ?thesis
      using act sz by (intro core_local [OF core shape]) (auto split: if_splits)
  next
    case (SmallGet i sz)
    then obtain c p rest where feed: "sm_supply s = (c, p) # rest"
      using act by (auto split: list.splits)
    show ?thesis
    proof (cases "pool_take c (sm_pool s i)")
      case None
      then show ?thesis
        using act core_get_new [OF core SmallGet feed] shape SmallGet feed by auto
    next
      case (Some kp)
      then show ?thesis
        using act core_get_pooled [OF core SmallGet feed] shape SmallGet feed by (cases kp) auto
    qed
  next
    case (SmallReset i sz k)
    then show ?thesis
      using act core_reset [OF core SmallReset] shape by auto
  next
    case (SmallAppend i sz k)
    obtain m ps where stores: "append_stores newcap k (sm_slice s i) = (m, ps)"
      by fastforce
    then show ?thesis
      using act core_append [OF core ok SmallAppend stores] shape SmallAppend by auto
  next
    case (SmallStores i sz k)
    show ?thesis
    proof (cases "sm_stores s i")
      case Nil
      then show ?thesis
        using act sz C(5) [of u] SmallStores by (intro core_local [OF core shape]) auto
    next
      case (Cons p ps)
      then show ?thesis
        using act core_store [OF core SmallStores Cons] shape SmallStores by auto
    qed
  next
    case (SmallLast i sz k)
    obtain t r where r: "small_attempt s k sz = (t, r)" by fastforce
    then have "s' = t" "l' = SmallUnlock i sz r" "k \<in> active s" "sz \<le> smallThreshold"
      using act SmallLast sz C(5) [of u] by simp_all
    then show ?thesis
      using core_slab [OF core shape _ room] r by blast
  next
    case (SmallUnlock i sz r)
    then show ?thesis
      using act C(6) [of u] by (intro core_local [OF core shape]) (cases r; auto)+
  qed (use act sz shape in \<open>auto intro!: core_local [OF core] split: if_splits\<close>)
qed

lemma small_call_core:
  assumes core: "small_core s ls" and start: "small_call s (ls u) s' l'"
  shows "small_core s' (ls(u := l'))"
proof -
  from start obtain f i sz where l': "small_done (ls u)" "s' = s" "l' = SmallRead False f i sz" "sz \<le> smallThreshold"
    by (cases rule: small_call.cases) blast
  then show ?thesis
    using small_call_shape [OF small_coreD(1) [OF core] start] by (intro core_local [OF core]) auto
qed

definition small_inv :: "(nat \<Rightarrow> nat) \<Rightarrow> (slice_store list \<Rightarrow> slice_store list) \<Rightarrow> small_state \<Rightarrow> (nat \<Rightarrow> small_pc) \<Rightarrow> bool" where
  "small_inv newcap order s ls \<longleftrightarrow> (append_ok newcap order \<longrightarrow> int (sm_tried s) + 4096 < 2 ^ 63 \<longrightarrow> small_core s ls)"

interpretation conc_shape: shared_invariant "small_act newcap order" small_call "\<lambda>s ls. append_ok newcap order \<longrightarrow> small_shape s ls" for newcap order
  by unfold_locales (use small_act_shape small_call_shape in blast)+

interpretation conc_small: shared_invariant "small_act newcap order" small_call "small_inv newcap order" for newcap order
proof
  fix s ls t s' l'
  assume inv: "small_inv newcap order s ls" and act: "small_act newcap order (ls t) s = Some (s', l')"
  show "small_inv newcap order s' (ls(t := l'))"
    using inv small_act_core [where ls = ls and u = t, OF _ _ _ act] small_act_tried [OF act] unfolding small_inv_def by fastforce
next
  fix s ls t s' l'
  assume inv: "small_inv newcap order s ls" and call: "small_call s (ls t) s' l'"
  then have "s' = s"
    by (auto elim: small_call.cases)
  then show "small_inv newcap order s' (ls(t := l'))"
    using inv small_call_core [where ls = ls and u = t, OF _ call] unfolding small_inv_def by blast
qed

end
