(* ===== verification/Conc_Hybrid_Props.thy ===== *)
theory Conc_Hybrid_Props
  imports Conc_Hybrid
begin

text \<open>
  What the machine of concurrent small requests guarantees: the blocks of all goroutines are apart as
  long as no array of a slice has held a slab from before, and a goroutine that is not interrupted does
  what the sequential \<open>allocSmall\<close> of Hybrid does. Two concrete runs show what a read of the slice in
  the middle of an \<open>append\<close> can lead to.
\<close>

section \<open>Blocks are apart\<close>

text \<open>
  No goroutine is under way, and the slabs that exist are idle: the state that \<open>NewHybrid\<close> and
  \<open>Reset\<close> leave behind. \<open>Reset\<close> keeps the arrays of the slices with what is in their cells.
\<close>

definition small_quiet :: "small_state \<Rightarrow> bool" where
  "small_quiet s \<longleftrightarrow> (\<forall>i. sm_small s i = [] \<and> sm_stores s i = [] \<and> slice_shows (sm_slice s i) [] \<and> \<not> sm_lock s i \<and>
       distinct (sm_pool s i) \<and> (\<forall>k \<in> set (sm_pool s i). k < length (sm_slabs s))) \<and>
     (\<forall>i j. i \<noteq> j \<longrightarrow> set (sm_pool s i) \<inter> set (sm_pool s j) = {}) \<and>
     slabs_ok {} (map sa_ptr (sm_slabs s) @ map snd (sm_supply s)) \<and> sm_given s = []"

text \<open>No cell holds a slab, as \<open>NewHybrid\<close> leaves the slices.\<close>

definition small_fresh :: "small_state \<Rightarrow> bool" where
  "small_fresh s \<longleftrightarrow> small_quiet s \<and> (\<forall>i. cells_in {} (sm_slice s i))"

lemma small_quiet_shape:
  assumes "small_quiet s"
  shows "small_shape s (\<lambda>_. SmallIdle)"
proof -
  have Q: "sm_small s i = []" "\<not> sm_lock s i" "distinct (sm_pool s i)" "k \<in> set (sm_pool s i) \<Longrightarrow> k < length (sm_slabs s)"
    "k \<in> set (sm_pool s i) \<Longrightarrow> k \<in> set (sm_pool s j) \<Longrightarrow> i = j" "sm_stores s i = []" "slice_shows (sm_slice s i) []" for i j k
    using assms unfolding small_quiet_def by blast+
  have pooled: "\<exists>i. p = InPool i \<and> k \<in> set (sm_pool s i)" if "lies s (\<lambda>_. SmallIdle) p k" for p k
    using that Q(1) by (cases p) simp_all
  have "places_ok s (\<lambda>_. SmallIdle)"
    unfolding places_ok_def
  proof (intro conjI allI impI)
    show "p = q" if lies: "lies s (\<lambda>_. SmallIdle) p k" "lies s (\<lambda>_. SmallIdle) q k" for p q k
      using pooled [OF lies(1)] pooled [OF lies(2)] Q(5) by blast
    show "k < length (sm_slabs s)" if lies: "lies s (\<lambda>_. SmallIdle) p k" for p k
      using pooled [OF lies] Q(4) by blast
  qed (simp_all add: Q(1,3))
  then show ?thesis
    by (simp add: small_shape_def locks_ok_def slices_ok_def settled_def Q)
qed

lemma small_fresh_core:
  assumes "small_fresh s"
  shows "small_core s (\<lambda>_. SmallIdle)"
proof -
  have Q: "sm_small s i = []" "sm_stores s i = []" "slabs_ok {} (map sa_ptr (sm_slabs s) @ map snd (sm_supply s))" "sm_given s = []"
    "cells_in {} (sm_slice s i)" for i
    using assms unfolding small_fresh_def small_quiet_def by blast+
  have "given_ok s"
    using Q by (simp add: given_ok_def active_def)
  then show ?thesis
    using small_quiet_shape [of s] assms Q by (simp add: small_core_def small_fresh_def held_ok_def cells_ok_def stores_in_def)
qed

lemma conc_small_shape:
  assumes "append_ok newcap order" "small_quiet s0" "reach (small_act newcap order) small_call (s0, \<lambda>_. SmallIdle) (s, ls)"
  shows "small_shape s ls"
  using conc_shape.reach_inv [OF assms(3)] assms(1) small_quiet_shape [OF assms(2)] by blast

lemma conc_small_core:
  assumes "append_ok newcap order" "small_fresh s0" "reach (small_act newcap order) small_call (s0, \<lambda>_. SmallIdle) (s, ls)"
    and "int (sm_tried s) + 4096 < 2 ^ 63"
  shows "small_core s ls"
proof -
  have "small_inv newcap order s ls"
    using conc_small.reach_inv [OF assms(3)] small_fresh_core [OF assms(2)] by (simp add: small_inv_def)
  then show ?thesis
    using assms(1,4) by (simp add: small_inv_def)
qed

text \<open>
  The slow path of one goroutine and the fast path of another: the second takes the first bytes of the
  slab that the first has just appended. Arrays double here, and stores become visible as they are made.
\<close>

fun small_start :: "uintptr \<Rightarrow> small_state \<Rightarrow> small_pc \<Rightarrow> (small_state \<times> small_pc) option" where
  "small_start sz s l = (if small_done l \<and> sz \<le> smallThreshold then Some (s, SmallRead False False (unat (0 mod 8 :: u64)) sz) else None)"

lemma small_start_call: "small_start sz s l = Some (s', l') \<Longrightarrow> small_call s l s' l'"
  using call_small [of l sz s False 0] by (auto split: if_splits)

definition sample_newcap :: "nat \<Rightarrow> nat" where
  "sample_newcap n = Suc (2 * n)"

lemma sample_append_ok: "append_ok sample_newcap id"
  by (simp add: append_ok_def sample_newcap_def)

abbreviation sample_act :: "(small_state, small_pc) action" where
  "sample_act \<equiv> small_act sample_newcap id"

definition small_start_state :: small_state where
  "small_start_state = \<lparr>sm_slabs = [], sm_slice = (\<lambda>_. \<lparr>sl_arrays = [], sl_ptr = None, sl_len = 0, sl_cap = 0\<rparr>), sm_stores = (\<lambda>_. []),
     sm_lock = (\<lambda>_. False), sm_pool = (\<lambda>_. []), sm_supply = [(None, 0x100000), (None, 0x200000)], sm_small = (\<lambda>_. []),
     sm_given = [], sm_tried = 0\<rparr>"

text \<open>Goroutine 0 up to the point where its slab is in its hands and reset.\<close>

definition small_slow :: "uintptr event list" where
  "small_slow = [Call 0 64, Step 0, Step 0, Step 0, Step 0, Step 0, Step 0, Step 0, Step 0, Step 0]"

definition small_race :: "uintptr event list" where
  "small_race = small_slow @ [Step 0, Step 0, Step 0, Step 0, Step 0, Step 0, Call 1 32, Step 1, Step 1, Step 1, Step 1, Step 0, Step 0]"

lemma small_race_attempts:
  "smallArena_alloc \<lparr>sa_ptr = 0x100000, sa_off = 0\<rparr> 32 = (\<lparr>sa_ptr = 0x100000, sa_off = 32\<rparr>, Ok 0x100000)"
  "smallArena_alloc \<lparr>sa_ptr = 0x100000, sa_off = 32\<rparr> 64 = (\<lparr>sa_ptr = 0x100000, sa_off = 96\<rparr>, Ok 0x100020)"
  by (simp_all add: smallArena_alloc_def smallSlabSize_def i64_def)

lemmas small_run = small_race_def small_slow_def smallThreshold_def small_attempt_def nil_attempt_def small_race_attempts
  smallArena_reset_def newSmallArena_def pool_take_def load_cell_def finish_def append_stores_def sample_newcap_def Let_def

lemma small_run_reach:
  "run_events sample_act small_start es (s0, \<lambda>_. SmallIdle) = Some (s, ls) \<Longrightarrow> reach sample_act small_call (s0, \<lambda>_. SmallIdle) (s, ls)"
  by (rule run_events_reach [where start = small_start, OF small_start_call _ reach_refl])

lemma small_race_run:
  obtains s ls where "reach sample_act small_call (small_start_state, \<lambda>_. SmallIdle) (s, ls)" "int (sm_tried s) + 4096 < 2 ^ 63"
    "ls 0 = SmallReturned 64 (Ok 0x100020)" "ls 1 = SmallReturned 32 (Ok 0x100000)" "sm_supply s = [(None, 0x200000)]" "\<not> sm_lock s 0"
    "\<forall>u i sz. ls u \<noteq> SmallWild i sz"
proof -
  have "\<exists>s ls. run_events sample_act small_start small_race (small_start_state, \<lambda>_. SmallIdle) = Some (s, ls) \<and>
    int (sm_tried s) + 4096 < 2 ^ 63 \<and> ls 0 = SmallReturned 64 (Ok 0x100020) \<and> ls 1 = SmallReturned 32 (Ok 0x100000) \<and>
    sm_supply s = [(None, 0x200000)] \<and> \<not> sm_lock s 0 \<and> (\<forall>u i sz. ls u \<noteq> SmallWild i sz)"
    by (simp add: small_run small_start_state_def)
  then obtain s ls where run: "run_events sample_act small_start small_race (small_start_state, \<lambda>_. SmallIdle) = Some (s, ls)"
    and final: "int (sm_tried s) + 4096 < 2 ^ 63" "ls 0 = SmallReturned 64 (Ok 0x100020)" "ls 1 = SmallReturned 32 (Ok 0x100000)"
      "sm_supply s = [(None, 0x200000)]" "\<not> sm_lock s 0" "\<forall>u i sz. ls u \<noteq> SmallWild i sz"
    by blast
  show thesis
    by (rule that [OF small_run_reach [OF run] final])
qed

lemma small_start_fresh: "small_fresh small_start_state"
  by (simp add: small_fresh_def small_quiet_def small_start_state_def slabs_ok_def in_space_def slab_span_def span_def smallSlabSize_def
      slice_shows_def cells_in_def)

text \<open>
  C17: small requests to a hybrid allocator fresh from \<open>NewHybrid\<close>, from any number of goroutines at the
  same time, as long as none has read behind the end of an array: the blocks handed out are pairwise
  apart, each inside one slab; a call returned one, of the size it asked for, or ErrOutOfMemory, or
  panicked on a nil slab.
  This holds after any interleaving of the loads and stores of the words and cells of the slices, the
  additions to slab offsets and the operations on locks and pools, whatever the order in which the
  stores of an \<open>append\<close> become visible, and as long as less than 2^63 bytes were tried for in all. Two
  goroutines have never been given a byte in common. A nil slab is read in the middle of an \<open>append\<close>;
  after a \<open>Reset\<close> the cells hold old slabs instead, and the premise on the first state fails.
\<close>

theorem conc_small_blocks_apart:
  assumes "append_ok newcap order" "small_fresh s0" "reach (small_act newcap order) small_call (s0, \<lambda>_. SmallIdle) (s, ls)"
    and "\<forall>u i sz. ls u \<noteq> SmallWild i sz" "int (sm_tried s) + 4096 < 2 ^ 63"
  shows "sorted_wrt apart_pair (sm_given s) \<and>
    (\<forall>x \<in> set (sm_given s). snd x \<noteq> 0 \<longrightarrow> (\<exists>a \<in> set (sm_slabs s). span (fst x) (snd x) \<subseteq> slab_span (sa_ptr a))) \<and>
    (\<forall>u sz r. ls u = SmallReturned sz r \<longrightarrow>
       r = Err Balloc_ErrOutOfMemory \<or> r = Panic NilDereference \<or> (\<exists>a. r = Ok a \<and> (a, unat sz) \<in> set (sm_given s))) \<and>
    (\<forall>u v m n a b. u \<noteq> v \<longrightarrow> ls u = SmallReturned m (Ok a) \<longrightarrow> ls v = SmallReturned n (Ok b) \<longrightarrow>
       span a (unat m) \<inter> span b (unat n) = {})"
proof (intro conjI)
  note C = small_coreD [OF conc_small_core [OF assms(1-3,5)]]
  show "sorted_wrt apart_pair (sm_given s)"
    by (rule given_okD(5) [OF C(3)])
  show "\<forall>x \<in> set (sm_given s). snd x \<noteq> 0 \<longrightarrow> (\<exists>a \<in> set (sm_slabs s). span (fst x) (snd x) \<subseteq> slab_span (sa_ptr a))"
    using given_okD(4) [OF C(3)] active_bounded [OF C(8)] slab_used_in_span by (meson nth_mem subset_trans)
  show "\<forall>u sz r. ls u = SmallReturned sz r \<longrightarrow>
       r = Err Balloc_ErrOutOfMemory \<or> r = Panic NilDereference \<or> (\<exists>a. r = Ok a \<and> (a, unat sz) \<in> set (sm_given s))"
    using C(6) by (metis small_knows.simps(3) answer_ok_def)
  show "\<forall>u v m n a b. u \<noteq> v \<longrightarrow> ls u = SmallReturned m (Ok a) \<longrightarrow> ls v = SmallReturned n (Ok b) \<longrightarrow>
       span a (unat m) \<inter> span b (unat n) = {}"
  proof (intro allI impI)
    fix u v m n a b assume "u \<noteq> v" "ls u = SmallReturned m (Ok a)" "ls v = SmallReturned n (Ok b)"
    then have "apart_pair (a, unat m) (b, unat n)"
      using C(4) unfolding held_ok_def by (metis held.simps(2))
    then show "span a (unat m) \<inter> span b (unat n) = {}"
      by (simp add: apart_pair_def)
  qed
qed

theorem conc_small_blocks_apart_witness:
  "\<exists>s ls. reach sample_act small_call (small_start_state, \<lambda>_. SmallIdle) (s, ls) \<and> ls 0 = SmallReturned 64 (Ok 0x100020) \<and> ls 1 = SmallReturned 32 (Ok 0x100000) \<and>
     span 0x100020 64 \<inter> span 0x100000 32 = {}"
proof -
  obtain s ls where r: "reach sample_act small_call (small_start_state, \<lambda>_. SmallIdle) (s, ls)" "int (sm_tried s) + 4096 < 2 ^ 63"
    "ls 0 = SmallReturned 64 (Ok 0x100020)" "ls 1 = SmallReturned 32 (Ok 0x100000)" "\<forall>u i sz. ls u \<noteq> SmallWild i sz"
    by (rule small_race_run)
  have "span 0x100020 (unat (64 :: u64)) \<inter> span 0x100000 (unat (32 :: u64)) = {}"
    using conc_small_blocks_apart [OF sample_append_ok small_start_fresh r(1,5,2)] r(3,4) zero_neq_one by blast
  then show ?thesis
    using r by (intro exI [of _ s] exI [of _ ls]) simp
qed

section \<open>Reads in the middle of an append\<close>

text \<open>The second goroutine sees the new array and length, but not yet the slab: it panics.\<close>

lemma small_nil_run:
  "\<exists>s ls. reach sample_act small_call (small_start_state, \<lambda>_. SmallIdle) (s, ls) \<and> ls 1 = SmallReturned 32 (Panic NilDereference)"
proof -
  have "\<exists>s ls. run_events sample_act small_start (small_slow @ [Step 0, Step 0, Step 0, Step 0, Call 1 32, Step 1, Step 1, Step 1, Step 1])
      (small_start_state, \<lambda>_. SmallIdle) = Some (s, ls) \<and> ls 1 = SmallReturned 32 (Panic NilDereference)"
    by (simp add: small_run small_start_state_def)
  then show ?thesis
    using small_run_reach by blast
qed

text \<open>
  After a \<open>Reset\<close> the array still holds the old slab, which is in the pool. The second goroutine sees the
  new length with the old cell and is given a block of the pooled slab, which the next \<open>Get\<close> resets.
\<close>

definition small_reset_state :: small_state where
  "small_reset_state = small_start_state\<lparr>sm_slabs := [\<lparr>sa_ptr = 0x100000, sa_off = 0\<rparr>], sm_pool := (\<lambda>_. [])(0 := [0]),
     sm_slice := (\<lambda>_. \<lparr>sl_arrays = [], sl_ptr = None, sl_len = 0, sl_cap = 0\<rparr>)(0 := \<lparr>sl_arrays = [[Some 0]], sl_ptr = Some 0, sl_len = 0, sl_cap = 1\<rparr>),
     sm_supply := [(None, 0x200000)]\<rparr>"

lemma small_reset_quiet: "small_quiet small_reset_state"
  by (auto simp: small_quiet_def small_reset_state_def small_start_state_def slabs_ok_def in_space_def slab_span_def span_def smallSlabSize_def
      slice_shows_def)

lemma small_stale_run:
  "\<exists>s ls. reach sample_act small_call (small_reset_state, \<lambda>_. SmallIdle) (s, ls) \<and> ls 1 = SmallReturned 32 (Ok 0x100000) \<and>
     sm_pool s 0 = [0] \<and> sm_slabs s ! 0 = \<lparr>sa_ptr = 0x100000, sa_off = 32\<rparr>"
proof -
  have "\<exists>s ls. run_events sample_act small_start (small_slow @ [Step 0, Step 0, Call 1 32, Step 1, Step 1, Step 1, Step 1])
      (small_reset_state, \<lambda>_. SmallIdle) = Some (s, ls) \<and> ls 1 = SmallReturned 32 (Ok 0x100000) \<and>
      sm_pool s 0 = [0] \<and> sm_slabs s ! 0 = \<lparr>sa_ptr = 0x100000, sa_off = 32\<rparr>"
    by (simp add: small_run small_start_state_def small_reset_state_def)
  then show ?thesis
    using small_run_reach by blast
qed

section \<open>One goroutine alone\<close>

text \<open>
  What the sequential model sees: for each shard its slabs themselves, in the slice as it is once the
  stores of an \<open>append\<close> that is under way are done.
\<close>

definition shard_view :: "small_state \<Rightarrow> nat \<Rightarrow> shard" where
  "shard_view s i = \<lparr>sh_small = map ((!) (sm_slabs s)) (slice_slabs (settled s i)), sh_pool = map ((!) (sm_slabs s)) (sm_pool s i)\<rparr>"

definition small_view :: "small_state \<Rightarrow> shard list" where
  "small_view s = map (shard_view s) [0..<smallShards]"

text \<open>The same by what was appended.\<close>

definition listed :: "small_state \<Rightarrow> nat \<Rightarrow> shard" where
  "listed s i = \<lparr>sh_small = map ((!) (sm_slabs s)) (sm_small s i), sh_pool = map ((!) (sm_slabs s)) (sm_pool s i)\<rparr>"

definition listed_all :: "small_state \<Rightarrow> shard list" where
  "listed_all s = map (listed s) [0..<smallShards]"

definition slices_show :: "small_state \<Rightarrow> bool" where
  "slices_show s \<longleftrightarrow> (\<forall>i. slice_shows (settled s i) (sm_small s i))"

lemma small_view_listed: "slices_show s \<Longrightarrow> small_view s = listed_all s"
  unfolding small_view_def listed_all_def shard_view_def listed_def slices_show_def using slice_shows_slabs by (intro map_cong refl) metis

lemma listed_update:
  assumes "\<And>j. j \<noteq> i \<Longrightarrow> listed s' j = listed s j" "i < smallShards"
  shows "listed_all s' = (listed_all s)[i := listed s' i]"
  using assms by (intro nth_equalityI) (simp_all add: listed_all_def nth_list_update)

text \<open>Only the slabs of one shard change.\<close>

lemma listed_other:
  assumes "places_ok s ls" "j \<noteq> i" "sm_small s' j = sm_small s j" "sm_pool s' j = sm_pool s j"
    and "\<And>k. k < length (sm_slabs s) \<Longrightarrow> k \<notin> set (sm_small s i) \<Longrightarrow> k \<notin> set (sm_pool s i) \<Longrightarrow> sm_slabs s' ! k = sm_slabs s ! k"
  shows "listed s' j = listed s j"
proof -
  have "sm_slabs s' ! k = sm_slabs s ! k" if k: "lies s ls p k" "p = InSmall j \<or> p = InPool j" for p k
    using assms(2,5) places_okD(2) [OF assms(1) k(1)] places_okD(1) [OF assms(1) k(1), of "InSmall i"]
      places_okD(1) [OF assms(1) k(1), of "InPool i"] k(2) by auto
  from this [of "InSmall j"] this [of "InPool j"] show ?thesis
    using assms(3,4) by (simp add: listed_def)
qed

definition slabs_tried :: "small_state \<Rightarrow> small_state \<Rightarrow> nat list \<Rightarrow> smallArena list \<Rightarrow> bool" where
  "slabs_tried s s' ks as \<longleftrightarrow> length (sm_slabs s') = length (sm_slabs s) \<and> map ((!) (sm_slabs s')) ks = as \<and>
     (\<forall>j. j \<notin> set ks \<longrightarrow> sm_slabs s' ! j = sm_slabs s ! j) \<and>
     sm_small s' = sm_small s \<and> sm_pool s' = sm_pool s \<and> sm_lock s' = sm_lock s \<and> sm_supply s' = sm_supply s \<and>
     sm_slice s' = sm_slice s \<and> sm_stores s' = sm_stores s"

lemma small_attempt_slabs:
  assumes "small_attempt s k sz = (s', r)" "smallArena_alloc (sm_slabs s ! k) sz = (a, r')"
  shows "r' = r" "sm_slabs s' = (sm_slabs s)[k := a]"
  using assms by (auto simp: small_attempt_def)

text \<open>The loop over the slice of slabs.\<close>

lemma loop_run:
  assumes now: "slice_shows (sm_slice s i) xs" and slabs: "distinct ks" "set ks \<subseteq> {..< length (sm_slabs s)}"
    and left: "drop j xs = ks" "try_small sz (map ((!) (sm_slabs s)) ks) = (as, ro)"
  shows "\<exists>s'. runs_to (small_act newcap order) (s, SmallElem lk i sz (sl_ptr (sm_slice s i)) (length xs) j)
      (s', case ro of None \<Rightarrow> if lk then SmallGet i sz else SmallLock i sz | Some r \<Rightarrow> finish lk i sz r) \<and> slabs_tried s s' ks as"
  using assms
proof (induction ks arbitrary: s j as)
  case Nil
  then show ?case
    by (intro exI [of _ s]) (simp add: slabs_tried_def runs_to_step [OF _ runs_to_refl])
next
  case (Cons k ks)
  let ?p = "sl_ptr (sm_slice s i)"
  have j: "j < length xs" "xs ! j = k" "drop (Suc j) xs = ks"
    using Cons.prems(4) by (metis drop_all list.distinct(1) not_less, metis nth_via_drop, metis drop_Suc list.sel(3) tl_drop)
  then have load: "load_cell s lk i sz ?p (length xs) j = SmallTry lk i sz ?p (length xs) j (Some k)"
    using Cons.prems(1) by (auto simp: slice_shows_def load_cell_def Let_def split: option.splits)
  obtain a r where a: "smallArena_alloc (sm_slabs s ! k) sz = (a, r)" by fastforce
  obtain t where t: "small_attempt s k sz = (t, r)"
    using a by (auto simp: small_attempt_def)
  note S = small_attempt_slabs [OF t a] small_attempt_same [OF t]
  let ?next = "SmallElem lk i sz ?p (length xs) (Suc j)"
  have to_try: "runs_to (small_act newcap order) (s, SmallElem lk i sz ?p (length xs) j) c"
    if "runs_to (small_act newcap order) (t, answered r ?next (finish lk i sz r)) c" for c
    by (rule runs_to_step [rotated], rule runs_to_step [rotated], rule that) (simp_all add: load j(1) t)
  have rest: "map ((!) (sm_slabs t)) ks = map ((!) (sm_slabs s)) ks"
    using Cons.prems(2) by (auto simp: S(2)) (metis nth_list_update_neq)
  show ?case
  proof (cases "\<exists>e. r = Err e")
    case True
    then obtain bs where bs: "try_small sz (map ((!) (sm_slabs t)) ks) = (bs, ro)" "as = a # bs"
      using Cons.prems(5) a unfolding rest by (auto split: prod.splits)
    then obtain s' where s': "runs_to (small_act newcap order) (t, ?next)
        (s', case ro of None \<Rightarrow> if lk then SmallGet i sz else SmallLock i sz | Some r \<Rightarrow> finish lk i sz r)" "slabs_tried t s' ks bs"
      using Cons.IH [of t "Suc j" bs] Cons.prems(1-3) j(3) by (auto simp: S)
    have "slabs_tried s s' (k # ks) as"
      using s'(2) Cons.prems(2,3) by (auto simp: slabs_tried_def S bs(2))
    moreover have "answered r ?next (finish lk i sz r) = ?next"
      using True by auto
    ultimately show ?thesis
      using to_try [of "(s', case ro of None \<Rightarrow> if lk then SmallGet i sz else SmallLock i sz | Some r \<Rightarrow> finish lk i sz r)"] s'(1)
      by (intro exI [of _ s'] conjI) simp_all
  next
    case False
    then have r: "ro = Some r" "as = a # map ((!) (sm_slabs s)) ks" "answered r ?next (finish lk i sz r) = finish lk i sz r"
      using Cons.prems(5) a by (cases r; simp)+
    moreover have "slabs_tried s t (k # ks) (a # map ((!) (sm_slabs s)) ks)"
      using Cons.prems(2,3) rest by (auto simp: slabs_tried_def S)
    moreover have "runs_to (small_act newcap order) (s, SmallElem lk i sz ?p (length xs) j) (t, finish lk i sz r)"
      using to_try [OF runs_to_refl] unfolding r(3) .
    ultimately show ?thesis
      by (intro exI [of _ t]) simp
  qed
qed

text \<open>The two loads and the loop.\<close>

lemma range_run:
  assumes now: "slice_shows (sm_slice s i) (sm_small s i)" and ok: "places_ok s ls"
    and tried: "try_small sz (map ((!) (sm_slabs s)) (sm_small s i)) = (as, ro)"
  shows "\<exists>s'. runs_to (small_act newcap order) (s, SmallRead lk f i sz)
      (s', case ro of None \<Rightarrow> if lk then SmallGet i sz else SmallLock i sz | Some r \<Rightarrow> finish lk i sz r) \<and> slabs_tried s s' (sm_small s i) as"
proof -
  have len: "sl_len (sm_slice s i) = length (sm_small s i)"
    using now by (simp add: slice_shows_def)
  have slabs: "distinct (sm_small s i)" "set (sm_small s i) \<subseteq> {..< length (sm_slabs s)}"
    using places_okD(2) [OF ok, of "InSmall i"] places_okD(3) [OF ok, of i] by auto
  obtain s' where s': "runs_to (small_act newcap order) (s, SmallElem lk i sz (sl_ptr (sm_slice s i)) (length (sm_small s i)) 0)
      (s', case ro of None \<Rightarrow> if lk then SmallGet i sz else SmallLock i sz | Some r \<Rightarrow> finish lk i sz r)" "slabs_tried s s' (sm_small s i) as"
    using loop_run [OF now slabs, of 0 sz as ro newcap order lk] tried by auto
  have "runs_to (small_act newcap order) (s, SmallRead lk f i sz) c"
    if elem: "runs_to (small_act newcap order) (s, SmallElem lk i sz (sl_ptr (sm_slice s i)) (length (sm_small s i)) 0) c" for c
    by (cases f; rule runs_to_step [rotated], rule runs_to_step [rotated], rule elem) (simp_all add: len)
  with s' show ?thesis by blast
qed

text \<open>The stores of an \<open>append\<close>, and the new slab.\<close>

lemma stores_run:
  "runs_to (small_act newcap order) (s, SmallStores i sz k)
    (s\<lparr>sm_slice := (sm_slice s)(i := settled s i), sm_stores := (sm_stores s)(i := [])\<rparr>, SmallLast i sz k)"
proof (induction "sm_stores s i" arbitrary: s)
  case Nil
  then have same: "s\<lparr>sm_slice := (sm_slice s)(i := settled s i), sm_stores := (sm_stores s)(i := [])\<rparr> = s"
    by (simp add: settled_def fun_upd_idem)
  have "small_act newcap order (SmallStores i sz k) s = Some (s, SmallLast i sz k)"
    using Nil [symmetric] by simp
  then show ?case
    unfolding same by (rule runs_to_step [where act = "small_act newcap order", OF _ runs_to_refl])
next
  case (Cons p ps)
  let ?t = "s\<lparr>sm_slice := (sm_slice s)(i := do_store p (sm_slice s i)), sm_stores := (sm_stores s)(i := ps)\<rparr>"
  have go: "small_act newcap order (SmallStores i sz k) s = Some (?t, SmallStores i sz k)"
    using Cons(2) [symmetric] by simp
  have "settled ?t i = settled s i"
    using Cons(2) [symmetric] by (simp add: settled_def)
  then have same: "?t\<lparr>sm_slice := (sm_slice ?t)(i := settled ?t i), sm_stores := (sm_stores ?t)(i := [])\<rparr> =
      s\<lparr>sm_slice := (sm_slice s)(i := settled s i), sm_stores := (sm_stores s)(i := [])\<rparr>"
    by simp
  have "runs_to (small_act newcap order) (?t, SmallStores i sz k)
      (?t\<lparr>sm_slice := (sm_slice ?t)(i := settled ?t i), sm_stores := (sm_stores ?t)(i := [])\<rparr>, SmallLast i sz k)"
    by (rule Cons(1)) simp
  then show ?case
    unfolding same by (rule runs_to_step [where act = "small_act newcap order", OF go])
qed

lemma fresh_slab_run:
  assumes k: "k < length (sm_slabs s)" "smallArena_alloc (smallArena_reset (sm_slabs s ! k)) sz = (a, r)"
    and ok: "append_ok newcap order" and now: "slice_shows (sm_slice s i) (sm_small s i)"
  shows "\<exists>s'. runs_to (small_act newcap order) (s, SmallReset i sz k) (s', SmallReturned sz r) \<and>
    sm_slabs s' = (sm_slabs s)[k := a] \<and> sm_small s' = (sm_small s)(i := sm_small s i @ [k]) \<and> sm_pool s' = sm_pool s \<and>
    slice_shows (settled s' i) (sm_small s' i) \<and> (\<forall>j. j \<noteq> i \<longrightarrow> settled s' j = settled s j)"
proof -
  let ?s1 = "s\<lparr>sm_slabs := (sm_slabs s)[k := smallArena_reset (sm_slabs s ! k)]\<rparr>"
  obtain m ps where stores: "append_stores newcap k (sm_slice s i) = (m, ps)"
    by fastforce
  define s2 where "s2 = ?s1\<lparr>sm_slice := (sm_slice s)(i := m), sm_stores := (sm_stores s)(i := order ps),
      sm_small := (sm_small s)(i := sm_small s i @ [k])\<rparr>"
  define s3 where "s3 = s2\<lparr>sm_slice := (sm_slice s2)(i := settled s2 i), sm_stores := (sm_stores s2)(i := [])\<rparr>"
  have a: "smallArena_alloc (sm_slabs s3 ! k) sz = (a, r)"
    using k by (simp add: s3_def s2_def)
  obtain t where t: "small_attempt s3 k sz = (t, r)"
    using a by (auto simp: small_attempt_def)
  let ?t = "t\<lparr>sm_lock := (sm_lock t)(i := False)\<rparr>"
  note S = small_attempt_slabs [OF t a] small_attempt_same [OF t]
  have "runs_to (small_act newcap order) (s3, SmallLast i sz k) (?t, SmallReturned sz r)"
    by (rule runs_to_step [rotated], rule runs_to_step [rotated], rule runs_to_refl) (simp_all add: t)
  then have "runs_to (small_act newcap order) (s2, SmallStores i sz k) (?t, SmallReturned sz r)"
    using runs_to_trans [OF stores_run [of newcap order s2 i sz k]] by (simp add: s3_def)
  then have run: "runs_to (small_act newcap order) (s, SmallReset i sz k) (?t, SmallReturned sz r)"
    by (intro runs_to_step [OF _ runs_to_step]) (auto simp: stores s2_def)
  have "\<And>n. n < newcap n" "mset (order ps) = mset ps"
    using ok by (simp_all add: append_ok_def)
  from append_shows [OF now this(1) stores this(2)] have "slice_shows (settled s2 i) (sm_small s i @ [k])"
    by (simp add: settled_def s2_def)
  then have "slice_shows (settled ?t i) (sm_small ?t i)" "\<forall>j. j \<noteq> i \<longrightarrow> settled ?t j = settled s j"
    by (simp_all add: settled_def S s3_def) (simp_all add: s2_def)
  then show ?thesis
    using run S by (intro exI [of _ ?t]) (simp add: s3_def s2_def)
qed

lemma pool_take_map: "pool_take c (map f xs) = map_option (map_prod f (map f)) (pool_take c xs)"
  by (auto simp: pool_take_def take_map drop_map split: option.splits)

text \<open>The state that a goroutine on shard \<open>i\<close> leaves, as the sequential model sees it.\<close>

definition leaves :: "small_state \<Rightarrow> small_state \<Rightarrow> nat \<Rightarrow> smallArena list \<Rightarrow> smallArena list \<Rightarrow> bool" where
  "leaves s s' i small pool \<longleftrightarrow> listed_all s' = (listed_all s)[i := \<lparr>sh_small = small, sh_pool = pool\<rparr>] \<and> slices_show s'"

lemma leaves_trans: "leaves s t i small pool \<Longrightarrow> leaves t s' i small' pool' \<Longrightarrow> leaves s s' i small' pool'"
  by (simp add: leaves_def)

lemma listed_lock [simp]: "listed_all (s\<lparr>sm_lock := l\<rparr>) = listed_all s" "slices_show (s\<lparr>sm_lock := l\<rparr>) = slices_show s"
  by (simp_all add: listed_all_def listed_def slices_show_def settled_def)

lemma slabs_tried_idle:
  assumes "places_ok s ls" "slabs_tried s s' (sm_small s i) as"
  shows "map ((!) (sm_slabs s')) (sm_pool s' i) = map ((!) (sm_slabs s)) (sm_pool s i)"
proof -
  have "sm_slabs s' ! k = sm_slabs s ! k" if "k \<in> set (sm_pool s i)" for k
    using assms(2) places_okD(1) [OF assms(1), of "InSmall i" k "InPool i"] that by (auto simp: slabs_tried_def)
  then show ?thesis
    using assms(2) by (simp add: slabs_tried_def)
qed

lemma slabs_tried_show: "slabs_tried s s' ks as \<Longrightarrow> slices_show s \<Longrightarrow> slices_show s'"
  by (simp add: slabs_tried_def slices_show_def settled_def)

lemma slabs_tried_leaves:
  assumes "places_ok s ls" "slices_show s" "i < smallShards" "slabs_tried s s' (sm_small s i) as"
  shows "leaves s s' i as (map ((!) (sm_slabs s)) (sm_pool s i))"
proof -
  note T = assms(4) [unfolded slabs_tried_def]
  have "listed s' i = \<lparr>sh_small = as, sh_pool = map ((!) (sm_slabs s)) (sm_pool s i)\<rparr>"
    using T slabs_tried_idle [OF assms(1,4)] by (simp add: listed_def)
  moreover have "listed s' j = listed s j" if "j \<noteq> i" for j
    using T by (intro listed_other [OF assms(1) that]) simp_all
  ultimately show ?thesis
    using listed_update [of i s' s] slabs_tried_show [OF assms(4,2)] assms(3) by (simp add: leaves_def)
qed

lemma places_kept:
  assumes "places_ok s ls" "length (sm_slabs s') = length (sm_slabs s)" "sm_small s' = sm_small s" "sm_pool s' = sm_pool s"
  shows "places_ok s' ls"
proof -
  have "lies s' ls p k = lies s ls p k" for p k
    using assms by (cases p) simp_all
  then show ?thesis
    using assms by (simp add: places_ok_def)
qed

text \<open>The path that holds the lock, from the call of \<open>Get\<close>.\<close>

lemma get_run:
  assumes ok: "append_ok newcap order" "places_ok s ls" "slices_show s" "sm_stores s i = []" and i: "i < smallShards" and feed: "sm_supply s = (c, p) # rest"
    and slab: "(case pool_take c (map ((!) (sm_slabs s)) (sm_pool s i)) of Some (a, pool) \<Rightarrow> (a, pool)
      | None \<Rightarrow> (newSmallArena p, map ((!) (sm_slabs s)) (sm_pool s i))) = (a, pool)"
    and alloc: "smallArena_alloc (smallArena_reset a) sz = (a', r)"
  shows "\<exists>s'. runs_to (small_act newcap order) (s, SmallGet i sz) (s', SmallReturned sz r) \<and>
    leaves s s' i (map ((!) (sm_slabs s)) (sm_small s i) @ [a']) pool"
proof -
  have bound: "k < length (sm_slabs s)" if "k \<in> set (sm_small s j) \<or> k \<in> set (sm_pool s j)" for k j
    using places_okD(2) [OF ok(2), of "InSmall j" k] places_okD(2) [OF ok(2), of "InPool j" k] that by auto
  have "\<exists>t k js. small_act newcap order (SmallGet i sz) s = Some (t, SmallReset i sz k) \<and> k < length (sm_slabs t) \<and> sm_slabs t ! k = a \<and>
      sm_small t = sm_small s \<and> sm_slice t = sm_slice s \<and> sm_stores t = sm_stores s \<and>
      sm_pool t = (sm_pool s)(i := js) \<and> map ((!) (sm_slabs t)) js = pool \<and> k \<notin> set js \<and>
      set js \<subseteq> set (sm_pool s i) \<and> (k \<in> set (sm_pool s i) \<or> k = length (sm_slabs s)) \<and>
      (\<forall>j < length (sm_slabs s). sm_slabs t ! j = sm_slabs s ! j)"
  proof (cases "pool_take c (sm_pool s i)")
    case None
    then have "a = newSmallArena p" "pool = map ((!) (sm_slabs s)) (sm_pool s i)"
      using slab by (simp_all add: pool_take_map)
    then show ?thesis
      using None feed bound [of _ i]
      by (intro exI [of _ "s\<lparr>sm_supply := rest, sm_slabs := sm_slabs s @ [newSmallArena p]\<rparr>"]
          exI [of _ "length (sm_slabs s)"] exI [of _ "sm_pool s i"]) (auto simp: nth_append)
  next
    case (Some kj)
    obtain k js where kj: "kj = (k, js)" by (cases kj)
    then have "a = sm_slabs s ! k" "pool = map ((!) (sm_slabs s)) js"
      using slab Some by (simp_all add: pool_take_map)
    then show ?thesis
      using Some kj feed bound [of k i] pool_take_Some [of c "sm_pool s i" k js] places_okD(4) [OF ok(2), of i]
      by (intro exI [of _ "s\<lparr>sm_supply := rest, sm_pool := (sm_pool s)(i := js)\<rparr>"] exI [of _ k] exI [of _ js]) auto
  qed
  then obtain t k js where t: "small_act newcap order (SmallGet i sz) s = Some (t, SmallReset i sz k)" "k < length (sm_slabs t)"
      "sm_slabs t ! k = a" "sm_small t = sm_small s" "sm_slice t = sm_slice s" "sm_stores t = sm_stores s"
      "sm_pool t = (sm_pool s)(i := js)" "map ((!) (sm_slabs t)) js = pool" "k \<notin> set js"
      "set js \<subseteq> set (sm_pool s i)" "k \<in> set (sm_pool s i) \<or> k = length (sm_slabs s)"
      "\<forall>j < length (sm_slabs s). sm_slabs t ! j = sm_slabs s ! j"
    by blast
  have set: "settled t j = settled s j" for j
    by (simp add: settled_def t)
  have "slice_shows (sm_slice t i) (sm_small t i)"
    using ok(3,4) by (metis fold_simps(1) settled_def slices_show_def t(4,5))
  then obtain s' where s': "runs_to (small_act newcap order) (t, SmallReset i sz k) (s', SmallReturned sz r)" "sm_slabs s' = (sm_slabs t)[k := a']"
    "sm_small s' = (sm_small t)(i := sm_small t i @ [k])" "sm_pool s' = sm_pool t"
    "slice_shows (settled s' i) (sm_small s' i)" "\<forall>j. j \<noteq> i \<longrightarrow> settled s' j = settled s j"
    using fresh_slab_run [OF t(2) _ ok(1), of sz a' r i] alloc t(3) by (auto simp: set)
  have order: "slices_show s'"
    unfolding slices_show_def
  proof
    show "slice_shows (settled s' j) (sm_small s' j)" for j
      using s'(3,5,6) ok(3) t(4) by (cases "j = i") (simp_all add: slices_show_def)
  qed
  have new: "k \<notin> set (sm_small s j)" for j
    using t(11) bound [of k j] places_okD(1) [OF ok(2), of "InSmall j" k "InPool i"] by auto
  have same: "sm_slabs s' ! j = sm_slabs s ! j" if "j < length (sm_slabs s)" "j \<noteq> k" for j
    using t(12) that by (simp add: s'(2))
  have "map ((!) (sm_slabs s')) js = pool"
    using t(8,9) by (auto simp: s'(2)) (metis nth_list_update_neq)
  moreover have "map ((!) (sm_slabs s')) (sm_small s i) = map ((!) (sm_slabs s)) (sm_small s i)"
    using same new [of i] bound by (intro map_cong refl) metis
  ultimately have "listed s' i = \<lparr>sh_small = map ((!) (sm_slabs s)) (sm_small s i) @ [a'], sh_pool = pool\<rparr>"
    using t(2) by (simp add: listed_def s'(2-4) t(4,7))
  moreover have "listed s' j = listed s j" if "j \<noteq> i" for j
  proof (rule listed_other [OF ok(2) that])
    show "sm_slabs s' ! l = sm_slabs s ! l" if "l < length (sm_slabs s)" "l \<notin> set (sm_small s i)" "l \<notin> set (sm_pool s i)" for l
      using same that t(11) by auto
  qed (simp_all add: s'(2-4) t(4,7) that)
  ultimately have "leaves s s' i (map ((!) (sm_slabs s)) (sm_small s i) @ [a']) pool"
    using listed_update [of i s' s] i order by (simp add: leaves_def)
  with runs_to_step [where act = "small_act newcap order", OF t(1) s'(1)] show ?thesis by blast
qed

lemma slow_run:
  assumes ok: "append_ok newcap order" "places_ok s ls" "slices_show s" "sm_stores s i = []" and i: "i < smallShards" and feed: "sm_supply s = (c, p) # rest"
    and free: "\<not> sm_lock s i" and again: "try_small sz (map ((!) (sm_slabs s)) (sm_small s i)) = (small, ro)"
    and result: "(case ro of Some r \<Rightarrow> (small, map ((!) (sm_slabs s)) (sm_pool s i), r)
      | None \<Rightarrow> let (a, pool) = (case pool_take c (map ((!) (sm_slabs s)) (sm_pool s i)) of Some (a, pool) \<Rightarrow> (a, pool)
            | None \<Rightarrow> (newSmallArena p, map ((!) (sm_slabs s)) (sm_pool s i)));
          (a', r) = smallArena_alloc (smallArena_reset a) sz in (small @ [a'], pool, r)) = (small', pool', r)"
  shows "\<exists>s'. runs_to (small_act newcap order) (s, SmallLock i sz) (s', SmallReturned sz r) \<and> leaves s s' i small' pool'"
proof -
  let ?t = "s\<lparr>sm_lock := (sm_lock s)(i := True)\<rparr>"
  have ok': "places_ok ?t ls" "slices_show ?t" "slice_shows (sm_slice ?t i) (sm_small ?t i)"
    using ok(3,4) by (simp_all add: places_kept [OF ok(2)]) (metis fold_simps(1) settled_def slices_show_def)
  obtain t where t: "runs_to (small_act newcap order) (?t, SmallRead True False i sz)
      (t, case ro of None \<Rightarrow> SmallGet i sz | Some r \<Rightarrow> SmallUnlock i sz r)" "slabs_tried ?t t (sm_small ?t i) small"
    using range_run [OF ok'(3,1), where sz = sz and as = small and ro = ro and lk = True and f = False and newcap = newcap and order = order] again
    by (cases ro) (auto simp: finish_def)
  have to_t: "runs_to (small_act newcap order) (s, SmallLock i sz) (t, case ro of None \<Rightarrow> SmallGet i sz | Some r \<Rightarrow> SmallUnlock i sz r)"
    by (rule runs_to_step [rotated], rule t(1)) (simp add: free)
  note T = t(2) [unfolded slabs_tried_def]
  have left: "leaves s t i small (map ((!) (sm_slabs s)) (sm_pool s i))"
    using slabs_tried_leaves [OF ok'(1,2) i t(2)] by (simp add: leaves_def)
  show ?thesis
  proof (cases ro)
    case (Some r')
    let ?s = "t\<lparr>sm_lock := (sm_lock t)(i := False)\<rparr>"
    have "runs_to (small_act newcap order) (t, SmallUnlock i sz r') (?s, SmallReturned sz r')"
      by (intro runs_to_step [OF _ runs_to_refl]) simp
    then show ?thesis
      using runs_to_trans [OF to_t] Some result left by (intro exI [of _ ?s]) (simp add: leaves_def)
  next
    case None
    obtain a pool where a: "(case pool_take c (map ((!) (sm_slabs s)) (sm_pool s i)) of Some (a, pool) \<Rightarrow> (a, pool)
            | None \<Rightarrow> (newSmallArena p, map ((!) (sm_slabs s)) (sm_pool s i))) = (a, pool)"
      by fastforce
    obtain a' where a': "smallArena_alloc (smallArena_reset a) sz = (a', r)" "small' = small @ [a']" "pool' = pool"
      using result None a by (auto split: prod.splits)
    have same: "map ((!) (sm_slabs t)) (sm_pool t i) = map ((!) (sm_slabs s)) (sm_pool s i)" "map ((!) (sm_slabs t)) (sm_small t i) = small"
      using slabs_tried_idle [OF ok'(1) t(2)] T by simp_all
    have "places_ok t ls" "sm_supply t = (c, p) # rest" "slices_show t" "sm_stores t i = []"
      using T feed ok(4) slabs_tried_show [OF t(2) ok'(2)] by (simp_all add: places_kept [OF ok(2)])
    then obtain s' where s': "runs_to (small_act newcap order) (t, SmallGet i sz) (s', SmallReturned sz r)" "leaves t s' i (small @ [a']) pool"
      using get_run [OF ok(1), of t ls i c p rest a pool sz a' r] i a a'(1) unfolding same by blast
    show ?thesis
      using runs_to_trans [OF to_t] s'(1) None leaves_trans [OF left s'(2)] a' by (intro exI [of _ s']) simp
  qed
qed

lemma small_alone:
  assumes append: "append_ok newcap order" and shape: "small_shape s ls" and feed: "sm_supply s = (c, p) # rest" and free: "\<not> sm_lock s (unat (tid mod 8))"
  shows "\<exists>s' r. runs_to (small_act newcap order) (s, SmallRead False f (unat (tid mod 8)) sz) (s', SmallReturned sz r) \<and>
    allocSmall (h\<lparr>hy_shards := small_view s\<rparr>) c p sz tid = (h\<lparr>hy_shards := small_view s'\<rparr>, r)"
proof -
  let ?i = "unat (tid mod 8)" and ?h = "h\<lparr>hy_shards := small_view s\<rparr>"
  let ?ks = "sm_small s ?i" and ?idle = "map ((!) (sm_slabs s)) (sm_pool s ?i)"
  note ok = small_shapeD(1) [OF shape] and now = free_settled [OF shape free]
  have order: "slices_show s"
    using slices_okD(1) [OF small_shapeD(3) [OF shape]] by (simp add: slices_show_def)
  have view: "small_view s = listed_all s"
    by (rule small_view_listed [OF order])
  have i: "?i < smallShards"
    using unat_mod_less_u64 [of 8 tid] by (simp add: smallShards_def)
  have shard: "hy_shards ?h ! ?i = \<lparr>sh_small = map ((!) (sm_slabs s)) ?ks, sh_pool = ?idle\<rparr>"
    using i by (simp add: view listed_all_def listed_def)
  have result: "set_small ?h ?i small pool = h\<lparr>hy_shards := small_view s'\<rparr>" if "leaves s s' ?i small pool" for s' small pool
    using that view small_view_listed [of s'] by (simp add: set_small_def leaves_def)
  obtain small ro where first: "try_small sz (map ((!) (sm_slabs s)) ?ks) = (small, ro)" by fastforce
  obtain t where t: "runs_to (small_act newcap order) (s, SmallRead False f ?i sz) (t, case ro of None \<Rightarrow> SmallLock ?i sz | Some r \<Rightarrow> SmallReturned sz r)"
    "slabs_tried s t ?ks small"
    using range_run [OF now(2) ok first, where lk = False and f = f and newcap = newcap and order = order]
    by (cases ro) (auto simp: finish_def)
  note left = slabs_tried_leaves [OF ok order i t(2)] and T = t(2) [unfolded slabs_tried_def]
  show ?thesis
  proof (cases ro)
    case (Some r)
    have "allocSmall ?h c p sz tid = (set_small ?h ?i small ?idle, r)"
      unfolding allocSmall_def Let_def shard using first Some by simp
    then show ?thesis
      using t(1) Some result [OF left] by (intro exI [of _ t] exI [of _ r]) simp
  next
    case None
    obtain small2 ro2 where again: "try_small sz small = (small2, ro2)" by fastforce
    obtain small' pool' r where r: "(case ro2 of Some r \<Rightarrow> (small2, ?idle, r)
      | None \<Rightarrow> let (a, pool) = (case pool_take c ?idle of Some (a, pool) \<Rightarrow> (a, pool) | None \<Rightarrow> (newSmallArena p, ?idle));
          (a', r) = smallArena_alloc (smallArena_reset a) sz in (small2 @ [a'], pool, r)) = (small', pool', r)"
      by (metis prod_cases3)
    have "places_ok t ls" "slices_show t" "sm_stores t ?i = []" "sm_supply t = (c, p) # rest" "\<not> sm_lock t ?i"
      "map ((!) (sm_slabs t)) (sm_small t ?i) = small" "map ((!) (sm_slabs t)) (sm_pool t ?i) = ?idle"
      using T feed free now(1) slabs_tried_idle [OF ok t(2)] slabs_tried_show [OF t(2) order] by (simp_all add: places_kept [OF ok])
    then obtain s' where s': "runs_to (small_act newcap order) (t, SmallLock ?i sz) (s', SmallReturned sz r)" "leaves t s' ?i small' pool'"
      using slow_run [OF append, of t ls ?i c p rest sz small2 ro2 small' pool' r] i again r by metis
    have "allocSmall ?h c p sz tid = (set_small ?h ?i small' pool', r)"
      unfolding allocSmall_def Let_def shard using first None again r by (auto split: option.splits prod.splits)
    then show ?thesis
      using runs_to_trans [OF t(1)] s'(1) None result [OF leaves_trans [OF left s'(2)]] by (intro exI [of _ s'] exI [of _ r]) simp
  qed
qed

text \<open>
  C18: the machine computes what the sequential model computes: a small request that runs alone, from
  any reachable state in which nobody holds the lock of its shard, returns, with the result of the
  sequential \<open>allocSmall\<close> on the same shards, and leaves the shards as it does.
  The shards are read from the words and cells of the slices. The other goroutines may stand anywhere,
  and the cells of old arrays may hold anything.
\<close>

theorem conc_small_alone_sequential:
  assumes "append_ok newcap order" "small_quiet s0" "reach (small_act newcap order) small_call (s0, \<lambda>_. SmallIdle) (s, ls)"
    and "sm_supply s = (c, p) # rest" "\<not> sm_lock s (unat (tid mod 8))"
  shows "\<exists>s' r. runs_to (small_act newcap order) (s, SmallRead False len_first (unat (tid mod 8)) sz) (s', SmallReturned sz r) \<and>
    allocSmall (h\<lparr>hy_shards := small_view s\<rparr>) c p sz tid = (h\<lparr>hy_shards := small_view s'\<rparr>, r)"
  using small_alone [OF assms(1) conc_small_shape [OF assms(1-3)] assms(4,5)] .

text \<open>After the two goroutines of the race, a third one takes 16 bytes.\<close>

theorem conc_small_alone_sequential_witness:
  "\<exists>s ls. reach sample_act small_call (small_start_state, \<lambda>_. SmallIdle) (s, ls) \<and>
    (\<forall>h. \<exists>s' r. runs_to sample_act (s, SmallRead False False 0 16) (s', SmallReturned 16 r) \<and>
      allocSmall (h\<lparr>hy_shards := small_view s\<rparr>) None 0x200000 16 8 = (h\<lparr>hy_shards := small_view s'\<rparr>, r))"
proof -
  obtain s ls where s: "reach sample_act small_call (small_start_state, \<lambda>_. SmallIdle) (s, ls)" "int (sm_tried s) + 4096 < 2 ^ 63"
    "ls 0 = SmallReturned 64 (Ok 0x100020)" "ls 1 = SmallReturned 32 (Ok 0x100000)" "sm_supply s = [(None, 0x200000)]" "\<not> sm_lock s 0"
    by (rule small_race_run)
  have "small_quiet small_start_state"
    using small_start_fresh by (simp add: small_fresh_def)
  then have "\<exists>s' r. runs_to sample_act (s, SmallRead False False 0 16) (s', SmallReturned 16 r) \<and>
      allocSmall (h\<lparr>hy_shards := small_view s\<rparr>) None 0x200000 16 8 = (h\<lparr>hy_shards := small_view s'\<rparr>, r)" for h
    using conc_small_alone_sequential [OF sample_append_ok _ s(1,5), of 8 False 16 h] s(6) by simp
  with s(1) show ?thesis by blast
qed

end
