(* ===== verification/Spec2Isabelle.thy ===== *)
theory Spec2Isabelle
  imports Secure_Buffer Webapp Conc_Balloc_Aba Conc_Hybrid_Props
begin

text \<open>
  A verification of beaver, a Go library of memory allocators. The library has four packages that
  hand out memory (balloc, arena, pure, secure), the package alloc, which puts the first two and a
  hybrid of slabs and balloc behind one interface and carries them through contexts, pools, HTTP
  middleware, typed slices, buffers and JSON helpers, and two example programs, one that computes on
  the allocators and a web server.

  \<^bold>\<open>How the code is modelled.\<close> A Go function is a HOL function of the same name, with the package
  in front where names clash (\<open>balloc_Alloc\<close>, \<open>arena_Alloc\<close>, \<open>pure_Alloc\<close>, \<open>secure_Alloc\<close>). A method
  takes the receiver's record and returns the updated one beside the result. A result is an
  \<open>outcome\<close>: a value, an error of the code, a panic, or no return at all (Prelude). \<open>uintptr\<close> and
  \<open>uint64\<close> are 64-bit words and wrap; \<open>int\<close> is an integer that is reduced to 64 bits (\<open>i64\<close>) wherever
  the code computes with it. Pointers into the node area of balloc and to tree nodes of arena are
  raw addresses in a store of nodes; bytes are a memory from addresses to bytes (Go_Memory). What
  the environment decides is an argument: the answer of the mapping call, the history-dependent
  answers of the kernel, the address of a new Go slice, slab or tree node, the item that
  \<open>sync.Pool\<close> returns, \<open>encoding/json\<close>, the next HTTP handler, floating-point arithmetic.

  \<^bold>\<open>Theories and the files they model.\<close>
  \<^item> Prelude: outcomes, errors, panics, and the facts on words and signed integers. Alloc_Spec: the
    contract of an allocator as a chain of locales (\<open>allocator\<close>, \<open>resettable_allocator\<close>,
    \<open>total_allocator\<close>), with the theorem about any sequence of requests proved once. Go_Memory and
    Go_Context: memory, slices, \<open>copy\<close>, \<open>make\<close>, the doubling loop of the buffers; contexts and pools.
  \<^item> Topology: balloc/bootstrap.go, balloc/topology.go, arena/bootstrap.go, arena/topology.go: the
    scale is the least power of two, buckets are in range, \<open>gfMultiply\<close> is multiplication of
    polynomials over GF(2) modulo the polynomial that has the bit of the scale and, below it, the bits
    of the given one; the table is a Latin square.
  \<^item> Mem_Tree: balloc/tree.go and the walks of arena/tree.go: trees in a store refine finite maps;
    the locale \<open>tree_insert\<close> covers the insertion of both packages.
  \<^item> Balloc: balloc/core.go, balloc/mmap_unix.go, balloc/mmap_windows.go. Balloc_Spec: an abstract
    heap of blocks, a free list and two counters, and a simulation of it by every operation.
    Balloc_Inv: its invariant, and with it that of the code. Balloc_Props, Balloc_Life: the contract,
    the result of every call, sequences of calls, owners, reuse, the budget of the node area, \<open>New\<close>,
    \<open>Reset\<close>, \<open>Close\<close>; and what the code does not prevent: a second free of a block, sizes near the
    end of the address space.
  \<^item> Arena: arena/core.go, arena/tree.go: pinned blocks are exactly the owned ones; results of every
    call; the race between \<open>Share\<close> and \<open>FreeVarying\<close>, which is split where it takes its lock.
  \<^item> Hybrid, Hybrid_Props: alloc/hybrid.go: slabs and the block allocator never overlap.
  \<^item> Pure_Arena, Pure_Buffer, Pure_Http: the package pure: bump arena, buffer (\<open>Write\<close> appends, \<open>Read\<close>
    drains), pool and middleware, JSON.
  \<^item> Secure_Mem: secure/zero and secure/flush in Go and assembly. Secure_Sys: the calls of the five
    platforms, as functions of a kernel; a failed call leaves nothing mapped or locked.
    Secure_Buffer: secure/buffer.go and secure/arena.go: \<open>NewBuffer\<close> gives all or nothing, \<open>Destroy\<close>
    leaves no secret in memory or, on cache lines of whole multiples of 64 bytes, behind the cache; the
    arena behaves as that of pure.
  \<^item> Alloc_Core, Alloc_Buffer, Alloc_Http: alloc/core.go, alloc/generic.go, alloc/buffer.go,
    alloc/http.go, alloc/json.go: every implementation behind the interface obeys the contract;
    typed slices, the buffer (which loses its contents when it grows), the middleware, JSON.
  \<^item> Compute: examples/compute/workload.go and main.go: the three ways to run the workload have one
    value, and the program prints it twice. Webapp: examples/webapp/main.go: every query is answered
    with the rows it asks for; their labels are strings of the Go heap to which only the mapping points,
    and are right as long as the collector leaves them alone.
  \<^item> Threads: goroutines that share a state, as a relation of interleavings; what an invariant and
    a goroutine left alone mean. Conc_List, Conc_List_Props: \<open>pushFree\<close> and \<open>popFree\<close> of balloc/tree.go as
    single loads, stores and compare-and-swaps. Conc_Tree, Conc_Tree_Props: \<open>insertNode\<close>, \<open>insertBelow\<close>,
    \<open>findNode\<close> and \<open>clearOwner\<close> of balloc/tree.go and their twins in arena/tree.go in the same way.
  \<^item> Conc_Balloc: \<open>Alloc\<close>, \<open>FreeVarying\<close> and \<open>Share\<close> of balloc/core.go as one machine, made of those two and of
    the atomic additions to the bump pointers and the counter. Conc_Tokens: the ownership protocol
    alone, as a set of moves that keep its rules. Conc_Effects: what an action of the list or the tree
    does to owner masks and slots. Conc_Balloc_Inv, Conc_Balloc_Props: every action is a move of the
    protocol or none, so blocks stay apart and the last owner alone reclaims a block. Conc_Balloc_Safe,
    Conc_Balloc_Alone: for all sizes, calls do not block each other, and a call that runs alone is the
    sequential one. Conc_Balloc_Aba: from every state in which the head of the free list is smaller than
    the block behind it, two calls can return the same block.
  \<^item> Slice_Words: a slice of pointers as three words and arrays of cells; the stores of an \<open>append\<close> have
    the same effect in every order. Conc_Hybrid, Conc_Hybrid_Props: \<open>allocSmall\<close> of alloc/hybrid.go as a
    machine of additions to slab offsets, single loads and stores of the words and cells of the slices
    of slabs, and locks: a slab is in one place at any time, no two goroutines get a byte in common
    before the first \<open>Reset\<close>, and a request that runs alone is the sequential one; and runs in which a
    goroutine reads a slice in the middle of an \<open>append\<close>.

  \<^bold>\<open>How the parts interact.\<close> The locales of Alloc_Spec are interpreted on the models of balloc,
  pure, secure, hybrid and of the interface; the interpretation on the interface rests on those of
  its implementations. The locale \<open>recycling_pool\<close> of Go_Context is interpreted on the pools of pure
  and alloc and carries the theorems on both middlewares; the web server interprets it once more on
  the block allocators of its own factory. The buffers, the middleware and JSON of alloc use only the
  interface. A hybrid allocator contains a block allocator; the secure arena refines the pure one.

  \<^bold>\<open>Concurrency.\<close> The lock-free code of balloc is modelled twice. The sequential definitions are what the
  other theories use. The machines of Conc_List, Conc_Tree and Conc_Balloc do one access to shared
  memory at a time, and any number of goroutines take turns in any order; the locale
  \<open>shared_invariant\<close> of Threads is interpreted on them with an invariant for each question. The theorems
  tie the two models together: a whole call that is left alone returns with the result of the
  sequential one, and an operation on the tree takes effect in one action as the sequential one would
  at that moment. Nothing that was inserted is lost and no pointer dangles. When all requests round to
  one size, a block is in one place at any time, owner bits are in one hand, and of several owners
  that free a block at once exactly the last puts it on the free list. The clients' side of that
  protocol is the premise of \<open>conc_call\<close>: they free for owners that they are, and share with owners
  that nobody else brings in. With requests of different sizes the free list can hand out a block
  twice. The machine of Conc_Hybrid is the other kind of concurrent code of the library, a fast path
  without the lock of a shard and a slow path with it. The fast path reads a slice that the slow path
  stores to: the two loads of its header, the load of every cell and every store of an \<open>append\<close> are
  actions of their own, and the stores become visible in any order. A cell that is still nil makes
  the goroutine panic, a cell from before the last \<open>Reset\<close> gives it a slab of the pool, and behind the
  end of an array the machine stops it. A goroutine that waits for the lock has no action, so nothing
  is said of its progress.

  \<^bold>\<open>Bounds.\<close> \<open>maxAlloc\<close> is 2^48, the largest size of a Go slice. \<open>no_wrap\<close> says that the bump pointers
  of a block allocator do not pass 2^64 during the call; \<open>balloc_size_wrap\<close> shows that it is needed.
  The concurrent theorems ask the same of the whole run (\<open>in_range\<close>, \<open>nodes_in_range\<close>), and those on
  slabs that all attempts together stay below 2^63 bytes, so that no signed offset wraps. The node area
  has 4096 nodes of 40 bytes. Loops over tree nodes and the doubling loop are partial functions that
  give None when they do not return, and are shown to return; the loops of the assembly and of the
  examples are bounded by the length they are given.

  \<^bold>\<open>Not modelled.\<close> \<open>Reset\<close> and \<open>Close\<close> of balloc during other operations, which the code does not guard: the
  machine of Conc_Balloc is that of an allocator that is open. Operations of arena are interleaved in
  its tree and where \<open>FreeVarying\<close> takes its lock, small requests to a hybrid allocator as they stand
  (but not with its \<open>Reset\<close>, which the code does not guard either), those of other packages not at all.
  Memory is sequentially consistent, as the atomic operations of Go are, but for the order of the
  stores of an \<open>append\<close>; plain accesses of the code to single words (\<open>slot.next\<close>, \<open>b.MemTree\<close>) are taken as
  atomic ones. Locks are left out where all of an operation runs under them. Finalizers and cleanups
  run by the garbage collector; what a collection does to the labels of the web server is a parameter.
  The effect of a cache flush beyond writing a line back; the length of a line is a parameter. The
  encoder of \<open>encoding/json\<close> is taken to make one call of \<open>Write\<close>. Of the kernel it is assumed that it
  lets go of what the code maps and locks when the code asks for exactly that (\<open>undo_ok\<close>); the code
  ignores the errors of these calls. The time the examples measure, tests, and the documentation, which was
  read for what the code intends.
\<close>

section \<open>Lock-free code\<close>

text \<open>
  C19: type safety of the lock-free parts of balloc and arena. After any interleaving of any number
  of goroutines on the free list, with blocks and requests of any size, and on the search tree, a
  goroutine in the middle of an operation can do its next action: every pointer it follows, stores
  to or compares leads to a slot or a node. No goroutine is ever stuck, also none that lost a race.
\<close>

theorem lock_free_never_dangling:
  assumes "reach list_act (list_call (\<lambda>_. True) (\<lambda>_. True)) (empty_list, \<lambda>_. ListIdle) (f, ls)" "\<not> list_done (ls t)"
    and "reach (tree_act resize) tree_call (empty_tree, \<lambda>_. TreeIdle) (s, ps)" "\<not> tree_done (ps u)"
  shows "list_act (ls t) f \<noteq> None \<and> tree_act resize (ps u) s \<noteq> None"
proof -
  obtain n where "returns_within (tree_act resize) tree_done n s (ps u)"
    using tree_reach_returns [OF assms(3)] by blast
  from returns_within_enabled [OF this assms(4)] returns_within_enabled [OF list_reach_safe(3) [OF assms(1)] assms(2)]
  show ?thesis by blast
qed

theorem lock_free_never_dangling_witness:
  "\<exists>f ls. list_run (\<lambda>_. True) (\<lambda>_. True) [Call 0 (DoPush 16 0x1000 64)] (empty_list, \<lambda>_. ListIdle) = Some (f, ls) \<and>
    \<not> list_done (ls 0) \<and> list_act (ls 0) f \<noteq> None \<and> tree_act True (snd two_nodes 1) (fst two_nodes) \<noteq> None"
proof -
  obtain s ps where c: "two_nodes = (s, ps)" by (cases two_nodes)
  then have u: "\<not> tree_done (ps 1)"
    by (auto simp: two_nodes_def)
  obtain f ls where r: "list_run (\<lambda>_. True) (\<lambda>_. True) [Call 0 (DoPush 16 0x1000 64)] (empty_list, \<lambda>_. ListIdle) = Some (f, ls)"
    and t: "\<not> list_done (ls 0)"
    by (simp add: empty_list_def)
  show ?thesis
    using lock_free_never_dangling [OF list_run_from_start [OF r] t tree_run_from_start [OF two_inserts_run [of True, unfolded c]] u] r t
    unfolding c fst_conv snd_conv by blast
qed

end
